(* ===== verification/Prelude_C.thy ===== *)
theory Prelude_C
  imports Main "HOL-Library.Word" "HOL-Library.Monad_Syntax" "HOL-Library.Multiset"
begin

text \<open>
  Shared vocabulary of the development: the fixed-width integers of the C programs, memory
  blocks as lists with checked access, little-endian byte encodings, and the generic list and
  word lemmas that the component theories use.

  A C computation that has no defined result (an access outside a block, a failed
  \<open>assert\<close>, a loop that never ends) is the value \<open>None\<close>; a defined result \<open>r\<close> is
  \<open>Some r\<close>. Sizes and indices of allocated blocks are \<open>nat\<close>: the blocks live in memory, so
  they stay far below \<open>2 ^ 64\<close>. Values whose wrap-around or bit pattern the code relies on are
  words of the width the code declares.
\<close>

unbundle bit_operations_syntax

subsection \<open>Types\<close>

type_synonym u8 = "8 word"
type_synonym u16 = "16 word"
type_synonym u32 = "32 word"
type_synonym u64 = "64 word"
type_synonym bytes = "u8 list"

named_theorems c_mem

subsection \<open>Memory blocks\<close>

definition mem_get :: "'a list \<Rightarrow> nat \<Rightarrow> 'a option" where
  "mem_get xs i = (if i < length xs then Some (xs ! i) else None)"

definition mem_set :: "'a list \<Rightarrow> nat \<Rightarrow> 'a \<Rightarrow> 'a list option" where
  "mem_set xs i x = (if i < length xs then Some (xs[i := x]) else None)"

text \<open>
  \<open>mem_slice xs i n\<close> reads \<open>n\<close> cells from offset \<open>i\<close>; \<open>mem_write xs i ys\<close> overwrites the
  cells from offset \<open>i\<close> with \<open>ys\<close>: the two halves of \<open>memcpy\<close> and \<open>memmove\<close>.
\<close>

definition mem_slice :: "'a list \<Rightarrow> nat \<Rightarrow> nat \<Rightarrow> 'a list option" where
  "mem_slice xs i n = (if i + n \<le> length xs then Some (take n (drop i xs)) else None)"

definition mem_write :: "'a list \<Rightarrow> nat \<Rightarrow> 'a list \<Rightarrow> 'a list option" where
  "mem_write xs i ys =
     (if i + length ys \<le> length xs
      then Some (take i xs @ ys @ drop (i + length ys) xs) else None)"

lemma mem_get_Some [simp]: "mem_get xs i = Some x \<longleftrightarrow> i < length xs \<and> x = xs ! i"
  by (auto simp: mem_get_def)

lemma mem_get_None [simp]: "mem_get xs i = None \<longleftrightarrow> length xs \<le> i"
  by (auto simp: mem_get_def)

lemma mem_get_nth [c_mem]: "i < length xs \<Longrightarrow> mem_get xs i = Some (xs ! i)"
  by (simp add: mem_get_def)

lemma mem_set_Some [simp]: "mem_set xs i x = Some ys \<longleftrightarrow> i < length xs \<and> ys = xs[i := x]"
  by (auto simp: mem_set_def)

lemma mem_set_upd [c_mem]: "i < length xs \<Longrightarrow> mem_set xs i x = Some (xs[i := x])"
  by (simp add: mem_set_def)

lemma mem_slice_Some [simp]:
  "mem_slice xs i n = Some ys \<longleftrightarrow> i + n \<le> length xs \<and> ys = take n (drop i xs)"
  by (auto simp: mem_slice_def)

lemma mem_write_Some [simp]:
  "mem_write xs i ys = Some zs \<longleftrightarrow>
     i + length ys \<le> length xs \<and> zs = take i xs @ ys @ drop (i + length ys) xs"
  by (auto simp: mem_write_def)

subsection \<open>Lists\<close>

lemma take_Suc_snoc: "i < length xs \<Longrightarrow> take (Suc i) xs = take i xs @ [xs ! i]"
  by (rule take_Suc_conv_app_nth)

lemma drop_nth_Cons: "i < length xs \<Longrightarrow> drop i xs = xs ! i # drop (Suc i) xs"
  by (simp add: Cons_nth_drop_Suc)

lemma if_both: "P a \<Longrightarrow> P b \<Longrightarrow> P (if c then a else b)"
  by simp

subsection \<open>Words\<close>

lemma unat_ucast_up:
  fixes w :: "'a::len word"
  assumes "LENGTH('a) \<le> LENGTH('b::len)"
  shows "unat (ucast w :: 'b word) = unat w"
proof -
  have "unat w < 2 ^ LENGTH('a)" by (rule unsigned_less)
  also have "\<dots> \<le> 2 ^ LENGTH('b)" using assms by (intro power_increasing) auto
  finally show ?thesis by (simp add: unsigned_ucast_eq take_bit_nat_eq_self)
qed

lemma unat_of_nat_small: "n < 2 ^ LENGTH('a) \<Longrightarrow> unat (of_nat n :: 'a::len word) = n"
  by (simp add: unsigned_of_nat take_bit_nat_eq_self)

lemma unat_drop: "unat (drop_bit k w) = unat w div 2 ^ k" for w :: "'a::len word"
  by (simp only: unsigned_drop_bit_eq) (simp add: take_bit_nat_eq_self drop_bit_eq_div)

subsection \<open>Unsigned sizes\<close>

text \<open>
  Arithmetic on \<open>size_t\<close> values with its wrap-around at \<open>2 ^ 64\<close>, for the places where the code
  may wrap; \<open>NEG1\<close> is \<open>(size_t) -1\<close>, which is also \<open>SIZE_MAX\<close>.
\<close>

definition NEG1 :: nat where "NEG1 = 2 ^ 64 - 1"

definition wadd :: "nat \<Rightarrow> nat \<Rightarrow> nat" where
  "wadd a b = (a + b) mod 2 ^ 64"

definition wsub :: "nat \<Rightarrow> nat \<Rightarrow> nat" where
  "wsub a b = (a + (2 ^ 64 - b)) mod 2 ^ 64"

lemma wadd_small: "a + b < 2 ^ 64 \<Longrightarrow> wadd a b = a + b"
  by (simp add: wadd_def)

lemma wsub_small: "b \<le> a \<Longrightarrow> a < 2 ^ 64 \<Longrightarrow> wsub a b = a - b"
proof -
  assume "b \<le> a" "a < 2 ^ 64"
  then have "a + (2 ^ 64 - b) = (a - b) + 2 ^ 64" by simp
  then have "wsub a b = ((a - b) + 2 ^ 64) mod 2 ^ 64" by (simp only: wsub_def)
  with \<open>a < 2 ^ 64\<close> show ?thesis by (simp only: mod_add_self2) simp
qed

lemma wadd_NEG1: "0 < b \<Longrightarrow> b \<le> 2 ^ 64 \<Longrightarrow> wadd NEG1 b = b - 1"
proof -
  assume "0 < b" "b \<le> 2 ^ 64"
  then have "NEG1 + b = (b - 1) + 2 ^ 64" by (simp add: NEG1_def)
  then have "wadd NEG1 b = ((b - 1) + 2 ^ 64) mod 2 ^ 64" by (simp only: wadd_def)
  with \<open>0 < b\<close> \<open>b \<le> 2 ^ 64\<close> show ?thesis by (simp only: mod_add_self2) simp
qed

end
