(* ===== verification/Imp_Hash.thy ===== *)
theory Imp_Hash
  imports Prelude_C
begin

text \<open>
  ImpCheck's clause table, \<open>impcheck/src/trusted/hash.c\<close>: an open-addressing hash table with
  linear probing, doubling growth and deletion by shifting later entries back.
  Key 0 marks an empty cell. The theory models every operation of the file and proves that the
  table refines a finite map. \<open>calloc\<close> never fails here: \<open>trusted_utils_calloc\<close> ends the
  process when memory is exhausted.
\<close>

subsection \<open>State\<close>

record 'v hash_table_entry =
  key :: u64
  val :: "'v option"

record 'v hash_table =
  ht_size :: nat
  max_size :: nat
  growth_factor :: nat
  capacity :: nat
  ht_data :: "'v hash_table_entry list"
  last_found_idx :: "nat option"

definition empty_entry :: "'v hash_table_entry" where
  "empty_entry = \<lparr>key = 0, val = None\<rparr>"

definition cell_empty :: "'v hash_table_entry \<Rightarrow> bool" where
  "cell_empty entry = (key entry = 0)"

definition compute_hash :: "u64 \<Rightarrow> u64" where
  "compute_hash k = (0xcbf29ce484222325 XOR k) * 0x00000100000001B3"

definition compute_idx :: "nat \<Rightarrow> u64 \<Rightarrow> nat" where
  "compute_idx cap k = unat (compute_hash k AND (of_nat cap - 1))"

subsection \<open>Search\<close>

text \<open>
  \<open>find_entry\<close> returns whether the key is present and, through \<open>*idx\<close>, the cell of the key or
  the first empty cell; when the whole table was searched in vain \<open>*idx\<close> is not written
  (\<open>Exhausted\<close>).
\<close>

datatype find_result = Present nat | Vacant nat | Exhausted

function find_loop :: "'v hash_table_entry list \<Rightarrow> u64 \<Rightarrow> nat \<Rightarrow> nat \<Rightarrow> find_result" where
  "find_loop cells k i hi =
     (if i < hi then
        (if cell_empty (cells ! i) then Vacant i
         else if key (cells ! i) = k then Present i
         else find_loop cells k (Suc i) hi)
      else Exhausted)"
  by pat_completeness auto
termination
  by (relation "measure (\<lambda>(cells, k, i, hi). hi - i)") auto

declare find_loop.simps [simp del]

definition find_entry :: "'v hash_table \<Rightarrow> u64 \<Rightarrow> find_result" where
  "find_entry ht k =
     (let orig_idx = compute_idx (capacity ht) k in
      case find_loop (ht_data ht) k orig_idx (capacity ht) of
        Exhausted \<Rightarrow> find_loop (ht_data ht) k 0 orig_idx
      | r \<Rightarrow> r)"

definition hash_table_find :: "'v hash_table \<Rightarrow> u64 \<Rightarrow> ('v option \<times> 'v hash_table) option" where
  "hash_table_find ht k =
     (case find_entry ht k of
        Present idx \<Rightarrow>
          (if key (ht_data ht ! idx) = k \<and> val (ht_data ht ! idx) \<noteq> None
           then Some (val (ht_data ht ! idx), ht\<lparr>last_found_idx := Some idx\<rparr>)
           else None)
      | _ \<Rightarrow> Some (None, ht))"

subsection \<open>Insertion and growth\<close>

definition hash_table_init :: "nat \<Rightarrow> 'v hash_table" where
  "hash_table_init log_init_capacity =
     \<lparr>ht_size = 0, max_size = 2 ^ log_init_capacity div 2, growth_factor = 2,
      capacity = 2 ^ log_init_capacity,
      ht_data = replicate (2 ^ log_init_capacity) empty_entry,
      last_found_idx = None\<rparr>"

definition insert_entry :: "'v hash_table \<Rightarrow> u64 \<Rightarrow> 'v option \<Rightarrow> (bool \<times> 'v hash_table) option" where
  "insert_entry ht k v =
     (case find_entry ht k of
        Present _ \<Rightarrow> Some (False, ht)
      | Exhausted \<Rightarrow> None
      | Vacant idx \<Rightarrow>
          (if \<not> cell_empty (ht_data ht ! idx) then Some (False, ht)
           else Some (True, ht\<lparr>ht_data := (ht_data ht)[idx := \<lparr>key = k, val = v\<rparr>],
                               ht_size := Suc (ht_size ht)\<rparr>)))"

definition grown_table :: "'v hash_table \<Rightarrow> 'v hash_table" where
  "grown_table ht =
     (let new_capacity = growth_factor ht * capacity ht in
      ht\<lparr>ht_data := replicate new_capacity empty_entry, ht_size := 0,
         max_size := growth_factor ht * max_size ht, capacity := new_capacity\<rparr>)"

text \<open>
  \<open>hash_table_insert\<close> and \<open>realloc_table\<close> call each other: growing the table inserts the old entries into
  the new cells (\<open>rehash_loop\<close>). The first argument of the three functions bounds how deep they nest; a table
  that has just grown has room, so the insertions of \<open>realloc_table\<close> do not grow it again and the bound 1 is enough.
\<close>

function (sequential) insert_fuel :: "nat \<Rightarrow> 'v hash_table \<Rightarrow> u64 \<Rightarrow> 'v option \<Rightarrow> (bool \<times> 'v hash_table) option" and
  realloc_fuel :: "nat \<Rightarrow> 'v hash_table \<Rightarrow> (bool \<times> 'v hash_table) option" and
  rehash_loop :: "nat \<Rightarrow> 'v hash_table_entry list \<Rightarrow> 'v hash_table \<Rightarrow> (bool \<times> 'v hash_table) option"
where
  "insert_fuel 0 ht k v = None"
| "insert_fuel (Suc n) ht k v =
     (if k = 0 then Some (False, ht)
      else if ht_size ht = max_size ht then
        do {
          (ok, ht1) \<leftarrow> realloc_fuel n ht;
          if \<not> ok then Some (False, ht1)
          else if max_size ht1 \<le> ht_size ht1 then Some (False, ht1)
          else insert_entry ht1 k v
        }
      else insert_entry ht k v)"
| "realloc_fuel n ht = rehash_loop n (ht_data ht) (grown_table ht)"
| "rehash_loop n [] ht = Some (True, ht)"
| "rehash_loop n (cell # cells) ht =
     (if cell_empty cell then rehash_loop n cells ht
      else do {
        (ok, ht') \<leftarrow> insert_fuel n ht (key cell) (val cell);
        if ok then rehash_loop n cells ht' else Some (False, ht')
      })"
  by pat_completeness auto
termination
  by (relation "measures [\<lambda>x. case x of Inl (n, _) \<Rightarrow> n | Inr (Inl (n, _)) \<Rightarrow> n | Inr (Inr (n, _)) \<Rightarrow> n,
                          \<lambda>x. case x of Inl _ \<Rightarrow> 0 | Inr (Inl (_, ht)) \<Rightarrow> Suc (Suc (length (ht_data ht)))
                            | Inr (Inr (_, cells, _)) \<Rightarrow> Suc (length cells)]")
     auto

definition realloc_table :: "'v hash_table \<Rightarrow> (bool \<times> 'v hash_table) option" where
  "realloc_table ht = realloc_fuel 1 ht"

definition hash_table_insert :: "'v hash_table \<Rightarrow> u64 \<Rightarrow> 'v \<Rightarrow> (bool \<times> 'v hash_table) option" where
  "hash_table_insert ht k v =
     (if k = 0 then Some (False, ht)
      else if ht_size ht = max_size ht then
        do {
          (ok, ht1) \<leftarrow> realloc_table ht;
          if \<not> ok then Some (False, ht1)
          else if max_size ht1 \<le> ht_size ht1 then Some (False, ht1)
          else insert_entry ht1 k (Some v)
        }
      else insert_entry ht k (Some v))"

subsection \<open>Deletion\<close>

text \<open>
  The loop of \<open>handle_gap\<close> (\<open>while (true)\<close>): \<open>i\<close> is the gap, \<open>j\<close> the cell looked at.
  \<open>None\<close> means that it never stops.
\<close>

partial_function (option) handle_gap_loop ::
  "nat \<Rightarrow> 'v hash_table_entry list \<Rightarrow> nat \<Rightarrow> nat \<Rightarrow> 'v hash_table_entry list option"
where [code]:
  "handle_gap_loop cap cells i j =
     (let j' = (j + 1) AND (cap - 1) in
      if cell_empty (cells ! j') then Some (cells[i := empty_entry])
      else
        (let k = compute_idx cap (key (cells ! j')) in
         if (j' > i \<and> (k \<le> i \<or> k > j')) \<or> (j' < i \<and> k \<le> i \<and> k > j')
         then handle_gap_loop cap (cells[i := cells ! j', j' := empty_entry]) j' j'
         else handle_gap_loop cap cells i j'))"

definition handle_gap :: "'v hash_table \<Rightarrow> nat \<Rightarrow> 'v hash_table option" where
  "handle_gap ht idx_of_gap =
     do { cells \<leftarrow> handle_gap_loop (capacity ht) (ht_data ht) idx_of_gap idx_of_gap;
          Some (ht\<lparr>ht_data := cells\<rparr>) }"

definition hash_table_delete :: "'v hash_table \<Rightarrow> u64 \<Rightarrow> (bool \<times> 'v hash_table) option" where
  "hash_table_delete ht k =
     (case find_entry ht k of
        Present idx \<Rightarrow>
          do { ht' \<leftarrow> handle_gap ht idx; Some (True, ht'\<lparr>ht_size := ht_size ht' - 1\<rparr>) }
      | _ \<Rightarrow> Some (False, ht))"

definition hash_table_delete_last_found :: "'v hash_table \<Rightarrow> (bool \<times> 'v hash_table) option" where
  "hash_table_delete_last_found ht =
     do { idx \<leftarrow> last_found_idx ht;
          ht' \<leftarrow> handle_gap ht idx;
          Some (True, ht'\<lparr>ht_size := ht_size ht' - 1\<rparr>) }"


section \<open>The table refines a finite map\<close>

subsection \<open>Indices and cyclic distance\<close>

lemma mask_word_of_nat: "k < 64 \<Longrightarrow> (of_nat (2 ^ k) - 1 :: u64) = mask k"
  by (simp add: mask_eq_exp_minus_1)

lemma compute_idx_less [simp]: "compute_idx (2 ^ k) x < 2 ^ k"
proof (cases "k < 64")
  case True
  have "compute_idx (2 ^ k) x = unat (take_bit k (compute_hash x))"
    by (simp only: compute_idx_def mask_word_of_nat [OF True] take_bit_eq_mask)
  also have "\<dots> = take_bit k (unat (compute_hash x))"
    by (simp add: unsigned_take_bit_eq)
  also have "\<dots> < 2 ^ k" by simp
  finally show ?thesis .
next
  case False
  have "compute_idx (2 ^ k) x < 2 ^ 64"
    using unsigned_less [of "compute_hash x AND (of_nat (2 ^ k) - 1)"] by (simp add: compute_idx_def)
  also have "(2::nat) ^ 64 \<le> 2 ^ k" using False by (intro power_increasing) auto
  finally show ?thesis .
qed

lemma next_idx:
  assumes "j < 2 ^ k"
  shows "(j + 1) AND (2 ^ k - 1) = (if Suc j = 2 ^ k then 0 else Suc j)" (is "?l = _")
proof -
  have "?l = take_bit k (j + 1)"
    by (simp only: take_bit_eq_mask mask_eq_exp_minus_1)
  then have "?l = (j + 1) mod 2 ^ k" by (simp only: take_bit_eq_mod)
  with assms show ?thesis by auto
qed

text \<open>\<open>cdist n a b\<close>: how many steps forward from \<open>a\<close> to \<open>b\<close> in a table of \<open>n\<close> cells.\<close>

definition cdist :: "nat \<Rightarrow> nat \<Rightarrow> nat \<Rightarrow> nat" where
  "cdist n a b = (if a \<le> b then b - a else n + b - a)"

lemma cdist_less: "a < n \<Longrightarrow> b < n \<Longrightarrow> cdist n a b < n"
  by (auto simp: cdist_def)

lemma cdist_inj: "a < n \<Longrightarrow> p < n \<Longrightarrow> q < n \<Longrightarrow> cdist n a p = cdist n a q \<Longrightarrow> p = q"
  by (auto simp: cdist_def split: if_splits)

definition occ :: "'v hash_table_entry list \<Rightarrow> nat \<Rightarrow> bool" where
  "occ cells p = (\<not> cell_empty (cells ! p))"

definition home :: "'v hash_table_entry list \<Rightarrow> nat \<Rightarrow> nat" where
  "home cells p = compute_idx (length cells) (key (cells ! p))"

subsection \<open>Well-formed cells and tables\<close>

definition probe_ok :: "'v hash_table_entry list \<Rightarrow> bool" where
  "probe_ok cells = (let n = length cells in
     \<forall>p<n. occ cells p \<longrightarrow>
       (\<forall>q<n. cdist n (home cells p) q < cdist n (home cells p) p \<longrightarrow> occ cells q))"

definition keys_unique :: "'v hash_table_entry list \<Rightarrow> bool" where
  "keys_unique cells = (\<forall>p<length cells. \<forall>q<length cells.
     occ cells p \<longrightarrow> occ cells q \<longrightarrow> key (cells ! p) = key (cells ! q) \<longrightarrow> p = q)"

definition vals_present :: "'v hash_table_entry list \<Rightarrow> bool" where
  "vals_present cells = (\<forall>p<length cells. occ cells p \<longrightarrow> val (cells ! p) \<noteq> None)"

definition occupied :: "'v hash_table_entry list \<Rightarrow> nat set" where
  "occupied cells = {p. p < length cells \<and> occ cells p}"

definition cells_inv :: "'v hash_table_entry list \<Rightarrow> bool" where
  "cells_inv cells = (probe_ok cells \<and> keys_unique cells \<and> vals_present cells \<and>
     (\<exists>k. length cells = 2 ^ k))"

definition ht_inv :: "'v hash_table \<Rightarrow> bool" where
  "ht_inv ht = (cells_inv (ht_data ht) \<and> capacity ht = length (ht_data ht) \<and>
     growth_factor ht = 2 \<and> 2 * max_size ht = capacity ht \<and>
     ht_size ht = card (occupied (ht_data ht)) \<and> ht_size ht \<le> max_size ht)"

definition cells_map :: "'v hash_table_entry list \<Rightarrow> u64 \<Rightarrow> 'v option" where
  "cells_map cells k =
     (if k = 0 then None
      else case find (\<lambda>e. key e = k) cells of None \<Rightarrow> None | Some e \<Rightarrow> val e)"

definition ht_map :: "'v hash_table \<Rightarrow> u64 \<Rightarrow> 'v option" where
  "ht_map ht = cells_map (ht_data ht)"

lemma finite_occupied [simp]: "finite (occupied cells)"
  by (simp add: occupied_def)

lemma occ_key: "occ cells p \<longleftrightarrow> key (cells ! p) \<noteq> 0"
  by (simp add: occ_def cell_empty_def)

lemma probe_okD:
  "probe_ok cells \<Longrightarrow> p < length cells \<Longrightarrow> occ cells p \<Longrightarrow> q < length cells \<Longrightarrow>
   cdist (length cells) (home cells p) q < cdist (length cells) (home cells p) p \<Longrightarrow> occ cells q"
  unfolding probe_ok_def Let_def by blast

lemma keys_uniqueD:
  "keys_unique cells \<Longrightarrow> p < length cells \<Longrightarrow> q < length cells \<Longrightarrow> occ cells p \<Longrightarrow>
   key (cells ! p) = key (cells ! q) \<Longrightarrow> p = q"
  unfolding keys_unique_def by (metis occ_key)

lemma cells_map_Some:
  assumes "keys_unique cells"
  shows "cells_map cells k = Some v \<longleftrightarrow>
    (\<exists>p<length cells. occ cells p \<and> key (cells ! p) = k \<and> val (cells ! p) = Some v)"
    (is "?l \<longleftrightarrow> ?r")
proof
  assume ?l
  then obtain e where "k \<noteq> 0" "find (\<lambda>e. key e = k) cells = Some e" "val e = Some v"
    by (auto simp: cells_map_def split: if_splits option.splits)
  then show ?r by (auto simp: find_Some_iff occ_key)
next
  assume ?r
  then obtain p where p: "p < length cells" "occ cells p" "key (cells ! p) = k" "val (cells ! p) = Some v"
    by blast
  then have "find (\<lambda>e. key e = k) cells \<noteq> None"
    by (auto simp: find_None_iff intro: nth_mem)
  then obtain e where e: "find (\<lambda>e. key e = k) cells = Some e" by blast
  then obtain q where q: "q < length cells" "key (cells ! q) = k" "e = cells ! q"
    by (auto simp: find_Some_iff)
  with p assms have "q = p" by (metis keys_uniqueD)
  with q e p show ?l by (auto simp: cells_map_def occ_key)
qed

lemma cells_map_None:
  assumes "keys_unique cells" "vals_present cells"
  shows "cells_map cells k = None \<longleftrightarrow> (\<forall>p<length cells. occ cells p \<longrightarrow> key (cells ! p) \<noteq> k)"
  using cells_map_Some [OF assms(1), of k] assms(2)
  unfolding vals_present_def by (metis not_None_eq option.distinct(1))

lemma cells_map_zero [simp]: "cells_map cells 0 = None"
  by (simp add: cells_map_def)

lemma occupied_less: "cells_inv cells \<Longrightarrow> 2 * card (occupied cells) \<le> length cells \<Longrightarrow>
  \<exists>e<length cells. \<not> occ cells e"
proof (rule ccontr)
  assume inv: "cells_inv cells" and le: "2 * card (occupied cells) \<le> length cells"
    and "\<not> (\<exists>e<length cells. \<not> occ cells e)"
  then have "occupied cells = {..<length cells}" by (auto simp: occupied_def)
  then have "card (occupied cells) = length cells" by simp
  moreover have "0 < length cells" using inv by (auto simp: cells_inv_def)
  ultimately show False using le by simp
qed

subsection \<open>Search is complete\<close>

definition passed :: "'v hash_table_entry list \<Rightarrow> u64 \<Rightarrow> nat \<Rightarrow> nat \<Rightarrow> bool" where
  "passed cells k lo hi = (\<forall>q. lo \<le> q \<longrightarrow> q < hi \<longrightarrow> occ cells q \<and> key (cells ! q) \<noteq> k)"

lemma passed_Suc: "occ cells lo \<Longrightarrow> key (cells ! lo) \<noteq> k \<Longrightarrow> passed cells k (Suc lo) hi \<Longrightarrow>
  passed cells k lo hi"
  unfolding passed_def by (metis Suc_leI order_le_less)

lemma find_loop_result:
  "case find_loop cells k i hi of
     Present p \<Rightarrow> i \<le> p \<and> p < hi \<and> occ cells p \<and> key (cells ! p) = k \<and> passed cells k i p
   | Vacant p \<Rightarrow> i \<le> p \<and> p < hi \<and> \<not> occ cells p \<and> passed cells k i p
   | Exhausted \<Rightarrow> passed cells k i hi"
proof (induction cells k i hi rule: find_loop.induct)
  case (1 cells k i hi)
  show ?case
  proof (cases "i < hi \<and> occ cells i \<and> key (cells ! i) \<noteq> k")
    case True
    with 1 show ?thesis
      by (subst find_loop.simps) (auto simp: occ_def split: find_result.splits intro: passed_Suc)
  next
    case False
    then show ?thesis
      by (subst find_loop.simps) (auto simp: occ_def passed_def)
  qed
qed

lemma find_entry_result:
  fixes ht :: "'v hash_table" and k :: u64
  assumes "capacity ht = length (ht_data ht)" "length (ht_data ht) = 2 ^ m"
  defines "n \<equiv> length (ht_data ht)" and "h \<equiv> compute_idx (length (ht_data ht)) k"
  shows "case find_entry ht k of
     Present p \<Rightarrow> p < n \<and> occ (ht_data ht) p \<and> key (ht_data ht ! p) = k
   | Vacant p \<Rightarrow> p < n \<and> \<not> occ (ht_data ht) p \<and>
       (\<forall>q<n. cdist n h q < cdist n h p \<longrightarrow> occ (ht_data ht) q \<and> key (ht_data ht ! q) \<noteq> k)
   | Exhausted \<Rightarrow> \<forall>q<n. occ (ht_data ht) q"
proof -
  have h: "h < n" unfolding h_def n_def assms(2) by simp
  have e: "find_entry ht k = (case find_loop (ht_data ht) k h n of
      Exhausted \<Rightarrow> find_loop (ht_data ht) k 0 h | r \<Rightarrow> r)"
    unfolding find_entry_def Let_def h_def n_def assms(1) by (rule refl)
  show ?thesis
  proof (cases "find_loop (ht_data ht) k h n")
    case (Present p)
    with find_loop_result [where cells = "ht_data ht" and k = k and i = h and hi = n] e show ?thesis by simp
  next
    case (Vacant p)
    with find_loop_result [where cells = "ht_data ht" and k = k and i = h and hi = n] e show ?thesis
      by (auto simp: passed_def cdist_def split: if_splits)
  next
    case Exhausted
    with find_loop_result [where cells = "ht_data ht" and k = k and i = h and hi = n] have up: "passed (ht_data ht) k h n" by simp
    show ?thesis
    proof (cases "find_loop (ht_data ht) k 0 h")
      case (Present p)
      with find_loop_result [where cells = "ht_data ht" and k = k and i = 0 and hi = h] e Exhausted h show ?thesis by simp
    next
      case (Vacant p)
      with find_loop_result [where cells = "ht_data ht" and k = k and i = 0 and hi = h]
      have p: "p < h" "\<not> occ (ht_data ht) p" "passed (ht_data ht) k 0 p" by simp_all
      have "occ (ht_data ht) q \<and> key (ht_data ht ! q) \<noteq> k"
        if "q < n" "cdist n h q < cdist n h p" for q
        using that p up h by (cases "h \<le> q") (auto simp: passed_def cdist_def split: if_splits)
      with p h show ?thesis using e Exhausted Vacant by simp
    next
      case E2: Exhausted
      with find_loop_result [where cells = "ht_data ht" and k = k and i = 0 and hi = h] up e Exhausted show ?thesis
        by (auto simp: passed_def) (metis linorder_not_le)
    qed
  qed
qed

lemma ht_invD:
  assumes "ht_inv ht"
  shows "capacity ht = length (ht_data ht)" "cells_inv (ht_data ht)" "keys_unique (ht_data ht)"
    "vals_present (ht_data ht)" "probe_ok (ht_data ht)" "growth_factor ht = 2"
    "2 * max_size ht = length (ht_data ht)" "ht_size ht = card (occupied (ht_data ht))"
    "ht_size ht \<le> max_size ht" "\<exists>m. length (ht_data ht) = 2 ^ m"
    "\<exists>e<length (ht_data ht). \<not> occ (ht_data ht) e"
  using assms occupied_less [of "ht_data ht"] by (auto simp: ht_inv_def cells_inv_def)

lemma find_entry_Present:
  "ht_inv ht \<Longrightarrow> find_entry ht k = Present p \<Longrightarrow>
   p < length (ht_data ht) \<and> occ (ht_data ht) p \<and> key (ht_data ht ! p) = k"
  using find_entry_result [of ht _ k] ht_invD(1,10) [of ht] by force

lemma find_entry_Vacant:
  assumes inv: "ht_inv ht" and f: "find_entry ht k = Vacant p"
  shows "p < length (ht_data ht)" "\<not> occ (ht_data ht) p"
    "\<forall>q<length (ht_data ht). cdist (length (ht_data ht)) (compute_idx (length (ht_data ht)) k) q
       < cdist (length (ht_data ht)) (compute_idx (length (ht_data ht)) k) p \<longrightarrow> occ (ht_data ht) q"
    "\<forall>q<length (ht_data ht). occ (ht_data ht) q \<longrightarrow> key (ht_data ht ! q) \<noteq> k"
proof -
  define n where "n = length (ht_data ht)"
  define h where "h = compute_idx n k"
  obtain m where m: "n = 2 ^ m" using ht_invD(10) [OF inv] n_def by blast
  have r: "p < n \<and> \<not> occ (ht_data ht) p \<and>
      (\<forall>q<n. cdist n h q < cdist n h p \<longrightarrow> occ (ht_data ht) q \<and> key (ht_data ht ! q) \<noteq> k)"
    using find_entry_result [of ht m k] ht_invD(1) [OF inv] m f by (simp add: n_def h_def)
  then show "p < length (ht_data ht)" "\<not> occ (ht_data ht) p"
    "\<forall>q<length (ht_data ht). cdist (length (ht_data ht)) (compute_idx (length (ht_data ht)) k) q
       < cdist (length (ht_data ht)) (compute_idx (length (ht_data ht)) k) p \<longrightarrow> occ (ht_data ht) q"
    by (simp_all add: n_def h_def)
  have "key (ht_data ht ! q) \<noteq> k" if q: "q < n" "occ (ht_data ht) q" for q
  proof
    assume k: "key (ht_data ht ! q) = k"
    then have "home (ht_data ht) q = h" by (simp add: home_def h_def n_def)
    then have all: "\<forall>x<n. cdist n h x < cdist n h q \<longrightarrow> occ (ht_data ht) x"
      using ht_invD(5) [OF inv] q by (auto simp: probe_ok_def Let_def n_def)
    have "h < n" by (simp add: h_def m)
    consider "cdist n h q < cdist n h p" | "cdist n h p < cdist n h q" | "cdist n h p = cdist n h q"
      by linarith
    then show False
    proof cases
      case 1 with r q k show False by blast
    next
      case 2 with all r show False by blast
    next
      case 3 with cdist_inj [OF \<open>h < n\<close>] r q show False by blast
    qed
  qed
  then show "\<forall>q<length (ht_data ht). occ (ht_data ht) q \<longrightarrow> key (ht_data ht ! q) \<noteq> k"
    by (simp add: n_def)
qed

lemma find_entry_not_Exhausted: "ht_inv ht \<Longrightarrow> find_entry ht k \<noteq> Exhausted"
  using find_entry_result [of ht _ k] ht_invD(1,10,11) [of ht] by force

lemma find_entry_map:
  assumes "ht_inv ht" "k \<noteq> 0"
  shows "(\<exists>p v. find_entry ht k = Present p \<and> val (ht_data ht ! p) = Some v \<and> ht_map ht k = Some v)
       \<or> (\<exists>p. find_entry ht k = Vacant p \<and> ht_map ht k = None)"
proof (cases "find_entry ht k")
  case (Present p)
  with find_entry_Present [OF assms(1)] have p: "p < length (ht_data ht)" "occ (ht_data ht) p"
    "key (ht_data ht ! p) = k" by blast+
  with ht_invD(4) [OF assms(1)] obtain v where v: "val (ht_data ht ! p) = Some v"
    by (auto simp: vals_present_def)
  with p have "ht_map ht k = Some v"
    using cells_map_Some [OF ht_invD(3) [OF assms(1)]] by (auto simp: ht_map_def)
  with Present v show ?thesis by blast
next
  case (Vacant p)
  with find_entry_Vacant(4) [OF assms(1)] show ?thesis
    using cells_map_None [OF ht_invD(3,4) [OF assms(1)]] by (auto simp: ht_map_def)
next
  case Exhausted
  with find_entry_not_Exhausted [OF assms(1)] show ?thesis by blast
qed

lemma find_entry_zero: "ht_inv ht \<Longrightarrow> \<exists>p. find_entry ht 0 = Vacant p"
  using find_entry_Present [of ht 0] find_entry_not_Exhausted [of ht 0]
  by (cases "find_entry ht 0") (auto simp: occ_key)

lemma find_spec:
  assumes "ht_inv ht"
  shows "\<exists>l. hash_table_find ht k = Some (ht_map ht k, ht\<lparr>last_found_idx := l\<rparr>)"
proof (cases "k = 0")
  case True
  with find_entry_zero [OF assms] show ?thesis
    by (auto simp: hash_table_find_def ht_map_def intro: exI [of _ "last_found_idx ht"])
next
  case False
  with find_entry_map [OF assms] find_entry_Present [OF assms] show ?thesis
    by (fastforce simp: hash_table_find_def intro: exI [of _ "last_found_idx ht"])
qed

subsection \<open>Insertion, growth and rehashing\<close>

lemma card_occupied: "card (occupied cells) = length (filter (\<lambda>e. \<not> cell_empty e) cells)"
  by (simp add: occupied_def occ_def length_filter_conv_card)

lemma cells_map_Cons:
  "cells_map (c # cs) k = (if k \<noteq> 0 \<and> key c = k then val c else cells_map cs k)"
  by (simp add: cells_map_def)

lemma keys_unique_Cons:
  assumes "keys_unique (c # cs)"
  shows "keys_unique cs" and "\<not> cell_empty c \<Longrightarrow> cells_map cs (key c) = None"
proof -
  show "keys_unique cs"
    using assms unfolding keys_unique_def occ_def
    by (metis Suc_less_eq diff_Suc_1 length_Cons nth_Cons_Suc)
  have "key (cs ! p) \<noteq> key c" if "\<not> cell_empty c" "p < length cs" for p
    using that keys_uniqueD [OF assms, of 0 "Suc p"] by (auto simp: occ_def)
  then show "\<not> cell_empty c \<Longrightarrow> cells_map cs (key c) = None"
    by (auto simp: cells_map_def find_Some_iff split: option.splits)
qed

lemma vals_present_Cons:
  "vals_present (c # cs) \<longleftrightarrow> (cell_empty c \<or> val c \<noteq> None) \<and> vals_present cs"
  unfolding vals_present_def occ_def by (auto simp: nth_Cons split: nat.splits)

lemma cells_upd:
  fixes cells :: "'v hash_table_entry list" and k :: u64 and v :: 'v
  assumes inv: "cells_inv cells" and p: "p < length cells" "\<not> occ cells p" and k: "k \<noteq> 0"
    and probe: "\<forall>q<length cells. cdist (length cells) (compute_idx (length cells) k) q
       < cdist (length cells) (compute_idx (length cells) k) p \<longrightarrow> occ cells q"
    and new: "\<forall>q<length cells. occ cells q \<longrightarrow> key (cells ! q) \<noteq> k"
  defines "cells' \<equiv> cells[p := \<lparr>key = k, val = Some v\<rparr>]"
  shows "cells_inv cells'" "cells_map cells' = (cells_map cells)(k \<mapsto> v)"
    "card (occupied cells') = Suc (card (occupied cells))"
proof -
  have occ': "occ cells' q \<longleftrightarrow> q = p \<or> occ cells q" if "q < length cells" for q
    using p k that by (auto simp: cells'_def occ_key nth_list_update)
  have ku: "keys_unique cells" and vp: "vals_present cells" and po: "probe_ok cells"
    using inv by (auto simp: cells_inv_def)
  have ku': "keys_unique cells'"
    using ku new p occ' unfolding keys_unique_def cells'_def by (auto simp: nth_list_update)
  moreover have "vals_present cells'"
    using vp p occ' unfolding vals_present_def cells'_def by (auto simp: nth_list_update)
  moreover have "probe_ok cells'"
    unfolding probe_ok_def Let_def
  proof (intro allI impI)
    fix a q assume a: "a < length cells'" "occ cells' a" and q: "q < length cells'"
      and d: "cdist (length cells') (home cells' a) q < cdist (length cells') (home cells' a) a"
    have "occ cells q"
    proof (cases "a = p")
      case True
      then show ?thesis using d q probe p by (simp add: cells'_def home_def)
    next
      case False
      then have "home cells' a = home cells a" by (simp add: cells'_def home_def)
      with a q d have "a < length cells" "q < length cells"
        "cdist (length cells) (home cells a) q < cdist (length cells) (home cells a) a"
        by (simp_all add: cells'_def)
      moreover have "occ cells a" using occ' a False by (simp add: cells'_def)
      ultimately show ?thesis using probe_okD [OF po] by blast
    qed
    with occ' q show "occ cells' q" by (simp add: cells'_def)
  qed
  ultimately show "cells_inv cells'" using inv by (simp add: cells_inv_def cells'_def)
  show "cells_map cells' = (cells_map cells)(k \<mapsto> v)"
  proof
    fix x
    have at: "cells' ! q = (if q = p then \<lparr>key = k, val = Some v\<rparr> else cells ! q)"
      if "q < length cells" for q using that by (simp add: cells'_def nth_list_update)
    have len: "length cells' = length cells" by (simp add: cells'_def)
    have "cells_map cells' x = Some y \<longleftrightarrow> ((cells_map cells)(k \<mapsto> v)) x = Some y" for y
    proof (cases "x = k")
      case True
      have "(occ cells' q \<and> key (cells' ! q) = k \<and> val (cells' ! q) = Some y) \<longleftrightarrow> q = p \<and> y = v"
        if "q < length cells" for q
        using at [OF that] occ' [OF that] new that by (cases "q = p") auto
      then have "cells_map cells' k = Some y \<longleftrightarrow> y = v"
        unfolding cells_map_Some [OF ku'] len using p(1) by blast
      with True show ?thesis by auto
    next
      case False
      have "(occ cells' q \<and> key (cells' ! q) = x \<and> val (cells' ! q) = Some y) \<longleftrightarrow>
          (occ cells q \<and> key (cells ! q) = x \<and> val (cells ! q) = Some y)"
        if "q < length cells" for q
        using at [OF that] occ' [OF that] False p by (cases "q = p") auto
      then have "cells_map cells' x = Some y \<longleftrightarrow> cells_map cells x = Some y"
        unfolding cells_map_Some [OF ku'] cells_map_Some [OF ku] len by blast
      with False show ?thesis by simp
    qed
    then show "cells_map cells' x = ((cells_map cells)(k \<mapsto> v)) x"
      by (metis option.exhaust)
  qed
  have "occupied cells' = insert p (occupied cells)"
    using occ' p by (auto simp: occupied_def cells'_def)
  with p show "card (occupied cells') = Suc (card (occupied cells))"
    by (simp add: occupied_def)
qed

lemma insert_entry_new:
  assumes inv: "ht_inv ht" and k: "k \<noteq> 0" "ht_map ht k = None" and room: "ht_size ht < max_size ht"
  shows "\<exists>ht'. insert_entry ht k (Some v) = Some (True, ht') \<and> ht_inv ht' \<and>
    ht_map ht' = (ht_map ht)(k \<mapsto> v) \<and> ht_size ht' = Suc (ht_size ht) \<and> max_size ht' = max_size ht"
proof -
  from find_entry_map [OF inv k(1)] k(2) obtain p where f: "find_entry ht k = Vacant p" by auto
  note v = find_entry_Vacant [OF inv f]
  note u = cells_upd [OF ht_invD(2) [OF inv] v(1,2) k(1) v(3,4)]
  from f v(2) u inv room show ?thesis
    by (auto simp: insert_entry_def occ_def ht_inv_def ht_map_def)
qed

lemma insert_entry_old:
  "ht_inv ht \<Longrightarrow> k \<noteq> 0 \<Longrightarrow> ht_map ht k \<noteq> None \<Longrightarrow> insert_entry ht k v = Some (False, ht)"
  using find_entry_map [of ht k] by (auto simp: insert_entry_def)

lemma insert_fuel_room:
  "k \<noteq> 0 \<Longrightarrow> ht_size ht < max_size ht \<Longrightarrow> insert_fuel (Suc n) ht k v = insert_entry ht k v"
  by simp

lemma rehash_spec:
  "ht_inv ht \<Longrightarrow> keys_unique cells \<Longrightarrow> vals_present cells \<Longrightarrow>
   ht_size ht + card (occupied cells) < max_size ht \<Longrightarrow>
   (\<forall>k. cells_map cells k \<noteq> None \<longrightarrow> ht_map ht k = None) \<Longrightarrow>
   \<exists>ht'. rehash_loop (Suc n) cells ht = Some (True, ht') \<and> ht_inv ht' \<and> max_size ht' = max_size ht \<and>
     ht_size ht' = ht_size ht + card (occupied cells) \<and> ht_map ht' = ht_map ht ++ cells_map cells"
proof (induction cells arbitrary: ht)
  case Nil
  then show ?case by (auto simp: card_occupied cells_map_def map_add_def)
next
  case (Cons c cs)
  note ku = keys_unique_Cons [OF Cons.prems(2)]
  show ?case
  proof (cases "cell_empty c")
    case True
    then have m: "cells_map (c # cs) = cells_map cs"
      by (auto simp: cells_map_Cons cell_empty_def)
    have "\<exists>ht'. rehash_loop (Suc n) cs ht = Some (True, ht') \<and> ht_inv ht' \<and>
        max_size ht' = max_size ht \<and> ht_size ht' = ht_size ht + card (occupied cs) \<and>
        ht_map ht' = ht_map ht ++ cells_map cs"
      using Cons.prems True ku m by (intro Cons.IH) (auto simp: vals_present_Cons card_occupied)
    with True m show ?thesis by (simp add: card_occupied)
  next
    case False
    then have k: "key c \<noteq> 0" by (simp add: cell_empty_def)
    from Cons.prems(3) False obtain v where v: "val c = Some v" by (auto simp: vals_present_Cons)
    have none: "ht_map ht (key c) = None"
      using Cons.prems(5) k v by (auto simp: cells_map_Cons)
    have room: "ht_size ht < max_size ht" using Cons.prems(4) by simp
    obtain ht1 where 1: "insert_entry ht (key c) (Some v) = Some (True, ht1)" "ht_inv ht1"
      "ht_map ht1 = (ht_map ht)(key c \<mapsto> v)" "ht_size ht1 = Suc (ht_size ht)"
      "max_size ht1 = max_size ht"
      using insert_entry_new [OF Cons.prems(1) k none room] by blast
    have "\<exists>ht'. rehash_loop (Suc n) cs ht1 = Some (True, ht') \<and> ht_inv ht' \<and>
        max_size ht' = max_size ht1 \<and> ht_size ht' = ht_size ht1 + card (occupied cs) \<and>
        ht_map ht' = ht_map ht1 ++ cells_map cs"
      using Cons.prems False ku 1
      by (intro Cons.IH) (auto simp: vals_present_Cons card_occupied cells_map_Cons split: if_splits)
    moreover have "ht_map ht1 ++ cells_map cs = ht_map ht ++ cells_map (c # cs)"
      using 1(3) ku(2) [OF False] v k
      by (intro ext) (auto simp: map_add_def cells_map_Cons split: option.splits)
    ultimately show ?thesis
      using False k v room 1 insert_fuel_room [OF k room]
      by (auto simp: card_occupied simp del: insert_fuel.simps)
  qed
qed

lemma grown_table_inv:
  assumes "ht_inv ht"
  shows "ht_inv (grown_table ht)" "ht_map (grown_table ht) = Map.empty"
    "max_size (grown_table ht) = 2 * max_size ht" "ht_size (grown_table ht) = 0"
proof -
  obtain m where m: "length (ht_data ht) = 2 ^ m" using ht_invD(10) [OF assms] by blast
  have none: "\<not> occ (replicate n empty_entry) p" if "p < n" for n p
    using that by (simp add: occ_key empty_entry_def)
  have "cells_inv (replicate (2 ^ Suc m) empty_entry)"
    using none unfolding cells_inv_def probe_ok_def keys_unique_def vals_present_def Let_def
    by (auto intro: exI [of _ "Suc m"])
  moreover have "occupied (replicate (2 ^ Suc m) empty_entry) = {}"
    using none by (auto simp: occupied_def)
  ultimately show "ht_inv (grown_table ht)"
    using ht_invD(1,6,7) [OF assms] m by (simp add: ht_inv_def grown_table_def Let_def)
  have "cells_map (replicate n empty_entry) = Map.empty" for n
    by (rule ext) (auto simp: cells_map_def find_Some_iff empty_entry_def split: option.splits)
  then show "ht_map (grown_table ht) = Map.empty"
    by (simp add: ht_map_def grown_table_def Let_def)
  show "max_size (grown_table ht) = 2 * max_size ht" "ht_size (grown_table ht) = 0"
    using ht_invD(6) [OF assms] by (simp_all add: grown_table_def Let_def)
qed

lemma max_size_pos: "ht_inv ht \<Longrightarrow> 0 < max_size ht"
  using ht_invD(7,10) [of ht] by (metis bot_nat_0.not_eq_extremum mult_0_right power_not_zero zero_neq_numeral)

lemma realloc_spec:
  assumes "ht_inv ht"
  shows "\<exists>ht'. realloc_table ht = Some (True, ht') \<and> ht_inv ht' \<and>
    max_size ht' = 2 * max_size ht \<and> ht_size ht' = ht_size ht \<and> ht_map ht' = ht_map ht"
  using rehash_spec [OF grown_table_inv(1) [OF assms] ht_invD(3,4) [OF assms], of 0]
    grown_table_inv [OF assms] ht_invD(8,9) [OF assms] max_size_pos [OF assms]
  by (auto simp: ht_map_def realloc_table_def)

lemma insert_spec:
  assumes inv: "ht_inv ht"
  shows "\<exists>ht'. hash_table_insert ht k v = Some (k \<noteq> 0 \<and> ht_map ht k = None, ht') \<and> ht_inv ht' \<and>
    ht_map ht' = (if k \<noteq> 0 \<and> ht_map ht k = None then (ht_map ht)(k \<mapsto> v) else ht_map ht)"
proof (cases "k = 0")
  case True
  with inv show ?thesis by (simp add: hash_table_insert_def)
next
  case k: False
  show ?thesis
  proof (cases "ht_size ht = max_size ht")
    case True
    obtain ht1 where 1: "realloc_table ht = Some (True, ht1)"
      "ht_inv ht1" "max_size ht1 = 2 * max_size ht" "ht_size ht1 = ht_size ht" "ht_map ht1 = ht_map ht"
      using realloc_spec [OF inv] by blast
    then have room: "ht_size ht1 < max_size ht1" using True max_size_pos [OF inv] by simp
    have "hash_table_insert ht k v = insert_entry ht1 k (Some v)"
      using k True 1 room by (simp add: hash_table_insert_def)
    with insert_entry_new [OF 1(2) k _ room] insert_entry_old [OF 1(2) k] 1(2,5) show ?thesis
      by (cases "ht_map ht k") (auto simp: k)
  next
    case False
    with ht_invD(9) [OF inv] have room: "ht_size ht < max_size ht" by simp
    then have "hash_table_insert ht k v = insert_entry ht k (Some v)"
      using k by (simp add: hash_table_insert_def)
    with insert_entry_new [OF inv k _ room] insert_entry_old [OF inv k] inv show ?thesis
      by (cases "ht_map ht k") (auto simp: k)
  qed
qed

subsection \<open>Deletion\<close>

lemma cdist_next:
  "i < n \<Longrightarrow> j < n \<Longrightarrow> j' = (if Suc j = n then 0 else Suc j) \<Longrightarrow> j' \<noteq> i \<Longrightarrow>
   cdist n i j' = Suc (cdist n i j)"
  by (auto simp: cdist_def split: if_splits)

lemma cdist_prev:
  "e < n \<Longrightarrow> j < n \<Longrightarrow> j' = (if Suc j = n then 0 else Suc j) \<Longrightarrow> j \<noteq> e \<Longrightarrow>
   cdist n j e = Suc (cdist n j' e)"
  by (auto simp: cdist_def split: if_splits)

lemma cdist_split:
  "h < n \<Longrightarrow> i < n \<Longrightarrow> p < n \<Longrightarrow> cdist n h i \<le> cdist n h p \<Longrightarrow>
   cdist n h p = cdist n h i + cdist n i p"
  by (auto simp: cdist_def split: if_splits)

lemma cdist_add:
  "h < n \<Longrightarrow> i < n \<Longrightarrow> q < n \<Longrightarrow> cdist n h i + cdist n i q < n \<Longrightarrow>
   cdist n h q = cdist n h i + cdist n i q"
  by (auto simp: cdist_def split: if_splits)

lemma cdist_pos: "a < n \<Longrightarrow> b < n \<Longrightarrow> a \<noteq> b \<Longrightarrow> 0 < cdist n a b"
  by (auto simp: cdist_def)

lemma cdist_zero [simp]: "cdist n a a = 0"
  by (simp add: cdist_def)

text \<open>The test of \<open>handle_gap\<close> asks whether the gap \<open>i\<close> lies on the probe path to \<open>j\<close>.\<close>

lemma movable_iff:
  assumes "i < n" "j < n" "k < n" "i \<noteq> j"
  shows "((j > i \<and> (k \<le> i \<or> k > j)) \<or> (j < i \<and> k \<le> i \<and> k > j)) \<longleftrightarrow> cdist n k i < cdist n k j"
  using assms by (auto simp: cdist_def)

definition gap_inv :: "'v hash_table_entry list \<Rightarrow> nat \<Rightarrow> nat \<Rightarrow> bool" where
  "gap_inv cells i j =
     (let n = length cells; D = cells[i := empty_entry] in
      i < n \<and> j < n \<and> keys_unique D \<and> vals_present D \<and>
      (\<forall>p<n. occ D p \<longrightarrow> (\<forall>q<n. cdist n (home D p) q < cdist n (home D p) p \<longrightarrow> occ D q \<or> q = i)) \<and>
      (\<forall>p<n. occ D p \<longrightarrow> cdist n (home D p) i < cdist n (home D p) p \<longrightarrow> cdist n i j < cdist n i p))"

lemma gap_invD:
  assumes "gap_inv cells i j"
  defines "D \<equiv> cells[i := empty_entry]" and "n \<equiv> length cells"
  shows "i < n" "j < n" "keys_unique D" "vals_present D"
    "\<And>p q. p < n \<Longrightarrow> occ D p \<Longrightarrow> q < n \<Longrightarrow> cdist n (home D p) q < cdist n (home D p) p \<Longrightarrow>
      occ D q \<or> q = i"
    "\<And>p. p < n \<Longrightarrow> occ D p \<Longrightarrow> cdist n (home D p) i < cdist n (home D p) p \<Longrightarrow>
      cdist n i j < cdist n i p"
  using assms unfolding gap_inv_def Let_def by blast+

lemma gap_inv_start:
  assumes inv: "cells_inv cells" and i: "i < length cells"
  shows "gap_inv cells i i"
proof -
  define D where "D = cells[i := empty_entry]"
  have at: "occ D p \<longleftrightarrow> p \<noteq> i \<and> occ cells p" "p \<noteq> i \<Longrightarrow> D ! p = cells ! p"
    if "p < length cells" for p
    using that i by (auto simp: D_def occ_key empty_entry_def nth_list_update)
  have home: "home D p = home cells p" if "p < length cells" "p \<noteq> i" for p
    using at(2) that by (simp add: home_def D_def)
  have po: "probe_ok cells" and ku: "keys_unique cells" and vp: "vals_present cells"
    using inv by (auto simp: cells_inv_def)
  have len: "length D = length cells" by (simp add: D_def)
  have "keys_unique D"
    unfolding keys_unique_def len using at keys_uniqueD [OF ku] by metis
  moreover have "vals_present D"
    using vp at unfolding vals_present_def len by auto
  moreover have "occ D q \<or> q = i"
    if "p < length cells" "occ D p" "q < length cells"
      "cdist (length cells) (home D p) q < cdist (length cells) (home D p) p" for p q
    using that at home probe_okD [OF po, of p q] by auto
  moreover have "0 < cdist (length cells) i p" if "p < length cells" "occ D p" for p
    using that at i cdist_pos by blast
  ultimately show ?thesis
    using i unfolding gap_inv_def Let_def D_def [symmetric] by auto
qed

lemma gap_done:
  assumes gap: "gap_inv cells i j" and m: "length cells = 2 ^ m"
    and j': "j' < length cells" "j' \<noteq> i" "\<not> occ cells j'"
    and next_j: "cdist (length cells) i j' = Suc (cdist (length cells) i j)"
  shows "cells_inv (cells[i := empty_entry])"
proof -
  define n where "n = length cells"
  define D where "D = cells[i := empty_entry]"
  note G = gap_invD [OF gap, folded D_def n_def]
  have empty: "\<not> occ D j'" "\<not> occ D i"
    using j' G(1) by (auto simp: D_def n_def occ_key empty_entry_def nth_list_update)
  have "occ D q" if p: "p < n" "occ D p" and q: "q < n" "cdist n (home D p) q < cdist n (home D p) p" for p q
  proof (rule ccontr)
    let ?h = "home D p"
    have h: "?h < n" using m by (simp add: home_def D_def n_def)
    assume "\<not> occ D q"
    with G(5) p q have "q = i" by blast
    with G(6) p q have far: "cdist n i j < cdist n i p" by blast
    have "p \<noteq> j'" using empty p by auto
    then have "cdist n i j' \<noteq> cdist n i p"
      using cdist_inj [of i n j' p] G(1) j'(1) p(1) by (auto simp: n_def)
    then have near: "cdist n i j' < cdist n i p" using far next_j by (simp add: n_def)
    have split: "cdist n ?h p = cdist n ?h i + cdist n i p"
      using cdist_split [OF h G(1) p(1)] q(2) \<open>q = i\<close> by simp
    moreover have "cdist n ?h p < n" using cdist_less h p(1) by blast
    ultimately have "cdist n ?h j' = cdist n ?h i + cdist n i j'"
      using near j'(1) by (intro cdist_add [OF h G(1)]) (auto simp: n_def)
    with near split have "cdist n ?h j' < cdist n ?h p" by simp
    with G(5) p j'(1,2) empty show False by (auto simp: n_def)
  qed
  then show ?thesis
    using G(3,4) m unfolding cells_inv_def probe_ok_def Let_def D_def n_def by auto
qed

lemma gap_skip:
  assumes gap: "gap_inv cells i j" and m: "length cells = 2 ^ m"
    and j': "j' < length cells" "j' \<noteq> i"
    and next_j: "cdist (length cells) i j' = Suc (cdist (length cells) i j)"
    and stay: "\<not> cdist (length cells) (home cells j') i < cdist (length cells) (home cells j') j'"
  shows "gap_inv cells i j'"
proof -
  define n where "n = length cells"
  define D where "D = cells[i := empty_entry]"
  note G = gap_invD [OF gap, folded D_def n_def]
  have home: "home D j' = home cells j'" using j' by (simp add: home_def D_def)
  have "cdist n i j' < cdist n i p"
    if p: "p < n" "occ D p" "cdist n (home D p) i < cdist n (home D p) p" for p
  proof -
    have "p \<noteq> j'" using p(3) stay home by (auto simp: n_def)
    then have "cdist n i j' \<noteq> cdist n i p"
      using cdist_inj [of i n j' p] G(1) j'(1) p(1) by (auto simp: n_def)
    with G(6) [OF p] next_j show ?thesis by (simp add: n_def)
  qed
  with G j'(1) show ?thesis
    unfolding gap_inv_def Let_def D_def [symmetric] n_def [symmetric] by blast
qed

lemma gap_move:
  assumes gap: "gap_inv cells i j" and m: "length cells = 2 ^ m"
    and j': "j' < length cells" "j' \<noteq> i" "occ cells j'"
    and move: "cdist (length cells) (home cells j') i < cdist (length cells) (home cells j') j'"
  defines "cells' \<equiv> cells[i := cells ! j', j' := empty_entry]"
  shows "gap_inv cells' j' j'"
    "cells_map (cells'[j' := empty_entry]) = cells_map (cells[i := empty_entry])"
    "occupied (cells'[j' := empty_entry]) = insert i (occupied (cells[i := empty_entry]) - {j'})"
proof -
  define n where "n = length cells"
  define D where "D = cells[i := empty_entry]"
  note G = gap_invD [OF gap, folded D_def n_def]
  have len: "length cells' = n" "length D = n" by (simp_all add: cells'_def D_def n_def)
  have upd: "cells'[j' := empty_entry] = cells'" using j' by (simp add: cells'_def)
  have at: "cells' ! p = (if p = j' then empty_entry else if p = i then D ! j' else D ! p)"
    if "p < n" for p
    using that j' G(1) by (auto simp: cells'_def D_def n_def nth_list_update)
  have oD: "occ D j'" "\<not> occ D i"
    using j' G(1) by (auto simp: D_def n_def occ_key empty_entry_def)
  have oc: "occ cells' p \<longleftrightarrow> p = i \<or> (occ D p \<and> p \<noteq> j')" if "p < n" for p
    using at [OF that] that j' oD by (auto simp: occ_key empty_entry_def)
  have homeD: "home D j' = home cells j'" using j' by (simp add: home_def D_def)
  have home: "home cells' p = (if p = i then home D j' else home D p)" if "p < n" "p \<noteq> j'" for p
    using at that j'(2) by (simp add: home_def len)
  define src where "src p = (if p = i then j' else p)" for p
  have src: "cells' ! p = D ! src p" "occ D (src p)" "src p < n" "src p \<noteq> i"
    if "p < n" "occ cells' p" for p
    using that at oc oD j' by (auto simp: src_def n_def occ_key empty_entry_def split: if_splits)
  have src_inj: "p = q" if "src p = src q" "p < n" "q < n" "occ cells' p" "occ cells' q" for p q
    using that at by (auto simp: src_def occ_key empty_entry_def split: if_splits)
  have src_onto: "\<exists>q<n. occ cells' q \<and> src q = p" if "p < n" "occ D p" for p
  proof (cases "p = j'")
    case True
    with oc G(1) show ?thesis by (intro exI [of _ i]) (auto simp: src_def)
  next
    case False
    with that oc oD have "p \<noteq> i" "occ cells' p" by auto
    with that show ?thesis by (intro exI [of _ p]) (simp add: src_def)
  qed
  have ku: "keys_unique cells'"
    unfolding keys_unique_def len
  proof (intro allI impI)
    fix p q assume pq: "p < n" "q < n" "occ cells' p" "occ cells' q" "key (cells' ! p) = key (cells' ! q)"
    then have "src p = src q"
      using src keys_uniqueD [OF G(3), of "src p" "src q"] len by metis
    with src_inj pq show "p = q" by blast
  qed
  have vp: "vals_present cells'"
    using G(4) src len unfolding vals_present_def by metis
  have probe: "occ cells' q \<or> q = j'"
    if p: "p < n" "occ cells' p" and q: "q < n" "cdist n (home cells' p) q < cdist n (home cells' p) p" for p q
  proof -
    have "p \<noteq> j'" using p oc j' by auto
    show ?thesis
    proof (cases "p = i")
      case True
      then have "cdist n (home D j') q < cdist n (home D j') j'"
        using q home p \<open>p \<noteq> j'\<close> move homeD by (simp add: n_def)
      then have "occ D q \<or> q = i" using G(5) [of j' q] oD j'(1) q(1) by (simp add: n_def)
      then show ?thesis using oc q(1) by blast
    next
      case False
      then have "occ D p" "cdist n (home D p) q < cdist n (home D p) p"
        using p q oc home \<open>p \<noteq> j'\<close> by auto
      then have "occ D q \<or> q = i" using G(5) p(1) q(1) by blast
      then show ?thesis using oc q(1) by blast
    qed
  qed
  have pos: "0 < cdist n j' p" if "p < n" "occ cells' p" for p
  proof -
    have "p \<noteq> j'" using that oc j'(2) by auto
    then show ?thesis using that(1) j'(1) cdist_pos [of j' n p] by (auto simp: n_def)
  qed
  show "gap_inv cells' j' j'"
    unfolding gap_inv_def Let_def upd len using j'(1) ku vp probe pos by (auto simp: n_def)
  show "occupied (cells'[j' := empty_entry]) = insert i (occupied (cells[i := empty_entry]) - {j'})"
    unfolding upd D_def [symmetric] occupied_def len using oc G(1) j'(2) by auto
  have "cells_map cells' x = Some y \<longleftrightarrow> cells_map D x = Some y" for x y
    unfolding cells_map_Some [OF ku] cells_map_Some [OF G(3)] len
    using src src_onto by metis
  then show "cells_map (cells'[j' := empty_entry]) = cells_map (cells[i := empty_entry])"
    unfolding upd D_def [symmetric] by (metis option.exhaust ext)
qed

lemma handle_gap_loop_spec:
  assumes "gap_inv cells i j" "length cells = 2 ^ m" "e < length cells" "e \<noteq> i"
    "\<not> occ cells e" "cdist (length cells) i j < cdist (length cells) i e"
  shows "\<exists>cells'. handle_gap_loop (length cells) cells i j = Some cells' \<and> cells_inv cells' \<and>
    length cells' = length cells \<and> cells_map cells' = cells_map (cells[i := empty_entry]) \<and>
    card (occupied cells') = card (occupied (cells[i := empty_entry]))"
  using assms
proof (induction "cdist (length cells) j e" arbitrary: cells i j rule: less_induct)
  case less
  define n where "n = length cells"
  define j' where "j' = (if Suc j = n then 0 else Suc j)"
  note G = gap_invD [OF less.prems(1), folded n_def]
  have e: "e < n" "e \<noteq> i" using less.prems by (auto simp: n_def)
  have "(j + 1) AND (n - 1) = j'"
    using next_idx [of j m] G(2) less.prems(2) by (simp add: n_def j'_def)
  then have step: "handle_gap_loop n cells i j =
     (if cell_empty (cells ! j') then Some (cells[i := empty_entry])
      else if (j' > i \<and> (home cells j' \<le> i \<or> home cells j' > j')) \<or>
              (j' < i \<and> home cells j' \<le> i \<and> home cells j' > j')
         then handle_gap_loop n (cells[i := cells ! j', j' := empty_entry]) j' j'
         else handle_gap_loop n cells i j')"
    by (subst handle_gap_loop.simps) (simp add: Let_def home_def n_def)
  have j'n: "j' < n" using G(2) by (auto simp: j'_def)
  have ji: "j' \<noteq> i"
    using less.prems(6) G(1,2) e unfolding n_def [symmetric]
    by (auto simp: j'_def cdist_def split: if_splits)
  have next_j: "cdist n i j' = Suc (cdist n i j)"
    using cdist_next [OF G(1,2) j'_def ji] .
  have "j \<noteq> e" using less.prems(6) by auto
  then have closer: "cdist n j' e < cdist n j e"
    using cdist_prev [OF e(1) G(2) j'_def] by simp
  show ?case
  proof (cases "occ cells j'")
    case False
    then have "handle_gap_loop n cells i j = Some (cells[i := empty_entry])"
      using step by (simp add: occ_def)
    with gap_done [OF less.prems(1,2) _ ji False] j'n next_j show ?thesis
      by (simp add: n_def)
  next
    case True
    then have "j' \<noteq> e" using less.prems(5) by blast
    then have "cdist n i j' \<noteq> cdist n i e"
      using cdist_inj [of i n j' e] G(1) j'n e(1) by blast
    then have below: "cdist n i j' < cdist n i e"
      using next_j less.prems(6) by (simp add: n_def)
    have hn: "home cells j' < n" using less.prems(2) by (simp add: home_def n_def)
    show ?thesis
    proof (cases "cdist n (home cells j') i < cdist n (home cells j') j'")
      case mv: True
      define cells' where "cells' = cells[i := cells ! j', j' := empty_entry]"
      have len: "length cells' = n" by (simp add: cells'_def n_def)
      have go: "handle_gap_loop n cells i j = handle_gap_loop n cells' j' j'"
        using step True mv movable_iff [OF G(1) j'n hn] ji by (auto simp: occ_def cells'_def)
      note M = gap_move [OF less.prems(1,2) _ ji True, folded cells'_def n_def, OF j'n mv]
      have "\<not> occ cells' e"
        using \<open>j' \<noteq> e\<close> e less.prems(5) by (simp add: cells'_def occ_def)
      then have "\<exists>cells''. handle_gap_loop (length cells') cells' j' j' = Some cells'' \<and> cells_inv cells'' \<and>
          length cells'' = length cells' \<and> cells_map cells'' = cells_map (cells'[j' := empty_entry]) \<and>
          card (occupied cells'') = card (occupied (cells'[j' := empty_entry]))"
        using less.prems(2) len M(1) e \<open>j' \<noteq> e\<close> j'n closer cdist_pos [OF j'n e(1)]
        by (intro less.hyps) (auto simp: n_def)
      moreover have "card (occupied (cells'[j' := empty_entry])) = card (occupied (cells[i := empty_entry]))"
      proof -
        have "j' \<in> occupied (cells[i := empty_entry])" "i \<notin> occupied (cells[i := empty_entry])"
          using True ji j'n G(1) by (auto simp: occupied_def occ_key empty_entry_def n_def)
        then show ?thesis unfolding M(3)
          by (metis card_Suc_Diff1 card_insert_disjoint finite_Diff finite_occupied insert_Diff insert_iff)
      qed
      ultimately show ?thesis
        using go M(2) len by (simp add: n_def)
    next
      case False
      have "handle_gap_loop n cells i j = handle_gap_loop n cells i j'"
        using step True False movable_iff [OF G(1) j'n hn] ji by (auto simp: occ_def)
      moreover have "\<exists>cells''. handle_gap_loop (length cells) cells i j' = Some cells'' \<and> cells_inv cells'' \<and>
          length cells'' = length cells \<and> cells_map cells'' = cells_map (cells[i := empty_entry]) \<and>
          card (occupied cells'') = card (occupied (cells[i := empty_entry]))"
        using gap_skip [OF less.prems(1,2) _ ji] j'n next_j False less.prems closer below
        by (intro less.hyps) (auto simp: n_def)
      ultimately show ?thesis by (simp add: n_def)
    qed
  qed
qed

lemma cells_map_remove:
  assumes ku: "keys_unique cells" and p: "p < length cells" "occ cells p"
  shows "cells_map (cells[p := empty_entry]) = (cells_map cells)(key (cells ! p) := None)"
proof -
  define D where "D = cells[p := empty_entry]"
  have at: "occ D q \<longleftrightarrow> q \<noteq> p \<and> occ cells q" "q \<noteq> p \<Longrightarrow> D ! q = cells ! q"
    if "q < length cells" for q
    using that p by (auto simp: D_def occ_key empty_entry_def nth_list_update)
  have len: "length D = length cells" by (simp add: D_def)
  have kuD: "keys_unique D" unfolding keys_unique_def len using at keys_uniqueD [OF ku] by metis
  have "cells_map D x = Some y \<longleftrightarrow> ((cells_map cells)(key (cells ! p) := None)) x = Some y" for x y
  proof (cases "x = key (cells ! p)")
    case True
    have "\<not> (occ D q \<and> key (D ! q) = x)" if "q < length cells" for q
      using at [OF that] keys_uniqueD [OF ku that p(1)] True by metis
    then have "cells_map D x \<noteq> Some y" unfolding cells_map_Some [OF kuD] len by blast
    with True show ?thesis by simp
  next
    case False
    have "(occ D q \<and> key (D ! q) = x \<and> val (D ! q) = Some y) \<longleftrightarrow>
        (occ cells q \<and> key (cells ! q) = x \<and> val (cells ! q) = Some y)" if "q < length cells" for q
      using at [OF that] False by (cases "q = p") auto
    with False show ?thesis unfolding fun_upd_other [OF False] cells_map_Some [OF kuD] cells_map_Some [OF ku] len
      by blast
  qed
  then show ?thesis unfolding D_def by (metis option.exhaust ext)
qed

lemma delete_at_spec:
  assumes inv: "ht_inv ht" and p: "p < length (ht_data ht)" "occ (ht_data ht) p"
  shows "\<exists>ht'. handle_gap ht p = Some ht' \<and> ht_inv (ht'\<lparr>ht_size := ht_size ht' - 1\<rparr>) \<and>
    ht_map ht' = (ht_map ht)(key (ht_data ht ! p) := None)"
proof -
  let ?c = "ht_data ht"
  obtain m where m: "length ?c = 2 ^ m" using ht_invD(10) [OF inv] by blast
  obtain e where e: "e < length ?c" "\<not> occ ?c e" using ht_invD(11) [OF inv] by blast
  with p have "e \<noteq> p" by blast
  then obtain c' where c': "handle_gap_loop (length ?c) ?c p p = Some c'" "cells_inv c'"
    "length c' = length ?c" "cells_map c' = cells_map (?c[p := empty_entry])"
    "card (occupied c') = card (occupied (?c[p := empty_entry]))"
    using handle_gap_loop_spec [OF gap_inv_start [OF ht_invD(2) [OF inv] p(1)] m e(1) _ e(2)]
      cdist_pos [OF p(1) e(1)] by (metis cdist_zero)
  have "occupied ?c = insert p (occupied (?c[p := empty_entry]))"
    "p \<notin> occupied (?c[p := empty_entry])"
    using p by (auto simp: occupied_def occ_key empty_entry_def nth_list_update)
  then have card: "card (occupied ?c) = Suc (card (occupied (?c[p := empty_entry])))" by simp
  have "handle_gap ht p = Some (ht\<lparr>ht_data := c'\<rparr>)"
    using c'(1) ht_invD(1) [OF inv] by (simp add: handle_gap_def)
  moreover have "ht_map (ht\<lparr>ht_data := c'\<rparr>) = (ht_map ht)(key (?c ! p) := None)"
    using c'(4) cells_map_remove [OF ht_invD(3) [OF inv] p] by (simp add: ht_map_def)
  moreover have "ht_inv (ht\<lparr>ht_data := c', ht_size := ht_size ht - 1\<rparr>)"
    using inv c' card by (auto simp: ht_inv_def)
  ultimately show ?thesis by simp
qed

lemma delete_spec:
  assumes inv: "ht_inv ht"
  shows "\<exists>ht'. hash_table_delete ht k = Some (ht_map ht k \<noteq> None, ht') \<and> ht_inv ht' \<and>
    ht_map ht' = (ht_map ht)(k := None)"
proof (cases "find_entry ht k")
  case (Present p)
  note p = find_entry_Present [OF inv Present]
  then have "k \<noteq> 0" by (auto simp: occ_key)
  with find_entry_map [OF inv this] Present have "ht_map ht k \<noteq> None" by auto
  with delete_at_spec [OF inv] p Present show ?thesis
    by (force simp: hash_table_delete_def ht_map_def)
next
  case (Vacant p)
  have "ht_map ht k = None"
    using find_entry_map [OF inv, of k] Vacant by (cases "k = 0") (auto simp: ht_map_def)
  with Vacant inv show ?thesis by (auto simp: hash_table_delete_def)
next
  case Exhausted
  with find_entry_not_Exhausted [OF inv] show ?thesis by blast
qed

text \<open>
  \<open>hash_table_delete_last_found\<close> relies on the index that the last successful
  \<open>hash_table_find\<close> stored: right after a find it deletes the key that was found.
\<close>

lemma find_then_delete_spec:
  assumes inv: "ht_inv ht" and f: "hash_table_find ht k = Some (Some v, ht1)"
  shows "\<exists>ht'. hash_table_delete_last_found ht1 = Some (True, ht') \<and> ht_inv ht' \<and>
    ht_map ht' = (ht_map ht)(k := None)"
proof -
  obtain p where p: "find_entry ht k = Present p" "ht1 = ht\<lparr>last_found_idx := Some p\<rparr>"
    using f by (auto simp: hash_table_find_def split: find_result.splits if_splits)
  have "ht_inv ht1" "ht_data ht1 = ht_data ht" "ht_map ht1 = ht_map ht"
    using inv p by (auto simp: ht_inv_def ht_map_def)
  with find_entry_Present [OF inv p(1)] obtain ht2 where
    "handle_gap ht1 p = Some ht2" "ht_inv (ht2\<lparr>ht_size := ht_size ht2 - 1\<rparr>)"
    "ht_map ht2 = (ht_map ht)(k := None)"
    using delete_at_spec [of ht1 p] by metis
  with p show ?thesis by (simp add: hash_table_delete_last_found_def ht_map_def)
qed

lemma init_spec:
  assumes "0 < k"
  shows "ht_inv (hash_table_init k)" "ht_map (hash_table_init k) = Map.empty"
proof -
  have none: "\<not> occ (replicate n empty_entry) p" if "p < n" for n p
    using that by (simp add: occ_key empty_entry_def)
  have "cells_inv (replicate (2 ^ k) empty_entry)"
    using none unfolding cells_inv_def probe_ok_def keys_unique_def vals_present_def Let_def
    by (auto intro: exI [of _ k])
  moreover have "occupied (replicate (2 ^ k) empty_entry) = {}"
    using none by (auto simp: occupied_def)
  moreover have "2 * (2 ^ k div 2) = (2 ^ k :: nat)" using assms by (cases k) auto
  ultimately show "ht_inv (hash_table_init k)" by (simp add: ht_inv_def hash_table_init_def)
  show "ht_map (hash_table_init k) = Map.empty"
    by (rule ext) (auto simp: ht_map_def cells_map_def hash_table_init_def find_Some_iff
        empty_entry_def split: option.splits)
qed

section \<open>The store interface\<close>

text \<open>
  What the checker relies on: a search that leaves the contents unchanged, an insertion that
  only accepts fresh nonzero keys, and the deletion of the key found last.
\<close>

locale clause_store =
  fixes find :: "'s \<Rightarrow> u64 \<Rightarrow> ('v option \<times> 's) option"
    and insert :: "'s \<Rightarrow> u64 \<Rightarrow> 'v \<Rightarrow> (bool \<times> 's) option"
    and delete_last :: "'s \<Rightarrow> (bool \<times> 's) option"
    and inv :: "'s \<Rightarrow> bool"
    and abs :: "'s \<Rightarrow> u64 \<Rightarrow> 'v option"
  assumes find_law: "inv s \<Longrightarrow> \<exists>s'. find s k = Some (abs s k, s') \<and> inv s' \<and> abs s' = abs s"
    and insert_law: "inv s \<Longrightarrow> \<exists>s'. insert s k v = Some (k \<noteq> 0 \<and> abs s k = None, s') \<and> inv s' \<and>
      abs s' = (if k \<noteq> 0 \<and> abs s k = None then (abs s)(k \<mapsto> v) else abs s)"
    and delete_law: "inv s \<Longrightarrow> find s k = Some (Some v, s1) \<Longrightarrow>
      \<exists>s'. delete_last s1 = Some (True, s') \<and> inv s' \<and> abs s' = (abs s)(k := None)"
begin

lemma findD: "inv s \<Longrightarrow> find s k = Some (r, s') \<Longrightarrow> r = abs s k \<and> inv s' \<and> abs s' = abs s"
  using find_law [of s k] by auto

lemma find_defined: "inv s \<Longrightarrow> \<exists>r s'. find s k = Some (r, s')"
  using find_law [of s k] by blast

lemma insertD: "inv s \<Longrightarrow> insert s k v = Some (ok, s') \<Longrightarrow>
  inv s' \<and> (ok \<longleftrightarrow> k \<noteq> 0 \<and> abs s k = None) \<and>
  abs s' = (if ok then (abs s)(k \<mapsto> v) else abs s)"
  using insert_law [of s k v] by auto

lemma insert_defined: "inv s \<Longrightarrow> \<exists>ok s'. insert s k v = Some (ok, s')"
  using insert_law [of s k v] by blast

lemma delete_lastD: "inv s \<Longrightarrow> find s k = Some (Some v, s1) \<Longrightarrow> delete_last s1 = Some (ok, s') \<Longrightarrow>
  ok \<and> inv s' \<and> abs s' = (abs s)(k := None)"
  using delete_law [of s k v s1] by auto

lemma delete_last_defined: "inv s \<Longrightarrow> find s k = Some (Some v, s1) \<Longrightarrow>
  \<exists>s'. delete_last s1 = Some (True, s')"
  using delete_law [of s k v s1] by blast

lemma find_after_insert: "inv s \<Longrightarrow> insert s k v = Some (True, s') \<Longrightarrow>
  \<exists>s''. find s' k = Some (Some v, s'')"
  using insertD [of s k v True s'] find_law [of s' k] by auto

end

interpretation ct: clause_store hash_table_find hash_table_insert hash_table_delete_last_found ht_inv ht_map
proof
  fix ht :: "'a hash_table" and k :: u64
  assume "ht_inv ht"
  moreover have "ht_inv (ht\<lparr>last_found_idx := l\<rparr>) = ht_inv ht"
    "ht_map (ht\<lparr>last_found_idx := l\<rparr>) = ht_map ht" for l
    by (simp_all add: ht_inv_def ht_map_def)
  ultimately show "\<exists>s'. hash_table_find ht k = Some (ht_map ht k, s') \<and> ht_inv s' \<and> ht_map s' = ht_map ht"
    using find_spec [of ht k] by metis
next
  show "ht_inv s \<Longrightarrow> \<exists>s'. hash_table_insert s k v = Some (k \<noteq> 0 \<and> ht_map s k = None, s') \<and> ht_inv s' \<and>
    ht_map s' = (if k \<noteq> 0 \<and> ht_map s k = None then (ht_map s)(k \<mapsto> v) else ht_map s)"
    for s :: "'a hash_table" and k v by (rule insert_spec)
next
  show "ht_inv s \<Longrightarrow> hash_table_find s k = Some (Some v, s1) \<Longrightarrow>
    \<exists>s'. hash_table_delete_last_found s1 = Some (True, s') \<and> ht_inv s' \<and> ht_map s' = (ht_map s)(k := None)"
    for s :: "'a hash_table" and k v s1 by (rule find_then_delete_spec)
qed

section \<open>Sequences of operations\<close>

text \<open>
  \<open>hash_table_delete_last_found\<close> deletes the entry whose index the last successful \<open>hash_table_find\<close> stored. The
  client may call it as long as the table has not changed since that find: \<open>map_run\<close>, which says what a finite map answers,
  keeps the key that was found last and has no answer (\<open>None\<close>) for a call without one.
\<close>

datatype 'v table_op = Insert u64 'v | Find u64 | Delete u64 | Delete_Last_Found
datatype 'v table_out = Done bool | Got "'v option"

fun table_run :: "'v hash_table \<Rightarrow> 'v table_op list \<Rightarrow> ('v table_out list \<times> 'v hash_table) option" where
  "table_run ht [] = Some ([], ht)"
| "table_run ht (Insert k v # ops) =
     do { (ok, ht1) \<leftarrow> hash_table_insert ht k v; (outs, ht2) \<leftarrow> table_run ht1 ops;
          Some (Done ok # outs, ht2) }"
| "table_run ht (Find k # ops) =
     do { (r, ht1) \<leftarrow> hash_table_find ht k; (outs, ht2) \<leftarrow> table_run ht1 ops;
          Some (Got r # outs, ht2) }"
| "table_run ht (Delete k # ops) =
     do { (ok, ht1) \<leftarrow> hash_table_delete ht k; (outs, ht2) \<leftarrow> table_run ht1 ops;
          Some (Done ok # outs, ht2) }"
| "table_run ht (Delete_Last_Found # ops) =
     do { (ok, ht1) \<leftarrow> hash_table_delete_last_found ht; (outs, ht2) \<leftarrow> table_run ht1 ops;
          Some (Done ok # outs, ht2) }"

fun map_run :: "(u64 \<Rightarrow> 'v option) \<Rightarrow> u64 option \<Rightarrow> 'v table_op list \<Rightarrow> 'v table_out list option" where
  "map_run m found [] = Some []"
| "map_run m found (Insert k v # ops) =
     (if k \<noteq> 0 \<and> m k = None then map_option ((#) (Done True)) (map_run (m(k \<mapsto> v)) None ops)
      else map_option ((#) (Done False)) (map_run m None ops))"
| "map_run m found (Find k # ops) =
     map_option ((#) (Got (m k))) (map_run m (if m k \<noteq> None then Some k else found) ops)"
| "map_run m found (Delete k # ops) =
     map_option ((#) (Done (m k \<noteq> None))) (map_run (m(k := None)) None ops)"
| "map_run m found (Delete_Last_Found # ops) =
     (case found of None \<Rightarrow> None | Some k \<Rightarrow> map_option ((#) (Done True)) (map_run (m(k := None)) None ops))"

text \<open>The index that is stored is that of the key that was found.\<close>

definition last_found_at :: "'v hash_table \<Rightarrow> u64 option \<Rightarrow> bool" where
  "last_found_at ht found \<longleftrightarrow> (\<forall>k. found = Some k \<longrightarrow>
     (\<exists>p. last_found_idx ht = Some p \<and> p < length (ht_data ht) \<and> occ (ht_data ht) p \<and> key (ht_data ht ! p) = k))"

lemma last_found_None [simp]: "last_found_at ht None"
  by (simp add: last_found_at_def)

lemma find_last_found:
  assumes "ht_inv ht" "last_found_at ht found" "hash_table_find ht k = Some (r, ht')"
  shows "last_found_at ht' (if r \<noteq> None then Some k else found)"
proof (cases "find_entry ht k")
  case (Present p)
  with assms(3) have "ht' = ht\<lparr>last_found_idx := Some p\<rparr>" "r \<noteq> None" by (simp_all add: hash_table_find_def split: if_splits) (metis)+
  with find_entry_Present [OF assms(1) Present] show ?thesis by (simp add: last_found_at_def)
qed (use assms in \<open>auto simp: hash_table_find_def\<close>)

lemma delete_last_found_spec:
  assumes inv: "ht_inv ht" and f: "last_found_at ht (Some k)"
  shows "\<exists>ht'. hash_table_delete_last_found ht = Some (True, ht') \<and> ht_inv ht' \<and> ht_map ht' = (ht_map ht)(k := None)"
proof -
  obtain p where p: "last_found_idx ht = Some p" "p < length (ht_data ht)" "occ (ht_data ht) p" "key (ht_data ht ! p) = k"
    using f by (auto simp: last_found_at_def)
  with delete_at_spec [OF inv p(2,3)] show ?thesis by (auto simp: hash_table_delete_last_found_def ht_map_def)
qed

lemma table_run_refines:
  "ht_inv ht \<Longrightarrow> last_found_at ht found \<Longrightarrow> map_run (ht_map ht) found ops = Some outs \<Longrightarrow>
   \<exists>ht'. table_run ht ops = Some (outs, ht') \<and> ht_inv ht'"
proof (induction ht ops arbitrary: found outs rule: table_run.induct)
  case (1 ht)
  then show ?case by simp
next
  case (2 ht k v ops)
  obtain ht1 where 1: "hash_table_insert ht k v = Some (k \<noteq> 0 \<and> ht_map ht k = None, ht1)" "ht_inv ht1"
    "ht_map ht1 = (if k \<noteq> 0 \<and> ht_map ht k = None then (ht_map ht)(k \<mapsto> v) else ht_map ht)"
    using insert_spec [OF "2.prems"(1)] by blast
  with "2.IH" [OF 1(1) refl 1(2) last_found_None] "2.prems"(3) show ?case by (auto simp: fun_upd_def split: if_splits)
next
  case (3 ht k ops)
  obtain ht1 where 1: "hash_table_find ht k = Some (ht_map ht k, ht1)" "ht_inv ht1" "ht_map ht1 = ht_map ht"
    using ct.find_law [OF "3.prems"(1)] by blast
  with "3.IH" [OF 1(1) refl 1(2) find_last_found [OF "3.prems"(1,2) 1(1)]] "3.prems"(3) show ?case by auto
next
  case (4 ht k ops)
  obtain ht1 where 1: "hash_table_delete ht k = Some (ht_map ht k \<noteq> None, ht1)" "ht_inv ht1"
    "ht_map ht1 = (ht_map ht)(k := None)"
    using delete_spec [OF "4.prems"(1)] by blast
  with "4.IH" [OF 1(1) refl 1(2) last_found_None] "4.prems"(3) show ?case by (auto simp: fun_upd_def)
next
  case (5 ht ops)
  then obtain k where k: "found = Some k" by (auto split: option.splits)
  obtain ht1 where 1: "hash_table_delete_last_found ht = Some (True, ht1)" "ht_inv ht1" "ht_map ht1 = (ht_map ht)(k := None)"
    using delete_last_found_spec [OF "5.prems"(1) "5.prems"(2) [unfolded k]] by blast
  with "5.IH" [OF 1(1) refl 1(2) last_found_None] "5.prems"(3) k show ?case by (auto simp: fun_upd_def)
qed

text \<open>
  C2. The clause table that \<open>lrat_check_init\<close> creates (\<open>hash_table_init(16)\<close>) behaves, under
  every sequence of \<open>hash_table_insert\<close>, \<open>hash_table_find\<close>, \<open>hash_table_delete\<close> and \<open>hash_table_delete_last_found\<close>
  (the last one where no insertion or deletion lies between it and a successful find), as a finite
  map with 0 as a reserved key: no operation fails to return, growth and rehashing lose nothing,
  and deletion with its back-shifting of probe chains removes exactly the given key, or the key found last.
\<close>

theorem hash_table_refines_map:
  assumes "map_run (\<lambda>_. None) None ops = Some outs"
  shows "\<exists>ht'. table_run (hash_table_init 16) ops = Some (outs, ht')"
proof -
  have pos: "0 < (16::nat)" by simp
  show ?thesis
    using table_run_refines [OF init_spec(1) [OF pos] last_found_None, of ops, unfolded init_spec(2) [OF pos]] assms by blast
qed

theorem hash_table_refines_map_witness:
  "\<exists>ht'. table_run (hash_table_init 16) [Insert 7 ''a'', Insert 9 ''b'', Insert 7 ''c'', Find 7, Find 8, Delete_Last_Found, Find 7, Delete 9, Delete 9] =
    Some ([Done True, Done True, Done False, Got (Some ''a''), Got None, Done True, Got None, Done True, Done False], ht')"
  by (rule hash_table_refines_map) simp

end
