(* ===== verification/Imp_Siphash.thy ===== *)
theory Imp_Siphash
  imports Prelude_C
begin

text \<open>
  ImpCheck's incremental SipHash-2-4 with a 128-bit tag, \<open>impcheck/src/trusted/siphash.c\<close>, and
  the secret key of \<open>secret.c\<close>. The file keeps its state in globals; here they are the record
  \<open>sip\<close>. \<open>sbuf\<close> holds the first \<open>buflen\<close> bytes of \<open>buf\<close>, so \<open>buflen\<close> is its length.
  The theory proves that feeding data in pieces is feeding it at once, that the result is a
  one-shot hash of the concatenation, and where the 32-bit \<open>datapos\<close> of \<open>siphash_update\<close>
  makes the loop run forever.
\<close>

record sip =
  v0 :: u64
  v1 :: u64
  v2 :: u64
  v3 :: u64
  kk :: bytes
  inlen :: u64
  sbuf :: bytes

subsection \<open>Macros\<close>

definition ROTL :: "u64 \<Rightarrow> nat \<Rightarrow> u64" where
  "ROTL x b = push_bit b x OR drop_bit (64 - b) x"

definition U32TO8_LE :: "u32 \<Rightarrow> bytes" where
  "U32TO8_LE v = [ucast v, ucast (drop_bit 8 v), ucast (drop_bit 16 v), ucast (drop_bit 24 v)]"

definition U64TO8_LE :: "u64 \<Rightarrow> bytes" where
  "U64TO8_LE v = U32TO8_LE (ucast v) @ U32TO8_LE (ucast (drop_bit 32 v))"

definition U8TO64_LE :: "bytes \<Rightarrow> u64" where
  "U8TO64_LE p =
     ucast (p ! 0) OR push_bit 8 (ucast (p ! 1)) OR push_bit 16 (ucast (p ! 2)) OR
     push_bit 24 (ucast (p ! 3)) OR push_bit 32 (ucast (p ! 4)) OR push_bit 40 (ucast (p ! 5)) OR
     push_bit 48 (ucast (p ! 6)) OR push_bit 56 (ucast (p ! 7))"

definition SIPROUND :: "sip \<Rightarrow> sip" where
  "SIPROUND s =
     (let a0 = v0 s + v1 s;
          a1 = ROTL (v1 s) 13;
          a1 = a1 XOR a0;
          a0 = ROTL a0 32;
          a2 = v2 s + v3 s;
          a3 = ROTL (v3 s) 16;
          a3 = a3 XOR a2;
          a0 = a0 + a3;
          a3 = ROTL a3 21;
          a3 = a3 XOR a0;
          a2 = a2 + a1;
          a1 = ROTL a1 17;
          a1 = a1 XOR a2;
          a2 = ROTL a2 32
      in s\<lparr>v0 := a0, v1 := a1, v2 := a2, v3 := a3\<rparr>)"

fun sip_rounds :: "nat \<Rightarrow> sip \<Rightarrow> sip" where
  "sip_rounds 0 s = s"
| "sip_rounds (Suc n) s = sip_rounds n (SIPROUND s)"

definition cROUNDS :: nat where "cROUNDS = 2"
definition dROUNDS :: nat where "dROUNDS = 4"

subsection \<open>Blocks\<close>

definition compress :: "u64 \<Rightarrow> sip \<Rightarrow> sip" where
  "compress m s = (let s = sip_rounds cROUNDS (s\<lparr>v3 := v3 s XOR m\<rparr>) in s\<lparr>v0 := v0 s XOR m\<rparr>)"

definition process_next_block :: "sip \<Rightarrow> sip" where
  "process_next_block s = compress (U8TO64_LE (sbuf s)) s"

text \<open>The falling-through \<open>switch (left)\<close> that collects the last bytes.\<close>

definition final_word :: "u64 \<Rightarrow> bytes \<Rightarrow> u64" where
  "final_word len ni =
     (let left = unat (len AND 7);
          b = push_bit 56 len;
          b = (if left \<ge> 7 then b OR push_bit 48 (ucast (ni ! 6)) else b);
          b = (if left \<ge> 6 then b OR push_bit 40 (ucast (ni ! 5)) else b);
          b = (if left \<ge> 5 then b OR push_bit 32 (ucast (ni ! 4)) else b);
          b = (if left \<ge> 4 then b OR push_bit 24 (ucast (ni ! 3)) else b);
          b = (if left \<ge> 3 then b OR push_bit 16 (ucast (ni ! 2)) else b);
          b = (if left \<ge> 2 then b OR push_bit 8 (ucast (ni ! 1)) else b);
          b = (if left \<ge> 1 then b OR ucast (ni ! 0) else b)
      in b)"

definition sip_sum :: "sip \<Rightarrow> u64" where
  "sip_sum s = v0 s XOR v1 s XOR v2 s XOR v3 s"

definition sip_finish :: "u64 \<Rightarrow> sip \<Rightarrow> bytes \<times> sip" where
  "sip_finish b s =
     (let s = compress b s;
          s = s\<lparr>v2 := v2 s XOR 0xee\<rparr>;
          s = sip_rounds dROUNDS s;
          out1 = U64TO8_LE (sip_sum s);
          s = s\<lparr>v1 := v1 s XOR 0xdd\<rparr>;
          s = sip_rounds dROUNDS s;
          out2 = U64TO8_LE (sip_sum s)
      in (out1 @ out2, s))"

text \<open>The \<open>assert (left == buflen)\<close> is the guard.\<close>

definition process_final_block :: "sip \<Rightarrow> (bytes \<times> sip) option" where
  "process_final_block s =
     (if unat (inlen s AND 7) \<noteq> length (sbuf s) then None
      else Some (sip_finish (final_word (inlen s) (sbuf s)) s))"

subsection \<open>Interface\<close>

definition siphash_reset :: "sip \<Rightarrow> sip" where
  "siphash_reset s =
     (let k0 = U8TO64_LE (kk s); k1 = U8TO64_LE (drop 8 (kk s)) in
      s\<lparr>v0 := 0x736f6d6570736575 XOR k0,
        v1 := (0x646f72616e646f6d XOR k1) XOR 0xee,
        v2 := 0x6c7967656e657261 XOR k0,
        v3 := 0x7465646279746573 XOR k1,
        inlen := 0, sbuf := []\<rparr>)"

definition siphash_init :: "bytes \<Rightarrow> sip" where
  "siphash_init key_128bit =
     siphash_reset \<lparr>v0 = 0, v1 = 0, v2 = 0, v3 = 0, kk = key_128bit, inlen = 0, sbuf = []\<rparr>"

text \<open>
  The inner loop of \<open>siphash_update\<close> fills the block buffer; \<open>datapos\<close> is a \<open>u32\<close>, the
  number of bytes a \<open>u64\<close>. The outer \<open>while (true)\<close> compresses full blocks.
\<close>

function sip_fill :: "sip \<Rightarrow> bytes \<Rightarrow> u64 \<Rightarrow> u32 \<Rightarrow> (sip \<times> u32) option" where
  "sip_fill s data nb_bytes datapos =
     (if length (sbuf s) < 8 \<and> ucast datapos < nb_bytes then
        do { b \<leftarrow> mem_get data (unat datapos);
             sip_fill (s\<lparr>sbuf := sbuf s @ [b]\<rparr>) data nb_bytes (datapos + 1) }
      else Some (s, datapos))"
  by pat_completeness auto
termination
  by (relation "measure (\<lambda>(s, data, nb_bytes, datapos). 8 - length (sbuf s))") auto

declare sip_fill.simps [simp del]

partial_function (option) sip_update_loop :: "sip \<Rightarrow> bytes \<Rightarrow> u64 \<Rightarrow> u32 \<Rightarrow> sip option"
where [code]:
  "sip_update_loop s data nb_bytes datapos =
     do { (s1, pos1) \<leftarrow> sip_fill s data nb_bytes datapos;
          if length (sbuf s1) < 8 then Some s1
          else sip_update_loop ((process_next_block s1)\<lparr>sbuf := []\<rparr>) data nb_bytes pos1 }"

definition siphash_update :: "sip \<Rightarrow> bytes \<Rightarrow> u64 \<Rightarrow> sip option" where
  "siphash_update s data nb_bytes =
     do { s1 \<leftarrow> sip_update_loop s data nb_bytes 0; Some (s1\<lparr>inlen := inlen s1 + nb_bytes\<rparr>) }"

fun siphash_pad :: "sip \<Rightarrow> nat \<Rightarrow> sip option" where
  "siphash_pad s 0 = Some s"
| "siphash_pad s (Suc n) = do { s1 \<leftarrow> siphash_update s [0] 1; siphash_pad s1 n }"

definition siphash_digest :: "sip \<Rightarrow> (bytes \<times> sip) option" where
  "siphash_digest s = process_final_block s"

definition SECRET_KEY :: bytes where
  "SECRET_KEY = [86, 93, 1, 209, 112, 176, 13, 40, 168, 223, 25, 22, 134, 58, 21, 211]"

section \<open>Correctness\<close>

subsection \<open>Byte-wise absorption\<close>

text \<open>\<open>feed\<close> takes one byte and compresses when the block is full.\<close>

definition feed :: "sip \<Rightarrow> u8 \<Rightarrow> sip" where
  "feed s b =
     (if length (sbuf s) = 7
      then (compress (U8TO64_LE (sbuf s @ [b])) s)\<lparr>sbuf := []\<rparr>
      else s\<lparr>sbuf := sbuf s @ [b]\<rparr>)"

definition absorb :: "sip \<Rightarrow> bytes \<Rightarrow> sip" where
  "absorb s bs = foldl feed s bs"

lemma absorb_Nil [simp]: "absorb s [] = s"
  by (simp add: absorb_def)

lemma absorb_Cons [simp]: "absorb s (b # bs) = absorb (feed s b) bs"
  by (simp add: absorb_def)

lemma absorb_append: "absorb s (as @ bs) = absorb (absorb s as) bs"
  by (simp add: absorb_def)

lemma sip_rounds_frame [simp]:
  "sbuf (sip_rounds n s) = sbuf s" "inlen (sip_rounds n s) = inlen s" "kk (sip_rounds n s) = kk s"
  by (induction n arbitrary: s) (auto simp: SIPROUND_def Let_def)

lemma compress_frame [simp]:
  "sbuf (compress m s) = sbuf s" "inlen (compress m s) = inlen s" "kk (compress m s) = kk s"
  by (simp_all add: compress_def Let_def)

lemma SIPROUND_upd [simp]:
  "SIPROUND (s\<lparr>sbuf := b\<rparr>) = (SIPROUND s)\<lparr>sbuf := b\<rparr>"
  "SIPROUND (s\<lparr>inlen := l\<rparr>) = (SIPROUND s)\<lparr>inlen := l\<rparr>"
  by (simp_all add: SIPROUND_def Let_def)

lemma sip_rounds_upd [simp]:
  "sip_rounds n (s\<lparr>sbuf := b\<rparr>) = (sip_rounds n s)\<lparr>sbuf := b\<rparr>"
  "sip_rounds n (s\<lparr>inlen := l\<rparr>) = (sip_rounds n s)\<lparr>inlen := l\<rparr>"
  by (induction n arbitrary: s) auto

lemma sip_swap:
  "s\<lparr>sbuf := b, v3 := x\<rparr> = s\<lparr>v3 := x, sbuf := b\<rparr>"
  "s\<lparr>inlen := l, v3 := x\<rparr> = s\<lparr>v3 := x, inlen := l\<rparr>"
  by simp_all

lemma compress_upd [simp]:
  "compress m (s\<lparr>sbuf := b\<rparr>) = (compress m s)\<lparr>sbuf := b\<rparr>"
  "compress m (s\<lparr>inlen := l\<rparr>) = (compress m s)\<lparr>inlen := l\<rparr>"
  by (simp_all add: compress_def Let_def sip_swap)

lemma feed_frame [simp]: "inlen (feed s b) = inlen s" "kk (feed s b) = kk s"
  by (simp_all add: feed_def)

lemma feed_upd: "feed (s\<lparr>inlen := l\<rparr>) b = (feed s b)\<lparr>inlen := l\<rparr>"
  by (simp add: feed_def)

lemma absorb_frame [simp]: "inlen (absorb s bs) = inlen s" "kk (absorb s bs) = kk s"
  by (induction bs arbitrary: s) auto

lemma absorb_upd: "absorb (s\<lparr>inlen := l\<rparr>) bs = (absorb s bs)\<lparr>inlen := l\<rparr>"
  by (induction bs arbitrary: s) (auto simp: feed_upd)

lemma feed_sbuf: "length (sbuf s) < 8 \<Longrightarrow>
  length (sbuf (feed s b)) < 8 \<and> length (sbuf (feed s b)) mod 8 = (length (sbuf s) + 1) mod 8"
  by (auto simp: feed_def)

lemma absorb_sbuf: "length (sbuf s) < 8 \<Longrightarrow>
  length (sbuf (absorb s bs)) < 8 \<and> length (sbuf (absorb s bs)) = (length (sbuf s) + length bs) mod 8"
proof (induction bs arbitrary: s)
  case Nil
  then show ?case by simp
next
  case (Cons b bs)
  from feed_sbuf [OF Cons.prems, of b] have f: "length (sbuf (feed s b)) < 8"
    "length (sbuf (feed s b)) mod 8 = (length (sbuf s) + 1) mod 8" by auto
  with Cons.IH [OF f(1)] show ?case
    by (metis absorb_Cons add.assoc length_Cons mod_add_left_eq plus_1_eq_Suc)
qed

subsection \<open>The update loop absorbs its data\<close>

lemma sip_fill_spec:
  assumes "length (sbuf s) \<le> 8" "length data < 2 ^ 32" "unat pos \<le> length data"
  shows "let n = min (8 - length (sbuf s)) (length data - unat pos) in
    sip_fill s data (of_nat (length data)) pos =
      Some (s\<lparr>sbuf := sbuf s @ take n (drop (unat pos) data)\<rparr>, pos + of_nat n)"
  using assms
proof (induction "8 - length (sbuf s)" arbitrary: s pos)
  case 0
  then show ?case by (subst sip_fill.simps) simp
next
  case (Suc x)
  have len: "unat (of_nat (length data) :: u64) = length data"
    using Suc.prems(2) by (simp add: unat_of_nat_small)
  have cmp: "ucast pos < (of_nat (length data) :: u64) \<longleftrightarrow> unat pos < length data"
    by (simp add: word_less_nat_alt len unat_ucast_up)
  show ?case
  proof (cases "unat pos < length data")
    case True
    define s1 where "s1 = s\<lparr>sbuf := sbuf s @ [data ! unat pos]\<rparr>"
    have room: "length (sbuf s) < 8" using Suc.hyps(2) by simp
    have up: "unat (pos + 1) = Suc (unat pos)"
      using True Suc.prems(2) by (simp add: unat_word_ariths)
    have "sip_fill s data (of_nat (length data)) pos = sip_fill s1 data (of_nat (length data)) (pos + 1)"
      using room True cmp by (subst sip_fill.simps) (simp add: s1_def mem_get_def)
    moreover have "let n = min (8 - length (sbuf s1)) (length data - unat (pos + 1)) in
        sip_fill s1 data (of_nat (length data)) (pos + 1) =
          Some (s1\<lparr>sbuf := sbuf s1 @ take n (drop (unat (pos + 1)) data)\<rparr>, pos + 1 + of_nat n)"
      using Suc.hyps(2) Suc.prems True up by (intro Suc.hyps(1)) (auto simp: s1_def)
    ultimately show ?thesis
      using Suc.hyps(2) True up
      by (simp add: Let_def s1_def drop_nth_Cons [OF True] min_def take_Cons' algebra_simps
          split: if_splits) (auto simp: Suc_diff_Suc)
  next
    case False
    with cmp show ?thesis using Suc.prems(3) by (subst sip_fill.simps) simp
  qed
qed

lemma absorb_short:
  "length (sbuf s) + length bs < 8 \<Longrightarrow> absorb s bs = s\<lparr>sbuf := sbuf s @ bs\<rparr>"
  by (induction bs arbitrary: s) (auto simp: feed_def)

lemma absorb_block:
  assumes "length (sbuf s) + length bs = 8" "bs \<noteq> []"
  shows "absorb s bs = (process_next_block (s\<lparr>sbuf := sbuf s @ bs\<rparr>))\<lparr>sbuf := []\<rparr>"
proof -
  obtain as b where bs: "bs = as @ [b]" using assms(2) by (metis rev_exhaust)
  with assms have "absorb s as = s\<lparr>sbuf := sbuf s @ as\<rparr>" by (intro absorb_short) simp
  with assms bs show ?thesis
    by (simp add: absorb_append feed_def process_next_block_def)
qed

lemma sip_update_loop_spec:
  assumes "length (sbuf s) < 8" "length data < 2 ^ 32" "unat pos \<le> length data"
  shows "sip_update_loop s data (of_nat (length data)) pos = Some (absorb s (drop (unat pos) data))"
  using assms
proof (induction "length data - unat pos" arbitrary: s pos rule: less_induct)
  case less
  define n where "n = min (8 - length (sbuf s)) (length data - unat pos)"
  define s1 where "s1 = s\<lparr>sbuf := sbuf s @ take n (drop (unat pos) data)\<rparr>"
  have fill: "sip_fill s data (of_nat (length data)) pos = Some (s1, pos + of_nat n)"
    using sip_fill_spec [of s data pos] less.prems by (simp add: Let_def n_def s1_def)
  have len: "length (sbuf s1) = length (sbuf s) + n" by (simp add: s1_def n_def)
  show ?case
  proof (cases "length (sbuf s1) < 8")
    case True
    then have "n = length data - unat pos" using len by (auto simp: n_def)
    then have "absorb s (drop (unat pos) data) = s1"
      using absorb_short [of s "drop (unat pos) data"] True len by (simp add: s1_def)
    with True fill show ?thesis by (subst sip_update_loop.simps) simp
  next
    case False
    then have n: "length (sbuf s) + n = 8" "0 < n" "n \<le> length data - unat pos"
      using len less.prems(1) by (auto simp: n_def)
    define s2 where "s2 = (process_next_block s1)\<lparr>sbuf := []\<rparr>"
    have abs: "absorb s (take n (drop (unat pos) data)) = s2"
      using absorb_block [of s "take n (drop (unat pos) data)"] n by (auto simp: s1_def s2_def)
    have up: "unat (pos + of_nat n) = unat pos + n"
      using n less.prems(2,3) by (simp add: unat_word_ariths unat_of_nat_small)
    have "sip_update_loop s2 data (of_nat (length data)) (pos + of_nat n) =
        Some (absorb s2 (drop (unat (pos + of_nat n)) data))"
      using n less.prems up by (intro less.hyps) (auto simp: s2_def)
    moreover have "drop (unat pos) data =
        take n (drop (unat pos) data) @ drop (unat (pos + of_nat n)) data"
      using up by (simp add: add.commute drop_drop [symmetric] del: drop_drop)
    ultimately show ?thesis
      using False fill abs
      by (subst sip_update_loop.simps) (simp add: s2_def [symmetric], metis absorb_append)
  qed
qed

text \<open>\<open>update s data\<close>: what one call of \<open>siphash_update\<close> on a whole array computes.\<close>

definition update :: "sip \<Rightarrow> bytes \<Rightarrow> sip" where
  "update s data = (absorb s data)\<lparr>inlen := inlen s + of_nat (length data)\<rparr>"

lemma siphash_update_eq:
  "length (sbuf s) < 8 \<Longrightarrow> length data < 2 ^ 32 \<Longrightarrow>
   siphash_update s data (of_nat (length data)) = Some (update s data)"
  by (simp add: siphash_update_def sip_update_loop_spec update_def)

lemma update_sbuf [simp]: "length (sbuf s) < 8 \<Longrightarrow> length (sbuf (update s data)) < 8"
  by (simp add: update_def absorb_sbuf)

lemma update_append: "update (update s as) bs = update s (as @ bs)"
  by (simp add: update_def absorb_upd absorb_append)

lemma update_kk [simp]: "kk (update s data) = kk s"
  by (simp add: update_def)

lemma siphash_pad_eq:
  "length (sbuf s) < 8 \<Longrightarrow> siphash_pad s n = Some (update s (replicate n 0))"
proof (induction n arbitrary: s)
  case 0
  then show ?case by (simp add: update_def)
next
  case (Suc n)
  then show ?case
    using siphash_update_eq [OF Suc.prems, of "[0]"] by (simp add: update_append)
qed

lemma sip_fill_pos:
  "sip_fill s data nb pos = Some (s1, pos1) \<Longrightarrow> length (sbuf s1) < 8 \<Longrightarrow> \<not> ucast pos1 < nb"
  by (induction s data nb pos rule: sip_fill.induct)
    (subst (asm) (2) sip_fill.simps, auto split: if_splits Option.bind_splits)

text \<open>
  A piece of \<open>2 ^ 32\<close> bytes or more is never hashed: the 32-bit position of the loop cannot
  reach the 64-bit length, and the call does not return (or runs past the end of the data).
\<close>

theorem siphash_update_diverges:
  assumes "2 ^ 32 \<le> unat nb_bytes"
  shows "siphash_update s data nb_bytes = None"
proof -
  have "\<not> sip_update_loop s data nb_bytes pos = Some r" for s pos r
  proof
    assume ret: "sip_update_loop s data nb_bytes pos = Some r"
    have "2 ^ 32 \<le> unat nb_bytes \<longrightarrow> False"
    proof (rule sip_update_loop.raw_induct
        [where P = "\<lambda>s data nb pos r. 2 ^ 32 \<le> unat nb \<longrightarrow> False", OF _ ret])
      fix f s data nb pos r
      assume IH: "\<And>s data nb pos r. f s data nb pos = Some r \<Longrightarrow> 2 ^ 32 \<le> unat nb \<longrightarrow> False"
        and eq: "do { (s1, pos1) \<leftarrow> sip_fill s data nb pos;
          if length (sbuf s1) < 8 then Some s1
          else f ((process_next_block s1)\<lparr>sbuf := []\<rparr>) data nb pos1 } = Some (r :: sip)"
      show "2 ^ 32 \<le> unat nb \<longrightarrow> False"
      proof
        assume big: "2 ^ 32 \<le> unat nb"
        obtain s1 pos1 where f: "sip_fill s data nb pos = Some (s1, pos1)"
          using eq by (cases "sip_fill s data nb pos") auto
        have "unat pos1 < 2 ^ 32" using unsigned_less [of pos1] by simp
        then have "ucast pos1 < nb"
          using big by (simp add: word_less_nat_alt unat_ucast_up)
        with sip_fill_pos [OF f] have "\<not> length (sbuf s1) < 8" by blast
        with eq f IH big show False by auto
      qed
    qed
    with assms show False by blast
  qed
  then show ?thesis
    unfolding siphash_update_def by (cases "sip_update_loop s data nb_bytes 0") auto
qed

theorem siphash_update_diverges_witness:
  "siphash_update (siphash_init SECRET_KEY) (replicate (2 ^ 32) 0) (2 ^ 32) = None"
  by (rule siphash_update_diverges) simp

subsection \<open>One-shot reference\<close>

text \<open>
  The reference takes the whole message: it compresses its 8-byte blocks in order and finishes
  with the rest. \<open>siphash128 key msg\<close> is the tag of \<open>msg\<close>.
\<close>

function sip_blocks :: "sip \<Rightarrow> bytes \<Rightarrow> sip" where
  "sip_blocks s m =
     (if length m < 8 then s\<lparr>sbuf := m\<rparr>
      else sip_blocks (compress (U8TO64_LE (take 8 m)) s) (drop 8 m))"
  by pat_completeness auto
termination by (relation "measure (\<lambda>(s, m). length m)") auto

declare sip_blocks.simps [simp del]

definition siphash128 :: "bytes \<Rightarrow> bytes \<Rightarrow> bytes" where
  "siphash128 key m =
     (let s = sip_blocks (siphash_init key) m
      in fst (sip_finish (final_word (of_nat (length m)) (sbuf s)) s))"

lemma sip_finish_inlen: "fst (sip_finish b (s\<lparr>inlen := l\<rparr>)) = fst (sip_finish b s)"
proof -
  have swap: "t\<lparr>inlen := l, v2 := x\<rparr> = t\<lparr>v2 := x, inlen := l\<rparr>"
    "t\<lparr>inlen := l, v1 := x\<rparr> = t\<lparr>v1 := x, inlen := l\<rparr>" for t x by simp_all
  have "sip_sum (t\<lparr>inlen := l\<rparr>) = sip_sum t" for t by (simp add: sip_sum_def)
  then show ?thesis by (simp add: sip_finish_def Let_def swap)
qed

lemma sip_finish_frame [simp]:
  "length (fst (sip_finish b s)) = 16" "kk (snd (sip_finish b s)) = kk s"
  by (simp_all add: sip_finish_def Let_def U64TO8_LE_def U32TO8_LE_def)

lemma absorb_blocks: "sbuf s = [] \<Longrightarrow> absorb s m = sip_blocks s m"
proof (induction s m rule: sip_blocks.induct)
  case (1 s m)
  show ?case
  proof (cases "length m < 8")
    case True
    with 1 show ?thesis by (subst sip_blocks.simps) (simp add: absorb_short)
  next
    case False
    have s: "s\<lparr>sbuf := []\<rparr> = s" using 1(2) by simp
    have "absorb s (take 8 m) = compress (U8TO64_LE (take 8 m)) s"
    proof -
      have "absorb s (take 8 m) = (compress (U8TO64_LE (take 8 m)) (s\<lparr>sbuf := []\<rparr>))"
        using absorb_block [of s "take 8 m"] False 1(2)
        by (cases m) (auto simp: process_next_block_def)
      then show ?thesis by (simp only: s)
    qed
    moreover have "absorb s m = absorb (absorb s (take 8 m)) (drop 8 m)"
      by (simp flip: absorb_append)
    ultimately show ?thesis
      using False 1 by (subst sip_blocks.simps) simp
  qed
qed

lemma siphash_init_frame [simp]:
  "sbuf (siphash_init key) = []" "inlen (siphash_init key) = 0" "kk (siphash_init key) = key"
  by (simp_all add: siphash_init_def siphash_reset_def Let_def)

lemma siphash_reset_init: "siphash_reset s = siphash_init (kk s)"
  by (simp add: siphash_init_def siphash_reset_def Let_def)

lemma digest_spec:
  "\<exists>t. siphash_digest (update (siphash_init key) m) = Some (siphash128 key m, t) \<and>
    kk t = key"
proof -
  have "length (sbuf (absorb (siphash_init key) m)) = length m mod 8"
    using absorb_sbuf [of "siphash_init key" m] by simp
  moreover have "unat (of_nat (length m) AND (7 :: u64)) = length m mod 8"
  proof -
    have seven: "(7 :: u64) = mask 3" by (simp add: mask_eq_exp_minus_1)
    have "unat (of_nat (length m) AND (7 :: u64)) = unat (take_bit 3 (of_nat (length m) :: u64))"
      by (simp only: seven take_bit_eq_mask)
    also have "\<dots> = take_bit 3 (take_bit 64 (length m))"
      by (simp add: unsigned_take_bit_eq unsigned_of_nat)
    also have "\<dots> = length m mod 8" by (simp add: take_bit_eq_mod mod_mod_cancel)
    finally show ?thesis .
  qed
  ultimately show ?thesis
    using sip_finish_inlen sip_finish_frame(2) absorb_frame(2) [of "siphash_init key" m]
    by (simp add: siphash_digest_def process_final_block_def update_def absorb_blocks
        siphash128_def Let_def prod_eq_iff)
qed

lemma sip_finish_sbuf [simp]:
  "sbuf (snd (sip_finish b s)) = sbuf s" "inlen (snd (sip_finish b s)) = inlen s"
  by (simp_all add: sip_finish_def Let_def)

lemma digest_frame:
  "siphash_digest s = Some (out, t) \<Longrightarrow> sbuf t = sbuf s \<and> inlen t = inlen s \<and> kk t = kk s \<and> length out = 16"
  by (auto simp: siphash_digest_def process_final_block_def split: if_splits)
    (metis prod.sel sip_finish_sbuf sip_finish_frame)+

text \<open>The buffer always holds the bytes since the last full block.\<close>

definition sip_ok :: "sip \<Rightarrow> bool" where
  "sip_ok s = (length (sbuf s) = unat (inlen s) mod 8)"

lemma unat_and_7: "unat (w AND 7 :: u64) = unat w mod 8"
proof -
  have "w AND 7 = w mod 8"
    using take_bit_eq_mask [of 3 w] by (simp add: mask_eq_exp_minus_1 take_bit_eq_mod)
  then show ?thesis by (simp add: unat_mod)
qed

lemma sip_ok_less: "sip_ok s \<Longrightarrow> length (sbuf s) < 8"
  by (simp add: sip_ok_def)

lemma sip_ok_init [simp]: "sip_ok (siphash_init key)"
  by (simp add: sip_ok_def)

lemma sip_ok_update: "sip_ok s \<Longrightarrow> sip_ok (update s m)"
proof -
  assume s: "sip_ok s"
  have "unat (inlen s + of_nat (length m)) mod 8 = (unat (inlen s) + length m) mod 2 ^ 64 mod 8"
    by (simp add: unat_word_ariths unsigned_of_nat take_bit_eq_mod mod_simps)
  also have "\<dots> = (length (sbuf s) + length m) mod 8"
    using s by (simp add: sip_ok_def mod_mod_cancel mod_simps)
  finally show ?thesis
    using absorb_sbuf [OF sip_ok_less [OF s], of m] by (simp add: sip_ok_def update_def)
qed

lemma digest_ok: "sip_ok s \<Longrightarrow> \<exists>out t. siphash_digest s = Some (out, t) \<and> sip_ok t \<and> kk t = kk s \<and> length out = 16"
proof -
  assume s: "sip_ok s"
  then obtain out t where "siphash_digest s = Some (out, t)"
    by (cases "sip_finish (final_word (inlen s) (sbuf s)) s")
      (simp add: siphash_digest_def process_final_block_def sip_ok_def unat_and_7)
  with digest_frame [OF this] s show ?thesis by (auto simp: sip_ok_def)
qed


section \<open>Incremental hashing\<close>

fun update_all :: "bytes list \<Rightarrow> sip \<Rightarrow> sip option" where
  "update_all [] s = Some s"
| "update_all (c # cs) s = do { s \<leftarrow> siphash_update s c (of_nat (length c)); update_all cs s }"

lemma update_all_spec:
  "\<forall>c \<in> set cs. length c < 2 ^ 32 \<Longrightarrow> length (sbuf s) < 8 \<Longrightarrow> update_all cs s = Some (update s (concat cs))"
proof (induction cs arbitrary: s)
  case Nil
  then show ?case by (simp add: update_def)
next
  case (Cons c cs)
  then show ?case by (simp add: siphash_update_eq update_append)
qed

text \<open>
  C12. Incremental hashing is one-shot hashing. Feeding a message in pieces, each shorter than
  \<open>2 ^ 32\<close> bytes, with any amount of zero padding at the end, yields the 128-bit SipHash-2-4 of
  the concatenation as the block-wise reference definition computes it; the internal assertion
  about the buffered bytes holds.
\<close>

theorem siphash_incremental:
  assumes "\<forall>c \<in> set cs. length c < 2 ^ 32"
  shows "\<exists>t. do { s \<leftarrow> update_all cs (siphash_init sk); s \<leftarrow> siphash_pad s n; siphash_digest s } =
    Some (siphash128 sk (concat cs @ replicate n 0), t)"
  using assms digest_spec [of sk "concat cs @ replicate n 0"]
  by (auto simp: update_all_spec siphash_pad_eq update_append)

theorem siphash_incremental_witness:
  "\<exists>t. do { s \<leftarrow> update_all [[1, 2, 3], [], [4, 5, 6, 7, 8, 9]] (siphash_init SECRET_KEY);
      s \<leftarrow> siphash_pad s 2; siphash_digest s } =
    Some (siphash128 SECRET_KEY (concat [[1, 2, 3], [], [4, 5, 6, 7, 8, 9]] @ replicate 2 0), t)"
  by (rule siphash_incremental) simp

end
