(* ===== verification/Imp_Utils.thy ===== *)
theory Imp_Utils
  imports Imp_Siphash
begin

text \<open>
  ImpCheck's helpers: \<open>impcheck/src/trusted/trusted_utils.c\<close> (argument matching, signatures and
  their hexadecimal form, binary input and output) and the growing vectors of \<open>vec.c\<close>. A C
  string is the list of its bytes with the terminating 0; a stream is the list of the bytes still
  to be read. A read that meets the end of the stream ends the process (exit), which is \<open>None\<close>.
\<close>

section \<open>Command-line arguments\<close>

fun begins_with :: "bytes \<Rightarrow> bytes \<Rightarrow> bool option" where
  "begins_with str [] = None"
| "begins_with str (p # prefix) =
     (if p = 0 then Some True
      else case str of
        [] \<Rightarrow> None
      | s # rest \<Rightarrow>
          if s = 0 then Some (p = 0)
          else if s \<noteq> p then Some False
          else begins_with rest prefix)"

definition strlen :: "bytes \<Rightarrow> nat" where
  "strlen s = length (takeWhile (\<lambda>b. b \<noteq> 0) s)"

definition trusted_utils_try_match_arg :: "bytes \<Rightarrow> bytes \<Rightarrow> bytes \<Rightarrow> bytes option" where
  "trusted_utils_try_match_arg arg opt out =
     do { m \<leftarrow> begins_with arg opt; Some (if m then drop (strlen opt) arg else out) }"

definition trusted_utils_try_match_flag :: "bytes \<Rightarrow> bytes \<Rightarrow> bool \<Rightarrow> bool option" where
  "trusted_utils_try_match_flag arg opt out =
     do { m \<leftarrow> begins_with arg opt; Some (if m then True else out) }"

definition c_string :: "bytes \<Rightarrow> bytes" where
  "c_string s = s @ [0]"

lemma strlen_c_string: "0 \<notin> set s \<Longrightarrow> strlen (c_string s) = length s"
proof -
  assume "0 \<notin> set s"
  then have "\<forall>b \<in> set s. b \<noteq> 0" by metis
  then show ?thesis by (simp add: strlen_def c_string_def takeWhile_append2)
qed

lemma begins_with_spec:
  "0 \<notin> set s \<Longrightarrow> 0 \<notin> set p \<Longrightarrow>
   begins_with (c_string s) (c_string p) = Some (take (length p) s = p)"
proof (induction p arbitrary: s)
  case Nil
  then show ?case by (simp add: c_string_def)
next
  case (Cons b p)
  then show ?case by (cases s) (auto simp: c_string_def)
qed

lemma try_match_arg_spec:
  assumes "0 \<notin> set s" "0 \<notin> set p"
  shows "trusted_utils_try_match_arg (c_string s) (c_string p) out =
    Some (if take (length p) s = p then c_string (drop (length p) s) else out)"
proof -
  have "strlen (c_string p) = length p" by (rule strlen_c_string [OF assms(2)])
  moreover have "length p \<le> length s" if "take (length p) s = p"
    using that by (metis length_take min.cobounded1)
  ultimately show ?thesis
    using begins_with_spec [OF assms]
    by (auto simp: trusted_utils_try_match_arg_def c_string_def)
qed

section \<open>Signatures\<close>

definition SIG_SIZE_BYTES :: nat where "SIG_SIZE_BYTES = 16"

fun trusted_utils_copy_bytes :: "bytes \<Rightarrow> nat \<Rightarrow> bytes \<Rightarrow> nat \<Rightarrow> bytes option" where
  "trusted_utils_copy_bytes to i from 0 = Some to"
| "trusted_utils_copy_bytes to i from (Suc n) =
     do { b \<leftarrow> mem_get from i; to \<leftarrow> mem_set to i b; trusted_utils_copy_bytes to (Suc i) from n }"

fun equal_from :: "nat \<Rightarrow> bytes \<Rightarrow> bytes \<Rightarrow> bool option" where
  "equal_from 0 left right = Some True"
| "equal_from (Suc n) left right =
     (case (left, right) of
        (l # left, r # right) \<Rightarrow> if l \<noteq> r then Some False else equal_from n left right
      | _ \<Rightarrow> None)"

definition trusted_utils_equal_signatures :: "bytes \<Rightarrow> bytes \<Rightarrow> bool option" where
  "trusted_utils_equal_signatures left right = equal_from SIG_SIZE_BYTES left right"

lemma copy_bytes_spec:
  "i + n \<le> length to \<Longrightarrow> i + n \<le> length from \<Longrightarrow>
   trusted_utils_copy_bytes to i from n = Some (take i to @ take n (drop i from) @ drop (i + n) to)"
proof (induction n arbitrary: to i)
  case 0
  then show ?case by simp
next
  case (Suc n)
  have "trusted_utils_copy_bytes to i from (Suc n) =
      trusted_utils_copy_bytes (to[i := from ! i]) (Suc i) from n"
    using Suc.prems by (simp add: c_mem)
  also have "\<dots> = Some (take (Suc i) (to[i := from ! i]) @ take n (drop (Suc i) from) @ drop (Suc i + n) to)"
    using Suc.prems Suc.IH [of "Suc i" "to[i := from ! i]"] by simp
  also have "take (Suc i) (to[i := from ! i]) = take i to @ [from ! i]"
    using Suc.prems by (simp add: take_Suc_snoc)
  finally show ?case using Suc.prems by (simp add: drop_nth_Cons [of i "from"])
qed

lemma equal_from_spec:
  "n \<le> length left \<Longrightarrow> n \<le> length right \<Longrightarrow> equal_from n left right = Some (take n left = take n right)"
proof (induction n arbitrary: left right)
  case (Suc n)
  then show ?case by (cases left; cases right) auto
qed simp

lemma equal_signatures_spec:
  "length a = 16 \<Longrightarrow> length b = 16 \<Longrightarrow> trusted_utils_equal_signatures a b = Some (a = b)"
  using equal_from_spec [of 16 a b]
  by (simp add: trusted_utils_equal_signatures_def SIG_SIZE_BYTES_def)

subsection \<open>Hexadecimal form\<close>

definition hex_digit :: "u8 \<Rightarrow> u8" where
  "hex_digit v = (if v \<ge> 10 then 97 + v - 10 else 48 + v)"

fun trusted_utils_sig_to_str :: "bytes \<Rightarrow> bytes" where
  "trusted_utils_sig_to_str [] = [0]"
| "trusted_utils_sig_to_str (b # sig) =
     hex_digit (drop_bit 4 b AND 0x0f) # hex_digit (b AND 0x0f) # trusted_utils_sig_to_str sig"

text \<open>The arithmetic on \<open>char\<close>s is \<open>int\<close> arithmetic on signed values.\<close>

definition hex_value :: "u8 \<Rightarrow> int" where
  "hex_value h = (if sint h \<ge> 48 \<and> sint h \<le> 57 then sint h - 48 else 10 + sint h - 97)"

fun str_to_sig_from :: "nat \<Rightarrow> bytes \<Rightarrow> bytes \<Rightarrow> (bool \<times> bytes) option" where
  "str_to_sig_from 0 str out = Some (True, out)"
| "str_to_sig_from (Suc n) str out =
     (case str of
        hex1 # hex2 # rest \<Rightarrow>
          (let byte = 16 * hex_value hex1 + hex_value hex2 in
           if byte < 0 \<or> byte \<ge> 256 then Some (False, out)
           else str_to_sig_from n rest (out @ [word_of_int byte]))
      | _ \<Rightarrow> None)"

definition trusted_utils_str_to_sig :: "bytes \<Rightarrow> (bool \<times> bytes) option" where
  "trusted_utils_str_to_sig str = str_to_sig_from SIG_SIZE_BYTES str []"

lemma low_nibble: "unat (b AND (0x0f :: u8)) = unat b mod 16"
proof -
  have "b AND (0x0f :: u8) = b mod 16"
    using take_bit_eq_mask [of 4 b] by (simp add: mask_eq_exp_minus_1 take_bit_eq_mod)
  then show ?thesis by (simp add: unat_mod)
qed

lemma high_nibble: "unat (drop_bit 4 (b :: u8)) = unat b div 16"
  by (simp add: drop_bit_eq_div unat_div_distrib)

lemma hex_value_digit:
  assumes "unat v < 16"
  shows "hex_value (hex_digit v) = int (unat v)"
proof -
  have "list_all (\<lambda>n. hex_value (hex_digit (of_nat n)) = int n) [0..<16]" by code_simp
  then have "hex_value (hex_digit (of_nat (unat v))) = int (unat v)"
    using assms by (auto simp only: list_all_iff set_upt atLeastLessThan_iff)
  then show ?thesis by simp
qed

lemma str_to_sig_from_hex:
  "str_to_sig_from (length sig) (trusted_utils_sig_to_str sig) out = Some (True, out @ sig)"
proof (induction sig arbitrary: out)
  case (Cons b sig)
  have "unat b < 256" using unsigned_less [of b] by simp
  then have div: "unat b div 16 mod 16 = unat b div 16" by simp
  have "16 * int (unat b div 16) + int (unat b mod 16) = int (unat b)" by presburger
  then have byte: "16 * hex_value (hex_digit (drop_bit 4 b AND 0x0f)) +
      hex_value (hex_digit (b AND 0x0f)) = int (unat b)"
    using hex_value_digit [of "drop_bit 4 b AND 0x0f"] hex_value_digit [of "b AND 0x0f"]
      \<open>unat b < 256\<close>
    by (simp only: low_nibble high_nibble div)
  show ?case
    using Cons uint_bounded [of b]
    by (simp only: trusted_utils_sig_to_str.simps length_Cons str_to_sig_from.simps list.case Let_def byte)
      simp
qed simp

lemma str_to_sig_round_trip:
  "length sig = 16 \<Longrightarrow> trusted_utils_str_to_sig (trusted_utils_sig_to_str sig) = Some (True, sig)"
  using str_to_sig_from_hex [of sig "[]"] by (simp add: trusted_utils_str_to_sig_def SIG_SIZE_BYTES_def)

lemma sig_to_str_length: "length (trusted_utils_sig_to_str sig) = 2 * length sig + 1"
  by (induction sig) auto

section \<open>Binary input and output\<close>

definition le32 :: "bytes \<Rightarrow> u32" where
  "le32 p = ucast (p ! 0) OR push_bit 8 (ucast (p ! 1)) OR push_bit 16 (ucast (p ! 2)) OR
     push_bit 24 (ucast (p ! 3))"

text \<open>Bit \<open>8 i + k\<close> of a decoded integer is bit \<open>k\<close> of byte \<open>i\<close>.\<close>

lemma byte_bit_high: "8 \<le> n \<Longrightarrow> \<not> bit (b :: u8) n"
  by (auto dest: bit_imp_le_length)

lemma bit_le32: "i < 4 \<Longrightarrow> k < 8 \<Longrightarrow> bit (le32 p) (8 * i + k) = bit (p ! i) k"
proof -
  assume "i < 4" "k < 8"
  then consider "i = 0" | "i = 1" | "i = 2" | "i = 3" by linarith
  then show ?thesis
    using \<open>k < 8\<close> by cases (simp_all add: le32_def bit_simps byte_bit_high)
qed

lemma bit_U8TO64_LE: "i < 8 \<Longrightarrow> k < 8 \<Longrightarrow> bit (U8TO64_LE p) (8 * i + k) = bit (p ! i) k"
proof -
  assume "i < 8" "k < 8"
  then consider "i = 0" | "i = 1" | "i = 2" | "i = 3" | "i = 4" | "i = 5" | "i = 6" | "i = 7"
    by linarith
  then show ?thesis
    using \<open>k < 8\<close> by cases (simp_all add: U8TO64_LE_def bit_simps byte_bit_high)
qed

lemma U32TO8_LE_nth: "i < 4 \<Longrightarrow> U32TO8_LE v ! i = ucast (drop_bit (8 * i) v)"
proof -
  assume "i < 4"
  then consider "i = 0" | "i = 1" | "i = 2" | "i = 3" by linarith
  then show ?thesis by cases (simp_all add: U32TO8_LE_def)
qed

lemma U64TO8_LE_nth: "i < 8 \<Longrightarrow> U64TO8_LE v ! i = ucast (drop_bit (8 * i) v)"
proof -
  assume i: "i < 8"
  have l: "length (U32TO8_LE w) = 4" for w by (simp add: U32TO8_LE_def)
  show ?thesis
  proof (cases "i < 4")
    case True
    then show ?thesis
      by (simp add: U64TO8_LE_def nth_append l U32TO8_LE_nth)
        (rule bit_word_eqI, auto simp: bit_simps)
  next
    case False
    then obtain j where j: "i = 4 + j" by (metis le_iff_add not_less)
    with i have "j < 4" by simp
    then show ?thesis
      by (simp add: j U64TO8_LE_def nth_append l U32TO8_LE_nth)
        (rule bit_word_eqI, auto simp: bit_simps algebra_simps)
  qed
qed

lemma le32_inverse: "le32 (U32TO8_LE v) = v"
proof (rule bit_word_eqI)
  fix n assume n: "n < LENGTH(32)"
  have "bit (le32 (U32TO8_LE v)) (8 * (n div 8) + n mod 8) = bit (U32TO8_LE v ! (n div 8)) (n mod 8)"
    using n by (intro bit_le32) auto
  also have "\<dots> = bit v (8 * (n div 8) + n mod 8)"
    using n by (subst U32TO8_LE_nth) (auto simp: bit_simps)
  finally show "bit (le32 (U32TO8_LE v)) n = bit v n" by simp
qed

lemma U8TO64_LE_inverse: "U8TO64_LE (U64TO8_LE v) = v"
proof (rule bit_word_eqI)
  fix n assume n: "n < LENGTH(64)"
  have "bit (U8TO64_LE (U64TO8_LE v)) (8 * (n div 8) + n mod 8) = bit (U64TO8_LE v ! (n div 8)) (n mod 8)"
    using n by (intro bit_U8TO64_LE) auto
  also have "\<dots> = bit v (8 * (n div 8) + n mod 8)"
    using n by (subst U64TO8_LE_nth) (auto simp: bit_simps)
  finally show "bit (U8TO64_LE (U64TO8_LE v)) n = bit v n" by simp
qed


subsection \<open>Reading\<close>

definition trusted_utils_read_objs :: "nat \<Rightarrow> bytes \<Rightarrow> (bytes \<times> bytes) option" where
  "trusted_utils_read_objs n file = (if length file < n then None else Some (take n file, drop n file))"

definition trusted_utils_read_char :: "bytes \<Rightarrow> (int \<times> bytes) option" where
  "trusted_utils_read_char file = (case file of [] \<Rightarrow> None | b # rest \<Rightarrow> Some (uint b, rest))"

definition trusted_utils_read_bool :: "bytes \<Rightarrow> (bool \<times> bytes) option" where
  "trusted_utils_read_bool file = (case file of [] \<Rightarrow> None | b # rest \<Rightarrow> Some (b \<noteq> 0, rest))"

definition trusted_utils_read_int :: "bytes \<Rightarrow> (int \<times> bytes) option" where
  "trusted_utils_read_int file =
     do { (obj, file) \<leftarrow> trusted_utils_read_objs 4 file; Some (sint (le32 obj), file) }"

definition trusted_utils_read_ul :: "bytes \<Rightarrow> (u64 \<times> bytes) option" where
  "trusted_utils_read_ul file =
     do { (obj, file) \<leftarrow> trusted_utils_read_objs 8 file; Some (U8TO64_LE obj, file) }"

fun trusted_utils_read_ints :: "nat \<Rightarrow> bytes \<Rightarrow> (int list \<times> bytes) option" where
  "trusted_utils_read_ints 0 file = Some ([], file)"
| "trusted_utils_read_ints (Suc n) file =
     do { (i, file) \<leftarrow> trusted_utils_read_int file; (is, file) \<leftarrow> trusted_utils_read_ints n file;
          Some (i # is, file) }"

fun trusted_utils_read_uls :: "nat \<Rightarrow> bytes \<Rightarrow> (u64 list \<times> bytes) option" where
  "trusted_utils_read_uls 0 file = Some ([], file)"
| "trusted_utils_read_uls (Suc n) file =
     do { (i, file) \<leftarrow> trusted_utils_read_ul file; (is, file) \<leftarrow> trusted_utils_read_uls n file;
          Some (i # is, file) }"

definition trusted_utils_read_sig :: "bytes \<Rightarrow> (bytes \<times> bytes) option" where
  "trusted_utils_read_sig file = trusted_utils_read_objs (4 * 4) file"

subsection \<open>Writing\<close>

text \<open>The bytes that each call appends to the stream.\<close>

definition trusted_utils_write_bool :: "bool \<Rightarrow> bytes" where
  "trusted_utils_write_bool b = [if b then 1 else 0]"

definition trusted_utils_write_int :: "int \<Rightarrow> bytes" where
  "trusted_utils_write_int i = U32TO8_LE (word_of_int i)"

definition trusted_utils_write_ints :: "int list \<Rightarrow> bytes" where
  "trusted_utils_write_ints is = concat (map trusted_utils_write_int is)"

definition trusted_utils_write_ul :: "u64 \<Rightarrow> bytes" where
  "trusted_utils_write_ul u = U64TO8_LE u"

definition trusted_utils_write_uls :: "u64 list \<Rightarrow> bytes" where
  "trusted_utils_write_uls us = concat (map trusted_utils_write_ul us)"

definition trusted_utils_write_sig :: "bytes \<Rightarrow> bytes" where
  "trusted_utils_write_sig sig = take (4 * 4) sig"

text \<open>What is written is read back.\<close>

definition is_int :: "int \<Rightarrow> bool" where
  "is_int i = (- (2 ^ 31) \<le> i \<and> i < 2 ^ 31)"

lemma length_U32TO8_LE [simp]: "length (U32TO8_LE v) = 4"
  by (simp add: U32TO8_LE_def)

lemma length_U64TO8_LE [simp]: "length (U64TO8_LE v) = 8"
  by (simp add: U64TO8_LE_def)

lemma read_int_write [simp]:
  "is_int i \<Longrightarrow> trusted_utils_read_int (trusted_utils_write_int i @ rest) = Some (i, rest)"
  by (simp add: is_int_def trusted_utils_read_int_def trusted_utils_read_objs_def
      trusted_utils_write_int_def le32_inverse signed_of_int
      signed_take_bit_int_eq_self)

lemma read_ul_write [simp]:
  "trusted_utils_read_ul (trusted_utils_write_ul u @ rest) = Some (u, rest)"
  by (simp add: trusted_utils_read_ul_def trusted_utils_read_objs_def
      trusted_utils_write_ul_def U8TO64_LE_inverse)

lemma read_ints_write [simp]:
  "\<forall>i \<in> set is. is_int i \<Longrightarrow>
   trusted_utils_read_ints (length is) (trusted_utils_write_ints is @ rest) = Some (is, rest)"
  by (induction "is") (simp_all add: trusted_utils_write_ints_def)

lemma read_uls_write [simp]:
  "trusted_utils_read_uls (length us) (trusted_utils_write_uls us @ rest) = Some (us, rest)"
  by (induction us) (simp_all add: trusted_utils_write_uls_def)

lemma read_sig_write [simp]:
  "length sig = 16 \<Longrightarrow> trusted_utils_read_sig (trusted_utils_write_sig sig @ rest) = Some (sig, rest)"
  by (simp add: trusted_utils_read_sig_def trusted_utils_write_sig_def trusted_utils_read_objs_def)

lemma read_bool_write [simp]:
  "trusted_utils_read_bool (trusted_utils_write_bool b @ rest) = Some (b, rest)"
  by (simp add: trusted_utils_read_bool_def trusted_utils_write_bool_def)

lemma read_length:
  "trusted_utils_read_objs n file = Some (obj, rest) \<Longrightarrow> length file = n + length rest"
  "trusted_utils_read_int file = Some (i, rest) \<Longrightarrow> length file = 4 + length rest"
  "trusted_utils_read_ul file = Some (u, rest) \<Longrightarrow> length file = 8 + length rest"
  "trusted_utils_read_bool file = Some (b, rest) \<Longrightarrow> length file = 1 + length rest"
  "trusted_utils_read_char file = Some (c, rest) \<Longrightarrow> length file = 1 + length rest"
  "trusted_utils_read_sig file = Some (s, rest) \<Longrightarrow> length file = 16 + length rest"
  by (auto simp: trusted_utils_read_objs_def trusted_utils_read_int_def trusted_utils_read_ul_def
      trusted_utils_read_bool_def trusted_utils_read_char_def trusted_utils_read_sig_def
      split: if_splits list.splits Option.bind_splits)

lemma read_ints_length:
  "trusted_utils_read_ints n file = Some (is, rest) \<Longrightarrow> length file = 4 * n + length rest \<and> length is = n"
  by (induction n arbitrary: "file" "is") (fastforce dest: read_length split: Option.bind_splits)+

lemma read_uls_length:
  "trusted_utils_read_uls n file = Some (us, rest) \<Longrightarrow> length file = 8 * n + length rest \<and> length us = n"
  by (induction n arbitrary: "file" us) (fastforce dest: read_length split: Option.bind_splits)+

section \<open>Vectors\<close>

text \<open>
  \<open>vec.c\<close> is compiled once per element type. The cells of \<open>vdata\<close> up to \<open>vcapacity\<close> exist; a cell
  that was never written is \<open>None\<close>. \<open>grow\<close> stands for the floating-point product
  \<open>capacity * 1.3\<close>: the code is correct whatever it yields.
\<close>

record 'a vec =
  vcapacity :: nat
  vsize :: nat
  vdata :: "'a option list"

definition vec_init :: "'a \<Rightarrow> nat \<Rightarrow> 'a vec" where
  "vec_init zero cap = \<lparr>vcapacity = cap, vsize = 0, vdata = replicate cap (Some zero)\<rparr>"

definition vec_reserve :: "'a vec \<Rightarrow> nat \<Rightarrow> 'a vec" where
  "vec_reserve vec new_cap =
     (let vec = (if new_cap > vcapacity vec
                 then vec\<lparr>vdata := vdata vec @ replicate (new_cap - vcapacity vec) None, vcapacity := new_cap\<rparr>
                 else vec)
      in if vsize vec > new_cap then vec\<lparr>vsize := new_cap\<rparr> else vec)"

definition vec_push :: "(nat \<Rightarrow> nat) \<Rightarrow> 'a vec \<Rightarrow> 'a \<Rightarrow> 'a vec option" where
  "vec_push grow vec elem =
     (let vec = (if vsize vec = vcapacity vec
                 then let new_cap = grow (vcapacity vec);
                          new_cap = (if new_cap < vcapacity vec + 1 then vcapacity vec + 1 else new_cap)
                      in vec_reserve vec new_cap
                 else vec)
      in do { cells \<leftarrow> mem_set (vdata vec) (vsize vec) (Some elem);
              Some (vec\<lparr>vdata := cells, vsize := vsize vec + 1\<rparr>) })"

definition vec_clear :: "'a vec \<Rightarrow> 'a vec" where
  "vec_clear vec = vec_reserve vec 0"

text \<open>\<open>is_vec v xs\<close>: the vector holds the elements \<open>xs\<close>.\<close>

definition is_vec :: "'a vec \<Rightarrow> 'a list \<Rightarrow> bool" where
  "is_vec v xs = (length (vdata v) = vcapacity v \<and> vsize v = length xs \<and> vsize v \<le> vcapacity v \<and>
     take (vsize v) (vdata v) = map Some xs)"

lemma vec_init_spec: "is_vec (vec_init zero cap) []"
  by (simp add: is_vec_def vec_init_def)

lemma vec_reserve_spec: "is_vec v xs \<Longrightarrow> is_vec (vec_reserve v n) (take n xs) \<and> n \<le> vcapacity (vec_reserve v n)"
  by (auto simp: is_vec_def vec_reserve_def Let_def min_def take_map) (metis take_map take_take min.absorb1 nless_le)

lemma vec_clear_spec: "is_vec v xs \<Longrightarrow> is_vec (vec_clear v) []"
  using vec_reserve_spec [of v xs 0] by (simp add: vec_clear_def)

lemma vec_push_spec:
  assumes "is_vec v xs"
  shows "\<exists>v'. vec_push grow v x = Some v' \<and> is_vec v' (xs @ [x])"
proof -
  define n where "n = (if grow (vcapacity v) < vcapacity v + 1 then vcapacity v + 1 else grow (vcapacity v))"
  define w where "w = (if vsize v = vcapacity v then vec_reserve v n else v)"
  have "length xs \<le> n" using assms by (simp add: is_vec_def n_def)
  then have "is_vec (vec_reserve v n) xs" using vec_reserve_spec [OF assms, of n] by simp
  then have w: "is_vec w xs" "vsize w < vcapacity w"
    using assms vec_reserve_spec [OF assms, of n] by (auto simp: w_def is_vec_def n_def split: if_splits)
  then have "is_vec (w\<lparr>vdata := (vdata w)[vsize w := Some x], vsize := vsize w + 1\<rparr>) (xs @ [x])"
    by (auto simp: is_vec_def take_Suc_snoc)
  moreover have "vec_push grow v x = do { cells \<leftarrow> mem_set (vdata w) (vsize w) (Some x);
      Some (w\<lparr>vdata := cells, vsize := vsize w + 1\<rparr>) }"
    by (simp only: vec_push_def Let_def w_def n_def)
  then have "vec_push grow v x = Some (w\<lparr>vdata := (vdata w)[vsize w := Some x], vsize := vsize w + 1\<rparr>)"
    using w by (simp add: is_vec_def c_mem)
  ultimately show ?thesis by blast
qed

end
