(* ===== verification/Imp_Lrat.thy ===== *)
theory Imp_Lrat
  imports Imp_Hash Imp_Siphash
begin

text \<open>
  ImpCheck's proof checker, \<open>impcheck/src/trusted/lrat_check.c\<close>: it holds the clauses of a
  formula, checks LRAT derivations by unit propagation along the given hints, and validates an
  UNSAT or SAT result. Literals are C \<open>int\<close>s, modelled as \<open>int\<close>; a clause in memory is a list
  of literals that ends with 0. \<open>var_values\<close> is accessed without bounds checks in the code, so
  an access outside it is \<open>None\<close>. The error texts written to \<open>trusted_utils_msgstr\<close> are the
  constructors of \<open>check_msg\<close>.
\<close>

subsection \<open>State\<close>

type_synonym lit = int

datatype check_msg =
    Hint_Not_Found u64 u64
  | Multiple_Unassigned u64
  | Dependency_Satisfied u64 u64
  | Empty_At_Non_Final u64 u64
  | No_Empty_Clause u64
  | Insertion_Unsuccessful u64
  | Literals_Left
  | Deletion_Not_Found u64
  | Deletion_Table_Error u64
  | Loading_Not_Concluded
  | Empty_Clause_Missing
  | Model_Check_Disabled
  | Original_Not_Found u64
  | Model_Too_Short int
  | Model_Unexpected int int
  | Original_Not_Satisfied u64
  | Formula_Signature_Failed
  | Clause_Signature_Failed u64

record checker =
  clause_table :: "lit list hash_table"
  var_values :: "int list"
  assigned_units :: "int list"
  check_model :: bool
  lenient :: bool
  id_to_add :: u64
  nb_loaded_clauses :: u64
  clause_to_add :: "lit list"
  done_loading :: bool
  unsat_proven :: bool
  msgstr :: "check_msg option"

text \<open>
  The globals before the first call, and \<open>lrat_check_init\<close>, which only assigns some of them:
  \<open>id_to_add\<close>, \<open>nb_loaded_clauses\<close>, \<open>done_loading\<close> and \<open>unsat_proven\<close> keep their values.
\<close>

definition checker_globals :: checker where
  "checker_globals =
     \<lparr>clause_table = hash_table_init 0, var_values = [], assigned_units = [],
      check_model = False, lenient = False, id_to_add = 1, nb_loaded_clauses = 0,
      clause_to_add = [], done_loading = False, unsat_proven = False, msgstr = None\<rparr>"

definition lrat_check_init :: "int \<Rightarrow> bool \<Rightarrow> bool \<Rightarrow> checker \<Rightarrow> checker" where
  "lrat_check_init nb_vars opt_check_model opt_lenient c =
     c\<lparr>clause_table := hash_table_init 16, clause_to_add := [],
       var_values := replicate (nat (nb_vars + 1)) 0, assigned_units := [],
       check_model := opt_check_model, lenient := opt_lenient\<rparr>"

definition clause_init :: "lit list \<Rightarrow> lit list" where
  "clause_init lits = lits @ [0]"

subsection \<open>Checking a derivation\<close>

definition lit_var :: "lit \<Rightarrow> int" where
  "lit_var l = (if l > 0 then l else - l)"

fun unassign :: "int list \<Rightarrow> int list \<Rightarrow> int list option" where
  "unassign vals [] = Some vals"
| "unassign vals (var # vars) =
     do { vals1 \<leftarrow> mem_set vals (nat var) 0; unassign vals1 vars }"

definition reset_assignments :: "checker \<Rightarrow> checker option" where
  "reset_assignments c =
     do { vals \<leftarrow> unassign (var_values c) (assigned_units c);
          Some (c\<lparr>var_values := vals, assigned_units := []\<rparr>) }"

definition assign :: "checker \<Rightarrow> int \<Rightarrow> int \<Rightarrow> checker option" where
  "assign c var value =
     do { vals \<leftarrow> mem_set (var_values c) (nat var) value;
          Some (c\<lparr>var_values := vals, assigned_units := assigned_units c @ [var]\<rparr>) }"

text \<open>The first loop of \<open>check_clause\<close>: assume the negation of each literal.\<close>

fun assume_negated :: "lit list \<Rightarrow> checker \<Rightarrow> checker option" where
  "assume_negated [] c = Some c"
| "assume_negated (l # ls) c =
     do { c1 \<leftarrow> assign c (lit_var l) (if l > 0 then -1 else 1); assume_negated ls c1 }"

text \<open>The loop over the literals of a hint clause; \<open>New_Unit 0\<close>: no unassigned literal.\<close>

datatype hint_result = New_Unit lit | Two_Unassigned | Satisfied

fun scan_hint :: "int list \<Rightarrow> lit list \<Rightarrow> lit \<Rightarrow> hint_result option" where
  "scan_hint vals [] new_unit = None"
| "scan_hint vals (lit # rest) new_unit =
     (if lit = 0 then Some (New_Unit new_unit)
      else do {
        value \<leftarrow> mem_get vals (nat (lit_var lit));
        if value = 0 then
          (if new_unit \<noteq> 0 then Some Two_Unassigned else scan_hint vals rest lit)
        else if (value > 0) = (lit > 0) then Some Satisfied
        else scan_hint vals rest new_unit
      })"

text \<open>The loop over the hints; the result says whether the final hint gave the empty clause.\<close>

fun follow_hints :: "u64 \<Rightarrow> u64 list \<Rightarrow> checker \<Rightarrow> (bool \<times> checker) option" where
  "follow_hints base_id [] c = Some (False, c)"
| "follow_hints base_id (hint_id # hints) c =
     do {
       (found, table) \<leftarrow> hash_table_find (clause_table c) hint_id;
       let c = c\<lparr>clause_table := table\<rparr>;
       case found of
         None \<Rightarrow> Some (False, c\<lparr>msgstr := Some (Hint_Not_Found base_id hint_id)\<rparr>)
       | Some cls \<Rightarrow>
           do {
             r \<leftarrow> scan_hint (var_values c) cls 0;
             case r of
               Two_Unassigned \<Rightarrow> Some (False, c\<lparr>msgstr := Some (Multiple_Unassigned base_id)\<rparr>)
             | Satisfied \<Rightarrow> Some (False, c\<lparr>msgstr := Some (Dependency_Satisfied base_id hint_id)\<rparr>)
             | New_Unit u \<Rightarrow>
                 if u = 0 then
                   (if hints \<noteq> []
                    then Some (False, c\<lparr>msgstr := Some (Empty_At_Non_Final base_id hint_id)\<rparr>)
                    else Some (True, c))
                 else
                   do { c1 \<leftarrow> assign c (lit_var u) (if u > 0 then 1 else -1);
                        follow_hints base_id hints c1 }
           }
     }"

definition check_clause :: "u64 \<Rightarrow> lit list \<Rightarrow> u64 list \<Rightarrow> checker \<Rightarrow> (bool \<times> checker) option" where
  "check_clause base_id lits hints c =
     do {
       c1 \<leftarrow> assume_negated lits c;
       (ok, c2) \<leftarrow> follow_hints base_id hints c1;
       let c2 = (if \<not> ok \<and> msgstr c2 = None
                 then c2\<lparr>msgstr := Some (No_Empty_Clause base_id)\<rparr> else c2);
       c3 \<leftarrow> reset_assignments c2;
       Some (ok, c3)
     }"

subsection \<open>Adding and deleting clauses\<close>

text \<open>The literals the loops see: those before the terminating 0.\<close>

definition cls_lits :: "lit list \<Rightarrow> lit list" where
  "cls_lits cls = takeWhile (\<lambda>l. l \<noteq> 0) cls"

definition clauses_equivalent :: "lit list \<Rightarrow> lit list \<Rightarrow> bool" where
  "clauses_equivalent left_cls right_cls =
     (list_all (\<lambda>l. l \<in> set (cls_lits right_cls)) (cls_lits left_cls) \<and>
      length (cls_lits left_cls) = length (cls_lits right_cls))"

definition lrat_check_add_axiomatic_clause ::
  "u64 \<Rightarrow> lit list \<Rightarrow> checker \<Rightarrow> (bool \<times> checker) option"
where
  "lrat_check_add_axiomatic_clause cid lits c =
     do {
       let cls = clause_init lits;
       (ok, table) \<leftarrow> hash_table_insert (clause_table c) cid cls;
       let c = c\<lparr>clause_table := table\<rparr>;
       if ok then
         Some (True, if lits = [] then c\<lparr>unsat_proven := True\<rparr> else c)
       else if lenient c then
         do {
           (old, table) \<leftarrow> hash_table_find (clause_table c) cid;
           let c = c\<lparr>clause_table := table\<rparr>;
           case old of
             Some old_cls \<Rightarrow>
               if clauses_equivalent old_cls cls then Some (True, c)
               else Some (False, c\<lparr>msgstr := Some (Insertion_Unsuccessful cid)\<rparr>)
           | None \<Rightarrow> Some (False, c\<lparr>msgstr := Some (Insertion_Unsuccessful cid)\<rparr>)
         }
       else Some (False, c\<lparr>msgstr := Some (Insertion_Unsuccessful cid)\<rparr>)
     }"

definition lrat_check_add_clause ::
  "u64 \<Rightarrow> lit list \<Rightarrow> u64 list \<Rightarrow> checker \<Rightarrow> (bool \<times> checker) option"
where
  "lrat_check_add_clause cid lits hints c =
     do {
       (ok, c1) \<leftarrow> check_clause cid lits hints c;
       if \<not> ok then Some (False, c1)
       else lrat_check_add_axiomatic_clause cid lits c1
     }"

fun lrat_check_delete_clause :: "u64 list \<Rightarrow> checker \<Rightarrow> (bool \<times> checker) option" where
  "lrat_check_delete_clause [] c = Some (True, c)"
| "lrat_check_delete_clause (cid # ids) c =
     do {
       (found, table) \<leftarrow> hash_table_find (clause_table c) cid;
       let c = c\<lparr>clause_table := table\<rparr>;
       case found of
         None \<Rightarrow> Some (False, c\<lparr>msgstr := Some (Deletion_Not_Found cid)\<rparr>)
       | Some cls \<Rightarrow>
           if check_model c \<and> cid \<le> nb_loaded_clauses c then lrat_check_delete_clause ids c
           else do {
             (ok, table) \<leftarrow> hash_table_delete_last_found (clause_table c);
             let c = c\<lparr>clause_table := table\<rparr>;
             if \<not> ok then Some (False, c\<lparr>msgstr := Some (Deletion_Table_Error cid)\<rparr>)
             else lrat_check_delete_clause ids c
           }
     }"

subsection \<open>Loading the formula\<close>

text \<open>The bytes of an \<open>int\<close> array in memory (little-endian, four bytes each).\<close>

definition int_bytes :: "int list \<Rightarrow> bytes" where
  "int_bytes is = concat (map (\<lambda>i. U32TO8_LE (word_of_int i)) is)"

definition lrat_check_load :: "lit \<Rightarrow> checker \<Rightarrow> sip \<Rightarrow> (bool \<times> checker \<times> sip) option" where
  "lrat_check_load l c s =
     (if l = 0 then
        do {
          (ok, c) \<leftarrow> lrat_check_add_axiomatic_clause (id_to_add c) (clause_to_add c) c;
          if \<not> ok then Some (False, c, s)
          else do {
            let c = c\<lparr>id_to_add := id_to_add c + 1, clause_to_add := clause_to_add c @ [0]\<rparr>;
            s \<leftarrow> siphash_update s (int_bytes (clause_to_add c)) (of_nat (length (clause_to_add c) * 4));
            Some (True, c\<lparr>clause_to_add := []\<rparr>, s)
          }
        }
      else Some (True, c\<lparr>clause_to_add := clause_to_add c @ [l]\<rparr>, s))"

definition lrat_check_end_load :: "checker \<Rightarrow> sip \<Rightarrow> (bytes option \<times> checker \<times> sip) option" where
  "lrat_check_end_load c s =
     (if clause_to_add c \<noteq> [] then Some (None, c\<lparr>msgstr := Some Literals_Left\<rparr>, s)
      else do {
        s \<leftarrow> siphash_pad s 2;
        (out_sig, s) \<leftarrow> siphash_digest s;
        Some (Some out_sig, c\<lparr>done_loading := True, nb_loaded_clauses := id_to_add c - 1\<rparr>, s)
      })"

subsection \<open>Validating results\<close>

definition lrat_check_validate_unsat :: "checker \<Rightarrow> bool \<times> checker" where
  "lrat_check_validate_unsat c =
     (if \<not> done_loading c then (False, c\<lparr>msgstr := Some Loading_Not_Concluded\<rparr>)
      else if \<not> unsat_proven c then (False, c\<lparr>msgstr := Some Empty_Clause_Missing\<rparr>)
      else (True, c))"

datatype sat_result = Clause_Satisfied | Clause_Unsatisfied | Not_Covered int | Unexpected int int

text \<open>
  The loop over the literals of one original clause. A model entry 0 is set to the literal
  that is looked at, so the model is part of the result.
\<close>

fun sat_clause :: "lit list \<Rightarrow> int list \<Rightarrow> (sat_result \<times> int list) option" where
  "sat_clause [] model = None"
| "sat_clause (l # ls) model =
     (if l = 0 then Some (Clause_Unsatisfied, model)
      else
        (let var = lit_var l; idx = nat (var - 1) in
         if length model \<le> idx then Some (Not_Covered var, model)
         else
           (let modelLit = model ! idx in
            if modelLit \<noteq> var \<and> modelLit \<noteq> - var \<and> modelLit \<noteq> 0
            then Some (Unexpected modelLit var, model)
            else
              (let (modelLit, model) = (if modelLit = 0 then (l, model[idx := l]) else (modelLit, model)) in
               if modelLit = l then Some (Clause_Satisfied, model)
               else sat_clause ls model))))"

fun sat_clauses :: "u64 list \<Rightarrow> int list \<Rightarrow> checker \<Rightarrow> (bool \<times> int list \<times> checker) option" where
  "sat_clauses [] model c = Some (True, model, c)"
| "sat_clauses (cid # ids) model c =
     do {
       (found, table) \<leftarrow> hash_table_find (clause_table c) cid;
       let c = c\<lparr>clause_table := table\<rparr>;
       case found of
         None \<Rightarrow> Some (False, model, c\<lparr>msgstr := Some (Original_Not_Found cid)\<rparr>)
       | Some cls \<Rightarrow>
           do {
             (r, model) \<leftarrow> sat_clause cls model;
             case r of
               Clause_Satisfied \<Rightarrow> sat_clauses ids model c
             | Clause_Unsatisfied \<Rightarrow> Some (False, model, c\<lparr>msgstr := Some (Original_Not_Satisfied cid)\<rparr>)
             | Not_Covered var \<Rightarrow> Some (False, model, c\<lparr>msgstr := Some (Model_Too_Short var)\<rparr>)
             | Unexpected m var \<Rightarrow> Some (False, model, c\<lparr>msgstr := Some (Model_Unexpected m var)\<rparr>)
           }
     }"

definition original_ids :: "checker \<Rightarrow> u64 list" where
  "original_ids c = map of_nat [1..<Suc (unat (nb_loaded_clauses c))]"

definition lrat_check_validate_sat :: "int list \<Rightarrow> checker \<Rightarrow> (bool \<times> int list \<times> checker) option" where
  "lrat_check_validate_sat model c =
     (if \<not> done_loading c then Some (False, model, c\<lparr>msgstr := Some Loading_Not_Concluded\<rparr>)
      else if \<not> check_model c then Some (False, model, c\<lparr>msgstr := Some Model_Check_Disabled\<rparr>)
      else sat_clauses (original_ids c) model c)"

section \<open>Meaning of clauses\<close>

definition lit_true :: "(int \<Rightarrow> bool) \<Rightarrow> lit \<Rightarrow> bool" where
  "lit_true v l = (if l > 0 then v l else \<not> v (- l))"

definition clause_true :: "(int \<Rightarrow> bool) \<Rightarrow> lit list \<Rightarrow> bool" where
  "clause_true v lits = (\<exists>l \<in> set lits. lit_true v l)"

definition models :: "(int \<Rightarrow> bool) \<Rightarrow> lit list set \<Rightarrow> bool" where
  "models v F = (\<forall>C \<in> F. clause_true v C)"

definition entails :: "lit list set \<Rightarrow> lit list \<Rightarrow> bool" where
  "entails F C = (\<forall>v. models v F \<longrightarrow> clause_true v C)"

lemma lit_true_var: "l \<noteq> 0 \<Longrightarrow> lit_true v l \<longleftrightarrow> v (lit_var l) = (l > 0)"
  by (auto simp: lit_true_def lit_var_def)

lemma lit_var_nonneg [simp]: "0 \<le> lit_var l"
  by (simp add: lit_var_def)

lemma entails_mono: "F \<subseteq> G \<Longrightarrow> entails F C \<Longrightarrow> entails G C"
  unfolding entails_def models_def by blast

lemma entails_member: "C \<in> F \<Longrightarrow> entails F C"
  by (auto simp: entails_def models_def)

lemma cls_lits_init: "(\<forall>l \<in> set lits. l \<noteq> 0) \<Longrightarrow> cls_lits (clause_init lits) = lits"
  by (simp add: cls_lits_def clause_init_def takeWhile_append2)

lemma cls_lits_nonzero: "l \<in> set (cls_lits cls) \<Longrightarrow> l \<noteq> 0"
  by (auto simp: cls_lits_def dest: set_takeWhileD)

lemma cls_lits_subset: "set (cls_lits (clause_init lits)) \<subseteq> set lits"
  by (auto simp: cls_lits_def clause_init_def dest: set_takeWhileD)

subsection \<open>Invariants of the checker state\<close>

text \<open>\<open>agrees v vals\<close>: the valuation gives every assigned variable its assigned value.\<close>

definition agrees :: "(int \<Rightarrow> bool) \<Rightarrow> int list \<Rightarrow> bool" where
  "agrees v vals = (\<forall>x<length vals. vals ! x \<noteq> 0 \<longrightarrow> v (int x) = (vals ! x > 0))"

definition cls_ok :: "nat \<Rightarrow> lit list \<Rightarrow> bool" where
  "cls_ok n cls = (0 \<in> set cls \<and> (\<forall>l \<in> set (cls_lits cls). nat (lit_var l) < n))"

definition db_ok :: "checker \<Rightarrow> bool" where
  "db_ok c = (ht_inv (clause_table c) \<and>
     (\<forall>k cls. ht_map (clause_table c) k = Some cls \<longrightarrow> cls_ok (length (var_values c)) cls))"

definition clean :: "checker \<Rightarrow> bool" where
  "clean c = (assigned_units c = [] \<and> (\<forall>x<length (var_values c). var_values c ! x = 0))"

definition tracked :: "checker \<Rightarrow> bool" where
  "tracked c = ((\<forall>x<length (var_values c). var_values c ! x \<noteq> 0 \<longrightarrow> int x \<in> set (assigned_units c)) \<and>
     (\<forall>u \<in> set (assigned_units c). 0 \<le> u \<and> nat u < length (var_values c)))"

text \<open>
  \<open>same_db c c'\<close>: only the assignment, the message and the table's search memory may differ.
\<close>

definition same_db :: "checker \<Rightarrow> checker \<Rightarrow> bool" where
  "same_db c c' = (ht_inv (clause_table c') \<and> ht_map (clause_table c') = ht_map (clause_table c) \<and>
     length (var_values c') = length (var_values c) \<and>
     check_model c' = check_model c \<and> lenient c' = lenient c \<and> id_to_add c' = id_to_add c \<and>
     nb_loaded_clauses c' = nb_loaded_clauses c \<and> clause_to_add c' = clause_to_add c \<and>
     done_loading c' = done_loading c \<and> unsat_proven c' = unsat_proven c)"

lemma same_db_trans: "same_db a b \<Longrightarrow> same_db b c \<Longrightarrow> same_db a c"
  by (simp add: same_db_def)

lemma same_db_refl: "ht_inv (clause_table c) \<Longrightarrow> same_db c c"
  by (simp add: same_db_def)

lemma db_ok_same: "same_db c c' \<Longrightarrow> db_ok c \<Longrightarrow> db_ok c'"
  by (auto simp: same_db_def db_ok_def)

lemma clean_tracked: "clean c \<Longrightarrow> tracked c"
  by (simp add: clean_def tracked_def)

subsection \<open>Assignments\<close>

lemma assignD:
  assumes "assign c var x = Some c'"
  shows "nat var < length (var_values c)"
    "c' = c\<lparr>var_values := (var_values c)[nat var := x], assigned_units := assigned_units c @ [var]\<rparr>"
  using assms by (auto simp: assign_def split: Option.bind_splits)

lemma assign_defined: "nat var < length (var_values c) \<Longrightarrow> \<exists>c'. assign c var x = Some c'"
  by (simp add: assign_def mem_set_def)

lemma assign_same: "ht_inv (clause_table c) \<Longrightarrow> assign c var x = Some c' \<Longrightarrow> same_db c c'"
  by (drule assignD(2)) (simp add: same_db_def)

lemma assign_tracked:
  assumes "tracked c" "assign c var x = Some c'" "0 \<le> var"
  shows "tracked c'"
proof -
  have u: "var_values c' = (var_values c)[nat var := x]" "assigned_units c' = assigned_units c @ [var]"
    using assignD(2) [OF assms(2)] by simp_all
  then have len: "length (var_values c') = length (var_values c)" by simp
  have "int y \<in> set (assigned_units c')" if "y < length (var_values c)" "var_values c' ! y \<noteq> 0" for y
  proof (cases "y = nat var")
    case True
    with assms(3) u(2) show ?thesis by simp
  next
    case False
    with that u(1) have "var_values c ! y \<noteq> 0" by simp
    with that(1) assms(1) u(2) show ?thesis by (simp add: tracked_def)
  qed
  moreover have "0 \<le> w \<and> nat w < length (var_values c)" if "w \<in> set (assigned_units c')" for w
  proof (cases "w = var")
    case True
    with assms(3) assignD(1) [OF assms(2)] show ?thesis by simp
  next
    case False
    with that u(2) assms(1) show ?thesis by (simp add: tracked_def)
  qed
  ultimately show ?thesis unfolding tracked_def len by blast
qed

lemma assign_agrees:
  assumes "agrees v (var_values c)" "assign c var x = Some c'" "0 \<le> var" "v var = (x > 0)"
  shows "agrees v (var_values c')"
  unfolding agrees_def
proof (intro allI impI)
  fix y assume y: "y < length (var_values c')" "var_values c' ! y \<noteq> 0"
  have u: "var_values c' = (var_values c)[nat var := x]" using assignD(2) [OF assms(2)] by simp
  show "v (int y) = (0 < var_values c' ! y)"
  proof (cases "y = nat var")
    case True
    with y assms(3,4) u show ?thesis by simp
  next
    case False
    with y u assms(1) show ?thesis by (simp add: agrees_def)
  qed
qed

lemma unassign_spec:
  "(\<forall>u \<in> set us. nat u < length vals) \<Longrightarrow>
   \<exists>vals'. unassign vals us = Some vals' \<and> length vals' = length vals \<and>
     (\<forall>x<length vals. vals' ! x = (if x \<in> nat ` set us then 0 else vals ! x))"
proof (induction us arbitrary: vals)
  case Nil
  then show ?case by simp
next
  case (Cons u us)
  let ?vals = "vals[nat u := 0]"
  have "\<forall>w \<in> set us. nat w < length ?vals" using Cons.prems by simp
  from Cons.IH [OF this] obtain vals' where v: "unassign ?vals us = Some vals'"
    "length vals' = length vals"
    "\<forall>x<length vals. vals' ! x = (if x \<in> nat ` set us then 0 else ?vals ! x)"
    by auto
  have "unassign vals (u # us) = Some vals'" using v(1) Cons.prems by (simp add: mem_set_def)
  moreover have "vals' ! x = (if x \<in> nat ` set (u # us) then 0 else vals ! x)"
    if "x < length vals" for x
    using v(3) that by (cases "x = nat u") simp_all
  ultimately show ?case using v(2) by blast
qed

lemma reset_spec:
  assumes "tracked c" "ht_inv (clause_table c)"
  shows "\<exists>c'. reset_assignments c = Some c' \<and> clean c' \<and> same_db c c' \<and> msgstr c' = msgstr c"
proof -
  obtain vals where v: "unassign (var_values c) (assigned_units c) = Some vals"
    "length vals = length (var_values c)"
    "\<forall>x<length (var_values c). vals ! x = (if x \<in> nat ` set (assigned_units c) then 0 else var_values c ! x)"
    using unassign_spec [of "assigned_units c" "var_values c"] assms by (auto simp: tracked_def)
  have "vals ! x = 0" if "x < length (var_values c)" for x
    using that v(3) assms(1) unfolding tracked_def by (metis image_eqI nat_int)
  with v assms(2) show ?thesis
    by (auto simp: reset_assignments_def clean_def same_db_def)
qed

lemma assume_negated_spec:
  "tracked c \<Longrightarrow> ht_inv (clause_table c) \<Longrightarrow>
   (\<forall>l \<in> set lits. nat (lit_var l) < length (var_values c)) \<Longrightarrow>
   \<exists>c'. assume_negated lits c = Some c' \<and> tracked c' \<and> same_db c c' \<and> msgstr c' = msgstr c \<and>
     (\<forall>v. agrees v (var_values c) \<longrightarrow> (\<forall>l \<in> set lits. l \<noteq> 0 \<and> \<not> lit_true v l) \<longrightarrow>
       agrees v (var_values c'))"
proof (induction lits arbitrary: c)
  case Nil
  then show ?case by (simp add: same_db_refl)
next
  case (Cons l lits)
  let ?x = "if l > 0 then -1 else 1 :: int"
  obtain c1 where a: "assign c (lit_var l) ?x = Some c1"
    using assign_defined Cons.prems(3) by fastforce
  have same: "same_db c c1" using assign_same [OF Cons.prems(2) a] .
  obtain c' where c': "assume_negated lits c1 = Some c'" "tracked c'" "same_db c1 c'" "msgstr c' = msgstr c1"
    "\<forall>v. agrees v (var_values c1) \<longrightarrow> (\<forall>l \<in> set lits. l \<noteq> 0 \<and> \<not> lit_true v l) \<longrightarrow> agrees v (var_values c')"
    using Cons.IH [OF assign_tracked [OF Cons.prems(1) a lit_var_nonneg]] same Cons.prems(3)
    by (auto simp: same_db_def)
  have "agrees v (var_values c1)" if "agrees v (var_values c)" "l \<noteq> 0" "\<not> lit_true v l" for v
    using assign_agrees [OF that(1) a lit_var_nonneg] that(2,3) by (auto simp: lit_true_var)
  with a c' same assignD(2) [OF a] show ?case by (auto intro: same_db_trans)
qed

subsection \<open>Hints\<close>

lemma scan_hint_sound:
  "scan_hint vals cls u0 = Some (New_Unit u) \<Longrightarrow> agrees v vals \<Longrightarrow>
   (\<forall>l \<in> set (cls_lits cls). lit_true v l \<longrightarrow> l = u) \<and> (u0 \<noteq> 0 \<longrightarrow> u = u0) \<and>
   (u = u0 \<or> u \<in> set (cls_lits cls))"
proof (induction cls arbitrary: u0)
  case Nil
  then show ?case by simp
next
  case (Cons l cls)
  show ?case
  proof (cases "l = 0")
    case True
    with Cons.prems show ?thesis by (simp add: cls_lits_def)
  next
    case False
    with Cons.prems obtain i: "nat (lit_var l) < length vals"
      by (auto split: Option.bind_splits)
    define x where "x = vals ! nat (lit_var l)"
    have lits: "cls_lits (l # cls) = l # cls_lits cls" using False by (simp add: cls_lits_def)
    show ?thesis
    proof (cases "x = 0")
      case True
      with Cons.prems False i have "u0 = 0" "scan_hint vals cls l = Some (New_Unit u)"
        by (auto simp: x_def mem_get_def split: if_splits)
      with Cons.IH [of l] Cons.prems(2) False lits show ?thesis by auto
    next
      case x: False
      with Cons.prems False i have "(x > 0) \<noteq> (l > 0)" "scan_hint vals cls u0 = Some (New_Unit u)"
        by (auto simp: x_def mem_get_def split: if_splits)
      moreover from x Cons.prems(2) i have "v (lit_var l) = (x > 0)"
        by (auto simp: agrees_def x_def)
      ultimately show ?thesis
        using Cons.IH [of u0] Cons.prems(2) False lits by (auto simp: lit_true_var)
    qed
  qed
qed

lemma scan_hint_defined:
  "0 \<in> set cls \<Longrightarrow> (\<forall>l \<in> set (cls_lits cls). nat (lit_var l) < length vals) \<Longrightarrow>
   \<exists>r. scan_hint vals cls u0 = Some r"
proof (induction cls arbitrary: u0)
  case Nil
  then show ?case by simp
next
  case (Cons l cls)
  show ?case
  proof (cases "l = 0")
    case True
    then show ?thesis by simp
  next
    case False
    then have "\<exists>r. scan_hint vals cls u = Some r" for u
      using Cons by (auto simp: cls_lits_def)
    with False Cons.prems show ?thesis by (auto simp: cls_lits_def mem_get_def)
  qed
qed

lemma scan_hint_unit:
  "scan_hint vals cls u0 = Some (New_Unit u) \<Longrightarrow> u = u0 \<or> u \<in> set (cls_lits cls)"
proof (induction cls arbitrary: u0)
  case (Cons l cls)
  then show ?case
    by (cases "l = 0") (fastforce simp: cls_lits_def split: if_splits Option.bind_splits)+
qed simp

lemma follow_hints_spec:
  "db_ok c \<Longrightarrow> tracked c \<Longrightarrow>
   \<exists>ok c'. follow_hints b hints c = Some (ok, c') \<and> tracked c' \<and> same_db c c'"
proof (induction b hints c rule: follow_hints.induct)
  case (1 b c)
  then show ?case by (auto simp: db_ok_def same_db_refl)
next
  case (2 b h hints c)
  have inv: "ht_inv (clause_table c)" using "2.prems"(1) by (simp add: db_ok_def)
  obtain t where t: "hash_table_find (clause_table c) h = Some (ht_map (clause_table c) h, t)"
    "ht_inv t" "ht_map t = ht_map (clause_table c)"
    using ct.find_law [OF inv] by blast
  define c1 where "c1 = c\<lparr>clause_table := t\<rparr>"
  have c1: "same_db c c1" "tracked c1" "db_ok c1"
    using t "2.prems" by (auto simp: c1_def same_db_def tracked_def db_ok_def)
  then have msg: "same_db c (c1\<lparr>msgstr := m\<rparr>)" "tracked (c1\<lparr>msgstr := m\<rparr>)" for m
    by (auto simp: same_db_def tracked_def)
  show ?case
  proof (cases "ht_map (clause_table c) h")
    case None
    with t(1) have "follow_hints b (h # hints) c =
        Some (False, c1\<lparr>msgstr := Some (Hint_Not_Found b h)\<rparr>)"
      by (simp add: c1_def)
    with msg show ?thesis by blast
  next
    case (Some cls)
    with "2.prems"(1) have ok: "cls_ok (length (var_values c1)) cls"
      by (auto simp: db_ok_def c1_def)
    then obtain r where r: "scan_hint (var_values c1) cls 0 = Some r"
      using scan_hint_defined [of cls "var_values c1" 0] by (auto simp: cls_ok_def)
    have step: "follow_hints b (h # hints) c =
       (case r of
          Two_Unassigned \<Rightarrow> Some (False, c1\<lparr>msgstr := Some (Multiple_Unassigned b)\<rparr>)
        | Satisfied \<Rightarrow> Some (False, c1\<lparr>msgstr := Some (Dependency_Satisfied b h)\<rparr>)
        | New_Unit u \<Rightarrow>
            if u = 0 then
              (if hints \<noteq> [] then Some (False, c1\<lparr>msgstr := Some (Empty_At_Non_Final b h)\<rparr>)
               else Some (True, c1))
            else do { c2 \<leftarrow> assign c1 (lit_var u) (if u > 0 then 1 else -1); follow_hints b hints c2 })"
    proof -
      have r': "scan_hint (var_values c) cls 0 = Some r" using r by (simp add: c1_def)
      show ?thesis by (cases r) (simp_all add: t(1) Some r' c1_def Let_def)
    qed
    show ?thesis
    proof (cases "\<exists>u. r = New_Unit u \<and> u \<noteq> 0")
      case False
      with step msg c1 show ?thesis by (cases r) auto
    next
      case True
      then obtain u where u: "r = New_Unit u" "u \<noteq> 0" by blast
      let ?x = "if u > 0 then 1 else -1 :: int"
      have "u \<in> set (cls_lits cls)" using scan_hint_unit r u by fastforce
      with ok obtain c2 where c2: "assign c1 (lit_var u) ?x = Some c2"
        using assign_defined by (fastforce simp: cls_ok_def)
      have s2: "same_db c1 c2" "tracked c2"
        using assign_same [OF _ c2] assign_tracked [OF c1(2) c2] c1(1) by (auto simp: same_db_def)
      obtain ok c' where "follow_hints b hints c2 = Some (ok, c')" "tracked c'" "same_db c2 c'"
        using "2.IH" [OF t(1) refl c1_def Some r u(1) u(2) c2 db_ok_same [OF s2(1) c1(3)] s2(2)]
        by blast
      moreover from this have "same_db c c'" using s2(1) c1(1) same_db_trans by blast
      ultimately show ?thesis using step u c2 by (simp del: follow_hints.simps)
    qed
  qed
qed

text \<open>Unit propagation that ends in a conflict refutes the assumed valuation.\<close>

lemma follow_hints_sound:
  "follow_hints b hints c = Some (True, c') \<Longrightarrow> ht_inv (clause_table c) \<Longrightarrow>
   (\<forall>k cls. ht_map (clause_table c) k = Some cls \<longrightarrow> clause_true v (cls_lits cls)) \<Longrightarrow>
   \<not> agrees v (var_values c)"
proof (induction b hints c rule: follow_hints.induct)
  case (1 b c)
  then show ?case by simp
next
  case (2 b h hints c)
  show ?case
  proof
    assume agr: "agrees v (var_values c)"
    obtain t where t: "hash_table_find (clause_table c) h = Some (ht_map (clause_table c) h, t)"
      "ht_inv t" "ht_map t = ht_map (clause_table c)"
      using ct.find_law [OF "2.prems"(2)] by blast
    from "2.prems"(1) t(1) obtain cls u where cls: "ht_map (clause_table c) h = Some cls"
      and r: "scan_hint (var_values c) cls 0 = Some (New_Unit u)"
      by (auto simp: Let_def split: option.splits Option.bind_splits hint_result.splits)
    from scan_hint_sound [OF r agr] "2.prems"(3) cls
    have u: "u \<in> set (cls_lits cls)" "lit_true v u" by (auto simp: clause_true_def)
    then have u0: "u \<noteq> 0" by (auto dest: cls_lits_nonzero)
    let ?c1 = "c\<lparr>clause_table := t\<rparr>"
    have r1: "scan_hint (var_values ?c1) cls 0 = Some (New_Unit u)" using r by simp
    let ?x = "if u > 0 then 1 else -1 :: int"
    from "2.prems"(1) t(1) cls r u0 obtain c2 where c2: "assign ?c1 (lit_var u) ?x = Some c2"
      "follow_hints b hints c2 = Some (True, c')"
      by (auto simp: Let_def split: Option.bind_splits)
    have "agrees v (var_values c2)"
      using assign_agrees [OF _ c2(1) lit_var_nonneg] agr u(2) u0 by (auto simp: lit_true_var)
    moreover have "ht_inv (clause_table c2)" "ht_map (clause_table c2) = ht_map (clause_table c)"
      using assignD(2) [OF c2(1)] t by auto
    then have "\<not> agrees v (var_values c2)"
      using "2.IH" [OF t(1) refl refl cls r1 refl u0 c2(1) c2(2)] "2.prems"(3) by auto
    ultimately show False by blast
  qed
qed

subsection \<open>A checked clause follows\<close>

text \<open>
  \<open>ck_inv F c\<close>: every clause of the table follows from \<open>F\<close>, and \<open>unsat_proven\<close> is only set when
  \<open>F\<close> has no model. \<open>same_ctl\<close>: the fields that adding or deleting clauses leaves alone.
\<close>

definition ck_inv :: "lit list set \<Rightarrow> checker \<Rightarrow> bool" where
  "ck_inv F c = (db_ok c \<and> clean c \<and>
     (\<forall>k cls. ht_map (clause_table c) k = Some cls \<longrightarrow> entails F (cls_lits cls)) \<and>
     (unsat_proven c \<longrightarrow> (\<forall>v. \<not> models v F)))"

definition same_ctl :: "checker \<Rightarrow> checker \<Rightarrow> bool" where
  "same_ctl c c' = (length (var_values c') = length (var_values c) \<and>
     check_model c' = check_model c \<and> lenient c' = lenient c \<and> id_to_add c' = id_to_add c \<and>
     nb_loaded_clauses c' = nb_loaded_clauses c \<and> clause_to_add c' = clause_to_add c \<and>
     done_loading c' = done_loading c)"

definition in_range :: "checker \<Rightarrow> lit list \<Rightarrow> bool" where
  "in_range c lits = (\<forall>l \<in> set lits. nat (lit_var l) < length (var_values c))"

lemma same_db_ctl: "same_db c c' \<Longrightarrow> same_ctl c c'"
  by (simp add: same_db_def same_ctl_def)

lemma same_ctl_refl [simp]: "same_ctl c c"
  by (simp add: same_ctl_def)

lemma same_ctl_trans: "same_ctl a b \<Longrightarrow> same_ctl b c \<Longrightarrow> same_ctl a c"
  by (simp add: same_ctl_def)

lemma same_ctl_msg [simp]: "same_ctl c (c'\<lparr>msgstr := m\<rparr>) = same_ctl c c'"
  by (simp add: same_ctl_def)

lemma ck_inv_msg [simp]: "ck_inv F (c\<lparr>msgstr := m\<rparr>) = ck_inv F c"
  by (simp add: ck_inv_def db_ok_def clean_def)

lemma ck_inv_table [simp]: "ck_inv F c \<Longrightarrow> ht_inv (clause_table c)"
  by (simp add: ck_inv_def db_ok_def)

lemma ck_inv_same: "same_db c c' \<Longrightarrow> clean c' \<Longrightarrow> ck_inv F c \<Longrightarrow> ck_inv F c'"
  using db_ok_same by (auto simp: ck_inv_def same_db_def)

lemma ck_inv_mono: "F \<subseteq> G \<Longrightarrow> ck_inv F c \<Longrightarrow> ck_inv G c"
  unfolding ck_inv_def using entails_mono by (metis models_def subsetD)

lemma ck_inv_set_table:
  "ck_inv F c \<Longrightarrow> ht_inv t \<Longrightarrow>
   (\<And>k cls. ht_map t k = Some cls \<Longrightarrow> cls_ok (length (var_values c)) cls \<and> entails F (cls_lits cls)) \<Longrightarrow>
   ck_inv F (c\<lparr>clause_table := t\<rparr>)"
  by (simp add: ck_inv_def db_ok_def clean_def)

lemma ck_inv_cls: "ck_inv F c \<Longrightarrow> ht_map (clause_table c) k = Some cls \<Longrightarrow>
  cls_ok (length (var_values c)) cls \<and> entails F (cls_lits cls)"
  by (simp add: ck_inv_def db_ok_def)

lemma ck_inv_sub_table:
  "ck_inv F c \<Longrightarrow> ht_inv t \<Longrightarrow> ht_map t \<subseteq>\<^sub>m ht_map (clause_table c) \<Longrightarrow>
   ck_inv F (c\<lparr>clause_table := t\<rparr>)"
  using ck_inv_cls by (intro ck_inv_set_table) (auto simp: map_le_def dom_def)

lemma check_clause_spec:
  assumes inv: "ck_inv F c" and lits: "in_range c lits"
  shows "\<exists>ok c'. check_clause b lits hints c = Some (ok, c') \<and> ck_inv F c' \<and> same_db c c' \<and>
    (ok \<longrightarrow> (\<forall>l \<in> set lits. l \<noteq> 0) \<longrightarrow> entails F lits)"
proof -
  have ht: "ht_inv (clause_table c)" and db: "db_ok c" and cl: "clean c"
    using inv by (auto simp: ck_inv_def db_ok_def)
  have agr0: "agrees v (var_values c)" for v using cl by (simp add: agrees_def clean_def)
  obtain c1 where c1: "assume_negated lits c = Some c1" "tracked c1" "same_db c c1"
    "\<forall>v. agrees v (var_values c) \<longrightarrow> (\<forall>l \<in> set lits. l \<noteq> 0 \<and> \<not> lit_true v l) \<longrightarrow> agrees v (var_values c1)"
    using assume_negated_spec [OF clean_tracked [OF cl] ht, of lits] lits by (auto simp: in_range_def)
  obtain ok c2 where c2: "follow_hints b hints c1 = Some (ok, c2)" "tracked c2" "same_db c1 c2"
    using follow_hints_spec [OF db_ok_same [OF c1(3) db] c1(2)] by blast
  define c2' where "c2' = (if \<not> ok \<and> msgstr c2 = None then c2\<lparr>msgstr := Some (No_Empty_Clause b)\<rparr> else c2)"
  have c2': "tracked c2'" "same_db c c2'"
    using c2 same_db_trans [OF c1(3) c2(3)] by (auto simp: c2'_def tracked_def same_db_def)
  then obtain c3 where c3: "reset_assignments c2' = Some c3" "clean c3" "same_db c2' c3"
    using reset_spec by (fastforce simp: same_db_def)
  have same: "same_db c c3" using same_db_trans [OF c2'(2) c3(3)] .
  have run: "check_clause b lits hints c = Some (ok, c3)"
    using c1(1) c2(1) c3(1) by (simp add: check_clause_def Let_def c2'_def)
  have "entails F lits" if ok: ok and nz: "\<forall>l \<in> set lits. l \<noteq> 0"
    unfolding entails_def
  proof (intro allI impI)
    fix v assume v: "models v F"
    have "ht_inv (clause_table c1)" "ht_map (clause_table c1) = ht_map (clause_table c)"
      using c1(3) by (auto simp: same_db_def)
    moreover have "clause_true v (cls_lits cls)" if "ht_map (clause_table c) k = Some cls" for k cls
      using ck_inv_cls [OF inv that] v by (simp add: entails_def)
    ultimately have "\<not> agrees v (var_values c1)"
      using follow_hints_sound [of b hints c1 c2 v] c2(1) ok by simp
    then show "clause_true v lits"
      using c1(4) agr0 nz by (auto simp: clause_true_def)
  qed
  with run same ck_inv_same [OF same c3(2) inv] show ?thesis by blast
qed

subsection \<open>Adding and deleting keep the invariant\<close>

lemma in_range_ctl: "same_ctl c c' \<Longrightarrow> in_range c' lits = in_range c lits"
  by (simp add: same_ctl_def in_range_def)

lemma cls_ok_init: "in_range c lits \<Longrightarrow> cls_ok (length (var_values c)) (clause_init lits)"
  using cls_lits_subset [of lits] by (auto simp: cls_ok_def in_range_def clause_init_def)

text \<open>
  The outcome of an insertion: accepted as new, accepted because an equivalent clause is there
  (lenient mode), or refused.
\<close>

lemma add_axiomatic_spec:
  assumes inv: "ck_inv F c" and lits: "in_range c lits"
    and ent: "entails F (cls_lits (clause_init lits))"
  shows "\<exists>ok c'. lrat_check_add_axiomatic_clause cid lits c = Some (ok, c') \<and> ck_inv F c' \<and>
    same_ctl c c' \<and>
    (\<forall>k. k \<noteq> cid \<longrightarrow> ht_map (clause_table c') k = ht_map (clause_table c) k) \<and>
    (\<forall>k cls. ht_map (clause_table c) k = Some cls \<longrightarrow> ht_map (clause_table c') k = Some cls) \<and>
    (cid \<noteq> 0 \<and> ht_map (clause_table c) cid = None \<longrightarrow>
       ok \<and> ht_map (clause_table c') cid = Some (clause_init lits)) \<and>
    (ok \<longrightarrow> cid \<noteq> 0 \<and> ht_map (clause_table c') cid \<noteq> None)"
proof -
  let ?m = "ht_map (clause_table c)"
  note ht = ck_inv_table [OF inv]
  obtain ok t where t: "hash_table_insert (clause_table c) cid (clause_init lits) = Some (ok, t)"
    "ht_inv t" "ok \<longleftrightarrow> cid \<noteq> 0 \<and> ?m cid = None"
    "ht_map t = (if ok then ?m(cid \<mapsto> clause_init lits) else ?m)"
    using ct.insert_defined [OF ht] ct.insertD [OF ht] by metis
  show ?thesis
  proof (cases ok)
    case True
    let ?c1 = "c\<lparr>clause_table := t\<rparr>"
    let ?c2 = "if lits = [] then ?c1\<lparr>unsat_proven := True\<rparr> else ?c1"
    have "ck_inv F ?c1"
    proof (rule ck_inv_set_table [OF inv t(2)])
      fix k cls assume "ht_map t k = Some cls"
      with t(4) True ck_inv_cls [OF inv, of k cls] cls_ok_init [OF lits] ent
      show "cls_ok (length (var_values c)) cls \<and> entails F (cls_lits cls)"
        by (cases "k = cid") auto
    qed
    moreover have "\<forall>v. \<not> models v F" if "lits = []"
      using ent that by (simp add: entails_def clause_true_def cls_lits_def clause_init_def)
    ultimately have "ck_inv F ?c2" by (simp add: ck_inv_def db_ok_def clean_def)
    with t True show ?thesis
      by (auto simp: lrat_check_add_axiomatic_clause_def Let_def same_ctl_def)
  next
    case False
    have i1: "ck_inv F (c\<lparr>clause_table := t\<rparr>)"
      using ck_inv_set_table [OF inv t(2)] t(4) False ck_inv_cls [OF inv] by auto
    obtain t2 where t2: "hash_table_find t cid = Some (?m cid, t2)" "ht_inv t2" "ht_map t2 = ?m"
      using ct.find_law [OF t(2)] t(4) False by fastforce
    have i2: "ck_inv F (c\<lparr>clause_table := t2\<rparr>)"
      using ck_inv_set_table [OF inv t2(2)] t2(3) ck_inv_cls [OF inv] by auto
    show ?thesis
    proof (cases "lenient c")
      case True
      show ?thesis
      proof (cases "?m cid")
        case None
        with True False t t2 i2 show ?thesis
          by (auto simp: lrat_check_add_axiomatic_clause_def Let_def same_ctl_def)
      next
        case (Some old)
        then have "cid \<noteq> 0" by (auto simp: ht_map_def)
        then show ?thesis
          using True False t t2 i2 Some
          by (auto simp: lrat_check_add_axiomatic_clause_def Let_def same_ctl_def)
      qed
    next
      case strict: False
      let ?c' = "c\<lparr>clause_table := t, msgstr := Some (Insertion_Unsuccessful cid)\<rparr>"
      have "lrat_check_add_axiomatic_clause cid lits c = Some (False, ?c')"
        using False strict t(1) by (simp add: lrat_check_add_axiomatic_clause_def Let_def)
      moreover have "ck_inv F ?c'" "same_ctl c ?c'" using i1 by (simp_all add: same_ctl_def)
      moreover have "ht_map (clause_table ?c') = ?m" using False t(4) by simp
      ultimately show ?thesis using False t(3) by auto
    qed
  qed
qed

lemma add_clause_spec:
  assumes inv: "ck_inv F c" and lits: "in_range c lits" and nz: "\<forall>l \<in> set lits. l \<noteq> 0"
  shows "\<exists>ok c'. lrat_check_add_clause cid lits hints c = Some (ok, c') \<and> ck_inv F c' \<and>
    same_ctl c c' \<and> (ok \<longrightarrow> entails F lits) \<and>
    (\<forall>k cls. ht_map (clause_table c) k = Some cls \<longrightarrow> ht_map (clause_table c') k = Some cls)"
proof -
  obtain ok c1 where c1: "check_clause cid lits hints c = Some (ok, c1)" "ck_inv F c1" "same_db c c1"
    "ok \<longrightarrow> entails F lits"
    using check_clause_spec [OF inv lits] nz by blast
  show ?thesis
  proof (cases ok)
    case False
    with c1 same_db_ctl [OF c1(3)] show ?thesis
      by (auto simp: lrat_check_add_clause_def same_db_def)
  next
    case True
    have "in_range c1 lits" using in_range_ctl [OF same_db_ctl [OF c1(3)]] lits by simp
    moreover have "entails F (cls_lits (clause_init lits))"
      using c1(4) True nz by (simp add: cls_lits_init)
    ultimately obtain ok' c' where "lrat_check_add_axiomatic_clause cid lits c1 = Some (ok', c')"
      "ck_inv F c'" "same_ctl c1 c'"
      "\<forall>k cls. ht_map (clause_table c1) k = Some cls \<longrightarrow> ht_map (clause_table c') k = Some cls"
      using add_axiomatic_spec [OF c1(2)] by metis
    with True c1 same_db_ctl [OF c1(3)] show ?thesis
      by (auto simp: lrat_check_add_clause_def same_db_def intro: same_ctl_trans)
  qed
qed

lemma delete_clause_spec:
  "ck_inv F c \<Longrightarrow>
   \<exists>ok c'. lrat_check_delete_clause ids c = Some (ok, c') \<and> ck_inv F c' \<and> same_ctl c c' \<and>
     (\<forall>k. check_model c \<and> k \<le> nb_loaded_clauses c \<longrightarrow>
        ht_map (clause_table c') k = ht_map (clause_table c) k) \<and>
     (\<forall>k cls. ht_map (clause_table c') k = Some cls \<longrightarrow> ht_map (clause_table c) k = Some cls)"
proof (induction ids c rule: lrat_check_delete_clause.induct)
  case (1 c)
  then show ?case by auto
next
  case (2 cid ids c)
  note ht = ck_inv_table [OF "2.prems"]
  obtain t where t: "hash_table_find (clause_table c) cid = Some (ht_map (clause_table c) cid, t)"
    "ht_inv t" "ht_map t = ht_map (clause_table c)"
    using ct.find_law [OF ht] by blast
  define c1 where "c1 = c\<lparr>clause_table := t\<rparr>"
  have i1: "ck_inv F c1" "same_ctl c c1"
    using ck_inv_set_table [OF "2.prems" t(2)] t(3) ck_inv_cls [OF "2.prems"]
    by (auto simp: c1_def same_ctl_def)
  show ?case
  proof (cases "ht_map (clause_table c) cid")
    case None
    then have "lrat_check_delete_clause (cid # ids) c =
        Some (False, c1\<lparr>msgstr := Some (Deletion_Not_Found cid)\<rparr>)"
      using t(1) by (simp add: c1_def Let_def)
    moreover have "ht_map (clause_table c1) = ht_map (clause_table c)"
      using t(3) by (simp add: c1_def)
    ultimately show ?thesis using i1 by (auto simp del: lrat_check_delete_clause.simps)
  next
    case (Some cls)
    show ?thesis
    proof (cases "check_model c1 \<and> cid \<le> nb_loaded_clauses c1")
      case True
      obtain ok c' where "lrat_check_delete_clause ids c1 = Some (ok, c')" "ck_inv F c'" "same_ctl c1 c'"
        "\<forall>k. check_model c1 \<and> k \<le> nb_loaded_clauses c1 \<longrightarrow>
           ht_map (clause_table c') k = ht_map (clause_table c1) k"
        "\<forall>k cls. ht_map (clause_table c') k = Some cls \<longrightarrow> ht_map (clause_table c1) k = Some cls"
        using "2.IH"(1) [OF t(1) refl c1_def Some True i1(1)] by blast
      moreover have "lrat_check_delete_clause (cid # ids) c = lrat_check_delete_clause ids c1"
        using True Some t(1) by (simp add: Let_def c1_def)
      moreover have "ht_map (clause_table c1) = ht_map (clause_table c)" "check_model c1 = check_model c"
        "nb_loaded_clauses c1 = nb_loaded_clauses c"
        using t(3) by (simp_all add: c1_def)
      moreover from calculation i1(2) have "same_ctl c c'" using same_ctl_trans by blast
      ultimately show ?thesis by metis
    next
      case False
      from t(1) Some have f: "hash_table_find (clause_table c) cid = Some (Some cls, t)" by simp
      obtain t2 where t2: "hash_table_delete_last_found t = Some (True, t2)"
        using ct.delete_last_defined [OF ht f] by blast
      have m2: "ht_inv t2" "ht_map t2 = (ht_map (clause_table c))(cid := None)"
        using ct.delete_lastD [OF ht f t2] by auto
      define c2 where "c2 = c1\<lparr>clause_table := t2\<rparr>"
      have "ht_map t2 \<subseteq>\<^sub>m ht_map (clause_table c)"
        using m2(2) by (simp add: map_le_def)
      then have i2: "ck_inv F c2" "same_ctl c c2"
        using ck_inv_sub_table [OF "2.prems" m2(1)] by (simp_all add: c1_def c2_def same_ctl_def)
      have t2': "hash_table_delete_last_found (clause_table c1) = Some (True, t2)"
        using t2 by (simp add: c1_def)
      obtain ok c' where "lrat_check_delete_clause ids c2 = Some (ok, c')" "ck_inv F c'" "same_ctl c2 c'"
        "\<forall>k. check_model c2 \<and> k \<le> nb_loaded_clauses c2 \<longrightarrow>
           ht_map (clause_table c') k = ht_map (clause_table c2) k"
        "\<forall>k cls. ht_map (clause_table c') k = Some cls \<longrightarrow> ht_map (clause_table c2) k = Some cls"
        using "2.IH"(2) [OF t(1) refl c1_def Some False t2' refl c2_def _ i2(1)] by auto
      moreover have "lrat_check_delete_clause (cid # ids) c = lrat_check_delete_clause ids c2"
        using False t(1) Some t2 by (auto simp add: Let_def c1_def c2_def)
      moreover have "check_model c2 = check_model c" "nb_loaded_clauses c2 = nb_loaded_clauses c"
        by (simp_all add: c1_def c2_def)
      moreover have "ht_map (clause_table c2) k = ht_map (clause_table c) k"
        if "check_model c" "k \<le> nb_loaded_clauses c" for k
        using that False m2(2) by (auto simp: c2_def c1_def)
      moreover have "ht_map (clause_table c) k = Some cls'" if "ht_map (clause_table c2) k = Some cls'" for k cls'
        using that m2(2) by (auto simp: c2_def split: if_splits)
      moreover from calculation i2(2) have "same_ctl c c'" using same_ctl_trans by blast
      ultimately show ?thesis by metis
    qed
  qed
qed

end
