(* ===== verification/Imp_Rup.thy ===== *)
theory Imp_Rup
  imports Imp_Lrat
begin

text \<open>
  What the derivation check of \<open>lrat_check.c\<close> decides: reverse unit propagation along the hints, stated over sets
  of literals instead of the array of values, and when a derived clause can be stored.
\<close>

section \<open>Reverse unit propagation\<close>

text \<open>
  A set of literals is an assignment, those of its members being true. \<open>rup D A hints\<close>: every hint clause but the last one has exactly
  one literal that is not false and no true one, which then becomes true; in the last one all literals are false.
\<close>

definition set_lit :: "lit \<Rightarrow> lit set \<Rightarrow> lit set" where
  "set_lit u A = insert u (A - {- u})"

definition negated :: "lit list \<Rightarrow> lit set" where
  "negated lits = fold (\<lambda>l. set_lit (- l)) lits {}"

fun rup :: "(u64 \<Rightarrow> lit list option) \<Rightarrow> lit set \<Rightarrow> u64 list \<Rightarrow> bool" where
  "rup D A [] = False"
| "rup D A (h # hints) =
     (case D h of
        None \<Rightarrow> False
      | Some C \<Rightarrow>
          (\<forall>l \<in> set C. l \<notin> A) \<and>
          (case filter (\<lambda>l. - l \<notin> A) C of
             [] \<Rightarrow> hints = []
           | [u] \<Rightarrow> rup D (set_lit u A) hints
           | _ \<Rightarrow> False))"

text \<open>The array of values stands for the assignment.\<close>

definition stands :: "int list \<Rightarrow> lit set \<Rightarrow> bool" where
  "stands vals A \<longleftrightarrow> (\<forall>l. l \<noteq> 0 \<and> nat (lit_var l) < length vals \<longrightarrow>
     (l \<in> A \<longleftrightarrow> vals ! nat (lit_var l) \<noteq> 0 \<and> (0 < vals ! nat (lit_var l)) = (0 < l)))"

lemma standsD:
  "stands vals A \<Longrightarrow> l \<noteq> 0 \<Longrightarrow> nat (lit_var l) < length vals \<Longrightarrow>
   l \<in> A \<longleftrightarrow> vals ! nat (lit_var l) \<noteq> 0 \<and> (0 < vals ! nat (lit_var l)) = (0 < l)"
  by (simp add: stands_def)

lemma lit_var_minus [simp]: "lit_var (- l) = lit_var l"
  by (simp add: lit_var_def)

lemma same_var: "nat (lit_var l) = nat (lit_var u) \<longleftrightarrow> l = u \<or> l = - u"
  by (auto simp: lit_var_def)

lemma stands_clean: "clean c \<Longrightarrow> stands (var_values c) {}"
  by (simp add: stands_def clean_def)

lemma stands_set:
  assumes "stands vals A" "u \<noteq> 0"
  shows "stands (vals[nat (lit_var u) := (if u > 0 then 1 else -1)]) (set_lit u A)"
  unfolding stands_def
proof (intro allI impI)
  fix l assume l: "l \<noteq> 0 \<and> nat (lit_var l) < length (vals[nat (lit_var u) := (if u > 0 then 1 else -1)])"
  show "l \<in> set_lit u A \<longleftrightarrow> vals[nat (lit_var u) := (if u > 0 then 1 else -1)] ! nat (lit_var l) \<noteq> 0 \<and>
      (0 < vals[nat (lit_var u) := (if u > 0 then 1 else -1)] ! nat (lit_var l)) = (0 < l)"
  proof (cases "nat (lit_var l) = nat (lit_var u)")
    case True
    then have "l = u \<or> l = - u" by (simp add: same_var)
    then show ?thesis using l assms(2) True by (auto simp: set_lit_def)
  next
    case False
    then have "l \<noteq> u" "l \<noteq> - u" by (auto simp: same_var)
    then show ?thesis using standsD [OF assms(1), of l] l False by (simp add: set_lit_def)
  qed
qed

section \<open>The loops of the check\<close>

lemma assume_negated_stands:
  "assume_negated lits c = Some c' \<Longrightarrow> 0 \<notin> set lits \<Longrightarrow> stands (var_values c) A \<Longrightarrow>
   stands (var_values c') (fold (\<lambda>l. set_lit (- l)) lits A)"
proof (induction lits arbitrary: c A)
  case (Cons l lits)
  then obtain c1 where c1: "assign c (lit_var l) (if l > 0 then -1 else 1) = Some c1" "assume_negated lits c1 = Some c'"
    by (auto split: Option.bind_splits)
  have "var_values c1 = (var_values c)[nat (lit_var l) := (if l > 0 then -1 else 1)]" using assignD(2) [OF c1(1)] by simp
  moreover have "(if l > 0 then -1 else 1 :: int) = (if - l > 0 then 1 else -1)" using Cons.prems(2) by auto
  ultimately have "stands (var_values c1) (set_lit (- l) A)" using stands_set [OF Cons.prems(3), of "- l"] Cons.prems(2) by simp
  then show ?case using Cons.IH [OF c1(2)] Cons.prems(2) by simp
qed simp

lemma scan_hint_unit_iff:
  assumes "stands vals A" "0 \<in> set cls" "\<forall>l \<in> set (cls_lits cls). nat (lit_var l) < length vals"
  shows "\<exists>r. scan_hint vals cls u0 = Some r \<and> (\<forall>u. r = New_Unit u \<longleftrightarrow> (\<forall>l \<in> set (cls_lits cls). l \<notin> A) \<and>
    (if u0 = 0 then [] else [u0]) @ filter (\<lambda>l. - l \<notin> A) (cls_lits cls) = (if u = 0 then [] else [u]))"
  using assms(2,3)
proof (induction cls arbitrary: u0)
  case (Cons l cls)
  show ?case
  proof (cases "l = 0")
    case True
    then show ?thesis by (auto simp: cls_lits_def)
  next
    case False
    then have lits: "cls_lits (l # cls) = l # cls_lits cls" by (simp add: cls_lits_def)
    have ih: "\<exists>r. scan_hint vals cls u = Some r \<and> (\<forall>w. r = New_Unit w \<longleftrightarrow> (\<forall>l \<in> set (cls_lits cls). l \<notin> A) \<and>
        (if u = 0 then [] else [u]) @ filter (\<lambda>l. - l \<notin> A) (cls_lits cls) = (if w = 0 then [] else [w]))" for u
      using Cons False lits by auto
    define x where "x = vals ! nat (lit_var l)"
    have i: "nat (lit_var l) < length vals" using Cons.prems(2) lits by simp
    have p: "l \<in> A \<longleftrightarrow> x \<noteq> 0 \<and> (0 < x) = (0 < l)" using standsD [OF assms(1) False i] by (simp add: x_def)
    have m: "- l \<in> A \<longleftrightarrow> x \<noteq> 0 \<and> (0 < x) = (l < 0)" using standsD [OF assms(1), of "- l"] False i by (simp add: x_def)
    have step: "scan_hint vals (l # cls) u0 =
        (if x = 0 then if u0 \<noteq> 0 then Some Two_Unassigned else scan_hint vals cls l
         else if (x > 0) = (l > 0) then Some Satisfied else scan_hint vals cls u0)"
      using False i by (simp add: x_def mem_get_def)
    consider "x = 0" "u0 \<noteq> 0" | "x = 0" "u0 = 0" | "x \<noteq> 0" "(x > 0) = (l > 0)" | "x \<noteq> 0" "(x > 0) \<noteq> (l > 0)" by blast
    then show ?thesis
    proof cases
      case 1
      then show ?thesis using step lits m by simp
    next
      case 2
      then show ?thesis using step lits m p ih [of l] False by simp
    next
      case 3
      then show ?thesis using step lits p by simp
    next
      case 4
      then have "- l \<in> A" "l \<notin> A" using m p False by auto
      then show ?thesis using step lits 4 ih [of u0] by simp
    qed
  qed
qed simp

definition clauses :: "checker \<Rightarrow> u64 \<Rightarrow> lit list option" where
  "clauses c k = map_option cls_lits (ht_map (clause_table c) k)"

lemma clauses_cong: "ht_map (clause_table c') = ht_map (clause_table c) \<Longrightarrow> clauses c' = clauses c"
  by (simp add: clauses_def fun_eq_iff)

lemma follow_hints_rup:
  "db_ok c \<Longrightarrow> stands (var_values c) A \<Longrightarrow> \<exists>c'. follow_hints b hints c = Some (rup (clauses c) A hints, c')"
proof (induction hints arbitrary: c A)
  case Nil
  then show ?case by simp
next
  case (Cons h hints)
  have inv: "ht_inv (clause_table c)" using Cons.prems(1) by (simp add: db_ok_def)
  obtain t where t: "hash_table_find (clause_table c) h = Some (ht_map (clause_table c) h, t)"
    "ht_inv t" "ht_map t = ht_map (clause_table c)"
    using ct.find_law [OF inv] by blast
  let ?c1 = "c\<lparr>clause_table := t\<rparr>"
  show ?case
  proof (cases "ht_map (clause_table c) h")
    case None
    then show ?thesis using t(1) by (simp add: clauses_def)
  next
    case (Some cls)
    with Cons.prems(1) have ok: "0 \<in> set cls" "\<forall>l \<in> set (cls_lits cls). nat (lit_var l) < length (var_values c)"
      by (auto simp: db_ok_def cls_ok_def)
    have cl: "clauses c h = Some (cls_lits cls)" using Some by (simp add: clauses_def)
    obtain r where r: "scan_hint (var_values c) cls 0 = Some r"
      "\<And>u. r = New_Unit u \<longleftrightarrow> (\<forall>l \<in> set (cls_lits cls). l \<notin> A) \<and>
        filter (\<lambda>l. - l \<notin> A) (cls_lits cls) = (if u = 0 then [] else [u])"
      using scan_hint_unit_iff [OF Cons.prems(2) ok, of 0] by auto
    show ?thesis
    proof (cases "\<exists>u. r = New_Unit u")
      case False
      then have n: "\<not> ((\<forall>l \<in> set (cls_lits cls). l \<notin> A) \<and>
          filter (\<lambda>l. - l \<notin> A) (cls_lits cls) = (if u = 0 then [] else [u]))" for u using r(2) by blast
      have "\<not> rup (clauses c) A (h # hints)"
      proof (cases "filter (\<lambda>l. - l \<notin> A) (cls_lits cls)")
        case Nil
        then show ?thesis using n [of 0] Some by (auto simp: clauses_def)
      next
        case (Cons u us)
        then have "u \<in> set (filter (\<lambda>l. - l \<notin> A) (cls_lits cls))" by simp
        then have "u \<noteq> 0" by (auto dest: cls_lits_nonzero)
        then show ?thesis using n [of u] Some Cons by (cases us) (auto simp: clauses_def)
      qed
      with False t(1) Some r(1) show ?thesis by (cases r) (simp_all add: Let_def)
    next
      case True
      then obtain u where u: "r = New_Unit u" by blast
      note f = r(2) [of u, THEN iffD1, OF u]
      show ?thesis
      proof (cases "u = 0")
        case True
        then show ?thesis using f u t(1) Some r(1) by (simp add: clauses_def Let_def)
      next
        case False
        then have "u \<in> set (filter (\<lambda>l. - l \<notin> A) (cls_lits cls))" using f by simp
        then have "nat (lit_var u) < length (var_values ?c1)" using ok by simp
        from assign_defined [OF this, of "if u > 0 then 1 else -1"] obtain c2 where
          c2: "assign ?c1 (lit_var u) (if u > 0 then 1 else -1) = Some c2" by blast
        have v: "var_values c2 = (var_values c)[nat (lit_var u) := (if u > 0 then 1 else -1)]"
          "clause_table c2 = t" using assignD(2) [OF c2] by simp_all
        then have "db_ok c2" using Cons.prems(1) t by (simp add: db_ok_def)
        moreover have "clauses c2 = clauses c" using v(2) t(3) by (intro clauses_cong) simp
        ultimately obtain c' where "follow_hints b hints c2 = Some (rup (clauses c) (set_lit u A) hints, c')"
          using Cons.IH [of c2 "set_lit u A"] stands_set [OF Cons.prems(2) False] v(1) by auto
        then show ?thesis using False f u t(1) Some r(1) c2 cl by (simp add: Let_def)
      qed
    qed
  qed
qed

lemma check_clause_rup:
  assumes "ck_inv F c" "in_range c lits" "0 \<notin> set lits"
  shows "\<exists>c'. check_clause b lits hints c = Some (rup (clauses c) (negated lits) hints, c') \<and> same_db c c'"
proof -
  have db: "db_ok c" and cl: "clean c" using assms(1) by (auto simp: ck_inv_def)
  then have "ht_inv (clause_table c)" by (simp add: db_ok_def)
  then obtain c1 where c1: "assume_negated lits c = Some c1" "same_db c c1"
    using assume_negated_spec [OF clean_tracked [OF cl], of lits] assms(2) by (auto simp: in_range_def)
  have "clauses c1 = clauses c" using c1(2) by (intro clauses_cong) (simp add: same_db_def)
  then obtain c2 where "follow_hints b hints c1 = Some (rup (clauses c) (negated lits) hints, c2)"
    using follow_hints_rup [OF db_ok_same [OF c1(2) db] assume_negated_stands [OF c1(1) assms(3) stands_clean [OF cl]], of b hints]
    by (auto simp: negated_def)
  moreover obtain ok c' where c': "check_clause b lits hints c = Some (ok, c')" "same_db c c'"
    using check_clause_spec [OF assms(1,2)] by blast
  ultimately show ?thesis using c1(1) by (auto simp: check_clause_def Let_def split: Option.bind_splits)
qed

section \<open>Storing a clause\<close>

text \<open>A clause can be stored under a free id other than 0; the lenient mode also takes one that is stored there already.\<close>

definition storable :: "checker \<Rightarrow> u64 \<Rightarrow> lit list \<Rightarrow> bool" where
  "storable c cid lits = (case clauses c cid of
     None \<Rightarrow> cid \<noteq> 0
   | Some old \<Rightarrow> lenient c \<and> set old \<subseteq> set lits \<and> length old = length lits)"

lemma add_axiomatic_iff:
  assumes inv: "ht_inv (clause_table c)" and nz: "0 \<notin> set lits"
  shows "\<exists>c'. lrat_check_add_axiomatic_clause cid lits c = Some (storable c cid lits, c') \<and>
    clauses c' = (if cid \<noteq> 0 \<and> clauses c cid = None then (clauses c)(cid \<mapsto> lits) else clauses c) \<and>
    unsat_proven c' = (unsat_proven c \<or> cid \<noteq> 0 \<and> clauses c cid = None \<and> lits = [])"
proof -
  let ?m = "ht_map (clause_table c)"
  have lits: "cls_lits (clause_init lits) = lits" using nz by (intro cls_lits_init) auto
  obtain t where t: "hash_table_insert (clause_table c) cid (clause_init lits) = Some (cid \<noteq> 0 \<and> ?m cid = None, t)"
    "ht_inv t" "ht_map t = (if cid \<noteq> 0 \<and> ?m cid = None then ?m(cid \<mapsto> clause_init lits) else ?m)"
    using ct.insert_law [OF inv] by blast
  have c: "clauses c cid = None \<longleftrightarrow> ?m cid = None" by (simp add: clauses_def)
  show ?thesis
  proof (cases "cid \<noteq> 0 \<and> ?m cid = None")
    case True
    then have "ht_map t = ?m(cid \<mapsto> clause_init lits)" using t(3) by simp
    then have "clauses (c\<lparr>clause_table := t\<rparr>) = (clauses c)(cid \<mapsto> lits)" by (auto simp: clauses_def fun_eq_iff lits)
    moreover have "clauses (c\<lparr>clause_table := t, unsat_proven := True\<rparr>) = clauses (c\<lparr>clause_table := t\<rparr>)" by (simp add: clauses_def fun_eq_iff)
    ultimately show ?thesis using True t(1) by (simp add: lrat_check_add_axiomatic_clause_def Let_def storable_def clauses_def)
  next
    case False
    then have t3: "ht_map t = ?m" using t(3) by auto
    obtain t2 where t2: "hash_table_find t cid = Some (?m cid, t2)" "ht_map t2 = ?m"
      using ct.find_law [OF t(2)] t3 by metis
    have k: "clauses (c\<lparr>clause_table := t\<rparr>) = clauses c" "clauses (c\<lparr>clause_table := t2\<rparr>) = clauses c"
      "clauses (c\<lparr>clause_table := t, msgstr := m\<rparr>) = clauses c" "clauses (c\<lparr>clause_table := t2, msgstr := m\<rparr>) = clauses c" for m
      using t3 t2(2) by (simp_all add: clauses_def fun_eq_iff)
    have e: "clauses_equivalent old (clause_init lits) \<longleftrightarrow> set (cls_lits old) \<subseteq> set lits \<and> length (cls_lits old) = length lits" for old
      by (auto simp: clauses_equivalent_def lits list_all_iff)
    show ?thesis using False t(1) t2(1) k e
      by (cases "?m cid") (auto simp: lrat_check_add_axiomatic_clause_def Let_def storable_def clauses_def)
  qed
qed

lemma add_clause_iff:
  assumes "ck_inv F c" "in_range c lits" "0 \<notin> set lits"
  shows "\<exists>c'. lrat_check_add_clause cid lits hints c =
      Some (rup (clauses c) (negated lits) hints \<and> storable c cid lits, c') \<and>
    (rup (clauses c) (negated lits) hints \<longrightarrow>
      clauses c' = (if cid \<noteq> 0 \<and> clauses c cid = None then (clauses c)(cid \<mapsto> lits) else clauses c) \<and>
      unsat_proven c' = (unsat_proven c \<or> cid \<noteq> 0 \<and> clauses c cid = None \<and> lits = []))"
proof -
  obtain c1 where c1: "check_clause cid lits hints c = Some (rup (clauses c) (negated lits) hints, c1)" "same_db c c1"
    using check_clause_rup [OF assms] by blast
  have k: "clauses c1 = clauses c" using c1(2) by (intro clauses_cong) (simp add: same_db_def)
  moreover have "storable c1 cid lits = storable c cid lits" using k c1(2) by (simp add: storable_def same_db_def split: option.split)
  moreover have "ht_inv (clause_table c1)" "unsat_proven c1 = unsat_proven c" using c1(2) by (simp_all add: same_db_def)
  ultimately show ?thesis using c1(1) add_axiomatic_iff [of c1 lits cid] assms(3)
    by (cases "rup (clauses c) (negated lits) hints") (auto simp: lrat_check_add_clause_def)
qed

end
