(* ===== verification/Imp_Valid.thy ===== *)
theory Imp_Valid
  imports Imp_Lrat
begin

text \<open>
  Loading a formula into the checker and validating a satisfying assignment
  (\<open>lrat_check_load\<close>, \<open>lrat_check_end_load\<close>, \<open>lrat_check_validate_sat\<close> of
  \<open>impcheck/src/trusted/lrat_check.c\<close>). The literal stream that \<open>lrat_check_load\<close> consumes is
  split at the zeros into clauses; \<open>tracks\<close> says that the checker stores clause \<open>i\<close> of the
  formula under id \<open>i + 1\<close>, and the SAT results speak about these clauses.
\<close>

section \<open>Checking a model\<close>

text \<open>The valuation a model array stands for: entry \<open>x - 1\<close> is \<open>x\<close> when \<open>x\<close> is true.\<close>

definition model_val :: "int list \<Rightarrow> int \<Rightarrow> bool" where
  "model_val m x = (m ! nat (x - 1) = x)"

text \<open>\<open>completes m m'\<close>: \<open>m'\<close> differs from \<open>m\<close> only where \<open>m\<close> has a 0.\<close>

definition completes :: "int list \<Rightarrow> int list \<Rightarrow> bool" where
  "completes m m' = (length m' = length m \<and> (\<forall>i<length m. m ! i \<noteq> 0 \<longrightarrow> m' ! i = m ! i))"

lemma completes_refl [simp]: "completes m m"
  by (simp add: completes_def)

lemma completes_trans: "completes a b \<Longrightarrow> completes b c \<Longrightarrow> completes a c"
  by (simp add: completes_def)

lemma completes_update: "m ! i = 0 \<Longrightarrow> completes m (m[i := x])"
  unfolding completes_def by (metis length_list_update nth_list_update_neq)

definition sat_lit :: "int list \<Rightarrow> lit \<Rightarrow> bool" where
  "sat_lit m l = (l \<noteq> 0 \<and> nat (lit_var l - 1) < length m \<and> m ! nat (lit_var l - 1) = l)"

lemma sat_lit_true: "sat_lit m l \<Longrightarrow> lit_true (model_val m) l"
  by (auto simp: sat_lit_def lit_true_def lit_var_def model_val_def split: if_splits)

lemma sat_lit_completes: "completes m m' \<Longrightarrow> sat_lit m l \<Longrightarrow> sat_lit m' l"
  by (auto simp: sat_lit_def completes_def)

lemma sat_clause_step:
  "l \<noteq> 0 \<Longrightarrow> nat (lit_var l - 1) < length m \<Longrightarrow>
   sat_clause (l # ls) m =
     (let i = nat (lit_var l - 1) in
      if m ! i = l then Some (Clause_Satisfied, m)
      else if m ! i = 0 then Some (Clause_Satisfied, m[i := l])
      else if m ! i = - l then sat_clause ls m
      else Some (Unexpected (m ! i) (lit_var l), m))"
  by (auto simp: Let_def lit_var_def)

lemma sat_clause_spec:
  "0 \<in> set cls \<Longrightarrow>
   \<exists>r m'. sat_clause cls m = Some (r, m') \<and> completes m m' \<and>
     (r = Clause_Satisfied \<longrightarrow> (\<exists>l \<in> set (cls_lits cls). sat_lit m' l))"
proof (induction cls)
  case Nil
  then show ?case by simp
next
  case (Cons l cls)
  show ?case
  proof (cases "l = 0")
    case True
    then show ?thesis by simp
  next
    case nz: False
    have lits: "cls_lits (l # cls) = l # cls_lits cls" using nz by (simp add: cls_lits_def)
    let ?i = "nat (lit_var l - 1)"
    show ?thesis
    proof (cases "?i < length m")
      case False
      with nz show ?thesis by (simp add: Let_def)
    next
      case i: True
      note step = sat_clause_step [OF nz i, of cls]
      consider "m ! ?i = l" | "m ! ?i = 0" | "m ! ?i = - l" "m ! ?i \<noteq> 0" "m ! ?i \<noteq> l"
        | "m ! ?i \<noteq> l" "m ! ?i \<noteq> 0" "m ! ?i \<noteq> - l" by blast
      then show ?thesis
      proof cases
        case 1
        then have "sat_lit m l" using nz i by (simp add: sat_lit_def)
        with 1 step lits show ?thesis by (simp del: sat_clause.simps)
      next
        case 2
        then have "sat_lit (m[?i := l]) l" "completes m (m[?i := l])"
          using nz i by (simp_all add: sat_lit_def completes_update)
        with 2 step lits nz show ?thesis by (simp del: sat_clause.simps add: Let_def)
      next
        case 3
        with step have "sat_clause (l # cls) m = sat_clause cls m"
          by (simp del: sat_clause.simps add: Let_def)
        moreover have "0 \<in> set cls" using Cons.prems nz by simp
        ultimately show ?thesis using Cons.IH lits by (auto simp del: sat_clause.simps)
      next
        case 4
        with step show ?thesis by (simp del: sat_clause.simps add: Let_def)
      qed
    qed
  qed
qed

text \<open>A model that gives every variable a value is accepted for every clause it satisfies.\<close>

definition total_model :: "int list \<Rightarrow> bool" where
  "total_model m = (\<forall>i<length m. m ! i = int i + 1 \<or> m ! i = - (int i + 1))"

lemma total_model_entry:
  assumes "total_model m" "l \<noteq> 0" "nat (lit_var l - 1) < length m"
  shows "m ! nat (lit_var l - 1) = (if lit_true (model_val m) l then l else - l)"
proof -
  have "0 < lit_var l" using assms(2) by (simp add: lit_var_def)
  then have "m ! nat (lit_var l - 1) = lit_var l \<or> m ! nat (lit_var l - 1) = - lit_var l"
    using assms(1,3) unfolding total_model_def by fastforce
  then show ?thesis using assms(2)
    by (auto simp: lit_true_def model_val_def lit_var_def split: if_splits)
qed

lemma sat_clause_total:
  "0 \<in> set cls \<Longrightarrow> total_model m \<Longrightarrow> (\<forall>l \<in> set (cls_lits cls). nat (lit_var l - 1) < length m) \<Longrightarrow>
   sat_clause cls m =
     Some (if clause_true (model_val m) (cls_lits cls) then Clause_Satisfied else Clause_Unsatisfied, m)"
proof (induction cls)
  case Nil
  then show ?case by simp
next
  case (Cons l cls)
  show ?case
  proof (cases "l = 0")
    case True
    then show ?thesis by (simp add: cls_lits_def clause_true_def)
  next
    case nz: False
    have lits: "cls_lits (l # cls) = l # cls_lits cls" using nz by (simp add: cls_lits_def)
    with Cons.prems have i: "nat (lit_var l - 1) < length m" by simp
    have "sat_clause cls m =
      Some (if clause_true (model_val m) (cls_lits cls) then Clause_Satisfied else Clause_Unsatisfied, m)"
      using Cons lits nz by simp
    with sat_clause_step [OF nz i, of cls] total_model_entry [OF Cons.prems(2) nz i] nz lits
    show ?thesis
      by (simp add: clause_true_def Let_def del: sat_clause.simps split: if_splits)
  qed
qed

lemma sat_clauses_spec:
  "db_ok c \<Longrightarrow>
   \<exists>ok m' c'. sat_clauses ids m c = Some (ok, m', c') \<and> same_db c c' \<and> var_values c' = var_values c \<and>
     assigned_units c' = assigned_units c \<and> completes m m' \<and>
     (ok \<longrightarrow> (\<forall>k \<in> set ids. \<exists>cls. ht_map (clause_table c) k = Some cls \<and>
        clause_true (model_val m') (cls_lits cls)))"
proof (induction ids m c rule: sat_clauses.induct)
  case (1 m c)
  then show ?case by (auto simp: db_ok_def same_db_refl)
next
  case (2 k ids m c)
  have inv: "ht_inv (clause_table c)" using "2.prems"(1) by (simp add: db_ok_def)
  obtain t where t: "hash_table_find (clause_table c) k = Some (ht_map (clause_table c) k, t)"
    "ht_inv t" "ht_map t = ht_map (clause_table c)"
    using ct.find_law [OF inv] by blast
  define c1 where "c1 = c\<lparr>clause_table := t\<rparr>"
  have c1: "same_db c c1" "var_values c1 = var_values c" "assigned_units c1 = assigned_units c"
    using t by (auto simp: c1_def same_db_def)
  have db1: "db_ok c1" using db_ok_same [OF c1(1) "2.prems"] .
  have msg: "same_db c (c1\<lparr>msgstr := x\<rparr>)" for x
    using c1(1) by (simp add: same_db_def)
  show ?case
  proof (cases "ht_map (clause_table c) k")
    case None
    then have "sat_clauses (k # ids) m c = Some (False, m, c1\<lparr>msgstr := Some (Original_Not_Found k)\<rparr>)"
      using t(1) by (simp add: c1_def Let_def)
    with msg c1 show ?thesis by (auto simp del: sat_clauses.simps)
  next
    case (Some cls)
    with "2.prems" have "0 \<in> set cls" by (auto simp: db_ok_def cls_ok_def)
    then obtain r m1 where r: "sat_clause cls m = Some (r, m1)" "completes m m1"
      "r = Clause_Satisfied \<longrightarrow> (\<exists>l \<in> set (cls_lits cls). sat_lit m1 l)"
      using sat_clause_spec by blast
    have step: "sat_clauses (k # ids) m c =
      (case r of Clause_Satisfied \<Rightarrow> sat_clauses ids m1 c1
       | Clause_Unsatisfied \<Rightarrow> Some (False, m1, c1\<lparr>msgstr := Some (Original_Not_Satisfied k)\<rparr>)
       | Not_Covered x \<Rightarrow> Some (False, m1, c1\<lparr>msgstr := Some (Model_Too_Short x)\<rparr>)
       | Unexpected y x \<Rightarrow> Some (False, m1, c1\<lparr>msgstr := Some (Model_Unexpected y x)\<rparr>))"
      by (cases r) (simp_all add: t(1) Some Let_def c1_def r(1))
    show ?thesis
    proof (cases "r = Clause_Satisfied")
      case False
      with step msg c1 r(2) show ?thesis by (cases r) (auto simp del: sat_clauses.simps)
    next
      case True
      obtain ok m' c' where ih: "sat_clauses ids m1 c1 = Some (ok, m', c')" "same_db c1 c'"
        "var_values c' = var_values c1" "assigned_units c' = assigned_units c1" "completes m1 m'"
        "ok \<longrightarrow> (\<forall>k \<in> set ids. \<exists>cls. ht_map (clause_table c1) k = Some cls \<and>
          clause_true (model_val m') (cls_lits cls))"
        using "2.IH" [OF t(1) refl c1_def Some r(1) refl True db1] by blast
      have "clause_true (model_val m') (cls_lits cls)"
        using r(3) True sat_lit_true [OF sat_lit_completes [OF ih(5)]] by (auto simp: clause_true_def)
      moreover have "ht_map (clause_table c1) = ht_map (clause_table c)" using t(3) by (simp add: c1_def)
      ultimately show ?thesis
        using ih step True Some c1 same_db_trans [OF c1(1) ih(2)] completes_trans [OF r(2) ih(5)]
        by (auto simp del: sat_clauses.simps)
    qed
  qed
qed


lemma sat_clauses_total:
  "db_ok c \<Longrightarrow> total_model m \<Longrightarrow>
   (\<forall>k \<in> set ids. \<exists>cls. ht_map (clause_table c) k = Some cls \<and>
      clause_true (model_val m) (cls_lits cls) \<and>
      (\<forall>l \<in> set (cls_lits cls). nat (lit_var l - 1) < length m)) \<Longrightarrow>
   \<exists>c'. sat_clauses ids m c = Some (True, m, c')"
proof (induction ids arbitrary: c)
  case Nil
  then show ?case by simp
next
  case (Cons k ids)
  have inv: "ht_inv (clause_table c)" using Cons.prems(1) by (simp add: db_ok_def)
  obtain cls where cls: "ht_map (clause_table c) k = Some cls" "clause_true (model_val m) (cls_lits cls)"
    "\<forall>l \<in> set (cls_lits cls). nat (lit_var l - 1) < length m"
    using Cons.prems(3) by auto
  obtain t where t: "hash_table_find (clause_table c) k = Some (Some cls, t)"
    "ht_inv t" "ht_map t = ht_map (clause_table c)"
    using ct.find_law [OF inv] cls(1) by metis
  let ?c1 = "c\<lparr>clause_table := t\<rparr>"
  have "db_ok ?c1" using Cons.prems(1) t by (simp add: db_ok_def)
  then obtain c' where "sat_clauses ids m ?c1 = Some (True, m, c')"
    using Cons.IH [of ?c1] Cons.prems(2,3) t(3) by auto
  moreover have "0 \<in> set cls" using Cons.prems(1) cls(1) by (auto simp: db_ok_def cls_ok_def)
  then have "sat_clause cls m = Some (Clause_Satisfied, m)"
    using sat_clause_total [OF _ Cons.prems(2) cls(3)] cls(2) by simp
  ultimately show ?case using t(1) by (simp add: Let_def)
qed

section \<open>Loading\<close>

text \<open>How a stream of literals is cut into clauses: complete ones and the literals left over.\<close>

fun load_lit :: "lit list list \<times> lit list \<Rightarrow> lit \<Rightarrow> lit list list \<times> lit list" where
  "load_lit (L, cur) l = (if l = 0 then (L @ [cur], []) else (L, cur @ [l]))"

definition split_stream :: "lit list \<Rightarrow> lit list list \<times> lit list" where
  "split_stream ls = foldl load_lit ([], []) ls"

lemma split_stream_Nil [simp]: "split_stream [] = ([], [])"
  by (simp add: split_stream_def)

lemma split_stream_snoc: "split_stream (ls @ [l]) = load_lit (split_stream ls) l"
  by (simp add: split_stream_def)

definition join_clauses :: "lit list list \<Rightarrow> lit list" where
  "join_clauses L = concat (map clause_init L)"

lemma split_stream_spec:
  "split_stream ls = (L, cur) \<Longrightarrow>
   ls = join_clauses L @ cur \<and> (\<forall>C \<in> set L. 0 \<notin> set C \<and> set C \<subseteq> set ls) \<and> 0 \<notin> set cur \<and>
   set cur \<subseteq> set ls"
proof (induction ls arbitrary: L cur rule: rev_induct)
  case Nil
  then show ?case by (simp add: join_clauses_def)
next
  case (snoc l ls)
  obtain L0 cur0 where s: "split_stream ls = (L0, cur0)" by fastforce
  have "(L, cur) = load_lit (L0, cur0) l" using snoc.prems s by (simp add: split_stream_snoc)
  with snoc.IH [OF s] show ?case
    by (cases "l = 0") (auto simp: join_clauses_def clause_init_def)
qed

lemma split_stream_join:
  "\<forall>C \<in> set L. 0 \<notin> set C \<Longrightarrow> split_stream (join_clauses L) = (L, [])"
proof (induction L rule: rev_induct)
  case Nil
  then show ?case by (simp add: join_clauses_def)
next
  case (snoc C L)
  have "foldl load_lit (M, cur) C = (M, cur @ C)" if "0 \<notin> set C" for M cur C
    using that by (induction C arbitrary: cur) auto
  with snoc show ?case
    by (simp add: join_clauses_def split_stream_def clause_init_def)
qed

lemma join_clauses_snoc: "join_clauses (L @ [C]) = join_clauses L @ C @ [0]"
  by (simp add: join_clauses_def clause_init_def)

lemma length_clause_le: "i < length L \<Longrightarrow> length (L ! i) < length (join_clauses L)"
proof (induction L arbitrary: i)
  case (Cons C L)
  show ?case
    using Cons.IH [of "i - 1"] Cons.prems by (cases i) (auto simp: join_clauses_def clause_init_def)
qed simp

lemma length_join: "length L \<le> length (join_clauses L)"
  by (induction L) (auto simp: join_clauses_def clause_init_def)

subsection \<open>One literal\<close>

lemma length_int_bytes [simp]: "length (int_bytes is) = 4 * length is"
  by (induction "is") (auto simp: int_bytes_def U32TO8_LE_def)

lemma int_bytes_append: "int_bytes (as @ bs) = int_bytes as @ int_bytes bs"
  by (simp add: int_bytes_def)

lemma siphash_update_ints:
  assumes "length (sbuf s) < 8" "length is < 2 ^ 30"
  shows "siphash_update s (int_bytes is) (of_nat (length is * 4)) = Some (update s (int_bytes is))"
  using siphash_update_eq [OF assms(1), of "int_bytes is"] assms(2) by (simp add: mult.commute)


definition same_opts :: "checker \<Rightarrow> checker \<Rightarrow> bool" where
  "same_opts c c' = (length (var_values c') = length (var_values c) \<and>
     check_model c' = check_model c \<and> lenient c' = lenient c \<and>
     nb_loaded_clauses c' = nb_loaded_clauses c \<and> done_loading c' = done_loading c)"

lemma same_ctl_opts: "same_ctl c c' \<Longrightarrow> same_opts c c'"
  by (simp add: same_ctl_def same_opts_def)

lemma same_opts_refl [simp]: "same_opts c c"
  by (simp add: same_opts_def)

lemma same_opts_trans: "same_opts a b \<Longrightarrow> same_opts b c \<Longrightarrow> same_opts a c"
  by (simp add: same_opts_def)

lemma in_range_opts: "same_opts c c' \<Longrightarrow> in_range c' lits = in_range c lits"
  by (simp add: same_opts_def in_range_def)

lemma in_range_append [simp]: "in_range c (as @ bs) \<longleftrightarrow> in_range c as \<and> in_range c bs"
  by (auto simp: in_range_def)

lemma ck_inv_stream [simp]:
  "ck_inv F (c\<lparr>clause_to_add := x\<rparr>) = ck_inv F c" "ck_inv F (c\<lparr>id_to_add := i\<rparr>) = ck_inv F c"
  "ck_inv F (c\<lparr>done_loading := b\<rparr>) = ck_inv F c" "ck_inv F (c\<lparr>nb_loaded_clauses := i\<rparr>) = ck_inv F c"
  by (simp_all add: ck_inv_def db_ok_def clean_def)

lemma load_nonzero:
  "l \<noteq> 0 \<Longrightarrow> lrat_check_load l c s = Some (True, c\<lparr>clause_to_add := clause_to_add c @ [l]\<rparr>, s)"
  by (simp add: lrat_check_load_def)

lemma load_zero_spec:
  assumes inv: "ck_inv F c" and rng: "in_range c (clause_to_add c)"
    and nz: "0 \<notin> set (clause_to_add c)" and ent: "entails F (clause_to_add c)"
    and len: "length (clause_to_add c) < 2 ^ 30 - 1" and s: "length (sbuf s) < 8"
  shows "\<exists>ok c' s'. lrat_check_load 0 c s = Some (ok, c', s') \<and> ck_inv F c' \<and> same_opts c c' \<and>
    (\<forall>k cls. ht_map (clause_table c) k = Some cls \<longrightarrow> ht_map (clause_table c') k = Some cls) \<and>
    clause_to_add c' = (if ok then [] else clause_to_add c) \<and>
    id_to_add c' = (if ok then id_to_add c + 1 else id_to_add c) \<and>
    s' = (if ok then update s (int_bytes (clause_to_add c @ [0])) else s) \<and>
    (id_to_add c \<noteq> 0 \<and> ht_map (clause_table c) (id_to_add c) = None \<longrightarrow> ok \<and>
       ht_map (clause_table c') = (ht_map (clause_table c))(id_to_add c \<mapsto> clause_init (clause_to_add c)))"
proof -
  let ?cur = "clause_to_add c" and ?id = "id_to_add c"
  have "\<forall>l \<in> set ?cur. l \<noteq> 0" using nz by metis
  then have "entails F (cls_lits (clause_init ?cur))"
    using ent by (simp add: cls_lits_init)
  from add_axiomatic_spec [OF inv rng this, of ?id]
  obtain ok c1 where a: "lrat_check_add_axiomatic_clause ?id ?cur c = Some (ok, c1)" "ck_inv F c1"
    "same_ctl c c1"
    "\<forall>k. k \<noteq> ?id \<longrightarrow> ht_map (clause_table c1) k = ht_map (clause_table c) k"
    "\<forall>k cls. ht_map (clause_table c) k = Some cls \<longrightarrow> ht_map (clause_table c1) k = Some cls"
    "?id \<noteq> 0 \<and> ht_map (clause_table c) ?id = None \<longrightarrow>
       ok \<and> ht_map (clause_table c1) ?id = Some (clause_init ?cur)"
    by blast
  have ctl: "clause_to_add c1 = ?cur" "id_to_add c1 = ?id" using a(3) by (simp_all add: same_ctl_def)
  have fresh: "ok \<and> ht_map (clause_table c1) = (ht_map (clause_table c))(?id \<mapsto> clause_init ?cur)"
    if "?id \<noteq> 0 \<and> ht_map (clause_table c) ?id = None"
    using that a(4,6) by (auto simp: fun_eq_iff)
  show ?thesis
  proof (cases ok)
    case False
    then have "lrat_check_load 0 c s = Some (False, c1, s)" using a(1) by (simp add: lrat_check_load_def)
    with False a(2,5) ctl fresh same_ctl_opts [OF a(3)] show ?thesis by auto
  next
    case True
    let ?c' = "c1\<lparr>id_to_add := ?id + 1, clause_to_add := []\<rparr>"
    have "lrat_check_load 0 c s = Some (True, ?c', update s (int_bytes (?cur @ [0])))"
      using True a(1) ctl siphash_update_ints [OF s, of "?cur @ [0]"] len
      by (simp add: lrat_check_load_def Let_def)
    moreover have "same_opts c ?c'" using same_ctl_opts [OF a(3)] by (simp add: same_opts_def)
    ultimately show ?thesis using True a(2,5) fresh by auto
  qed
qed

subsection \<open>A whole formula\<close>

text \<open>
  \<open>loading L cur c\<close>: the clauses \<open>L\<close> are loaded, and nothing else is in the table; \<open>cur\<close> are the
  literals of the next clause. \<open>holds L c\<close>: clause \<open>i\<close> of \<open>L\<close> is stored under id \<open>i + 1\<close>.
\<close>

definition holds :: "lit list list \<Rightarrow> checker \<Rightarrow> bool" where
  "holds L c = (\<forall>i<length L. ht_map (clause_table c) (of_nat (Suc i)) = Some (clause_init (L ! i)))"

definition loading :: "lit list list \<Rightarrow> lit list \<Rightarrow> checker \<Rightarrow> bool" where
  "loading L cur c = (ck_inv (set L) c \<and> holds L c \<and>
     (\<forall>k cls. ht_map (clause_table c) k = Some cls \<longrightarrow> unat k \<le> length L) \<and>
     clause_to_add c = cur \<and> id_to_add c = of_nat (Suc (length L)))"

fun load_all :: "lit list \<Rightarrow> checker \<Rightarrow> sip \<Rightarrow> (bool \<times> checker \<times> sip) option" where
  "load_all [] c s = Some (True, c, s)"
| "load_all (l # ls) c s =
     do { (ok, c, s) \<leftarrow> lrat_check_load l c s; (ok', c, s) \<leftarrow> load_all ls c s; Some (ok \<and> ok', c, s) }"

lemma unat_Suc_id: "n < 2 ^ 30 \<Longrightarrow> unat (of_nat (Suc n) :: u64) = Suc n"
  by (rule unat_of_nat_small) simp

lemma loading_step:
  assumes l: "loading L cur c" and rng: "in_range c (l # cur)" and nz: "0 \<notin> set cur"
    and len: "length L < 2 ^ 30 - 1" "length cur < 2 ^ 30 - 1"
    and s: "s = update (siphash_init sk) (int_bytes (join_clauses L))"
    and L': "load_lit (L, cur) l = (L', cur')"
  shows "\<exists>c' s'. lrat_check_load l c s = Some (True, c', s') \<and> loading L' cur' c' \<and> same_opts c c' \<and>
    s' = update (siphash_init sk) (int_bytes (join_clauses L'))"
proof (cases "l = 0")
  case False
  with L' l have "loading L' cur' (c\<lparr>clause_to_add := clause_to_add c @ [l]\<rparr>)"
    by (auto simp: loading_def holds_def)
  with False L' s load_nonzero [OF False, of c s] show ?thesis by (auto simp: same_opts_def)
next
  case True
  let ?id = "of_nat (Suc (length L)) :: u64"
  have L'_eq: "L' = L @ [cur]" "cur' = []" using L' True by auto
  have uid: "unat ?id = Suc (length L)" using len(1) by (intro unat_Suc_id) simp
  then have id0: "?id \<noteq> 0" by (metis Suc_not_Zero unsigned_0)
  have fresh: "ht_map (clause_table c) ?id = None"
    using l uid unfolding loading_def by (metis Suc_n_not_le_n not_Some_eq)
  have inv: "ck_inv (set L') c"
    using ck_inv_mono [of "set L" "set L'" c] l L'_eq by (auto simp: loading_def)
  have c: "clause_to_add c = cur" "id_to_add c = ?id" using l by (simp_all add: loading_def)
  have sbuf: "length (sbuf s) < 8" by (simp add: s)
  obtain c' s' where n: "lrat_check_load 0 c s = Some (True, c', s')" "ck_inv (set L') c'" "same_opts c c'"
    "clause_to_add c' = []" "id_to_add c' = ?id + 1" "s' = update s (int_bytes (cur @ [0]))"
    "ht_map (clause_table c') = (ht_map (clause_table c))(?id \<mapsto> clause_init cur)"
    using load_zero_spec [OF inv _ _ _ _ sbuf] rng nz len(2) c L'_eq id0 fresh
      entails_member [of cur "set L'"]
    by (auto simp: in_range_def)
  have "holds L' c'"
    unfolding holds_def
  proof (intro allI impI)
    fix i assume i: "i < length L'"
    show "ht_map (clause_table c') (of_nat (Suc i)) = Some (clause_init (L' ! i))"
    proof (cases "i = length L")
      case True
      then show ?thesis by (simp add: n(7) L'_eq nth_append)
    next
      case False
      with i L'_eq have "i < length L" by simp
      moreover from this have "of_nat (Suc i) \<noteq> ?id"
        using uid unat_Suc_id [of i] len(1) by auto
      ultimately show ?thesis using l by (simp add: n(7) L'_eq nth_append loading_def holds_def)
    qed
  qed
  moreover have "unat k \<le> length L'" if "ht_map (clause_table c') k = Some cls" for k cls
  proof (cases "k = ?id")
    case True
    then show ?thesis using uid L'_eq by simp
  next
    case False
    with that n(7) l show ?thesis unfolding loading_def L'_eq by fastforce
  qed
  moreover have "id_to_add c' = of_nat (Suc (length L'))" using n(5) L'_eq by simp
  ultimately have "loading L' cur' c'"
    using n(2,4) L'_eq unfolding loading_def by blast
  moreover have "s' = update (siphash_init sk) (int_bytes (join_clauses L'))"
    by (simp add: n(6) s L'_eq join_clauses_snoc update_append int_bytes_append)
  ultimately show ?thesis using True n(1,3) by blast
qed


lemma load_all_spec:
  "loading L cur c \<Longrightarrow> in_range c (cur @ ls) \<Longrightarrow> 0 \<notin> set cur \<Longrightarrow>
   length (join_clauses L @ cur @ ls) < 2 ^ 30 - 1 \<Longrightarrow>
   s = update (siphash_init sk) (int_bytes (join_clauses L)) \<Longrightarrow>
   foldl load_lit (L, cur) ls = (L', cur') \<Longrightarrow>
   \<exists>c' s'. load_all ls c s = Some (True, c', s') \<and> loading L' cur' c' \<and> same_opts c c' \<and>
     s' = update (siphash_init sk) (int_bytes (join_clauses L'))"
proof (induction ls arbitrary: L cur c s)
  case Nil
  then show ?case by simp
next
  case (Cons l ls)
  obtain L1 cur1 where L1: "load_lit (L, cur) l = (L1, cur1)" by fastforce
  have len: "length L < 2 ^ 30 - 1" "length cur < 2 ^ 30 - 1"
    using Cons.prems(4) length_join [of L] by simp_all
  have "in_range c (l # cur)" using Cons.prems(2) by (simp add: in_range_def)
  from loading_step [OF Cons.prems(1) this Cons.prems(3) len Cons.prems(5) L1]
  obtain c1 s1 where c1: "lrat_check_load l c s = Some (True, c1, s1)" "loading L1 cur1 c1"
    "same_opts c c1" "s1 = update (siphash_init sk) (int_bytes (join_clauses L1))"
    by blast
  have eq: "join_clauses L1 @ cur1 @ ls = join_clauses L @ cur @ l # ls"
    "set cur1 \<subseteq> insert l (set cur)" "0 \<notin> set cur1"
    using L1 Cons.prems(3) by (auto simp: join_clauses_snoc split: if_splits)
  have rng: "in_range c1 (cur1 @ ls)"
    using in_range_opts [OF c1(3)] Cons.prems(2) eq(2) by (auto simp: in_range_def)
  have "length (join_clauses L1 @ cur1 @ ls) < 2 ^ 30 - 1" using Cons.prems(4) unfolding eq(1) .
  moreover have "foldl load_lit (L1, cur1) ls = (L', cur')" using Cons.prems(6) L1 by simp
  ultimately obtain c' s' where "load_all ls c1 s1 = Some (True, c', s')" "loading L' cur' c'"
    "same_opts c1 c'" "s' = update (siphash_init sk) (int_bytes (join_clauses L'))"
    using Cons.IH [OF c1(2) rng eq(3) _ c1(4)] by blast
  with c1(1,3) show ?case by (auto intro: same_opts_trans)
qed

subsection \<open>The end of the formula and its validation\<close>

lemma end_load_spec:
  assumes l: "loading L [] c" and s: "s = update (siphash_init sk) m"
  shows "\<exists>s'. lrat_check_end_load c s =
    Some (Some (siphash128 sk (m @ [0, 0])),
      c\<lparr>done_loading := True, nb_loaded_clauses := of_nat (length L)\<rparr>, s') \<and> kk s' = sk"
proof -
  have "siphash_pad s 2 = Some (update (siphash_init sk) (m @ [0, 0]))"
    using siphash_pad_eq [of s 2] by (simp add: s update_append numeral_2_eq_2)
  moreover obtain t where "siphash_digest (update (siphash_init sk) (m @ [0, 0])) =
      Some (siphash128 sk (m @ [0, 0]), t)" "kk t = sk"
    using digest_spec by blast
  ultimately show ?thesis
    using l by (simp add: lrat_check_end_load_def loading_def)
qed

lemma original_ids_set:
  "nb_loaded_clauses c = of_nat n \<Longrightarrow> n < 2 ^ 64 \<Longrightarrow> set (original_ids c) = (\<lambda>i. of_nat (Suc i)) ` {..<n}"
proof -
  assume "nb_loaded_clauses c = of_nat n" "n < 2 ^ 64"
  then have "original_ids c = map of_nat [1..<Suc n]"
    by (simp add: original_ids_def unat_of_nat_small)
  also have "[1..<Suc n] = map Suc [0..<n]" by (simp add: map_Suc_upt)
  finally show ?thesis by (simp add: lessThan_atLeast0 image_image)
qed

text \<open>A validated model satisfies every clause of the loaded formula.\<close>

lemma validate_sat_spec:
  assumes inv: "ck_inv F c" and h: "holds L c" and nb: "nb_loaded_clauses c = of_nat (length L)"
    and len: "length L < 2 ^ 64" and nz: "\<forall>C \<in> set L. 0 \<notin> set C"
  shows "\<exists>ok m' c'. lrat_check_validate_sat m c = Some (ok, m', c') \<and> ck_inv F c' \<and> same_ctl c c' \<and>
    ht_map (clause_table c') = ht_map (clause_table c) \<and> completes m m' \<and>
    (ok \<longrightarrow> done_loading c \<and> check_model c \<and> (\<forall>C \<in> set L. clause_true (model_val m') C))"
proof -
  have db: "db_ok c" and cl: "clean c" using inv by (auto simp: ck_inv_def)
  have ht: "ht_inv (clause_table c)" using inv by simp
  obtain ok m' c' where r: "sat_clauses (original_ids c) m c = Some (ok, m', c')" "same_db c c'"
    "var_values c' = var_values c" "assigned_units c' = assigned_units c" "completes m m'"
    "ok \<longrightarrow> (\<forall>k \<in> set (original_ids c). \<exists>cls. ht_map (clause_table c) k = Some cls \<and>
        clause_true (model_val m') (cls_lits cls))"
    using sat_clauses_spec [OF db] by blast
  have "clean c'" using cl r(3,4) by (simp add: clean_def)
  with r(2) inv have inv': "ck_inv F c'" using ck_inv_same by blast
  have "clause_true (model_val m') C" if ok "C \<in> set L" for C
  proof -
    from that(2) obtain i where i: "i < length L" "C = L ! i" by (metis in_set_conv_nth)
    then have "ht_map (clause_table c) (of_nat (Suc i)) = Some (clause_init C)"
      using h by (simp add: holds_def)
    moreover have "of_nat (Suc i) \<in> set (original_ids c)"
      using i original_ids_set [OF nb len] by blast
    ultimately have "clause_true (model_val m') (cls_lits (clause_init C))"
      using r(6) that(1) by fastforce
    moreover have "\<forall>l \<in> set C. l \<noteq> 0" using nz that(2) by metis
    ultimately show ?thesis by (simp add: cls_lits_init)
  qed
  with r inv' inv ht same_db_ctl [OF r(2)] show ?thesis
    by (cases "done_loading c"; cases "check_model c")
      (auto simp: lrat_check_validate_sat_def same_db_def same_ctl_def)
qed

text \<open>A total model that satisfies the loaded formula is accepted.\<close>

lemma validate_sat_complete:
  assumes inv: "ck_inv F c" and h: "holds L c" and nb: "nb_loaded_clauses c = of_nat (length L)"
    and len: "length L < 2 ^ 64" and nz: "\<forall>C \<in> set L. 0 \<notin> set C"
    and m: "total_model m" "\<forall>C \<in> set L. clause_true (model_val m) C"
    and vars: "\<forall>C \<in> set L. \<forall>l \<in> set C. nat (lit_var l - 1) < length m"
    and on: "done_loading c" "check_model c"
  shows "\<exists>c'. lrat_check_validate_sat m c = Some (True, m, c')"
proof -
  have db: "db_ok c" using inv by (simp add: ck_inv_def)
  have "\<exists>cls. ht_map (clause_table c) k = Some cls \<and> clause_true (model_val m) (cls_lits cls) \<and>
      (\<forall>l \<in> set (cls_lits cls). nat (lit_var l - 1) < length m)"
    if k: "k \<in> set (original_ids c)" for k
  proof -
    from k obtain i where i: "i < length L" "k = of_nat (Suc i)"
      using original_ids_set [OF nb len] by auto
    then have C: "L ! i \<in> set L" by simp
    then have "\<forall>l \<in> set (L ! i). l \<noteq> 0" using nz by metis
    then have "cls_lits (clause_init (L ! i)) = L ! i" by (rule cls_lits_init)
    with h i C m(2) vars show ?thesis by (auto simp: holds_def)
  qed
  with sat_clauses_total [OF db m(1)] on show ?thesis
    by (simp add: lrat_check_validate_sat_def)
qed

lemma clauses_equivalent_set:
  assumes "distinct (cls_lits a)" "clauses_equivalent a b"
  shows "set (cls_lits a) = set (cls_lits b)" and "distinct (cls_lits b)"
proof -
  from assms(2) have sub: "set (cls_lits a) \<subseteq> set (cls_lits b)"
    and len: "length (cls_lits a) = length (cls_lits b)"
    by (auto simp: clauses_equivalent_def list_all_iff)
  have "card (set (cls_lits b)) \<le> card (set (cls_lits a))"
    using len card_length [of "cls_lits b"] distinct_card [OF assms(1)] by simp
  then show eq: "set (cls_lits a) = set (cls_lits b)"
    using sub by (intro card_seteq) auto
  show "distinct (cls_lits b)"
    using eq len distinct_card [OF assms(1)] by (metis card_distinct)
qed


section \<open>Clauses with a literal 0, and repeated literals\<close>

definition zero_checker :: checker where
  "zero_checker = checker_globals\<lparr>clause_table := hash_table_init 2, var_values := replicate 3 0\<rparr>"

text \<open>
  A literal 0 inside a derived clause is unsound. The formula (1 or 2) and (not 1) is
  satisfiable, but the derivation of \<open>[1, 0, 2]\<close> from its first clause is accepted, because all
  three entries are assumed false, while later hints only see the literal before the 0, so that
  the empty clause can be derived. Nothing in the code refuses such a clause.
\<close>

theorem zero_literal_unsound:
  "map_option (\<lambda>(a, b, c). (a, b, unsat_proven c))
     (do { (_, c) \<leftarrow> lrat_check_add_axiomatic_clause 1 [1, 2] zero_checker;
           (_, c) \<leftarrow> lrat_check_add_axiomatic_clause 2 [-1] c;
           (a, c) \<leftarrow> lrat_check_add_clause 3 [1, 0, 2] [1] c;
           (b, c) \<leftarrow> lrat_check_add_clause 4 [] [3, 2] c;
           Some (a, b, c) }) = Some (True, True, True) \<and>
   models (\<lambda>x. x = 2) {[1, 2], [-1]}"
  (is "?run = _ \<and> _")
proof
  show "?run = Some (True, True, True)" by code_simp
  show "models (\<lambda>x. x = 2) {[1, 2], [-1]}" by (simp add: models_def clause_true_def lit_true_def)
qed

text \<open>
  The comparison of clauses in lenient mode. For a clause without repeated literals it
  decides whether both have the same literals; with a repeated literal it also accepts different
  clauses, such as (1 or 1) for (1 or 2).
\<close>

theorem clauses_equivalent_iff:
  "(distinct (cls_lits a) \<longrightarrow>
      clauses_equivalent a b = (distinct (cls_lits b) \<and> set (cls_lits a) = set (cls_lits b))) \<and>
   clauses_equivalent [1, 1, 0] [1, 2, 0]"
proof (intro conjI impI)
  assume d: "distinct (cls_lits a)"
  show "clauses_equivalent a b = (distinct (cls_lits b) \<and> set (cls_lits a) = set (cls_lits b))"
  proof
    assume "clauses_equivalent a b"
    with clauses_equivalent_set [OF d] show "distinct (cls_lits b) \<and> set (cls_lits a) = set (cls_lits b)"
      by blast
  next
    assume "distinct (cls_lits b) \<and> set (cls_lits a) = set (cls_lits b)"
    with d show "clauses_equivalent a b"
      by (auto simp: clauses_equivalent_def list_all_iff distinct_card [symmetric])
  qed
next
  show "clauses_equivalent [1, 1, 0] [1, 2, 0]" by (simp add: clauses_equivalent_def cls_lits_def)
qed

theorem clauses_equivalent_iff_witness:
  "clauses_equivalent [1, 2, 0] [2, 1, 0] =
     (distinct (cls_lits [2, 1, 0]) \<and> set (cls_lits [1, 2, 0]) = set (cls_lits [2, 1, 0]))"
  using clauses_equivalent_iff [of "[1, 2, 0]" "[2, 1, 0]"] by (simp add: cls_lits_def)

end
