(* ===== verification/Imp_Top.thy ===== *)
theory Imp_Top
  imports Imp_Valid Imp_Utils
begin

text \<open>
  The checker process of ImpCheck: \<open>top_check.c\<close> and \<open>confirm.c\<close> combine the proof checker with
  the signatures, and \<open>trusted_checker.c\<close> reads directives from one pipe and answers on another
  (\<open>checker_interface.h\<close>). The globals of these files are the record \<open>tc\<close>. Using the checker
  before the first INIT directive dereferences null pointers and is \<open>None\<close>.
\<close>

section \<open>State\<close>

record tc =
  chk :: checker
  hasher :: sip
  formula_signature :: bytes
  valid :: bool
  buf_sig :: bytes
  started :: bool

definition tc_start :: tc where
  "tc_start = \<lparr>chk = checker_globals, hasher = siphash_init SECRET_KEY, formula_signature = replicate 16 0,
     valid = True, buf_sig = replicate 16 0, started = False\<rparr>"

section \<open>Signatures (top_check.c, confirm.c)\<close>

definition compute_clause_signature :: "u64 \<Rightarrow> lit list \<Rightarrow> bytes \<Rightarrow> sip \<Rightarrow> (bytes \<times> sip) option" where
  "compute_clause_signature cid lits fsig s =
     do {
       let s = siphash_reset s;
       s \<leftarrow> siphash_update s (U64TO8_LE cid) 8;
       s \<leftarrow> siphash_update s (int_bytes lits) (of_nat (length lits * 4));
       s \<leftarrow> siphash_update s fsig (of_nat SIG_SIZE_BYTES);
       siphash_digest s
     }"

definition confirm_result :: "bytes \<Rightarrow> u8 \<Rightarrow> sip \<Rightarrow> (bytes \<times> sip) option" where
  "confirm_result f_sig constant s =
     do {
       let s = siphash_reset s;
       s \<leftarrow> siphash_update s f_sig (of_nat SIG_SIZE_BYTES);
       s \<leftarrow> siphash_update s [constant] 1;
       siphash_digest s
     }"

section \<open>Operations (top_check.c)\<close>

definition top_check_init :: "int \<Rightarrow> bool \<Rightarrow> bool \<Rightarrow> tc \<Rightarrow> tc" where
  "top_check_init nb_vars opt_check_model opt_lenient t =
     t\<lparr>hasher := siphash_init SECRET_KEY, chk := lrat_check_init nb_vars opt_check_model opt_lenient (chk t),
       started := True\<rparr>"

definition top_check_commit_formula_sig :: "bytes \<Rightarrow> tc \<Rightarrow> tc" where
  "top_check_commit_formula_sig f_sig t = t\<lparr>formula_signature := f_sig\<rparr>"

definition top_check_load :: "lit \<Rightarrow> tc \<Rightarrow> tc option" where
  "top_check_load l t =
     do { (ok, c, s) \<leftarrow> lrat_check_load l (chk t) (hasher t);
          Some (t\<lparr>chk := c, hasher := s, valid := (valid t \<and> ok)\<rparr>) }"

definition top_check_end_load :: "tc \<Rightarrow> (bool \<times> tc) option" where
  "top_check_end_load t =
     (if \<not> valid t then Some (False, t)
      else do {
        (sig, c, s) \<leftarrow> lrat_check_end_load (chk t) (hasher t);
        let t = t\<lparr>chk := c, hasher := s\<rparr>;
        case sig of
          None \<Rightarrow> Some (False, t\<lparr>valid := False\<rparr>)
        | Some sig_from_chk \<Rightarrow>
            do {
              eq \<leftarrow> trusted_utils_equal_signatures sig_from_chk (formula_signature t);
              let t = t\<lparr>valid := eq\<rparr>;
              let t = (if \<not> eq then t\<lparr>chk := chk t\<lparr>msgstr := Some Formula_Signature_Failed\<rparr>\<rparr> else t);
              Some (eq, t)
            }
      })"

text \<open>\<open>share\<close>: the caller passed a buffer for the signature; it is only written on success.\<close>

definition top_check_produce :: "u64 \<Rightarrow> lit list \<Rightarrow> u64 list \<Rightarrow> bool \<Rightarrow> tc \<Rightarrow> (bool \<times> tc) option" where
  "top_check_produce cid literals hints share t =
     do {
       (ok, c) \<leftarrow> lrat_check_add_clause cid literals hints (chk t);
       let t = t\<lparr>chk := c, valid := (valid t \<and> ok)\<rparr>;
       if \<not> valid t then Some (False, t)
       else if share then
         do { (sig, s) \<leftarrow> compute_clause_signature cid literals (formula_signature t) (hasher t);
              Some (True, t\<lparr>hasher := s, buf_sig := sig\<rparr>) }
       else Some (True, t)
     }"

definition top_check_import :: "u64 \<Rightarrow> lit list \<Rightarrow> bytes \<Rightarrow> tc \<Rightarrow> (bool \<times> tc) option" where
  "top_check_import cid literals signature_data t =
     do {
       (computed_sig, s) \<leftarrow> compute_clause_signature cid literals (formula_signature t) (hasher t);
       let t = t\<lparr>hasher := s\<rparr>;
       eq \<leftarrow> trusted_utils_equal_signatures signature_data computed_sig;
       if \<not> eq then
         Some (False, t\<lparr>valid := False, chk := chk t\<lparr>msgstr := Some (Clause_Signature_Failed cid)\<rparr>\<rparr>)
       else do {
         (ok, c) \<leftarrow> lrat_check_add_axiomatic_clause cid literals (chk t);
         Some (valid t \<and> ok, t\<lparr>chk := c, valid := (valid t \<and> ok)\<rparr>)
       }
     }"

definition top_check_delete :: "u64 list \<Rightarrow> tc \<Rightarrow> (bool \<times> tc) option" where
  "top_check_delete ids t =
     do { (ok, c) \<leftarrow> lrat_check_delete_clause ids (chk t); Some (ok, t\<lparr>chk := c\<rparr>) }"

definition top_check_validate_unsat :: "tc \<Rightarrow> (bool \<times> tc) option" where
  "top_check_validate_unsat t =
     (let (ok, c) = lrat_check_validate_unsat (chk t);
          t = t\<lparr>chk := c, valid := (valid t \<and> ok)\<rparr>
      in if \<not> valid t then Some (False, t)
         else do { (sig, s) \<leftarrow> confirm_result (formula_signature t) 20 (hasher t);
                   Some (True, t\<lparr>hasher := s, buf_sig := sig\<rparr>) })"

definition top_check_validate_sat :: "int list \<Rightarrow> tc \<Rightarrow> (bool \<times> tc) option" where
  "top_check_validate_sat model t =
     do {
       (ok, model, c) \<leftarrow> lrat_check_validate_sat model (chk t);
       let t = t\<lparr>chk := c, valid := (valid t \<and> ok)\<rparr>;
       if \<not> valid t then Some (False, t)
       else do { (sig, s) \<leftarrow> confirm_result (formula_signature t) 10 (hasher t);
                 Some (True, t\<lparr>hasher := s, buf_sig := sig\<rparr>) }
     }"

section \<open>Directives (trusted_checker.c)\<close>

datatype directive =
    Init int bytes
  | Load "lit list"
  | End_Load
  | Produce u64 "lit list" "u64 list" bool
  | Import u64 "lit list" bytes
  | Delete "u64 list"
  | Validate_Unsat
  | Validate_Sat "int list"
  | Terminate

text \<open>\<open>say\<close>: the answer \<open>A\<close> (accept) or \<open>E\<close> (error).\<close>

definition say :: "bool \<Rightarrow> bytes" where
  "say ok = [if ok then 65 else 69]"

fun load_literals :: "lit list \<Rightarrow> tc \<Rightarrow> tc option" where
  "load_literals [] t = Some t"
| "load_literals (l # ls) t = do { t \<leftarrow> top_check_load l t; load_literals ls t }"

text \<open>Which directives dereference the pointers that INIT sets.\<close>

fun needs_init :: "directive \<Rightarrow> bool" where
  "needs_init (Load lits) = (lits \<noteq> [])"
| "needs_init End_Load = True"
| "needs_init (Produce cid lits hints share) = True"
| "needs_init (Import cid lits sig) = True"
| "needs_init (Delete ids) = (ids \<noteq> [])"
| "needs_init _ = False"

text \<open>
  One round of the loop of \<open>tc_run\<close>: the bytes answered and the new state. With
  \<open>nb_vars < -1\<close> the allocation of \<open>nb_vars + 1\<close> cells fails and the process exits; for the
  largest \<open>int\<close> the sum overflows.
\<close>

definition tc_step :: "bool \<Rightarrow> bool \<Rightarrow> directive \<Rightarrow> tc \<Rightarrow> (bytes \<times> tc) option" where
  "tc_step opt_check_model opt_lenient d t =
     (if needs_init d \<and> \<not> started t then None
      else case d of
        Produce cid lits hints share \<Rightarrow>
          do { (res, t) \<leftarrow> top_check_produce cid lits hints share t;
               Some (say res @ (if share then trusted_utils_write_sig (buf_sig t) else []), t) }
      | Import cid lits sig \<Rightarrow>
          do { let t = t\<lparr>buf_sig := sig\<rparr>;
               (res, t) \<leftarrow> top_check_import cid lits (buf_sig t) t; Some (say res, t) }
      | Delete ids \<Rightarrow> do { (res, t) \<leftarrow> top_check_delete ids t; Some (say res, t) }
      | Load lits \<Rightarrow> do { t \<leftarrow> load_literals lits t; Some ([], t) }
      | Init nb_vars sig \<Rightarrow>
          if nb_vars < -1 \<or> nb_vars = 2 ^ 31 - 1 then None
          else Some (say True, top_check_commit_formula_sig sig (top_check_init nb_vars opt_check_model opt_lenient t))
      | End_Load \<Rightarrow> do { (res, t) \<leftarrow> top_check_end_load t; Some (say res, t) }
      | Validate_Unsat \<Rightarrow>
          do { (res, t) \<leftarrow> top_check_validate_unsat t;
               Some (say res @ trusted_utils_write_sig (buf_sig t), t) }
      | Validate_Sat model \<Rightarrow>
          do { (res, t) \<leftarrow> top_check_validate_sat model t;
               Some (say res @ trusted_utils_write_sig (buf_sig t), t) }
      | Terminate \<Rightarrow> Some (say True, t))"

fun tc_steps :: "bool \<Rightarrow> bool \<Rightarrow> directive list \<Rightarrow> tc \<Rightarrow> (bytes list \<times> tc) option" where
  "tc_steps opt_check_model opt_lenient [] t = Some ([], t)"
| "tc_steps opt_check_model opt_lenient (d # ds) t =
     do { (out, t) \<leftarrow> tc_step opt_check_model opt_lenient d t;
          (outs, t) \<leftarrow> tc_steps opt_check_model opt_lenient ds t;
          Some (out # outs, t) }"

subsection \<open>The byte stream\<close>

text \<open>
  Reading one directive: \<open>Exit\<close> when the stream ends, or when a count is negative (the
  allocation for it fails, which exits too).
\<close>

datatype parsed = Exit | Invalid | Directive directive bytes

definition or_exit :: "(directive \<times> bytes) option \<Rightarrow> parsed" where
  "or_exit r = (case r of None \<Rightarrow> Exit | Some (d, rest) \<Rightarrow> Directive d rest)"

definition read_count :: "bytes \<Rightarrow> (nat \<times> bytes) option" where
  "read_count input =
     do { (n, input) \<leftarrow> trusted_utils_read_int input; if n < 0 then None else Some (nat n, input) }"

definition read_literals :: "bytes \<Rightarrow> (int list \<times> bytes) option" where
  "read_literals input = do { (n, input) \<leftarrow> read_count input; trusted_utils_read_ints n input }"

definition read_hints :: "bytes \<Rightarrow> (u64 list \<times> bytes) option" where
  "read_hints input = do { (n, input) \<leftarrow> read_count input; trusted_utils_read_uls n input }"

definition parse_directive :: "bytes \<Rightarrow> parsed" where
  "parse_directive input =
     (case trusted_utils_read_char input of
        None \<Rightarrow> Exit
      | Some (c, input) \<Rightarrow>
          if c = 97 then or_exit (do {
            (cid, input) \<leftarrow> trusted_utils_read_ul input;
            (lits, input) \<leftarrow> read_literals input;
            (hints, input) \<leftarrow> read_hints input;
            (share, input) \<leftarrow> trusted_utils_read_bool input;
            Some (Produce cid lits hints share, input) })
          else if c = 105 then or_exit (do {
            (cid, input) \<leftarrow> trusted_utils_read_ul input;
            (lits, input) \<leftarrow> read_literals input;
            (sig, input) \<leftarrow> trusted_utils_read_sig input;
            Some (Import cid lits sig, input) })
          else if c = 100 then or_exit (do {
            (ids, input) \<leftarrow> read_hints input; Some (Delete ids, input) })
          else if c = 76 then or_exit (do {
            (lits, input) \<leftarrow> read_literals input; Some (Load lits, input) })
          else if c = 66 then or_exit (do {
            (nb_vars, input) \<leftarrow> trusted_utils_read_int input;
            (sig, input) \<leftarrow> trusted_utils_read_sig input;
            Some (Init nb_vars sig, input) })
          else if c = 69 then Directive End_Load input
          else if c = 86 then Directive Validate_Unsat input
          else if c = 77 then or_exit (do {
            (model, input) \<leftarrow> read_literals input; Some (Validate_Sat model, input) })
          else if c = 84 then Directive Terminate input
          else Invalid)"

lemma read_count_length: "read_count input = Some (n, rest) \<Longrightarrow> length rest < length input"
  by (auto simp: read_count_def split: Option.bind_splits if_splits dest!: read_length)

lemma read_lists_length:
  "read_literals input = Some (xs, rest) \<Longrightarrow> length rest < length input"
  "read_hints input = Some (us, rest) \<Longrightarrow> length rest < length input"
  by (auto simp: read_literals_def read_hints_def split: Option.bind_splits
      dest!: read_count_length read_ints_length read_uls_length)

lemma or_exit_Directive: "or_exit r = Directive d rest \<longleftrightarrow> r = Some (d, rest)"
  by (cases r) (auto simp: or_exit_def)

lemma parse_directive_shorter:
  assumes "parse_directive input = Directive d rest"
  shows "length rest < length input"
proof -
  obtain c input' where c: "trusted_utils_read_char input = Some (c, input')"
    using assms by (cases "trusted_utils_read_char input") (auto simp: parse_directive_def)
  have "length rest \<le> length input'"
    using assms unfolding parse_directive_def c option.case prod.case
    by (simp only: or_exit_Directive split: if_splits)
      (auto dest!: read_length read_lists_length split: Option.bind_splits)
  with read_length(5) [OF c] show ?thesis by simp
qed

function tc_run :: "bool \<Rightarrow> bool \<Rightarrow> bytes \<Rightarrow> tc \<Rightarrow> (bytes \<times> tc) option" where
  "tc_run opt_check_model opt_lenient input t =
     (case parse_directive input of
        Exit \<Rightarrow> Some ([], t)
      | Invalid \<Rightarrow> Some ([], t)
      | Directive d rest \<Rightarrow>
          do {
            (out, t) \<leftarrow> tc_step opt_check_model opt_lenient d t;
            if d = Terminate then Some (out, t)
            else do { (outs, t) \<leftarrow> tc_run opt_check_model opt_lenient rest t; Some (out @ outs, t) }
          })"
  by pat_completeness auto
termination
  by (relation "measure (\<lambda>(cm, le, input, t). length input)") (auto dest: parse_directive_shorter)

declare tc_run.simps [simp del]

end
