(* ===== verification/Imp_Sound.thy ===== *)
theory Imp_Sound
  imports Imp_Top Imp_Rup
begin

text \<open>
  What an answer of the ImpCheck checker process means: the invariant of the process over
  arbitrary sequences of directives, soundness of an accepted UNSAT and SAT result, the agreement
  of the signatures that one checker issues and another accepts, and the byte-level protocol.
\<close>

section \<open>Signatures\<close>

definition clause_sig :: "u64 \<Rightarrow> lit list \<Rightarrow> bytes \<Rightarrow> bytes" where
  "clause_sig cid lits fsig = siphash128 SECRET_KEY (U64TO8_LE cid @ int_bytes lits @ fsig)"

definition result_sig :: "bytes \<Rightarrow> u8 \<Rightarrow> bytes" where
  "result_sig fsig code = siphash128 SECRET_KEY (fsig @ [code])"

definition formula_sig :: "lit list \<Rightarrow> bytes" where
  "formula_sig ls = siphash128 SECRET_KEY (int_bytes ls @ [0, 0])"

definition hasher_ok :: "sip \<Rightarrow> bool" where
  "hasher_ok s = (kk s = SECRET_KEY \<and> sip_ok s)"

lemma hasher_init [simp]: "hasher_ok (siphash_init SECRET_KEY)"
  by (simp add: hasher_ok_def)

lemma hasher_update [simp]: "hasher_ok s \<Longrightarrow> hasher_ok (update s m)"
  by (simp add: hasher_ok_def sip_ok_update)

lemma hasher_less: "hasher_ok s \<Longrightarrow> length (sbuf s) < 8"
  by (simp add: hasher_ok_def sip_ok_less)

lemma length_siphash128 [simp]: "length (siphash128 k m) = 16"
  by (simp add: siphash128_def Let_def)

lemma digest_update:
  "\<exists>t. siphash_digest (update (siphash_init SECRET_KEY) m) = Some (siphash128 SECRET_KEY m, t) \<and> hasher_ok t"
proof -
  obtain t where t: "siphash_digest (update (siphash_init SECRET_KEY) m) = Some (siphash128 SECRET_KEY m, t)"
    "kk t = SECRET_KEY"
    using digest_spec by blast
  moreover have "sip_ok t"
    using digest_frame [OF t(1)] sip_ok_update [of "siphash_init SECRET_KEY" m] by (simp add: sip_ok_def)
  ultimately show ?thesis by (auto simp: hasher_ok_def)
qed

lemma compute_clause_signature_spec:
  assumes "hasher_ok s" "length lits < 2 ^ 30" "length fsig = 16"
  shows "\<exists>s'. compute_clause_signature cid lits fsig s = Some (clause_sig cid lits fsig, s') \<and> hasher_ok s'"
proof -
  let ?s0 = "siphash_init SECRET_KEY"
  have 0: "siphash_reset s = ?s0" using assms(1) by (simp add: siphash_reset_init hasher_ok_def)
  have 1: "siphash_update ?s0 (U64TO8_LE cid) 8 = Some (update ?s0 (U64TO8_LE cid))"
    using siphash_update_eq [of ?s0 "U64TO8_LE cid"] by simp
  have 2: "siphash_update (update ?s0 (U64TO8_LE cid)) (int_bytes lits) (of_nat (length lits * 4)) =
      Some (update ?s0 (U64TO8_LE cid @ int_bytes lits))"
    using siphash_update_ints [of "update ?s0 (U64TO8_LE cid)" lits] assms(2) by (simp add: update_append)
  have 3: "siphash_update (update ?s0 (U64TO8_LE cid @ int_bytes lits)) fsig (of_nat SIG_SIZE_BYTES) =
      Some (update ?s0 (U64TO8_LE cid @ int_bytes lits @ fsig))"
    using siphash_update_eq [of "update ?s0 (U64TO8_LE cid @ int_bytes lits)" fsig] assms(3)
    by (simp add: update_append SIG_SIZE_BYTES_def)
  show ?thesis
    using digest_update [of "U64TO8_LE cid @ int_bytes lits @ fsig"]
    by (simp add: compute_clause_signature_def 0 1 2 3 clause_sig_def Let_def del: of_nat_mult)
qed

lemma confirm_result_spec:
  assumes "hasher_ok s" "length fsig = 16"
  shows "\<exists>s'. confirm_result fsig code s = Some (result_sig fsig code, s') \<and> hasher_ok s'"
proof -
  let ?s0 = "siphash_init SECRET_KEY"
  have 0: "siphash_reset s = ?s0" using assms(1) by (simp add: siphash_reset_init hasher_ok_def)
  have 1: "siphash_update ?s0 fsig (of_nat SIG_SIZE_BYTES) = Some (update ?s0 fsig)"
    using siphash_update_eq [of ?s0 fsig] assms(2) by (simp add: SIG_SIZE_BYTES_def)
  have 2: "siphash_update (update ?s0 fsig) [code] 1 = Some (update ?s0 (fsig @ [code]))"
    using siphash_update_eq [of "update ?s0 fsig" "[code]"] by (simp add: update_append)
  show ?thesis
    using digest_update [of "fsig @ [code]"]
    by (simp add: confirm_result_def 0 1 2 result_sig_def Let_def)
qed

lemma length_sigs [simp]: "length (clause_sig cid lits fsig) = 16" "length (result_sig fsig code) = 16"
  by (simp_all add: clause_sig_def result_sig_def)

section \<open>The invariant of the process\<close>

text \<open>
  \<open>known xs I\<close>: the clauses of the literal stream \<open>xs\<close> that was loaded, and the imported
  clauses \<open>I\<close>. \<open>ok_directive n d\<close>: \<open>d\<close> is not INIT, its literals lie within the \<open>n\<close> cells of
  the variable table, and its clauses have no literal 0.
\<close>

definition known :: "lit list \<Rightarrow> lit list set \<Rightarrow> lit list set" where
  "known xs I = set (fst (split_stream xs)) \<union> I"

definition lits_within :: "nat \<Rightarrow> lit list \<Rightarrow> bool" where
  "lits_within n lits = (\<forall>l \<in> set lits. nat (lit_var l) < n)"

fun ok_directive :: "nat \<Rightarrow> directive \<Rightarrow> bool" where
  "ok_directive n (Init nb sig) = False"
| "ok_directive n (Load lits) = lits_within n lits"
| "ok_directive n (Produce cid lits hints share) =
     (lits_within n lits \<and> 0 \<notin> set lits \<and> length lits < 2 ^ 30)"
| "ok_directive n (Import cid lits sig) =
     (lits_within n lits \<and> 0 \<notin> set lits \<and> length lits < 2 ^ 30 \<and> length sig = 16)"
| "ok_directive n _ = True"

fun load_part :: "directive \<Rightarrow> lit list" where
  "load_part (Load lits) = lits"
| "load_part _ = []"

fun import_part :: "directive \<Rightarrow> lit list set" where
  "import_part (Import cid lits sig) = {lits}"
| "import_part _ = {}"

definition tc_inv :: "nat \<Rightarrow> lit list \<Rightarrow> lit list set \<Rightarrow> tc \<Rightarrow> bool" where
  "tc_inv n xs I t = (started t \<and> hasher_ok (hasher t) \<and> length (formula_signature t) = 16 \<and>
     length (buf_sig t) = 16 \<and> length (var_values (chk t)) = n \<and>
     ck_inv (if valid t then known xs I else {[]}) (chk t) \<and>
     in_range (chk t) (clause_to_add (chk t)) \<and> 0 \<notin> set (clause_to_add (chk t)) \<and>
     length (clause_to_add (chk t)) \<le> length xs \<and>
     (valid t \<longrightarrow> snd (split_stream xs) = clause_to_add (chk t)))"

lemma fst_load_lit: "set (fst p) \<subseteq> set (fst (load_lit p l))"
  by (cases p) auto

lemma known_mono: "I \<subseteq> J \<Longrightarrow> known xs I \<subseteq> known (xs @ ys) J"
proof (induction ys rule: rev_induct)
  case Nil
  then show ?case by (auto simp: known_def)
next
  case (snoc y ys)
  have "set (fst (split_stream (xs @ ys))) \<subseteq> set (fst (split_stream ((xs @ ys) @ [y])))"
    unfolding split_stream_snoc by (rule fst_load_lit)
  with snoc show ?case by (auto simp: known_def)
qed

lemma entails_bot: "entails {[]} C"
  by (simp add: entails_def models_def clause_true_def)

lemma ck_inv_bot: "ck_inv F c \<Longrightarrow> ck_inv {[]} c"
  by (simp add: ck_inv_def entails_bot) (simp add: models_def clause_true_def)

lemma in_range_within: "length (var_values c) = n \<Longrightarrow> in_range c lits = lits_within n lits"
  by (simp add: in_range_def lits_within_def)

text \<open>After an operation on the checker that kept its invariant; \<open>v\<close> is the new validity.\<close>

lemma tc_inv_keep:
  assumes t: "tc_inv n xs I t"
    and c: "ck_inv (if valid t then known xs I else {[]}) c'" "same_ctl (chk t) c'"
    and v: "v \<longrightarrow> valid t" and s: "hasher_ok s" and b: "length b = 16"
  shows "tc_inv n xs I (t\<lparr>chk := c', hasher := s, valid := v, buf_sig := b\<rparr>)"
proof -
  have "ck_inv (if v then known xs I else {[]}) c'"
    using v c(1) ck_inv_bot [OF c(1)] by (cases v) auto
  then show ?thesis
    using t c(2) s b v by (auto simp: tc_inv_def same_ctl_def in_range_def)
qed

text \<open>With \<open>check_model\<close> the clauses of the loaded formula stay in the table.\<close>

definition keeps :: "checker \<Rightarrow> checker \<Rightarrow> bool" where
  "keeps c c' = (same_ctl c c' \<and> (check_model c \<longrightarrow>
     (\<forall>k cls. k \<le> nb_loaded_clauses c \<and> ht_map (clause_table c) k = Some cls \<longrightarrow>
        ht_map (clause_table c') k = Some cls)))"

lemma keepsI:
  "same_ctl c c' \<Longrightarrow> (\<forall>k cls. ht_map (clause_table c) k = Some cls \<longrightarrow> ht_map (clause_table c') k = Some cls) \<Longrightarrow>
   keeps c c'"
  by (simp add: keeps_def)

lemma tc_inv_mono: "tc_inv n xs I t \<Longrightarrow> I \<subseteq> J \<Longrightarrow> tc_inv n xs J t"
  using ck_inv_mono [of "known xs I" "known xs J" "chk t"] known_mono [of I J xs "[]"]
  by (auto simp: tc_inv_def)

lemma delete_inv:
  assumes t: "tc_inv n xs I t"
  shows "\<exists>res t'. top_check_delete ids t = Some (res, t') \<and> tc_inv n xs I t' \<and>
    keeps (chk t) (chk t') \<and> formula_signature t' = formula_signature t \<and> valid t' = valid t"
proof -
  let ?F = "if valid t then known xs I else {[]}"
  have "ck_inv ?F (chk t)" using t by (simp add: tc_inv_def)
  then obtain ok c' where c: "lrat_check_delete_clause ids (chk t) = Some (ok, c')" "ck_inv ?F c'"
    "same_ctl (chk t) c'"
    "\<forall>k. check_model (chk t) \<and> k \<le> nb_loaded_clauses (chk t) \<longrightarrow>
       ht_map (clause_table c') k = ht_map (clause_table (chk t)) k"
    using delete_clause_spec by blast
  have "tc_inv n xs I (t\<lparr>chk := c', hasher := hasher t, valid := valid t, buf_sig := buf_sig t\<rparr>)"
    using t by (intro tc_inv_keep [OF t c(2,3)]) (simp_all add: tc_inv_def)
  then show ?thesis using c by (simp add: top_check_delete_def keeps_def)
qed

lemma produce_inv:
  assumes t: "tc_inv n xs I t" and d: "ok_directive n (Produce cid lits hints share)"
  shows "\<exists>res t'. top_check_produce cid lits hints share t = Some (res, t') \<and> tc_inv n xs I t' \<and>
    keeps (chk t) (chk t') \<and> res = valid t' \<and> formula_signature t' = formula_signature t \<and>
    (res \<longrightarrow> entails (known xs I) lits \<and> (share \<longrightarrow> buf_sig t' = clause_sig cid lits (formula_signature t)))"
proof -
  let ?F = "if valid t then known xs I else {[]}"
  have inv: "ck_inv ?F (chk t)" and n: "length (var_values (chk t)) = n"
    and h: "hasher_ok (hasher t)" "length (formula_signature t) = 16" "length (buf_sig t) = 16"
    using t by (simp_all add: tc_inv_def)
  have rng: "in_range (chk t) lits" using d in_range_within [OF n] by simp
  have nz: "\<forall>l \<in> set lits. l \<noteq> 0" using d by auto
  obtain ok c' where c: "lrat_check_add_clause cid lits hints (chk t) = Some (ok, c')" "ck_inv ?F c'"
    "same_ctl (chk t) c'" "ok \<longrightarrow> entails ?F lits"
    "\<forall>k cls. ht_map (clause_table (chk t)) k = Some cls \<longrightarrow> ht_map (clause_table c') k = Some cls"
    using add_clause_spec [OF inv rng nz] by blast
  define v where "v = (valid t \<and> ok)"
  have keep: "tc_inv n xs I (t\<lparr>chk := c', hasher := s, valid := v, buf_sig := b\<rparr>)"
    if "hasher_ok s" "length b = 16" for s b
    using that by (intro tc_inv_keep [OF t c(2,3)]) (simp_all add: v_def)
  obtain s' where s': "compute_clause_signature cid lits (formula_signature t) (hasher t) =
      Some (clause_sig cid lits (formula_signature t), s')" "hasher_ok s'"
    using compute_clause_signature_spec [OF h(1)] d h(2) by fastforce
  let ?t1 = "t\<lparr>chk := c', hasher := hasher t, valid := v, buf_sig := buf_sig t\<rparr>"
  let ?t2 = "t\<lparr>chk := c', hasher := s', valid := v, buf_sig := clause_sig cid lits (formula_signature t)\<rparr>"
  have "top_check_produce cid lits hints share t = Some (v, if v \<and> share then ?t2 else ?t1)"
    using c(1) s'(1) by (simp add: top_check_produce_def Let_def v_def)
  moreover have "tc_inv n xs I (if v \<and> share then ?t2 else ?t1)"
    by (rule if_both [where P = "tc_inv n xs I", OF keep [OF s'(2)] keep [OF h(1,3)]]) simp
  moreover have "entails (known xs I) lits" if v using c(4) that by (simp add: v_def)
  moreover have "keeps (chk t) c'" by (rule keepsI [OF c(3,5)])
  ultimately show ?thesis by auto
qed

lemma import_inv:
  assumes t: "tc_inv n xs I t" and d: "ok_directive n (Import cid lits sig)"
  shows "\<exists>res t'. top_check_import cid lits sig t = Some (res, t') \<and> tc_inv n xs (insert lits I) t' \<and>
    keeps (chk t) (chk t') \<and> res = valid t' \<and> formula_signature t' = formula_signature t \<and>
    (res \<longrightarrow> sig = clause_sig cid lits (formula_signature t))"
proof -
  let ?J = "insert lits I" and ?fs = "formula_signature t"
  let ?F = "if valid t then known xs ?J else {[]}"
  have t': "tc_inv n xs ?J t" by (rule tc_inv_mono [OF t]) auto
  then have inv: "ck_inv ?F (chk t)" and n: "length (var_values (chk t)) = n"
    and h: "hasher_ok (hasher t)" "length ?fs = 16" "length (buf_sig t) = 16"
    by (simp_all add: tc_inv_def)
  have rng: "in_range (chk t) lits" using d in_range_within [OF n] by simp
  have "\<forall>l \<in> set lits. l \<noteq> 0" using d by auto
  then have ent: "entails ?F (cls_lits (clause_init lits))"
    by (simp add: cls_lits_init entails_bot entails_member known_def)
  obtain s' where s': "compute_clause_signature cid lits ?fs (hasher t) = Some (clause_sig cid lits ?fs, s')"
    "hasher_ok s'"
    using compute_clause_signature_spec [OF h(1)] d h(2) by fastforce
  have eq: "trusted_utils_equal_signatures sig (clause_sig cid lits ?fs) = Some (sig = clause_sig cid lits ?fs)"
    using d by (intro equal_signatures_spec) auto
  obtain ok c' where c: "lrat_check_add_axiomatic_clause cid lits (chk t) = Some (ok, c')" "ck_inv ?F c'"
    "same_ctl (chk t) c'"
    "\<forall>k cls. ht_map (clause_table (chk t)) k = Some cls \<longrightarrow> ht_map (clause_table c') k = Some cls"
    using add_axiomatic_spec [OF inv rng ent] by blast
  let ?e = "(chk t)\<lparr>msgstr := Some (Clause_Signature_Failed cid)\<rparr>"
  show ?thesis
  proof (cases "sig = clause_sig cid lits ?fs")
    case False
    have "tc_inv n xs ?J (t\<lparr>chk := ?e, hasher := s', valid := False, buf_sig := buf_sig t\<rparr>)"
      using inv h s' by (intro tc_inv_keep [OF t']) simp_all
    moreover have "top_check_import cid lits sig t =
        Some (False, t\<lparr>chk := ?e, hasher := s', valid := False, buf_sig := buf_sig t\<rparr>)"
      using False s'(1) eq by (simp add: top_check_import_def Let_def)
    moreover have "keeps (chk t) ?e" by (rule keepsI) simp_all
    ultimately show ?thesis by auto
  next
    case True
    have "tc_inv n xs ?J (t\<lparr>chk := c', hasher := s', valid := valid t \<and> ok, buf_sig := buf_sig t\<rparr>)"
      using h s' by (intro tc_inv_keep [OF t' c(2,3)]) simp_all
    moreover have "top_check_import cid lits sig t = Some (valid t \<and> ok,
        t\<lparr>chk := c', hasher := s', valid := valid t \<and> ok, buf_sig := buf_sig t\<rparr>)"
      using True s'(1) eq c(1) by (simp add: top_check_import_def Let_def)
    moreover have "keeps (chk t) c'" by (rule keepsI [OF c(3,4)])
    ultimately show ?thesis using True by auto
  qed
qed

lemma validate_unsat_inv:
  assumes t: "tc_inv n xs I t"
  shows "\<exists>res t'. top_check_validate_unsat t = Some (res, t') \<and> tc_inv n xs I t' \<and>
    keeps (chk t) (chk t') \<and> res = valid t' \<and> formula_signature t' = formula_signature t \<and>
    (res \<longrightarrow> valid t \<and> unsat_proven (chk t) \<and> done_loading (chk t) \<and>
       buf_sig t' = result_sig (formula_signature t) 20)"
proof -
  let ?F = "if valid t then known xs I else {[]}" and ?fs = "formula_signature t"
  have inv: "ck_inv ?F (chk t)" and h: "hasher_ok (hasher t)" "length ?fs = 16" "length (buf_sig t) = 16"
    using t by (simp_all add: tc_inv_def)
  obtain ok c' where c: "lrat_check_validate_unsat (chk t) = (ok, c')" by fastforce
  then have c': "ck_inv ?F c'" "same_ctl (chk t) c'" "ok \<longrightarrow> unsat_proven (chk t) \<and> done_loading (chk t)"
    "keeps (chk t) c'"
    using inv by (auto simp: lrat_check_validate_unsat_def split: if_splits intro: keepsI)
  obtain s' where s': "confirm_result ?fs 20 (hasher t) = Some (result_sig ?fs 20, s')" "hasher_ok s'"
    using confirm_result_spec [OF h(1,2)] by blast
  define v where "v = (valid t \<and> ok)"
  have keep: "tc_inv n xs I (t\<lparr>chk := c', hasher := s, valid := v, buf_sig := b\<rparr>)"
    if "hasher_ok s" "length b = 16" for s b
    using that by (intro tc_inv_keep [OF t c'(1,2)]) (simp_all add: v_def)
  let ?t1 = "t\<lparr>chk := c', hasher := hasher t, valid := v, buf_sig := buf_sig t\<rparr>"
  let ?t2 = "t\<lparr>chk := c', hasher := s', valid := v, buf_sig := result_sig ?fs 20\<rparr>"
  have "top_check_validate_unsat t = Some (v, if v then ?t2 else ?t1)"
    using c s'(1) by (simp add: top_check_validate_unsat_def Let_def v_def)
  moreover have "tc_inv n xs I (if v then ?t2 else ?t1)"
    by (rule if_both [where P = "tc_inv n xs I", OF keep [OF s'(2)] keep [OF h(1,3)]]) simp
  ultimately show ?thesis using c'(3,4) v_def by auto
qed

lemma validate_sat_defined:
  assumes inv: "ck_inv F c"
  shows "\<exists>ok m' c'. lrat_check_validate_sat m c = Some (ok, m', c') \<and> ck_inv F c' \<and> same_ctl c c' \<and>
    ht_map (clause_table c') = ht_map (clause_table c)"
proof -
  have db: "db_ok c" and cl: "clean c" using inv by (auto simp: ck_inv_def)
  obtain ok m' c' where r: "sat_clauses (original_ids c) m c = Some (ok, m', c')" "same_db c c'"
    "var_values c' = var_values c" "assigned_units c' = assigned_units c"
    using sat_clauses_spec [OF db] by blast
  have "clean c'" using cl r(3,4) by (simp add: clean_def)
  with r(2) inv have "ck_inv F c'" using ck_inv_same by blast
  with r inv same_db_ctl [OF r(2)] show ?thesis
    by (auto simp: lrat_check_validate_sat_def same_db_def)
qed

lemma validate_sat_inv:
  assumes t: "tc_inv n xs I t"
  shows "\<exists>res t' ok m' c'. top_check_validate_sat m t = Some (res, t') \<and> tc_inv n xs I t' \<and>
    lrat_check_validate_sat m (chk t) = Some (ok, m', c') \<and> chk t' = c' \<and>
    keeps (chk t) (chk t') \<and> res = valid t' \<and> res = (valid t \<and> ok) \<and> formula_signature t' = formula_signature t \<and>
    (res \<longrightarrow> buf_sig t' = result_sig (formula_signature t) 10)"
proof -
  let ?F = "if valid t then known xs I else {[]}" and ?fs = "formula_signature t"
  have inv: "ck_inv ?F (chk t)" and h: "hasher_ok (hasher t)" "length ?fs = 16" "length (buf_sig t) = 16"
    using t by (simp_all add: tc_inv_def)
  obtain ok m' c' where c: "lrat_check_validate_sat m (chk t) = Some (ok, m', c')" "ck_inv ?F c'"
    "same_ctl (chk t) c'" "ht_map (clause_table c') = ht_map (clause_table (chk t))"
    using validate_sat_defined [OF inv] by blast
  obtain s' where s': "confirm_result ?fs 10 (hasher t) = Some (result_sig ?fs 10, s')" "hasher_ok s'"
    using confirm_result_spec [OF h(1,2)] by blast
  define v where "v = (valid t \<and> ok)"
  have keep: "tc_inv n xs I (t\<lparr>chk := c', hasher := s, valid := v, buf_sig := b\<rparr>)"
    if "hasher_ok s" "length b = 16" for s b
    using that by (intro tc_inv_keep [OF t c(2,3)]) (simp_all add: v_def)
  let ?t1 = "t\<lparr>chk := c', hasher := hasher t, valid := v, buf_sig := buf_sig t\<rparr>"
  let ?t2 = "t\<lparr>chk := c', hasher := s', valid := v, buf_sig := result_sig ?fs 10\<rparr>"
  have "top_check_validate_sat m t = Some (v, if v then ?t2 else ?t1)"
    using c(1) s'(1) by (simp add: top_check_validate_sat_def Let_def v_def)
  moreover have "tc_inv n xs I (if v then ?t2 else ?t1)"
    by (rule if_both [where P = "tc_inv n xs I", OF keep [OF s'(2)] keep [OF h(1,3)]]) simp
  moreover have "keeps (chk t) c'" using c(4) by (intro keepsI [OF c(3)]) simp
  ultimately show ?thesis using c(1) v_def by auto
qed


lemma load_inv:
  assumes t: "tc_inv n xs I t" and l: "nat (lit_var l) < n" and len: "length xs < 2 ^ 30 - 1"
  shows "\<exists>t'. top_check_load l t = Some t' \<and> tc_inv n (xs @ [l]) I t' \<and>
    formula_signature t' = formula_signature t"
proof -
  let ?c = "chk t" and ?F = "if valid t then known (xs @ [l]) I else {[]}"
  have inv0: "ck_inv (if valid t then known xs I else {[]}) ?c" using t by (simp add: tc_inv_def)
  have inv: "ck_inv ?F ?c"
    using inv0 ck_inv_mono [OF known_mono [of I I xs "[l]"]] by (cases "valid t") auto
  have n: "length (var_values ?c) = n" using t by (simp add: tc_inv_def)
  have cur: "in_range ?c (clause_to_add ?c)" "0 \<notin> set (clause_to_add ?c)"
    "length (clause_to_add ?c) \<le> length xs" using t by (simp_all add: tc_inv_def)
  obtain L cur where s: "split_stream xs = (L, cur)" by fastforce
  show ?thesis
  proof (cases "l = 0")
    case False
    have "in_range ?c [l]" using l n by (simp add: in_range_def)
    then show ?thesis
      using t inv False cur load_nonzero [OF False, of ?c "hasher t"] s
      by (simp add: top_check_load_def tc_inv_def split_stream_snoc in_range_def)
  next
    case True
    have "entails ?F (clause_to_add ?c)"
    proof (cases "valid t")
      case True
      with t s \<open>l = 0\<close> show ?thesis
        by (simp add: tc_inv_def known_def split_stream_snoc entails_member)
    qed (simp add: entails_bot)
    moreover have "length (sbuf (hasher t)) < 8" using t by (simp add: tc_inv_def hasher_less)
    ultimately obtain ok c' s' where r: "lrat_check_load 0 ?c (hasher t) = Some (ok, c', s')"
      "ck_inv ?F c'" "same_opts ?c c'" "clause_to_add c' = (if ok then [] else clause_to_add ?c)"
      "s' = (if ok then update (hasher t) (int_bytes (clause_to_add ?c @ [0])) else hasher t)"
      using load_zero_spec [OF inv cur(1,2)] cur(3) len by (metis (no_types, lifting) le_less_trans)
    have "ck_inv (if valid t \<and> ok then known (xs @ [l]) I else {[]}) c'"
      using r(2) ck_inv_bot [OF r(2)] by auto
    moreover have "in_range c' (clause_to_add c')"
      using r(4) cur(1) in_range_opts [OF r(3)] by (auto simp: in_range_def)
    moreover have "length (var_values c') = n" using r(3) n by (simp add: same_opts_def)
    moreover have "hasher_ok s'" using t r(5) by (auto simp: tc_inv_def)
    ultimately show ?thesis
      using t r(1,4) cur True s
      by (auto simp: top_check_load_def tc_inv_def split_stream_snoc)
  qed
qed

lemma load_literals_inv:
  "tc_inv n xs I t \<Longrightarrow> lits_within n ls \<Longrightarrow> length xs + length ls < 2 ^ 30 \<Longrightarrow>
   \<exists>t'. load_literals ls t = Some t' \<and> tc_inv n (xs @ ls) I t' \<and>
     formula_signature t' = formula_signature t"
proof (induction ls arbitrary: xs t)
  case Nil
  then show ?case by simp
next
  case (Cons l ls)
  obtain t1 where t1: "top_check_load l t = Some t1" "tc_inv n (xs @ [l]) I t1"
    "formula_signature t1 = formula_signature t"
    using load_inv [OF Cons.prems(1), of l] Cons.prems(2,3) by (auto simp: lits_within_def)
  with Cons.IH [OF t1(2)] Cons.prems(2,3) show ?case by (auto simp: lits_within_def)
qed

lemma end_load_inv:
  assumes t: "tc_inv n xs I t"
  shows "\<exists>res t'. top_check_end_load t = Some (res, t') \<and> tc_inv n xs I t' \<and>
    formula_signature t' = formula_signature t"
proof (cases "valid t")
  case False
  then show ?thesis using t by (auto simp: top_check_end_load_def)
next
  case v: True
  let ?c = "chk t" and ?s = "update (hasher t) [0, 0]"
  show ?thesis
  proof (cases "clause_to_add ?c = []")
    case False
    have "tc_inv n xs I (t\<lparr>chk := ?c\<lparr>msgstr := Some Literals_Left\<rparr>, hasher := hasher t, valid := False,
        buf_sig := buf_sig t\<rparr>)"
      using t by (intro tc_inv_keep [OF t]) (simp_all add: tc_inv_def)
    moreover have "top_check_end_load t = Some (False, t\<lparr>chk := ?c\<lparr>msgstr := Some Literals_Left\<rparr>,
        hasher := hasher t, valid := False, buf_sig := buf_sig t\<rparr>)"
      using v False by (simp add: top_check_end_load_def lrat_check_end_load_def)
    ultimately show ?thesis by auto
  next
    case True
    have h: "hasher_ok (hasher t)" using t by (simp add: tc_inv_def)
    then have pad: "siphash_pad (hasher t) 2 = Some ?s"
      using siphash_pad_eq [OF hasher_less, of "hasher t" 2] by (simp add: numeral_2_eq_2)
    have "sip_ok ?s" "kk ?s = SECRET_KEY" using h by (simp_all add: hasher_ok_def sip_ok_update)
    then obtain out s' where d: "siphash_digest ?s = Some (out, s')" "hasher_ok s'" "length out = 16"
      using digest_ok by (fastforce simp: hasher_ok_def)
    let ?c' = "?c\<lparr>done_loading := True, nb_loaded_clauses := id_to_add ?c - 1\<rparr>"
    let ?c'' = "?c'\<lparr>msgstr := Some Formula_Signature_Failed\<rparr>"
    define e where "e = (out = formula_signature t)"
    have "trusted_utils_equal_signatures out (formula_signature t) = Some e"
      using d(3) t by (simp add: e_def equal_signatures_spec tc_inv_def)
    then have run: "top_check_end_load t = Some (e, t\<lparr>chk := (if e then ?c' else ?c''), hasher := s', valid := e\<rparr>)"
      using v True pad d(1) by (simp add: top_check_end_load_def lrat_check_end_load_def)
    have "ck_inv (known xs I) (if e then ?c' else ?c'')"
      using t v by (simp add: tc_inv_def)
    then have "ck_inv (if e then known xs I else {[]}) (if e then ?c' else ?c'')"
      using ck_inv_bot by (cases e) auto
    then have "tc_inv n xs I (t\<lparr>chk := (if e then ?c' else ?c''), hasher := s', valid := e\<rparr>)"
      using t d(2) v by (cases e) (auto simp add: tc_inv_def in_range_def)
    with run show ?thesis by simp
  qed
qed


section \<open>Sequences of directives\<close>

lemma say_accept [simp]: "hd (say ok @ out) = 65 \<longleftrightarrow> ok" "hd (say ok) = 65 \<longleftrightarrow> ok"
  by (simp_all add: say_def)

lemma step_inv:
  assumes t: "tc_inv n xs I t" and d: "ok_directive n d" and len: "length (xs @ load_part d) < 2 ^ 30"
  shows "\<exists>out t'. tc_step cm le d t = Some (out, t') \<and>
    tc_inv n (xs @ load_part d) (I \<union> import_part d) t' \<and> formula_signature t' = formula_signature t"
proof -
  have st: "started t" using t by (simp add: tc_inv_def)
  show ?thesis
  proof (cases d)
    case (Import cid lits sig)
    have "tc_inv n xs I (t\<lparr>buf_sig := sig\<rparr>)" using t d Import by (simp add: tc_inv_def)
    from import_inv [OF this d [unfolded Import]] st Import show ?thesis
      by (auto simp: tc_step_def Let_def)
  next
    case (Load lits)
    then show ?thesis using load_literals_inv [OF t, of lits] d len st by (auto simp: tc_step_def)
  next
    case (Produce cid lits hints share)
    then show ?thesis
      using produce_inv [OF t d [unfolded Produce]] st by (fastforce simp: tc_step_def)
  next
    case End_Load
    then show ?thesis using end_load_inv [OF t] st by (auto simp: tc_step_def)
  next
    case (Delete ids)
    then show ?thesis using delete_inv [OF t, of ids] st by (auto simp: tc_step_def)
  next
    case Validate_Unsat
    then show ?thesis using validate_unsat_inv [OF t] by (auto simp: tc_step_def)
  next
    case (Validate_Sat m)
    then show ?thesis using validate_sat_inv [OF t, of m] by (auto simp: tc_step_def)
  qed (use t d in \<open>simp_all add: tc_step_def\<close>)
qed

definition loads :: "directive list \<Rightarrow> lit list" where
  "loads ds = concat (map load_part ds)"

definition imported :: "directive list \<Rightarrow> lit list set" where
  "imported ds = (\<Union>d \<in> set ds. import_part d)"

lemma loads_simps [simp]: "loads [] = []" "loads (d # ds) = load_part d @ loads ds"
    "loads (as @ bs) = loads as @ loads bs"
  and imported_simps [simp]: "imported [] = {}" "imported (d # ds) = import_part d \<union> imported ds"
    "imported (as @ bs) = imported as \<union> imported bs"
  by (auto simp: loads_def imported_def)

lemma steps_inv:
  "tc_inv n xs I t \<Longrightarrow> \<forall>d \<in> set ds. ok_directive n d \<Longrightarrow> length (xs @ loads ds) < 2 ^ 30 \<Longrightarrow>
   \<exists>outs t'. tc_steps cm le ds t = Some (outs, t') \<and> tc_inv n (xs @ loads ds) (I \<union> imported ds) t' \<and>
     formula_signature t' = formula_signature t \<and> length outs = length ds"
proof (induction ds arbitrary: xs I t)
  case Nil
  then show ?case by simp
next
  case (Cons d ds)
  have "length (xs @ load_part d) < 2 ^ 30" using Cons.prems(3) by simp
  with step_inv [OF Cons.prems(1)] Cons.prems(2) obtain out t1 where
    t1: "tc_step cm le d t = Some (out, t1)" "tc_inv n (xs @ load_part d) (I \<union> import_part d) t1"
    "formula_signature t1 = formula_signature t"
    by (metis list.set_intros(1))
  with Cons.IH [OF t1(2)] Cons.prems(2,3) show ?case by (auto simp: Un_assoc)
qed

lemma steps_append:
  "tc_steps cm le (as @ bs) t =
   do { (o1, t) \<leftarrow> tc_steps cm le as t; (o2, t) \<leftarrow> tc_steps cm le bs t; Some (o1 @ o2, t) }"
  by (induction as arbitrary: t) (auto simp: bind_assoc split: Option.bind_splits)

subsection \<open>INIT\<close>

definition after_init :: "bool \<Rightarrow> bool \<Rightarrow> int \<Rightarrow> bytes \<Rightarrow> tc" where
  "after_init cm le nb sig = top_check_commit_formula_sig sig (top_check_init nb cm le tc_start)"

lemma init_step:
  "0 \<le> nb \<Longrightarrow> nb < 2 ^ 31 - 1 \<Longrightarrow> tc_step cm le (Init nb sig) tc_start = Some (say True, after_init cm le nb sig)"
  by (simp add: tc_step_def after_init_def)

lemma loading_init:
  assumes "0 \<le> nb"
  shows "loading [] [] (chk (after_init cm le nb sig))"
proof -
  have "ht_inv (hash_table_init 16 :: lit list hash_table)"
    "ht_map (hash_table_init 16 :: lit list hash_table) = Map.empty"
    by (simp_all add: init_spec)
  then show ?thesis
    by (simp add: loading_def after_init_def top_check_commit_formula_sig_def top_check_init_def
        lrat_check_init_def checker_globals_def tc_start_def ck_inv_def db_ok_def clean_def holds_def)
qed

lemma after_init_fields:
  "hasher (after_init cm le nb sig) = siphash_init SECRET_KEY" "started (after_init cm le nb sig)"
  "valid (after_init cm le nb sig)" "formula_signature (after_init cm le nb sig) = sig"
  "buf_sig (after_init cm le nb sig) = replicate 16 0"
  "var_values (chk (after_init cm le nb sig)) = replicate (nat (nb + 1)) 0"
  "clause_to_add (chk (after_init cm le nb sig)) = []"
  "check_model (chk (after_init cm le nb sig)) = cm"
  by (simp_all add: after_init_def top_check_commit_formula_sig_def top_check_init_def
      lrat_check_init_def tc_start_def)

lemma init_inv:
  "0 \<le> nb \<Longrightarrow> length sig = 16 \<Longrightarrow> tc_inv (nat (nb + 1)) [] {} (after_init cm le nb sig)"
  using loading_init [of nb cm le sig]
  by (simp add: tc_inv_def after_init_fields loading_def known_def in_range_def)

subsection \<open>Soundness of UNSAT\<close>

definition session_ok :: "int \<Rightarrow> bytes \<Rightarrow> directive list \<Rightarrow> bool" where
  "session_ok nb sig ds = (0 \<le> nb \<and> nb < 2 ^ 31 - 1 \<and> length sig = 16 \<and>
     (\<forall>d \<in> set ds. ok_directive (nat (nb + 1)) d) \<and> length (loads ds) < 2 ^ 30)"

lemma session_run:
  assumes "session_ok nb sig ds"
  shows "\<exists>outs t. tc_steps cm le (Init nb sig # ds) tc_start = Some (outs, t) \<and>
    tc_inv (nat (nb + 1)) (loads ds) (imported ds) t \<and> formula_signature t = sig \<and>
    length outs = Suc (length ds)"
proof -
  have "tc_inv (nat (nb + 1)) [] {} (after_init cm le nb sig)"
    using assms init_inv by (simp add: session_ok_def)
  from steps_inv [OF this, of ds cm le] assms show ?thesis
    by (auto simp: session_ok_def init_step after_init_fields)
qed

subsection \<open>Loading a formula\<close>

lemma load_literals_all:
  "load_all ls (chk t) (hasher t) = Some (True, c', s') \<Longrightarrow>
   load_literals ls t = Some (t\<lparr>chk := c', hasher := s'\<rparr>)"
proof (induction ls arbitrary: t)
  case Nil
  then show ?case by simp
next
  case (Cons l ls)
  from Cons.prems obtain c1 s1 where 1: "lrat_check_load l (chk t) (hasher t) = Some (True, c1, s1)"
    "load_all ls c1 s1 = Some (True, c', s')"
    by (auto split: Option.bind_splits)
  have "load_literals ls (t\<lparr>chk := c1, hasher := s1\<rparr>) =
      Some (t\<lparr>chk := c1, hasher := s1\<rparr>\<lparr>chk := c', hasher := s'\<rparr>)"
    by (rule Cons.IH) (simp add: 1)
  then show ?case by (simp add: top_check_load_def 1)
qed

lemma load_literals_append:
  "load_literals (as @ bs) t = do { t \<leftarrow> load_literals as t; load_literals bs t }"
  by (induction as arbitrary: t) (auto split: Option.bind_splits)

lemma load_steps:
  "started t \<Longrightarrow> load_literals (concat chunks) t = Some t' \<Longrightarrow>
   tc_steps cm le (map Load chunks) t = Some (map (\<lambda>_. []) chunks, t')"
proof (induction chunks arbitrary: t)
  case Nil
  then show ?case by simp
next
  case (Cons ls chunks)
  from Cons.prems(2) obtain t1 where t1: "load_literals ls t = Some t1" "load_literals (concat chunks) t1 = Some t'"
    by (auto simp: load_literals_append split: Option.bind_splits)
  have "load_literals ls t = Some t1 \<Longrightarrow> started t1 = started t" for ls t t1
    by (induction ls arbitrary: t) (auto simp: top_check_load_def split: Option.bind_splits)
  with t1 Cons show ?case by (simp add: tc_step_def)
qed

lemma lits_within_chunks:
  "\<forall>C \<in> set chunks. lits_within n C \<Longrightarrow> lits_within n (concat chunks)"
  by (auto simp: lits_within_def)

text \<open>The state after the formula \<open>concat chunks\<close> is loaded.\<close>

lemma load_phase:
  assumes nb: "0 \<le> nb" "nb < 2 ^ 31 - 1" and ls: "lits_within (nat (nb + 1)) (concat chunks)"
    and len: "length (concat chunks) < 2 ^ 30 - 1"
    and s: "split_stream (concat chunks) = (L, cur)"
  shows "\<exists>t. tc_steps cm le (Init nb sig # map Load chunks) tc_start =
      Some (say True # map (\<lambda>_. []) chunks, t) \<and> loading L cur (chk t) \<and> check_model (chk t) = cm \<and>
    length (var_values (chk t)) = nat (nb + 1) \<and>
    hasher t = update (siphash_init SECRET_KEY) (int_bytes (join_clauses L)) \<and> valid t \<and> started t \<and>
    formula_signature t = sig \<and> buf_sig t = replicate 16 0"
proof -
  let ?t0 = "after_init cm le nb sig"
  have sip0: "siphash_init SECRET_KEY = update (siphash_init SECRET_KEY) (int_bytes (join_clauses []))"
    by (simp add: update_def int_bytes_def join_clauses_def)
  have "in_range (chk ?t0) ([] @ concat chunks)"
    using ls by (simp add: in_range_def lits_within_def after_init_fields)
  from load_all_spec [OF loading_init [OF nb(1)] this _ _ sip0, where L' = L and cur' = cur] len s
  obtain c' where c': "load_all (concat chunks) (chk ?t0) (siphash_init SECRET_KEY) =
      Some (True, c', update (siphash_init SECRET_KEY) (int_bytes (join_clauses L)))"
    "loading L cur c'" "same_opts (chk ?t0) c'"
    by (auto simp: join_clauses_def split_stream_def)
  have "tc_steps cm le (map Load chunks) ?t0 =
      Some (map (\<lambda>_. []) chunks,
        ?t0\<lparr>chk := c', hasher := update (siphash_init SECRET_KEY) (int_bytes (join_clauses L))\<rparr>)"
    using load_literals_all [of "concat chunks" ?t0] c'(1)
    by (intro load_steps) (simp_all add: after_init_fields)
  then show ?thesis
    using c' nb by (simp add: init_step after_init_fields same_opts_def)
qed

text \<open>
  C9. Loading and its signature. A formula sent in any division into LOAD directives is accepted
  by END_LOAD exactly if its last clause is terminated and the signature given with INIT is the
  keyed hash of the formula's literals with two bytes of padding.
\<close>

theorem end_load_accepts_iff:
  assumes "0 \<le> nb" "nb < 2 ^ 31 - 1" "length sig = 16"
    and "lits_within (nat (nb + 1)) (concat chunks)" "length (concat chunks) < 2 ^ 30 - 1"
  shows "\<exists>t. tc_steps cm le (Init nb sig # map Load chunks @ [End_Load]) tc_start =
    Some (say True # map (\<lambda>_. []) chunks @
      [say (snd (split_stream (concat chunks)) = [] \<and> sig = formula_sig (concat chunks))], t)"
proof -
  obtain L cur where s: "split_stream (concat chunks) = (L, cur)" by fastforce
  obtain t where t: "tc_steps cm le (Init nb sig # map Load chunks) tc_start =
      Some (say True # map (\<lambda>_. []) chunks, t)" "loading L cur (chk t)"
    "hasher t = update (siphash_init SECRET_KEY) (int_bytes (join_clauses L))" "valid t" "started t"
    "formula_signature t = sig"
    using load_phase [OF assms(1,2,4,5) s] by blast
  have "\<exists>t'. top_check_end_load t = Some (cur = [] \<and> sig = formula_sig (concat chunks), t')"
  proof (cases "cur = []")
    case False
    with t(2,4) show ?thesis
      by (simp add: top_check_end_load_def lrat_check_end_load_def loading_def)
  next
    case True
    have stream: "concat chunks = join_clauses L" using split_stream_spec [OF s] True by simp
    have "trusted_utils_equal_signatures (formula_sig (concat chunks)) sig =
        Some (sig = formula_sig (concat chunks))"
      using assms(3) by (auto simp: equal_signatures_spec formula_sig_def)
    with end_load_spec [OF t(2) [unfolded True] t(3)] t(4,6) True stream show ?thesis
      by (auto simp: top_check_end_load_def formula_sig_def Let_def)
  qed
  then show ?thesis
    using t(1,5) steps_append [of cm le "Init nb sig # map Load chunks" "[End_Load]" tc_start]
    by (auto simp: tc_step_def s)
qed

theorem end_load_accepts_iff_witness:
  "\<exists>t. tc_steps True False (Init 2 (formula_sig [1, -2, 0, 2, 0]) # map Load [[1, -2], [0, 2, 0]] @ [End_Load]) tc_start =
    Some (say True # map (\<lambda>_. []) [[1, -2], [0, 2, 0 :: int]] @
      [say (snd (split_stream (concat [[1, -2], [0, 2, 0]])) = [] \<and>
        formula_sig [1, -2, 0, 2, 0] = formula_sig (concat [[1, -2], [0, 2, 0]]))], t)"
  by (rule end_load_accepts_iff) (simp_all add: lits_within_def lit_var_def formula_sig_def)

subsection \<open>Sessions that follow the protocol\<close>

text \<open>
  After END_LOAD only derivations, imports, deletions and validations are sent. Then the loaded
  clauses stay where they are when models are to be checked.
\<close>

fun is_op :: "directive \<Rightarrow> bool" where
  "is_op (Init nb sig) = False"
| "is_op (Load lits) = False"
| "is_op End_Load = False"
| "is_op _ = True"

definition protocol :: "int \<Rightarrow> bytes \<Rightarrow> lit list list \<Rightarrow> directive list \<Rightarrow> directive list" where
  "protocol nb sig chunks ops = Init nb sig # map Load chunks @ End_Load # ops"

definition formula_of :: "lit list list \<Rightarrow> lit list list" where
  "formula_of chunks = fst (split_stream (concat chunks))"

definition serves :: "lit list list \<Rightarrow> checker \<Rightarrow> bool" where
  "serves L c = (holds L c \<and> nb_loaded_clauses c = of_nat (length L) \<and> done_loading c)"

lemma serves_keeps:
  assumes "serves L c" "keeps c c'" "check_model c" "length L < 2 ^ 64"
  shows "serves L c'" "check_model c'"
proof -
  have "of_nat (Suc i) \<le> nb_loaded_clauses c" if "i < length L" for i
    using that assms(1,4) by (simp add: serves_def word_le_nat_alt unat_of_nat_small del: of_nat_Suc)
  with assms show "serves L c'" "check_model c'"
    by (auto simp: serves_def holds_def keeps_def same_ctl_def simp del: of_nat_Suc)
qed


lemma op_step:
  assumes t: "tc_inv n xs I t" and d: "ok_directive n d" "is_op d"
  shows "\<exists>out t'. tc_step cm le d t = Some (out, t') \<and> tc_inv n xs (I \<union> import_part d) t' \<and>
    keeps (chk t) (chk t') \<and> formula_signature t' = formula_signature t"
proof -
  have st: "started t" using t by (simp add: tc_inv_def)
  show ?thesis
  proof (cases d)
    case (Import cid lits sig)
    have "tc_inv n xs I (t\<lparr>buf_sig := sig\<rparr>)" using t d(1) Import by (simp add: tc_inv_def)
    from import_inv [OF this d(1) [unfolded Import]] st Import show ?thesis
      by (auto simp: tc_step_def Let_def)
  next
    case (Produce cid lits hints share)
    then show ?thesis
      using produce_inv [OF t d(1) [unfolded Produce]] st by (fastforce simp: tc_step_def)
  next
    case (Delete ids)
    then show ?thesis using delete_inv [OF t, of ids] st by (auto simp: tc_step_def)
  next
    case Validate_Unsat
    then show ?thesis using validate_unsat_inv [OF t] by (auto simp: tc_step_def)
  next
    case (Validate_Sat m)
    then show ?thesis using validate_sat_inv [OF t, of m] by (auto simp: tc_step_def)
  next
    case Terminate
    then show ?thesis using t by (auto simp: tc_step_def keeps_def)
  qed (use d in simp_all)
qed

lemma ops_run:
  "tc_inv n xs I t \<Longrightarrow> serves L (chk t) \<Longrightarrow> check_model (chk t) \<Longrightarrow> length L < 2 ^ 64 \<Longrightarrow>
   \<forall>d \<in> set ds. ok_directive n d \<and> is_op d \<Longrightarrow>
   \<exists>outs t' J. tc_steps cm le ds t = Some (outs, t') \<and> tc_inv n xs J t' \<and> serves L (chk t') \<and>
     check_model (chk t') \<and> formula_signature t' = formula_signature t"
proof (induction ds arbitrary: I t)
  case Nil
  then show ?case by auto
next
  case (Cons d ds)
  obtain out t1 where t1: "tc_step cm le d t = Some (out, t1)" "tc_inv n xs (I \<union> import_part d) t1"
    "keeps (chk t) (chk t1)" "formula_signature t1 = formula_signature t"
    using op_step [OF Cons.prems(1)] Cons.prems(5) by (metis list.set_intros(1))
  have "serves L (chk t1)" "check_model (chk t1)"
    using serves_keeps [OF Cons.prems(2) t1(3) Cons.prems(3,4)] by auto
  from Cons.IH [OF t1(2) this Cons.prems(4)] Cons.prems(5) t1(1,4) show ?case by fastforce
qed

text \<open>The state after END_LOAD accepted the formula.\<close>

lemma accepted_formula:
  assumes nb: "0 \<le> nb" "nb < 2 ^ 31 - 1"
    and ls: "lits_within (nat (nb + 1)) (concat chunks)" "length (concat chunks) < 2 ^ 30 - 1"
    and s: "split_stream (concat chunks) = (L, [])" and sig: "sig = formula_sig (concat chunks)"
  shows "\<exists>t outs. tc_steps cm le (Init nb sig # map Load chunks @ [End_Load]) tc_start = Some (outs, t) \<and>
    tc_inv (nat (nb + 1)) (concat chunks) {} t \<and> serves L (chk t) \<and> check_model (chk t) = cm \<and>
    valid t \<and> formula_signature t = sig \<and> loading L [] (chk t) \<and> last outs = say True"
proof -
  obtain t where t: "tc_steps cm le (Init nb sig # map Load chunks) tc_start =
      Some (say True # map (\<lambda>_. []) chunks, t)" "loading L [] (chk t)" "check_model (chk t) = cm"
    "length (var_values (chk t)) = nat (nb + 1)"
    "hasher t = update (siphash_init SECRET_KEY) (int_bytes (join_clauses L))" "valid t" "started t"
    "formula_signature t = sig" "buf_sig t = replicate 16 0"
    using load_phase [OF nb ls s] by blast
  have stream: "concat chunks = join_clauses L" using split_stream_spec [OF s] by simp
  have len16: "length sig = 16" by (simp add: sig formula_sig_def)
  have inv: "tc_inv (nat (nb + 1)) (concat chunks) {} t"
    using t len16 s by (simp add: tc_inv_def loading_def known_def in_range_def)
  obtain s' where s': "lrat_check_end_load (chk t) (hasher t) = Some (Some sig,
      (chk t)\<lparr>done_loading := True, nb_loaded_clauses := of_nat (length L)\<rparr>, s')"
    using end_load_spec [OF t(2) t(5)] stream by (auto simp: sig formula_sig_def)
  let ?t' = "t\<lparr>chk := (chk t)\<lparr>done_loading := True, nb_loaded_clauses := of_nat (length L)\<rparr>, hasher := s'\<rparr>"
  have "trusted_utils_equal_signatures sig sig = Some True" using len16 by (simp add: equal_signatures_spec)
  then have e: "top_check_end_load t = Some (True, ?t')"
    using s' t(6,8) by (simp add: top_check_end_load_def)
  then have "tc_inv (nat (nb + 1)) (concat chunks) {} ?t'" using end_load_inv [OF inv] by simp
  moreover have "serves L (chk ?t')" using t(2) by (simp add: serves_def loading_def holds_def)
  moreover have "tc_steps cm le ((Init nb sig # map Load chunks) @ [End_Load]) tc_start =
      Some ((say True # map (\<lambda>_. []) chunks) @ [say True], ?t')"
    unfolding steps_append using t(1,7) e by (simp add: tc_step_def)
  moreover have "loading L [] (chk ?t')" using t(2) by (simp add: loading_def holds_def)
  moreover have "last ((say True # map (\<lambda>_. []) chunks) @ [say True]) = say True" by (rule last_snoc)
  ultimately show ?thesis using t(3,6,8) by fastforce
qed

definition protocol_ok :: "int \<Rightarrow> bytes \<Rightarrow> lit list list \<Rightarrow> directive list \<Rightarrow> bool" where
  "protocol_ok nb sig chunks ops = (0 \<le> nb \<and> nb < 2 ^ 31 - 1 \<and>
     lits_within (nat (nb + 1)) (concat chunks) \<and> length (concat chunks) < 2 ^ 30 - 1 \<and>
     snd (split_stream (concat chunks)) = [] \<and> sig = formula_sig (concat chunks) \<and>
     (\<forall>d \<in> set ops. ok_directive (nat (nb + 1)) d \<and> is_op d))"

lemma protocol_run:
  assumes "protocol_ok nb sig chunks ops"
  shows "\<exists>outs t J. tc_steps True le (protocol nb sig chunks ops) tc_start = Some (outs, t) \<and>
    tc_inv (nat (nb + 1)) (concat chunks) J t \<and> serves (formula_of chunks) (chk t) \<and>
    check_model (chk t) \<and> formula_signature t = sig \<and> (ops = [] \<longrightarrow> valid t)"
proof -
  let ?L = "formula_of chunks"
  have s: "split_stream (concat chunks) = (?L, [])"
    using assms by (simp add: protocol_ok_def formula_of_def prod_eq_iff)
  have len: "length ?L < 2 ^ 64"
    using length_join [of ?L] split_stream_spec [OF s] assms by (simp add: protocol_ok_def)
  obtain t outs where t: "tc_steps True le (Init nb sig # map Load chunks @ [End_Load]) tc_start = Some (outs, t)"
    "tc_inv (nat (nb + 1)) (concat chunks) {} t" "serves ?L (chk t)" "check_model (chk t)"
    "valid t" "formula_signature t = sig"
    using accepted_formula [of nb chunks ?L sig True le] s assms unfolding protocol_ok_def by blast
  obtain outs' t' J where t': "tc_steps True le ops t = Some (outs', t')"
    "tc_inv (nat (nb + 1)) (concat chunks) J t'" "serves ?L (chk t')" "check_model (chk t')"
    "formula_signature t' = formula_signature t"
    using ops_run [OF t(2-4) len] assms unfolding protocol_ok_def by blast
  have "protocol nb sig chunks ops = (Init nb sig # map Load chunks @ [End_Load]) @ ops"
    by (simp add: protocol_def)
  then have "tc_steps True le (protocol nb sig chunks ops) tc_start = Some (outs @ outs', t')"
    by (simp only: steps_append t(1) t'(1) Option.bind.bind_lunit prod.case)
  moreover have "ops = [] \<longrightarrow> valid t'" using t'(1) t(5) by auto
  ultimately show ?thesis using t' t(6) by auto
qed

lemma holds_nonzero: "C \<in> set (formula_of chunks) \<Longrightarrow> 0 \<notin> set C"
  by (cases "split_stream (concat chunks)") (auto simp: formula_of_def dest!: split_stream_spec)

text \<open>
  C3. Soundness of an accepted SAT answer. When the checker runs with model checking, the formula
  was loaded, and then derivations, imports, deletions and validations followed in any order, an
  accepted model satisfies every clause of the loaded formula, for some choice of the values that
  the model leaves open.
\<close>

theorem sat_answer_sound:
  assumes "protocol_ok nb sig chunks ops"
  shows "\<exists>outs t. tc_steps True le (protocol nb sig chunks (ops @ [Validate_Sat m])) tc_start = Some (outs, t) \<and>
    (hd (last outs) = 65 \<longrightarrow>
      (\<exists>m'. completes m m' \<and> (\<forall>C \<in> set (formula_of chunks). clause_true (model_val m') C)))"
proof -
  let ?L = "formula_of chunks"
  obtain outs t J where t: "tc_steps True le (protocol nb sig chunks ops) tc_start = Some (outs, t)"
    "tc_inv (nat (nb + 1)) (concat chunks) J t" "serves ?L (chk t)" "check_model (chk t)"
    using protocol_run [OF assms] by blast
  have s: "split_stream (concat chunks) = (?L, [])"
    using assms by (simp add: protocol_ok_def formula_of_def prod_eq_iff)
  have len: "length ?L < 2 ^ 64"
    using length_join [of ?L] split_stream_spec [OF s] assms by (simp add: protocol_ok_def)
  obtain res t' ok m' c' where v: "top_check_validate_sat m t = Some (res, t')"
    "lrat_check_validate_sat m (chk t) = Some (ok, m', c')" "res = (valid t \<and> ok)"
    using validate_sat_inv [OF t(2)] by blast
  have "ck_inv (if valid t then known (concat chunks) J else {[]}) (chk t)" using t(2) by (simp add: tc_inv_def)
  from validate_sat_spec [OF this, of ?L m] t(3) v(2) len holds_nonzero
  have "res \<longrightarrow> completes m m' \<and> (\<forall>C \<in> set ?L. clause_true (model_val m') C)"
    using v(3) by (auto simp: serves_def)
  moreover have "tc_steps True le (protocol nb sig chunks (ops @ [Validate_Sat m])) tc_start =
      Some (outs @ [say res @ trusted_utils_write_sig (buf_sig t')], t')"
    using t(1) v(1) steps_append [of True le "protocol nb sig chunks ops" "[Validate_Sat m]" tc_start]
    by (simp add: protocol_def tc_step_def)
  ultimately show ?thesis by auto
qed


lemma demo_protocol_ok:
  "protocol_ok 2 (formula_sig [1, -2, 0, 2, 0]) [[1, -2], [0, 2, 0]] [Produce 3 [1, 2] [2] False, Delete [1]]"
  "protocol_ok 2 (formula_sig [1, -2, 0, 2, 0]) [[1, -2], [0, 2, 0]] []"
  by (simp_all add: protocol_ok_def lits_within_def lit_var_def split_stream_def)

theorem sat_answer_sound_witness:
  "\<exists>outs t. tc_steps True False (protocol 2 (formula_sig [1, -2, 0, 2, 0]) [[1, -2], [0, 2, 0]]
      ([Produce 3 [1, 2] [2] False, Delete [1]] @ [Validate_Sat [1, 2]])) tc_start = Some (outs, t) \<and>
    (hd (last outs) = 65 \<longrightarrow> (\<exists>m'. completes [1, 2] m' \<and>
      (\<forall>C \<in> set (formula_of [[1, -2], [0, 2, 0]]). clause_true (model_val m') C)))"
  by (rule sat_answer_sound [OF demo_protocol_ok(1)])

text \<open>
  C10. Completeness of SAT validation. After a formula is loaded, a model that gives every
  variable of the formula a value and satisfies all its clauses is accepted, and the answer
  carries the keyed certificate for the result SATISFIABLE of this formula.
\<close>

theorem sat_answer_complete:
  assumes p: "protocol_ok nb sig chunks []"
    and m: "total_model m" "\<forall>C \<in> set (formula_of chunks). clause_true (model_val m) C"
    and vars: "\<forall>C \<in> set (formula_of chunks). \<forall>l \<in> set C. nat (lit_var l - 1) < length m"
  shows "\<exists>outs t. tc_steps True le (protocol nb sig chunks [Validate_Sat m]) tc_start =
    Some (outs @ [say True @ result_sig sig 10], t)"
proof -
  let ?L = "formula_of chunks"
  obtain outs t J where t: "tc_steps True le (protocol nb sig chunks []) tc_start = Some (outs, t)"
    "tc_inv (nat (nb + 1)) (concat chunks) J t" "serves ?L (chk t)" "check_model (chk t)"
    "formula_signature t = sig" "valid t"
    using protocol_run [OF p] by blast
  have s: "split_stream (concat chunks) = (?L, [])"
    using p by (simp add: protocol_ok_def formula_of_def prod_eq_iff)
  have len: "length ?L < 2 ^ 64"
    using length_join [of ?L] split_stream_spec [OF s] p by (simp add: protocol_ok_def)
  have inv: "ck_inv (known (concat chunks) J) (chk t)" using t(2,6) by (simp add: tc_inv_def)
  obtain c' where c': "lrat_check_validate_sat m (chk t) = Some (True, m, c')"
    using validate_sat_complete [OF inv _ _ len _ m vars] t(3,4) holds_nonzero by (auto simp: serves_def)
  obtain res t' where v: "top_check_validate_sat m t = Some (res, t')" "res = valid t'" "res = (valid t \<and> True)"
    "res \<longrightarrow> buf_sig t' = result_sig (formula_signature t) 10"
    using validate_sat_inv [OF t(2), of m] c' by auto
  have "tc_steps True le (protocol nb sig chunks [] @ [Validate_Sat m]) tc_start =
      Some (outs @ [say True @ result_sig sig 10], t')"
    unfolding steps_append using t v by (simp add: tc_step_def trusted_utils_write_sig_def)
  then show ?thesis by (simp add: protocol_def)
qed

theorem sat_answer_complete_witness:
  "\<exists>outs t. tc_steps True False (protocol 2 (formula_sig [1, -2, 0, 2, 0]) [[1, -2], [0, 2, 0]]
      [Validate_Sat [1, 2]]) tc_start =
    Some (outs @ [say True @ result_sig (formula_sig [1, -2, 0, 2, 0]) 10], t)"
proof -
  have f: "formula_of [[1, -2], [0, 2, 0]] = [[1, -2], [2]]"
    by (simp add: formula_of_def split_stream_def)
  show ?thesis
    by (rule sat_answer_complete [OF demo_protocol_ok(2)])
      (simp_all add: f total_model_def clause_true_def lit_true_def model_val_def lit_var_def less_Suc_eq)
qed

subsection \<open>Exchange of clauses\<close>

text \<open>
  C6. A derivation that is accepted is correct and its signature is the clause's. After any
  session within the conditions of \<open>session_ok\<close> (one INIT, no literal 0 inside derived or imported clauses, literals within the
  declared variables), if PRODUCE is answered with accept, the clause follows from the loaded and imported
  clauses, and a requested signature is the keyed hash of the id, the literals and the formula
  signature.
\<close>

theorem produce_answer_sound:
  assumes "session_ok nb sig (ds @ [Produce cid lits hints share])"
  shows "\<exists>outs t. tc_steps cm le (Init nb sig # ds @ [Produce cid lits hints share]) tc_start = Some (outs, t) \<and>
    (hd (last outs) = 65 \<longrightarrow>
      entails (set (fst (split_stream (loads ds))) \<union> imported ds) lits \<and>
      (share \<longrightarrow> last outs = say True @ clause_sig cid lits sig))"
proof -
  have ds: "session_ok nb sig ds" and d: "ok_directive (nat (nb + 1)) (Produce cid lits hints share)"
    using assms by (simp_all add: session_ok_def)
  obtain outs t where r: "tc_steps cm le (Init nb sig # ds) tc_start = Some (outs, t)"
    and t: "tc_inv (nat (nb + 1)) (loads ds) (imported ds) t" and fs: "formula_signature t = sig"
    using session_run [OF ds] by blast
  obtain res t' where v: "top_check_produce cid lits hints share t = Some (res, t')"
    "res \<longrightarrow> entails (known (loads ds) (imported ds)) lits \<and>
       (share \<longrightarrow> buf_sig t' = clause_sig cid lits (formula_signature t))"
    using produce_inv [OF t d] by blast
  have "started t" using t by (simp add: tc_inv_def)
  then have "tc_steps cm le ((Init nb sig # ds) @ [Produce cid lits hints share]) tc_start =
      Some (outs @ [say res @ (if share then trusted_utils_write_sig (buf_sig t') else [])], t')"
    unfolding steps_append using r v(1) by (simp add: tc_step_def)
  with v(2) fs show ?thesis
    by (auto simp: known_def trusted_utils_write_sig_def)
qed

theorem produce_answer_sound_witness:
  "\<exists>outs t. tc_steps False False (Init 2 (replicate 16 7) # [Load [1, 2, 0, -1, 0]] @ [Produce 3 [2] [2, 1] True])
      tc_start = Some (outs, t) \<and>
    (hd (last outs) = 65 \<longrightarrow>
      entails (set (fst (split_stream (loads [Load [1, 2, 0, -1, 0]]))) \<union> imported [Load [1, 2, 0, -1, 0]]) [2] \<and>
      (True \<longrightarrow> last outs = say True @ clause_sig 3 [2] (replicate 16 7)))"
  by (rule produce_answer_sound) (simp add: session_ok_def lits_within_def lit_var_def)

text \<open>
  C8. An import is accepted, after any session within the conditions of \<open>session_ok\<close>, only with the clause's own signature, and a
  valid checker accepts it then if the id is free and not 0. As the signature is the one that PRODUCE issues, a clause that one checker shares is accepted by every other checker of a formula with the same signature, and no other 16 bytes are.
\<close>

theorem import_answer_iff:
  assumes "session_ok nb sig (ds @ [Import cid lits s])"
  shows "\<exists>outs t out t'. tc_steps cm le (Init nb sig # ds) tc_start = Some (outs, t) \<and>
    tc_step cm le (Import cid lits s) t = Some (out, t') \<and>
    (out = say True \<longrightarrow> s = clause_sig cid lits sig) \<and>
    (valid t \<and> cid \<noteq> 0 \<and> ht_map (clause_table (chk t)) cid = None \<and> s = clause_sig cid lits sig \<longrightarrow>
       out = say True \<and> ht_map (clause_table (chk t')) cid = Some (clause_init lits))"
proof -
  have ds: "session_ok nb sig ds" and d: "ok_directive (nat (nb + 1)) (Import cid lits s)"
    using assms by (simp_all add: session_ok_def)
  obtain outs t where r: "tc_steps cm le (Init nb sig # ds) tc_start = Some (outs, t)"
    and t: "tc_inv (nat (nb + 1)) (loads ds) (imported ds) t" and fs: "formula_signature t = sig"
    using session_run [OF ds] by blast
  let ?t = "t\<lparr>buf_sig := s\<rparr>"
  have t2: "tc_inv (nat (nb + 1)) (loads ds) (imported ds) ?t" using t d by (simp add: tc_inv_def)
  obtain res t' where v: "top_check_import cid lits s ?t = Some (res, t')"
    "res \<longrightarrow> s = clause_sig cid lits (formula_signature ?t)"
    using import_inv [OF t2 d] by blast
  have "started t" using t by (simp add: tc_inv_def)
  then have step: "tc_step cm le (Import cid lits s) t = Some (say res, t')"
    using v(1) by (simp add: tc_step_def Let_def)
  have "res \<and> ht_map (clause_table (chk t')) cid = Some (clause_init lits)"
    if ok: "valid t" "cid \<noteq> 0" "ht_map (clause_table (chk t)) cid = None" "s = clause_sig cid lits sig"
  proof -
    have inv: "ck_inv {[]} (chk t)" using t ck_inv_bot by (auto simp: tc_inv_def)
    have "in_range (chk t) lits" using d t by (simp add: tc_inv_def in_range_within)
    from add_axiomatic_spec [OF inv this entails_bot, of cid] ok(2,3) obtain c' where
      c': "lrat_check_add_axiomatic_clause cid lits (chk t) = Some (True, c')"
      "ht_map (clause_table c') cid = Some (clause_init lits)" by auto
    obtain s' where "compute_clause_signature cid lits sig (hasher t) = Some (clause_sig cid lits sig, s')"
      using compute_clause_signature_spec [of "hasher t" lits sig cid] t d fs by (auto simp: tc_inv_def)
    moreover have "trusted_utils_equal_signatures s s = Some True"
      using d by (simp add: equal_signatures_spec)
    ultimately have "\<exists>u. top_check_import cid lits s ?t = Some (True, u) \<and> chk u = c'"
      using c'(1) ok(1,4) fs by (simp add: top_check_import_def Let_def)
    with v(1) c'(2) show ?thesis by auto
  qed
  moreover have "(say res = say True) = res" by (simp add: say_def)
  ultimately show ?thesis using r step v(2) fs by (intro exI) auto
qed

theorem import_answer_iff_witness:
  "\<exists>outs t out t'. tc_steps False False (Init 2 (replicate 16 7) # [Load [1, 0]]) tc_start = Some (outs, t) \<and>
    tc_step False False (Import 9 [2] (clause_sig 9 [2] (replicate 16 7))) t = Some (out, t') \<and>
    (out = say True \<longrightarrow> clause_sig 9 [2] (replicate 16 7) = clause_sig 9 [2] (replicate 16 7)) \<and>
    (valid t \<and> (9 :: u64) \<noteq> 0 \<and> ht_map (clause_table (chk t)) 9 = None \<and>
       clause_sig 9 [2] (replicate 16 7) = clause_sig 9 [2] (replicate 16 7) \<longrightarrow>
       out = say True \<and> ht_map (clause_table (chk t')) 9 = Some (clause_init [2]))"
  by (rule import_answer_iff) (simp add: session_ok_def lits_within_def lit_var_def)

subsection \<open>A loophole\<close>

text \<open>
  LOAD is not refused after END_LOAD. Whatever formula was loaded and whatever its signature,
  one further LOAD of a 0 stores the empty clause as an axiom, and UNSAT validation then answers
  accept with the certificate of the original formula. The checker relies on its client never to
  send this sequence.
\<close>

theorem load_after_end_load_unsat:
  assumes p: "protocol_ok nb sig chunks []"
  shows "\<exists>outs t. tc_steps cm le (protocol nb sig chunks [Load [0], Validate_Unsat]) tc_start =
    Some (outs @ [say True @ result_sig sig 20], t)"
proof -
  let ?L = "formula_of chunks"
  have s: "split_stream (concat chunks) = (?L, [])"
    using p by (simp add: protocol_ok_def formula_of_def prod_eq_iff)
  obtain t outs where t: "tc_steps cm le (Init nb sig # map Load chunks @ [End_Load]) tc_start = Some (outs, t)"
    "tc_inv (nat (nb + 1)) (concat chunks) {} t" "serves ?L (chk t)" "valid t" "formula_signature t = sig"
    "loading ?L [] (chk t)"
    using accepted_formula [of nb chunks ?L sig cm le] s p unfolding protocol_ok_def by blast
  let ?c = "chk t" and ?id = "of_nat (Suc (length ?L)) :: u64"
  have len: "length ?L < 2 ^ 30 - 1"
    using length_join [of ?L] split_stream_spec [OF s] p by (simp add: protocol_ok_def)
  then have uid: "unat ?id = Suc (length ?L)" by (intro unat_Suc_id) simp
  then have "?id \<noteq> 0" by (metis Suc_not_Zero unsigned_0)
  moreover have "ht_map (clause_table ?c) ?id = None"
    using t(6) uid unfolding loading_def by (metis Suc_n_not_le_n not_Some_eq)
  moreover have "ht_inv (clause_table ?c)" using t(6) by (auto simp: loading_def)
  ultimately obtain tab where tab: "hash_table_insert (clause_table ?c) ?id [0] = Some (True, tab)"
  proof -
    assume i: "?id \<noteq> 0" "ht_map (clause_table ?c) ?id = None" "ht_inv (clause_table ?c)"
      and th: "\<And>tab. hash_table_insert (clause_table ?c) ?id [0] = Some (True, tab) \<Longrightarrow> thesis"
    obtain ok tab where "hash_table_insert (clause_table ?c) ?id [0] = Some (ok, tab)"
      using ct.insert_defined [OF i(3)] by blast
    with ct.insertD [OF i(3) this] i(1,2) th show thesis by simp
  qed
  have ctl: "clause_to_add ?c = []" "id_to_add ?c = ?id" "done_loading ?c"
    using t(3,6) by (simp_all add: loading_def serves_def)
  have st: "started t" "length (sbuf (hasher t)) < 8" using t(2) by (auto simp: tc_inv_def hasher_less)
  have "lrat_check_load 0 ?c (hasher t) = Some (True,
      ?c\<lparr>clause_table := tab, unsat_proven := True, id_to_add := ?id + 1, clause_to_add := []\<rparr>,
      update (hasher t) (int_bytes [0]))"
    using tab ctl siphash_update_ints [OF st(2), of "[0]"]
    by (simp add: lrat_check_load_def lrat_check_add_axiomatic_clause_def clause_init_def Let_def)
  then have "\<exists>t'. top_check_load 0 t = Some t' \<and> valid t' \<and> unsat_proven (chk t') \<and> done_loading (chk t')"
    using t(4) ctl(3) by (simp add: top_check_load_def)
  moreover have "\<exists>t'. top_check_load 0 t = Some t' \<and> tc_inv (nat (nb + 1)) (concat chunks @ [0]) {} t' \<and>
      formula_signature t' = sig"
    using load_inv [OF t(2), of 0] p t(5) by (simp add: protocol_ok_def lit_var_def)
  ultimately obtain t1 where t1: "top_check_load 0 t = Some t1" "valid t1" "unsat_proven (chk t1)"
    "done_loading (chk t1)" "tc_inv (nat (nb + 1)) (concat chunks @ [0]) {} t1" "formula_signature t1 = sig"
    by auto
  then have h: "hasher_ok (hasher t1)" "length sig = 16" by (auto simp: tc_inv_def)
  obtain s' where s': "confirm_result sig 20 (hasher t1) = Some (result_sig sig 20, s')"
    using confirm_result_spec [OF h] by blast
  then obtain t2 where t2:
      "tc_steps cm le [Load [0], Validate_Unsat] t = Some ([[], say True @ result_sig sig 20], t2)"
    using t1 st(1) by (simp add: tc_step_def top_check_validate_unsat_def lrat_check_validate_unsat_def
        trusted_utils_write_sig_def)
  have "protocol nb sig chunks [Load [0], Validate_Unsat] =
      (Init nb sig # map Load chunks @ [End_Load]) @ [Load [0], Validate_Unsat]"
    by (simp add: protocol_def)
  then have "tc_steps cm le (protocol nb sig chunks [Load [0], Validate_Unsat]) tc_start =
      Some (outs @ [[], say True @ result_sig sig 20], t2)"
    by (simp only: steps_append t(1) t2 Option.bind.bind_lunit prod.case)
  then show ?thesis by (intro exI [of _ "outs @ [[]]"] exI [of _ t2]) simp
qed

theorem load_after_end_load_unsat_witness:
  "\<exists>outs t. tc_steps False False (protocol 2 (formula_sig [1, -2, 0, 2, 0]) [[1, -2], [0, 2, 0]]
      [Load [0], Validate_Unsat]) tc_start =
    Some (outs @ [say True @ result_sig (formula_sig [1, -2, 0, 2, 0]) 20], t)"
  by (rule load_after_end_load_unsat [OF demo_protocol_ok(2)])

subsection \<open>When a derivation is accepted\<close>

lemma produce_iff:
  assumes t: "tc_inv n xs I t" and d: "ok_directive n (Produce cid lits hints share)"
  shows "\<exists>res t'. top_check_produce cid lits hints share t = Some (res, t') \<and> tc_inv n xs I t' \<and>
    formula_signature t' = formula_signature t \<and> done_loading (chk t') = done_loading (chk t) \<and>
    (res \<longleftrightarrow> valid t \<and> rup (clauses (chk t)) (negated lits) hints \<and> storable (chk t) cid lits) \<and>
    (res \<longrightarrow> valid t' \<and>
      clauses (chk t') = (if clauses (chk t) cid = None then (clauses (chk t))(cid \<mapsto> lits) else clauses (chk t)) \<and>
      unsat_proven (chk t') = (unsat_proven (chk t) \<or> clauses (chk t) cid = None \<and> lits = []))"
proof -
  let ?F = "if valid t then known xs I else {[]}"
  have inv: "ck_inv ?F (chk t)" and n: "length (var_values (chk t)) = n" using t by (simp_all add: tc_inv_def)
  have rng: "in_range (chk t) lits" "0 \<notin> set lits" using d in_range_within [OF n] by simp_all
  obtain c' where c': "lrat_check_add_clause cid lits hints (chk t) =
      Some (rup (clauses (chk t)) (negated lits) hints \<and> storable (chk t) cid lits, c')"
    "rup (clauses (chk t)) (negated lits) hints \<longrightarrow>
      clauses c' = (if cid \<noteq> 0 \<and> clauses (chk t) cid = None then (clauses (chk t))(cid \<mapsto> lits) else clauses (chk t)) \<and>
      unsat_proven c' = (unsat_proven (chk t) \<or> cid \<noteq> 0 \<and> clauses (chk t) cid = None \<and> lits = [])"
    using add_clause_iff [OF inv rng] by blast
  obtain res t' where r: "top_check_produce cid lits hints share t = Some (res, t')" "tc_inv n xs I t'" "res = valid t'"
    "formula_signature t' = formula_signature t" "keeps (chk t) (chk t')"
    using produce_inv [OF t d] by blast
  have "chk t' = c'" "valid t' = (valid t \<and> rup (clauses (chk t)) (negated lits) hints \<and> storable (chk t) cid lits)"
    using r(1) c'(1) by (auto simp: top_check_produce_def Let_def split: if_splits Option.bind_splits)
  moreover have "cid \<noteq> 0" if "storable (chk t) cid lits" "clauses (chk t) cid = None" using that by (simp add: storable_def)
  moreover have "done_loading (chk t') = done_loading (chk t)" using r(5) by (simp add: keeps_def same_ctl_def)
  ultimately show ?thesis using r c'(2) by auto
qed


text \<open>A session that refutes the formula of the two unit clauses 1 and -1, up to its last directive.\<close>

definition refutation :: "directive list" where
  "refutation = [Load [1, 0, -1, 0], End_Load, Produce 3 [] [1, 2] False]"

lemma refutation_ok: "session_ok 1 (formula_sig [1, 0, -1, 0]) refutation"
  by (simp add: session_ok_def refutation_def lits_within_def lit_var_def formula_sig_def)

lemma refutation_loaded:
  "\<exists>outs t. tc_steps cm le [Init 1 (formula_sig [1, 0, -1, 0]), Load [1, 0, -1, 0], End_Load] tc_start = Some (outs, t) \<and>
    tc_inv 2 [1, 0, -1, 0] {} t \<and> valid t \<and> formula_signature t = formula_sig [1, 0, -1, 0] \<and> done_loading (chk t) \<and>
    clauses (chk t) 1 = Some [1] \<and> clauses (chk t) 2 = Some [-1] \<and> clauses (chk t) 3 = None"
proof -
  have s: "split_stream (concat [[1, 0, -1, 0 :: int]]) = ([[1], [-1]], [])" by (simp add: split_stream_def)
  obtain t outs where t: "tc_steps cm le [Init 1 (formula_sig [1, 0, -1, 0]), Load [1, 0, -1, 0], End_Load] tc_start = Some (outs, t)"
    "tc_inv 2 [1, 0, -1, 0] {} t" "serves [[1], [-1]] (chk t)" "valid t" "formula_signature t = formula_sig [1, 0, -1, 0]"
    "loading [[1], [-1]] [] (chk t)"
    using accepted_formula [of 1 "[[1, 0, -1, 0]]" "[[1], [-1]]" "formula_sig [1, 0, -1, 0]" cm le] s
    by (auto simp: lits_within_def lit_var_def)
  have "holds [[1], [-1]] (chk t)" using t(3) by (simp add: serves_def)
  then have h: "ht_map (clause_table (chk t)) (of_nat (Suc 0)) = Some (clause_init [1])"
    "ht_map (clause_table (chk t)) (of_nat (Suc (Suc 0))) = Some (clause_init [-1])"
    unfolding holds_def by (auto simp only: list.size nth_Cons_0 nth_Cons_Suc dest: spec [of _ 0] spec [of _ "Suc 0"])
  have "unat (3 :: u64) = 3" by simp
  then have "ht_map (clause_table (chk t)) 3 = None"
    using t(6) unfolding loading_def by (cases "ht_map (clause_table (chk t)) 3") fastforce+
  then show ?thesis using t h by (intro exI [of _ outs] exI [of _ t]) (simp add: clauses_def serves_def cls_lits_init)
qed

lemma refutation_derives:
  assumes "clauses c 1 = Some [1]" "clauses c 2 = Some [-1]" "clauses c 3 = None"
  shows "rup (clauses c) (negated []) [1, 2]" "storable c 3 []"
  using assms by (simp_all add: negated_def set_lit_def storable_def)

lemma refutation_accepted:
  "\<exists>outs t. tc_steps cm le (Init 1 (formula_sig [1, 0, -1, 0]) # refutation @ [Validate_Unsat]) tc_start = Some (outs, t) \<and>
    hd (last outs) = 65"
proof -
  obtain outs t where t: "tc_steps cm le [Init 1 (formula_sig [1, 0, -1, 0]), Load [1, 0, -1, 0], End_Load] tc_start = Some (outs, t)"
    "tc_inv 2 [1, 0, -1, 0] {} t" "valid t" "formula_signature t = formula_sig [1, 0, -1, 0]" "done_loading (chk t)"
    "clauses (chk t) 1 = Some [1]" "clauses (chk t) 2 = Some [-1]" "clauses (chk t) 3 = None"
    using refutation_loaded by blast
  have "ok_directive 2 (Produce 3 [] [1, 2] False)" by (simp add: lits_within_def)
  from produce_iff [OF t(2) this] obtain t1 where t1: "top_check_produce 3 [] [1, 2] False t = Some (True, t1)"
    "tc_inv 2 [1, 0, -1, 0] {} t1" "formula_signature t1 = formula_signature t" "done_loading (chk t1)" "valid t1"
    "unsat_proven (chk t1)"
    using refutation_derives [OF t(6-8)] t(3,5,8) by auto
  then have "hasher_ok (hasher t1)" "length (formula_signature t) = 16" by (auto simp: tc_inv_def)
  then obtain s' where s': "confirm_result (formula_signature t) 20 (hasher t1) = Some (result_sig (formula_signature t) 20, s')"
    using confirm_result_spec by blast
  have "started t" "started t1" using t(2) t1(2) by (simp_all add: tc_inv_def)
  then obtain out t2 where "tc_steps cm le [Produce 3 [] [1, 2] False, Validate_Unsat] t = Some ([out, say True @ result_sig (formula_signature t) 20], t2)"
    using t1 s' by (simp add: tc_step_def top_check_validate_unsat_def lrat_check_validate_unsat_def trusted_utils_write_sig_def)
  moreover have "Init 1 (formula_sig [1, 0, -1, 0]) # refutation @ [Validate_Unsat] =
      [Init 1 (formula_sig [1, 0, -1, 0]), Load [1, 0, -1, 0], End_Load] @ [Produce 3 [] [1, 2] False, Validate_Unsat]"
    by (simp add: refutation_def)
  ultimately have "tc_steps cm le (Init 1 (formula_sig [1, 0, -1, 0]) # refutation @ [Validate_Unsat]) tc_start =
      Some (outs @ [out, say True @ result_sig (formula_signature t) 20], t2)"
    by (simp only: steps_append t(1) Option.bind.bind_lunit prod.case)
  then show ?thesis by (intro exI [of _ "outs @ [out, say True @ result_sig (formula_signature t) 20]"] exI [of _ t2]) simp
qed


subsection \<open>Soundness of UNSAT\<close>

text \<open>
  C1. Soundness of an accepted UNSAT answer. After one INIT the solver may send any directives in any
  order (derivations, imports, deletions, further loading, validations) under these conditions (\<open>session_ok\<close>): no second INIT, no
  literal 0 inside a derived or imported clause, all literals within the declared variables, and fewer than \<open>2 ^ 30\<close> loaded
  literals. Then every directive is answered, and if a final UNSAT validation is answered with accept, the answer carries the
  certificate for UNSATISFIABLE of the announced formula signature, and no assignment satisfies all the loaded and imported clauses.
\<close>

theorem unsat_answer_sound:
  assumes "session_ok nb sig ds"
  shows "\<exists>outs t. tc_steps cm le (Init nb sig # ds @ [Validate_Unsat]) tc_start = Some (outs, t) \<and>
    length outs = length ds + 2 \<and>
    (hd (last outs) = 65 \<longrightarrow> last outs = say True @ result_sig sig 20 \<and>
      (\<forall>v. \<not> models v (set (fst (split_stream (loads ds))) \<union> imported ds)))"
proof -
  obtain outs t where r: "tc_steps cm le (Init nb sig # ds) tc_start = Some (outs, t)"
    and t: "tc_inv (nat (nb + 1)) (loads ds) (imported ds) t" and s: "formula_signature t = sig" "length outs = Suc (length ds)"
    using session_run [OF assms] by blast
  obtain res t' where v: "top_check_validate_unsat t = Some (res, t')"
    "res \<longrightarrow> valid t \<and> unsat_proven (chk t) \<and> buf_sig t' = result_sig sig 20"
    using validate_unsat_inv [OF t] s by blast
  have "tc_steps cm le ((Init nb sig # ds) @ [Validate_Unsat]) tc_start =
      Some (outs @ [say res @ trusted_utils_write_sig (buf_sig t')], t')"
    using r v(1) unfolding steps_append by (simp add: tc_step_def)
  moreover have "\<forall>w. \<not> models w (known (loads ds) (imported ds))" if res
    using t v(2) that by (simp add: tc_inv_def ck_inv_def)
  ultimately show ?thesis using v(2) s(2) by (auto simp: known_def trusted_utils_write_sig_def)
qed

theorem unsat_answer_sound_witness:
  "\<exists>outs t. tc_steps False False (Init 1 (formula_sig [1, 0, -1, 0]) # refutation @ [Validate_Unsat]) tc_start = Some (outs, t) \<and>
    last outs = say True @ result_sig (formula_sig [1, 0, -1, 0]) 20 \<and>
    (\<forall>v. \<not> models v (set (fst (split_stream (loads refutation))) \<union> imported refutation))"
  using unsat_answer_sound [OF refutation_ok, of False False] refutation_accepted [of False False] by auto

end
