(* ===== verification/Imp_Parser.thy ===== *)
theory Imp_Parser
  imports Imp_Sound
begin

text \<open>
  The trusted parser of ImpCheck, \<open>impcheck/src/trusted/trusted_parser.c\<close>: a byte-driven state
  machine that reads a DIMACS file, writes the formula's literals to the checker's pipe and signs
  them. Its globals are the record \<open>tp\<close>; \<open>f_out\<close> collects the bytes written. An arithmetic
  overflow of the \<open>int\<close> that collects digits, and \<open>abort()\<close>, are \<open>None\<close>.
\<close>

record tp =
  tdata :: "int list"
  comment :: bool
  header :: bool
  input_finished :: bool
  input_invalid :: bool
  began_num :: bool
  num :: int
  sgn :: int
  nb_read_cls :: int
  nb_vars :: int
  nb_cls :: int
  tsip :: sip
  f_out :: bytes

definition TRUSTED_CHK_MAX_BUF_SIZE :: nat where
  "TRUSTED_CHK_MAX_BUF_SIZE = 2 ^ 14"

definition tp_init :: tp where
  "tp_init = \<lparr>tdata = [], comment = False, header = False, input_finished = False,
     input_invalid = False, began_num = False, num = 0, sgn = 1, nb_read_cls = 0,
     nb_vars = -1, nb_cls = -1, tsip = siphash_init SECRET_KEY, f_out = []\<rparr>"

definition output_literal_buffer :: "tp \<Rightarrow> tp option" where
  "output_literal_buffer s =
     do {
       h \<leftarrow> siphash_update (tsip s) (int_bytes (tdata s)) (of_nat (length (tdata s) * 4));
       Some (s\<lparr>tsip := h, f_out := f_out s @ trusted_utils_write_ints (tdata s), tdata := []\<rparr>)
     }"

definition append_integer :: "tp \<Rightarrow> tp option" where
  "append_integer s =
     (if header s then
        do {
          s \<leftarrow> (if nb_vars s = -1 then
                 Some (s\<lparr>nb_vars := num s, f_out := f_out s @ trusted_utils_write_int (num s)\<rparr>)
               else if nb_cls s = -1 then
                 Some (s\<lparr>nb_cls := num s, f_out := f_out s @ trusted_utils_write_int (num s), header := False\<rparr>)
               else None);
          Some (s\<lparr>num := 0, began_num := False\<rparr>)
        }
      else
        (let lit = sgn s * num s;
             s = (if lit = 0 then s\<lparr>nb_read_cls := nb_read_cls s + 1\<rparr> else s);
             s = s\<lparr>num := 0, sgn := 1, began_num := False\<rparr>
         in do {
              s \<leftarrow> (if length (tdata s) = TRUSTED_CHK_MAX_BUF_SIZE then output_literal_buffer s else Some s);
              Some (s\<lparr>tdata := tdata s @ [lit]\<rparr>)
            }))"

text \<open>The characters are signed; 255 is \<open>EOF\<close>. The result says whether the input is finished.\<close>

definition process :: "u8 \<Rightarrow> tp \<Rightarrow> (bool \<times> tp) option" where
  "process c s =
     (if comment s \<and> c \<noteq> 10 \<and> c \<noteq> 13 then Some (False, s)
      else if c = 255 then Some (True, s\<lparr>input_finished := True\<rparr>)
      else if c = 10 \<or> c = 13 then
        do { s \<leftarrow> (if began_num s then append_integer (s\<lparr>comment := False\<rparr>) else Some (s\<lparr>comment := False\<rparr>));
             Some (False, s) }
      else if c = 112 then Some (False, s\<lparr>header := True\<rparr>)
      else if c = 99 then Some (False, if \<not> header s then s\<lparr>comment := True\<rparr> else s)
      else if c = 32 then
        do { s \<leftarrow> (if began_num s then append_integer s else Some s); Some (False, s) }
      else if c = 45 then Some (False, s\<lparr>sgn := -1, began_num := True\<rparr>)
      else if 48 \<le> c \<and> c \<le> 57 then
        (let n = num s * 10 + (uint c - 48) in
         if is_int n then Some (False, s\<lparr>num := n, began_num := True\<rparr>) else None)
      else Some (False, s))"

text \<open>
  The loop of \<open>tp_parse\<close> over the rest of the file. At its end \<open>fgetc\<close> returns \<open>EOF\<close> again and
  again; when \<open>process\<close> ignores it, the loop never ends.
\<close>

fun tp_loop :: "bytes \<Rightarrow> tp \<Rightarrow> tp option" where
  "tp_loop [] s = do { (fin, s) \<leftarrow> process 255 s; if fin then Some s else None }"
| "tp_loop (c # file) s = do { (fin, s) \<leftarrow> process c s; if fin then Some s else tp_loop file s }"

definition tp_parse :: "bytes \<Rightarrow> tp \<Rightarrow> (bool \<times> bytes \<times> tp) option" where
  "tp_parse file s =
     do {
       s \<leftarrow> tp_loop file s;
       s \<leftarrow> (if began_num s then append_integer s else Some s);
       s \<leftarrow> (if tdata s \<noteq> [] then output_literal_buffer s else Some s);
       h \<leftarrow> siphash_pad (tsip s) 2;
       (sig, h) \<leftarrow> siphash_digest h;
       let s = s\<lparr>tsip := h, f_out := f_out s @ trusted_utils_write_sig sig\<rparr>;
       Some (input_finished s \<and> \<not> input_invalid s, sig, s)
     }"

section \<open>Printed formulas\<close>

text \<open>Decimal numbers, and a formula in DIMACS form.\<close>

fun dec :: "nat \<Rightarrow> bytes" where
  "dec n = (if n < 10 then [48 + of_nat n] else dec (n div 10) @ [48 + of_nat (n mod 10)])"

declare dec.simps [simp del]

definition show_int :: "int \<Rightarrow> bytes" where
  "show_int i = (if i < 0 then 45 # dec (nat (- i)) else dec (nat i))"

definition show_comment :: "bytes \<Rightarrow> bytes" where
  "show_comment t = 99 # t @ [10]"

definition show_header :: "nat \<Rightarrow> nat \<Rightarrow> bytes" where
  "show_header n m = [112, 32, 99, 110, 102, 32] @ dec n @ [32] @ dec m @ [10]"

definition show_clause :: "lit list \<Rightarrow> bytes" where
  "show_clause C = concat (map (\<lambda>l. show_int l @ [32]) C) @ [48, 10]"

definition show_cnf :: "bytes list \<Rightarrow> nat \<Rightarrow> lit list list \<Rightarrow> bytes" where
  "show_cnf cs n L = concat (map show_comment cs) @ show_header n (length L) @ concat (map show_clause L)"

definition is_lit :: "lit \<Rightarrow> bool" where
  "is_lit l = (l \<noteq> 0 \<and> - (2 ^ 31) < l \<and> l < 2 ^ 31)"

subsection \<open>Reading printed text\<close>

text \<open>\<open>reads xs s s'\<close>: the bytes \<open>xs\<close> take the parser from \<open>s\<close> to \<open>s'\<close> without finishing.\<close>

fun reads :: "bytes \<Rightarrow> tp \<Rightarrow> tp option" where
  "reads [] s = Some s"
| "reads (c # xs) s = do { (fin, s) \<leftarrow> process c s; if fin then None else reads xs s }"

lemma reads_append: "reads (xs @ ys) s = do { s \<leftarrow> reads xs s; reads ys s }"
  by (induction xs arbitrary: s) (auto split: Option.bind_splits)

lemma tp_loop_reads: "reads xs s = Some s' \<Longrightarrow> tp_loop (xs @ ys) s = tp_loop ys s'"
  by (induction xs arbitrary: s) (auto split: Option.bind_splits if_splits)

lemma process_digit:
  assumes "\<not> comment s" "d < 10" "is_int (num s * 10 + int d)"
  shows "process (48 + of_nat d) s = Some (False, s\<lparr>num := num s * 10 + int d, began_num := True\<rparr>)"
proof -
  have "uint (of_nat d :: u8) = int d"
    using assms(2) by (simp add: unsigned_of_nat take_bit_nat_eq_self)
  then have "uint (48 + of_nat d :: u8) = 48 + int d"
    using assms(2) by (simp add: uint_word_ariths)
  moreover from this assms(2) have "(48 + of_nat d :: u8) \<notin> {255, 10, 13, 112, 99, 32, 45}"
    by (auto simp: word_uint_eq_iff)
  moreover have "48 \<le> (48 + of_nat d :: u8)" "(48 + of_nat d :: u8) \<le> 57"
    using calculation(1) assms(2) by (simp_all add: word_le_def)
  ultimately show ?thesis using assms(1,3) by (simp add: process_def Let_def)
qed

lemma reads_dec:
  "int n < 2 ^ 31 \<Longrightarrow> \<not> comment s \<Longrightarrow> num s = 0 \<Longrightarrow>
   reads (dec n) s = Some (s\<lparr>num := int n, began_num := True\<rparr>)"
proof (induction n arbitrary: s rule: dec.induct)
  case (1 n)
  show ?case
  proof (cases "n < 10")
    case True
    with 1 show ?thesis by (subst dec.simps) (simp add: process_digit is_int_def)
  next
    case False
    have "reads (dec (n div 10)) s = Some (s\<lparr>num := int (n div 10), began_num := True\<rparr>)"
      using 1 False by (simp add: zdiv_int)
    moreover have "int (n div 10) * 10 + int (n mod 10) = int n" by presburger
    ultimately show ?thesis
      using 1(2-) False
      by (subst dec.simps) (simp add: reads_append process_digit is_int_def)
  qed
qed


subsection \<open>The body of the formula\<close>

text \<open>
  \<open>body pre xs s\<close>: in the body of the file, the literals \<open>xs\<close> are read; those already flushed
  follow \<open>pre\<close> in the output and are hashed, the others are buffered.
\<close>

definition body :: "bytes \<Rightarrow> lit list \<Rightarrow> tp \<Rightarrow> bool" where
  "body pre xs s = ((\<exists>ds. ds @ tdata s = xs \<and> f_out s = pre @ trusted_utils_write_ints ds \<and>
       tsip s = update (siphash_init SECRET_KEY) (int_bytes ds)) \<and>
     length (tdata s) \<le> TRUSTED_CHK_MAX_BUF_SIZE \<and>
     \<not> comment s \<and> \<not> header s \<and> \<not> input_finished s \<and> \<not> input_invalid s)"

definition fresh :: "tp \<Rightarrow> bool" where
  "fresh s = (\<not> began_num s \<and> num s = 0 \<and> sgn s = 1)"

lemma write_ints_append: "trusted_utils_write_ints (as @ bs) = trusted_utils_write_ints as @ trusted_utils_write_ints bs"
  by (simp add: trusted_utils_write_ints_def)

lemma flush_body:
  assumes "ds @ tdata s = xs" "f_out s = pre @ trusted_utils_write_ints ds"
    "tsip s = update (siphash_init SECRET_KEY) (int_bytes ds)" "length (tdata s) \<le> TRUSTED_CHK_MAX_BUF_SIZE"
  shows "output_literal_buffer s = Some (s\<lparr>tsip := update (siphash_init SECRET_KEY) (int_bytes xs),
    f_out := pre @ trusted_utils_write_ints xs, tdata := []\<rparr>)"
proof -
  have "siphash_update (tsip s) (int_bytes (tdata s)) (of_nat (length (tdata s) * 4)) =
      Some (update (tsip s) (int_bytes (tdata s)))"
    using assms(3,4) by (intro siphash_update_ints) (simp_all add: TRUSTED_CHK_MAX_BUF_SIZE_def)
  then show ?thesis
    using assms(1-3)
    by (auto simp: output_literal_buffer_def update_append int_bytes_append write_ints_append
        simp flip: assms(1) simp del: of_nat_mult)
qed

definition next_lit :: "tp \<Rightarrow> tp" where
  "next_lit s = (if sgn s * num s = 0 then s\<lparr>nb_read_cls := nb_read_cls s + 1\<rparr> else s)
    \<lparr>num := 0, sgn := 1, began_num := False\<rparr>"

lemma append_integer_lit:
  "\<not> header s \<Longrightarrow> append_integer s = do {
     t \<leftarrow> (if length (tdata (next_lit s)) = TRUSTED_CHK_MAX_BUF_SIZE
           then output_literal_buffer (next_lit s) else Some (next_lit s));
     Some (t\<lparr>tdata := tdata t @ [sgn s * num s]\<rparr>) }"
  by (simp only: append_integer_def Let_def next_lit_def if_False)

lemma append_body:
  assumes "body pre xs s"
  shows "\<exists>s'. append_integer s = Some s' \<and> body pre (xs @ [sgn s * num s]) s' \<and> fresh s'"
proof -
  obtain ds where ds: "ds @ tdata s = xs" "f_out s = pre @ trusted_utils_write_ints ds"
    "tsip s = update (siphash_init SECRET_KEY) (int_bytes ds)"
    and len: "length (tdata s) \<le> TRUSTED_CHK_MAX_BUF_SIZE"
    and flags: "\<not> comment s" "\<not> header s" "\<not> input_finished s" "\<not> input_invalid s"
    using assms by (auto simp: body_def)
  define s1 where "s1 = next_lit s"
  have s1: "tdata s1 = tdata s" "f_out s1 = f_out s" "tsip s1 = tsip s" "\<not> comment s1" "\<not> header s1"
    "\<not> input_finished s1" "\<not> input_invalid s1" "fresh s1"
    using flags by (auto simp: s1_def next_lit_def fresh_def)
  show ?thesis
  proof (cases "length (tdata s) = TRUSTED_CHK_MAX_BUF_SIZE")
    case True
    have "output_literal_buffer s1 = Some (s1\<lparr>tsip := update (siphash_init SECRET_KEY) (int_bytes xs),
        f_out := pre @ trusted_utils_write_ints xs, tdata := []\<rparr>)"
      using ds len s1 by (intro flush_body) auto
    then have "append_integer s = Some (s1\<lparr>tsip := update (siphash_init SECRET_KEY) (int_bytes xs),
        f_out := pre @ trusted_utils_write_ints xs, tdata := [sgn s * num s]\<rparr>)"
      using True flags(2) s1(1) by (simp add: append_integer_lit flip: s1_def)
    moreover have "body pre (xs @ [sgn s * num s]) (s1\<lparr>tsip := update (siphash_init SECRET_KEY) (int_bytes xs),
        f_out := pre @ trusted_utils_write_ints xs, tdata := [sgn s * num s]\<rparr>)"
      using s1 by (simp add: body_def TRUSTED_CHK_MAX_BUF_SIZE_def)
    ultimately show ?thesis using s1(8) by (simp add: fresh_def)
  next
    case False
    then have "append_integer s = Some (s1\<lparr>tdata := tdata s @ [sgn s * num s]\<rparr>)"
      using flags(2) s1(1) by (simp add: append_integer_lit flip: s1_def)
    moreover have "body pre (xs @ [sgn s * num s]) (s1\<lparr>tdata := tdata s @ [sgn s * num s]\<rparr>)"
      using s1 ds len False by (auto simp: body_def)
    ultimately show ?thesis using s1(8) by (simp add: fresh_def)
  qed
qed

lemma body_num: "body pre xs s \<Longrightarrow> body pre xs (s\<lparr>num := n, sgn := g, began_num := b\<rparr>)"
  by (simp add: body_def)

lemma reads_int:
  assumes b: "body pre xs s" "fresh s" and l: "is_lit l \<or> l = 0" and c: "c = 32 \<or> c = 10"
  shows "\<exists>s'. reads (show_int l @ [c]) s = Some s' \<and> body pre (xs @ [l]) s' \<and> fresh s'"
proof -
  define g where "g = (if l < 0 then -1 else 1 :: int)"
  have l': "int (nat \<bar>l\<bar>) < 2 ^ 31" using l by (auto simp: is_lit_def)
  have nc: "\<not> comment s" using b(1) by (simp add: body_def)
  define s1 where "s1 = s\<lparr>num := \<bar>l\<bar>, sgn := g, began_num := True\<rparr>"
  have r: "reads (show_int l) s = Some s1"
  proof (cases "l < 0")
    case True
    have "process 45 s = Some (False, s\<lparr>sgn := -1, began_num := True\<rparr>)"
      using nc by (simp add: process_def)
    with reads_dec [OF l', of "s\<lparr>sgn := -1, began_num := True\<rparr>"] True b(2) nc show ?thesis
      by (simp add: show_int_def s1_def g_def fresh_def)
  next
    case False
    with reads_dec [OF l', of s] b(2) nc show ?thesis
      by (simp add: show_int_def s1_def g_def fresh_def)
  qed
  have b1: "body pre xs s1" using b(1) body_num by (simp add: s1_def)
  have "sgn s1 * num s1 = l" by (simp add: s1_def g_def)
  with append_body [OF b1] obtain s' where s': "append_integer s1 = Some s'" "body pre (xs @ [l]) s'" "fresh s'"
    by auto
  have "s1\<lparr>comment := False\<rparr> = s1" using b1 by (simp add: body_def)
  then have "append_integer (s1\<lparr>comment := False\<rparr>) = Some s'" using s'(1) by (rule ssubst)
  moreover have "began_num s1" "\<not> comment s1" using nc by (simp_all add: s1_def)
  ultimately have "process c s1 = Some (False, s')"
    using c s'(1) by (auto simp: process_def)
  with r s' show ?thesis by (simp add: reads_append)
qed


lemma reads_clause:
  "body pre xs s \<Longrightarrow> fresh s \<Longrightarrow> \<forall>l \<in> set C. is_lit l \<Longrightarrow>
   \<exists>s'. reads (show_clause C) s = Some s' \<and> body pre (xs @ clause_init C) s' \<and> fresh s'"
proof (induction C arbitrary: xs s)
  case Nil
  have "show_clause [] = show_int 0 @ [10]"
    by (simp add: show_clause_def show_int_def dec.simps [of 0])
  with reads_int [OF Nil(1,2), of 0 10] show ?case by (simp add: clause_init_def)
next
  case (Cons l C)
  obtain s1 where s1: "reads (show_int l @ [32]) s = Some s1" "body pre (xs @ [l]) s1" "fresh s1"
    using reads_int [OF Cons.prems(1,2), of l 32] Cons.prems(3) by auto
  from Cons.IH [OF s1(2,3)] Cons.prems(3) obtain s' where
    s': "reads (show_clause C) s1 = Some s'" "body pre ((xs @ [l]) @ clause_init C) s'" "fresh s'" by auto
  have "show_clause (l # C) = (show_int l @ [32]) @ show_clause C"
    by (simp add: show_clause_def)
  then have "reads (show_clause (l # C)) s = Some s'"
    by (simp only: reads_append [of "show_int l @ [32]"] s1(1) Option.bind.bind_lunit s'(1))
  moreover have "(xs @ [l]) @ clause_init C = xs @ clause_init (l # C)" by (simp add: clause_init_def)
  ultimately show ?case using s'(2,3) by metis
qed

lemma reads_clauses:
  "body pre xs s \<Longrightarrow> fresh s \<Longrightarrow> \<forall>C \<in> set L. \<forall>l \<in> set C. is_lit l \<Longrightarrow>
   \<exists>s'. reads (concat (map show_clause L)) s = Some s' \<and> body pre (xs @ join_clauses L) s' \<and> fresh s'"
proof (induction L arbitrary: xs s)
  case Nil
  then show ?case by (simp add: join_clauses_def)
next
  case (Cons C L)
  obtain s1 where s1: "reads (show_clause C) s = Some s1" "body pre (xs @ clause_init C) s1" "fresh s1"
    using reads_clause [OF Cons.prems(1,2), of C] Cons.prems(3) by auto
  from Cons.IH [OF s1(2,3)] Cons.prems(3) show ?case
    by (auto simp: reads_append s1(1) join_clauses_def)
qed

subsection \<open>Comments and the header\<close>

lemma reads_comment_text:
  "comment s \<Longrightarrow> 10 \<notin> set t \<Longrightarrow> 13 \<notin> set t \<Longrightarrow> reads t s = Some s"
  by (induction t) (auto simp: process_def)

lemma reads_comments:
  "\<not> comment s \<Longrightarrow> \<not> header s \<Longrightarrow> \<not> began_num s \<Longrightarrow> \<forall>t \<in> set cs. 10 \<notin> set t \<and> 13 \<notin> set t \<Longrightarrow>
   reads (concat (map show_comment cs)) s = Some s"
proof (induction cs)
  case (Cons t cs)
  have "reads (show_comment t) s = Some (s\<lparr>comment := False\<rparr>)"
    using Cons.prems reads_comment_text [of "s\<lparr>comment := True\<rparr>" t]
    by (simp add: show_comment_def reads_append process_def)
  moreover have "s\<lparr>comment := False\<rparr> = s" using Cons.prems(1) by simp
  ultimately show ?case using Cons by (simp add: reads_append)
qed simp

lemma reads_header:
  assumes n: "int n < 2 ^ 31" "int m < 2 ^ 31"
  shows "\<exists>s. reads (show_header n m) tp_init = Some s \<and> fresh s \<and>
    body (trusted_utils_write_int (int n) @ trusted_utils_write_int (int m)) [] s"
proof -
  let ?s1 = "tp_init\<lparr>header := True\<rparr>"
  have "reads [112, 32, 99, 110, 102, 32] tp_init = Some ?s1"
    by (simp add: process_def tp_init_def)
  moreover have "reads (dec n @ [32]) ?s1 =
      Some (?s1\<lparr>nb_vars := int n, f_out := trusted_utils_write_int (int n)\<rparr>)"
    using reads_dec [OF n(1), of ?s1]
    by (simp add: reads_append process_def append_integer_def tp_init_def)
  moreover let ?s2 = "?s1\<lparr>nb_vars := int n, f_out := trusted_utils_write_int (int n)\<rparr>"
  have "reads (dec m @ [10]) ?s2 = Some (?s2\<lparr>nb_cls := int m, header := False,
      f_out := trusted_utils_write_int (int n) @ trusted_utils_write_int (int m)\<rparr>)"
    using reads_dec [OF n(2), of ?s2]
    by (simp add: reads_append process_def append_integer_def tp_init_def)
  moreover have "show_header n m = [112, 32, 99, 110, 102, 32] @ (dec n @ [32]) @ (dec m @ [10])"
    by (simp add: show_header_def)
  ultimately have "reads (show_header n m) tp_init = Some (?s2\<lparr>nb_cls := int m, header := False,
      f_out := trusted_utils_write_int (int n) @ trusted_utils_write_int (int m)\<rparr>)"
    by (simp only: reads_append Option.bind.bind_lunit)
  moreover have "siphash_init SECRET_KEY = update (siphash_init SECRET_KEY) (int_bytes [])"
    by (simp add: update_def int_bytes_def)
  ultimately show ?thesis
    by (simp add: fresh_def body_def tp_init_def trusted_utils_write_ints_def TRUSTED_CHK_MAX_BUF_SIZE_def)
qed

subsection \<open>The whole file\<close>

lemma tp_parse_printed:
  assumes n: "int n < 2 ^ 31" "int (length L) < 2 ^ 31" and L: "\<forall>C \<in> set L. \<forall>l \<in> set C. is_lit l"
    and cs: "\<forall>t \<in> set cs. 10 \<notin> set t \<and> 13 \<notin> set t"
  shows "\<exists>s. tp_parse (show_cnf cs n L) tp_init = Some (True, formula_sig (join_clauses L), s) \<and>
    f_out s = trusted_utils_write_int (int n) @ trusted_utils_write_int (int (length L)) @
      trusted_utils_write_ints (join_clauses L) @ trusted_utils_write_sig (formula_sig (join_clauses L)) \<and>
    hasher_ok (tsip s)"
proof -
  let ?pre = "trusted_utils_write_int (int n) @ trusted_utils_write_int (int (length L))"
  let ?xs = "join_clauses L"
  obtain s1 where s1: "reads (show_header n (length L)) tp_init = Some s1" "fresh s1" "body ?pre [] s1"
    using reads_header [OF n] by blast
  obtain s2 where s2: "reads (concat (map show_clause L)) s1 = Some s2" "body ?pre ?xs s2" "fresh s2"
    using reads_clauses [OF s1(3,2) L] by auto
  have "reads (concat (map show_comment cs)) tp_init = Some tp_init"
    using cs by (intro reads_comments) (simp_all add: tp_init_def)
  then have "reads (show_cnf cs n L) tp_init = Some s2"
    using s1(1) s2(1) by (simp add: show_cnf_def reads_append)
  from tp_loop_reads [OF this, of "[]"] s2(2)
  have loop: "tp_loop (show_cnf cs n L) tp_init = Some (s2\<lparr>input_finished := True\<rparr>)"
    by (simp add: process_def body_def)
  let ?s3 = "s2\<lparr>input_finished := True\<rparr>"
  obtain ds where ds: "ds @ tdata ?s3 = ?xs" "f_out ?s3 = ?pre @ trusted_utils_write_ints ds"
    "tsip ?s3 = update (siphash_init SECRET_KEY) (int_bytes ds)"
    "length (tdata ?s3) \<le> TRUSTED_CHK_MAX_BUF_SIZE" and nb: "\<not> began_num ?s3" "\<not> input_invalid ?s3"
    using s2(2,3) by (auto simp: body_def fresh_def)
  have "\<exists>s4. (if tdata ?s3 \<noteq> [] then output_literal_buffer ?s3 else Some ?s3) = Some s4 \<and>
      tsip s4 = update (siphash_init SECRET_KEY) (int_bytes ?xs) \<and>
      f_out s4 = ?pre @ trusted_utils_write_ints ?xs \<and> input_finished s4 \<and> \<not> input_invalid s4"
    using flush_body [OF ds] ds nb by auto
  then obtain s4 where s4: "(if tdata ?s3 \<noteq> [] then output_literal_buffer ?s3 else Some ?s3) = Some s4"
    "tsip s4 = update (siphash_init SECRET_KEY) (int_bytes ?xs)"
    "f_out s4 = ?pre @ trusted_utils_write_ints ?xs" "input_finished s4" "\<not> input_invalid s4" by blast
  have "siphash_pad (tsip s4) 2 = Some (update (siphash_init SECRET_KEY) (int_bytes ?xs @ [0, 0]))"
    using siphash_pad_eq [of "tsip s4" 2] by (simp add: s4(2) update_append numeral_2_eq_2)
  moreover obtain h where "siphash_digest (update (siphash_init SECRET_KEY) (int_bytes ?xs @ [0, 0])) =
      Some (formula_sig ?xs, h)" "hasher_ok h"
    using digest_update unfolding formula_sig_def by blast
  ultimately have "tp_parse (show_cnf cs n L) tp_init = Some (True, formula_sig ?xs,
      s4\<lparr>tsip := h, f_out := f_out s4 @ trusted_utils_write_sig (formula_sig ?xs)\<rparr>)"
    using loop nb(1) s4 by (simp add: tp_parse_def)
  with s4(3) \<open>hasher_ok h\<close> show ?thesis by simp
qed

text \<open>
  C13. Parsing a printed formula. A DIMACS file with any comment lines, the header and the
  clauses is parsed completely; what the parser writes to the checker is the number of variables,
  the number of clauses, the literals of all clauses in order and the formula's signature.
\<close>

theorem tp_parse_show_cnf:
  assumes "int n < 2 ^ 31" "int (length L) < 2 ^ 31" "\<forall>C \<in> set L. \<forall>l \<in> set C. is_lit l"
    and "\<forall>t \<in> set cs. 10 \<notin> set t \<and> 13 \<notin> set t"
  shows "\<exists>s. tp_parse (show_cnf cs n L) tp_init = Some (True, formula_sig (join_clauses L), s) \<and>
    f_out s = trusted_utils_write_int (int n) @ trusted_utils_write_int (int (length L)) @
      trusted_utils_write_ints (join_clauses L) @ trusted_utils_write_sig (formula_sig (join_clauses L))"
  using tp_parse_printed [OF assms] by blast

theorem tp_parse_show_cnf_witness:
  "\<exists>s. tp_parse (show_cnf [[32, 104, 105]] 2 [[1, -2], [2]]) tp_init =
      Some (True, formula_sig (join_clauses [[1, -2], [2]]), s) \<and>
    f_out s = trusted_utils_write_int (int 2) @ trusted_utils_write_int (int (length [[1, -2], [2 :: int]])) @
      trusted_utils_write_ints (join_clauses [[1, -2], [2]]) @
      trusted_utils_write_sig (formula_sig (join_clauses [[1, -2], [2]]))"
  by (rule tp_parse_show_cnf) (simp_all add: is_lit_def)

text \<open>
  A comment that the file ends in hangs the parser: the end-of-file value is skipped like any
  other character of a comment, and the loop never ends.
\<close>

theorem tp_parse_open_comment:
  assumes "10 \<notin> set t" "13 \<notin> set t"
  shows "tp_parse (99 # t) tp_init = None"
proof -
  have "reads (99 # t) tp_init = Some (tp_init\<lparr>comment := True\<rparr>)"
    using reads_comment_text [of "tp_init\<lparr>comment := True\<rparr>" t] assms
    by (simp add: process_def tp_init_def)
  from tp_loop_reads [OF this, of "[]"] have "tp_loop (99 # t) tp_init = None"
    by (simp add: process_def)
  then show ?thesis by (simp add: tp_parse_def)
qed

theorem tp_parse_open_comment_witness: "tp_parse (99 # [32, 101, 110, 100]) tp_init = None"
  by (rule tp_parse_open_comment) simp_all

end
