(* ===== verification/Imp_Protocol.thy ===== *)
theory Imp_Protocol
  imports Imp_Parser
begin

text \<open>
  The processes of ImpCheck put together: the byte protocol of the checker
  (\<open>checker_interface.h\<close>, read by \<open>tc_run\<close>), the path from the trusted parser to the checker, and
  the confirmer \<open>main_confirm.c\<close>, which recomputes the certificate that a checker issued.
\<close>

section \<open>The byte protocol\<close>

text \<open>What a client writes for a directive, as \<open>checker_interface.h\<close> lays it out.\<close>

definition write_list :: "int list \<Rightarrow> bytes" where
  "write_list is = trusted_utils_write_int (int (length is)) @ trusted_utils_write_ints is"

definition write_ids :: "u64 list \<Rightarrow> bytes" where
  "write_ids us = trusted_utils_write_int (int (length us)) @ trusted_utils_write_uls us"

fun encode_directive :: "directive \<Rightarrow> bytes" where
  "encode_directive (Init nb sig) = 66 # trusted_utils_write_int nb @ trusted_utils_write_sig sig"
| "encode_directive (Load lits) = 76 # write_list lits"
| "encode_directive End_Load = [69]"
| "encode_directive (Produce cid lits hints share) =
     97 # trusted_utils_write_ul cid @ write_list lits @ write_ids hints @ trusted_utils_write_bool share"
| "encode_directive (Import cid lits sig) =
     105 # trusted_utils_write_ul cid @ write_list lits @ trusted_utils_write_sig sig"
| "encode_directive (Delete ids) = 100 # write_ids ids"
| "encode_directive Validate_Unsat = [86]"
| "encode_directive (Validate_Sat m) = 77 # write_list m"
| "encode_directive Terminate = [84]"

definition int_list_ok :: "int list \<Rightarrow> bool" where
  "int_list_ok is = (length is < 2 ^ 31 \<and> (\<forall>i \<in> set is. is_int i))"

fun encodable :: "directive \<Rightarrow> bool" where
  "encodable (Init nb sig) = (is_int nb \<and> length sig = 16)"
| "encodable (Load lits) = int_list_ok lits"
| "encodable (Produce cid lits hints share) = (int_list_ok lits \<and> length hints < 2 ^ 31)"
| "encodable (Import cid lits sig) = (int_list_ok lits \<and> length sig = 16)"
| "encodable (Delete ids) = (length ids < 2 ^ 31)"
| "encodable (Validate_Sat m) = int_list_ok m"
| "encodable _ = True"

lemma read_literals_write [simp]:
  "int_list_ok is \<Longrightarrow> read_literals (write_list is @ rest) = Some (is, rest)"
  by (simp add: int_list_ok_def read_literals_def read_count_def write_list_def is_int_def)

lemma read_hints_write [simp]:
  "length us < 2 ^ 31 \<Longrightarrow> read_hints (write_ids us @ rest) = Some (us, rest)"
  by (simp add: read_hints_def read_count_def write_ids_def is_int_def)

lemma read_char_Cons [simp]: "trusted_utils_read_char (b # rest) = Some (uint b, rest)"
  by (simp add: trusted_utils_read_char_def)

lemma parse_encode:
  "encodable d \<Longrightarrow> parse_directive (encode_directive d @ rest) = Directive d rest"
  by (cases d) (simp_all add: parse_directive_def or_exit_def)

text \<open>
  C11. The checker process decodes the byte protocol. Started on the encoding of any directives
  that end with TERMINATE, the loop of the process reads exactly these directives, whatever
  follows them on the pipe, and writes the concatenation of their answers.
\<close>

theorem tc_run_encoded:
  assumes "\<forall>d \<in> set ds. encodable d \<and> d \<noteq> Terminate"
  shows "tc_run cm le (concat (map encode_directive ds) @ encode_directive Terminate @ rest) t =
    do { (outs, t) \<leftarrow> tc_steps cm le (ds @ [Terminate]) t; Some (concat outs, t) }"
  using assms
proof (induction ds arbitrary: t)
  case Nil
  show ?case
    using parse_encode [of Terminate rest]
    by (subst tc_run.simps) (auto split: Option.bind_splits)
next
  case (Cons d ds)
  have "parse_directive (encode_directive d @ concat (map encode_directive ds) @ encode_directive Terminate @ rest) =
      Directive d (concat (map encode_directive ds) @ encode_directive Terminate @ rest)"
    using Cons.prems by (intro parse_encode) simp
  with Cons show ?case
    by (subst tc_run.simps) (auto split: Option.bind_splits)
qed

theorem tc_run_encoded_witness:
  "tc_run False False (concat (map encode_directive [Delete [], Validate_Unsat]) @ encode_directive Terminate @ [1]) tc_start =
    do { (outs, t) \<leftarrow> tc_steps False False ([Delete [], Validate_Unsat] @ [Terminate]) tc_start;
         Some (concat outs, t) }"
  by (rule tc_run_encoded) simp

section \<open>From the parser to the checker\<close>

lemma split_printed:
  "\<forall>C \<in> set L. \<forall>l \<in> set C. is_lit l \<Longrightarrow> split_stream (join_clauses L) = (L, [])"
  by (rule split_stream_join) (auto simp: is_lit_def)

text \<open>
  C4. Parser and checker agree on the formula. For every printed formula whose literals lie
  within the declared variables, the signature that the parser computes while it splits the
  literals at its buffer size is the one that the checker computes clause by clause, so END_LOAD
  is accepted, and the checker then holds exactly the formula's clauses.
\<close>

theorem parser_checker_agree:
  assumes n: "int n < 2 ^ 31 - 1" and L: "\<forall>C \<in> set L. \<forall>l \<in> set C. is_lit l \<and> lit_var l \<le> int n"
    and len: "length (join_clauses L) < 2 ^ 30 - 1" and cs: "\<forall>t \<in> set cs. 10 \<notin> set t \<and> 13 \<notin> set t"
  shows "\<exists>sig s t outs. tp_parse (show_cnf cs n L) tp_init = Some (True, sig, s) \<and>
    f_out s = trusted_utils_write_int (int n) @ trusted_utils_write_int (int (length L)) @
      trusted_utils_write_ints (join_clauses L) @ trusted_utils_write_sig sig \<and>
    tc_steps cm le [Init (int n) sig, Load (join_clauses L), End_Load] tc_start = Some (outs, t) \<and>
    last outs = say True \<and> serves L (chk t)"
proof -
  have lits: "\<forall>C \<in> set L. \<forall>l \<in> set C. is_lit l" using L by blast
  have lenL: "int (length L) < 2 ^ 31" using length_join [of L] len by simp
  have n': "int n < 2 ^ 31" using n by simp
  obtain s where s: "tp_parse (show_cnf cs n L) tp_init = Some (True, formula_sig (join_clauses L), s)"
    "f_out s = trusted_utils_write_int (int n) @ trusted_utils_write_int (int (length L)) @
      trusted_utils_write_ints (join_clauses L) @ trusted_utils_write_sig (formula_sig (join_clauses L))"
    using tp_parse_printed [OF n' lenL lits cs] by blast
  have "lits_within (nat (int n + 1)) (join_clauses L)"
    using L by (force simp: lits_within_def join_clauses_def clause_init_def lit_var_def)
  moreover have "split_stream (concat [join_clauses L]) = (L, [])" using split_printed [OF lits] by simp
  ultimately obtain t outs where t: "tc_steps cm le
      (Init (int n) (formula_sig (join_clauses L)) # map Load [join_clauses L] @ [End_Load]) tc_start = Some (outs, t)"
    "serves L (chk t)" "last outs = say True"
    using accepted_formula [of "int n" "[join_clauses L]" L _ cm le] n len by auto
  with s show ?thesis by auto
qed

theorem parser_checker_agree_witness:
  "\<exists>sig s t outs. tp_parse (show_cnf [] 2 [[1, -2], [2]]) tp_init = Some (True, sig, s) \<and>
    f_out s = trusted_utils_write_int (int 2) @ trusted_utils_write_int (int (length [[1, -2], [2 :: int]])) @
      trusted_utils_write_ints (join_clauses [[1, -2], [2]]) @ trusted_utils_write_sig sig \<and>
    tc_steps False False [Init (int 2) sig, Load (join_clauses [[1, -2], [2]]), End_Load] tc_start = Some (outs, t) \<and>
    last outs = say True \<and> serves [[1, -2], [2]] (chk t)"
  by (rule parser_checker_agree) (simp_all add: is_lit_def lit_var_def join_clauses_def clause_init_def)

section \<open>Confirming a result (main_confirm.c)\<close>

datatype confirm_answer = Verified_Satisfiable | Verified_Unsatisfiable | Not_Verified

definition strnlen :: "bytes \<Rightarrow> nat \<Rightarrow> nat" where
  "strnlen s n = min (strlen s) n"

text \<open>
  The program after its arguments are parsed: \<open>result\<close> is the value of \<open>atoi\<close>, \<open>sig_str\<close> the
  C string of the argument, \<open>formula\<close> the contents of the formula file.
\<close>

definition main_confirm :: "bytes \<Rightarrow> int \<Rightarrow> bytes \<Rightarrow> confirm_answer option" where
  "main_confirm formula result sig_str =
     (if result \<noteq> 10 \<and> result \<noteq> 20 then Some Not_Verified
      else if strnlen sig_str (2 * SIG_SIZE_BYTES + 1) \<noteq> 2 * SIG_SIZE_BYTES then Some Not_Verified
      else do {
        (ok, sig_formula, s) \<leftarrow> tp_parse formula tp_init;
        if \<not> ok then Some Not_Verified
        else do {
          (ok, sig_res_reported) \<leftarrow> trusted_utils_str_to_sig sig_str;
          if \<not> ok then Some Not_Verified
          else do {
            (sig_res_computed, h) \<leftarrow> confirm_result sig_formula (word_of_int result) (tsip s);
            eq \<leftarrow> trusted_utils_equal_signatures sig_res_computed sig_res_reported;
            if \<not> eq then Some Not_Verified
            else if result = 10 then Some Verified_Satisfiable
            else Some Verified_Unsatisfiable
          }
        }
      })"


lemma dec_hex_nonzero: "0 \<notin> set (butlast (trusted_utils_sig_to_str sig))"
proof (induction sig)
  case (Cons b sig)
  have "hex_digit v \<noteq> 0" if "unat v < 16" for v
  proof -
    have "list_all (\<lambda>n. hex_digit (of_nat n) \<noteq> 0) [0..<16]" by code_simp
    then have "hex_digit (of_nat (unat v)) \<noteq> 0"
      using that by (auto simp only: list_all_iff set_upt atLeastLessThan_iff)
    then show ?thesis by simp
  qed
  then have "hex_digit (drop_bit 4 b AND 0x0f) \<noteq> 0" "hex_digit (b AND 0x0f) \<noteq> 0"
    by (simp_all only: low_nibble) simp_all
  moreover have "trusted_utils_sig_to_str sig \<noteq> []" by (cases sig) auto
  ultimately show ?case using Cons by simp
qed simp

lemma strlen_hex: "strlen (trusted_utils_sig_to_str sig) = 2 * length sig"
proof -
  let ?h = "trusted_utils_sig_to_str sig"
  have ne: "trusted_utils_sig_to_str g \<noteq> []" for g by (cases g) auto
  then have "last ?h = 0" by (induction sig) auto
  with ne have "?h = c_string (butlast ?h)" by (metis append_butlast_last_id c_string_def)
  then have "strlen ?h = length (butlast ?h)" using strlen_c_string [OF dec_hex_nonzero] by metis
  then show ?thesis by (simp add: sig_to_str_length)
qed

text \<open>
  C5. The confirmer accepts exactly the certificate of the result. For a printed formula and a
  16-byte certificate in hexadecimal form, the confirmer prints VERIFIED for a result code if and
  only if the certificate is the keyed hash of the formula's signature and this code, which is
  what the checker answers to an accepted validation.
\<close>

theorem main_confirm_iff:
  assumes n: "int n < 2 ^ 31" "int (length L) < 2 ^ 31" "\<forall>C \<in> set L. \<forall>l \<in> set C. is_lit l"
    and cs: "\<forall>t \<in> set cs. 10 \<notin> set t \<and> 13 \<notin> set t" and sig: "length sig = 16"
  shows "main_confirm (show_cnf cs n L) 20 (trusted_utils_sig_to_str sig) =
      Some (if sig = result_sig (formula_sig (join_clauses L)) 20 then Verified_Unsatisfiable else Not_Verified) \<and>
    main_confirm (show_cnf cs n L) 10 (trusted_utils_sig_to_str sig) =
      Some (if sig = result_sig (formula_sig (join_clauses L)) 10 then Verified_Satisfiable else Not_Verified)"
proof -
  let ?f = "formula_sig (join_clauses L)"
  obtain s where s: "tp_parse (show_cnf cs n L) tp_init = Some (True, ?f, s)" "hasher_ok (tsip s)"
    using tp_parse_printed [OF n cs] by blast
  have f16: "length ?f = 16" by (simp add: formula_sig_def)
  have "\<exists>h. confirm_result ?f code (tsip s) = Some (result_sig ?f code, h)" for code
    using confirm_result_spec [OF s(2) f16] by blast
  then obtain h20 h10 where h: "confirm_result ?f 20 (tsip s) = Some (result_sig ?f 20, h20)"
    "confirm_result ?f 10 (tsip s) = Some (result_sig ?f 10, h10)" by blast
  have len: "strnlen (trusted_utils_sig_to_str sig) (2 * SIG_SIZE_BYTES + 1) = 2 * SIG_SIZE_BYTES"
    by (simp add: strnlen_def strlen_hex sig SIG_SIZE_BYTES_def)
  then have len: "strnlen (trusted_utils_sig_to_str sig) (Suc (2 * SIG_SIZE_BYTES)) = 2 * SIG_SIZE_BYTES"
    by simp
  have eq: "trusted_utils_equal_signatures (result_sig ?f code) sig = Some (sig = result_sig ?f code)" for code
    using sig by (auto simp: equal_signatures_spec)
  show ?thesis
    by (simp add: main_confirm_def len s(1) str_to_sig_round_trip [OF sig] h eq)
qed

theorem main_confirm_iff_witness:
  "main_confirm (show_cnf [] 1 [[1]]) 20 (trusted_utils_sig_to_str (replicate 16 0)) =
      Some (if replicate 16 0 = result_sig (formula_sig (join_clauses [[1]])) 20
            then Verified_Unsatisfiable else Not_Verified) \<and>
    main_confirm (show_cnf [] 1 [[1]]) 10 (trusted_utils_sig_to_str (replicate 16 0)) =
      Some (if replicate 16 0 = result_sig (formula_sig (join_clauses [[1]])) 10
            then Verified_Satisfiable else Not_Verified)"
  by (rule main_confirm_iff) (simp_all add: is_lit_def)

end
