(* ===== verification/Circular_Buffer.thy ===== *)
theory Circular_Buffer
  imports Prelude_C
begin

text \<open>
  The byte ring buffer of \<open>circularbuffer/src/circular_buffer.c\<close>. The offsets are \<open>size_t\<close>
  values that use \<open>(size_t) -1\<close> for "nothing stored", and the code adds to them and compares
  them as unsigned numbers; here they are natural numbers with the wrap-around at \<open>2 ^ 64\<close>
  written out. The theory proves that the buffer is a bounded queue that drops its oldest bytes.
\<close>

declare One_nat_def [simp del] length_greater_0_conv [simp del]

section \<open>Model\<close>

record circular_buffer =
  cb_size :: nat
  dataSize :: nat
  tailOffset :: nat
  headOffset :: nat
  cb_mem :: bytes

definition CircularBufferReset :: "circular_buffer \<Rightarrow> circular_buffer" where
  "CircularBufferReset cBuf = cBuf\<lparr>headOffset := NEG1, tailOffset := NEG1, dataSize := 0\<rparr>"

text \<open>The fresh memory has arbitrary contents \<open>junk\<close>.\<close>

definition CircularBufferCreate :: "bytes \<Rightarrow> circular_buffer" where
  "CircularBufferCreate junk = CircularBufferReset
     \<lparr>cb_size = length junk, dataSize = 0, tailOffset = 0, headOffset = 0, cb_mem = junk\<rparr>"

definition CircularBufferGetCapacity :: "circular_buffer \<Rightarrow> nat" where
  "CircularBufferGetCapacity cBuf = cb_size cBuf"

definition CircularBufferGetSize :: "circular_buffer \<Rightarrow> nat" where
  "CircularBufferGetSize cBuf = cb_size cBuf"

definition CircularBufferGetDataSize :: "circular_buffer \<Rightarrow> nat" where
  "CircularBufferGetDataSize cBuf = dataSize cBuf"

text \<open>
  \<open>CircularBufferPush\<close> in its two parts: copying the bytes \<open>pSrc\<close> that fit behind the tail (the
  flag is \<open>resetHead\<close>), and setting the head and the data size.
\<close>

definition push_copy :: "circular_buffer \<Rightarrow> bytes \<Rightarrow> (circular_buffer \<times> bool) option" where
  "push_copy cBuf pSrc =
     (let writableLen = length pSrc in
      if wadd (tailOffset cBuf) writableLen < cb_size cBuf then
        do {
          mem \<leftarrow> mem_write (cb_mem cBuf) (wadd (tailOffset cBuf) 1) pSrc;
          let resetHead = (tailOffset cBuf < headOffset cBuf \<and>
            wadd (tailOffset cBuf) writableLen \<ge> headOffset cBuf);
          Some (cBuf\<lparr>cb_mem := mem, tailOffset := wadd (tailOffset cBuf) writableLen\<rparr>, resetHead)
        }
      else
        do {
          let remainSize = wsub (wsub (cb_size cBuf) (tailOffset cBuf)) 1;
          chunk1 \<leftarrow> mem_slice pSrc 0 remainSize;
          mem \<leftarrow> mem_write (cb_mem cBuf) (wadd (tailOffset cBuf) 1) chunk1;
          let coverSize = wsub writableLen remainSize;
          chunk2 \<leftarrow> mem_slice pSrc remainSize coverSize;
          mem \<leftarrow> mem_write mem 0 chunk2;
          let resetHead = (if tailOffset cBuf < headOffset cBuf then True
            else coverSize > headOffset cBuf);
          Some (cBuf\<lparr>cb_mem := mem, tailOffset := wsub coverSize 1\<rparr>, resetHead)
        })"

definition push_settle :: "bool \<Rightarrow> circular_buffer \<Rightarrow> circular_buffer" where
  "push_settle resetHead cBuf =
     (let cBuf = (if headOffset cBuf = NEG1 then cBuf\<lparr>headOffset := 0\<rparr> else cBuf) in
      if resetHead then
        cBuf\<lparr>headOffset := (if wadd (tailOffset cBuf) 1 < cb_size cBuf
                             then wadd (tailOffset cBuf) 1 else 0),
             dataSize := cb_size cBuf\<rparr>
      else if tailOffset cBuf \<ge> headOffset cBuf then
        cBuf\<lparr>dataSize := wadd (wsub (tailOffset cBuf) (headOffset cBuf)) 1\<rparr>
      else
        cBuf\<lparr>dataSize := wsub (cb_size cBuf) (wsub (wsub (headOffset cBuf) (tailOffset cBuf)) 1)\<rparr>)"

definition CircularBufferPush :: "circular_buffer \<Rightarrow> bytes \<Rightarrow> circular_buffer option" where
  "CircularBufferPush cBuf src =
     (if length src = 0 then Some cBuf
      else do {
        let pSrc = (if length src > cb_size cBuf then drop (length src - cb_size cBuf) src else src);
        (cBuf, resetHead) \<leftarrow> push_copy cBuf pSrc;
        Some (push_settle resetHead cBuf)
      })"

text \<open>
  The result: the number of bytes read, the bytes written to \<open>dataOut\<close> (none for a null
  pointer, \<open>out = False\<close>), and the buffer.
\<close>

definition inter_circularBuffer_read ::
  "circular_buffer \<Rightarrow> nat \<Rightarrow> bool \<Rightarrow> bool \<Rightarrow> (nat \<times> bytes \<times> circular_buffer) option"
where
  "inter_circularBuffer_read cBuf len out resetHead =
     (if dataSize cBuf = 0 \<or> len = 0 then Some (0, [], cBuf)
      else do {
        let rdLen = (if dataSize cBuf < len then dataSize cBuf else len);
        (dataOut, cBuf) \<leftarrow>
          (if headOffset cBuf \<le> tailOffset cBuf then
             do {
               chunk \<leftarrow> (if out then mem_slice (cb_mem cBuf) (headOffset cBuf) rdLen else Some []);
               let h = wadd (headOffset cBuf) rdLen;
               Some (chunk,
                 if \<not> resetHead then cBuf
                 else if h > tailOffset cBuf then cBuf\<lparr>headOffset := NEG1, tailOffset := NEG1\<rparr>
                 else cBuf\<lparr>headOffset := h\<rparr>)
             }
           else if wadd (headOffset cBuf) rdLen \<le> cb_size cBuf then
             do {
               chunk \<leftarrow> (if out then mem_slice (cb_mem cBuf) (headOffset cBuf) rdLen else Some []);
               let h = wadd (headOffset cBuf) rdLen;
               Some (chunk,
                 if \<not> resetHead then cBuf
                 else cBuf\<lparr>headOffset := (if h = cb_size cBuf then 0 else h)\<rparr>)
             }
           else
             do {
               let frg1Len = wsub (cb_size cBuf) (headOffset cBuf);
               chunk1 \<leftarrow> (if out then mem_slice (cb_mem cBuf) (headOffset cBuf) frg1Len else Some []);
               let frg2len = wsub rdLen frg1Len;
               chunk2 \<leftarrow> (if out then mem_slice (cb_mem cBuf) 0 frg2len else Some []);
               Some (chunk1 @ chunk2,
                 if \<not> resetHead then cBuf
                 else if frg2len > tailOffset cBuf then cBuf\<lparr>headOffset := NEG1, tailOffset := NEG1\<rparr>
                 else cBuf\<lparr>headOffset := frg2len\<rparr>)
             });
        Some (rdLen, dataOut, if resetHead then cBuf\<lparr>dataSize := wsub (dataSize cBuf) rdLen\<rparr> else cBuf)
      })"

definition CircularBufferPop :: "circular_buffer \<Rightarrow> nat \<Rightarrow> bool \<Rightarrow> (nat \<times> bytes \<times> circular_buffer) option" where
  "CircularBufferPop cBuf len out = inter_circularBuffer_read cBuf len out True"

definition CircularBufferRead :: "circular_buffer \<Rightarrow> nat \<Rightarrow> bool \<Rightarrow> (nat \<times> bytes \<times> circular_buffer) option" where
  "CircularBufferRead cBuf len out = inter_circularBuffer_read cBuf len out False"

section \<open>Printing\<close>

text \<open>
  \<open>sprintf\<close> with \<open>%c|\<close> and \<open>%02X|\<close>: the argument is a \<open>char\<close>, so a byte above 127 is printed
  as a 32-bit negative number. The terminating 0 is written too.
\<close>

fun hex_digits :: "nat \<Rightarrow> nat \<Rightarrow> bytes" where
  "hex_digits 0 n = []"
| "hex_digits (Suc w) n =
     hex_digits w (n div 16) @ [let d = n mod 16 in if d < 10 then of_nat (48 + d) else of_nat (55 + d)]"

definition fmt_hex :: "u8 \<Rightarrow> bytes" where
  "fmt_hex c = (if c < 128 then hex_digits 2 (unat c) else hex_digits 8 (2 ^ 32 - 256 + unat c)) @ [124, 0]"

definition fmt_char :: "u8 \<Rightarrow> bytes" where
  "fmt_char c = [c, 124, 0]"

definition print_char :: "circular_buffer \<Rightarrow> nat \<Rightarrow> u8" where
  "print_char cBuf i =
     (if CircularBufferGetDataSize cBuf = 0 then 95
      else if tailOffset cBuf < headOffset cBuf then
        (if i > tailOffset cBuf \<and> i < headOffset cBuf then 95 else cb_mem cBuf ! i)
      else (if i > tailOffset cBuf \<or> i < headOffset cBuf then 95 else cb_mem cBuf ! i))"

definition print_cell :: "circular_buffer \<Rightarrow> bool \<Rightarrow> nat \<Rightarrow> bytes" where
  "print_cell cBuf hex i =
     (if hex then fmt_hex (print_char cBuf i) else fmt_char (print_char cBuf i))"

fun print_loop :: "circular_buffer \<Rightarrow> bool \<Rightarrow> nat list \<Rightarrow> bytes \<Rightarrow> bytes option" where
  "print_loop cBuf hex [] str = Some str"
| "print_loop cBuf hex (i # is) str =
     do { str \<leftarrow> mem_write str (i * 2) (print_cell cBuf hex i); print_loop cBuf hex is str }"

text \<open>The string that is printed; \<open>junk\<close> is what \<open>malloc(2 * size + 1)\<close> returns.\<close>

definition CircularBufferPrint :: "circular_buffer \<Rightarrow> bool \<Rightarrow> bytes \<Rightarrow> bytes option" where
  "CircularBufferPrint cBuf hex junk =
     do { str \<leftarrow> print_loop cBuf hex [0..<cb_size cBuf] junk;
          if 0 \<in> set str then Some (takeWhile (\<lambda>b. b \<noteq> 0) str) else None }"

section \<open>The queue it implements\<close>

definition pos :: "nat \<Rightarrow> nat \<Rightarrow> nat \<Rightarrow> nat" where
  "pos n h i = (h + i) mod n"

definition ring :: "bytes \<Rightarrow> nat \<Rightarrow> nat \<Rightarrow> bytes" where
  "ring buf h k = map (\<lambda>i. buf ! pos (length buf) h i) [0..<k]"

definition contents :: "circular_buffer \<Rightarrow> bytes" where
  "contents cb = (if dataSize cb = 0 then [] else ring (cb_mem cb) (headOffset cb) (dataSize cb))"

definition cb_inv :: "circular_buffer \<Rightarrow> bool" where
  "cb_inv cb = (0 < cb_size cb \<and> cb_size cb < 2 ^ 63 \<and> length (cb_mem cb) = cb_size cb \<and>
     (if dataSize cb = 0 then headOffset cb = NEG1 \<and> tailOffset cb = NEG1
      else headOffset cb < cb_size cb \<and> tailOffset cb < cb_size cb \<and>
        dataSize cb = (if headOffset cb \<le> tailOffset cb then tailOffset cb - headOffset cb + 1
                       else cb_size cb - headOffset cb + tailOffset cb + 1)))"

text \<open>Keep the last \<open>n\<close> elements.\<close>

definition last_n :: "nat \<Rightarrow> 'a list \<Rightarrow> 'a list" where
  "last_n n xs = drop (length xs - n) xs"

lemma length_ring [simp]: "length (ring buf h k) = k"
  by (simp add: ring_def)

lemma ring_0 [simp]: "ring buf h 0 = []"
  by (simp add: ring_def)

lemma nth_ring [simp]: "i < k \<Longrightarrow> ring buf h k ! i = buf ! pos (length buf) h i"
  by (simp add: ring_def)

lemma pos_if: "h < n \<Longrightarrow> i \<le> n \<Longrightarrow> pos n h i = (if h + i < n then h + i else h + i - n)"
  by (simp add: pos_def mod_if)

lemma pos_pos: "pos n (pos n h d) i = pos n h (d + i)"
  by (simp add: pos_def mod_simps add.assoc)

lemma pos_add_self: "pos n h (k + n) = pos n h k"
proof -
  have "h + (k + n) = (h + k) + n" by simp
  then show ?thesis by (simp only: pos_def mod_add_self2)
qed

definition off :: "nat \<Rightarrow> nat \<Rightarrow> nat \<Rightarrow> nat" where
  "off n p j = (if p \<le> j then j - p else j + n - p)"

lemma pos_offset:
  assumes "x < n"
  shows "off n (pos n h a) (pos n h (a + x)) = x"
proof -
  have "pos n h (a + x) = pos n (pos n h a) x" by (simp add: pos_pos)
  also have "\<dots> = (if pos n h a + x < n then pos n h a + x else pos n h a + x - n)"
    using assms by (intro pos_if) (simp_all add: pos_def)
  finally show ?thesis using assms by (auto simp: pos_def off_def)
qed

text \<open>Writing \<open>w\<close> around the ring, starting at position \<open>p\<close>.\<close>

definition ring_write :: "bytes \<Rightarrow> nat \<Rightarrow> bytes \<Rightarrow> bytes" where
  "ring_write buf p w =
     map (\<lambda>j. let d = off (length buf) p j in if d < length w then w ! d else buf ! j) [0..<length buf]"

lemma length_ring_write [simp]: "length (ring_write buf p w) = length buf"
  by (simp add: ring_write_def)

lemma ring_write_straight:
  assumes "p + length w \<le> length buf"
  shows "take p buf @ w @ drop (p + length w) buf = ring_write buf p w"
  using assms
  by (intro nth_equalityI) (auto simp: ring_write_def nth_append Let_def min_def off_def)

lemma ring_write_wrap:
  assumes "p \<le> length buf" "length buf \<le> p + length w" "length w \<le> length buf"
  shows "drop (length buf - p) w @ drop (length w - (length buf - p)) (take p buf @ take (length buf - p) w) =
    ring_write buf p w"
proof (rule nth_equalityI)
  fix j assume "j < length (drop (length buf - p) w @ drop (length w - (length buf - p)) (take p buf @ take (length buf - p) w))"
  then have j: "j < length buf" using assms by simp
  consider "j < length w + p - length buf" | "length w + p - length buf \<le> j" "j < p" | "p \<le> j"
    by linarith
  then show "(drop (length buf - p) w @ drop (length w - (length buf - p)) (take p buf @ take (length buf - p) w)) ! j =
      ring_write buf p w ! j"
  proof cases
    case 1
    then have "length buf - p + j = j + length buf - p" "j < p" "j + length buf - p < length w"
      using assms by auto
    with 1 j assms show ?thesis by (simp add: ring_write_def nth_append Let_def off_def)
  next
    case 2
    with j assms show ?thesis by (auto simp: ring_write_def nth_append Let_def off_def)
  next
    case 3
    with j assms show ?thesis by (auto simp: ring_write_def nth_append Let_def off_def)
  qed
qed (use assms in simp)

lemma ring_push:
  assumes h: "h < length buf" and n: "n \<le> length buf" and w: "length w \<le> length buf"
    and p: "p = pos (length buf) h n" and d: "d = n + length w - length buf"
  shows "ring (ring_write buf p w) (pos (length buf) h d) (n + length w - d) = drop d (ring buf h n @ w)"
proof (rule nth_equalityI)
  show "length (ring (ring_write buf p w) (pos (length buf) h d) (n + length w - d)) =
      length (drop d (ring buf h n @ w))" by simp
next
  fix i assume "i < length (ring (ring_write buf p w) (pos (length buf) h d) (n + length w - d))"
  then have i: "i < n + length w - d" by simp
  let ?N = "length buf"
  define k where "k = d + i"
  have k: "k < n + length w" using i by (simp add: k_def)
  have "pos ?N (pos ?N h d) i = pos ?N h k" by (simp add: pos_pos k_def)
  moreover have lt: "pos ?N h k < ?N" unfolding pos_def using h by (intro mod_less_divisor) linarith
  moreover have "drop d (ring buf h n @ w) ! i = (ring buf h n @ w) ! k"
    unfolding k_def using i by (intro nth_drop) simp
  moreover have "ring_write buf p w ! pos ?N h k = (ring buf h n @ w) ! k"
  proof (cases "k < n")
    case True
    define x where "x = ?N - (n - k)"
    have "n + x = k + ?N" using True n by (simp add: x_def)
    then have "pos ?N h (n + x) = pos ?N h k" by (simp only: pos_add_self)
    moreover have "x < ?N" "length w \<le> x" using True n h w d by (auto simp: x_def k_def)
    ultimately show ?thesis
      using True lt pos_offset [of x ?N h n] by (simp add: p ring_write_def nth_append Let_def)
  next
    case False
    then have "k - n < ?N" "pos ?N h (n + (k - n)) = pos ?N h k" "k - n < length w" using k w by auto
    then show ?thesis
      using False lt pos_offset [of "k - n" ?N h n] by (simp add: p ring_write_def nth_append Let_def)
  qed
  ultimately show "ring (ring_write buf p w) (pos ?N h d) (n + length w - d) ! i = drop d (ring buf h n @ w) ! i"
    using i by simp
qed


section \<open>Push\<close>

lemma reset_inv:
  assumes "0 < cb_size cb" "cb_size cb < 2 ^ 63" "length (cb_mem cb) = cb_size cb"
  shows "cb_inv (CircularBufferReset cb)" "contents (CircularBufferReset cb) = []"
    "cb_size (CircularBufferReset cb) = cb_size cb"
  using assms by (simp_all add: cb_inv_def CircularBufferReset_def contents_def)

lemma create_inv:
  assumes "0 < length junk" "length junk < 2 ^ 63"
  shows "cb_inv (CircularBufferCreate junk)" "contents (CircularBufferCreate junk) = []"
    "cb_size (CircularBufferCreate junk) = length junk"
  using assms reset_inv by (simp_all add: CircularBufferCreate_def)

text \<open>What the caller sees of a push: the head, the tail and the size after it.\<close>

definition push_result :: "circular_buffer \<Rightarrow> bytes \<Rightarrow> circular_buffer" where
  "push_result cb w =
     (let N = cb_size cb; n = dataSize cb; h = (if n = 0 then 0 else headOffset cb);
          d = n + length w - N; p = pos N h n
      in cb\<lparr>cb_mem := ring_write (cb_mem cb) p w, headOffset := pos N h d,
           tailOffset := pos N p (length w - 1), dataSize := n + length w - d\<rparr>)"

lemma push_result_inv:
  assumes "cb_inv cb" "0 < length w" "length w \<le> cb_size cb"
  shows "cb_inv (push_result cb w)"
    "contents (push_result cb w) = drop (dataSize cb + length w - cb_size cb) (contents cb @ w)"
    "cb_size (push_result cb w) = cb_size cb"
proof -
  let ?N = "cb_size cb" and ?n = "dataSize cb"
  define h where "h = (if ?n = 0 then 0 else headOffset cb)"
  define d where "d = ?n + length w - ?N"
  have N: "0 < ?N" "length (cb_mem cb) = ?N" "?N < 2 ^ 63" using assms(1) by (auto simp: cb_inv_def)
  have h: "h < ?N" and n: "?n \<le> ?N" using assms(1) by (auto simp: cb_inv_def h_def split: if_splits)
  have push: "push_result cb w = cb\<lparr>cb_mem := ring_write (cb_mem cb) (pos ?N h ?n) w, headOffset := pos ?N h d,
      tailOffset := pos ?N (pos ?N h ?n) (length w - 1), dataSize := ?n + length w - d\<rparr>"
    by (simp add: push_result_def Let_def h_def d_def)
  have k: "0 < ?n + length w - d" "?n + length w - d \<le> ?N" using assms(2,3) n unfolding d_def by linarith+
  have "pos ?N (pos ?N h ?n) (length w - 1) = pos ?N (pos ?N h d) (?n + length w - d - 1)"
    using assms(2) k by (simp add: pos_pos)
  moreover define h' where "h' = pos ?N h d"
  moreover have h': "h' < ?N" using N(1) by (simp add: h'_def pos_def)
  ultimately have tail: "pos ?N (pos ?N h ?n) (length w - 1) =
      (if h' + (?n + length w - d - 1) < ?N then h' + (?n + length w - d - 1)
       else h' + (?n + length w - d - 1) - ?N)"
    using k pos_if [OF h', of "?n + length w - d - 1"] by simp
  show "cb_inv (push_result cb w)"
    using N k h' by (auto simp: push cb_inv_def tail h'_def [symmetric] simp del: One_nat_def)
  show "cb_size (push_result cb w) = ?N" by (simp add: push)
  have "contents cb = ring (cb_mem cb) h ?n" by (simp add: contents_def h_def ring_def)
  then show "contents (push_result cb w) = drop (?n + length w - ?N) (contents cb @ w)"
    using ring_push [of h "cb_mem cb" ?n w "pos ?N h ?n" d] h n N(2) k assms(3)
    by (simp add: push contents_def d_def)
qed


text \<open>The code computes this result.\<close>

lemma ring_write_end: "ring_write buf (length buf) w = ring_write buf 0 w"
  by (auto simp: ring_write_def Let_def off_def)

lemma push_copy_straight:
  assumes "wadd (tailOffset cb) (length w) < cb_size cb" "wadd (tailOffset cb) 1 + length w \<le> length (cb_mem cb)"
  shows "push_copy cb w = Some (cb\<lparr>cb_mem := ring_write (cb_mem cb) (wadd (tailOffset cb) 1) w,
      tailOffset := wadd (tailOffset cb) (length w)\<rparr>,
    tailOffset cb < headOffset cb \<and> wadd (tailOffset cb) (length w) \<ge> headOffset cb)"
proof -
  have "mem_write (cb_mem cb) (wadd (tailOffset cb) 1) w = Some (ring_write (cb_mem cb) (wadd (tailOffset cb) 1) w)"
    using assms(2) by (simp add: ring_write_straight)
  with assms(1) show ?thesis by (simp add: push_copy_def Let_def del: mem_write_Some)
qed

lemma push_copy_wrap:
  assumes t: "tailOffset cb < cb_size cb" "cb_size cb \<le> tailOffset cb + length w" "length w \<le> cb_size cb"
    and N: "length (cb_mem cb) = cb_size cb" "cb_size cb < 2 ^ 63"
  shows "push_copy cb w =
    (let cover = tailOffset cb + length w + 1 - cb_size cb in
     Some (cb\<lparr>cb_mem := ring_write (cb_mem cb) (tailOffset cb + 1) w, tailOffset := cover - 1\<rparr>,
       tailOffset cb < headOffset cb \<or> cover > headOffset cb))"
proof -
  let ?N = "cb_size cb" and ?t = "tailOffset cb"
  define r where "r = ?N - (?t + 1)"
  define cov where "cov = ?t + length w + 1 - ?N"
  have c: "length w - r = cov" "r + cov = length w" "0 < cov" using t by (simp_all add: r_def cov_def)
  have a: "wadd ?t (length w) = ?t + length w" "wadd ?t 1 = ?t + 1" "wsub (wsub ?N ?t) 1 = r"
    "wsub (length w) r = cov" "wsub cov 1 = cov - 1"
    using t c N(2) by (simp_all add: wadd_small wsub_small r_def)
  have r: "r \<le> length w" "?t + 1 + r = ?N" "cov \<le> ?N" using t c by (simp_all add: r_def)
  have w1: "mem_slice w 0 r = Some (take r w)" using r by simp
  have w2: "mem_write (cb_mem cb) (?t + 1) (take r w) = Some (take (?t + 1) (cb_mem cb) @ take r w)"
    using r N by simp
  have w3: "mem_slice w r cov = Some (drop r w)" using c(2) by simp
  have w4: "mem_write (take (?t + 1) (cb_mem cb) @ take r w) 0 (drop r w) =
      Some (ring_write (cb_mem cb) (?t + 1) w)"
    using ring_write_wrap [of "?t + 1" "cb_mem cb" w] t N r by (simp add: r_def)
  show ?thesis
    using t(2) by (simp add: push_copy_def Let_def a w1 w2 w3 w4 cov_def [symmetric]
        del: mem_write_Some mem_slice_Some)
qed

lemma push_fits:
  assumes inv: "cb_inv cb" and w: "0 < length w" "length w \<le> cb_size cb"
  shows "CircularBufferPush cb w = Some (push_result cb w)"
proof -
  let ?N = "cb_size cb" and ?n = "dataSize cb" and ?L = "length w"
  have N: "0 < ?N" "length (cb_mem cb) = ?N" "?N < 2 ^ 63" using inv by (auto simp: cb_inv_def)
  have push: "CircularBufferPush cb w = do { (c, r) \<leftarrow> push_copy cb w; Some (push_settle r c) }"
    using w by (auto simp add: CircularBufferPush_def Let_def)
  show ?thesis
  proof (cases "?n = 0")
    case True
    then have e: "headOffset cb = NEG1" "tailOffset cb = NEG1" using inv by (auto simp: cb_inv_def)
    have a: "wadd NEG1 ?L = ?L - 1" "wadd NEG1 1 = 0" using w N by (simp_all add: wadd_NEG1)
    have c: "push_copy cb w = Some (cb\<lparr>cb_mem := ring_write (cb_mem cb) 0 w, tailOffset := ?L - 1\<rparr>, False)"
      using push_copy_straight [of cb w] w N by (simp add: e a)
    have L: "?L - 1 + 1 = ?L" using w(1) by linarith
    have "?L < 2 ^ 64" using w N by simp
    with L have "wadd (?L - 1) 1 = ?L" using wadd_small [of "?L - 1" 1] by simp
    then have "wadd (wsub (?L - 1) 0) 1 = ?L" using w N by (simp add: wsub_small)
    with c show ?thesis
      using True w N by (simp add: push push_settle_def push_result_def Let_def pos_def e)
  next
    case False
    define h where "h = headOffset cb"
    define t where "t = tailOffset cb"
    have ht: "h < ?N" "t < ?N" "?n = (if h \<le> t then t - h + 1 else ?N - h + t + 1)"
      using inv False by (auto simp: cb_inv_def h_def t_def)
    have nN: "?n \<le> ?N" using ht by (auto split: if_splits)
    define p where "p = (if t + 1 < ?N then t + 1 else 0)"
    have p: "pos ?N h ?n = p" using pos_if [OF ht(1) nN] ht by (auto simp: p_def split: if_splits)
    have a: "wadd t ?L = t + ?L" "wadd t 1 = t + 1" "h \<noteq> NEG1"
      using ht w N by (simp_all add: wadd_small NEG1_def)
    define d where "d = ?n + ?L - ?N"
    define t' where "t' = (if t + ?L < ?N then t + ?L else t + ?L - ?N)"
    define r where "r = (if t + ?L < ?N then t < h \<and> t + ?L \<ge> h else t < h \<or> t + ?L + 1 - ?N > h)"
    have copy: "push_copy cb w = Some (cb\<lparr>cb_mem := ring_write (cb_mem cb) p w, tailOffset := t'\<rparr>, r)"
    proof (cases "t + ?L < ?N")
      case True
      then have "t + 1 < ?N" using w(1) by linarith
      then have "p = t + 1" by (simp add: p_def)
      with True show ?thesis
        using push_copy_straight [of cb w] a N w by (auto simp: t'_def r_def h_def t_def)
    next
      case False
      have "ring_write (cb_mem cb) (t + 1) w = ring_write (cb_mem cb) p w"
      proof (cases "t + 1 < ?N")
        case False
        then have "t + 1 = length (cb_mem cb)" "p = 0" using ht(2) N(2) by (simp_all add: p_def)
        then show ?thesis by (simp only: ring_write_end)
      qed (simp add: p_def)
      then show ?thesis
        using push_copy_wrap [of cb w] False ht(2) w N by (auto simp: t'_def r_def h_def t_def Let_def)
    qed
    have d: "d \<le> ?N" using nN w by (simp add: d_def)
    have tail: "pos ?N p (?L - 1) = t'"
      using pos_if [of p ?N "?L - 1"] ht(2) w by (auto simp: p_def t'_def)
    have head: "pos ?N h d = (if r then (if t' + 1 < ?N then t' + 1 else 0) else h)"
      using pos_if [OF ht(1) d] ht w by (auto simp: r_def t'_def d_def split: if_splits)
    have size: "?n + ?L - d = (if r then ?N else if t' \<ge> h then t' - h + 1 else ?N - (h - t' - 1))"
      using ht w by (auto simp: r_def t'_def d_def split: if_splits)
    have ar: "wadd t' 1 = t' + 1" "h \<le> t' \<Longrightarrow> wadd (wsub t' h) 1 = t' - h + 1"
      "t' < h \<Longrightarrow> wsub ?N (wsub (wsub h t') 1) = ?N - (h - t' - 1)"
      using ht w N(3) by (auto simp: wadd_small wsub_small t'_def)
    show ?thesis
      using False a(3) ar
      by (auto simp: push copy push_settle_def push_result_def Let_def h_def [symmetric] p tail
          d_def [symmetric] head size)
  qed
qed

lemma push_spec:
  assumes inv: "cb_inv cb"
  shows "\<exists>cb'. CircularBufferPush cb src = Some cb' \<and> cb_inv cb' \<and> cb_size cb' = cb_size cb \<and>
    contents cb' = last_n (cb_size cb) (contents cb @ src)"
proof -
  let ?N = "cb_size cb"
  have n: "length (contents cb) = dataSize cb" by (simp add: contents_def)
  have nN: "dataSize cb \<le> ?N" "0 < ?N" using inv by (auto simp: cb_inv_def split: if_splits)
  consider "src = []" | "0 < length src" "length src \<le> ?N" | "?N < length src" by (cases src) force+
  then show ?thesis
  proof cases
    case 1
    then show ?thesis using inv nN n by (simp add: CircularBufferPush_def last_n_def)
  next
    case 2
    then show ?thesis
      using push_fits [OF inv 2] push_result_inv [OF inv 2] n by (simp add: last_n_def)
  next
    case 3
    let ?w = "drop (length src - ?N) src"
    have w: "0 < length ?w" "length ?w \<le> ?N" using 3 nN by simp_all
    have "CircularBufferPush cb src = CircularBufferPush cb ?w"
      using 3 nN by (auto simp: CircularBufferPush_def Let_def)
    with push_fits [OF inv w] push_result_inv [OF inv w] 3 n nN show ?thesis
      by (simp add: last_n_def)
  qed
qed

section \<open>Reading\<close>

lemma ring_straight: "h + k \<le> length buf \<Longrightarrow> ring buf h k = take k (drop h buf)"
  by (rule nth_equalityI) (simp_all add: pos_def)

lemma ring_wrap:
  assumes "h < length buf" "length buf \<le> h + k" "k \<le> length buf"
  shows "ring buf h k = drop h buf @ take (h + k - length buf) buf"
proof (rule nth_equalityI)
  fix i assume "i < length (ring buf h k)"
  then have "pos (length buf) h i = (if h + i < length buf then h + i else h + i - length buf)"
    using assms by (intro pos_if) simp_all
  with \<open>i < length (ring buf h k)\<close> assms
  show "ring buf h k ! i = (drop h buf @ take (h + k - length buf) buf) ! i"
    by (auto simp: nth_append intro: arg_cong [where f = "nth buf"])
qed (use assms in simp)

lemma take_ring: "r \<le> k \<Longrightarrow> take r (ring buf h k) = ring buf h r"
  by (rule nth_equalityI) simp_all

lemma drop_ring: "r \<le> k \<Longrightarrow> drop r (ring buf h k) = ring buf (pos (length buf) h r) (k - r)"
  by (rule nth_equalityI) (simp_all add: pos_pos)

definition read_result :: "circular_buffer \<Rightarrow> nat \<Rightarrow> circular_buffer" where
  "read_result cb r =
     (if r = dataSize cb then cb\<lparr>headOffset := NEG1, tailOffset := NEG1, dataSize := 0\<rparr>
      else cb\<lparr>headOffset := pos (cb_size cb) (headOffset cb) r, dataSize := dataSize cb - r\<rparr>)"

lemma read_result_inv:
  assumes inv: "cb_inv cb" and r: "0 < r" "r \<le> dataSize cb"
  shows "cb_inv (read_result cb r)" "contents (read_result cb r) = drop r (contents cb)"
    "cb_size (read_result cb r) = cb_size cb"
proof -
  let ?N = "cb_size cb" and ?n = "dataSize cb" and ?h = "headOffset cb" and ?t = "tailOffset cb"
  have ht: "?h < ?N" "?t < ?N" "?n = (if ?h \<le> ?t then ?t - ?h + 1 else ?N - ?h + ?t + 1)"
    "length (cb_mem cb) = ?N" "?N < 2 ^ 63"
    using inv r by (auto simp: cb_inv_def)
  have "r \<le> ?N" using ht r by (auto split: if_splits)
  then have p: "pos ?N ?h r = (if ?h + r < ?N then ?h + r else ?h + r - ?N)"
    by (rule pos_if [OF ht(1)])
  show "cb_size (read_result cb r) = ?N" by (simp add: read_result_def)
  show "contents (read_result cb r) = drop r (contents cb)"
    using r ht(4) by (auto simp: read_result_def contents_def drop_ring)
  show "cb_inv (read_result cb r)"
  proof (cases "r = ?n")
    case True
    then show ?thesis using ht by (auto simp: read_result_def cb_inv_def)
  next
    case False
    with ht r p show ?thesis by (auto simp: read_result_def cb_inv_def split: if_splits)
  qed
qed

lemma read_spec:
  assumes inv: "cb_inv cb"
  shows "\<exists>cb'. inter_circularBuffer_read cb len out reset =
      Some (min len (dataSize cb), if out then take len (contents cb) else [], cb') \<and>
    cb_inv cb' \<and> cb_size cb' = cb_size cb \<and>
    contents cb' = (if reset then drop len (contents cb) else contents cb)"
proof (cases "dataSize cb = 0 \<or> len = 0")
  case True
  then show ?thesis using inv by (auto simp: inter_circularBuffer_read_def contents_def)
next
  case False
  let ?N = "cb_size cb" and ?n = "dataSize cb" and ?h = "headOffset cb" and ?t = "tailOffset cb"
  define r where "r = min len ?n"
  have r: "0 < r" "r \<le> ?n" "(if ?n < len then ?n else len) = r" using False by (auto simp: r_def)
  have ht: "?h < ?N" "?t < ?N" "?n = (if ?h \<le> ?t then ?t - ?h + 1 else ?N - ?h + ?t + 1)"
    "length (cb_mem cb) = ?N" "?N < 2 ^ 63"
    using inv False by (auto simp: cb_inv_def)
  have rN: "r \<le> ?N" using ht r by (auto split: if_splits)
  have a: "wadd ?h r = ?h + r" "wsub ?n r = ?n - r" "wsub ?N ?h = ?N - ?h" "wsub ?n ?n = 0"
    using ht r rN by (auto simp: wadd_small wsub_small split: if_splits)
  have c: "contents cb = ring (cb_mem cb) ?h ?n" using False by (simp add: contents_def)
  have taker: "take len (contents cb) = ring (cb_mem cb) ?h r"
    using take_ring [OF r(2), of "cb_mem cb" ?h] by (cases "len \<le> ?n") (simp_all add: c r_def min_def)
  have dropr: "drop len (contents cb) = drop r (contents cb)"
    by (simp add: c r_def min_def)
  have run: "inter_circularBuffer_read cb len out reset =
    Some (r, if out then ring (cb_mem cb) ?h r else [], if reset then read_result cb r else cb)"
  proof (cases "?h \<le> ?t")
    case True
    have "?h + r \<le> ?N" using True ht r by simp
    then have s: "mem_slice (cb_mem cb) ?h r = Some (ring (cb_mem cb) ?h r)"
      using ht by (simp add: ring_straight)
    have "pos ?N ?h r = ?h + r" if "r \<noteq> ?n"
      using that True ht r by (simp add: pos_def)
    moreover have "(?t < ?h + r) = (r = ?n)" using True ht r by auto
    ultimately show ?thesis
      using False True by (auto simp: inter_circularBuffer_read_def Let_def r(3) a s read_result_def)
  next
    case nh: False
    show ?thesis
    proof (cases "?h + r \<le> ?N")
      case True
      then have s: "mem_slice (cb_mem cb) ?h r = Some (ring (cb_mem cb) ?h r)"
        using ht by (simp add: ring_straight)
      have "r \<noteq> ?n" using True nh ht by simp
      moreover have "pos ?N ?h r = (if ?h + r = ?N then 0 else ?h + r)"
        using True pos_if [OF ht(1) rN] by auto
      ultimately show ?thesis
        using False nh True by (auto simp: inter_circularBuffer_read_def Let_def r(3) a s read_result_def)
    next
      case wrap: False
      have f: "wsub r (?N - ?h) = ?h + r - ?N" using wrap ht rN by (simp add: wsub_small)
      have s1: "mem_slice (cb_mem cb) ?h (?N - ?h) = Some (drop ?h (cb_mem cb))" using ht by simp
      have "?h + r - ?N \<le> ?N" using ht rN by simp
      then have s2: "mem_slice (cb_mem cb) 0 (?h + r - ?N) = Some (take (?h + r - ?N) (cb_mem cb))"
        using ht by simp
      have "ring (cb_mem cb) ?h r = drop ?h (cb_mem cb) @ take (?h + r - ?N) (cb_mem cb)"
        using ring_wrap [of ?h "cb_mem cb" r] wrap ht rN by simp
      moreover have "pos ?N ?h r = ?h + r - ?N" using wrap pos_if [OF ht(1) rN] by simp
      moreover have "(?t < ?h + r - ?N) = (r = ?n)" using nh wrap ht r by auto
      ultimately show ?thesis
        using False nh wrap
        by (auto simp: inter_circularBuffer_read_def Let_def r(3) a f s1 s2 read_result_def
            simp del: mem_slice_Some)
    qed
  qed
  show ?thesis
    using run taker dropr read_result_inv [OF inv r(1,2)] inv by (auto simp: r_def)
qed


section \<open>The queue\<close>

text \<open>
  The contract of a bounded byte queue: a push appends and keeps the newest \<open>cap\<close> bytes, a pop
  removes from the front.
\<close>

locale byte_queue =
  fixes inv :: "'q \<Rightarrow> bool" and elems :: "'q \<Rightarrow> bytes" and cap :: "'q \<Rightarrow> nat"
    and push :: "'q \<Rightarrow> bytes \<Rightarrow> 'q option" and pop :: "'q \<Rightarrow> nat \<Rightarrow> (nat \<times> bytes \<times> 'q) option"
  assumes push_law: "inv q \<Longrightarrow> \<exists>q'. push q xs = Some q' \<and> inv q' \<and> cap q' = cap q \<and>
      elems q' = last_n (cap q) (elems q @ xs)"
    and pop_law: "inv q \<Longrightarrow> \<exists>q'. pop q n = Some (min n (length (elems q)), take n (elems q), q') \<and>
      inv q' \<and> cap q' = cap q \<and> elems q' = drop n (elems q)"
begin

lemma pushed_all:
  "inv q \<Longrightarrow> length (elems q) + length xs \<le> cap q \<Longrightarrow>
   \<exists>q'. push q xs = Some q' \<and> inv q' \<and> cap q' = cap q \<and> elems q' = elems q @ xs"
  using push_law [of q xs] by (auto simp: last_n_def)

text \<open>First in, first out: what is pushed into a queue with room comes out behind what was there.\<close>

lemma push_pop:
  assumes "inv q" "length (elems q) + length xs \<le> cap q"
  shows "\<exists>q1 q2. push q xs = Some q1 \<and>
    pop q1 (length (elems q) + length xs) = Some (length (elems q) + length xs, elems q @ xs, q2) \<and> elems q2 = []"
proof -
  obtain q1 where q1: "push q xs = Some q1" "inv q1" "elems q1 = elems q @ xs"
    using pushed_all [OF assms] by blast
  with pop_law [OF q1(2), of "length (elems q) + length xs"] show ?thesis by auto
qed

end

interpretation cbq: byte_queue cb_inv contents cb_size CircularBufferPush "\<lambda>cb n. CircularBufferPop cb n True"
proof
  fix cb xs assume "cb_inv cb"
  then show "\<exists>cb'. CircularBufferPush cb xs = Some cb' \<and> cb_inv cb' \<and> cb_size cb' = cb_size cb \<and>
      contents cb' = last_n (cb_size cb) (contents cb @ xs)"
    by (rule push_spec)
next
  fix cb n assume inv: "cb_inv cb"
  have "length (contents cb) = dataSize cb" by (simp add: contents_def)
  with read_spec [OF inv, of n True True]
  show "\<exists>cb'. CircularBufferPop cb n True = Some (min n (length (contents cb)), take n (contents cb), cb') \<and>
      cb_inv cb' \<and> cb_size cb' = cb_size cb \<and> contents cb' = drop n (contents cb)"
    by (simp add: CircularBufferPop_def)
qed

text \<open>Sequences of operations on the code and on a plain list of at most \<open>n\<close> bytes.\<close>

datatype cb_op = Push bytes | Pop nat bool | Read nat bool | Reset | Data_Size

fun cb_step :: "cb_op \<Rightarrow> circular_buffer \<Rightarrow> (nat \<times> bytes \<times> circular_buffer) option" where
  "cb_step (Push src) cb = do { cb \<leftarrow> CircularBufferPush cb src; Some (0, [], cb) }"
| "cb_step (Pop n out) cb = CircularBufferPop cb n out"
| "cb_step (Read n out) cb = CircularBufferRead cb n out"
| "cb_step Reset cb = Some (0, [], CircularBufferReset cb)"
| "cb_step Data_Size cb = Some (CircularBufferGetDataSize cb, [], cb)"

fun queue_step :: "nat \<Rightarrow> cb_op \<Rightarrow> bytes \<Rightarrow> nat \<times> bytes \<times> bytes" where
  "queue_step cap (Push src) q = (0, [], last_n cap (q @ src))"
| "queue_step cap (Pop n out) q = (min n (length q), if out then take n q else [], drop n q)"
| "queue_step cap (Read n out) q = (min n (length q), if out then take n q else [], q)"
| "queue_step cap Reset q = (0, [], [])"
| "queue_step cap Data_Size q = (length q, [], q)"

fun cb_run :: "cb_op list \<Rightarrow> circular_buffer \<Rightarrow> ((nat \<times> bytes) list \<times> circular_buffer) option" where
  "cb_run [] cb = Some ([], cb)"
| "cb_run (x # xs) cb = do { (n, out, cb) \<leftarrow> cb_step x cb; (r, cb) \<leftarrow> cb_run xs cb; Some ((n, out) # r, cb) }"

fun queue_run :: "nat \<Rightarrow> cb_op list \<Rightarrow> bytes \<Rightarrow> (nat \<times> bytes) list \<times> bytes" where
  "queue_run cap [] q = ([], q)"
| "queue_run cap (x # xs) q =
     (let (n, out, q) = queue_step cap x q; (r, q) = queue_run cap xs q in ((n, out) # r, q))"

lemma cb_step_refines:
  assumes "cb_inv cb"
  shows "\<exists>n out cb'. cb_step x cb = Some (n, out, cb') \<and> cb_inv cb' \<and> cb_size cb' = cb_size cb \<and>
    queue_step (cb_size cb) x (contents cb) = (n, out, contents cb')"
proof -
  have len: "length (contents cb) = dataSize cb" by (simp add: contents_def)
  show ?thesis
  proof (cases x)
    case (Push src)
    then show ?thesis using push_spec [OF assms, of src] by auto
  next
    case (Pop n out)
    then show ?thesis using read_spec [OF assms, of n out True] len by (auto simp: CircularBufferPop_def)
  next
    case (Read n out)
    then show ?thesis using read_spec [OF assms, of n out False] len by (auto simp: CircularBufferRead_def)
  next
    case Reset
    have "0 < cb_size cb" "cb_size cb < 2 ^ 63" "length (cb_mem cb) = cb_size cb"
      using assms by (auto simp: cb_inv_def)
    from reset_inv [OF this] Reset show ?thesis by simp
  next
    case Data_Size
    then show ?thesis using assms len by (simp add: CircularBufferGetDataSize_def)
  qed
qed

lemma cb_run_refines:
  "cb_inv cb \<Longrightarrow> \<exists>cb'. cb_run xs cb = Some (fst (queue_run (cb_size cb) xs (contents cb)), cb') \<and> cb_inv cb' \<and>
     contents cb' = snd (queue_run (cb_size cb) xs (contents cb))"
proof (induction xs arbitrary: cb)
  case Nil
  then show ?case by simp
next
  case (Cons x xs)
  obtain n out cb1 where s: "cb_step x cb = Some (n, out, cb1)" "cb_inv cb1" "cb_size cb1 = cb_size cb"
    "queue_step (cb_size cb) x (contents cb) = (n, out, contents cb1)"
    using cb_step_refines [OF Cons.prems] by blast
  from Cons.IH [OF s(2)] s show ?case
    by (auto simp: split_beta Let_def)
qed

text \<open>
  C14. The ring buffer is a bounded queue. Whatever the fresh memory holds, every sequence of
  pushes, pops, reads and resets on a new buffer is free of out-of-bounds copies and returns
  what the plain queue returns that keeps the newest bytes up to its capacity.
\<close>

theorem circular_buffer_refines_queue:
  assumes "0 < length junk" "length junk < 2 ^ 63"
  shows "\<exists>cb. cb_run ops (CircularBufferCreate junk) = Some (fst (queue_run (length junk) ops []), cb) \<and>
    contents cb = snd (queue_run (length junk) ops [])"
  using cb_run_refines [of "CircularBufferCreate junk" ops] create_inv [OF assms] by auto

theorem circular_buffer_refines_queue_witness:
  "\<exists>cb. cb_run [Push [1, 2, 3], Pop 2 True, Push [4, 5, 6], Read 9 True] (CircularBufferCreate [0, 0, 0]) =
      Some (fst (queue_run (length [0, 0, 0 :: u8]) [Push [1, 2, 3], Pop 2 True, Push [4, 5, 6], Read 9 True] []), cb) \<and>
    contents cb = snd (queue_run (length [0, 0, 0 :: u8]) [Push [1, 2, 3], Pop 2 True, Push [4, 5, 6], Read 9 True] [])"
  by (rule circular_buffer_refines_queue) simp_all

text \<open>
  First in, first out. Bytes pushed into a buffer with room for them are returned by a pop of
  everything, behind the bytes that were there, and leave the buffer empty.
\<close>

theorem circular_buffer_fifo:
  assumes "cb_inv cb" "length (contents cb) + length xs \<le> cb_size cb"
  shows "\<exists>cb1 cb2. CircularBufferPush cb xs = Some cb1 \<and>
    CircularBufferPop cb1 (length (contents cb) + length xs) True =
      Some (length (contents cb) + length xs, contents cb @ xs, cb2) \<and> contents cb2 = []"
  by (rule cbq.push_pop [OF assms])

theorem circular_buffer_fifo_witness:
  "\<exists>cb1 cb2. CircularBufferPush (CircularBufferCreate [0, 0, 0]) [7, 8] = Some cb1 \<and>
    CircularBufferPop cb1 (length (contents (CircularBufferCreate [0, 0, 0])) + length [7, 8 :: u8]) True =
      Some (length (contents (CircularBufferCreate [0, 0, 0])) + length [7, 8 :: u8],
        contents (CircularBufferCreate [0, 0, 0]) @ [7, 8], cb2) \<and> contents cb2 = []"
  by (rule circular_buffer_fifo) (simp_all add: create_inv)

section \<open>Printing overflows its string\<close>

lemma print_loop_length: "print_loop cb hex is str = Some str' \<Longrightarrow> length str' = length str"
  by (induction "is" arbitrary: str) (fastforce split: Option.bind_splits)+

lemma print_loop_Nil: "print_loop cb hex [] = Some"
  by (rule ext) simp

lemma print_loop_append:
  "print_loop cb hex (as @ bs) str = do { str \<leftarrow> print_loop cb hex as str; print_loop cb hex bs str }"
  by (induction as arbitrary: str) (auto split: Option.bind_splits simp del: mem_write_Some)

lemma print_loop_last:
  "print_loop cb hex (is @ [i]) str = (case print_loop cb hex is str of None \<Rightarrow> None
     | Some s \<Rightarrow> mem_write s (i * 2) (print_cell cb hex i))"
  by (simp add: print_loop_append print_loop_Nil split: option.splits)

lemma length_hex_digits: "length (hex_digits w n) = w"
  by (induction w arbitrary: n) simp_all

lemma print_chars_defined:
  "k \<le> n \<Longrightarrow> length str = 2 * n + 1 \<Longrightarrow>
   \<exists>s. print_loop cb False [0..<k] str = Some s \<and> (0 < k \<longrightarrow> 0 \<in> set s)"
proof (induction k)
  case 0
  then show ?case by simp
next
  case (Suc k)
  then obtain s where s: "print_loop cb False [0..<k] str = Some s" by auto
  then have len: "length s = 2 * n + 1" using print_loop_length Suc.prems by metis
  have "\<exists>s'. mem_write s (k * 2) (print_cell cb False k) = Some s' \<and> 0 \<in> set s'"
    using len Suc.prems(1) by (simp add: mem_write_def fmt_char_def print_cell_def)
  then show ?case
    using s unfolding upt_Suc by (simp add: print_loop_last)
qed

text \<open>
  The hexadecimal printout writes out of bounds. The string has two characters per byte, but
  \<open>%02X|\<close> writes three and a terminator, so printing any non-empty buffer in hexadecimal form
  runs past its end; the printout as characters stays inside.
\<close>

theorem print_hex_overflows:
  assumes "0 < cb_size cb" "length junk = 2 * cb_size cb + 1"
  shows "CircularBufferPrint cb True junk = None \<and> CircularBufferPrint cb False junk \<noteq> None"
proof
  obtain k where k: "cb_size cb = Suc k" using assms(1) gr0_implies_Suc by blast
  have "mem_write s (k * 2) (print_cell cb True k) = None" if "length s = length junk" for s
    using that assms(2) k by (simp add: mem_write_def fmt_hex_def print_cell_def length_hex_digits)
  then have "print_loop cb True ([0..<k] @ [k]) junk = None"
    unfolding print_loop_last by (auto split: option.splits dest: print_loop_length)
  then show "CircularBufferPrint cb True junk = None"
    by (simp add: CircularBufferPrint_def k)
  show "CircularBufferPrint cb False junk \<noteq> None"
    using print_chars_defined [OF order_refl assms(2), of cb] assms(1) by (auto simp: CircularBufferPrint_def)
qed

theorem print_hex_overflows_witness:
  "CircularBufferPrint (CircularBufferCreate [1]) True [0, 0, 0] = None \<and>
   CircularBufferPrint (CircularBufferCreate [1]) False [0, 0, 0] \<noteq> None"
  by (rule print_hex_overflows) (simp_all add: CircularBufferCreate_def CircularBufferReset_def)

declare One_nat_def [simp] length_greater_0_conv [simp]

end
