(* ===== verification/Libcsv.thy ===== *)
theory Libcsv
  imports Prelude_C
begin

text \<open>
  The CSV library \<open>libcsv/libcsv.c\<close>: the character-driven parser with its growing entry buffer,
  \<open>csv_fini\<close>, and the writers. The callbacks are the list of events that they receive.
  \<open>realloc_func\<close> stands for the allocator: whether a request for a size succeeds. New memory is
  filled with 0 in the model; the code never reads a byte that it has not written.
\<close>

section \<open>Model\<close>

datatype pstate = ROW_NOT_BEGUN | FIELD_NOT_BEGUN | FIELD_BEGUN | FIELD_MIGHT_HAVE_ENDED

datatype csv_status = CSV_SUCCESS | CSV_EPARSE | CSV_ENOMEM | CSV_ETOOBIG

record csv_parser =
  pstate :: pstate
  quoted :: bool
  spaces :: nat
  entry_buf :: "bytes option"
  entry_pos :: nat
  entry_size :: nat
  status :: csv_status
  options :: u8
  quote_char :: u8
  delim_char :: u8
  is_space :: "(u8 \<Rightarrow> bool) option"
  is_term :: "(u8 \<Rightarrow> bool) option"
  blk_size :: nat
  realloc_func :: "nat \<Rightarrow> bool"

definition CSV_STRICT :: u8 where "CSV_STRICT = 1"
definition CSV_REPALL_NL :: u8 where "CSV_REPALL_NL = 2"
definition CSV_STRICT_FINI :: u8 where "CSV_STRICT_FINI = 4"
definition CSV_APPEND_NULL :: u8 where "CSV_APPEND_NULL = 8"
definition CSV_EMPTY_IS_NULL :: u8 where "CSV_EMPTY_IS_NULL = 16"

definition CSV_TAB :: u8 where "CSV_TAB = 0x09"
definition CSV_SPACE :: u8 where "CSV_SPACE = 0x20"
definition CSV_CR :: u8 where "CSV_CR = 0x0d"
definition CSV_LF :: u8 where "CSV_LF = 0x0a"
definition CSV_COMMA :: u8 where "CSV_COMMA = 0x2c"
definition CSV_QUOTE :: u8 where "CSV_QUOTE = 0x22"

definition opt :: "csv_parser \<Rightarrow> u8 \<Rightarrow> bool" where
  "opt p flag = (options p AND flag \<noteq> 0)"

definition csv_init :: "u8 \<Rightarrow> (nat \<Rightarrow> bool) \<Rightarrow> csv_parser" where
  "csv_init opts alloc =
     \<lparr>pstate = ROW_NOT_BEGUN, quoted = False, spaces = 0, entry_buf = None, entry_pos = 0,
      entry_size = 0, status = CSV_SUCCESS, options = opts, quote_char = CSV_QUOTE,
      delim_char = CSV_COMMA, is_space = None, is_term = None, blk_size = 128,
      realloc_func = alloc\<rparr>"

definition csv_set_opts :: "csv_parser \<Rightarrow> u8 \<Rightarrow> csv_parser" where
  "csv_set_opts p opts = p\<lparr>options := opts\<rparr>"

definition csv_set_delim :: "csv_parser \<Rightarrow> u8 \<Rightarrow> csv_parser" where
  "csv_set_delim p c = p\<lparr>delim_char := c\<rparr>"

definition csv_set_quote :: "csv_parser \<Rightarrow> u8 \<Rightarrow> csv_parser" where
  "csv_set_quote p c = p\<lparr>quote_char := c\<rparr>"

definition csv_set_space_func :: "csv_parser \<Rightarrow> (u8 \<Rightarrow> bool) option \<Rightarrow> csv_parser" where
  "csv_set_space_func p f = p\<lparr>is_space := f\<rparr>"

definition csv_set_term_func :: "csv_parser \<Rightarrow> (u8 \<Rightarrow> bool) option \<Rightarrow> csv_parser" where
  "csv_set_term_func p f = p\<lparr>is_term := f\<rparr>"

definition csv_set_blk_size :: "csv_parser \<Rightarrow> nat \<Rightarrow> csv_parser" where
  "csv_set_blk_size p n = p\<lparr>blk_size := n\<rparr>"

definition csv_set_realloc_func :: "csv_parser \<Rightarrow> (nat \<Rightarrow> bool) \<Rightarrow> csv_parser" where
  "csv_set_realloc_func p f = p\<lparr>realloc_func := f\<rparr>"

definition csv_get_buffer_size :: "csv_parser \<Rightarrow> nat" where
  "csv_get_buffer_size p = entry_size p"

definition csv_error :: "csv_parser \<Rightarrow> csv_status" where
  "csv_error p = status p"

definition csv_get_opts :: "csv_parser \<Rightarrow> u8" where
  "csv_get_opts p = options p"

definition csv_get_delim :: "csv_parser \<Rightarrow> u8" where
  "csv_get_delim p = delim_char p"

definition csv_get_quote :: "csv_parser \<Rightarrow> u8" where
  "csv_get_quote p = quote_char p"

definition csv_free :: "csv_parser \<Rightarrow> csv_parser" where
  "csv_free p = p\<lparr>entry_buf := None, entry_size := 0\<rparr>"

subsection \<open>Events\<close>

text \<open>A field event carries the bytes of the field, or nothing for a null pointer.\<close>

datatype event = Field "bytes option" | Row int

text \<open>\<open>SUBMIT_FIELD\<close>, \<open>SUBMIT_ROW\<close> and \<open>SUBMIT_CHAR\<close>; \<open>cb1\<close> and \<open>cb2\<close>: a callback is set.\<close>

definition SUBMIT_FIELD :: "bool \<Rightarrow> csv_parser \<Rightarrow> (event list \<times> csv_parser) option" where
  "SUBMIT_FIELD cb1 p =
     do {
       let p = (if \<not> quoted p then p\<lparr>entry_pos := wsub (entry_pos p) (spaces p)\<rparr> else p);
       p \<leftarrow> (if opt p CSV_APPEND_NULL
             then do { buf \<leftarrow> entry_buf p; buf \<leftarrow> mem_set buf (entry_pos p) 0;
                       Some (p\<lparr>entry_buf := Some buf\<rparr>) }
             else Some p);
       ev \<leftarrow> (if cb1 \<and> opt p CSV_EMPTY_IS_NULL \<and> \<not> quoted p \<and> entry_pos p = 0
              then Some [Field None]
              else if cb1
              then do { buf \<leftarrow> entry_buf p; bs \<leftarrow> mem_slice buf 0 (entry_pos p); Some [Field (Some bs)] }
              else Some []);
       Some (ev, p\<lparr>pstate := FIELD_NOT_BEGUN, entry_pos := 0, quoted := False, spaces := 0\<rparr>)
     }"

definition SUBMIT_ROW :: "bool \<Rightarrow> int \<Rightarrow> csv_parser \<Rightarrow> event list \<times> csv_parser" where
  "SUBMIT_ROW cb2 c p =
     (if cb2 then [Row c] else [],
      p\<lparr>pstate := ROW_NOT_BEGUN, entry_pos := 0, quoted := False, spaces := 0\<rparr>)"

definition SUBMIT_CHAR :: "u8 \<Rightarrow> csv_parser \<Rightarrow> csv_parser option" where
  "SUBMIT_CHAR c p =
     do { buf \<leftarrow> entry_buf p; buf \<leftarrow> mem_set buf (entry_pos p) c;
          Some (p\<lparr>entry_buf := Some buf, entry_pos := entry_pos p + 1\<rparr>) }"

definition SUBMIT_FIELD_ROW :: "bool \<Rightarrow> bool \<Rightarrow> int \<Rightarrow> csv_parser \<Rightarrow> (event list \<times> csv_parser) option" where
  "SUBMIT_FIELD_ROW cb1 cb2 c p =
     do { (e1, p) \<leftarrow> SUBMIT_FIELD cb1 p; let (e2, p) = SUBMIT_ROW cb2 c p; Some (e1 @ e2, p) }"

subsection \<open>The entry buffer\<close>

function try_realloc :: "(nat \<Rightarrow> bool) \<Rightarrow> nat \<Rightarrow> nat \<Rightarrow> nat option" where
  "try_realloc alloc sz to_add =
     (if alloc (sz + to_add) then Some to_add
      else if to_add div 2 = 0 then None
      else try_realloc alloc sz (to_add div 2))"
  by pat_completeness auto
termination by (relation "measure (\<lambda>(alloc, sz, to_add). to_add)") auto

declare try_realloc.simps [simp del]

definition csv_increase_buffer :: "csv_parser \<Rightarrow> bool \<times> csv_parser" where
  "csv_increase_buffer p =
     (let to_add = blk_size p;
          to_add = (if entry_size p \<ge> NEG1 - to_add then NEG1 - entry_size p else to_add)
      in if to_add = 0 then (False, p\<lparr>status := CSV_ETOOBIG\<rparr>)
         else case try_realloc (realloc_func p) (entry_size p) to_add of
           None \<Rightarrow> (False, p\<lparr>status := CSV_ENOMEM\<rparr>)
         | Some to_add \<Rightarrow>
             (True, p\<lparr>entry_buf := Some ((case entry_buf p of None \<Rightarrow> [] | Some buf \<Rightarrow> buf) @ replicate to_add 0),
                      entry_size := entry_size p + to_add\<rparr>))"

subsection \<open>Parsing\<close>

definition space :: "csv_parser \<Rightarrow> u8 \<Rightarrow> bool" where
  "space p c = (case is_space p of Some f \<Rightarrow> f c | None \<Rightarrow> c = CSV_SPACE \<or> c = CSV_TAB)"

definition term_char :: "csv_parser \<Rightarrow> u8 \<Rightarrow> bool" where
  "term_char p c = (case is_term p of Some f \<Rightarrow> f c | None \<Rightarrow> c = CSV_CR \<or> c = CSV_LF)"

text \<open>One character: the events and the parser, or a strict-mode error.\<close>

datatype step = Next "event list" csv_parser | Strict_Error csv_parser

definition next_char :: "csv_parser option \<Rightarrow> step option" where
  "next_char r = do { p \<leftarrow> r; Some (Next [] p) }"

definition next_event :: "(event list \<times> csv_parser) option \<Rightarrow> step option" where
  "next_event r = do { (ev, p) \<leftarrow> r; Some (Next ev p) }"

definition csv_char :: "bool \<Rightarrow> bool \<Rightarrow> u8 \<Rightarrow> csv_parser \<Rightarrow> step option" where
  "csv_char cb1 cb2 c p =
     (case pstate p of
        FIELD_BEGUN \<Rightarrow>
          if c = quote_char p then
            (if quoted p then
               do { p \<leftarrow> SUBMIT_CHAR c p; Some (Next [] (p\<lparr>pstate := FIELD_MIGHT_HAVE_ENDED\<rparr>)) }
             else if opt p CSV_STRICT then Some (Strict_Error (p\<lparr>status := CSV_EPARSE\<rparr>))
             else do { p \<leftarrow> SUBMIT_CHAR c p; Some (Next [] (p\<lparr>spaces := 0\<rparr>)) })
          else if c = delim_char p then
            (if quoted p then next_char (SUBMIT_CHAR c p) else next_event (SUBMIT_FIELD cb1 p))
          else if term_char p c then
            (if \<not> quoted p then next_event (SUBMIT_FIELD_ROW cb1 cb2 (uint c) p)
             else next_char (SUBMIT_CHAR c p))
          else if \<not> quoted p \<and> space p c then
            do { p \<leftarrow> SUBMIT_CHAR c p; Some (Next [] (p\<lparr>spaces := spaces p + 1\<rparr>)) }
          else
            do { p \<leftarrow> SUBMIT_CHAR c p; Some (Next [] (p\<lparr>spaces := 0\<rparr>)) }
      | FIELD_MIGHT_HAVE_ENDED \<Rightarrow>
          if c = delim_char p then
            next_event (SUBMIT_FIELD cb1 (p\<lparr>entry_pos := wsub (entry_pos p) (spaces p + 1)\<rparr>))
          else if term_char p c then
            next_event (SUBMIT_FIELD_ROW cb1 cb2 (uint c) (p\<lparr>entry_pos := wsub (entry_pos p) (spaces p + 1)\<rparr>))
          else if space p c then
            do { p \<leftarrow> SUBMIT_CHAR c p; Some (Next [] (p\<lparr>spaces := spaces p + 1\<rparr>)) }
          else if c = quote_char p then
            (if spaces p \<noteq> 0 then
               (if opt p CSV_STRICT then Some (Strict_Error (p\<lparr>status := CSV_EPARSE\<rparr>))
                else next_char (SUBMIT_CHAR c (p\<lparr>spaces := 0\<rparr>)))
             else Some (Next [] (p\<lparr>pstate := FIELD_BEGUN\<rparr>)))
          else if opt p CSV_STRICT then Some (Strict_Error (p\<lparr>status := CSV_EPARSE\<rparr>))
          else next_char (SUBMIT_CHAR c (p\<lparr>pstate := FIELD_BEGUN, spaces := 0\<rparr>))
      | _ \<Rightarrow>
          if space p c \<and> c \<noteq> delim_char p then Some (Next [] p)
          else if term_char p c then
            (if pstate p = FIELD_NOT_BEGUN then next_event (SUBMIT_FIELD_ROW cb1 cb2 (uint c) p)
             else if opt p CSV_REPALL_NL then next_event (Some (SUBMIT_ROW cb2 (uint c) p))
             else Some (Next [] p))
          else if c = delim_char p then next_event (SUBMIT_FIELD cb1 p)
          else if c = quote_char p then Some (Next [] (p\<lparr>pstate := FIELD_BEGUN, quoted := True\<rparr>))
          else next_char (SUBMIT_CHAR c (p\<lparr>pstate := FIELD_BEGUN, quoted := False\<rparr>)))"

definition buffer_full :: "csv_parser \<Rightarrow> bool" where
  "buffer_full p = (entry_pos p = (if opt p CSV_APPEND_NULL then wsub (entry_size p) 1 else entry_size p))"

text \<open>The loop; the result is the number of characters processed, the events and the parser.\<close>

fun csv_loop :: "bool \<Rightarrow> bool \<Rightarrow> bytes \<Rightarrow> nat \<Rightarrow> csv_parser \<Rightarrow> (nat \<times> event list \<times> csv_parser) option" where
  "csv_loop cb1 cb2 [] n p = Some (n, [], p)"
| "csv_loop cb1 cb2 (c # cs) n p =
     (let (ok, p) = (if buffer_full p then csv_increase_buffer p else (True, p)) in
      if \<not> ok then Some (n, [], p)
      else do {
        s \<leftarrow> csv_char cb1 cb2 c p;
        case s of
          Strict_Error p \<Rightarrow> Some (n, [], p)
        | Next ev p \<Rightarrow> do { (n, evs, p) \<leftarrow> csv_loop cb1 cb2 cs (n + 1) p; Some (n, ev @ evs, p) }
      })"

definition csv_parse :: "bool \<Rightarrow> bool \<Rightarrow> bytes \<Rightarrow> csv_parser \<Rightarrow> (nat \<times> event list \<times> csv_parser) option" where
  "csv_parse cb1 cb2 s p =
     (let (ok, p) = (if entry_buf p = None \<and> s \<noteq> [] then csv_increase_buffer p else (True, p)) in
      if \<not> ok then Some (0, [], p) else csv_loop cb1 cb2 s 0 p)"

definition csv_fini :: "bool \<Rightarrow> bool \<Rightarrow> csv_parser \<Rightarrow> (bool \<times> event list \<times> csv_parser) option" where
  "csv_fini cb1 cb2 p =
     (if pstate p = FIELD_BEGUN \<and> quoted p \<and> opt p CSV_STRICT \<and> opt p CSV_STRICT_FINI
      then Some (False, [], p\<lparr>status := CSV_EPARSE\<rparr>)
      else do {
        (ev, p) \<leftarrow> (case pstate p of
            FIELD_MIGHT_HAVE_ENDED \<Rightarrow>
              SUBMIT_FIELD_ROW cb1 cb2 (-1) (p\<lparr>entry_pos := wsub (entry_pos p) (spaces p + 1)\<rparr>)
          | FIELD_NOT_BEGUN \<Rightarrow> SUBMIT_FIELD_ROW cb1 cb2 (-1) p
          | FIELD_BEGUN \<Rightarrow> SUBMIT_FIELD_ROW cb1 cb2 (-1) p
          | ROW_NOT_BEGUN \<Rightarrow> Some ([], p));
        Some (True, ev, p\<lparr>spaces := 0, quoted := False, entry_pos := 0, status := CSV_SUCCESS,
          pstate := ROW_NOT_BEGUN\<rparr>)
      })"

subsection \<open>The validator\<close>

text \<open>
  The loop of \<open>main\<close> over the reads of the file: whether the file is accepted, and the number of
  bytes processed. The reads are the consecutive pieces that \<open>fread\<close> returns, none of them empty.
\<close>

fun validate_reads :: "bytes list \<Rightarrow> nat \<Rightarrow> csv_parser \<Rightarrow> (bool \<times> nat \<times> csv_parser) option" where
  "validate_reads [] tot p = Some (True, tot, p)"
| "validate_reads (buf # bufs) tot p =
     do {
       (consumed, _, p) \<leftarrow> csv_parse False False buf p;
       if consumed \<noteq> length buf then Some (False, tot + consumed, p)
       else validate_reads bufs (tot + consumed) p
     }"

text \<open>\<open>main\<close> on a file that can be read: the exit status 0 for a well-formed file.\<close>

definition csv_main :: "bytes list \<Rightarrow> (nat \<Rightarrow> bool) \<Rightarrow> (bool \<times> nat) option" where
  "csv_main bufs alloc =
     do {
       (ok, tot, p) \<leftarrow> validate_reads bufs 0 (csv_init CSV_STRICT alloc);
       if \<not> ok then Some (False, tot)
       else do { (ok, _, p) \<leftarrow> csv_fini False False p; Some (ok, tot) }
     }"

subsection \<open>Writing\<close>

text \<open>
  The loop of \<open>csv_write2\<close>: \<open>dest\<close> is the destination block, \<open>at\<close> the position of \<open>cdest\<close> in
  it, and \<open>chars\<close> the saturating count.
\<close>

definition put :: "nat \<Rightarrow> u8 \<Rightarrow> bytes \<times> nat \<times> nat \<Rightarrow> (bytes \<times> nat \<times> nat) option" where
  "put dest_size c = (\<lambda>(dest, at, chars).
     do {
       (dest, at) \<leftarrow> (if dest_size > chars then do { dest \<leftarrow> mem_set dest at c; Some (dest, at + 1) }
                      else Some (dest, at));
       Some (dest, at, if chars < NEG1 then chars + 1 else chars)
     })"

fun write_loop :: "nat \<Rightarrow> u8 \<Rightarrow> bytes \<Rightarrow> bytes \<times> nat \<times> nat \<Rightarrow> (bytes \<times> nat \<times> nat) option" where
  "write_loop dest_size quote [] w = Some w"
| "write_loop dest_size quote (c # src) w =
     do {
       w \<leftarrow> (if c = quote then put dest_size quote w else Some w);
       w \<leftarrow> put dest_size c w;
       write_loop dest_size quote src w
     }"

text \<open>\<open>dest = None\<close> is a null destination. The result is the count and the destination.\<close>

definition csv_write2 :: "bytes option \<Rightarrow> nat \<Rightarrow> bytes \<Rightarrow> u8 \<Rightarrow> (nat \<times> bytes) option" where
  "csv_write2 dest dest_size src quote =
     do {
       let (mem, dest_size) = (case dest of None \<Rightarrow> ([], 0) | Some mem \<Rightarrow> (mem, dest_size));
       (mem, at) \<leftarrow> (if dest_size > 0 then do { mem \<leftarrow> mem_set mem 0 quote; Some (mem, 1) } else Some (mem, 0));
       (mem, at, chars) \<leftarrow> write_loop dest_size quote src (mem, at, 1);
       (mem, at, chars) \<leftarrow> put dest_size quote (mem, at, chars);
       Some (chars, mem)
     }"

definition csv_write :: "bytes option \<Rightarrow> nat \<Rightarrow> bytes \<Rightarrow> (nat \<times> bytes) option" where
  "csv_write dest dest_size src = csv_write2 dest dest_size src CSV_QUOTE"

text \<open>
  \<open>csv_fwrite2\<close> on a stream that accepts \<open>room\<close> more characters before \<open>fputc\<close> fails; the result
  says whether all was written, and what.
\<close>

definition fputc :: "u8 \<Rightarrow> nat \<times> bytes \<Rightarrow> bool \<times> nat \<times> bytes" where
  "fputc c = (\<lambda>(room, out). if room = 0 then (False, 0, out) else (True, room - 1, out @ [c]))"

fun fwrite_loop :: "u8 \<Rightarrow> bytes \<Rightarrow> nat \<times> bytes \<Rightarrow> bool \<times> nat \<times> bytes" where
  "fwrite_loop quote [] f = (True, f)"
| "fwrite_loop quote (c # src) f =
     (let (ok, f) = (if c = quote then fputc quote f else (True, f)) in
      if \<not> ok then (False, f)
      else let (ok, f) = fputc c f in if \<not> ok then (False, f) else fwrite_loop quote src f)"

definition csv_fwrite2 :: "nat \<times> bytes \<Rightarrow> bytes \<Rightarrow> u8 \<Rightarrow> bool \<times> nat \<times> bytes" where
  "csv_fwrite2 f src quote =
     (let (ok, f) = fputc quote f in
      if \<not> ok then (False, f)
      else let (ok, f) = fwrite_loop quote src f in
        if \<not> ok then (False, f) else fputc quote f)"

definition csv_fwrite :: "nat \<times> bytes \<Rightarrow> bytes \<Rightarrow> bool \<times> nat \<times> bytes" where
  "csv_fwrite f src = csv_fwrite2 f src CSV_QUOTE"

section \<open>The abstract scanner\<close>

text \<open>
  What the parser means, with no buffer, no positions and no counters. \<open>Plain e t\<close> is an unquoted
  field \<open>e\<close> followed so far by the spaces \<open>t\<close>; \<open>Quoted e\<close> a quoted field; \<open>Closing e t\<close> a quoted
  field \<open>e\<close> that may have ended, \<open>t\<close> being the quote that may have ended it and the spaces after it.
\<close>

datatype scan = Row_Start | Field_Start | Plain bytes bytes | Quoted bytes | Closing bytes bytes

record csv_config =
  cf_options :: u8
  cf_quote :: u8
  cf_delim :: u8
  cf_space :: "u8 \<Rightarrow> bool"
  cf_term :: "u8 \<Rightarrow> bool"

definition config :: "csv_parser \<Rightarrow> csv_config" where
  "config p = \<lparr>cf_options = options p, cf_quote = quote_char p, cf_delim = delim_char p,
     cf_space = space p, cf_term = term_char p\<rparr>"

definition plain_field :: "csv_config \<Rightarrow> bytes \<Rightarrow> event" where
  "plain_field k e = Field (if cf_options k AND CSV_EMPTY_IS_NULL \<noteq> 0 \<and> e = [] then None else Some e)"

fun scan_char :: "csv_config \<Rightarrow> u8 \<Rightarrow> scan \<Rightarrow> (event list \<times> scan) option" where
  "scan_char k c Row_Start =
     (if cf_space k c \<and> c \<noteq> cf_delim k then Some ([], Row_Start)
      else if cf_term k c
        then Some (if cf_options k AND CSV_REPALL_NL \<noteq> 0 then [Row (uint c)] else [], Row_Start)
      else if c = cf_delim k then Some ([plain_field k []], Field_Start)
      else if c = cf_quote k then Some ([], Quoted [])
      else Some ([], Plain [c] []))"
| "scan_char k c Field_Start =
     (if cf_space k c \<and> c \<noteq> cf_delim k then Some ([], Field_Start)
      else if cf_term k c then Some ([plain_field k [], Row (uint c)], Row_Start)
      else if c = cf_delim k then Some ([plain_field k []], Field_Start)
      else if c = cf_quote k then Some ([], Quoted [])
      else Some ([], Plain [c] []))"
| "scan_char k c (Plain e t) =
     (if c = cf_quote k
        then if cf_options k AND CSV_STRICT \<noteq> 0 then None else Some ([], Plain (e @ t @ [c]) [])
      else if c = cf_delim k then Some ([plain_field k e], Field_Start)
      else if cf_term k c then Some ([plain_field k e, Row (uint c)], Row_Start)
      else if cf_space k c then Some ([], Plain e (t @ [c]))
      else Some ([], Plain (e @ t @ [c]) []))"
| "scan_char k c (Quoted e) =
     Some ([], if c = cf_quote k then Closing e [c] else Quoted (e @ [c]))"
| "scan_char k c (Closing e t) =
     (if c = cf_delim k then Some ([Field (Some e)], Field_Start)
      else if cf_term k c then Some ([Field (Some e), Row (uint c)], Row_Start)
      else if cf_space k c then Some ([], Closing e (t @ [c]))
      else if c = cf_quote k \<and> length t = 1 then Some ([], Quoted (e @ t))
      else if cf_options k AND CSV_STRICT \<noteq> 0 then None
      else if c = cf_quote k then Some ([], Closing (e @ t) [c])
      else Some ([], Quoted (e @ t @ [c])))"

fun scan_run :: "csv_config \<Rightarrow> bytes \<Rightarrow> scan \<Rightarrow> (event list \<times> scan) option" where
  "scan_run k [] s = Some ([], s)"
| "scan_run k (c # cs) s =
     do { (e1, s) \<leftarrow> scan_char k c s; (e2, s) \<leftarrow> scan_run k cs s; Some (e1 @ e2, s) }"

text \<open>The end of the input; only \<open>CSV_STRICT\<close> with \<open>CSV_STRICT_FINI\<close> rejects an open quoted field.\<close>

fun scan_end :: "csv_config \<Rightarrow> scan \<Rightarrow> event list option" where
  "scan_end k Row_Start = Some []"
| "scan_end k Field_Start = Some [plain_field k [], Row (-1)]"
| "scan_end k (Plain e t) = Some [plain_field k e, Row (-1)]"
| "scan_end k (Quoted e) =
     (if cf_options k AND CSV_STRICT \<noteq> 0 \<and> cf_options k AND CSV_STRICT_FINI \<noteq> 0 then None
      else Some [Field (Some e), Row (-1)])"
| "scan_end k (Closing e t) = Some [Field (Some e), Row (-1)]"

text \<open>The events that reach a callback.\<close>

fun wanted :: "bool \<Rightarrow> bool \<Rightarrow> event \<Rightarrow> bool" where
  "wanted cb1 cb2 (Field f) = cb1"
| "wanted cb1 cb2 (Row c) = cb2"

definition buf :: "csv_parser \<Rightarrow> bytes" where
  "buf p = (case entry_buf p of None \<Rightarrow> [] | Some b \<Rightarrow> b)"

definition scan_of :: "csv_parser \<Rightarrow> scan" where
  "scan_of p =
     (let e = take (entry_pos p) (buf p) in
      case pstate p of
        ROW_NOT_BEGUN \<Rightarrow> Row_Start
      | FIELD_NOT_BEGUN \<Rightarrow> Field_Start
      | FIELD_BEGUN \<Rightarrow> if quoted p then Quoted e
                       else Plain (take (entry_pos p - spaces p) e) (drop (entry_pos p - spaces p) e)
      | FIELD_MIGHT_HAVE_ENDED \<Rightarrow>
          Closing (take (entry_pos p - (spaces p + 1)) e) (drop (entry_pos p - (spaces p + 1)) e))"

definition limit :: "csv_parser \<Rightarrow> nat" where
  "limit p = (if opt p CSV_APPEND_NULL then entry_size p - 1 else entry_size p)"

definition csv_inv :: "csv_parser \<Rightarrow> bool" where
  "csv_inv p \<longleftrightarrow>
     length (buf p) = entry_size p \<and> entry_size p \<le> NEG1 \<and> entry_pos p \<le> limit p \<and>
     (entry_buf p = None \<longrightarrow> pstate p = ROW_NOT_BEGUN) \<and> (entry_buf p \<noteq> None \<longrightarrow> 0 < entry_size p) \<and>
     (case pstate p of
        FIELD_BEGUN \<Rightarrow> spaces p \<le> entry_pos p \<and> (quoted p \<longrightarrow> spaces p = 0)
      | FIELD_MIGHT_HAVE_ENDED \<Rightarrow> quoted p \<and> spaces p < entry_pos p
      | _ \<Rightarrow> entry_pos p = 0 \<and> spaces p = 0 \<and> \<not> quoted p)"

section \<open>The parser refines the scanner\<close>

declare NEG1_def [simp del] One_nat_def [simp del]

named_theorems csv_defs

lemmas [csv_defs] = csv_inv_def scan_of_def limit_def config_def buf_def Let_def

lemma space_update [simp]:
  "space (p\<lparr>pstate := a\<rparr>) = space p" "space (p\<lparr>quoted := b\<rparr>) = space p"
  "space (p\<lparr>spaces := n\<rparr>) = space p" "space (p\<lparr>entry_buf := m\<rparr>) = space p"
  "space (p\<lparr>entry_pos := n\<rparr>) = space p" "space (p\<lparr>entry_size := n\<rparr>) = space p"
  "space (p\<lparr>status := s\<rparr>) = space p"
  by (auto simp: space_def fun_eq_iff)

lemma term_char_update [simp]:
  "term_char (p\<lparr>pstate := a\<rparr>) = term_char p" "term_char (p\<lparr>quoted := b\<rparr>) = term_char p"
  "term_char (p\<lparr>spaces := n\<rparr>) = term_char p" "term_char (p\<lparr>entry_buf := m\<rparr>) = term_char p"
  "term_char (p\<lparr>entry_pos := n\<rparr>) = term_char p" "term_char (p\<lparr>entry_size := n\<rparr>) = term_char p"
  "term_char (p\<lparr>status := s\<rparr>) = term_char p"
  by (auto simp: term_char_def fun_eq_iff)

lemma opt_update [simp]:
  "opt (p\<lparr>pstate := a\<rparr>) = opt p" "opt (p\<lparr>quoted := b\<rparr>) = opt p"
  "opt (p\<lparr>spaces := n\<rparr>) = opt p" "opt (p\<lparr>entry_buf := m\<rparr>) = opt p"
  "opt (p\<lparr>entry_pos := n\<rparr>) = opt p" "opt (p\<lparr>entry_size := n\<rparr>) = opt p"
  "opt (p\<lparr>status := s\<rparr>) = opt p"
  by (auto simp: opt_def fun_eq_iff)

lemma buf_update [simp]:
  "buf (p\<lparr>pstate := a\<rparr>) = buf p" "buf (p\<lparr>quoted := b\<rparr>) = buf p"
  "buf (p\<lparr>spaces := n\<rparr>) = buf p" "buf (p\<lparr>entry_buf := Some m\<rparr>) = m"
  "buf (p\<lparr>entry_pos := n\<rparr>) = buf p" "buf (p\<lparr>entry_size := n\<rparr>) = buf p"
  "buf (p\<lparr>status := s\<rparr>) = buf p"
  by (auto simp: buf_def)

lemma status_update [simp]:
  "buf (p\<lparr>status := s\<rparr>) = buf p" "limit (p\<lparr>status := s\<rparr>) = limit p"
  "config (p\<lparr>status := s\<rparr>) = config p" "csv_inv (p\<lparr>status := s\<rparr>) = csv_inv p"
  "scan_of (p\<lparr>status := s\<rparr>) = scan_of p"
  by (auto simp: csv_defs split: pstate.splits)

lemma NEG1_less: "n \<le> NEG1 \<longleftrightarrow> n < 2 ^ 64"
  by (simp add: NEG1_def) linarith

text \<open>\<open>agree p p'\<close>: the entries and the settings of two parsers are the same.\<close>

definition agree :: "csv_parser \<Rightarrow> csv_parser \<Rightarrow> bool" where
  "agree p p' \<longleftrightarrow> csv_inv p' \<and> config p' = config p \<and> realloc_func p' = realloc_func p \<and> blk_size p' = blk_size p \<and>
     (entry_buf p \<noteq> None \<longrightarrow> entry_buf p' \<noteq> None)"

lemma try_realloc_Some:
  "try_realloc alloc sz n = Some k \<Longrightarrow> 0 < n \<Longrightarrow> 0 < k \<and> k \<le> n \<and> alloc (sz + k)"
proof (induction alloc sz n rule: try_realloc.induct)
  case (1 alloc sz n)
  then show ?case
    by (auto simp: try_realloc.simps [of alloc sz n] split: if_splits)
qed

lemma try_realloc_True: "try_realloc (\<lambda>_. True) sz n = Some n"
  by (subst try_realloc.simps) simp

lemma csv_increase_buffer_ok:
  assumes "csv_inv p" "csv_increase_buffer p = (ok, p')"
  shows "agree p p' \<and> scan_of p' = scan_of p \<and> entry_pos p' = entry_pos p \<and>
         (ok \<longrightarrow> entry_buf p' \<noteq> None \<and> entry_size p < entry_size p' \<and> status p' = status p) \<and>
         (\<not> ok \<longrightarrow> status p' = CSV_ENOMEM \<or> status p' = CSV_ETOOBIG)"
proof -
  let ?a = "if entry_size p \<ge> NEG1 - blk_size p then NEG1 - entry_size p else blk_size p"
  show ?thesis
  proof (cases "?a = 0")
    case True
    then have "p' = p\<lparr>status := CSV_ETOOBIG\<rparr>" "ok = False"
      using assms(2) unfolding csv_increase_buffer_def Let_def by (auto split: if_splits)
    then show ?thesis
      using assms(1) by (simp add: agree_def)
  next
    case a: False
    show ?thesis
    proof (cases "try_realloc (realloc_func p) (entry_size p) ?a")
      case None
      then have "p' = p\<lparr>status := CSV_ENOMEM\<rparr>" "ok = False"
        using assms(2) a unfolding csv_increase_buffer_def Let_def by (auto split: if_splits)
      then show ?thesis
        using assms(1) by (simp add: agree_def)
    next
      case (Some k)
      then have k: "0 < k" "k \<le> ?a" using a try_realloc_Some by blast+
      have p': "p' = p\<lparr>entry_buf := Some (buf p @ replicate k 0), entry_size := entry_size p + k\<rparr>" "ok"
        using assms(2) a Some unfolding csv_increase_buffer_def Let_def buf_def
        by (auto split: if_splits)
      have sz: "length (buf p) = entry_size p" "entry_size p \<le> NEG1" "entry_pos p \<le> entry_size p"
        using assms(1) by (auto simp: csv_inv_def limit_def split: if_splits)
      have "entry_size p + k \<le> NEG1"
        using k sz by (auto split: if_splits)
      moreover have "take (entry_pos p) (buf p') = take (entry_pos p) (buf p)"
        using p' sz by (simp add: buf_def)
      ultimately show ?thesis
        using assms(1) p' k sz
        by (auto simp: csv_inv_def scan_of_def limit_def config_def agree_def Let_def split: if_splits pstate.splits)
    qed
  qed
qed

definition room :: "csv_parser \<Rightarrow> bool" where
  "room p \<longleftrightarrow> csv_inv p \<and> entry_buf p \<noteq> None \<and> entry_pos p < limit p"

lemma roomE:
  assumes "room p"
  obtains b where "entry_buf p = Some b" "buf p = b" "length b = entry_size p"
    "entry_pos p < entry_size p" "entry_size p \<le> NEG1" "csv_inv p" "entry_pos p < limit p"
  using assms by (auto simp: room_def csv_inv_def limit_def buf_def split: if_splits)

lemma SUBMIT_CHAR_room:
  "room p \<Longrightarrow> SUBMIT_CHAR c p =
     Some (p\<lparr>entry_buf := Some ((buf p)[entry_pos p := c]), entry_pos := entry_pos p + 1\<rparr>)"
  by (erule roomE) (simp add: SUBMIT_CHAR_def c_mem)

lemma take_snoc_upd: "n < length b \<Longrightarrow> take (n + 1) (b[n := c]) = take n b @ [c]"
  by (simp add: take_Suc_conv_app_nth flip: Suc_eq_plus1)

definition closed_field :: "csv_parser \<Rightarrow> event" where
  "closed_field p =
     (if quoted p then Field (Some (take (entry_pos p) (buf p)))
      else plain_field (config p) (take (entry_pos p - spaces p) (buf p)))"

lemma SUBMIT_FIELD_ok:
  assumes "entry_buf p = Some b" "length b = entry_size p" "0 < entry_size p" "entry_size p \<le> NEG1"
    "entry_pos p \<le> limit p" "\<not> quoted p \<longrightarrow> spaces p \<le> entry_pos p"
  shows "\<exists>b'. length b' = entry_size p \<and>
    SUBMIT_FIELD cb1 p = Some (filter (wanted cb1 cb2) [closed_field p],
      p\<lparr>entry_buf := Some b', pstate := FIELD_NOT_BEGUN, entry_pos := 0, quoted := False, spaces := 0\<rparr>)"
proof -
  let ?n = "if quoted p then entry_pos p else entry_pos p - spaces p"
  have lim: "entry_pos p \<le> entry_size p" "opt p CSV_APPEND_NULL \<longrightarrow> entry_pos p < entry_size p"
    using assms(3,5) by (auto simp: limit_def split: if_splits)
  have w: "\<not> quoted p \<longrightarrow> wsub (entry_pos p) (spaces p) = entry_pos p - spaces p"
    using assms(4,6) lim by (auto simp: NEG1_def intro!: wsub_small)
  have n: "?n \<le> entry_size p" "opt p CSV_APPEND_NULL \<longrightarrow> ?n < entry_size p"
    using lim by auto
  show ?thesis
    by (rule exI [of _ "if opt p CSV_APPEND_NULL then b[?n := 0] else b"])
       (use lim(1) n assms(1,2) w in \<open>auto simp: SUBMIT_FIELD_def Let_def closed_field_def plain_field_def config_def
          opt_def buf_def mem_set_upd mem_slice_def bind_eq_Some_conv\<close>)
qed

definition step_ok :: "bool \<Rightarrow> bool \<Rightarrow> u8 \<Rightarrow> csv_parser \<Rightarrow> step option \<Rightarrow> bool" where
  "step_ok cb1 cb2 c p r =
     (case r of
        None \<Rightarrow> False
      | Some (Strict_Error p') \<Rightarrow>
          scan_char (config p) c (scan_of p) = None \<and> p' = p\<lparr>status := CSV_EPARSE\<rparr>
      | Some (Next ev p') \<Rightarrow>
          (\<exists>evs. scan_char (config p) c (scan_of p) = Some (evs, scan_of p') \<and>
             ev = filter (wanted cb1 cb2) evs \<and> agree p p' \<and> status p' = status p))"

lemma config_sel [simp]:
  "cf_options (config p) = options p" "cf_quote (config p) = quote_char p"
  "cf_delim (config p) = delim_char p" "cf_space (config p) = space p" "cf_term (config p) = term_char p"
  by (simp_all add: config_def)

lemma config_update [simp]:
  "config (p\<lparr>pstate := a\<rparr>) = config p" "config (p\<lparr>quoted := b\<rparr>) = config p"
  "config (p\<lparr>spaces := n\<rparr>) = config p" "config (p\<lparr>entry_buf := m\<rparr>) = config p"
  "config (p\<lparr>entry_pos := n\<rparr>) = config p" "config (p\<lparr>entry_size := n\<rparr>) = config p"
  by (auto simp: config_def)

lemma limit_update [simp]:
  "limit (p\<lparr>pstate := a\<rparr>) = limit p" "limit (p\<lparr>quoted := b\<rparr>) = limit p"
  "limit (p\<lparr>spaces := n\<rparr>) = limit p" "limit (p\<lparr>entry_buf := m\<rparr>) = limit p"
  "limit (p\<lparr>entry_pos := n\<rparr>) = limit p"
  by (auto simp: limit_def)

lemma step_okI:
  "scan_char (config p) c (scan_of p) = Some (evs, scan_of p') \<Longrightarrow> ev = filter (wanted cb1 cb2) evs \<Longrightarrow>
   agree p p' \<Longrightarrow> status p' = status p \<Longrightarrow> step_ok cb1 cb2 c p (Some (Next ev p'))"
  by (auto simp: step_ok_def)

lemma wanted_field [simp]: "wanted cb1 cb2 (plain_field k e) = cb1" "wanted cb1 cb2 (closed_field p) = cb1"
  by (simp_all add: plain_field_def closed_field_def)

text \<open>The three ways in which a step leaves the parser.\<close>

lemma set_between:
  assumes "room p" "length b' = entry_size p" "st = FIELD_NOT_BEGUN \<or> st = ROW_NOT_BEGUN"
  defines "q \<equiv> p\<lparr>entry_buf := Some b', pstate := st, entry_pos := 0, quoted := False, spaces := 0\<rparr>"
  shows "agree p q" "scan_of q = (if st = FIELD_NOT_BEGUN then Field_Start else Row_Start)"
  using assms(1-3)
  by (auto simp: q_def agree_def csv_inv_def scan_of_def room_def)

lemma set_begun:
  assumes "room p" "length b' = entry_size p" "n \<le> limit p" "m \<le> n" "qt \<longrightarrow> m = 0"
  defines "q \<equiv> p\<lparr>entry_buf := Some b', entry_pos := n, quoted := qt, spaces := m, pstate := FIELD_BEGUN\<rparr>"
  shows "agree p q"
    "scan_of q = (if qt then Quoted (take n b')
       else Plain (take (n - m) b') (take m (drop (n - m) b')))"
  using assms(1-5)
  by (auto simp: q_def agree_def csv_inv_def scan_of_def room_def drop_take)

lemma set_closing:
  assumes "room p" "length b' = entry_size p" "n \<le> limit p" "m < n" 
  defines "q \<equiv> p\<lparr>entry_buf := Some b', entry_pos := n, quoted := True, spaces := m, pstate := FIELD_MIGHT_HAVE_ENDED\<rparr>"
  shows "agree p q"
    "scan_of q = Closing (take (n - (m + 1)) b') (take (m + 1) (drop (n - (m + 1)) b'))"
  using assms(1-4)
  by (auto simp: q_def agree_def csv_inv_def scan_of_def room_def drop_take)

lemma SUBMIT_FIELD_step:
  assumes "room p" "pstate p \<noteq> FIELD_MIGHT_HAVE_ENDED"
  obtains p1 p2 where
    "SUBMIT_FIELD cb1 p = Some (filter (wanted cb1 cb2) [closed_field p], p1)"
    "\<And>r. SUBMIT_FIELD_ROW cb1 cb2 r p = Some (filter (wanted cb1 cb2) [closed_field p, Row r], p2)"
    "agree p p1" "scan_of p1 = Field_Start" "status p1 = status p"
    "agree p p2" "scan_of p2 = Row_Start" "status p2 = status p"
proof -
  from assms(1) obtain b where b: "entry_buf p = Some b" "buf p = b" "length b = entry_size p"
    "entry_pos p < entry_size p" "entry_size p \<le> NEG1" "csv_inv p" "entry_pos p < limit p"
    by (rule roomE)
  have z: "\<not> quoted p \<longrightarrow> spaces p \<le> entry_pos p"
    using b(6) assms(2) by (cases "pstate p") (auto simp: csv_inv_def)
  obtain b' where b': "length b' = entry_size p"
    "SUBMIT_FIELD cb1 p = Some (filter (wanted cb1 cb2) [closed_field p],
      p\<lparr>entry_buf := Some b', pstate := FIELD_NOT_BEGUN, entry_pos := 0, quoted := False, spaces := 0\<rparr>)"
    using SUBMIT_FIELD_ok [OF b(1,3), of cb1 cb2] b z by auto
  show ?thesis
    by (rule that [of "p\<lparr>entry_buf := Some b', pstate := FIELD_NOT_BEGUN, entry_pos := 0, quoted := False, spaces := 0\<rparr>"
          "p\<lparr>entry_buf := Some b', pstate := ROW_NOT_BEGUN, entry_pos := 0, quoted := False, spaces := 0\<rparr>"])
       (use b' set_between [OF assms(1) b'(1)] in \<open>auto simp: SUBMIT_FIELD_ROW_def SUBMIT_ROW_def\<close>)
qed

lemma step_ok_between:
  assumes "room p" "pstate p = ROW_NOT_BEGUN \<or> pstate p = FIELD_NOT_BEGUN"
  shows "step_ok cb1 cb2 c p (csv_char cb1 cb2 c p)"
proof -
  from assms(1) obtain b where b: "entry_buf p = Some b" "buf p = b" "length b = entry_size p"
    "entry_pos p < entry_size p" "entry_size p \<le> NEG1" "csv_inv p" "entry_pos p < limit p"
    by (rule roomE)
  have z: "entry_pos p = 0" "spaces p = 0" "\<not> quoted p"
    using b(6) assms(2) by (auto simp: csv_inv_def)
  have cl: "closed_field p = plain_field (config p) []"
    using z by (simp add: closed_field_def)
  have sc: "scan_of p = (if pstate p = ROW_NOT_BEGUN then Row_Start else Field_Start)"
    using assms(2) by (auto simp: scan_of_def)
  obtain p1 p2 where f: "SUBMIT_FIELD cb1 p = Some (filter (wanted cb1 cb2) [closed_field p], p1)"
    "\<And>r. SUBMIT_FIELD_ROW cb1 cb2 r p = Some (filter (wanted cb1 cb2) [closed_field p, Row r], p2)"
    "agree p p1" "scan_of p1 = Field_Start" "status p1 = status p"
    "agree p p2" "scan_of p2 = Row_Start" "status p2 = status p"
    by (rule SUBMIT_FIELD_step [OF assms(1)]) (use assms(2) in auto)
  have row: "\<And>r. SUBMIT_ROW cb2 r p = (filter (wanted cb1 cb2) [Row r],
     p\<lparr>entry_buf := Some b, pstate := ROW_NOT_BEGUN, entry_pos := 0, quoted := False, spaces := 0\<rparr>)"
    using b z by (simp add: SUBMIT_ROW_def)
  have c1: "SUBMIT_CHAR c (p\<lparr>pstate := FIELD_BEGUN, quoted := False\<rparr>) =
    Some (p\<lparr>entry_buf := Some (b[0 := c]), entry_pos := 1, quoted := False, spaces := 0, pstate := FIELD_BEGUN\<rparr>)"
    using b z by (simp add: SUBMIT_CHAR_def c_mem)
  have qt: "p\<lparr>pstate := FIELD_BEGUN, quoted := True\<rparr> =
    p\<lparr>entry_buf := Some b, entry_pos := 0, quoted := True, spaces := 0, pstate := FIELD_BEGUN\<rparr>"
    using b z by simp
  have t: "take 1 (b[0 := c]) = [c]"
    using take_snoc_upd [of 0 b c] b(3,4) z by simp
  have ag: "agree p p" using b(6) by (simp add: agree_def)
  note begun = set_begun [OF assms(1), of "b[0 := c]" 1 0 False] set_begun [OF assms(1) b(3), of 0 0 True]
  note between = set_between [OF assms(1) b(3)]
  show ?thesis
    unfolding csv_char_def
    using assms(2) b(3,7) z
    by (elim disjE)
       (auto simp: next_char_def next_event_def f c1 qt row sc cl t ag opt_def begun between
          intro!: step_okI)
qed

lemma step_ok_begun:
  assumes "room p" "pstate p = FIELD_BEGUN"
  shows "step_ok cb1 cb2 c p (csv_char cb1 cb2 c p)"
proof -
  from assms(1) obtain b where b: "entry_buf p = Some b" "buf p = b" "length b = entry_size p"
    "entry_pos p < entry_size p" "entry_size p \<le> NEG1" "csv_inv p" "entry_pos p < limit p"
    by (rule roomE)
  let ?n = "entry_pos p" and ?m = "spaces p" and ?b = "b[entry_pos p := c]"
  have z: "?m \<le> ?n" "quoted p \<Longrightarrow> ?m = 0"
    using b(6) assms(2) by (auto simp: csv_inv_def)
  let ?e = "take (?n - ?m) b" and ?t = "drop (?n - ?m) (take ?n b)"
  have sc: "scan_of p = (if quoted p then Quoted (take ?n b) else Plain ?e ?t)"
    using assms(2) b(2) by (simp add: scan_of_def Let_def)
  have cl: "closed_field p = (if quoted p then Field (Some (take ?n b)) else plain_field (config p) ?e)"
    using b(2) by (simp add: closed_field_def)
  obtain p1 p2 where f: "SUBMIT_FIELD cb1 p = Some (filter (wanted cb1 cb2) [closed_field p], p1)"
    "\<And>r. SUBMIT_FIELD_ROW cb1 cb2 r p = Some (filter (wanted cb1 cb2) [closed_field p, Row r], p2)"
    "agree p p1" "scan_of p1 = Field_Start" "status p1 = status p"
    "agree p p2" "scan_of p2 = Row_Start" "status p2 = status p"
    by (rule SUBMIT_FIELD_step [OF assms(1)]) (use assms(2) in auto)
  define E1 where "E1 = filter (wanted cb1 cb2) [closed_field p]"
  define E2 where "E2 r = filter (wanted cb1 cb2) [closed_field p, Row r]" for r
  note f' = f [folded E1_def E2_def]
  have ch: "SUBMIT_CHAR c p = Some (p\<lparr>entry_buf := Some ?b, entry_pos := ?n + 1\<rparr>)"
    using SUBMIT_CHAR_room [OF assms(1)] b(2) by simp
  have lb: "length ?b = entry_size p" using b(3) by simp
  have tk: "take (?n + 1) ?b = take ?n b @ [c]"
    using b by (intro take_snoc_upd) simp
  have et: "?e @ ?t = take ?n b" using z(1) by (metis append_take_drop_id diff_le_self min.absorb1 take_take)
  have te: "take (?n - ?m) ?b = ?e" by simp
  have tt: "take (?m + 1) (drop (?n - ?m) ?b) = ?t @ [c]"
  proof -
    have "take (?m + 1) (drop (?n - ?m) ?b) = drop (?n - ?m) (take (?n + 1) ?b)"
      using z(1) by (simp add: drop_take add.commute)
    also have "\<dots> = ?t @ [c]" using tk b by simp
    finally show ?thesis .
  qed
  have self: "p\<lparr>quoted := quoted p, spaces := ?m, pstate := FIELD_BEGUN\<rparr> = p"
    "p\<lparr>entry_buf := Some ?b, entry_pos := ?n + 1, quoted := quoted p, spaces := j, pstate := FIELD_BEGUN\<rparr> =
       p\<lparr>entry_buf := Some ?b, entry_pos := ?n + 1, spaces := j\<rparr>" for j
    using assms(2) by simp_all
  have n1: "?n + 1 \<le> limit p" using b(7) by simp
  note s0 = set_begun [OF assms(1) lb n1, of 0 "quoted p", unfolded self(2), simplified]
  have s1: "quoted p \<Longrightarrow> agree p (p\<lparr>entry_buf := Some ?b, entry_pos := ?n + 1\<rparr>)"
    "quoted p \<Longrightarrow> scan_of (p\<lparr>entry_buf := Some ?b, entry_pos := ?n + 1\<rparr>) = Quoted (take ?n b @ [c])"
  proof -
    assume "quoted p"
    then have "p\<lparr>entry_buf := Some ?b, entry_pos := ?n + 1\<rparr> =
        p\<lparr>entry_buf := Some ?b, entry_pos := ?n + 1, spaces := 0\<rparr>" using z(2) by simp
    with s0 tk \<open>quoted p\<close>
    show "agree p (p\<lparr>entry_buf := Some ?b, entry_pos := ?n + 1\<rparr>)"
      "scan_of (p\<lparr>entry_buf := Some ?b, entry_pos := ?n + 1\<rparr>) = Quoted (take ?n b @ [c])" by auto
  qed
  have s2: "\<not> quoted p \<Longrightarrow> agree p (p\<lparr>entry_buf := Some ?b, entry_pos := ?n + 1, spaces := ?m + 1\<rparr>)"
    "\<not> quoted p \<Longrightarrow> scan_of (p\<lparr>entry_buf := Some ?b, entry_pos := ?n + 1, spaces := ?m + 1\<rparr>) = Plain ?e (?t @ [c])"
    using set_begun [OF assms(1) lb n1, of "?m + 1" "False"] self(2) [of "?m + 1"] z(1) te tt by auto
  have s3: "quoted p \<Longrightarrow> agree p (p\<lparr>entry_buf := Some ?b, entry_pos := ?n + 1, pstate := FIELD_MIGHT_HAVE_ENDED\<rparr>)"
    "quoted p \<Longrightarrow> scan_of (p\<lparr>entry_buf := Some ?b, entry_pos := ?n + 1, pstate := FIELD_MIGHT_HAVE_ENDED\<rparr>) =
       Closing (take ?n b) [c]"
  proof -
    assume q: "quoted p"
    then have eq: "p\<lparr>entry_buf := Some ?b, entry_pos := ?n + 1, pstate := FIELD_MIGHT_HAVE_ENDED\<rparr> =
        p\<lparr>entry_buf := Some ?b, entry_pos := ?n + 1, quoted := True, spaces := 0, pstate := FIELD_MIGHT_HAVE_ENDED\<rparr>"
      using z(2) by simp
    have "take 1 (drop ?n ?b) = [c]" using tt z(2) q by (simp add: drop_take)
    then show "agree p (p\<lparr>entry_buf := Some ?b, entry_pos := ?n + 1, pstate := FIELD_MIGHT_HAVE_ENDED\<rparr>)"
      "scan_of (p\<lparr>entry_buf := Some ?b, entry_pos := ?n + 1, pstate := FIELD_MIGHT_HAVE_ENDED\<rparr>) =
       Closing (take ?n b) [c]"
      unfolding eq using set_closing [OF assms(1) lb n1, of 0] by auto
  qed
  have s4: "quoted p \<or> \<not> quoted p \<Longrightarrow> agree p (p\<lparr>entry_buf := Some ?b, entry_pos := ?n + 1, spaces := 0\<rparr>)"
    "scan_of (p\<lparr>entry_buf := Some ?b, entry_pos := ?n + 1, spaces := 0\<rparr>) =
       (if quoted p then Quoted (take ?n b @ [c]) else Plain (take ?n b @ [c]) [])"
    using s0 tk by auto
  have ass: "?e @ ?t @ [c] = take ?n b @ [c]" using et by simp
  have err: "scan_char (config p) c (scan_of p) = None \<Longrightarrow>
      step_ok cb1 cb2 c p (Some (Strict_Error (p\<lparr>status := CSV_EPARSE\<rparr>)))"
    by (simp add: step_ok_def)
  note run = csv_char_def assms(2) ch next_char_def next_event_def f' opt_def
  note defs = f E1_def E2_def sc cl s1 s2 s3 s4 ass
  consider (quote) "quote_char p = c" | (delim) "quote_char p \<noteq> c" "delim_char p = c"
    | (other) "quote_char p \<noteq> c" "delim_char p \<noteq> c" by blast
  then show ?thesis
  proof cases
    case quote
    then show ?thesis
      by (cases "quoted p"; cases "options p AND CSV_STRICT = 0")
         (simp_all add: run, ((rule err, simp add: defs) | (rule step_okI, (simp add: defs)+)[1])+)
  next
    case delim
    then show ?thesis
      by (cases "quoted p") (simp_all add: run, ((rule step_okI, (simp add: defs)+)[1])+)
  next
    case other
    then show ?thesis
      by (cases "quoted p"; cases "term_char p c"; cases "space p c")
         (simp_all add: run, ((rule step_okI, (simp add: defs)+)[1])+)
  qed
qed

lemma step_ok_closing:
  assumes "room p" "pstate p = FIELD_MIGHT_HAVE_ENDED"
  shows "step_ok cb1 cb2 c p (csv_char cb1 cb2 c p)"
proof -
  from assms(1) obtain b where b: "entry_buf p = Some b" "buf p = b" "length b = entry_size p"
    "entry_pos p < entry_size p" "entry_size p \<le> NEG1" "csv_inv p" "entry_pos p < limit p"
    by (rule roomE)
  let ?n = "entry_pos p" and ?m = "spaces p" and ?b = "b[entry_pos p := c]"
  have z: "?m < ?n" "quoted p"
    using b(6) assms(2) by (auto simp: csv_inv_def)
  let ?k = "?n - (?m + 1)"
  define e t where "e = take ?k b" and "t = drop ?k (take ?n b)"
  note e = e_def t_def
  have sc: "scan_of p = Closing e t"
    using assms(2) b(2) by (simp add: scan_of_def Let_def e)
  have lt: "length t = ?m + 1" using z(1) b by (simp add: e)
  have et: "e @ t = take ?n b" unfolding e by (metis append_take_drop_id diff_le_self min.absorb1 take_take)
  then have ass: "e @ t @ [c] = take ?n b @ [c]" by simp
  have w: "wsub ?n (?m + 1) = ?k"
    using z(1) b(4,5) by (intro wsub_small) (auto simp: NEG1_def)
  let ?q = "p\<lparr>entry_pos := ?k\<rparr>"
  have kl: "?k \<le> limit p" using b(7) by simp
  have cl: "closed_field ?q = Field (Some e)"
    using z(2) b(2) by (simp add: closed_field_def e)
  obtain b' where b': "length b' = entry_size p"
    "SUBMIT_FIELD cb1 ?q = Some (filter (wanted cb1 cb2) [closed_field ?q],
      ?q\<lparr>entry_buf := Some b', pstate := FIELD_NOT_BEGUN, entry_pos := 0, quoted := False, spaces := 0\<rparr>)"
    using SUBMIT_FIELD_ok [of ?q b cb1 cb2] b(1-5) kl z by auto
  define p1 where "p1 = p\<lparr>entry_buf := Some b', pstate := FIELD_NOT_BEGUN, entry_pos := 0, quoted := False, spaces := 0\<rparr>"
  define p2 where "p2 = p\<lparr>entry_buf := Some b', pstate := ROW_NOT_BEGUN, entry_pos := 0, quoted := False, spaces := 0\<rparr>"
  define E1 where "E1 = filter (wanted cb1 cb2) [closed_field ?q]"
  define E2 where "E2 r = filter (wanted cb1 cb2) [closed_field ?q, Row r]" for r
  have f: "SUBMIT_FIELD cb1 ?q = Some (E1, p1)" "\<And>r. SUBMIT_FIELD_ROW cb1 cb2 r ?q = Some (E2 r, p2)"
    using b'(2) by (auto simp: SUBMIT_FIELD_ROW_def SUBMIT_ROW_def E1_def E2_def p1_def p2_def)
  have g: "agree p p1" "scan_of p1 = Field_Start" "status p1 = status p"
    "agree p p2" "scan_of p2 = Row_Start" "status p2 = status p"
    unfolding p1_def p2_def using set_between [OF assms(1) b'(1)] by auto
  have lb: "length ?b = entry_size p" using b(3) by simp
  have n1: "?n + 1 \<le> limit p" using b(7) by simp
  have tk: "take (?n + 1) ?b = take ?n b @ [c]"
    using b by (intro take_snoc_upd) simp
  have ch: "SUBMIT_CHAR c p = Some (p\<lparr>entry_buf := Some ?b, entry_pos := ?n + 1\<rparr>)"
    "SUBMIT_CHAR c (p\<lparr>spaces := 0\<rparr>) = Some (p\<lparr>spaces := 0, entry_buf := Some ?b, entry_pos := ?n + 1\<rparr>)"
    "SUBMIT_CHAR c (p\<lparr>pstate := FIELD_BEGUN, spaces := 0\<rparr>) =
       Some (p\<lparr>pstate := FIELD_BEGUN, spaces := 0, entry_buf := Some ?b, entry_pos := ?n + 1\<rparr>)"
    using b by (simp_all add: SUBMIT_CHAR_def c_mem)
  have self: "p\<lparr>entry_buf := Some ?b, entry_pos := ?n + 1, quoted := True, spaces := j, pstate := FIELD_MIGHT_HAVE_ENDED\<rparr> =
       p\<lparr>entry_buf := Some ?b, entry_pos := ?n + 1, spaces := j\<rparr>"
     "p\<lparr>entry_buf := Some ?b, entry_pos := ?n + 1, quoted := True, spaces := 0, pstate := FIELD_BEGUN\<rparr> =
       p\<lparr>pstate := FIELD_BEGUN, spaces := 0, entry_buf := Some ?b, entry_pos := ?n + 1\<rparr>"
     "?m = 0 \<Longrightarrow> p\<lparr>entry_buf := Some b, entry_pos := ?n, quoted := True, spaces := 0, pstate := FIELD_BEGUN\<rparr> =
       p\<lparr>pstate := FIELD_BEGUN\<rparr>"
     "p\<lparr>entry_buf := Some ?b, entry_pos := ?n + 1, spaces := 0\<rparr> =
      p\<lparr>spaces := 0, entry_buf := Some ?b, entry_pos := ?n + 1\<rparr>" for j
    using assms(2) z b(1) by simp_all
  have m2: "?n + 1 - ?k = ?m + 1 + 1" using z(1) by linarith
  have tt: "take (?m + 1 + 1) (drop ?k ?b) = t @ [c]"
  proof -
    have "take (?m + 1 + 1) (drop ?k ?b) = drop ?k (take (?n + 1) ?b)"
      using m2 by (simp only: drop_take)
    also have "\<dots> = t @ [c]" using tk b by (simp add: e)
    finally show ?thesis .
  qed
  have s1: "agree p (p\<lparr>entry_buf := Some ?b, entry_pos := ?n + 1, spaces := ?m + 1\<rparr>)"
    "scan_of (p\<lparr>entry_buf := Some ?b, entry_pos := ?n + 1, spaces := ?m + 1\<rparr>) = Closing e (t @ [c])"
    using set_closing [OF assms(1) lb n1, of "?m + 1"] z(1) tt unfolding self by (auto simp: e)
  have "take 1 (drop ?n ?b) = [c]"
    using arg_cong [OF tk, of "drop ?n"] b(3,4) by (simp add: drop_take)
  then have s2: "agree p (p\<lparr>spaces := 0, entry_buf := Some ?b, entry_pos := ?n + 1\<rparr>)"
    "scan_of (p\<lparr>spaces := 0, entry_buf := Some ?b, entry_pos := ?n + 1\<rparr>) = Closing (take ?n b) [c]"
    using set_closing [OF assms(1) lb n1, of 0] unfolding self by auto
  have s3: "agree p (p\<lparr>pstate := FIELD_BEGUN, spaces := 0, entry_buf := Some ?b, entry_pos := ?n + 1\<rparr>)"
    "scan_of (p\<lparr>pstate := FIELD_BEGUN, spaces := 0, entry_buf := Some ?b, entry_pos := ?n + 1\<rparr>) = Quoted (take ?n b @ [c])"
    using set_begun [OF assms(1) lb n1, of 0 True] tk unfolding self by auto
  have s4: "agree p (p\<lparr>pstate := FIELD_BEGUN\<rparr>)" "scan_of (p\<lparr>pstate := FIELD_BEGUN\<rparr>) = Quoted (take ?n b)" if "?m = 0"
    using set_begun [OF assms(1) b(3), of ?n 0 True] b(7) unfolding self(3) [OF that] by auto
  have err: "scan_char (config p) c (scan_of p) = None \<Longrightarrow>
      step_ok cb1 cb2 c p (Some (Strict_Error (p\<lparr>status := CSV_EPARSE\<rparr>)))"
    by (simp add: step_ok_def)
  note run = csv_char_def assms(2) w ch next_char_def next_event_def f opt_def
  note defs = E1_def E2_def sc cl s1 s2 s3 s4 ass lt g et
  consider (delim) "delim_char p = c" | (other) "delim_char p \<noteq> c" "term_char p c \<or> space p c"
    | (quote) "delim_char p \<noteq> c" "\<not> term_char p c" "\<not> space p c" "quote_char p = c"
    | (inner) "delim_char p \<noteq> c" "\<not> term_char p c" "\<not> space p c" "quote_char p \<noteq> c" by blast
  then show ?thesis
  proof cases
    case delim
    then show ?thesis
      by - (simp add: run, rule step_okI, (simp add: defs)+)
  next
    case other
    then show ?thesis
      by (cases "term_char p c") (simp_all add: run, ((rule step_okI, (simp add: defs)+)[1])+)
  next
    case quote
    then show ?thesis
      by (cases "?m = 0"; cases "options p AND CSV_STRICT = 0")
         (simp_all add: run, ((rule err, simp add: defs) | (rule step_okI, (simp add: defs)+)[1])+)
  next
    case inner
    then show ?thesis
      by (cases "options p AND CSV_STRICT = 0")
         (simp_all add: run, ((rule err, simp add: defs) | (rule step_okI, (simp add: defs)+)[1])+)
  qed
qed

lemma csv_char_refines: "room p \<Longrightarrow> step_ok cb1 cb2 c p (csv_char cb1 cb2 c p)"
  by (cases "pstate p") (simp_all add: step_ok_between step_ok_begun step_ok_closing)

lemma buffer_full_limit:
  "csv_inv p \<Longrightarrow> entry_buf p \<noteq> None \<Longrightarrow> buffer_full p \<longleftrightarrow> entry_pos p = limit p"
  by (auto simp: buffer_full_def limit_def csv_inv_def wsub_small NEG1_def)

lemma agree_trans: "agree p q \<Longrightarrow> agree q r \<Longrightarrow> agree p r"
  by (auto simp: agree_def)

lemma agree_refl: "csv_inv p \<Longrightarrow> agree p p"
  by (simp add: agree_def)

text \<open>The buffer is full and cannot grow.\<close>

definition starved :: "csv_parser \<Rightarrow> bool" where
  "starved p \<longleftrightarrow> (status p = CSV_ENOMEM \<or> status p = CSV_ETOOBIG) \<and>
     \<not> fst (csv_increase_buffer p) \<and> entry_size p \<le> entry_pos p + 1"

lemma increase_starved:
  assumes "csv_increase_buffer p = (False, q)" "entry_size p \<le> entry_pos p + 1"
  shows "starved q"
proof -
  have "\<exists>s. q = p\<lparr>status := s\<rparr> \<and> (s = CSV_ENOMEM \<or> s = CSV_ETOOBIG)"
    using assms(1) unfolding csv_increase_buffer_def Let_def by (auto split: if_splits option.splits)
  moreover have "fst (csv_increase_buffer (p\<lparr>status := s\<rparr>)) = fst (csv_increase_buffer p)" for s
    unfolding csv_increase_buffer_def Let_def by (auto split: option.splits)
  ultimately show ?thesis using assms by (auto simp: starved_def)
qed

text \<open>What a call consumed, reported and left behind, in terms of the scanner.\<close>

definition run_ok :: "bool \<Rightarrow> bool \<Rightarrow> bytes \<Rightarrow> csv_parser \<Rightarrow> nat \<Rightarrow> event list \<Rightarrow> csv_parser \<Rightarrow> bool" where
  "run_ok cb1 cb2 s p k ev p' \<longleftrightarrow>
     k \<le> length s \<and> agree p p' \<and>
     (\<exists>evs. scan_run (config p) (take k s) (scan_of p) = Some (evs, scan_of p') \<and>
            ev = filter (wanted cb1 cb2) evs) \<and>
     (if k = length s then status p' = status p
      else starved p' \<or>
           status p' = CSV_EPARSE \<and> scan_char (config p) (s ! k) (scan_of p') = None)"

lemma run_ok_Nil: "csv_inv p \<Longrightarrow> run_ok cb1 cb2 [] p 0 [] p"
  by (simp add: run_ok_def agree_refl)

lemma csv_loop_refines:
  "csv_inv p \<Longrightarrow> s = [] \<or> entry_buf p \<noteq> None \<Longrightarrow>
   \<exists>k ev p'. csv_loop cb1 cb2 s n p = Some (n + k, ev, p') \<and> run_ok cb1 cb2 s p k ev p'"
proof (induction s arbitrary: n p)
  case Nil
  then show ?case using run_ok_Nil by force
next
  case (Cons c s)
  from Cons.prems have inv: "csv_inv p" and buf: "entry_buf p \<noteq> None" by auto
  obtain ok q where q: "(if buffer_full p then csv_increase_buffer p else (True, p)) = (ok, q)"
    by fastforce
  have pq: "agree p q" "scan_of q = scan_of p" "ok \<Longrightarrow> room q" "ok \<Longrightarrow> status q = status p"
    "\<not> ok \<Longrightarrow> starved q"
  proof -
    have "entry_pos p \<le> limit p" using inv by (simp add: csv_inv_def)
    then have "agree p q \<and> scan_of q = scan_of p \<and> (ok \<longrightarrow> room q \<and> status q = status p) \<and>
      (\<not> ok \<longrightarrow> starved q)"
    proof (cases "buffer_full p")
      case True
      then have "csv_increase_buffer p = (ok, q)" using q by simp
      note * = csv_increase_buffer_ok [OF inv this]
      have "entry_pos p = limit p" using True inv buf buffer_full_limit by blast
      moreover have "0 < entry_size p" using inv buf by (simp add: csv_inv_def)
      moreover have "opt q = opt p"
        using * by (auto simp: agree_def config_def opt_def fun_eq_iff)
      moreover have "entry_size p \<le> entry_pos p + 1"
        using \<open>entry_pos p = limit p\<close> by (auto simp: limit_def)
      then have "\<not> ok \<longrightarrow> starved q" using increase_starved \<open>csv_increase_buffer p = (ok, q)\<close> by auto
      ultimately show ?thesis using * by (auto simp: room_def agree_def limit_def split: if_splits)
    next
      case False
      then show ?thesis
        using q inv buf buffer_full_limit [OF inv buf] \<open>entry_pos p \<le> limit p\<close>
        by (auto simp: room_def agree_refl)
    qed
    then show "agree p q" "scan_of q = scan_of p" "ok \<Longrightarrow> room q" "ok \<Longrightarrow> status q = status p"
    "\<not> ok \<Longrightarrow> starved q" by auto
  qed
  have cfg: "config q = config p" using pq(1) by (simp add: agree_def)
  show ?case
  proof (cases ok)
    case False
    then have "run_ok cb1 cb2 (c # s) p 0 [] q" using pq by (auto simp: run_ok_def)
    with False q show ?thesis by (auto intro!: exI [of _ "0::nat"])
  next
    case True
    from csv_char_refines [OF pq(3) [OF True], of cb1 cb2 c]
    consider (err) "csv_char cb1 cb2 c q = Some (Strict_Error (q\<lparr>status := CSV_EPARSE\<rparr>))"
        "scan_char (config q) c (scan_of q) = None"
      | (nxt) ev r evs where "csv_char cb1 cb2 c q = Some (Next ev r)"
        "scan_char (config q) c (scan_of q) = Some (evs, scan_of r)" "ev = filter (wanted cb1 cb2) evs"
        "agree q r" "status r = status q"
      by (auto simp: step_ok_def split: option.splits step.splits)
    then show ?thesis
    proof cases
      case err
      then have "run_ok cb1 cb2 (c # s) p 0 [] (q\<lparr>status := CSV_EPARSE\<rparr>)"
        using pq cfg by (simp add: run_ok_def agree_def)
      then show ?thesis using True q err by (auto intro!: exI [of _ "0::nat"])
    next
      case nxt
      have "csv_inv r" "s = [] \<or> entry_buf r \<noteq> None"
        using nxt(4) pq(3) [OF True] by (auto simp: agree_def room_def)
      from Cons.IH [OF this, of "n + 1"] obtain k ev' p' where
        IH: "csv_loop cb1 cb2 s (n + 1) r = Some (n + 1 + k, ev', p')" "run_ok cb1 cb2 s r k ev' p'"
        by auto
      have "run_ok cb1 cb2 (c # s) p (k + 1) (ev @ ev') p'"
        using IH(2) nxt pq cfg True agree_trans [OF pq(1)] agree_trans [OF nxt(4)]
        by (auto simp: run_ok_def agree_def take_Cons' nth_Cons')
      then show ?thesis using True q nxt IH(1) by (auto simp: ac_simps intro!: exI [of _ "k + 1"])
    qed
  qed
qed

lemma csv_parse_run:
  assumes "csv_inv p"
  obtains k ev p' where "csv_parse cb1 cb2 s p = Some (k, ev, p')" "run_ok cb1 cb2 s p k ev p'"
    "k = length s \<longrightarrow> s = [] \<or> entry_buf p' \<noteq> None"
proof (cases "entry_buf p = None \<and> s \<noteq> []")
  case False
  then obtain k ev p' where "csv_loop cb1 cb2 s 0 p = Some (k, ev, p')" "run_ok cb1 cb2 s p k ev p'"
    using csv_loop_refines [OF assms, of s cb1 cb2 0] by auto
  with False that show ?thesis by (auto simp: csv_parse_def run_ok_def agree_def)
next
  case True
  obtain ok q where q: "csv_increase_buffer p = (ok, q)" by fastforce
  note pq = csv_increase_buffer_ok [OF assms q]
  show ?thesis
  proof (cases ok)
    case False
    have "entry_size p = 0" using True assms by (simp add: csv_inv_def buf_def)
    with False have "starved q" using q by (intro increase_starved) auto
    then have "run_ok cb1 cb2 s p 0 [] q" using pq True by (auto simp: run_ok_def)
    with that show ?thesis using False True q by (auto simp: csv_parse_def)
  next
    case ok: True
    then obtain k ev p' where k: "csv_loop cb1 cb2 s 0 q = Some (k, ev, p')" "run_ok cb1 cb2 s q k ev p'"
      using csv_loop_refines [of q s cb1 cb2 0] pq by (auto simp: agree_def)
    then have "run_ok cb1 cb2 s p k ev p'" "entry_buf p' \<noteq> None"
      using pq ok by (auto simp: run_ok_def agree_def)
    with that show ?thesis using k(1) ok True q by (auto simp: csv_parse_def)
  qed
qed

lemma csv_fini_run:
  assumes "csv_inv p"
  obtains p' where
    "csv_fini cb1 cb2 p = Some (case scan_end (config p) (scan_of p) of
        None \<Rightarrow> (False, [], p\<lparr>status := CSV_EPARSE\<rparr>)
      | Some evs \<Rightarrow> (True, filter (wanted cb1 cb2) evs, p'))"
    "agree p p'" "scan_of p' = Row_Start" "status p' = CSV_SUCCESS"
proof (cases "pstate p = ROW_NOT_BEGUN")
  case True
  define p' where "p' = p\<lparr>spaces := 0, quoted := False, entry_pos := 0, status := CSV_SUCCESS, pstate := ROW_NOT_BEGUN\<rparr>"
  have "csv_fini cb1 cb2 p = Some (True, [], p')"
    using True by (simp add: csv_fini_def p'_def)
  moreover have "p' = p\<lparr>status := CSV_SUCCESS\<rparr>"
    using True assms by (simp add: p'_def csv_inv_def)
  ultimately show ?thesis
    using True assms by (intro that [of p']) (auto simp: scan_of_def agree_def)
next
  case False
  then obtain b where b: "entry_buf p = Some b" "buf p = b" "length b = entry_size p" "0 < entry_size p"
    "entry_size p \<le> NEG1" "entry_pos p \<le> limit p" "entry_pos p \<le> entry_size p"
    using assms by (auto simp: csv_inv_def buf_def limit_def split: if_splits option.splits)
  define q where "q = (if pstate p = FIELD_MIGHT_HAVE_ENDED
            then p\<lparr>entry_pos := wsub (entry_pos p) (spaces p + 1)\<rparr> else p)"
  have w: "wsub (entry_pos p) (spaces p + 1) = entry_pos p - (spaces p + 1)" if "pstate p = FIELD_MIGHT_HAVE_ENDED"
    using that assms b by (intro wsub_small) (auto simp: csv_inv_def NEG1_def)
  have q: "entry_buf q = Some b" "length b = entry_size q" "0 < entry_size q" "entry_size q \<le> NEG1"
    "entry_pos q \<le> limit q" "\<not> quoted q \<longrightarrow> spaces q \<le> entry_pos q"
    using b w assms False by (auto simp: q_def csv_inv_def split: pstate.splits)
  have eq: "q\<lparr>entry_buf := m, pstate := st, entry_pos := 0, quoted := False, spaces := 0\<rparr> =
      p\<lparr>entry_buf := m, pstate := st, entry_pos := 0, quoted := False, spaces := 0\<rparr>" "entry_size q = entry_size p" for m st
    by (simp_all add: q_def)
  obtain b' where b': "length b' = entry_size p"
    "SUBMIT_FIELD cb1 q = Some (filter (wanted cb1 cb2) [closed_field q],
      q\<lparr>entry_buf := Some b', pstate := FIELD_NOT_BEGUN, entry_pos := 0, quoted := False, spaces := 0\<rparr>)"
    using SUBMIT_FIELD_ok [OF q, of cb1 cb2] eq(2) by auto
  define p' where "p' = p\<lparr>entry_buf := Some b', pstate := ROW_NOT_BEGUN, entry_pos := 0, quoted := False,
    spaces := 0, status := CSV_SUCCESS\<rparr>"
  have row: "SUBMIT_FIELD_ROW cb1 cb2 (-1) q = Some (filter (wanted cb1 cb2) [closed_field q, Row (-1)],
      p\<lparr>entry_buf := Some b', pstate := ROW_NOT_BEGUN, entry_pos := 0, quoted := False, spaces := 0\<rparr>)"
    using b'(2) eq(1) by (auto simp: SUBMIT_FIELD_ROW_def SUBMIT_ROW_def)
  have cl: "closed_field q = (case scan_of p of
      Plain e t \<Rightarrow> plain_field (config p) e | Quoted e \<Rightarrow> Field (Some e) | Closing e t \<Rightarrow> Field (Some e)
    | _ \<Rightarrow> plain_field (config p) [])"
    using False assms b(2) w by (auto simp: q_def closed_field_def scan_of_def csv_inv_def Let_def split: pstate.splits)
  have ok: "agree p p'" "scan_of p' = Row_Start" "status p' = CSV_SUCCESS"
    using b b'(1) assms by (auto simp: p'_def agree_def csv_inv_def scan_of_def)
  show ?thesis
  proof (cases "pstate p = FIELD_BEGUN \<and> quoted p \<and> opt p CSV_STRICT \<and> opt p CSV_STRICT_FINI")
    case True
    then have "csv_fini cb1 cb2 p = Some (False, [], p\<lparr>status := CSV_EPARSE\<rparr>)"
      by (simp add: csv_fini_def)
    moreover have "scan_end (config p) (scan_of p) = None"
      using True by (simp add: scan_of_def Let_def opt_def)
    ultimately show ?thesis using ok by (intro that [of p']) auto
  next
    case go: False
    then have run: "csv_fini cb1 cb2 p = Some (True, filter (wanted cb1 cb2) [closed_field q, Row (-1)], p')"
      using row False by (cases "pstate p") (auto simp: csv_fini_def p'_def q_def)
    have "scan_end (config p) (scan_of p) = Some [closed_field q, Row (-1)]"
      using go False unfolding cl by (cases "pstate p") (auto simp: scan_of_def Let_def opt_def)
    with run ok show ?thesis by (intro that [of p']) auto
  qed
qed

subsection \<open>An allocator that never fails\<close>

fun scan_len :: "scan \<Rightarrow> nat" where
  "scan_len (Plain e t) = length e + length t"
| "scan_len (Quoted e) = length e"
| "scan_len (Closing e t) = length e + length t"
| "scan_len s = 0"

lemma scan_len_of: "csv_inv p \<Longrightarrow> scan_len (scan_of p) = entry_pos p"
  by (auto simp: csv_inv_def scan_of_def Let_def limit_def split: pstate.splits if_splits)

lemma scan_char_len: "scan_char k c s = Some (evs, s') \<Longrightarrow> scan_len s' \<le> scan_len s + 1"
  by (cases s) (auto split: if_splits)

lemma scan_run_len: "scan_run k cs s = Some (evs, s') \<Longrightarrow> scan_len s' \<le> scan_len s + length cs"
  by (induction cs arbitrary: s evs) (fastforce simp: bind_eq_Some_conv dest: scan_char_len)+

definition ample :: "csv_parser \<Rightarrow> nat \<Rightarrow> bool" where
  "ample p n \<longleftrightarrow> realloc_func p = (\<lambda>_. True) \<and> 0 < blk_size p \<and> entry_pos p + n < NEG1 - 1"

lemma ample_not_starved: "ample p 0 \<Longrightarrow> \<not> starved p"
  unfolding ample_def starved_def csv_increase_buffer_def Let_def
  by (auto simp: try_realloc_True)

lemma run_ok_ample:
  assumes "csv_inv p" "ample p (length s)" "run_ok cb1 cb2 s p k ev p'"
  shows "ample p' (length s - k)" "\<not> starved p'"
proof -
  from assms(3) have "k \<le> length s" "agree p p'"
    and run: "\<exists>evs. scan_run (config p) (take k s) (scan_of p) = Some (evs, scan_of p')"
    by (auto simp: run_ok_def)
  then have "entry_pos p' \<le> entry_pos p + k"
    using scan_run_len [of "config p" "take k s" "scan_of p"] scan_len_of assms(1)
    by (auto simp: agree_def)
  then show a: "ample p' (length s - k)"
    using assms(2) \<open>k \<le> length s\<close> \<open>agree p p'\<close> by (auto simp: ample_def agree_def)
  then show "\<not> starved p'" by (intro ample_not_starved) (simp add: ample_def)
qed

lemma scan_run_append:
  "scan_run k (a @ b) s =
     do { (e1, s) \<leftarrow> scan_run k a s; (e2, s) \<leftarrow> scan_run k b s; Some (e1 @ e2, s) }"
  by (induction a arbitrary: s) (auto split: Option.bind_splits)

lemma scan_run_stuck:
  assumes "i < length s" "scan_run k (take i s) st = Some (evs, st')" "scan_char k (s ! i) st' = None"
  shows "scan_run k s st = None"
  using assms by (subst id_take_nth_drop [OF assms(1)]) (simp add: scan_run_append)

text \<open>With such an allocator a call accepts its whole input exactly if the scanner does.\<close>

lemma run_ok_accepts:
  assumes "csv_inv p" "ample p (length s)" "run_ok cb1 cb2 s p k ev p'"
  shows "k = length s \<longleftrightarrow> scan_run (config p) s (scan_of p) \<noteq> None"
  using assms(3) run_ok_ample(2) [OF assms]
    scan_run_stuck [of k s "config p" "scan_of p" _ "scan_of p'"]
  by (auto simp: run_ok_def split: if_splits)

lemma csv_init_ok [simp]:
  "csv_inv (csv_init opts alloc)" "scan_of (csv_init opts alloc) = Row_Start"
  "status (csv_init opts alloc) = CSV_SUCCESS"
  by (auto simp: csv_init_def csv_inv_def scan_of_def limit_def buf_def NEG1_def)

end
