(* ===== verification/Libcsv_Spec.thy ===== *)
theory Libcsv_Spec
  imports Libcsv
begin

text \<open>
  What the parser and the writers of \<open>libcsv\<close> promise: memory safety of every reachable parser,
  refinement of the abstract scanner, independence of how the input is cut, the verdict of the
  validator, the writers' text and the round trip from written rows to parsed rows.
\<close>

section \<open>Reachable parsers\<close>

text \<open>
  The calls that a client may make. \<open>csv_set_opts\<close> must not switch \<open>CSV_APPEND_NULL\<close> inside an
  entry, and \<open>csv_free\<close> is called between rows.
\<close>

inductive csv_reach :: "csv_parser \<Rightarrow> bool" where
  init: "csv_reach (csv_init opts alloc)"
| parse: "csv_reach p \<Longrightarrow> csv_parse cb1 cb2 s p = Some (n, ev, p') \<Longrightarrow> csv_reach p'"
| fini: "csv_reach p \<Longrightarrow> csv_fini cb1 cb2 p = Some (ok, ev, p') \<Longrightarrow> csv_reach p'"
| delim: "csv_reach p \<Longrightarrow> csv_reach (csv_set_delim p c)"
| quot: "csv_reach p \<Longrightarrow> csv_reach (csv_set_quote p c)"
| spacef: "csv_reach p \<Longrightarrow> csv_reach (csv_set_space_func p f)"
| termf: "csv_reach p \<Longrightarrow> csv_reach (csv_set_term_func p f)"
| blk: "csv_reach p \<Longrightarrow> csv_reach (csv_set_blk_size p k)"
| realloc: "csv_reach p \<Longrightarrow> csv_reach (csv_set_realloc_func p g)"
| opts: "csv_reach p \<Longrightarrow> entry_pos p = 0 \<or> opts AND CSV_APPEND_NULL = options p AND CSV_APPEND_NULL \<Longrightarrow>
    csv_reach (csv_set_opts p opts)"
| free: "csv_reach p \<Longrightarrow> pstate p = ROW_NOT_BEGUN \<Longrightarrow> csv_reach (csv_free p)"

lemma csv_inv_setters:
  assumes "csv_inv p"
  shows "csv_inv (csv_set_delim p c)" "csv_inv (csv_set_quote p c)" "csv_inv (csv_set_space_func p f)"
    "csv_inv (csv_set_term_func p f)" "csv_inv (csv_set_blk_size p k)" "csv_inv (csv_set_realloc_func p g)"
  using assms
  by (auto simp: csv_inv_def limit_def opt_def buf_def csv_set_delim_def csv_set_quote_def
      csv_set_space_func_def csv_set_term_func_def csv_set_blk_size_def csv_set_realloc_func_def
      split: pstate.splits)

lemma csv_inv_set_opts:
  "csv_inv p \<Longrightarrow> entry_pos p = 0 \<or> opts AND CSV_APPEND_NULL = options p AND CSV_APPEND_NULL \<Longrightarrow>
   csv_inv (csv_set_opts p opts)"
  by (auto simp: csv_inv_def limit_def opt_def buf_def csv_set_opts_def split: pstate.splits)

lemma csv_inv_free: "csv_inv p \<Longrightarrow> pstate p = ROW_NOT_BEGUN \<Longrightarrow> csv_inv (csv_free p)"
  by (auto simp: csv_inv_def limit_def opt_def buf_def csv_free_def)

lemma csv_parse_inv: "csv_inv p \<Longrightarrow> csv_parse cb1 cb2 s p = Some (n, ev, p') \<Longrightarrow> csv_inv p'"
  by (erule csv_parse_run [where s = s and ?cb1.0 = cb1 and ?cb2.0 = cb2])
     (auto simp: run_ok_def agree_def)

lemma csv_fini_inv: "csv_inv p \<Longrightarrow> csv_fini cb1 cb2 p = Some (ok, ev, p') \<Longrightarrow> csv_inv p'"
  by (frule csv_fini_run [where ?cb1.0 = cb1 and ?cb2.0 = cb2])
     (auto simp: agree_def split: option.splits)

lemma csv_reach_inv: "csv_reach p \<Longrightarrow> csv_inv p"
  by (induction rule: csv_reach.induct)
     (auto simp: csv_inv_setters csv_inv_set_opts csv_inv_free dest: csv_parse_inv csv_fini_inv)

text \<open>
  C16. Memory safety. Take a parser made by \<open>csv_init\<close> and changed by any parsing, finishing and setter calls, by \<open>csv_set_opts\<close>
  calls that do not switch \<open>CSV_APPEND_NULL\<close> while an entry is being collected, and by \<open>csv_free\<close> calls between rows
  (\<open>csv_reach\<close>). Parsing any bytes with it and finishing it stay inside the entry buffer, and the invariant of the buffer and of the
  counters holds. The two conditions are needed: with the switch in mid-entry the parser does overflow
  (\<open>csv_set_opts_overflow\<close>), and \<open>csv_free\<close> keeps the state and the position in a buffer that is gone.
\<close>

theorem csv_reach_safe:
  assumes "csv_reach p"
  shows "csv_inv p \<and> (\<exists>r. csv_parse cb1 cb2 s p = Some r) \<and> (\<exists>r. csv_fini cb1 cb2 p = Some r)"
proof -
  have inv: "csv_inv p" using assms by (rule csv_reach_inv)
  moreover have "\<exists>r. csv_parse cb1 cb2 s p = Some r"
    by (rule csv_parse_run [OF inv, of cb1 cb2 s]) blast
  moreover have "\<exists>r. csv_fini cb1 cb2 p = Some r"
    by (rule csv_fini_run [OF inv, of cb1 cb2]) blast
  ultimately show ?thesis by blast
qed

lemma csv_reach_safe_witness:
  "csv_inv (csv_set_opts (csv_set_delim (csv_init CSV_STRICT (\<lambda>_. True)) 0x3b) CSV_APPEND_NULL) \<and>
   (\<exists>r. csv_parse True True [0x61, 0x3b, 0x22] (csv_set_opts (csv_set_delim (csv_init CSV_STRICT (\<lambda>_. True)) 0x3b) CSV_APPEND_NULL) = Some r)"
proof -
  have "entry_pos (csv_set_delim (csv_init CSV_STRICT (\<lambda>_. True)) 0x3b) = 0" by (simp add: csv_set_delim_def csv_init_def)
  then show ?thesis using csv_reach_safe [OF csv_reach.opts [OF csv_reach.delim [OF csv_reach.init]]] by blast
qed

text \<open>
  C15. The parser implements the scanner: on every allocator and block size, what \<open>csv_parse\<close> hands
  to the callbacks is what the scanner reports on the bytes consumed, the parser stands where the
  scanner stands, and it stops early only at a byte that the scanner rejects or with a buffer that
  cannot grow.
\<close>

theorem csv_parse_refines_scanner:
  assumes "csv_inv p"
  shows "\<exists>k evs p'. csv_parse cb1 cb2 s p = Some (k, filter (wanted cb1 cb2) evs, p') \<and> k \<le> length s \<and>
    csv_inv p' \<and> scan_run (config p) (take k s) (scan_of p) = Some (evs, scan_of p') \<and>
    (k < length s \<longrightarrow> starved p' \<or> status p' = CSV_EPARSE \<and> scan_char (config p) (s ! k) (scan_of p') = None)"
  by (rule csv_parse_run [OF assms, of cb1 cb2 s]) (auto simp: run_ok_def agree_def split: if_splits)

lemma csv_parse_refines_scanner_witness:
  "\<exists>k evs p'. csv_parse True True [0x61, 0x2c] (csv_init 0 (\<lambda>n. n \<le> 1)) = Some (k, filter (wanted True True) evs, p')"
  using csv_parse_refines_scanner [OF csv_init_ok(1), of True True "[0x61, 0x2c]"] by blast

section \<open>Cutting the input\<close>

text \<open>One round of the loop: it stops with a parser, or goes on with events and a parser.\<close>

definition csv_round :: "bool \<Rightarrow> bool \<Rightarrow> u8 \<Rightarrow> csv_parser \<Rightarrow> (csv_parser + event list \<times> csv_parser) option" where
  "csv_round cb1 cb2 c p =
     (let (ok, p) = (if buffer_full p then csv_increase_buffer p else (True, p)) in
      if \<not> ok then Some (Inl p)
      else do { s \<leftarrow> csv_char cb1 cb2 c p;
                case s of Strict_Error p \<Rightarrow> Some (Inl p) | Next ev p \<Rightarrow> Some (Inr (ev, p)) })"

lemma csv_loop_round:
  "csv_loop cb1 cb2 (c # s) n p =
     (case csv_round cb1 cb2 c p of
        None \<Rightarrow> None
      | Some (Inl p) \<Rightarrow> Some (n, [], p)
      | Some (Inr (ev, p)) \<Rightarrow> do { (n, evs, p) \<leftarrow> csv_loop cb1 cb2 s (n + 1) p; Some (n, ev @ evs, p) })"
  by (simp add: csv_round_def Let_def split: prod.split step.split Option.bind_split)

declare csv_loop.simps(2) [simp del] csv_loop_round [simp]

lemma csv_loop_bound:
  "csv_loop cb1 cb2 s n p = Some (m, ev, p') \<Longrightarrow> n \<le> m \<and> m \<le> n + length s"
  by (induction s arbitrary: n p ev)
     (fastforce simp: bind_eq_Some_conv split: option.splits sum.splits prod.splits)+

lemma csv_loop_append:
  "csv_loop cb1 cb2 (a @ b) n p =
     do { (m, e1, p1) \<leftarrow> csv_loop cb1 cb2 a n p;
          if m < n + length a then Some (m, e1, p1)
          else do { (m, e2, p2) \<leftarrow> csv_loop cb1 cb2 b m p1; Some (m, e1 @ e2, p2) } }"
proof (induction a arbitrary: n p)
  case Nil
  then show ?case by (auto split: Option.bind_splits)
next
  case (Cons c a)
  show ?case
  proof (cases "csv_round cb1 cb2 c p")
    case (Some r)
    then show ?thesis by (cases r) (auto simp: Cons.IH split: Option.bind_splits)
  qed simp
qed

lemma csv_loop_shift:
  "csv_loop cb1 cb2 s (n + k) p =
     do { (m, ev, p') \<leftarrow> csv_loop cb1 cb2 s n p; Some (m + k, ev, p') }"
proof (induction s arbitrary: n p)
  case (Cons c s)
  have IH: "csv_loop cb1 cb2 s (n + k + 1) q =
      do { (m, ev, p') \<leftarrow> csv_loop cb1 cb2 s (n + 1) q; Some (m + k, ev, p') }" for q
    using Cons.IH [of "n + 1" q] by (simp add: ac_simps case_prod_unfold)
  show ?case
  proof (cases "csv_round cb1 cb2 c p")
    case (Some r)
    then show ?thesis by (cases r) (auto simp: IH split: Option.bind_splits)
  qed simp
qed simp

text \<open>
  C18. Incremental parsing: parsing two pieces one after the other gives the same events, the same
  count and the same parser as parsing them in one call.
\<close>

theorem csv_parse_chunks:
  assumes "csv_inv p"
  shows "csv_parse cb1 cb2 (a @ b) p =
    do { (n, e1, p1) \<leftarrow> csv_parse cb1 cb2 a p;
         if n < length a then Some (n, e1, p1)
         else do { (m, e2, p2) \<leftarrow> csv_parse cb1 cb2 b p1; Some (n + m, e1 @ e2, p2) } }"
proof (cases "a = []")
  case True
  obtain k ev p' where "csv_parse cb1 cb2 b p = Some (k, ev, p')"
    using assms by (rule csv_parse_run)
  with True show ?thesis by (simp add: csv_parse_def)
next
  case False
  obtain ok q where q: "(if entry_buf p = None then csv_increase_buffer p else (True, p)) = (ok, q)"
    by fastforce
  have parse: "csv_parse cb1 cb2 s p = (if \<not> ok then Some (0, [], q) else csv_loop cb1 cb2 s 0 q)" if "s \<noteq> []" for s
    using q that by (auto simp: csv_parse_def)
  obtain n e1 p1 where a: "csv_parse cb1 cb2 a p = Some (n, e1, p1)" "n = length a \<longrightarrow> entry_buf p1 \<noteq> None"
    and le: "n \<le> length a"
    using csv_parse_run [OF assms, of cb1 cb2 a] False by (metis run_ok_def)
  show ?thesis
  proof (cases ok)
    case nok: False
    with False parse [of a] parse [of "a @ b"] show ?thesis by simp
  next
    case True
    then have la: "csv_loop cb1 cb2 a 0 q = Some (n, e1, p1)" using a parse False by simp
    show ?thesis
    proof (cases "n < length a")
      case True
      with la parse [of "a @ b"] a False \<open>ok\<close> show ?thesis by (simp add: csv_loop_append)
    next
      case full: False
      then have "csv_parse cb1 cb2 b p1 = csv_loop cb1 cb2 b 0 p1"
        using a(2) le by (auto simp: csv_parse_def)
      with full la parse [of "a @ b"] a False \<open>ok\<close> csv_loop_shift [of cb1 cb2 b 0 n p1] show ?thesis
        by (auto simp: csv_loop_append ac_simps split: Option.bind_splits)
    qed
  qed
qed

lemma csv_parse_chunks_witness:
  "csv_parse True True ([0x61] @ [0x2c]) (csv_init 0 (\<lambda>_. True)) =
    do { (n, e1, p1) \<leftarrow> csv_parse True True [0x61] (csv_init 0 (\<lambda>_. True));
         if n < length [0x61 :: u8] then Some (n, e1, p1)
         else do { (m, e2, p2) \<leftarrow> csv_parse True True [0x2c] p1; Some (n + m, e1 @ e2, p2) } }"
  by (rule csv_parse_chunks) simp

section \<open>The validator\<close>

lemma validate_reads_run:
  assumes "csv_inv p" "ample p (length (concat bufs))"
  shows "\<exists>ok n p' evs st. validate_reads bufs tot p = Some (ok, tot + n, p') \<and> n \<le> length (concat bufs) \<and>
    scan_run (config p) (take n (concat bufs)) (scan_of p) = Some (evs, st) \<and>
    (if ok then n = length (concat bufs) \<and> csv_inv p' \<and> config p' = config p \<and> scan_of p' = st
     else n < length (concat bufs) \<and> scan_char (config p) (concat bufs ! n) st = None)"
  using assms
proof (induction bufs arbitrary: tot p)
  case Nil
  then show ?case by (intro exI [of _ True] exI [of _ 0]) auto
next
  case (Cons b bufs)
  have "ample p (length b)" using Cons.prems(2) by (simp add: ample_def)
  obtain k ev q where q: "csv_parse False False b p = Some (k, ev, q)" "run_ok False False b p k ev q"
    using Cons.prems(1) by (rule csv_parse_run)
  note am = run_ok_ample [OF Cons.prems(1) \<open>ample p (length b)\<close> q(2)]
  obtain evs where evs: "scan_run (config p) (take k b) (scan_of p) = Some (evs, scan_of q)" "k \<le> length b"
    "csv_inv q" "config q = config p"
    using q(2) by (auto simp: run_ok_def agree_def)
  show ?case
  proof (cases "k = length b")
    case False
    then have "k < length b" "scan_char (config p) (b ! k) (scan_of q) = None"
      using evs(2) q(2) am(2) by (auto simp: run_ok_def split: if_splits)
    with False q(1) evs(1) show ?thesis
      by (intro exI [of _ False] exI [of _ k]) (auto simp: nth_append)
  next
    case True
    have "ample q (length (concat bufs))"
      using Cons.prems am(1) True q(2) evs scan_run_len [OF evs(1)] scan_len_of
      by (auto simp: ample_def run_ok_def agree_def)
    from Cons.IH [OF evs(3) this, of "tot + k"] obtain ok n p' evs' st where
      IH: "validate_reads bufs (tot + k) q = Some (ok, tot + k + n, p')" "n \<le> length (concat bufs)"
      "scan_run (config q) (take n (concat bufs)) (scan_of q) = Some (evs', st)"
      "if ok then n = length (concat bufs) \<and> csv_inv p' \<and> config p' = config q \<and> scan_of p' = st
       else n < length (concat bufs) \<and> scan_char (config q) (concat bufs ! n) st = None"
      by blast
    have "scan_run (config p) (take (k + n) (concat (b # bufs))) (scan_of p) = Some (evs @ evs', st)"
      using True evs IH(3) by (simp add: scan_run_append)
    with True q(1) evs IH show ?thesis
      by (intro exI [of _ ok] exI [of _ "k + n"] exI [of _ p']) (auto simp: add.assoc)
  qed
qed

definition strict_config :: csv_config where
  "strict_config = config (csv_init CSV_STRICT (\<lambda>_. True))"

lemma strict_config_sel [simp]:
  "cf_options strict_config = CSV_STRICT" "cf_quote strict_config = CSV_QUOTE"
  "cf_delim strict_config = CSV_COMMA" "cf_space strict_config c = (c = CSV_SPACE \<or> c = CSV_TAB)"
  "cf_term strict_config c = (c = CSV_CR \<or> c = CSV_LF)"
  by (simp_all add: strict_config_def config_def csv_init_def space_def term_char_def)

lemma scan_end_strict: "scan_end strict_config st \<noteq> None"
  by (cases st) (simp_all add: CSV_STRICT_def CSV_STRICT_FINI_def)

lemma csv_main_run:
  assumes "length (concat bufs) < NEG1 - 1"
  shows "\<exists>n. csv_main bufs (\<lambda>_. True) = Some (scan_run strict_config (concat bufs) Row_Start \<noteq> None, n) \<and>
    n \<le> length (concat bufs) \<and> scan_run strict_config (take n (concat bufs)) Row_Start \<noteq> None \<and>
    (n < length (concat bufs) \<longrightarrow> scan_run strict_config (take (n + 1) (concat bufs)) Row_Start = None)"
proof -
  let ?p = "csv_init CSV_STRICT (\<lambda>_. True)" and ?s = "concat bufs"
  have "ample ?p (length ?s)" using assms by (simp add: ample_def csv_init_def)
  from validate_reads_run [OF csv_init_ok(1) this, of 0] obtain ok n p' evs st where
    r: "validate_reads bufs 0 ?p = Some (ok, n, p')" "n \<le> length ?s"
      "scan_run strict_config (take n ?s) Row_Start = Some (evs, st)"
      "if ok then n = length ?s \<and> csv_inv p' \<and> config p' = config ?p \<and> scan_of p' = st
       else n < length ?s \<and> scan_char (config ?p) (?s ! n) st = None"
    by (auto simp flip: strict_config_def)
  show ?thesis
  proof (cases ok)
    case True
    obtain q where "csv_fini False False p' = Some (case scan_end (config p') (scan_of p') of
        None \<Rightarrow> (False, [], p'\<lparr>status := CSV_EPARSE\<rparr>)
      | Some evs \<Rightarrow> (True, filter (wanted False False) evs, q))"
      using r(4) True by (auto elim: csv_fini_run [where ?cb1.0 = False and ?cb2.0 = False])
    moreover have "scan_end (config p') (scan_of p') \<noteq> None"
      using r(4) True scan_end_strict by (simp add: strict_config_def)
    ultimately have "csv_main bufs (\<lambda>_. True) = Some (True, n)"
      using r(1) True by (auto simp: csv_main_def)
    with r True show ?thesis by auto
  next
    case False
    have bad: "scan_char strict_config (?s ! n) st = None" "n < length ?s"
      using r(4) False by (simp_all add: strict_config_def)
    have "scan_run strict_config (take (n + 1) ?s) Row_Start = None"
      using r(3) bad by (simp add: take_Suc_conv_app_nth scan_run_append One_nat_def)
    moreover have "scan_run strict_config ?s Row_Start = None"
      using scan_run_stuck [OF bad(2) r(3) bad(1)] .
    ultimately show ?thesis using r False by (auto simp: csv_main_def)
  qed
qed

text \<open>
  The validator's verdict: it accepts a file exactly if the strict scanner accepts its bytes,
  however the reads cut it, and the count it prints is the length of the longest well-formed prefix.
\<close>

theorem csv_main_verdict:
  assumes "length (concat bufs) < NEG1 - 1"
  shows "\<exists>n. csv_main bufs (\<lambda>_. True) = Some (scan_run strict_config (concat bufs) Row_Start \<noteq> None, n) \<and>
    n \<le> length (concat bufs) \<and> scan_run strict_config (take n (concat bufs)) Row_Start \<noteq> None \<and>
    (n < length (concat bufs) \<longrightarrow> scan_run strict_config (take (n + 1) (concat bufs)) Row_Start = None)"
  using assms by (rule csv_main_run)

lemma csv_main_verdict_witness:
  "\<exists>n. csv_main [[0x61], [0x22, 0x0a]] (\<lambda>_. True) = Some (False, n)"
proof -
  have "scan_run strict_config (concat [[0x61], [0x22, 0x0a]]) Row_Start = None"
    by (simp add: CSV_STRICT_def CSV_QUOTE_def CSV_COMMA_def CSV_SPACE_def CSV_TAB_def CSV_CR_def CSV_LF_def)
  then show ?thesis
    using csv_main_verdict [of "[[0x61], [0x22, 0x0a]]"] by (auto simp: NEG1_def)
qed

lemma scan_run_quoted:
  "cf_quote k \<notin> set s \<Longrightarrow> scan_run k s (Quoted e) = Some ([], Quoted (e @ s))"
  by (induction s arbitrary: e) auto

text \<open>
  An unterminated quoted field passes: the validator sets \<open>CSV_STRICT\<close> without
  \<open>CSV_STRICT_FINI\<close>, so a file that opens a quote and never closes it is reported well-formed.
\<close>

theorem csv_main_unterminated:
  assumes "CSV_QUOTE \<notin> set s" "length s < NEG1 - 2"
  shows "\<exists>n. csv_main [CSV_QUOTE # s] (\<lambda>_. True) = Some (True, n)"
proof -
  have "scan_run strict_config (CSV_QUOTE # s) Row_Start \<noteq> None"
    using assms(1)
    by (simp add: scan_run_quoted CSV_QUOTE_def CSV_COMMA_def CSV_SPACE_def CSV_TAB_def CSV_CR_def CSV_LF_def)
  then show ?thesis
    using csv_main_run [of "[CSV_QUOTE # s]"] assms(2) by (auto simp: NEG1_def One_nat_def)
qed

lemma csv_main_unterminated_witness:
  "\<exists>n. csv_main [[CSV_QUOTE, 0x61, 0x2c, 0x0a]] (\<lambda>_. True) = Some (True, n)"
  by (rule csv_main_unterminated) (simp_all add: CSV_QUOTE_def NEG1_def)

section \<open>The writers\<close>

definition dup_quotes :: "u8 \<Rightarrow> bytes \<Rightarrow> bytes" where
  "dup_quotes q s = concat (map (\<lambda>c. if c = q then [q, c] else [c]) s)"

definition quoted_text :: "u8 \<Rightarrow> bytes \<Rightarrow> bytes" where
  "quoted_text q s = q # dup_quotes q s @ [q]"

lemma dup_quotes_simps [simp]:
  "dup_quotes q [] = []" "dup_quotes q (c # s) = (if c = q then [q, q] else [c]) @ dup_quotes q s"
  by (simp_all add: dup_quotes_def)

text \<open>The destination after the text \<open>t\<close> has been written up to \<open>n\<close> characters over \<open>mem\<close>.\<close>

definition blit :: "nat \<Rightarrow> bytes \<Rightarrow> bytes \<Rightarrow> bytes" where
  "blit n mem t = take n t @ drop (min n (length t)) mem"

lemma blit_snoc:
  "n \<le> length mem \<Longrightarrow> length t < n \<Longrightarrow> (blit n mem t)[length t := c] = blit n mem (t @ [c])"
  by (simp add: blit_def list_update_append min.absorb2 Suc_leI Cons_nth_drop_Suc [symmetric])

lemma put_blit:
  assumes "n \<le> length mem" "length t < NEG1"
  shows "put n c (blit n mem t, min n (length t), length t) =
    Some (blit n mem (t @ [c]), min n (length (t @ [c])), length (t @ [c]))"
proof (cases "length t < n")
  case True
  then have "length t < length (blit n mem t)" using assms(1) by (simp add: blit_def)
  with True assms show ?thesis by (simp add: put_def mem_set_upd blit_snoc)
next
  case False
  then show ?thesis using assms by (simp add: put_def blit_def min_def)
qed

lemma write_loop_blit:
  assumes "n \<le> length mem" "length t + length (dup_quotes q s) \<le> NEG1"
  shows "write_loop n q s (blit n mem t, min n (length t), length t) =
    Some (blit n mem (t @ dup_quotes q s), min n (length (t @ dup_quotes q s)), length (t @ dup_quotes q s))"
  using assms(2)
proof (induction s arbitrary: t)
  case (Cons c s)
  show ?case
  proof (cases "c = q")
    case True
    with Cons.prems assms(1) Cons.IH [of "t @ [q, q]"] put_blit [OF assms(1), of "t @ [q]" q] put_blit [OF assms(1), of t q]
    show ?thesis by simp
  next
    case False
    with Cons.prems assms(1) Cons.IH [of "t @ [c]"] put_blit [OF assms(1), of t c]
    show ?thesis by simp
  qed
qed simp

lemma csv_write2_text:
  assumes "length (quoted_text q s) \<le> NEG1" "\<And>mem. dest = Some mem \<Longrightarrow> n \<le> length mem"
  shows "csv_write2 dest n s q = Some (length (quoted_text q s),
    case dest of None \<Rightarrow> [] | Some mem \<Rightarrow> blit n mem (quoted_text q s))"
proof -
  define mem' where "mem' = (case dest of None \<Rightarrow> [] | Some mem \<Rightarrow> mem)"
  define m where "m = (case dest of None \<Rightarrow> 0 | Some _ \<Rightarrow> n)"
  have m: "m \<le> length mem'" using assms(2) by (auto simp: m_def mem'_def split: option.splits)
  have start: "(if m > 0 then do { mem \<leftarrow> mem_set mem' 0 q; Some (mem, 1) } else Some (mem', 0)) =
      Some (blit m mem' [q], min m 1)"
    using m by (cases mem') (auto simp: blit_def mem_set_def One_nat_def drop_Cons' take_Cons' min_def)
  have lens: "length [q] + length (dup_quotes q s) < NEG1"
    using assms(1) by (simp add: quoted_text_def)
  have body: "write_loop m q s (blit m mem' [q], min m 1, 1) =
      Some (blit m mem' (q # dup_quotes q s), min m (length (q # dup_quotes q s)), length (q # dup_quotes q s))"
    using write_loop_blit [OF m, of "[q]" q s] lens by (simp add: One_nat_def)
  have last: "put m q (blit m mem' (q # dup_quotes q s), min m (length (q # dup_quotes q s)), length (q # dup_quotes q s)) =
      Some (blit m mem' (quoted_text q s), min m (length (quoted_text q s)), length (quoted_text q s))"
    using put_blit [OF m, of "q # dup_quotes q s" q] lens by (simp add: quoted_text_def)
  have "csv_write2 dest n s q =
      do { (mem, at) \<leftarrow> (if m > 0 then do { mem \<leftarrow> mem_set mem' 0 q; Some (mem, 1) } else Some (mem', 0));
           (mem, at, chars) \<leftarrow> write_loop m q s (mem, at, 1);
           (mem, at, chars) \<leftarrow> put m q (mem, at, chars);
           Some (chars, mem) }"
    by (cases dest) (simp_all add: csv_write2_def m_def mem'_def)
  also have "\<dots> = Some (length (quoted_text q s), blit m mem' (quoted_text q s))"
    unfolding start by (simp add: body last [simplified])
  finally have "csv_write2 dest n s q = Some (length (quoted_text q s), blit m mem' (quoted_text q s))" .
  then show ?thesis by (auto simp: m_def mem'_def blit_def split: option.splits)
qed

text \<open>
  C19. \<open>csv_write2\<close> writes the quoted field with every quote doubled, cut at the size of the
  destination, and returns the full length, so that a call with a null destination measures.
\<close>

theorem csv_write2_result:
  assumes "length (quoted_text q s) \<le> NEG1" "n \<le> length mem"
  shows "csv_write2 (Some mem) n s q =
      Some (length (quoted_text q s),
            take n (quoted_text q s) @ drop (min n (length (quoted_text q s))) mem) \<and>
    csv_write2 None n s q = Some (length (quoted_text q s), [])"
  using csv_write2_text [OF assms(1), of "Some mem" n] csv_write2_text [OF assms(1), of None]
    assms(2) by (simp add: blit_def)

lemma csv_write2_result_witness:
  "csv_write2 (Some [0, 0, 0]) 2 [0x22] 0x22 = Some (4, [0x22, 0x22, 0])"
  using csv_write2_result [of "0x22" "[0x22]" 2 "[0, 0, 0]"]
  by (simp add: quoted_text_def NEG1_def)

section \<open>Round trip\<close>

lemma fwrite_loop_text:
  "fwrite_loop q s (r, out) =
     (if length (dup_quotes q s) \<le> r then (True, r - length (dup_quotes q s), out @ dup_quotes q s)
      else (False, 0, out @ take r (dup_quotes q s)))"
proof (induction s arbitrary: r out)
  case (Cons c s)
  consider "r = 0" | "r = Suc 0" | r' where "r = Suc (Suc r')" by (metis nat.exhaust)
  then show ?case by cases (auto simp: fputc_def Cons.IH One_nat_def)
qed simp

lemma csv_fwrite2_text:
  "csv_fwrite2 (r, out) s q =
     (if length (quoted_text q s) \<le> r then (True, r - length (quoted_text q s), out @ quoted_text q s)
      else (False, 0, out @ take r (quoted_text q s)))"
  by (auto simp: csv_fwrite2_def fputc_def fwrite_loop_text quoted_text_def One_nat_def take_Cons' Let_def)

text \<open>
  The two writers agree: \<open>csv_fwrite2\<close> sends to the stream what \<open>csv_write2\<close> puts in memory, and
  on a stream that fills up it reports the failure after having sent the part that fits.
\<close>

theorem csv_fwrite2_agrees:
  assumes "length (quoted_text q s) \<le> NEG1" "csv_write2 (Some mem) (length mem) s q = Some (n, mem')"
  shows "csv_fwrite2 (r, out) s q =
    (if n \<le> r then (True, r - n, out @ quoted_text q s) else (False, 0, out @ take r (quoted_text q s))) \<and>
    n = length (quoted_text q s) \<and> take n mem' = take (length mem) (quoted_text q s)"
  using csv_write2_text [OF assms(1), of "Some mem" "length mem"] assms(2) csv_fwrite2_text [of r out s q]
  by (auto simp: blit_def min_def)

lemma csv_fwrite2_agrees_witness:
  "csv_fwrite2 (10, []) [0x61] 0x22 = (True, 7, [0x22, 0x61, 0x22])"
  using csv_fwrite2_agrees [of "0x22" "[0x61]" "[0, 0]" 3 "[0x22, 0x61]" 10 "[]"]
  by (simp add: quoted_text_def NEG1_def csv_write2_def put_def mem_set_def One_nat_def)

text \<open>A client that writes rows of fields with \<open>csv_fwrite2\<close>, a delimiter and a line end.\<close>

fun write_row :: "u8 \<Rightarrow> u8 \<Rightarrow> u8 \<Rightarrow> bytes list \<Rightarrow> nat \<times> bytes \<Rightarrow> bool \<times> nat \<times> bytes" where
  "write_row q d nl [] f = (True, f)"
| "write_row q d nl (s # ss) f =
     (let (ok, f) = csv_fwrite2 f s q in
      if \<not> ok then (False, f)
      else let (ok, f) = fputc (if ss = [] then nl else d) f in
        if \<not> ok then (False, f) else write_row q d nl ss f)"

fun write_rows :: "u8 \<Rightarrow> u8 \<Rightarrow> u8 \<Rightarrow> bytes list list \<Rightarrow> nat \<times> bytes \<Rightarrow> bool \<times> nat \<times> bytes" where
  "write_rows q d nl [] f = (True, f)"
| "write_rows q d nl (r # rs) f =
     (let (ok, f) = write_row q d nl r f in if \<not> ok then (False, f) else write_rows q d nl rs f)"

definition row_events :: "u8 \<Rightarrow> bytes list \<Rightarrow> event list" where
  "row_events nl r = map (\<lambda>s. Field (Some s)) r @ [Row (uint nl)]"

text \<open>Quote, delimiter and line end that can be told apart.\<close>

definition dialect :: "csv_config \<Rightarrow> u8 \<Rightarrow> bool" where
  "dialect k nl \<longleftrightarrow> cf_quote k \<noteq> cf_delim k \<and> \<not> cf_space k (cf_quote k) \<and> \<not> cf_term k (cf_quote k) \<and>
     cf_term k nl \<and> nl \<noteq> cf_delim k"

lemma scan_dup_quotes:
  "dialect k nl \<Longrightarrow> scan_run k (dup_quotes (cf_quote k) s) (Quoted e) = Some ([], Quoted (e @ s))"
proof (induction s arbitrary: e)
  case (Cons c s)
  show ?case using Cons.IH [of "e @ [c]"] Cons.prems by (auto simp: One_nat_def dialect_def)
qed simp

lemma scan_quoted_text:
  assumes "dialect k nl" "st = Row_Start \<or> st = Field_Start"
  shows "scan_run k (quoted_text (cf_quote k) s) st = Some ([], Closing s [cf_quote k])"
  using assms(2) assms(1) scan_dup_quotes [OF assms(1), of s "[]"]
  by (auto simp: quoted_text_def dialect_def scan_run_append)

lemma write_row_text:
  assumes "dialect k nl" "st = Row_Start \<or> st = Field_Start" "r \<noteq> []"
    "write_row (cf_quote k) (cf_delim k) nl r (cap, out) = (True, cap', out')"
  shows "\<exists>t. out' = out @ t \<and> scan_run k t st = Some (row_events nl r, Row_Start)"
  using assms(2-4)
proof (induction r arbitrary: cap out st)
  case (Cons s ss)
  let ?q = "cf_quote k" and ?e = "if ss = [] then nl else cf_delim k"
  have *: "length (quoted_text ?q s) < cap"
      "write_row ?q (cf_delim k) nl ss (cap - length (quoted_text ?q s) - 1, out @ quoted_text ?q s @ [?e]) =
        (True, cap', out')"
    using Cons.prems(3) by (auto simp: csv_fwrite2_text fputc_def Let_def split: if_splits)
  have fld: "scan_run k (quoted_text ?q s @ [?e]) st =
      Some (if ss = [] then row_events nl [s] else [Field (Some s)], if ss = [] then Row_Start else Field_Start)"
    using scan_quoted_text [OF assms(1) Cons.prems(1)] assms(1)
    by (simp add: scan_run_append dialect_def row_events_def)
  show ?case
  proof (cases "ss = []")
    case True
    with * fld show ?thesis by (auto intro!: exI [of _ "quoted_text ?q s @ [?e]"])
  next
    case False
    from Cons.IH [OF _ False *(2), of Field_Start] obtain t where
      "out' = (out @ quoted_text ?q s @ [?e]) @ t" "scan_run k t Field_Start = Some (row_events nl ss, Row_Start)"
      by auto
    moreover have "scan_run k ((quoted_text ?q s @ [?e]) @ t) st = Some (row_events nl (s # ss), Row_Start)"
      by (subst scan_run_append, subst fld) (use calculation False in \<open>simp add: row_events_def\<close>)
    ultimately show ?thesis by (metis append.assoc)
  qed
qed simp

lemma write_rows_text:
  assumes "dialect k nl" "[] \<notin> set rs"
    "write_rows (cf_quote k) (cf_delim k) nl rs (cap, out) = (True, cap', out')"
  shows "\<exists>t. out' = out @ t \<and> scan_run k t Row_Start = Some (concat (map (row_events nl) rs), Row_Start)"
  using assms(2,3)
proof (induction rs arbitrary: cap out)
  case (Cons r rs)
  then obtain cap1 out1 where
    *: "write_row (cf_quote k) (cf_delim k) nl r (cap, out) = (True, cap1, out1)"
       "write_rows (cf_quote k) (cf_delim k) nl rs (cap1, out1) = (True, cap', out')"
    by (auto split: prod.splits if_splits)
  from write_row_text [OF assms(1) _ _ *(1), of Row_Start] Cons.prems(1) obtain t1 where
    t1: "out1 = out @ t1" "scan_run k t1 Row_Start = Some (row_events nl r, Row_Start)" by auto
  from Cons.IH [OF _ *(2)] Cons.prems(1) obtain t2 where
    t2: "out' = out1 @ t2" "scan_run k t2 Row_Start = Some (concat (map (row_events nl) rs), Row_Start)" by auto
  show ?case using t1 t2 by (intro exI [of _ "t1 @ t2"]) (simp add: scan_run_append)
qed simp

text \<open>
  C17. Round trip: the rows that a client wrote with \<open>csv_fwrite2\<close> come back from \<open>csv_parse\<close> field by
  field and row by row, whatever bytes the fields hold, under every option and in every dialect
  whose quote, delimiter and line end can be told apart.
\<close>

theorem csv_write_parse_roundtrip:
  assumes "csv_inv p" "scan_of p = Row_Start" "dialect (config p) nl" "[] \<notin> set rs"
    "write_rows (quote_char p) (delim_char p) nl rs (cap, []) = (True, cap', file)"
    "ample p (length file)"
  shows "\<exists>p'. csv_parse True True file p = Some (length file, concat (map (row_events nl) rs), p') \<and>
    scan_of p' = Row_Start \<and> status p' = status p"
proof -
  have whole: "scan_run (config p) file Row_Start = Some (concat (map (row_events nl) rs), Row_Start)"
    using write_rows_text [OF assms(3,4), of cap "[]" cap' "file"] assms(5) by auto
  have all: "filter (wanted True True) evs = evs" for evs
    by (intro filter_True ballI) (metis event.exhaust wanted.simps)
  obtain k ev p' where r: "csv_parse True True file p = Some (k, ev, p')" "run_ok True True file p k ev p'"
    using assms(1) by (rule csv_parse_run)
  have "k = length file"
    using run_ok_accepts [OF assms(1,6) r(2)] whole assms(2) by simp
  with r whole assms(2) all show ?thesis by (auto simp: run_ok_def)
qed

lemma csv_write_parse_roundtrip_witness:
  "\<exists>p'. csv_parse True True [0x22, 0x22, 0x22, 0x22, 0x0a] (csv_init 0 (\<lambda>_. True)) =
     Some (5, [Field (Some [0x22]), Row 10], p')"
proof -
  let ?p = "csv_init 0 (\<lambda>_. True)"
  have "dialect (config ?p) 0x0a"
    by (simp add: dialect_def config_def csv_init_def space_def term_char_def CSV_QUOTE_def CSV_COMMA_def
        CSV_SPACE_def CSV_TAB_def CSV_CR_def CSV_LF_def)
  moreover have "write_rows (quote_char ?p) (delim_char ?p) 0x0a [[[0x22]]] (5, []) =
      (True, 0, [0x22, 0x22, 0x22, 0x22, 0x0a])"
    by (simp add: csv_init_def CSV_QUOTE_def csv_fwrite2_def fputc_def One_nat_def)
  ultimately show ?thesis
    using csv_write_parse_roundtrip [OF csv_init_ok(1) csv_init_ok(2), of 0 "\<lambda>_. True" "0x0a" "[[[0x22]]]" 5 0]
    by (auto simp: ample_def csv_init_def NEG1_def row_events_def)
qed

section \<open>Options in mid-entry\<close>

text \<open>
  Switching \<open>CSV_APPEND_NULL\<close> on while an entry fills the buffer defeats the check for a full
  buffer, which tests equality with the new limit: the next ordinary character is written past the
  end.
\<close>

theorem csv_set_opts_overflow:
  assumes "csv_inv p" "pstate p = FIELD_BEGUN" "entry_pos p = entry_size p"
    "c \<noteq> delim_char p" "\<not> term_char p c"
  shows "csv_parse cb1 cb2 [c] (csv_set_opts p CSV_APPEND_NULL) = None"
proof -
  let ?p = "csv_set_opts p CSV_APPEND_NULL"
  obtain b where b: "entry_buf p = Some b" "length b = entry_size p" "0 < entry_size p" "entry_size p \<le> NEG1"
    using assms(1,2) by (auto simp: csv_inv_def buf_def split: option.splits)
  have "\<not> buffer_full ?p"
    using b assms(3) wsub_small [of 1 "entry_size p"]
    by (simp add: buffer_full_def opt_def csv_set_opts_def CSV_APPEND_NULL_def NEG1_def)
  moreover have "SUBMIT_CHAR c ?p = None"
    using b assms(3) by (simp add: SUBMIT_CHAR_def csv_set_opts_def mem_set_def)
  then have "csv_char cb1 cb2 c ?p = None"
    using assms(2,4,5)
    by (cases "quote_char p = c")
       (simp_all add: csv_char_def csv_set_opts_def opt_def next_char_def space_def term_char_def
        CSV_APPEND_NULL_def CSV_STRICT_def)
  ultimately show ?thesis
    using b by (simp add: csv_parse_def csv_round_def csv_set_opts_def)
qed

lemma csv_set_opts_overflow_witness:
  "csv_parse True True [0x62]
     (csv_set_opts (csv_init 0 (\<lambda>_. True)\<lparr>entry_buf := Some [0x61], entry_size := 1, entry_pos := 1,
        pstate := FIELD_BEGUN, blk_size := 1\<rparr>) CSV_APPEND_NULL) = None"
  by (rule csv_set_opts_overflow)
     (simp_all add: csv_inv_def csv_init_def limit_def opt_def buf_def term_char_def NEG1_def
        CSV_CR_def CSV_LF_def CSV_COMMA_def)

end
