(* ===== verification/Libutf.thy ===== *)
theory Libutf
  imports Prelude_C
begin

text \<open>
  The transcoding library \<open>libutf\<close>: validation, conversion and length functions between ASCII,
  Latin-1, UTF-8, UTF-16LE and UTF-32. The parameter \<open>host\<close> is the byte order of the machine, which
  the code finds out with \<open>utf_endianness\<close>. A conversion returns the value that the C function
  returns and the units that it wrote, also when it gives up; reads outside the input are \<open>None\<close>.
\<close>

section \<open>Model\<close>

subsection \<open>Byte order\<close>

datatype utf_endianness_t = utf_le | utf_be

definition utf_is_be :: "utf_endianness_t \<Rightarrow> bool" where
  "utf_is_be host = (host = utf_be)"

definition utf_swap_uint16 :: "u16 \<Rightarrow> u16" where
  "utf_swap_uint16 n = push_bit 8 (n AND 0x00ff) OR drop_bit 8 (n AND 0xff00)"

definition utf_swap_uint32 :: "u32 \<Rightarrow> u32" where
  "utf_swap_uint32 n =
     push_bit 24 (n AND 0x000000ff) OR push_bit 8 (n AND 0x0000ff00) OR
     drop_bit 8 (n AND 0x00ff0000) OR drop_bit 24 (n AND 0xff000000)"

definition le16 :: "utf_endianness_t \<Rightarrow> u16 \<Rightarrow> u16" where
  "le16 host w = (if utf_is_be host then utf_swap_uint16 w else w)"

text \<open>\<open>memcpy\<close> of consecutive units into a \<open>uint64_t\<close>.\<close>

fun pack64 :: "'a::len word list \<Rightarrow> u64" where
  "pack64 [] = 0"
| "pack64 (w # ws) = ucast w OR push_bit LENGTH('a) (pack64 ws)"

definition memcpy64 :: "utf_endianness_t \<Rightarrow> 'a::len word list \<Rightarrow> nat \<Rightarrow> nat \<Rightarrow> u64 option" where
  "memcpy64 host data pos n =
     do { ws \<leftarrow> mem_slice data pos n; Some (pack64 (if utf_is_be host then rev ws else ws)) }"

text \<open>The test for sixteen ASCII bytes ahead, and the one for eight.\<close>

definition ascii16 :: "utf_endianness_t \<Rightarrow> bytes \<Rightarrow> nat \<Rightarrow> bool option" where
  "ascii16 host data pos =
     (if pos + 16 \<le> length data then
        do { v1 \<leftarrow> memcpy64 host data pos 8; v2 \<leftarrow> memcpy64 host data (pos + 8) 8;
             Some ((v1 OR v2) AND 0x8080808080808080 = 0) }
      else Some False)"

definition ascii8 :: "utf_endianness_t \<Rightarrow> bytes \<Rightarrow> nat \<Rightarrow> bool option" where
  "ascii8 host data pos =
     (if pos + 8 \<le> length data then
        do { v \<leftarrow> memcpy64 host data pos 8; Some (v AND 0x8080808080808080 = 0) }
      else Some False)"

subsection \<open>Validation\<close>

function ascii_validate_from :: "utf_endianness_t \<Rightarrow> bytes \<Rightarrow> nat \<Rightarrow> bool option" where
  "ascii_validate_from host data pos =
     (if pos + 16 \<le> length data then
        do { v1 \<leftarrow> memcpy64 host data pos 8; v2 \<leftarrow> memcpy64 host data (pos + 8) 8;
             if (v1 OR v2) AND 0x8080808080808080 \<noteq> 0 then Some False
             else ascii_validate_from host data (pos + 16) }
      else if pos < length data then
        do { b \<leftarrow> mem_get data pos; if b \<ge> 0x80 then Some False else ascii_validate_from host data (pos + 1) }
      else Some True)"
  by pat_completeness auto
termination by (relation "measure (\<lambda>(host, data, pos). length data - pos)") auto

declare ascii_validate_from.simps [simp del]

definition ascii_validate :: "utf_endianness_t \<Rightarrow> bytes \<Rightarrow> bool option" where
  "ascii_validate host data = ascii_validate_from host data 0"

text \<open>The code points of two, three and four bytes.\<close>

definition cp2 :: "u8 \<Rightarrow> u8 \<Rightarrow> u32" where
  "cp2 a b = push_bit 6 (ucast (a AND 0x1f)) OR ucast (b AND 0x3f)"

definition cp3 :: "u8 \<Rightarrow> u8 \<Rightarrow> u8 \<Rightarrow> u32" where
  "cp3 a b c = push_bit 12 (ucast (a AND 0x0f)) OR push_bit 6 (ucast (b AND 0x3f)) OR ucast (c AND 0x3f)"

definition cp4 :: "u8 \<Rightarrow> u8 \<Rightarrow> u8 \<Rightarrow> u8 \<Rightarrow> u32" where
  "cp4 a b c d = push_bit 18 (ucast (a AND 0x07)) OR push_bit 12 (ucast (b AND 0x3f)) OR
     push_bit 6 (ucast (c AND 0x3f)) OR ucast (d AND 0x3f)"

text \<open>The inner loop of \<open>utf8_validate\<close>: \<open>None\<close> inside when the data end.\<close>

function skip_ascii :: "bytes \<Rightarrow> nat \<Rightarrow> u8 \<Rightarrow> (nat \<times> u8) option option" where
  "skip_ascii data pos word =
     (if word < 0x80 then
        (if pos + 1 = length data then Some None
         else do { word \<leftarrow> mem_get data (pos + 1); skip_ascii data (pos + 1) word })
      else Some (Some (pos, word)))"
  by pat_completeness auto
termination by (relation "measure (\<lambda>(data, pos, word). length data - pos)") auto

declare skip_ascii.simps [simp del]

lemma skip_ascii_le:
  "skip_ascii data pos word = Some (Some (pos', word')) \<Longrightarrow> pos \<le> pos'"
proof (induction data pos word rule: skip_ascii.induct)
  case (1 data pos word)
  note unroll = "1.prems" [unfolded skip_ascii.simps [of data pos word]]
  show ?case
  proof (cases "word < 0x80")
    case True
    with unroll have *: "pos + 1 \<noteq> length data" "pos + 1 < length data"
      "skip_ascii data (pos + 1) (data ! (pos + 1)) = Some (Some (pos', word'))"
      by (auto simp: bind_eq_Some_conv split: if_splits)
    show ?thesis using "1.IH" [OF True *(1) mem_get_nth [OF *(2)] *(3)] by simp
  next
    case False
    with unroll show ?thesis by simp
  qed
qed

function utf8_validate_from :: "utf_endianness_t \<Rightarrow> bytes \<Rightarrow> nat \<Rightarrow> bool option" where
  "utf8_validate_from host data pos0 =
     (if pos0 < length data then
        do {
          fast \<leftarrow> ascii16 host data pos0;
          if fast then utf8_validate_from host data (pos0 + 16)
          else do {
            word \<leftarrow> mem_get data pos0;
            r \<leftarrow> skip_ascii data pos0 word;
            case r of
              None \<Rightarrow> Some True
            | Some (pos, word) \<Rightarrow>
                if word AND 0xe0 = 0xc0 then
                  (if pos + 2 > length data then Some False
                   else do {
                     b \<leftarrow> mem_get data (pos + 1);
                     if b AND 0xc0 \<noteq> 0x80 then Some False
                     else if cp2 word b < 0x80 \<or> 0x7ff < cp2 word b then Some False
                     else utf8_validate_from host data (pos + 2) })
                else if word AND 0xf0 = 0xe0 then
                  (if pos + 3 > length data then Some False
                   else do {
                     b \<leftarrow> mem_get data (pos + 1);
                     c \<leftarrow> mem_get data (pos + 2);
                     if b AND 0xc0 \<noteq> 0x80 then Some False
                     else if c AND 0xc0 \<noteq> 0x80 then Some False
                     else let cp = cp3 word b c in
                       if cp < 0x800 \<or> 0xffff < cp \<or> 0xd7ff < cp \<and> cp < 0xe000 then Some False
                       else utf8_validate_from host data (pos + 3) })
                else if word AND 0xf8 = 0xf0 then
                  (if pos + 4 > length data then Some False
                   else do {
                     b \<leftarrow> mem_get data (pos + 1);
                     c \<leftarrow> mem_get data (pos + 2);
                     d \<leftarrow> mem_get data (pos + 3);
                     if b AND 0xc0 \<noteq> 0x80 then Some False
                     else if c AND 0xc0 \<noteq> 0x80 then Some False
                     else if d AND 0xc0 \<noteq> 0x80 then Some False
                     else let cp = cp4 word b c d in
                       if cp \<le> 0xffff \<or> 0x10ffff < cp then Some False
                       else utf8_validate_from host data (pos + 4) })
                else Some False
          }
        }
      else Some True)"
  by pat_completeness auto
termination by (relation "measure (\<lambda>(host, data, pos). length data - pos)") (auto dest!: skip_ascii_le)

declare utf8_validate_from.simps [simp del]

definition utf8_validate :: "utf_endianness_t \<Rightarrow> bytes \<Rightarrow> bool option" where
  "utf8_validate host data = utf8_validate_from host data 0"

function utf16le_validate_from :: "utf_endianness_t \<Rightarrow> u16 list \<Rightarrow> nat \<Rightarrow> bool option" where
  "utf16le_validate_from host data pos =
     (if pos < length data then
        do {
          word \<leftarrow> mem_get data pos;
          let word = le16 host word;
          if word AND 0xf800 = 0xd800 then
            (if pos + 1 \<ge> length data then Some False
             else if word - 0xd800 > 0x3ff then Some False
             else do {
               word \<leftarrow> mem_get data (pos + 1);
               let word = le16 host word;
               if word - 0xdc00 > 0x3ff then Some False
               else utf16le_validate_from host data (pos + 2) })
          else utf16le_validate_from host data (pos + 1)
        }
      else Some True)"
  by pat_completeness auto
termination by (relation "measure (\<lambda>(host, data, pos). length data - pos)") auto

declare utf16le_validate_from.simps [simp del]

definition utf16le_validate :: "utf_endianness_t \<Rightarrow> u16 list \<Rightarrow> bool option" where
  "utf16le_validate host data = utf16le_validate_from host data 0"

fun utf32_validate :: "u32 list \<Rightarrow> bool" where
  "utf32_validate [] = True"
| "utf32_validate (word # data) =
     (if word > 0x10ffff \<or> word \<ge> 0xd800 \<and> word \<le> 0xdfff then False else utf32_validate data)"

subsection \<open>Conversion from UTF-8\<close>

function utf8_to_utf32 :: "utf_endianness_t \<Rightarrow> bytes \<Rightarrow> nat \<Rightarrow> u32 list \<Rightarrow> (nat \<times> u32 list) option" where
  "utf8_to_utf32 host data pos out =
     (if pos < length data then
        do {
          fast \<leftarrow> ascii16 host data pos;
          if fast then
            do { ws \<leftarrow> mem_slice data pos 16; utf8_to_utf32 host data (pos + 16) (out @ map ucast ws) }
          else do {
            a \<leftarrow> mem_get data pos;
            if a < 0x80 then utf8_to_utf32 host data (pos + 1) (out @ [ucast a])
            else if a AND 0xe0 = 0xc0 then
              (if pos + 1 \<ge> length data then Some (0, out)
               else do {
                 b \<leftarrow> mem_get data (pos + 1);
                 if b AND 0xc0 \<noteq> 0x80 then Some (0, out)
                 else if cp2 a b < 0x80 \<or> 0x7ff < cp2 a b then Some (0, out)
                 else utf8_to_utf32 host data (pos + 2) (out @ [cp2 a b]) })
            else if a AND 0xf0 = 0xe0 then
              (if pos + 2 \<ge> length data then Some (0, out)
               else do {
                 b \<leftarrow> mem_get data (pos + 1);
                 c \<leftarrow> mem_get data (pos + 2);
                 if b AND 0xc0 \<noteq> 0x80 then Some (0, out)
                 else if c AND 0xc0 \<noteq> 0x80 then Some (0, out)
                 else let cp = cp3 a b c in
                   if cp < 0x800 \<or> 0xffff < cp \<or> 0xd7ff < cp \<and> cp < 0xe000 then Some (0, out)
                   else utf8_to_utf32 host data (pos + 3) (out @ [cp]) })
            else if a AND 0xf8 = 0xf0 then
              (if pos + 3 \<ge> length data then Some (0, out)
               else do {
                 b \<leftarrow> mem_get data (pos + 1);
                 c \<leftarrow> mem_get data (pos + 2);
                 d \<leftarrow> mem_get data (pos + 3);
                 if b AND 0xc0 \<noteq> 0x80 then Some (0, out)
                 else if c AND 0xc0 \<noteq> 0x80 then Some (0, out)
                 else if d AND 0xc0 \<noteq> 0x80 then Some (0, out)
                 else let cp = cp4 a b c d in
                   if cp \<le> 0xffff \<or> 0x10ffff < cp then Some (0, out)
                   else utf8_to_utf32 host data (pos + 4) (out @ [cp]) })
            else Some (0, out)
          }
        }
      else Some (length out, out))"
  by pat_completeness auto
termination by (relation "measure (\<lambda>(host, data, pos, out). length data - pos)") auto

declare utf8_to_utf32.simps [simp del]

definition utf8_convert_to_utf32 :: "utf_endianness_t \<Rightarrow> bytes \<Rightarrow> (nat \<times> u32 list) option" where
  "utf8_convert_to_utf32 host data = utf8_to_utf32 host data 0 []"

function utf8_to_utf16 :: "utf_endianness_t \<Rightarrow> bytes \<Rightarrow> nat \<Rightarrow> u16 list \<Rightarrow> (nat \<times> u16 list) option" where
  "utf8_to_utf16 host data pos out =
     (if pos < length data then
        do {
          fast \<leftarrow> ascii8 host data pos;
          if fast then
            do { ws \<leftarrow> mem_slice data pos 8;
                 utf8_to_utf16 host data (pos + 8) (out @ map (\<lambda>w. le16 host (ucast w)) ws) }
          else do {
            a \<leftarrow> mem_get data pos;
            if a < 0x80 then utf8_to_utf16 host data (pos + 1) (out @ [le16 host (ucast a)])
            else if a AND 0xe0 = 0xc0 then
              (if pos + 1 \<ge> length data then Some (length out, out)
               else do {
                 b \<leftarrow> mem_get data (pos + 1);
                 utf8_to_utf16 host data (pos + 2) (out @ [le16 host (ucast (cp2 a b))]) })
            else if a AND 0xf0 = 0xe0 then
              (if pos + 2 \<ge> length data then Some (length out, out)
               else do {
                 b \<leftarrow> mem_get data (pos + 1);
                 c \<leftarrow> mem_get data (pos + 2);
                 utf8_to_utf16 host data (pos + 3) (out @ [le16 host (ucast (cp3 a b c))]) })
            else if a AND 0xf8 = 0xf0 then
              (if pos + 3 \<ge> length data then Some (length out, out)
               else do {
                 b \<leftarrow> mem_get data (pos + 1);
                 c \<leftarrow> mem_get data (pos + 2);
                 d \<leftarrow> mem_get data (pos + 3);
                 let cp = cp4 a b c d - 0x10000;
                 let high_surrogate = ucast (0xd800 + drop_bit 10 cp);
                 let low_surrogate = ucast (0xdc00 + (cp AND 0x3ff));
                 utf8_to_utf16 host data (pos + 4) (out @ [le16 host high_surrogate, le16 host low_surrogate]) })
            else Some (0, out)
          }
        }
      else Some (length out, out))"
  by pat_completeness auto
termination by (relation "measure (\<lambda>(host, data, pos, out). length data - pos)") auto

declare utf8_to_utf16.simps [simp del]

definition utf8_convert_to_utf16le :: "utf_endianness_t \<Rightarrow> bytes \<Rightarrow> (nat \<times> u16 list) option" where
  "utf8_convert_to_utf16le host data = utf8_to_utf16 host data 0 []"

function utf8_to_latin1 :: "utf_endianness_t \<Rightarrow> bytes \<Rightarrow> nat \<Rightarrow> bytes \<Rightarrow> (nat \<times> bytes) option" where
  "utf8_to_latin1 host data pos out =
     (if pos < length data then
        do {
          fast \<leftarrow> ascii16 host data pos;
          if fast then
            do { ws \<leftarrow> mem_slice data pos 16; utf8_to_latin1 host data (pos + 16) (out @ ws) }
          else do {
            a \<leftarrow> mem_get data pos;
            if a < 0x80 then utf8_to_latin1 host data (pos + 1) (out @ [a])
            else if a AND 0xe0 = 0xc0 then
              (if pos + 1 \<ge> length data then Some (0, out)
               else do {
                 b \<leftarrow> mem_get data (pos + 1);
                 if b AND 0xc0 \<noteq> 0x80 then Some (0, out)
                 else if cp2 a b < 0x80 \<or> 0xff < cp2 a b then Some (0, out)
                 else utf8_to_latin1 host data (pos + 2) (out @ [ucast (cp2 a b)]) })
            else Some (0, out)
          }
        }
      else Some (length out, out))"
  by pat_completeness auto
termination by (relation "measure (\<lambda>(host, data, pos, out). length data - pos)") auto

declare utf8_to_latin1.simps [simp del]

definition utf8_convert_to_latin1 :: "utf_endianness_t \<Rightarrow> bytes \<Rightarrow> (nat \<times> bytes) option" where
  "utf8_convert_to_latin1 host data = utf8_to_latin1 host data 0 []"

subsection \<open>Conversion from UTF-16\<close>

definition surrogate_pair :: "u16 \<Rightarrow> u16 \<Rightarrow> u32" where
  "surrogate_pair diff word = push_bit 10 (ucast diff) + (ucast word - 0xdc00) + 0x10000"

function utf16_to_utf32 :: "utf_endianness_t \<Rightarrow> u16 list \<Rightarrow> nat \<Rightarrow> u32 list \<Rightarrow> (nat \<times> u32 list) option" where
  "utf16_to_utf32 host data pos out =
     (if pos < length data then
        do {
          word \<leftarrow> mem_get data pos;
          let word = le16 host word;
          if word AND 0xf800 \<noteq> 0xd800 then utf16_to_utf32 host data (pos + 1) (out @ [ucast word])
          else
            let diff = word - 0xd800 in
            if diff > 0x3ff then Some (0, out)
            else if pos + 1 \<ge> length data then Some (0, out)
            else do {
              word \<leftarrow> mem_get data (pos + 1);
              let word = le16 host word;
              let val = surrogate_pair diff word;
              if word - 0xdc00 > 0x3ff then Some (0, out)
              else utf16_to_utf32 host data (pos + 2) (out @ [val])
            }
        }
      else Some (length out, out))"
  by pat_completeness auto
termination by (relation "measure (\<lambda>(host, data, pos, out). length data - pos)") auto

declare utf16_to_utf32.simps [simp del]

definition utf16le_convert_to_utf32 :: "utf_endianness_t \<Rightarrow> u16 list \<Rightarrow> (nat \<times> u32 list) option" where
  "utf16le_convert_to_utf32 host data = utf16_to_utf32 host data 0 []"

text \<open>The test for four ASCII units ahead; on a big-endian host the word is rotated by a byte.\<close>

definition ascii4 :: "utf_endianness_t \<Rightarrow> u16 list \<Rightarrow> nat \<Rightarrow> bool option" where
  "ascii4 host data pos =
     (if pos + 4 \<le> length data then
        do { v \<leftarrow> memcpy64 host data pos 4;
             let v = (if utf_is_be host then drop_bit 8 v OR push_bit 56 v else v);
             Some (v AND 0xff80ff80ff80ff80 = 0) }
      else Some False)"

function utf16_to_utf8 :: "utf_endianness_t \<Rightarrow> u16 list \<Rightarrow> nat \<Rightarrow> bytes \<Rightarrow> (nat \<times> bytes) option" where
  "utf16_to_utf8 host data pos out =
     (if pos < length data then
        do {
          fast \<leftarrow> ascii4 host data pos;
          if fast then
            do { ws \<leftarrow> mem_slice data pos 4;
                 utf16_to_utf8 host data (pos + 4) (out @ map (\<lambda>w. ucast (le16 host w)) ws) }
          else do {
            word \<leftarrow> mem_get data pos;
            let word = le16 host word;
            if word AND 0xff80 = 0 then utf16_to_utf8 host data (pos + 1) (out @ [ucast word])
            else if word AND 0xf800 = 0 then
              utf16_to_utf8 host data (pos + 1)
                (out @ [ucast (drop_bit 6 word OR 0xc0), ucast (word AND 0x3f OR 0x80)])
            else if word AND 0xf800 \<noteq> 0xd800 then
              utf16_to_utf8 host data (pos + 1)
                (out @ [ucast (drop_bit 12 word OR 0xe0), ucast (drop_bit 6 word AND 0x3f OR 0x80),
                        ucast (word AND 0x3f OR 0x80)])
            else
              let diff = word - 0xd800 in
              if pos + 1 \<ge> length data then Some (0, out)
              else do {
                word \<leftarrow> mem_get data (pos + 1);
                let word = le16 host word;
                let val = surrogate_pair diff word;
                utf16_to_utf8 host data (pos + 2)
                  (out @ [ucast (drop_bit 18 val OR 0xf0), ucast (drop_bit 12 val AND 0x3f OR 0x80),
                          ucast (drop_bit 6 val AND 0x3f OR 0x80), ucast (val AND 0x3f OR 0x80)])
              }
          }
        }
      else Some (length out, out))"
  by pat_completeness auto
termination by (relation "measure (\<lambda>(host, data, pos, out). length data - pos)") auto

declare utf16_to_utf8.simps [simp del]

definition utf16le_convert_to_utf8 :: "utf_endianness_t \<Rightarrow> u16 list \<Rightarrow> (nat \<times> bytes) option" where
  "utf16le_convert_to_utf8 host data = utf16_to_utf8 host data 0 []"

fun utf16_to_latin1 :: "utf_endianness_t \<Rightarrow> u16 list \<Rightarrow> u16 \<Rightarrow> bytes \<Rightarrow> nat \<times> bytes" where
  "utf16_to_latin1 host [] overflow out = (if overflow AND 0xff00 \<noteq> 0 then 0 else length out, out)"
| "utf16_to_latin1 host (w # data) overflow out =
     (let word = le16 host w in
      utf16_to_latin1 host data (overflow OR word) (out @ [ucast (word AND 0xff)]))"

definition utf16le_convert_to_latin1 :: "utf_endianness_t \<Rightarrow> u16 list \<Rightarrow> nat \<times> bytes" where
  "utf16le_convert_to_latin1 host data = utf16_to_latin1 host data 0 []"

subsection \<open>Conversion from UTF-32\<close>

definition ascii2 :: "utf_endianness_t \<Rightarrow> u32 list \<Rightarrow> nat \<Rightarrow> bool option" where
  "ascii2 host data pos =
     (if pos + 2 \<le> length data then
        do { v \<leftarrow> memcpy64 host data pos 2; Some (v AND 0xffffff80ffffff80 = 0) }
      else Some False)"

function utf32_to_utf8 :: "utf_endianness_t \<Rightarrow> u32 list \<Rightarrow> nat \<Rightarrow> bytes \<Rightarrow> (nat \<times> bytes) option" where
  "utf32_to_utf8 host data pos out =
     (if pos < length data then
        do {
          fast \<leftarrow> ascii2 host data pos;
          if fast then
            do { ws \<leftarrow> mem_slice data pos 2; utf32_to_utf8 host data (pos + 2) (out @ map ucast ws) }
          else do {
            word \<leftarrow> mem_get data pos;
            if word AND 0xffffff80 = 0 then utf32_to_utf8 host data (pos + 1) (out @ [ucast word])
            else if word AND 0xfffff800 = 0 then
              utf32_to_utf8 host data (pos + 1)
                (out @ [ucast (drop_bit 6 word OR 0xc0), ucast (word AND 0x3f OR 0x80)])
            else if word AND 0xffff0000 = 0 then
              (if word \<ge> 0xd800 \<and> word \<le> 0xdfff then Some (0, out)
               else utf32_to_utf8 host data (pos + 1)
                 (out @ [ucast (drop_bit 12 word OR 0xe0), ucast (drop_bit 6 word AND 0x3f OR 0x80),
                         ucast (word AND 0x3f OR 0x80)]))
            else if word > 0x10ffff then Some (0, out)
            else
              utf32_to_utf8 host data (pos + 1)
                (out @ [ucast (drop_bit 18 word OR 0xf0), ucast (drop_bit 12 word AND 0x3f OR 0x80),
                        ucast (drop_bit 6 word AND 0x3f OR 0x80), ucast (word AND 0x3f OR 0x80)])
          }
        }
      else Some (length out, out))"
  by pat_completeness auto
termination by (relation "measure (\<lambda>(host, data, pos, out). length data - pos)") auto

declare utf32_to_utf8.simps [simp del]

definition utf32_convert_to_utf8 :: "utf_endianness_t \<Rightarrow> u32 list \<Rightarrow> (nat \<times> bytes) option" where
  "utf32_convert_to_utf8 host data = utf32_to_utf8 host data 0 []"

fun utf32_to_utf16 :: "utf_endianness_t \<Rightarrow> u32 list \<Rightarrow> u16 list \<Rightarrow> nat \<times> u16 list" where
  "utf32_to_utf16 host [] out = (length out, out)"
| "utf32_to_utf16 host (word # data) out =
     (if word AND 0xffff0000 = 0 then
        (if word \<ge> 0xd800 \<and> word \<le> 0xdfff then (0, out)
         else utf32_to_utf16 host data (out @ [le16 host (ucast word)]))
      else if word > 0x10ffff then (0, out)
      else
        let word = word - 0x10000;
            high_surrogate = ucast (0xd800 + drop_bit 10 word);
            low_surrogate = ucast (0xdc00 + (word AND 0x3ff))
        in utf32_to_utf16 host data (out @ [le16 host high_surrogate, le16 host low_surrogate]))"

definition utf32_convert_to_utf16le :: "utf_endianness_t \<Rightarrow> u32 list \<Rightarrow> nat \<times> u16 list" where
  "utf32_convert_to_utf16le host data = utf32_to_utf16 host data []"

fun utf32_to_latin1 :: "u32 list \<Rightarrow> u32 \<Rightarrow> bytes \<Rightarrow> nat \<times> bytes" where
  "utf32_to_latin1 [] overflow out = (if overflow AND 0xffffff00 \<noteq> 0 then 0 else length out, out)"
| "utf32_to_latin1 (word # data) overflow out =
     utf32_to_latin1 data (overflow OR word) (out @ [ucast (word AND 0xff)])"

definition utf32_convert_to_latin1 :: "u32 list \<Rightarrow> nat \<times> bytes" where
  "utf32_convert_to_latin1 data = utf32_to_latin1 data 0 []"

subsection \<open>Conversion from Latin-1\<close>

function latin1_to_utf8 :: "utf_endianness_t \<Rightarrow> bytes \<Rightarrow> nat \<Rightarrow> bytes \<Rightarrow> (nat \<times> bytes) option" where
  "latin1_to_utf8 host data pos out =
     (if pos < length data then
        do {
          fast \<leftarrow> ascii16 host data pos;
          if fast then
            do { ws \<leftarrow> mem_slice data pos 16; latin1_to_utf8 host data (pos + 16) (out @ ws) }
          else do {
            byte \<leftarrow> mem_get data pos;
            if byte AND 0x80 = 0 then latin1_to_utf8 host data (pos + 1) (out @ [byte])
            else latin1_to_utf8 host data (pos + 1) (out @ [drop_bit 6 byte OR 0xc0, byte AND 0x3f OR 0x80])
          }
        }
      else Some (length out, out))"
  by pat_completeness auto
termination by (relation "measure (\<lambda>(host, data, pos, out). length data - pos)") auto

declare latin1_to_utf8.simps [simp del]

definition latin1_convert_to_utf8 :: "utf_endianness_t \<Rightarrow> bytes \<Rightarrow> (nat \<times> bytes) option" where
  "latin1_convert_to_utf8 host data = latin1_to_utf8 host data 0 []"

fun latin1_to_utf16 :: "utf_endianness_t \<Rightarrow> bytes \<Rightarrow> u16 list \<Rightarrow> nat \<times> u16 list" where
  "latin1_to_utf16 host [] out = (length out, out)"
| "latin1_to_utf16 host (b # data) out = latin1_to_utf16 host data (out @ [le16 host (ucast b)])"

definition latin1_convert_to_utf16le :: "utf_endianness_t \<Rightarrow> bytes \<Rightarrow> nat \<times> u16 list" where
  "latin1_convert_to_utf16le host data = latin1_to_utf16 host data []"

fun latin1_to_utf32 :: "bytes \<Rightarrow> u32 list \<Rightarrow> nat \<times> u32 list" where
  "latin1_to_utf32 [] out = (length out, out)"
| "latin1_to_utf32 (b # data) out = latin1_to_utf32 data (out @ [ucast b])"

definition latin1_convert_to_utf32 :: "bytes \<Rightarrow> nat \<times> u32 list" where
  "latin1_convert_to_utf32 data = latin1_to_utf32 data []"

subsection \<open>Lengths\<close>

text \<open>A byte above \<open>-65\<close> as an \<open>int8_t\<close> begins a character.\<close>

fun utf32_length_from_utf8 :: "bytes \<Rightarrow> nat" where
  "utf32_length_from_utf8 [] = 0"
| "utf32_length_from_utf8 (b # data) = (if sint b > -65 then 1 else 0) + utf32_length_from_utf8 data"

fun latin1_length_from_utf8 :: "bytes \<Rightarrow> nat" where
  "latin1_length_from_utf8 [] = 0"
| "latin1_length_from_utf8 (b # data) = (if sint b > -65 then 1 else 0) + latin1_length_from_utf8 data"

fun utf16_length_from_utf8 :: "bytes \<Rightarrow> nat" where
  "utf16_length_from_utf8 [] = 0"
| "utf16_length_from_utf8 (b # data) =
     (if sint b > -65 then 1 else 0) + (if b \<ge> 240 then 1 else 0) + utf16_length_from_utf8 data"

fun utf8_length_from_utf16le :: "utf_endianness_t \<Rightarrow> u16 list \<Rightarrow> nat" where
  "utf8_length_from_utf16le host [] = 0"
| "utf8_length_from_utf16le host (w # data) =
     (let word = le16 host w in
      (if word \<le> 0x7f then 1
       else if word \<le> 0x7ff then 2
       else if word \<le> 0xd7ff \<or> word \<ge> 0xe000 then 3
       else 2)) + utf8_length_from_utf16le host data"

fun utf32_length_from_utf16le :: "utf_endianness_t \<Rightarrow> u16 list \<Rightarrow> nat" where
  "utf32_length_from_utf16le host [] = 0"
| "utf32_length_from_utf16le host (w # data) =
     (if le16 host w AND 0xfc00 \<noteq> 0xdc00 then 1 else 0) + utf32_length_from_utf16le host data"

definition latin1_length_from_utf16le :: "u16 list \<Rightarrow> nat" where
  "latin1_length_from_utf16le data = length data"

fun utf8_length_from_utf32 :: "u32 list \<Rightarrow> nat" where
  "utf8_length_from_utf32 [] = 0"
| "utf8_length_from_utf32 (w # data) =
     1 + (if w > 0x7f then 1 else 0) + (if w > 0x7ff then 1 else 0) + (if w > 0xffff then 1 else 0) +
     utf8_length_from_utf32 data"

fun utf16_length_from_utf32 :: "u32 list \<Rightarrow> nat" where
  "utf16_length_from_utf32 [] = 0"
| "utf16_length_from_utf32 (w # data) = 1 + (if w > 0xffff then 1 else 0) + utf16_length_from_utf32 data"

definition latin1_length_from_utf32 :: "u32 list \<Rightarrow> nat" where
  "latin1_length_from_utf32 data = length data"

fun utf8_length_loop :: "bytes \<Rightarrow> nat \<Rightarrow> nat" where
  "utf8_length_loop [] counter = counter"
| "utf8_length_loop (b # data) counter = utf8_length_loop data (counter + unat (drop_bit 7 b))"

definition utf8_length_from_latin1 :: "bytes \<Rightarrow> nat" where
  "utf8_length_from_latin1 data = utf8_length_loop data (length data)"

definition utf16_length_from_latin1 :: "bytes \<Rightarrow> nat" where
  "utf16_length_from_latin1 data = length data"

definition utf32_length_from_latin1 :: "bytes \<Rightarrow> nat" where
  "utf32_length_from_latin1 data = length data"

end
