(* ===== verification/Libutf_Spec.thy ===== *)
theory Libutf_Spec
  imports Libutf
begin

text \<open>
  What \<open>libutf\<close> promises: the Unicode encoding forms as arithmetic on scalar values, the decoder of
  one UTF-8 sequence, and the correctness of validation, conversion and length functions.
\<close>

section \<open>Bits and numbers\<close>

lemma unat_and_low: "unat (w AND mask n) = unat w mod 2 ^ n" for w :: "'a::len word"
  by (simp only: take_bit_eq_mask [symmetric] unsigned_take_bit_eq) (simp add: take_bit_eq_mod)

lemma unat_and_high: "unat (w AND NOT (mask k)) = unat w div 2 ^ k * 2 ^ k" for w :: "'a::len word"
proof -
  have "w AND NOT (mask k) = push_bit k (drop_bit k w)"
    by (rule bit_eqI) (auto simp: bit_simps)
  moreover have "unat w div 2 ^ k * 2 ^ k < 2 ^ LENGTH('a)"
    by (rule le_less_trans [OF _ unsigned_less [of w]]) simp
  ultimately show ?thesis
    by (simp only: unsigned_push_bit_eq unsigned_drop_bit_eq)
       (simp add: push_bit_eq_mult drop_bit_eq_div take_bit_nat_eq_self)
qed

lemma low_masks: "(0x3f :: 'a::len word) = mask 6" "(0x1f :: 'a word) = mask 5" "(0x0f :: 'a word) = mask 4" "(0x07 :: 'a word) = mask 3"
  "(0x3ff :: 'a word) = mask 10" "(0xff::'a word) = mask 8"
  by (simp_all add: mask_eq_exp_minus_1)

lemma high_masks: "(0xe0 :: u8) = NOT (mask 5)" "(0xf0 :: u8) = NOT (mask 4)" "(0xf8 :: u8) = NOT (mask 3)" "(0xc0 :: u8) = NOT (mask 6)"
 "(0x80 :: u8) = NOT (mask 7)"
 "(0xf800 :: u16) = NOT (mask 11)" "(0xff80 :: u16) = NOT (mask 7)" "(0xff00 :: u16) = NOT (mask 8)" "(0xfc00 :: u16) = NOT (mask 10)"
 "(0xffffff80 :: u32) = NOT (mask 7)" "(0xfffff800 :: u32) = NOT (mask 11)" "(0xffff0000 :: u32) = NOT (mask 16)" "(0xffffff00 :: u32) = NOT (mask 8)"
  by (simp_all add: mask_eq_exp_minus_1)

lemma or_plus_nat: "b < 2 ^ k \<Longrightarrow> push_bit k a OR b = a * 2 ^ k + (b::nat)"
proof -
  assume "b < 2 ^ k"
  then have b: "take_bit k b = b" by (simp add: take_bit_nat_eq_self)
  have "push_bit k a AND b = 0"
    by (subst b [symmetric], rule bit_eqI) (auto simp: bit_simps)
  then show ?thesis by (simp add: disjunctive_add_eq_or [symmetric] push_bit_eq_mult)
qed

lemma unat_ucast: "unat (ucast w :: 'b::len word) = unat w mod 2 ^ LENGTH('b)" for w :: "'a::len word"
  by (simp add: unsigned_ucast_eq take_bit_eq_mod)

lemma unat_push: "unat (push_bit k w) = unat w * 2 ^ k mod 2 ^ LENGTH('a)" for w :: "'a::len word"
  by (simp only: unsigned_push_bit_eq) (simp add: take_bit_eq_mod push_bit_eq_mult)

lemma tests:
  "a AND 0xe0 = 0xc0 \<longleftrightarrow> 0xc0 \<le> unat a \<and> unat a < 0xe0"
  "a AND 0xf0 = 0xe0 \<longleftrightarrow> 0xe0 \<le> unat a \<and> unat a < 0xf0"
  "a AND 0xf8 = 0xf0 \<longleftrightarrow> 0xf0 \<le> unat a \<and> unat a < 0xf8"
  "a AND 0xc0 = 0x80 \<longleftrightarrow> 0x80 \<le> unat a \<and> unat a < 0xc0"
  "a AND 0x80 = 0 \<longleftrightarrow> unat a < 0x80"
  "a < 0x80 \<longleftrightarrow> unat a < 0x80" for a :: u8
proof -
  have *: "x AND y = z \<longleftrightarrow> unat (x AND y) = unat z" for x y z :: u8 by (simp add: word_unat_eq_iff)
  have "unat a < 256" using unsigned_less [of a, where ?'a = nat] by simp
  then show 
  "a AND 0xe0 = 0xc0 \<longleftrightarrow> 0xc0 \<le> unat a \<and> unat a < 0xe0"
  "a AND 0xf0 = 0xe0 \<longleftrightarrow> 0xe0 \<le> unat a \<and> unat a < 0xf0"
  "a AND 0xf8 = 0xf0 \<longleftrightarrow> 0xf0 \<le> unat a \<and> unat a < 0xf8"
  "a AND 0xc0 = 0x80 \<longleftrightarrow> 0x80 \<le> unat a \<and> unat a < 0xc0"
  "a AND 0x80 = 0 \<longleftrightarrow> unat a < 0x80"
  "a < 0x80 \<longleftrightarrow> unat a < 0x80" 
  unfolding * unfolding high_masks(1-5) unat_and_high unfolding high_masks(1-5)[symmetric]
  by (simp_all add: word_less_nat_alt, linarith+)
qed

lemma or_nat:
  "y < 64 \<Longrightarrow> x * 64 OR y = x * 64 + (y::nat)" "y < 4096 \<Longrightarrow> x * 4096 OR y = x * 4096 + y"
  "y < 262144 \<Longrightarrow> x * 262144 OR y = x * 262144 + y"
  using or_plus_nat [of y 6 x] or_plus_nat [of y 12 x] or_plus_nat [of y 18 x]
  by (simp_all add: push_bit_eq_mult)

lemma mod_small_mult: "x < 64 \<Longrightarrow> x * 64 mod 4294967296 = x * (64::nat)" 
  "x < 64 \<Longrightarrow> x * 4096 mod 4294967296 = x * (4096::nat)" "x < 64 \<Longrightarrow> x * 262144 mod 4294967296 = x * (262144::nat)"
  "x < 64 \<Longrightarrow> x mod 4294967296 = (x::nat)"
  by (simp_all)

lemma cp_nat:
  "unat (cp2 a b) = unat a mod 32 * 64 + unat b mod 64"
  "unat (cp3 a b c) = unat a mod 16 * 4096 + unat b mod 64 * 64 + unat c mod 64"
  "unat (cp4 a b c d) = unat a mod 8 * 262144 + unat b mod 64 * 4096 + unat c mod 64 * 64 + unat d mod 64"
proof -
  have m: "x mod 32 < 64" "x mod 16 < 64" "x mod 8 < 64" "x mod 64 < 64" for x :: nat
    by (auto intro: less_trans [OF mod_less_divisor])
  have s1: "x mod 64 * 64 + y mod 64 < 4096" for x y :: nat
    using m(4) [of x] m(4) [of y] by linarith
  have s2: "x mod 64 * 4096 + (y mod 64 * 64 + z mod 64) < 262144" for x y z :: nat
    using m(4) [of x] m(4) [of y] m(4) [of z] by linarith
  show 
  "unat (cp2 a b) = unat a mod 32 * 64 + unat b mod 64"
  "unat (cp3 a b c) = unat a mod 16 * 4096 + unat b mod 64 * 64 + unat c mod 64"
  "unat (cp4 a b c d) = unat a mod 8 * 262144 + unat b mod 64 * 4096 + unat c mod 64 * 64 + unat d mod 64"
  by (simp_all only: cp2_def cp3_def cp4_def low_masks unsigned_or_eq unat_push unat_ucast unat_and_low)
     (simp_all add: mod_small_mult m or_nat s1 s2)
qed

section \<open>Encoding forms\<close>

definition scalar :: "u32 \<Rightarrow> bool" where
  "scalar c \<longleftrightarrow> unat c < 0xd800 \<or> 0xdfff < unat c \<and> unat c < 0x110000"

definition enc8 :: "u32 \<Rightarrow> bytes" where
  "enc8 c = (let n = unat c in
     if n < 0x80 then [of_nat n]
     else if n < 0x800 then [of_nat (0xc0 + n div 64), of_nat (0x80 + n mod 64)]
     else if n < 0x10000 then
       [of_nat (0xe0 + n div 4096), of_nat (0x80 + n div 64 mod 64), of_nat (0x80 + n mod 64)]
     else [of_nat (0xf0 + n div 262144), of_nat (0x80 + n div 4096 mod 64), of_nat (0x80 + n div 64 mod 64),
           of_nat (0x80 + n mod 64)])"

definition cont :: "u8 \<Rightarrow> bool" where
  "cont b \<longleftrightarrow> 0x80 \<le> unat b \<and> unat b < 0xc0"

fun dec8 :: "bytes \<Rightarrow> (u32 \<times> nat) option" where
  "dec8 (a # s) =
     (if unat a < 0x80 then Some (ucast a, 1)
      else if unat a < 0xc0 then None
      else if unat a < 0xe0 then
        (case s of b # _ \<Rightarrow>
           if cont b \<and> 0x80 \<le> unat (cp2 a b) then Some (cp2 a b, 2) else None
         | _ \<Rightarrow> None)
      else if unat a < 0xf0 then
        (case s of b # c # _ \<Rightarrow>
           if cont b \<and> cont c \<and> 0x800 \<le> unat (cp3 a b c) \<and> scalar (cp3 a b c) then Some (cp3 a b c, 3) else None
         | _ \<Rightarrow> None)
      else if unat a < 0xf8 then
        (case s of b # c # d # _ \<Rightarrow>
           if cont b \<and> cont c \<and> cont d \<and> 0x10000 \<le> unat (cp4 a b c d) \<and> scalar (cp4 a b c d)
           then Some (cp4 a b c d, 4) else None
         | _ \<Rightarrow> None)
      else None)"
| "dec8 [] = None"

lemma u8_bound: "unat (b :: u8) < 256"
  using unsigned_less [of b, where ?'a = nat] by simp

lemma u8_eqI: "unat a = n \<Longrightarrow> of_nat n = (a :: u8)"
  by (metis of_nat_unat ucast_id)

lemma digits2:
  assumes "x < 32" "y < (64::nat)"
  shows "(x * 64 + y) div 64 = x" "(x * 64 + y) mod 64 = y"
  using assms by simp_all

lemma digit64: "v < 64 \<Longrightarrow> (u * 64 + v) div 64 = u" "v < 64 \<Longrightarrow> (u * 64 + v) mod 64 = (v::nat)"
  by simp_all

lemma digits3:
  assumes "x < 16" "y < 64" "z < (64::nat)"
  shows "(x * 4096 + y * 64 + z) div 4096 = x" "(x * 4096 + y * 64 + z) div 64 mod 64 = y"
   "(x * 4096 + y * 64 + z) mod 64 = z"
proof -
  let ?n = "(x * 64 + y) * 64 + z"
  have e: "x * 4096 + y * 64 + z = ?n" by simp
  have q: "?n div 64 = x * 64 + y" "?n mod 64 = z" "(x * 64 + y) div 64 = x" "(x * 64 + y) mod 64 = y"
    using assms by (simp_all only: digit64)
  have "?n div 4096 = ?n div 64 div 64"
    by (simp add: div_mult2_eq [symmetric])
  then show "(x * 4096 + y * 64 + z) div 4096 = x" unfolding e by (simp only: q)
  show "(x * 4096 + y * 64 + z) div 64 mod 64 = y" unfolding e by (simp only: q)
  show "(x * 4096 + y * 64 + z) mod 64 = z" unfolding e by (simp only: q)
qed

lemma digits4:
  assumes "x < 8" "y < 64" "z < 64" "w < (64::nat)"
  shows "(x * 262144 + y * 4096 + z * 64 + w) div 262144 = x"
    "(x * 262144 + y * 4096 + z * 64 + w) div 4096 mod 64 = y"
    "(x * 262144 + y * 4096 + z * 64 + w) div 64 mod 64 = z"
    "(x * 262144 + y * 4096 + z * 64 + w) mod 64 = w"
proof -
  let ?m = "(x * 64 + y) * 64 + z"
  let ?n = "?m * 64 + w"
  have e: "x * 262144 + y * 4096 + z * 64 + w = ?n" by simp
  have q: "?n div 64 = ?m" "?n mod 64 = w" "?m div 64 = x * 64 + y" "?m mod 64 = z"
    "(x * 64 + y) div 64 = x" "(x * 64 + y) mod 64 = y" using assms by (simp_all only: digit64)
  have d: "?n div 4096 = ?n div 64 div 64" "?n div 262144 = ?n div 64 div 64 div 64"
    by (simp_all add: div_mult2_eq [symmetric])
  show "(x * 262144 + y * 4096 + z * 64 + w) div 262144 = x" unfolding e d by (simp only: q)
  show "(x * 262144 + y * 4096 + z * 64 + w) div 4096 mod 64 = y" unfolding e d by (simp only: q)
  show "(x * 262144 + y * 4096 + z * 64 + w) div 64 mod 64 = z" unfolding e by (simp only: q)
  show "(x * 262144 + y * 4096 + z * 64 + w) mod 64 = w" unfolding e by (simp only: q)
qed

lemma mod_from: "k * m \<le> a \<Longrightarrow> a < k * m + m \<Longrightarrow> k * m + a mod m = (a::nat)"
proof -
  assume a: "k * m \<le> a" "a < k * m + m"
  then have "a mod m = (a - k * m + k * m) mod m" by simp
  also have "\<dots> = (a - k * m) mod m" by (rule mod_mult_self1)
  also have "\<dots> = a - k * m" using a by (intro mod_less) linarith
  finally show ?thesis using a by simp
qed

lemma lead_digits:
  "0xc0 \<le> a \<Longrightarrow> a < 0xe0 \<Longrightarrow> 0xc0 + a mod 32 = (a::nat)"
  "0xe0 \<le> a \<Longrightarrow> a < 0xf0 \<Longrightarrow> 0xe0 + a mod 16 = a"
  "0xf0 \<le> a \<Longrightarrow> a < 0xf8 \<Longrightarrow> 0xf0 + a mod 8 = a"
  "0x80 \<le> a \<Longrightarrow> a < 0xc0 \<Longrightarrow> 0x80 + a mod 64 = a"
  using mod_from [of 6 32 a] mod_from [of 14 16 a] mod_from [of 30 8 a] mod_from [of 2 64 a] by simp_all

text \<open>The encoding from the digits of the number.\<close>

lemma enc8_digits:
  "unat c < 0x80 \<Longrightarrow> unat c = unat a \<Longrightarrow> enc8 c = [a]"
  "0x80 \<le> unat c \<Longrightarrow> unat c < 0x800 \<Longrightarrow> 0xc0 + unat c div 64 = unat a1 \<Longrightarrow> 0x80 + unat c mod 64 = unat a2 \<Longrightarrow>
     enc8 c = [a1, a2]"
  "0x800 \<le> unat c \<Longrightarrow> unat c < 0x10000 \<Longrightarrow> 0xe0 + unat c div 4096 = unat a1 \<Longrightarrow>
     0x80 + unat c div 64 mod 64 = unat a2 \<Longrightarrow> 0x80 + unat c mod 64 = unat a3 \<Longrightarrow> enc8 c = [a1, a2, a3]"
  "0x10000 \<le> unat c \<Longrightarrow> 0xf0 + unat c div 262144 = unat a1 \<Longrightarrow> 0x80 + unat c div 4096 mod 64 = unat a2 \<Longrightarrow>
     0x80 + unat c div 64 mod 64 = unat a3 \<Longrightarrow> 0x80 + unat c mod 64 = unat a4 \<Longrightarrow> enc8 c = [a1, a2, a3, a4]"
  by (simp_all only: enc8_def Let_def of_nat_unat ucast_id) simp_all

lemma enc8_cp2:
  assumes "0xc0 \<le> unat a" "unat a < 0xe0" "cont b" "0x80 \<le> unat (cp2 a b)"
  shows "enc8 (cp2 a b) = [a, b]" "scalar (cp2 a b)"
proof -
  have m: "unat a mod 32 < 32" "unat b mod 64 < 64" by simp_all
  then have lt: "unat (cp2 a b) < 0x800" unfolding cp_nat by linarith
  have "0xc0 + unat (cp2 a b) div 64 = unat a" "0x80 + unat (cp2 a b) mod 64 = unat b"
    unfolding cp_nat digits2 [OF m] using assms by (auto simp: cont_def lead_digits)
  with assms(4) lt show "enc8 (cp2 a b) = [a, b]" by (rule enc8_digits)
  show "scalar (cp2 a b)" using lt by (simp add: scalar_def)
qed

lemma enc8_cp3:
  assumes "0xe0 \<le> unat a" "unat a < 0xf0" "cont b" "cont c" "0x800 \<le> unat (cp3 a b c)"
  shows "enc8 (cp3 a b c) = [a, b, c]"
proof -
  have m: "unat a mod 16 < 16" "unat b mod 64 < 64" "unat c mod 64 < 64" by simp_all
  then have lt: "unat (cp3 a b c) < 0x10000" unfolding cp_nat by linarith
  have "0xe0 + unat (cp3 a b c) div 4096 = unat a" "0x80 + unat (cp3 a b c) div 64 mod 64 = unat b"
    "0x80 + unat (cp3 a b c) mod 64 = unat c"
    unfolding cp_nat digits3 [OF m] using assms by (auto simp: cont_def lead_digits)
  with assms(5) lt show ?thesis by (rule enc8_digits)
qed

lemma enc8_cp4:
  assumes "0xf0 \<le> unat a" "unat a < 0xf8" "cont b" "cont c" "cont d" "0x10000 \<le> unat (cp4 a b c d)"
  shows "enc8 (cp4 a b c d) = [a, b, c, d]"
proof -
  have m: "unat a mod 8 < 8" "unat b mod 64 < 64" "unat c mod 64 < 64" "unat d mod 64 < 64" by simp_all
  have "0xf0 + unat (cp4 a b c d) div 262144 = unat a" "0x80 + unat (cp4 a b c d) div 4096 mod 64 = unat b"
    "0x80 + unat (cp4 a b c d) div 64 mod 64 = unat c" "0x80 + unat (cp4 a b c d) mod 64 = unat d"
    unfolding cp_nat digits4 [OF m] using assms by (auto simp: cont_def lead_digits)
  with assms(6) show ?thesis by (rule enc8_digits)
qed

lemma dec8_sound: "dec8 s = Some (c, k) \<Longrightarrow> scalar c \<and> take k s = enc8 c \<and> k = length (enc8 c)"
proof (cases s)
  case (Cons a t)
  assume d: "dec8 s = Some (c, k)"
  show ?thesis
  proof (cases "unat a < 0x80")
    case True
    then have "c = ucast a" "k = 1" using d Cons by auto
    moreover have "unat (ucast a :: u32) = unat a" by (rule unat_ucast_up) simp
    ultimately show ?thesis using True Cons by (simp add: scalar_def enc8_def)
  next
    case False
    with d Cons enc8_cp2 enc8_cp3 enc8_cp4 show ?thesis
      by (auto split: if_splits list.splits)
  qed
qed simp

lemma mod_lead:
  "(0xc0 + k) mod 32 = k mod 32" "(0xe0 + k) mod 16 = k mod 16" "(0xf0 + k) mod 8 = k mod 8"
  "(0x80 + k) mod 64 = k mod (64::nat)"
  using mod_mult_self3 [of 6 32 k] mod_mult_self3 [of 14 16 k] mod_mult_self3 [of 30 8 k] mod_mult_self3 [of 2 64 k]
  by simp_all

lemma unat_u8: "n < 256 \<Longrightarrow> unat (of_nat n :: u8) = n"
  by (rule unat_of_nat_small) simp

lemma join2: "n div 64 * 64 + n mod 64 = (n::nat)"
  by (rule div_mult_mod_eq)

lemma join3: "n div 4096 * 4096 + n div 64 mod 64 * 64 + n mod 64 = (n::nat)"
proof -
  have "n div 4096 = n div 64 div 64" by (simp add: div_mult2_eq [symmetric])
  then have "n div 4096 * 64 + n div 64 mod 64 = n div 64" using join2 [of "n div 64"] by simp
  then show ?thesis using join2 [of n] by linarith
qed

lemma join4: "n div 262144 * 262144 + n div 4096 mod 64 * 4096 + n div 64 mod 64 * 64 + n mod 64 = (n::nat)"
proof -
  have "n div 262144 = n div 4096 div 64" by (simp add: div_mult2_eq [symmetric])
  then have "n div 262144 * 64 + n div 4096 mod 64 = n div 4096" using join2 [of "n div 4096"] by simp
  then show ?thesis using join3 [of n] by linarith
qed

lemma cp_enc:
  fixes c :: u32
  defines "n \<equiv> unat c"
  shows "n < 0x800 \<Longrightarrow> cp2 (of_nat (0xc0 + n div 64)) (of_nat (0x80 + n mod 64)) = c"
    "n < 0x10000 \<Longrightarrow> cp3 (of_nat (0xe0 + n div 4096)) (of_nat (0x80 + n div 64 mod 64)) (of_nat (0x80 + n mod 64)) = c"
    "n < 0x110000 \<Longrightarrow> cp4 (of_nat (0xf0 + n div 262144)) (of_nat (0x80 + n div 4096 mod 64))
       (of_nat (0x80 + n div 64 mod 64)) (of_nat (0x80 + n mod 64)) = c"
proof -
  have t: "0x80 + k mod 64 < (256::nat)" for k using mod_less_divisor [of 64 k] by linarith
  { assume "n < 0x800"
    then have d: "n div 64 < 32" by (simp add: less_mult_imp_div_less)
    then have b: "0xc0 + n div 64 < 256" by linarith
    have "unat (cp2 (of_nat (0xc0 + n div 64)) (of_nat (0x80 + n mod 64))) = n"
      unfolding cp_nat unat_u8 [OF b] unat_u8 [OF t] mod_lead using d join2 [of n] by simp
    then show "cp2 (of_nat (0xc0 + n div 64)) (of_nat (0x80 + n mod 64)) = c"
      by (simp add: word_unat_eq_iff n_def) }
  { assume "n < 0x10000"
    then have d: "n div 4096 < 16" by (simp add: less_mult_imp_div_less)
    then have b: "0xe0 + n div 4096 < 256" by linarith
    have "unat (cp3 (of_nat (0xe0 + n div 4096)) (of_nat (0x80 + n div 64 mod 64)) (of_nat (0x80 + n mod 64))) = n"
      unfolding cp_nat unat_u8 [OF b] unat_u8 [OF t] mod_lead mod_mod_trivial using d join3 [of n]
      by (simp only: mod_less)
    then show "cp3 (of_nat (0xe0 + n div 4096)) (of_nat (0x80 + n div 64 mod 64)) (of_nat (0x80 + n mod 64)) = c"
      by (simp add: word_unat_eq_iff n_def) }
  { assume "n < 0x110000"
    then have d: "n div 262144 < 8" by (simp add: less_mult_imp_div_less)
    then have b: "0xf0 + n div 262144 < 256" by linarith
    have "unat (cp4 (of_nat (0xf0 + n div 262144)) (of_nat (0x80 + n div 4096 mod 64))
       (of_nat (0x80 + n div 64 mod 64)) (of_nat (0x80 + n mod 64))) = n"
      unfolding cp_nat unat_u8 [OF b] unat_u8 [OF t] mod_lead mod_mod_trivial using d join4 [of n]
      by (simp only: mod_less)
    then show "cp4 (of_nat (0xf0 + n div 262144)) (of_nat (0x80 + n div 4096 mod 64))
       (of_nat (0x80 + n div 64 mod 64)) (of_nat (0x80 + n mod 64)) = c"
      by (simp add: word_unat_eq_iff n_def) }
qed

lemma cont_tail: "cont (of_nat (0x80 + k mod 64))"
proof -
  have "k mod 64 < 64" by simp
  then have "0x80 + k mod 64 < 256" by linarith
  then show ?thesis unfolding cont_def by (subst (1 2) unat_u8) auto
qed

lemma dec8_complete:
  assumes "scalar c"
  shows "dec8 (enc8 c @ r) = Some (c, length (enc8 c))"
proof -
  let ?n = "unat c"
  have n: "?n < 0x110000" using assms by (auto simp: scalar_def)
  consider "?n < 0x80" | "0x80 \<le> ?n" "?n < 0x800" | "0x800 \<le> ?n" "?n < 0x10000" | "0x10000 \<le> ?n"
    by linarith
  then show ?thesis
  proof cases
    case 1
    then have "unat (of_nat ?n :: u8) = ?n" by (intro unat_u8) simp
    moreover have "ucast (of_nat ?n :: u8) = c"
      using 1 calculation by (simp add: word_unat_eq_iff unat_ucast)
    ultimately show ?thesis using 1 by (simp add: enc8_def)
  next
    case 2
    then have "?n div 64 < 32" by (simp add: less_mult_imp_div_less)
    moreover have "2 \<le> ?n div 64" using 2 by (simp add: div_le_mono [of 128 _ 64, simplified])
    ultimately have "unat (of_nat (0xc0 + ?n div 64) :: u8) = 0xc0 + ?n div 64" by (intro unat_u8) linarith
    with 2 cp_enc(1) [OF 2(2)] cont_tail [of ?n] \<open>?n div 64 < 32\<close> show ?thesis
      by (simp add: enc8_def Let_def)
  next
    case 3
    then have "?n div 4096 < 16" by (simp add: less_mult_imp_div_less)
    then have "unat (of_nat (0xe0 + ?n div 4096) :: u8) = 0xe0 + ?n div 4096" by (intro unat_u8) linarith
    with 3 cp_enc(2) [OF 3(2)] cont_tail [of ?n] cont_tail [of "?n div 64"] \<open>?n div 4096 < 16\<close> assms show ?thesis
      by (simp add: enc8_def Let_def)
  next
    case 4
    then have "?n div 262144 < 8" using n by (simp add: less_mult_imp_div_less)
    then have "unat (of_nat (0xf0 + ?n div 262144) :: u8) = 0xf0 + ?n div 262144" by (intro unat_u8) linarith
    with 4 cp_enc(3) [OF n] cont_tail [of ?n] cont_tail [of "?n div 64"] cont_tail [of "?n div 4096"]
      \<open>?n div 262144 < 8\<close> assms show ?thesis
      by (simp add: enc8_def Let_def)
  qed
qed
section \<open>The wide tests\<close>

lemma pack64_and:
  fixes xs ys :: "'a::len word list"
  assumes "LENGTH('a) \<le> 64"
  shows "length xs = length ys \<Longrightarrow> pack64 xs AND pack64 ys = pack64 (map2 (AND) xs ys)"
proof (induction xs ys rule: list_induct2)
  case (Cons x xs y ys)
  have "(ucast x OR push_bit LENGTH('a) p) AND (ucast y OR push_bit LENGTH('a) q) =
      ucast (x AND y) OR push_bit LENGTH('a) (p AND q)" for p q :: u64
    by (rule bit_eqI) (auto simp: bit_simps not_le dest: bit_imp_le_length)
  from this [of "pack64 xs" "pack64 ys"] show ?case by (simp add: Cons.IH [symmetric])
qed simp

lemma pack64_less:
  fixes ws :: "'a::len word list"
  shows "length ws * LENGTH('a) \<le> 64 \<Longrightarrow> unat (pack64 ws) < 2 ^ (length ws * LENGTH('a))"
proof (induction ws)
  case (Cons w ws)
  let ?L = "LENGTH('a)"
  have *: "?L + length ws * ?L \<le> 64" using Cons.prems by simp
  have p: "unat (pack64 ws) < 2 ^ (length ws * ?L)" using Cons by simp
  have w: "unat (ucast w :: u64) = unat w" using * by (intro unat_ucast_up) simp
  have wl: "unat w < 2 ^ ?L" by (rule unsigned_less)
  have "unat (pack64 ws) * 2 ^ ?L < 2 ^ (length ws * ?L) * 2 ^ ?L" using p by simp
  also have "\<dots> = 2 ^ (?L + length ws * ?L)" by (simp add: power_add)
  also have "\<dots> \<le> 2 ^ 64" using * by (rule power_increasing) simp
  finally have "unat (push_bit ?L (pack64 ws)) = unat (pack64 ws) * 2 ^ ?L"
    by (simp add: unat_push)
  then have "unat (pack64 (w # ws)) = unat (pack64 ws) * 2 ^ ?L + unat w"
    using or_plus_nat [OF wl, of "unat (pack64 ws)"] w
    by (simp add: unsigned_or_eq push_bit_eq_mult or.commute)
  also have "\<dots> < (unat (pack64 ws) + 1) * 2 ^ ?L" using wl by simp
  also have "\<dots> \<le> 2 ^ (length ws * ?L) * 2 ^ ?L" using p by (intro mult_right_mono) auto
  finally show ?case by (simp add: power_add mult.commute)
qed simp

lemma or_zero_iff: "x OR y = 0 \<longleftrightarrow> x = 0 \<and> y = (0 :: 'a::len word)"
  by (auto simp: bit_eq_iff bit_simps)

lemma pack64_zero:
  fixes ws :: "'a::len word list"
  shows "length ws * LENGTH('a) \<le> 64 \<Longrightarrow> pack64 ws = 0 \<longleftrightarrow> (\<forall>w \<in> set ws. w = 0)"
proof (induction ws)
  case (Cons w ws)
  let ?L = "LENGTH('a)"
  have *: "?L + length ws * ?L \<le> 64" using Cons.prems by simp
  have "unat (pack64 ws) < 2 ^ (length ws * ?L)" using * by (intro pack64_less) simp
  then have "unat (pack64 ws) * 2 ^ ?L < 2 ^ (length ws * ?L) * 2 ^ ?L" by simp
  also have "\<dots> = 2 ^ (?L + length ws * ?L)" by (simp add: power_add)
  also have "\<dots> \<le> 2 ^ 64" using * by (rule power_increasing) simp
  finally have "unat (push_bit ?L (pack64 ws)) = unat (pack64 ws) * 2 ^ ?L"
    by (simp add: unat_push)
  then have "push_bit ?L (pack64 ws) = 0 \<longleftrightarrow> pack64 ws = 0"
    by (metis mult_eq_0_iff power_not_zero unat_0 unat_eq_zero zero_neq_numeral)
  moreover have "(ucast w :: u64) = 0 \<longleftrightarrow> w = 0"
  proof -
    have "unat (ucast w :: u64) = unat w" using * by (intro unat_ucast_up) simp
    then show ?thesis by (metis unat_eq_zero)
  qed
  ultimately show ?case using Cons * by (simp add: or_zero_iff)
qed simp

lemma pack64_mask:
  fixes ws :: "'a::len word list"
  assumes "length ws * LENGTH('a) \<le> 64" "ws \<noteq> []"
  shows "pack64 ws AND pack64 (replicate (length ws) m) = 0 \<longleftrightarrow> (\<forall>w \<in> set ws. w AND m = 0)"
proof -
  have L: "LENGTH('a) \<le> 64" using assms by (cases ws) auto
  have "map2 (AND) ws (replicate (length ws) m) = map (\<lambda>w. w AND m) ws"
    by (induction ws) auto
  with pack64_and [OF L, of ws "replicate (length ws) m"] pack64_zero [of "map (\<lambda>w. w AND m) ws"] assms(1)
  show ?thesis by simp
qed

lemma masks64:
  "(0x8080808080808080 :: u64) = pack64 (replicate 8 (0x80 :: u8))"
  "(0x80ff80ff80ff80ff :: u64) = pack64 (replicate 4 (0x80ff :: u16))"
  "(0xff80ff80ff80ff80 :: u64) = pack64 (replicate 4 (0xff80 :: u16))"
  "(0xffffff80ffffff80 :: u64) = pack64 (replicate 2 (0xffffff80 :: u32))"
proof -
  have "replicate 8 x = [x, x, x, x, x, x, x, x]" "replicate 4 y = [y, y, y, y]" "replicate 2 z = [z, z]"
    for x :: u8 and y :: u16 and z :: u32 by (simp_all add: numeral_eq_Suc)
  then show "(0x8080808080808080 :: u64) = pack64 (replicate 8 (0x80 :: u8))"
    "(0x80ff80ff80ff80ff :: u64) = pack64 (replicate 4 (0x80ff :: u16))"
    "(0xff80ff80ff80ff80 :: u64) = pack64 (replicate 4 (0xff80 :: u16))"
    "(0xffffff80ffffff80 :: u64) = pack64 (replicate 2 (0xffffff80 :: u32))"
    by simp_all
qed

definition is_ascii :: "u8 \<Rightarrow> bool" where
  "is_ascii b \<longleftrightarrow> unat b < 0x80"

lemma pack64_ascii: "length ws = 8 \<Longrightarrow> pack64 ws AND 0x8080808080808080 = 0 \<longleftrightarrow> list_all is_ascii ws"
  using pack64_mask [of ws "0x80 :: u8"]
  by (cases "ws = []") (auto simp: masks64 tests is_ascii_def list_all_iff)

lemma memcpy64_slice:
  "pos + n \<le> length data \<Longrightarrow> memcpy64 host data pos n =
     Some (pack64 (if utf_is_be host then rev (take n (drop pos data)) else take n (drop pos data)))"
  by (simp add: memcpy64_def mem_slice_def)

lemma ascii16_iff:
  "ascii16 host data pos =
     Some (pos + 16 \<le> length data \<and> list_all is_ascii (take 16 (drop pos data)))"
proof (cases "pos + 16 \<le> length data")
  case True
  let ?a = "take 8 (drop pos data)" and ?b = "take 8 (drop (pos + 8) data)"
  have t: "take 16 (drop pos data) = ?a @ ?b"
    using take_add [of 8 8 "drop pos data"] by (simp add: ac_simps)
  have "(v1 OR v2) AND m = 0 \<longleftrightarrow> v1 AND m = 0 \<and> v2 AND m = 0" for v1 v2 m :: u64
    by (simp add: bit.conj_disj_distrib2 or_zero_iff)
  with True t show ?thesis
    by (simp add: ascii16_def memcpy64_slice pack64_ascii list_all_iff ball_Un)
qed (simp add: ascii16_def)

lemma ascii8_iff:
  "ascii8 host data pos = Some (pos + 8 \<le> length data \<and> list_all is_ascii (take 8 (drop pos data)))"
  by (simp add: ascii8_def memcpy64_slice pack64_ascii list_all_iff)
section \<open>Decoding UTF-8\<close>

lemma enc8_not_Nil [simp]: "enc8 c \<noteq> []"
  by (simp add: enc8_def Let_def)

lemma dec8_len: "dec8 s = Some (c, k) \<Longrightarrow> 0 < k \<and> k \<le> length s"
  using dec8_sound [of s c k] by (metis enc8_not_Nil length_greater_0_conv length_take min.cobounded1)

function dec8_all :: "bytes \<Rightarrow> u32 list option" where
  "dec8_all s =
     (if s = [] then Some []
      else case dec8 s of None \<Rightarrow> None | Some (c, k) \<Rightarrow> map_option (Cons c) (dec8_all (drop k s)))"
  by pat_completeness auto
termination by (relation "measure length") (auto dest: dec8_len)

declare dec8_all.simps [simp del]

lemma dec8_all_Nil [simp]: "dec8_all [] = Some []"
  by (simp add: dec8_all.simps)

lemma dec8_all_enc: "list_all scalar cs \<Longrightarrow> dec8_all (concat (map enc8 cs)) = Some cs"
proof (induction cs)
  case (Cons c cs)
  then show ?case
    using dec8_complete [of c "concat (map enc8 cs)"] by (subst dec8_all.simps) simp
qed simp

lemma dec8_all_Some: "dec8_all s = Some cs \<Longrightarrow> list_all scalar cs \<and> s = concat (map enc8 cs)"
proof (induction s arbitrary: cs rule: dec8_all.induct)
  case (1 s)
  show ?case
  proof (cases "s = []")
    case False
    with "1.prems" obtain c k cs' where *: "dec8 s = Some (c, k)" "dec8_all (drop k s) = Some cs'" "cs = c # cs'"
      by (subst (asm) dec8_all.simps) (auto split: option.splits)
    have "list_all scalar cs' \<and> drop k s = concat (map enc8 cs')"
      using "1.IH" [OF False *(1) refl *(2)] .
    moreover have "scalar c" "take k s = enc8 c" using dec8_sound [OF *(1)] by auto
    moreover have "s = take k s @ drop k s" by simp
    ultimately show ?thesis using *(3) by simp
  qed (use "1.prems" in simp)
qed

text \<open>A byte sequence is well-formed UTF-8 if it is the encoding of some scalar values.\<close>

definition utf8_text :: "bytes \<Rightarrow> bool" where
  "utf8_text s \<longleftrightarrow> (\<exists>cs. list_all scalar cs \<and> s = concat (map enc8 cs))"

lemma dec8_all_None: "dec8_all s = None \<longleftrightarrow> \<not> utf8_text s"
  by (metis dec8_all_Some dec8_all_enc option.exhaust option.distinct(1) utf8_text_def)

lemma dec8_ascii: "is_ascii a \<Longrightarrow> dec8 (a # s) = Some (ucast a, 1)"
  by (simp add: is_ascii_def)

lemma dec8_all_ascii1: "is_ascii a \<Longrightarrow> dec8_all (a # s) = map_option (Cons (ucast a)) (dec8_all s)"
  by (subst dec8_all.simps) (simp add: dec8_ascii del: dec8.simps)

lemma dec8_all_ascii:
  "list_all is_ascii a \<Longrightarrow> dec8_all (a @ s) = map_option (\<lambda>cs. map ucast a @ cs) (dec8_all s)"
  by (cases "dec8_all s"; induction a) (auto simp: dec8_all_ascii1)

text \<open>Reading at an offset.\<close>

lemma mem_get_app [simp]: "mem_get (pre @ s) (length pre + k) = mem_get s k" "mem_get (pre @ s) (length pre) = mem_get s 0"
  by (simp_all add: mem_get_def nth_append)

lemma mem_get_heads [simp]:
  "mem_get (a # s) 0 = Some a" "mem_get (a # b # s) 1 = Some b"
  "mem_get (a # b # c # s) 2 = Some c" "mem_get (a # b # c # d # s) 3 = Some d"
  by (simp_all add: mem_get_def)

declare One_nat_def [simp del] add_2_eq_Suc [simp del] add_2_eq_Suc' [simp del]

lemma cp_tests:
  "c < 0x80 \<longleftrightarrow> unat c < 0x80" "0x7ff < c \<longleftrightarrow> 0x7ff < unat c" "c < 0x800 \<longleftrightarrow> unat c < 0x800"
  "0xffff < c \<longleftrightarrow> 0xffff < unat c" "0xd7ff < c \<longleftrightarrow> 0xd7ff < unat c" "c < 0xe000 \<longleftrightarrow> unat c < 0xe000"
  "c \<le> 0xffff \<longleftrightarrow> unat c \<le> 0xffff" "0x10ffff < c \<longleftrightarrow> 0x10ffff < unat c" "0xff < c \<longleftrightarrow> 0xff < unat c"
  "0xd800 \<le> c \<longleftrightarrow> 0xd800 \<le> unat c" "c \<le> 0xdfff \<longleftrightarrow> unat c \<le> 0xdfff" "c \<le> 0x10ffff \<longleftrightarrow> unat c \<le> 0x10ffff" for c :: u32
  by (simp_all add: word_less_nat_alt word_le_nat_alt)

lemma cp2_less: "unat (cp2 a b) < 0x800"
proof -
  have "unat a mod 32 < 32" "unat b mod 64 < 64" by simp_all
  then show ?thesis unfolding cp_nat by linarith
qed

lemma cp3_less: "unat (cp3 a b c) < 0x10000"
proof -
  have "unat a mod 16 < 16" "unat b mod 64 < 64" "unat c mod 64 < 64" by simp_all
  then show ?thesis unfolding cp_nat by linarith
qed

lemma utf8_to_utf32_step:
  assumes "s \<noteq> []"
  shows "utf8_to_utf32 host (pre @ s) (length pre) out =
    (if 16 \<le> length s \<and> list_all is_ascii (take 16 s)
     then utf8_to_utf32 host (pre @ s) (length pre + 16) (out @ map ucast (take 16 s))
     else case dec8 s of None \<Rightarrow> Some (0, out)
       | Some (c, k) \<Rightarrow> utf8_to_utf32 host (pre @ s) (length pre + k) (out @ [c]))"
proof (cases "16 \<le> length s \<and> list_all is_ascii (take 16 s)")
  case True
  then show ?thesis
    by (subst utf8_to_utf32.simps) (simp add: ascii16_iff mem_slice_def assms)
next
  case slow: False
  obtain a t where s: "s = a # t" using assms by (cases s) auto
  have u: "utf8_to_utf32 host (pre @ s) (length pre) out = do {
      a \<leftarrow> mem_get (pre @ s) (length pre);
            if a < 0x80 then utf8_to_utf32 host (pre @ s) (length pre + 1) (out @ [ucast a])
            else if a AND 0xe0 = 0xc0 then
              (if length pre + 1 \<ge> length (pre @ s) then Some (0, out)
               else do {
                 b \<leftarrow> mem_get (pre @ s) (length pre + 1);
                 if b AND 0xc0 \<noteq> 0x80 then Some (0, out)
                 else if cp2 a b < 0x80 \<or> 0x7ff < cp2 a b then Some (0, out)
                 else utf8_to_utf32 host (pre @ s) (length pre + 2) (out @ [cp2 a b]) })
            else if a AND 0xf0 = 0xe0 then
              (if length pre + 2 \<ge> length (pre @ s) then Some (0, out)
               else do {
                 b \<leftarrow> mem_get (pre @ s) (length pre + 1);
                 c \<leftarrow> mem_get (pre @ s) (length pre + 2);
                 if b AND 0xc0 \<noteq> 0x80 then Some (0, out)
                 else if c AND 0xc0 \<noteq> 0x80 then Some (0, out)
                 else let cp = cp3 a b c in
                   if cp < 0x800 \<or> 0xffff < cp \<or> 0xd7ff < cp \<and> cp < 0xe000 then Some (0, out)
                   else utf8_to_utf32 host (pre @ s) (length pre + 3) (out @ [cp]) })
            else if a AND 0xf8 = 0xf0 then
              (if length pre + 3 \<ge> length (pre @ s) then Some (0, out)
               else do {
                 b \<leftarrow> mem_get (pre @ s) (length pre + 1);
                 c \<leftarrow> mem_get (pre @ s) (length pre + 2);
                 d \<leftarrow> mem_get (pre @ s) (length pre + 3);
                 if b AND 0xc0 \<noteq> 0x80 then Some (0, out)
                 else if c AND 0xc0 \<noteq> 0x80 then Some (0, out)
                 else if d AND 0xc0 \<noteq> 0x80 then Some (0, out)
                 else let cp = cp4 a b c d in
                   if cp \<le> 0xffff \<or> 0x10ffff < cp then Some (0, out)
                   else utf8_to_utf32 host (pre @ s) (length pre + 4) (out @ [cp]) })
            else Some (0, out) }"
    using slow s by (subst utf8_to_utf32.simps) (auto simp: ascii16_iff)
  consider "t = []" | b where "t = [b]" | b c where "t = [b, c]" | b c d r where "t = b # c # d # r"
    by (metis list.exhaust)
  then show ?thesis
  proof cases
    case 1
    with slow s show ?thesis unfolding u
      by (auto simp: tests)
  next
    case 2
    with slow s show ?thesis unfolding u
      using cp2_less [of a b]
      by (auto simp: tests cont_def cp_tests Let_def)
  next
    case 3
    with slow s show ?thesis unfolding u
      using cp2_less [of a b] cp3_less [of a b c]
      by (auto simp: tests cont_def cp_tests Let_def scalar_def)
  next
    case 4
    note s4 = s [unfolded 4]
    consider "unat a < 0x80" | "0x80 \<le> unat a" "unat a < 0xc0" | "0xc0 \<le> unat a" "unat a < 0xe0"
      | "0xe0 \<le> unat a" "unat a < 0xf0" | "0xf0 \<le> unat a" "unat a < 0xf8" | "0xf8 \<le> unat a" by linarith
    then show ?thesis
    proof cases
      case 1 then show ?thesis unfolding u if_not_P [OF slow] by (simp add: s4 tests)
    next
      case 2 then show ?thesis unfolding u if_not_P [OF slow] by (simp add: s4 tests)
    next
      case 3 then show ?thesis unfolding u if_not_P [OF slow] using cp2_less [of a b]
        by (auto simp add: s4 tests cp_tests cont_def)
    next
      case 4 then show ?thesis unfolding u if_not_P [OF slow] using cp3_less [of a b c]
        by (auto simp add: s4 tests cp_tests cont_def scalar_def Let_def)
    next
      case 5 then show ?thesis unfolding u if_not_P [OF slow]
        by (auto simp add: s4 tests cp_tests cont_def scalar_def Let_def)
    next
      case 6 then show ?thesis unfolding u if_not_P [OF slow] by (simp add: s4 tests)
    qed
  qed
qed

lemma sint_lead: "sint b > -65 \<longleftrightarrow> \<not> cont b" for b :: u8
proof -
  have u: "uint b = int (unat b)" "unat b < 256" "uint b < 256"
    using unsigned_less [of b, where ?'a = int] by (simp_all add: u8_bound)
  have "sint b = signed_take_bit 7 (uint b)" by (simp add: sint_uint)
  also have "\<dots> = take_bit (Suc 7) (uint b) - 2 ^ Suc 7 * of_bool (bit (uint b) 7)"
    by (rule signed_take_bit_eq_take_bit_minus)
  also have "take_bit (Suc 7) (uint b) = uint b" by (intro take_bit_int_eq_self) (use u in auto)
  finally have s: "sint b = uint b - 256 * of_bool (bit (uint b) 7)" by simp
  have "bit (uint b) 7 \<longleftrightarrow> odd (int (unat b) div 128)" unfolding u(1) bit_iff_odd by simp
  also have "\<dots> \<longleftrightarrow> 128 \<le> unat b"
  proof (cases "128 \<le> unat b")
    case True
    then have "int (unat b) div 128 = 1" using u(2) by linarith
    then show ?thesis using True by simp
  next
    case False
    then have "int (unat b) div 128 = 0" by linarith
    then show ?thesis using False by simp
  qed
  finally have bit7: "bit (uint b) 7 \<longleftrightarrow> 128 \<le> unat b" .
  have s': "sint b = int (unat b) - 256 * of_bool (128 \<le> unat b)"
    using s unfolding bit7 unfolding u(1) .
  show ?thesis
  proof (cases "128 \<le> unat b")
    case True
    then have "sint b = int (unat b) - 256" using s' by (simp only: of_bool_eq) 
    then show ?thesis using True u(2) unfolding cont_def by linarith
  next
    case False
    then have "sint b = int (unat b)" using s' by (simp only: of_bool_eq)
    then show ?thesis using False unfolding cont_def by linarith
  qed
qed

lemma enc8_conts: "scalar c \<Longrightarrow> \<exists>a t. enc8 c = a # t \<and> \<not> cont a \<and> list_all cont t"
proof -
  assume "scalar c"
  then have d: "dec8 (enc8 c) = Some (c, length (enc8 c))" using dec8_complete [of c "[]"] by simp
  obtain a t where e: "enc8 c = a # t" by (cases "enc8 c") auto
  have "\<not> cont a" using d e by (auto simp: cont_def split: if_splits)
  moreover have "list_all cont t"
  proof -
    define f where "f k = (of_nat (0x80 + k mod 64) :: u8)" for k
    let ?n = "unat c"
    have "tl (enc8 c) \<in> {[], [f ?n], [f (?n div 64), f ?n], [f (?n div 4096), f (?n div 64), f ?n]}"
      unfolding enc8_def Let_def f_def by (cases "?n < 0x80"; cases "?n < 0x800"; cases "?n < 0x10000") simp_all
    moreover have "cont (f k)" for k unfolding f_def by (rule cont_tail)
    ultimately show ?thesis using e by auto
  qed
  ultimately show ?thesis using e by blast
qed

text \<open>The length functions on UTF-8 count the scalar values.\<close>

lemma utf32_length_conts: "list_all cont t \<Longrightarrow> utf32_length_from_utf8 (t @ s) = utf32_length_from_utf8 s"
  by (induction t) (auto simp: sint_lead)

lemma utf32_length_dec8:
  "dec8 s = Some (c, k) \<Longrightarrow> utf32_length_from_utf8 s = 1 + utf32_length_from_utf8 (drop k s)"
proof -
  assume d: "dec8 s = Some (c, k)"
  then obtain a t where "take k s = a # t" "\<not> cont a" "list_all cont t"
    using dec8_sound [OF d] enc8_conts by metis
  then have "s = (a # t) @ drop k s" by (metis append_take_drop_id)
  then have "utf32_length_from_utf8 s = utf32_length_from_utf8 (a # t @ drop k s)" by simp
  with \<open>\<not> cont a\<close> \<open>list_all cont t\<close> show ?thesis by (simp add: sint_lead utf32_length_conts)
qed

lemma utf32_length_ascii:
  "list_all is_ascii a \<Longrightarrow> utf32_length_from_utf8 (a @ s) = length a + utf32_length_from_utf8 s"
  by (induction a) (auto simp: sint_lead cont_def is_ascii_def)

lemma utf32_length_text:
  "dec8_all s = Some cs \<Longrightarrow> utf32_length_from_utf8 s = length cs"
proof (induction s arbitrary: cs rule: dec8_all.induct)
  case (1 s)
  show ?case
  proof (cases "s = []")
    case False
    with "1.prems" obtain c k cs' where *: "dec8 s = Some (c, k)" "dec8_all (drop k s) = Some cs'" "cs = c # cs'"
      by (subst (asm) dec8_all.simps) (auto split: option.splits)
    show ?thesis using "1.IH" [OF False *(1) refl *(2)] utf32_length_dec8 [OF *(1)] *(3) by simp
  qed (use "1.prems" in simp)
qed

subsection \<open>To UTF-32\<close>

text \<open>
  What a conversion did: all of the decoded text was written, or the input is ill-formed, nothing
  is returned and what was written fits in the length that the length function gives.
\<close>

definition converted :: "u32 list option \<Rightarrow> nat \<Rightarrow> 'a list \<Rightarrow> (u32 list \<Rightarrow> 'a list) \<Rightarrow> (nat \<times> 'a list) option \<Rightarrow> bool" where
  "converted r room out f res =
     (case r of
        Some cs \<Rightarrow> res = Some (length out + length (f cs), out @ f cs)
      | None \<Rightarrow> \<exists>w. res = Some (0, out @ w) \<and> length w \<le> room)"

lemma utf8_to_utf32_result:
  "converted (dec8_all s) (utf32_length_from_utf8 s) out id (utf8_to_utf32 host (pre @ s) (length pre) out)"
proof (induction "length s" arbitrary: s pre out rule: less_induct)
  case less
  show ?case
  proof (cases "s = []")
    case True
    then show ?thesis by (subst utf8_to_utf32.simps) (simp add: converted_def)
  next
    case False
    show ?thesis
    proof (cases "16 \<le> length s \<and> list_all is_ascii (take 16 s)")
      case True
      let ?a = "take 16 s" and ?s = "drop 16 s"
      have s: "s = ?a @ ?s" by simp
      have "converted (dec8_all ?s) (utf32_length_from_utf8 ?s) (out @ map ucast ?a) id
          (utf8_to_utf32 host ((pre @ ?a) @ ?s) (length (pre @ ?a)) (out @ map ucast ?a))"
        by (rule less) (use True in auto)
      moreover have "dec8_all s = map_option (\<lambda>cs. map ucast ?a @ cs) (dec8_all ?s)"
        "utf32_length_from_utf8 s = 16 + utf32_length_from_utf8 ?s"
        using dec8_all_ascii [of ?a ?s] utf32_length_ascii [of ?a ?s] True by simp_all
      moreover have "length (pre @ ?a) = length pre + 16" "(pre @ ?a) @ ?s = pre @ s" using True by simp_all
      ultimately show ?thesis
        using utf8_to_utf32_step [OF False] True
        by (fastforce simp: converted_def split: option.splits)
    next
      case slow: False
      show ?thesis
      proof (cases "dec8 s")
        case None
        then have "dec8_all s = None" using False by (subst dec8_all.simps) simp
        then show ?thesis using utf8_to_utf32_step [OF False] slow None by (simp add: converted_def)
      next
        case (Some p)
        obtain c k where p: "dec8 s = Some (c, k)" using Some by (cases p) auto
        note k = dec8_len [OF p]
        let ?a = "take k s" and ?s = "drop k s"
        have "converted (dec8_all ?s) (utf32_length_from_utf8 ?s) (out @ [c]) id
            (utf8_to_utf32 host ((pre @ ?a) @ ?s) (length (pre @ ?a)) (out @ [c]))"
          by (rule less) (use k in auto)
        moreover have "dec8_all s = map_option (Cons c) (dec8_all ?s)"
          using False p by (subst dec8_all.simps) simp
        moreover have "length (pre @ ?a) = length pre + k" "(pre @ ?a) @ ?s = pre @ s" using k by simp_all
        ultimately show ?thesis
          using utf8_to_utf32_step [OF False] slow p utf32_length_dec8 [OF p]
          by (cases "dec8_all ?s") (auto simp: converted_def)
      qed
    qed
  qed
qed


subsection \<open>Validation\<close>

lemma ascii_less: "b < 0x80 \<longleftrightarrow> is_ascii b" for b :: u8
  by (simp add: tests is_ascii_def)

lemma skip_ascii_result:
  "s = a # t \<Longrightarrow> skip_ascii (pre @ s) (length pre) a =
     Some (case dropWhile is_ascii s of [] \<Rightarrow> None
           | b # r \<Rightarrow> Some (length pre + length (takeWhile is_ascii s), b))"
proof (induction t arbitrary: s a pre)
  case Nil
  then show ?case by (subst skip_ascii.simps) (auto simp: ascii_less)
next
  case (Cons b t)
  have "skip_ascii ((pre @ [a]) @ b # t) (length (pre @ [a])) b =
     Some (case dropWhile is_ascii (b # t) of [] \<Rightarrow> None
           | c # r \<Rightarrow> Some (length (pre @ [a]) + length (takeWhile is_ascii (b # t)), c))"
    by (rule Cons.IH) simp
  then show ?case
    using Cons.prems by (subst skip_ascii.simps) (auto simp: Suc_eq_plus1 ascii_less simp del: dropWhile_eq_Nil_conv split: list.splits)
qed

lemma utf8_text_ascii: "list_all is_ascii a \<Longrightarrow> utf8_text (a @ s) \<longleftrightarrow> utf8_text s"
  using dec8_all_ascii [of a s] dec8_all_None [of s] dec8_all_None [of "a @ s"] by auto

lemma utf8_text_Nil: "utf8_text []"
  by (auto simp: utf8_text_def intro!: exI [of _ "[]"])

lemma dec8_all_text: "dec8_all s = Some cs \<Longrightarrow> utf8_text s"
  using dec8_all_Some by (auto simp: utf8_text_def)

lemma utf8_text_dec8:
  "s \<noteq> [] \<Longrightarrow> utf8_text s \<longleftrightarrow> (case dec8 s of None \<Rightarrow> False | Some (c, k) \<Rightarrow> utf8_text (drop k s))"
  using dec8_all_None [of s] dec8_all.simps [of s]
  by (auto simp: dec8_all_None dest: dec8_all_text split: option.splits)

lemma validate_lead:
  assumes "s = a # t" "\<not> is_ascii a"
    and body: "r = (if a AND 0xe0 = 0xc0 then
                  (if length pre + 2 > length (pre @ s) then Some False
                   else do {
                     b \<leftarrow> mem_get (pre @ s) (length pre + 1);
                     if b AND 0xc0 \<noteq> 0x80 then Some False
                     else if cp2 a b < 0x80 \<or> 0x7ff < cp2 a b then Some False
                     else cont2 })
                else if a AND 0xf0 = 0xe0 then
                  (if length pre + 3 > length (pre @ s) then Some False
                   else do {
                     b \<leftarrow> mem_get (pre @ s) (length pre + 1);
                     c \<leftarrow> mem_get (pre @ s) (length pre + 2);
                     if b AND 0xc0 \<noteq> 0x80 then Some False
                     else if c AND 0xc0 \<noteq> 0x80 then Some False
                     else let cp = cp3 a b c in
                       if cp < 0x800 \<or> 0xffff < cp \<or> 0xd7ff < cp \<and> cp < 0xe000 then Some False
                       else cont3 })
                else if a AND 0xf8 = 0xf0 then
                  (if length pre + 4 > length (pre @ s) then Some False
                   else do {
                     b \<leftarrow> mem_get (pre @ s) (length pre + 1);
                     c \<leftarrow> mem_get (pre @ s) (length pre + 2);
                     d \<leftarrow> mem_get (pre @ s) (length pre + 3);
                     if b AND 0xc0 \<noteq> 0x80 then Some False
                     else if c AND 0xc0 \<noteq> 0x80 then Some False
                     else if d AND 0xc0 \<noteq> 0x80 then Some False
                     else let cp = cp4 a b c d in
                       if cp \<le> 0xffff \<or> 0x10ffff < cp then Some False
                       else cont4 })
                else Some False)"
    and 2: "cont2 = f 2" and 3: "cont3 = f 3" and 4: "cont4 = f 4"
  shows "r = (case dec8 s of None \<Rightarrow> Some False | Some (c, k) \<Rightarrow> f k)"
proof -
  note lead = assms(1,2) [unfolded is_ascii_def]
  consider (two) "0x80 \<le> unat a" "unat a < 0xc0" | (l2) "0xc0 \<le> unat a" "unat a < 0xe0"
    | (l3) "0xe0 \<le> unat a" "unat a < 0xf0" | (l4) "0xf0 \<le> unat a" "unat a < 0xf8" | (big) "0xf8 \<le> unat a"
    using lead(2) by linarith
  then show ?thesis
  proof cases
    case two then show ?thesis unfolding body using lead by (simp add: tests)
  next
    case big then show ?thesis unfolding body using lead by (simp add: tests)
  next
    case l2
    show ?thesis
    proof (cases t)
      case Nil with l2 show ?thesis unfolding body using lead by (simp add: tests)
    next
      case (Cons b u)
      with l2 cp2_less [of a b] show ?thesis unfolding body using lead 2
        by (auto simp: tests cp_tests cont_def)
    qed
  next
    case l3
    consider "t = []" | b where "t = [b]" | b c u where "t = b # c # u" by (metis list.exhaust)
    then show ?thesis
    proof cases
      case 3
      with l3 cp3_less [of a b c] show ?thesis unfolding body using lead assms(5)
        by (auto simp: tests cp_tests cont_def scalar_def Let_def)
    qed (use l3 lead in \<open>simp_all add: body tests\<close>)
  next
    case l4
    consider "t = []" | b where "t = [b]" | b c where "t = [b, c]" | b c d u where "t = b # c # d # u"
      by (metis list.exhaust)
    then show ?thesis
    proof cases
      case 4
      with l4 show ?thesis unfolding body using lead assms(6)
        by (auto simp: tests cp_tests cont_def scalar_def Let_def)
    qed (use l4 lead in \<open>simp_all add: body tests\<close>)
  qed
qed

lemma utf8_validate_from_result:
  "utf8_validate_from host (pre @ s) (length pre) = Some (utf8_text s)"
proof (induction "length s" arbitrary: s pre rule: less_induct)
  case less
  show ?case
  proof (cases "s = []")
    case True
    then show ?thesis
      by (subst utf8_validate_from.simps) (auto simp: utf8_text_def intro!: exI [of _ "[]"])
  next
    case False
    show ?thesis
    proof (cases "16 \<le> length s \<and> list_all is_ascii (take 16 s)")
      case True
      let ?a = "take 16 s" and ?s = "drop 16 s"
      have "utf8_validate_from host ((pre @ ?a) @ ?s) (length (pre @ ?a)) = Some (utf8_text ?s)"
        by (rule less) (use True in auto)
      moreover have "length (pre @ ?a) = length pre + 16" "(pre @ ?a) @ ?s = pre @ s" using True by simp_all
      moreover have "utf8_text s \<longleftrightarrow> utf8_text ?s" using utf8_text_ascii [of ?a ?s] True by simp
      ultimately show ?thesis
        using True False by (subst utf8_validate_from.simps) (simp add: ascii16_iff)
    next
      case slow: False
      let ?w = "takeWhile is_ascii s" and ?t = "dropWhile is_ascii s"
      obtain a s' where s: "s = a # s'" using False by (cases s) auto
      have tail: "utf8_text s \<longleftrightarrow> utf8_text ?t"
        using utf8_text_ascii [of ?w ?t] by (auto simp: list_all_iff dest: set_takeWhileD)
      show ?thesis
      proof (cases ?t)
        case Nil
        then have "utf8_text s" using tail utf8_text_Nil by (simp only:)
        moreover have "skip_ascii (pre @ s) (length pre) a = Some None"
          using skip_ascii_result [OF s, of pre] Nil by simp
        ultimately show ?thesis
          using slow s by (subst utf8_validate_from.simps) (auto simp: ascii16_iff)
      next
        case (Cons b r)
        have na: "\<not> is_ascii b" using Cons by (metis dropWhile_eq_Cons_conv)
        define P where "P = pre @ ?w"
        have sk: "skip_ascii (pre @ s) (length pre) a = Some (Some (length P, b))"
          using skip_ascii_result [OF s, of pre] Cons by (simp add: P_def)
        have app: "P @ ?t = pre @ s" by (simp add: P_def)
        have lt: "length ?t \<le> length s" by (rule length_dropWhile_le)
        have gets: "mem_get (pre @ s) (length pre) = Some a" "length pre < length (pre @ s)"
          "ascii16 host (pre @ s) (length pre) = Some False"
          using slow s by (auto simp: ascii16_iff)
        have "utf8_validate_from host (pre @ s) (length pre) =
            (case dec8 ?t of None \<Rightarrow> Some False
             | Some (c, k) \<Rightarrow> utf8_validate_from host (P @ ?t) (length P + k))"
          by (rule validate_lead [OF Cons na _ refl refl refl, where pre = P and
                f = "\<lambda>k. utf8_validate_from host (P @ ?t) (length P + k)"],
              subst utf8_validate_from.simps)
             (simp only: app gets sk if_True if_False Option.bind.simps option.case prod.case)
        also have "\<dots> = Some (utf8_text ?t)"
        proof (cases "dec8 ?t")
          case (Some p)
          obtain c k where p: "dec8 ?t = Some (c, k)" using Some by (cases p) auto
          note k = dec8_len [OF p]
          let ?a = "take k ?t" and ?s = "drop k ?t"
          have "utf8_validate_from host ((P @ ?a) @ ?s) (length (P @ ?a)) = Some (utf8_text ?s)"
            by (rule less) (use k lt in auto)
          moreover have "length (P @ ?a) = length P + k" "(P @ ?a) @ ?s = P @ ?t"
            using k by simp_all
          ultimately show ?thesis using p utf8_text_dec8 [of ?t] Cons by simp
        qed (use utf8_text_dec8 [of ?t] Cons in simp)
        finally show ?thesis using tail by simp
      qed
    qed
  qed
qed


section \<open>UTF-16\<close>

definition enc16 :: "u32 \<Rightarrow> u16 list" where
  "enc16 c = (let n = unat c in
     if n < 0x10000 then [of_nat n]
     else [of_nat (0xd800 + (n - 0x10000) div 1024), of_nat (0xdc00 + (n - 0x10000) mod 1024)])"

lemma unat_u16: "n < 0x10000 \<Longrightarrow> unat (of_nat n :: u16) = n"
  by (rule unat_of_nat_small) simp

lemma ucast_u16: "ucast (c :: u32) = (of_nat (unat c) :: u16)"
  by (metis of_nat_unat)

lemma enc16_small: "unat c < 0x10000 \<Longrightarrow> enc16 c = [ucast c]"
  unfolding enc16_def Let_def ucast_u16 by (simp only: if_True)

lemma u16_bound: "unat (b :: u16) < 0x10000"
  using unsigned_less [of b, where ?'a = nat] by simp

lemma surrogates:
  assumes "0x10000 \<le> unat c" "unat c < 0x110000"
  shows "[ucast (0xd800 + drop_bit 10 (c - 0x10000)), ucast (0xdc00 + ((c - 0x10000) AND 0x3ff))] = enc16 c"
proof -
  let ?m = "unat c - 0x10000"
  have m: "unat (c - 0x10000) = ?m"
    using assms by (subst unat_sub) (auto simp: word_le_nat_alt)
  have d: "?m div 1024 < 1024" using assms by (simp add: less_mult_imp_div_less)
  have r: "?m mod 1024 < 1024" by simp
  have "unat (0xd800 + drop_bit 10 (c - 0x10000)) = 0xd800 + ?m div 1024"
    using d by (subst unat_plus_if') (simp add: unat_drop m)
  moreover have "unat (0xdc00 + ((c - 0x10000) AND 0x3ff)) = 0xdc00 + ?m mod 1024"
    using r by (subst unat_plus_if') (simp add: low_masks unat_and_low m)
  ultimately show ?thesis using assms unfolding ucast_u16 by (simp add: enc16_def Let_def)
qed

lemma swap16_swap16 [simp]: "utf_swap_uint16 (utf_swap_uint16 w) = w"
proof -
  have b: "bit (utf_swap_uint16 w) n \<longleftrightarrow> n < 16 \<and> (if n < 8 then bit w (n + 8) else bit w (n - 8))" for n w
    unfolding utf_swap_uint16_def low_masks high_masks
    by (auto simp: bit_simps add.commute)
  show ?thesis
    by (rule bit_eqI) (auto simp: b dest: bit_imp_le_length)
qed

lemma le16_le16 [simp]: "le16 host (le16 host w) = w"
  by (simp add: le16_def)

lemma map_le16_le16 [simp]: "map (le16 host) (map (le16 host) ws) = ws" "map (le16 host \<circ> le16 host) ws = ws"
  by (induction ws) simp_all

subsection \<open>From UTF-8\<close>

lemma utf16_length_app_ge: "utf16_length_from_utf8 s \<le> utf16_length_from_utf8 (a @ s)"
  by (induction a) auto

lemma byte240: "240 \<le> a \<longleftrightarrow> 240 \<le> unat a" for a :: u8
  by (simp add: word_le_nat_alt One_nat_def)

lemma utf16_length_lead:
  "\<not> cont a \<Longrightarrow> 1 + (if 240 \<le> unat a then 1 else 0) + utf16_length_from_utf8 (drop k s) \<le> utf16_length_from_utf8 (a # s)"
  using utf16_length_app_ge [of "drop k s" "take k s"]
  by (simp add: sint_lead byte240)

lemma drop1 [simp]: "drop 1 (x # xs) = xs"
  by (simp add: One_nat_def)

lemma utf8_to_utf16_step:
  assumes "s \<noteq> []" and slow: "\<not> (8 \<le> length s \<and> list_all is_ascii (take 8 s))"
  shows "(\<exists>k w. utf8_to_utf16 host (pre @ s) (length pre) out = utf8_to_utf16 host (pre @ s) (length pre + k) (out @ w) \<and>
      0 < k \<and> k \<le> length s \<and> length w + utf16_length_from_utf8 (drop k s) \<le> utf16_length_from_utf8 s \<and>
      (\<forall>c j. dec8 s = Some (c, j) \<longrightarrow> k = j \<and> w = map (le16 host) (enc16 c))) \<or>
    utf8_to_utf16 host (pre @ s) (length pre) out \<in> {Some (0, out), Some (length out, out)} \<and> dec8 s = None"
proof -
  obtain a t where s: "s = a # t" using assms by (cases s) auto
  note start = utf8_to_utf16.simps [of host "pre @ a # t" "length pre" out]
  have gets: "ascii8 host (pre @ a # t) (length pre) = Some False"
    using slow s by (auto simp: ascii8_iff)
  consider (ascii) "unat a < 0x80" | (two) "0x80 \<le> unat a" "unat a < 0xc0" | (l2) "0xc0 \<le> unat a" "unat a < 0xe0"
    | (l3) "0xe0 \<le> unat a" "unat a < 0xf0" | (l4) "0xf0 \<le> unat a" "unat a < 0xf8" | (big) "0xf8 \<le> unat a"
    by linarith
  then show ?thesis
  proof cases
    case ascii
    have "unat (ucast a :: u32) = unat a" by (rule unat_ucast_up) simp
    then have e: "enc16 (ucast a) = [ucast a]"
      using u8_bound [of a] by (simp add: enc16_def)
    have "utf8_to_utf16 host (pre @ a # t) (length pre) out =
        utf8_to_utf16 host (pre @ a # t) (length pre + 1) (out @ [le16 host (ucast a)])"
      using ascii gets by (subst start) (simp add: tests)
    moreover have "\<not> cont a" using ascii by (simp add: cont_def)
    ultimately show ?thesis
      using ascii utf16_length_lead [of a 0 t] e
      unfolding s by (intro disjI1 exI [of _ 1] exI [of _ "[le16 host (ucast a)]"]) (simp add: One_nat_def)
  next
    case two
    then show ?thesis unfolding s by (intro disjI2, subst start) (simp add: gets tests)
  next
    case big
    then show ?thesis unfolding s by (intro disjI2, subst start) (simp add: gets tests)
  next
    case l2
    then have nc: "\<not> cont a" by (simp add: cont_def)
    show ?thesis
    proof (cases t)
      case Nil
      show ?thesis using l2 gets unfolding s Nil
        by (intro disjI2, subst start [unfolded Nil]) (simp add: tests)
    next
      case (Cons b u)
      have "utf8_to_utf16 host (pre @ a # t) (length pre) out =
        utf8_to_utf16 host (pre @ a # t) (length pre + 2) (out @ [le16 host (ucast (cp2 a b))])"
        using l2 Cons gets by (subst start) (simp add: tests)
      moreover have "enc16 (cp2 a b) = [ucast (cp2 a b)]"
        using cp2_less [of a b] by (intro enc16_small) linarith
      ultimately show ?thesis
        using l2 utf16_length_lead [OF nc, of 1 t] Cons
        unfolding s by (intro disjI1 exI [of _ 2] exI [of _ "[le16 host (ucast (cp2 a b))]"]) (auto simp del: utf16_length_from_utf8.simps)
    qed
  next
    case l3
    then have nc: "\<not> cont a" by (simp add: cont_def)
    consider "t = []" | b where "t = [b]" | b c u where "t = b # c # u" by (metis list.exhaust)
    then show ?thesis
    proof cases
      case 1
      show ?thesis using l3 gets unfolding s 1
        by (intro disjI2, subst start [unfolded 1]) (simp add: tests)
    next
      case (2 b)
      show ?thesis using l3 gets unfolding s 2
        by (intro disjI2, subst start [unfolded 2]) (simp add: tests)
    next
      case (3 b c u)
      have "utf8_to_utf16 host (pre @ a # t) (length pre) out =
        utf8_to_utf16 host (pre @ a # t) (length pre + 3) (out @ [le16 host (ucast (cp3 a b c))])"
        using l3 3 gets by (subst start) (simp add: tests)
      moreover have "enc16 (cp3 a b c) = [ucast (cp3 a b c)]"
        using cp3_less [of a b c] by (intro enc16_small) linarith
      ultimately show ?thesis
        using l3 utf16_length_lead [OF nc, of 2 t] 3
        unfolding s by (intro disjI1 exI [of _ 3] exI [of _ "[le16 host (ucast (cp3 a b c))]"]) (auto simp del: utf16_length_from_utf8.simps)
    qed
  next
    case l4
    then have nc: "\<not> cont a" by (simp add: cont_def)
    consider "t = []" | b where "t = [b]" | b c where "t = [b, c]" | b c d u where "t = b # c # d # u"
      by (metis list.exhaust)
    then show ?thesis
    proof cases
      case 1
      show ?thesis using l4 gets unfolding s 1
        by (intro disjI2, subst start [unfolded 1]) (simp add: tests)
    next
      case (2 b)
      show ?thesis using l4 gets unfolding s 2
        by (intro disjI2, subst start [unfolded 2]) (simp add: tests)
    next
      case (3 b c)
      show ?thesis using l4 gets unfolding s 3
        by (intro disjI2, subst start [unfolded 3]) (simp add: tests)
    next
      case (4 b c d u)
      let ?cp = "cp4 a b c d - 0x10000"
      let ?w = "[le16 host (ucast (0xd800 + drop_bit 10 ?cp)), le16 host (ucast (0xdc00 + (?cp AND 0x3ff)))]"
      have "utf8_to_utf16 host (pre @ a # t) (length pre) out =
        utf8_to_utf16 host (pre @ a # t) (length pre + 4) (out @ ?w)"
        using l4 4 gets by (subst start) (simp add: tests Let_def)
      moreover have "?w = map (le16 host) (enc16 (cp4 a b c d))"
        if "0x10000 \<le> unat (cp4 a b c d)" "scalar (cp4 a b c d)"
        using surrogates [OF that(1)] that by (auto simp: scalar_def simp flip: surrogates)
      ultimately show ?thesis
        using l4 utf16_length_lead [OF nc, of 3 t] 4
        unfolding s by (intro disjI1 exI [of _ 4] exI [of _ ?w]) (auto simp del: utf16_length_from_utf8.simps)
    qed
  qed
qed

lemma utf16_length_ascii:
  "list_all is_ascii a \<Longrightarrow> utf16_length_from_utf8 (a @ s) = length a + utf16_length_from_utf8 s"
  by (induction a) (auto simp: sint_lead byte240 cont_def is_ascii_def)

lemma utf16_length_conts: "list_all cont t \<Longrightarrow> utf16_length_from_utf8 (t @ s) = utf16_length_from_utf8 s"
  by (induction t) (auto simp: sint_lead byte240 cont_def)

lemma enc8_lead:
  assumes "scalar c"
  obtains a t where "enc8 c = a # t" "\<not> cont a" "list_all cont t" "240 \<le> unat a \<longleftrightarrow> 0x10000 \<le> unat c"
proof -
  obtain a t where e: "enc8 c = a # t" "\<not> cont a" "list_all cont t"
    using enc8_conts [OF assms] by auto
  let ?n = "unat c"
  have n: "?n < 0x110000" using assms by (auto simp: scalar_def)
  have "240 \<le> unat (hd (enc8 c)) \<longleftrightarrow> 0x10000 \<le> ?n"
  proof -
    consider "?n < 0x80" | "0x80 \<le> ?n" "?n < 0x800" | "0x800 \<le> ?n" "?n < 0x10000" | "0x10000 \<le> ?n"
      by linarith
    then show ?thesis
    proof cases
      case 1
      then have "hd (enc8 c) = of_nat ?n" "unat (of_nat ?n :: u8) = ?n"
        by (simp_all only: enc8_def Let_def if_True list.sel, intro unat_u8, linarith)
      then show ?thesis using 1 by simp
    next
      case 2
      then have d: "?n div 64 < 32" by (simp add: less_mult_imp_div_less)
      have "hd (enc8 c) = of_nat (0xc0 + ?n div 64)" using 2 by (simp add: enc8_def Let_def)
      moreover have "unat (of_nat (0xc0 + ?n div 64) :: u8) = 0xc0 + ?n div 64" using d by (intro unat_u8) linarith
      ultimately show ?thesis using 2 d by simp
    next
      case 3
      then have d: "?n div 4096 < 16" by (simp add: less_mult_imp_div_less)
      have "hd (enc8 c) = of_nat (0xe0 + ?n div 4096)" using 3 by (simp add: enc8_def Let_def)
      moreover have "unat (of_nat (0xe0 + ?n div 4096) :: u8) = 0xe0 + ?n div 4096" using d by (intro unat_u8) linarith
      ultimately show ?thesis using 3 d by simp
    next
      case 4
      then have d: "?n div 262144 < 8" using n by (simp add: less_mult_imp_div_less)
      have "hd (enc8 c) = of_nat (0xf0 + ?n div 262144)" using 4 by (simp add: enc8_def Let_def)
      moreover have "unat (of_nat (0xf0 + ?n div 262144) :: u8) = 0xf0 + ?n div 262144" using d by (intro unat_u8) linarith
      ultimately show ?thesis using 4 by simp
    qed
  qed
  with e that show thesis by simp
qed

lemma length_enc16: "length (enc16 c) = 1 + (if 0x10000 \<le> unat c then 1 else 0)"
  by (simp add: enc16_def Let_def One_nat_def)

lemma utf16_length_dec8:
  "dec8 s = Some (c, k) \<Longrightarrow> utf16_length_from_utf8 s = length (enc16 c) + utf16_length_from_utf8 (drop k s)"
proof -
  assume d: "dec8 s = Some (c, k)"
  then have "scalar c" "take k s = enc8 c" using dec8_sound [OF d] by auto
  then obtain a t where e: "take k s = a # t" "\<not> cont a" "list_all cont t" "240 \<le> unat a \<longleftrightarrow> 0x10000 \<le> unat c"
    using enc8_lead by metis
  then have "s = (a # t) @ drop k s" by (metis append_take_drop_id)
  then have "utf16_length_from_utf8 s = utf16_length_from_utf8 (a # t @ drop k s)" by simp
  with e show ?thesis by (simp add: sint_lead byte240 utf16_length_conts length_enc16)
qed

lemma enc16_ascii: "is_ascii b \<Longrightarrow> enc16 (ucast b) = [ucast b]"
proof -
  have u: "unat (ucast b :: u32) = unat b" by (rule unat_ucast_up) simp
  have "unat (ucast b :: u16) = unat b" by (rule unat_ucast_up) simp
  then have "(of_nat (unat b) :: u16) = ucast b" by (metis of_nat_unat ucast_id)
  with u show ?thesis using u8_bound [of b] by (simp add: enc16_def)
qed

lemma utf8_to_utf16_result:
  "\<exists>r w. utf8_to_utf16 host (pre @ s) (length pre) out = Some (r, out @ w) \<and>
    length w \<le> utf16_length_from_utf8 s \<and>
    (\<forall>cs. dec8_all s = Some cs \<longrightarrow> r = length out + length w \<and> w = map (le16 host) (concat (map enc16 cs)) \<and>
       length w = utf16_length_from_utf8 s)"
proof (induction "length s" arbitrary: s pre out rule: less_induct)
  case less
  show ?case
  proof (cases "s = []")
    case True
    then show ?thesis by (subst utf8_to_utf16.simps) simp
  next
    case False
    show ?thesis
    proof (cases "8 \<le> length s \<and> list_all is_ascii (take 8 s)")
      case True
      let ?a = "take 8 s" and ?s = "drop 8 s"
      let ?w = "map (\<lambda>b. le16 host (ucast b)) ?a"
      have sz: "length s - 8 < length s" using True by linarith
      obtain r w where IH: "utf8_to_utf16 host ((pre @ ?a) @ ?s) (length (pre @ ?a)) (out @ ?w) = Some (r, (out @ ?w) @ w)"
        "length w \<le> utf16_length_from_utf8 ?s"
        "\<And>cs. dec8_all ?s = Some cs \<Longrightarrow> r = length (out @ ?w) + length w \<and> w = map (le16 host) (concat (map enc16 cs)) \<and>
           length w = utf16_length_from_utf8 ?s"
        using less [of ?s "pre @ ?a" "out @ ?w"] True sz by auto
      have "utf8_to_utf16 host (pre @ s) (length pre) out = Some (r, out @ (?w @ w))"
        using IH(1) True False by (subst utf8_to_utf16.simps) (simp add: ascii8_iff mem_slice_def add.commute)
      moreover have "dec8_all s = map_option (\<lambda>cs. map ucast ?a @ cs) (dec8_all ?s)"
        "utf16_length_from_utf8 s = 8 + utf16_length_from_utf8 ?s"
        using dec8_all_ascii [of ?a ?s] utf16_length_ascii [of ?a ?s] True by simp_all
      moreover have "concat (map enc16 (map ucast ?a)) = map ucast ?a"
      proof -
        have "list_all is_ascii a \<Longrightarrow> concat (map enc16 (map ucast a)) = map ucast a" for a
          by (induction a) (auto simp: enc16_ascii)
        then show ?thesis using True by blast
      qed
      ultimately show ?thesis using IH(2,3) True
        by (intro exI [of _ r] exI [of _ "?w @ w"]) (auto simp: comp_def)
    next
      case slow: False
      from utf8_to_utf16_step [OF False slow, of host pre out] show ?thesis
      proof (elim disjE exE conjE)
        fix k v
        assume k: "utf8_to_utf16 host (pre @ s) (length pre) out = utf8_to_utf16 host (pre @ s) (length pre + k) (out @ v)"
          "0 < k" "k \<le> length s" "length v + utf16_length_from_utf8 (drop k s) \<le> utf16_length_from_utf8 s"
          "\<forall>c j. dec8 s = Some (c, j) \<longrightarrow> k = j \<and> v = map (le16 host) (enc16 c)"
        let ?a = "take k s" and ?s = "drop k s"
        have sz: "length s - k < length s" using k by linarith
        obtain r w where IH: "utf8_to_utf16 host ((pre @ ?a) @ ?s) (length (pre @ ?a)) (out @ v) = Some (r, (out @ v) @ w)"
          "length w \<le> utf16_length_from_utf8 ?s"
          "\<And>cs. dec8_all ?s = Some cs \<Longrightarrow> r = length (out @ v) + length w \<and> w = map (le16 host) (concat (map enc16 cs)) \<and>
             length w = utf16_length_from_utf8 ?s"
          using less [of ?s "pre @ ?a" "out @ v"] k sz by auto
        have "utf8_to_utf16 host (pre @ s) (length pre) out = Some (r, out @ (v @ w))"
          using IH(1) k by simp
        moreover have "r = length out + length (v @ w) \<and> v @ w = map (le16 host) (concat (map enc16 cs)) \<and>
             length (v @ w) = utf16_length_from_utf8 s" if cs: "dec8_all s = Some cs" for cs
        proof -
          obtain c j cs' where *: "dec8 s = Some (c, j)" "dec8_all (drop j s) = Some cs'" "cs = c # cs'"
            using cs False by (subst (asm) dec8_all.simps) (auto split: option.splits)
          with k(5) have "k = j" "v = map (le16 host) (enc16 c)" by auto
          with * IH(3) [of cs'] utf16_length_dec8 [OF *(1)] show ?thesis by auto
        qed
        moreover have "length (v @ w) \<le> utf16_length_from_utf8 s" using IH(2) k(4) by simp
        ultimately show ?thesis by blast
      next
        assume "utf8_to_utf16 host (pre @ s) (length pre) out \<in> {Some (0, out), Some (length out, out)}" "dec8 s = None"
        moreover have "dec8_all s = None" using False \<open>dec8 s = None\<close> by (subst dec8_all.simps) simp
        ultimately show ?thesis by auto
      qed
    qed
  qed
qed

end
