(* ===== verification/Libutf16.thy ===== *)
theory Libutf16
  imports Libutf_Spec
begin

text \<open>
  UTF-16 in \<open>libutf\<close>: the decoder of one code point, validation and the conversions to UTF-32 and
  UTF-8.
\<close>


section \<open>Decoding UTF-16\<close>

definition pair16 :: "u16 \<Rightarrow> u16 \<Rightarrow> u32" where
  "pair16 w v = of_nat (0x10000 + (unat w - 0xd800) * 1024 + (unat v - 0xdc00))"

fun dec16 :: "u16 list \<Rightarrow> (u32 \<times> nat) option" where
  "dec16 (w # s) =
     (if unat w < 0xd800 \<or> 0xe000 \<le> unat w then Some (ucast w, 1)
      else if 0xdc00 \<le> unat w then None
      else case s of
        v # _ \<Rightarrow> if 0xdc00 \<le> unat v \<and> unat v < 0xe000
                 then Some (pair16 w v, 2) else None
      | [] \<Rightarrow> None)"
| "dec16 [] = None"

lemma enc16_not_Nil [simp]: "enc16 c \<noteq> []"
  by (simp add: enc16_def Let_def)

lemma unat_ucast_16: "unat (ucast (w :: u16) :: u32) = unat w"
  by (rule unat_ucast_up) simp

lemma ucast_back16: "ucast (ucast (w :: u16) :: u32) = w"
  unfolding ucast_u16 unat_ucast_16 by simp

lemma enc16_bmp: "unat w < 0xd800 \<or> 0xe000 \<le> unat w \<Longrightarrow> enc16 (ucast w) = [w] \<and> scalar (ucast w)"
  using u16_bound [of w] enc16_small [of "ucast w"]
  by (auto simp: scalar_def unat_ucast_16 ucast_back16)

lemma unat_u32: "n < 0x100000000 \<Longrightarrow> unat (of_nat n :: u32) = n"
  by (rule unat_of_nat_small) simp

lemma dec16_sound: "dec16 s = Some (c, k) \<Longrightarrow> scalar c \<and> take k s = enc16 c \<and> k = length (enc16 c) \<and> 0 < k \<and> k \<le> length s"
proof (cases s)
  case (Cons w t)
  assume d: "dec16 s = Some (c, k)"
  show ?thesis
  proof (cases "unat w < 0xd800 \<or> 0xe000 \<le> unat w")
    case True
    with d Cons enc16_bmp [OF True] show ?thesis by (auto simp: One_nat_def)
  next
    case False
    then obtain v u where t: "t = v # u" "0xdc00 \<le> unat v" "unat v < 0xe000" "unat w < 0xdc00"
      "c = pair16 w v" "k = 2"
      using d Cons by (auto split: list.splits if_splits)
    let ?x = "unat w - 0xd800" and ?y = "unat v - 0xdc00"
    have xy: "?x < 1024" "?y < 1024" using t False by auto
    have n: "unat c = 0x10000 + ?x * 1024 + ?y" unfolding t(5) pair16_def using xy by (intro unat_u32) linarith
    have "scalar c" using xy by (simp add: scalar_def n)
    moreover have "enc16 c = [w, v]"
    proof -
      have "(unat c - 0x10000) div 1024 = ?x" "(unat c - 0x10000) mod 1024 = ?y"
        using xy by (simp_all add: n)
      then have "enc16 c = [of_nat (0xd800 + ?x), of_nat (0xdc00 + ?y)]"
        by (simp add: enc16_def Let_def n del: of_nat_add)
      moreover have "0xd800 + ?x = unat w" "0xdc00 + ?y = unat v" using t False by auto
      ultimately show ?thesis by simp
    qed
    ultimately show ?thesis using t Cons by (simp add: One_nat_def)
  qed
qed simp

lemma dec16_complete:
  assumes "scalar c"
  shows "dec16 (enc16 c @ r) = Some (c, length (enc16 c))"
proof (cases "unat c < 0x10000")
  case True
  then have "enc16 c = [ucast c]" by (rule enc16_small)
  moreover have u: "unat (ucast c :: u16) = unat c" using True by (simp add: unat_ucast)
  then have "ucast (ucast c :: u16) = c" by (simp add: word_unat_eq_iff unat_ucast_16)
  ultimately show ?thesis using True assms u by (auto simp: scalar_def One_nat_def)
next
  case False
  let ?m = "unat c - 0x10000"
  have m: "?m div 1024 < 1024" "?m mod 1024 < 1024" "unat c = 0x10000 + ?m" "?m < 0x100000"
    using assms False by (auto simp: scalar_def less_mult_imp_div_less)
  have e: "enc16 c = [of_nat (0xd800 + ?m div 1024), of_nat (0xdc00 + ?m mod 1024)]"
    using False by (simp add: enc16_def Let_def)
  have u: "unat (of_nat (0xd800 + ?m div 1024) :: u16) = 0xd800 + ?m div 1024"
    "unat (of_nat (0xdc00 + ?m mod 1024) :: u16) = 0xdc00 + ?m mod 1024"
    using m by (auto intro!: unat_u16 simp del: of_nat_add)
  have "0x10000 + ?m div 1024 * 1024 + ?m mod 1024 = unat c" using m(3) div_mult_mod_eq [of ?m 1024] by linarith
  then have "of_nat (0x10000 + ?m div 1024 * 1024 + ?m mod 1024) = c" by (metis of_nat_unat ucast_id)
  then show ?thesis unfolding e using m(1,2) u by (simp add: pair16_def del: of_nat_add)
qed

function dec16_all :: "u16 list \<Rightarrow> u32 list option" where
  "dec16_all s =
     (if s = [] then Some []
      else case dec16 s of None \<Rightarrow> None | Some (c, k) \<Rightarrow> map_option (Cons c) (dec16_all (drop k s)))"
  by pat_completeness auto
termination by (relation "measure length") (auto dest: dec16_sound)

declare dec16_all.simps [simp del]

lemma dec16_all_enc: "list_all scalar cs \<Longrightarrow> dec16_all (concat (map enc16 cs)) = Some cs"
proof (induction cs)
  case (Cons c cs)
  then show ?case
    using dec16_complete [of c "concat (map enc16 cs)"] by (subst dec16_all.simps) simp
qed (simp add: dec16_all.simps)

lemma dec16_all_Some: "dec16_all s = Some cs \<Longrightarrow> list_all scalar cs \<and> s = concat (map enc16 cs)"
proof (induction s arbitrary: cs rule: dec16_all.induct)
  case (1 s)
  show ?case
  proof (cases "s = []")
    case False
    with "1.prems" obtain c k cs' where *: "dec16 s = Some (c, k)" "dec16_all (drop k s) = Some cs'" "cs = c # cs'"
      by (subst (asm) dec16_all.simps) (auto split: option.splits)
    have "list_all scalar cs' \<and> drop k s = concat (map enc16 cs')"
      using "1.IH" [OF False *(1) refl *(2)] .
    moreover have "scalar c" "take k s = enc16 c" using dec16_sound [OF *(1)] by auto
    moreover have "s = take k s @ drop k s" by simp
    ultimately show ?thesis using *(3) by simp
  qed (use "1.prems" in \<open>simp add: dec16_all.simps\<close>)
qed

definition utf16_text :: "u16 list \<Rightarrow> bool" where
  "utf16_text s \<longleftrightarrow> (\<exists>cs. list_all scalar cs \<and> s = concat (map enc16 cs))"

lemma dec16_all_None: "dec16_all s = None \<longleftrightarrow> \<not> utf16_text s"
  by (metis dec16_all_Some dec16_all_enc option.exhaust option.distinct(1) utf16_text_def)

text \<open>The tests on units.\<close>

lemma tests16:
  "w AND 0xf800 = 0xd800 \<longleftrightarrow> 0xd800 \<le> unat w \<and> unat w < 0xe000"
  "w AND 0xff80 = 0 \<longleftrightarrow> unat w < 0x80" "w AND 0xf800 = 0 \<longleftrightarrow> unat w < 0x800"
  "w AND 0xfc00 = 0xdc00 \<longleftrightarrow> 0xdc00 \<le> unat w \<and> unat w < 0xe000"
  "w AND 0xff00 = 0 \<longleftrightarrow> unat w < 0x100"
  "0x3ff < w - 0xdc00 \<longleftrightarrow> \<not> (0xdc00 \<le> unat w \<and> unat w < 0xe000)"
  "0xd800 \<le> unat w \<and> unat w < 0xe000 \<Longrightarrow> 0x3ff < w - 0xd800 \<longleftrightarrow> 0xdc00 \<le> unat w" for w :: u16
proof -
  have *: "x AND y = z \<longleftrightarrow> unat (x AND y) = unat z" for x y z :: u16 by (simp add: word_unat_eq_iff)
  note b = u16_bound [of w]
  show "w AND 0xf800 = 0xd800 \<longleftrightarrow> 0xd800 \<le> unat w \<and> unat w < 0xe000"
  "w AND 0xff80 = 0 \<longleftrightarrow> unat w < 0x80" "w AND 0xf800 = 0 \<longleftrightarrow> unat w < 0x800"
  "w AND 0xfc00 = 0xdc00 \<longleftrightarrow> 0xdc00 \<le> unat w \<and> unat w < 0xe000"
  "w AND 0xff00 = 0 \<longleftrightarrow> unat w < 0x100"
  unfolding * unfolding high_masks unat_and_high unfolding high_masks [symmetric]
  by (simp_all add: One_nat_def, linarith+)
  show "0x3ff < w - 0xdc00 \<longleftrightarrow> \<not> (0xdc00 \<le> unat w \<and> unat w < 0xe000)"
    using b by (simp add: word_less_nat_alt unat_sub_if' One_nat_def) linarith
  show "0xd800 \<le> unat w \<and> unat w < 0xe000 \<Longrightarrow> 0x3ff < w - 0xd800 \<longleftrightarrow> 0xdc00 \<le> unat w"
    using b by (simp add: word_less_nat_alt unat_sub_if' One_nat_def) linarith
qed

section \<open>The wide test on units\<close>

lemma drop_and_zero: "drop_bit k v AND m = 0 \<longleftrightarrow> v AND push_bit k m = 0" for v m :: "'a::len word"
proof -
  let ?x = "v AND push_bit k m"
  have "drop_bit k v AND m = drop_bit k ?x"
    by (rule bit_eqI) (auto simp: bit_simps dest: bit_imp_le_length)
  moreover have "?x = push_bit k (drop_bit k ?x)"
    by (rule bit_eqI) (auto simp: bit_simps)
  ultimately show ?thesis by (metis drop_bit_of_0 push_bit_of_0)
qed

lemma push_and_zero: "push_bit k v AND m = 0 \<longleftrightarrow> v AND drop_bit k m = 0" for v m :: "'a::len word"
proof -
  let ?x = "v AND drop_bit k m"
  have "push_bit k v AND m = push_bit k ?x"
    by (rule bit_eqI) (auto simp: bit_simps)
  moreover have "?x = drop_bit k (push_bit k ?x)"
    by (rule bit_eqI) (auto simp: bit_simps dest: bit_imp_le_length)
  ultimately show ?thesis by (metis drop_bit_of_0 push_bit_of_0)
qed

lemma rotated_test:
  "(drop_bit 8 v OR push_bit 56 v) AND 0xff80ff80ff80ff80 = 0 \<longleftrightarrow> v AND 0x80ff80ff80ff80ff = 0" for v :: u64
proof -
  have "(drop_bit 8 v OR push_bit 56 v) AND 0xff80ff80ff80ff80 = 0 \<longleftrightarrow>
      v AND push_bit 8 0xff80ff80ff80ff80 = 0 \<and> v AND drop_bit 56 0xff80ff80ff80ff80 = 0"
    by (simp only: bit.conj_disj_distrib2 or_zero_iff drop_and_zero push_and_zero)
  also have "\<dots> \<longleftrightarrow> v AND (push_bit 8 0xff80ff80ff80ff80 OR drop_bit 56 0xff80ff80ff80ff80) = 0"
    by (simp only: bit.conj_disj_distrib or_zero_iff)
  also have "push_bit 8 0xff80ff80ff80ff80 OR drop_bit 56 0xff80ff80ff80ff80 = (0x80ff80ff80ff80ff :: u64)"
    by (simp add: One_nat_def)
  finally show ?thesis .
qed

lemma swapped_test: "w AND 0x80ff = 0 \<longleftrightarrow> utf_swap_uint16 w AND 0xff80 = 0" for w :: u16
proof -
  have "utf_swap_uint16 w AND 0xff80 = utf_swap_uint16 (w AND 0x80ff)"
  proof -
    have "(0xff80 :: u16) = utf_swap_uint16 0x80ff" by (simp add: utf_swap_uint16_def One_nat_def)
    moreover have "utf_swap_uint16 x AND utf_swap_uint16 y = utf_swap_uint16 (x AND y)" for x y
      unfolding utf_swap_uint16_def low_masks high_masks
      by (rule bit_eqI) (auto simp: bit_simps)
    ultimately show ?thesis by metis
  qed
  moreover have "utf_swap_uint16 x = 0 \<longleftrightarrow> x = 0" for x
    by (metis swap16_swap16 utf_swap_uint16_def and_zero_eq zero_and_eq drop_bit_of_0 push_bit_of_0 or.left_neutral)
  ultimately show ?thesis by simp
qed

lemma ascii4_iff:
  "ascii4 host data pos =
     Some (pos + 4 \<le> length data \<and> list_all (\<lambda>w. unat (le16 host w) < 0x80) (take 4 (drop pos data)))"
proof (cases "pos + 4 \<le> length data")
  case True
  let ?ws = "take 4 (drop pos data)"
  have l: "length ?ws = 4" using True by simp
  then have ne: "?ws \<noteq> []" "rev ?ws \<noteq> []" by (metis length_0_conv zero_neq_numeral, metis l length_0_conv rev_is_Nil_conv zero_neq_numeral)
  show ?thesis
  proof (cases "utf_is_be host")
    case be: True
    have "pack64 (rev ?ws) AND 0x80ff80ff80ff80ff = 0 \<longleftrightarrow> (\<forall>w\<in>set ?ws. w AND 0x80ff = 0)"
      using pack64_mask [of "rev ?ws" "0x80ff :: u16"] l ne by (simp add: masks64(2))
    also have "\<dots> \<longleftrightarrow> list_all (\<lambda>w. unat (le16 host w) < 0x80) ?ws"
      using be by (simp add: list_all_iff swapped_test tests16 le16_def)
    finally show ?thesis using True be by (simp add: ascii4_def memcpy64_slice rotated_test)
  next
    case le: False
    have "pack64 ?ws AND 0xff80ff80ff80ff80 = 0 \<longleftrightarrow> (\<forall>w\<in>set ?ws. w AND 0xff80 = 0)"
      using pack64_mask [of "?ws" "0xff80 :: u16"] l ne by (simp add: masks64(3))
    also have "\<dots> \<longleftrightarrow> list_all (\<lambda>w. unat (le16 host w) < 0x80) ?ws"
      using le by (simp add: list_all_iff tests16 le16_def)
    finally show ?thesis using True le by (simp add: ascii4_def memcpy64_slice)
  qed
qed (simp add: ascii4_def)

section \<open>Validation and conversion to UTF-32\<close>

lemma surrogate_value:
  fixes w v :: u16
  assumes "0xd800 \<le> unat w" "0xdc00 \<le> unat v"
  shows "surrogate_pair (w - 0xd800) v = pair16 w v"
proof -
  have "unat (w - 0xd800) = unat w - 0xd800"
    using assms by (subst unat_sub) (auto simp: word_le_nat_alt One_nat_def)
  then have "(ucast (w - 0xd800) :: u32) = of_nat (unat w - 0xd800)"
    by (metis of_nat_unat)
  moreover have "(ucast v :: u32) - 0xdc00 = of_nat (unat v - 0xdc00)"
    using assms(2) by (simp add: of_nat_diff)
  ultimately show ?thesis by (simp add: push_bit_eq_mult surrogate_pair_def pair16_def)
qed

lemma utf16_to_utf32_step:
  assumes "s \<noteq> []"
  shows "utf16_to_utf32 host (pre @ s) (length pre) out =
    (case dec16 (map (le16 host) s) of None \<Rightarrow> Some (0, out)
     | Some (c, k) \<Rightarrow> utf16_to_utf32 host (pre @ s) (length pre + k) (out @ [c]))"
proof -
  obtain w t where s: "s = w # t" using assms by (cases s) auto
  show ?thesis
  proof (cases t)
    case Nil
    show ?thesis unfolding s Nil
      by (subst utf16_to_utf32.simps) (simp add: tests16 Let_def)
  next
    case (Cons v u)
    show ?thesis unfolding s Cons
      using surrogate_value [of "le16 host w" "le16 host v"]
      by (subst utf16_to_utf32.simps) (auto simp add: tests16 Let_def)
  qed
qed

lemma utf16le_validate_step:
  assumes "s \<noteq> []"
  shows "utf16le_validate_from host (pre @ s) (length pre) =
    (case dec16 (map (le16 host) s) of None \<Rightarrow> Some False
     | Some (c, k) \<Rightarrow> utf16le_validate_from host (pre @ s) (length pre + k))"
proof -
  obtain w t where s: "s = w # t" using assms by (cases s) auto
  show ?thesis
  proof (cases t)
    case Nil
    show ?thesis unfolding s Nil
      by (subst utf16le_validate_from.simps) (simp add: tests16 Let_def)
  next
    case (Cons v u)
    show ?thesis unfolding s Cons
      by (subst utf16le_validate_from.simps) (auto simp add: tests16 Let_def)
  qed
qed

lemma unit_tests:
  "utf32_length_from_utf16le host s = 1 + utf32_length_from_utf16le host (drop k s)"
  if "dec16 (map (le16 host) s) = Some (c, k)"
proof -
  from that have "s \<noteq> []" by auto
  then obtain w t where s: "s = w # t" by (cases s) auto
  show ?thesis
  proof (cases t)
    case Nil
    then show ?thesis using that s by (auto simp: tests16 split: if_splits)
  next
    case (Cons v u)
    then show ?thesis using that s by (auto simp: tests16 split: if_splits)
  qed
qed

lemma dec16_map_len: "dec16 (map (le16 host) s) = Some (c, k) \<Longrightarrow> 0 < k \<and> k \<le> length s"
  using dec16_sound by fastforce

lemma utf16_to_utf32_result:
  "converted (dec16_all (map (le16 host) s)) (utf32_length_from_utf16le host s) out id
     (utf16_to_utf32 host (pre @ s) (length pre) out)"
proof (induction "length s" arbitrary: s pre out rule: less_induct)
  case less
  show ?case
  proof (cases "s = []")
    case True
    then show ?thesis by (subst utf16_to_utf32.simps) (simp add: converted_def dec16_all.simps)
  next
    case False
    show ?thesis
    proof (cases "dec16 (map (le16 host) s)")
      case None
      then have "dec16_all (map (le16 host) s) = None" using False by (subst dec16_all.simps) simp
      then show ?thesis using utf16_to_utf32_step [OF False] None by (simp add: converted_def)
    next
      case (Some p)
      obtain c k where p: "dec16 (map (le16 host) s) = Some (c, k)" using Some by (cases p) auto
      note k = dec16_map_len [OF p]
      let ?a = "take k s" and ?s = "drop k s"
      have "converted (dec16_all (map (le16 host) ?s)) (utf32_length_from_utf16le host ?s) (out @ [c]) id
          (utf16_to_utf32 host ((pre @ ?a) @ ?s) (length (pre @ ?a)) (out @ [c]))"
        by (rule less) (use k in auto)
      moreover have "dec16_all (map (le16 host) s) = map_option (Cons c) (dec16_all (map (le16 host) ?s))"
        using False p by (subst dec16_all.simps) (simp add: drop_map)
      moreover have "length (pre @ ?a) = length pre + k" "(pre @ ?a) @ ?s = pre @ s" using k by simp_all
      ultimately show ?thesis
        using utf16_to_utf32_step [OF False] p unit_tests [OF p]
        by (cases "dec16_all (map (le16 host) ?s)") (auto simp: converted_def)
    qed
  qed
qed

lemma dec16_all_text: "dec16_all s = Some cs \<Longrightarrow> utf16_text s"
  using dec16_all_Some by (auto simp: utf16_text_def)

lemma utf16_text_dec16:
  "s \<noteq> [] \<Longrightarrow> utf16_text s \<longleftrightarrow> (case dec16 s of None \<Rightarrow> False | Some (c, k) \<Rightarrow> utf16_text (drop k s))"
  using dec16_all_None [of s] dec16_all.simps [of s]
  by (auto simp: dec16_all_None dest: dec16_all_text split: option.splits)

lemma utf16_text_Nil: "utf16_text []"
  by (auto simp: utf16_text_def intro!: exI [of _ "[]"])

lemma utf16le_validate_from_result:
  "utf16le_validate_from host (pre @ s) (length pre) = Some (utf16_text (map (le16 host) s))"
proof (induction "length s" arbitrary: s pre rule: less_induct)
  case less
  show ?case
  proof (cases "s = []")
    case True
    then show ?thesis by (subst utf16le_validate_from.simps) (simp add: utf16_text_Nil)
  next
    case False
    then have ne: "map (le16 host) s \<noteq> []" by simp
    show ?thesis
    proof (cases "dec16 (map (le16 host) s)")
      case None
      then show ?thesis using utf16le_validate_step [OF False] utf16_text_dec16 [OF ne] by simp
    next
      case (Some p)
      obtain c k where p: "dec16 (map (le16 host) s) = Some (c, k)" using Some by (cases p) auto
      note k = dec16_map_len [OF p]
      let ?a = "take k s" and ?s = "drop k s"
      have "utf16le_validate_from host ((pre @ ?a) @ ?s) (length (pre @ ?a)) = Some (utf16_text (map (le16 host) ?s))"
        by (rule less) (use k in auto)
      moreover have "length (pre @ ?a) = length pre + k" "(pre @ ?a) @ ?s = pre @ s" using k by simp_all
      ultimately show ?thesis
        using utf16le_validate_step [OF False] p utf16_text_dec16 [OF ne] by (simp add: drop_map)
    qed
  qed
qed

section \<open>Writing UTF-8\<close>

lemma byte_or:
  fixes w :: "'a::len word"
  assumes "8 \<le> LENGTH('a)" "unat w < 2 ^ k" "m * 2 ^ k + 2 ^ k \<le> 256"
  shows "unat (ucast (w OR of_nat (m * 2 ^ k)) :: u8) = m * 2 ^ k + unat w"
proof -
  have "(256::nat) \<le> 2 ^ LENGTH('a)" using power_increasing [OF assms(1), of "2::nat"] by simp
  moreover have "0 < (2::nat) ^ k" by simp
  ultimately have "m * 2 ^ k < 2 ^ LENGTH('a)" using assms(3) by linarith
  then have "unat (of_nat (m * 2 ^ k) :: 'a word) = m * 2 ^ k" by (rule unat_of_nat_small)
  then have "unat (w OR of_nat (m * 2 ^ k)) = m * 2 ^ k + unat w"
    using or_plus_nat [OF assms(2), of m] by (simp only: unsigned_or_eq or.commute push_bit_eq_mult)
  then show ?thesis using assms(2,3) by (simp add: unat_ucast)
qed

lemma utf8_units:
  fixes w :: "'a::len word"
  assumes "8 \<le> LENGTH('a)"
  shows "unat w < 32 \<Longrightarrow> unat (ucast (w OR 0xc0) :: u8) = 0xc0 + unat w"
    "unat w < 16 \<Longrightarrow> unat (ucast (w OR 0xe0) :: u8) = 0xe0 + unat w"
    "unat w < 8 \<Longrightarrow> unat (ucast (w OR 0xf0) :: u8) = 0xf0 + unat w"
    "unat (ucast (w AND 0x3f OR 0x80) :: u8) = 0x80 + unat w mod 64"
proof -
  show "unat w < 32 \<Longrightarrow> unat (ucast (w OR 0xc0) :: u8) = 0xc0 + unat w"
    using byte_or [OF assms, of w 5 6] by simp
  show "unat w < 16 \<Longrightarrow> unat (ucast (w OR 0xe0) :: u8) = 0xe0 + unat w"
    using byte_or [OF assms, of w 4 14] by simp
  show "unat w < 8 \<Longrightarrow> unat (ucast (w OR 0xf0) :: u8) = 0xf0 + unat w"
    using byte_or [OF assms, of w 3 30] by simp
  have "unat (w AND 0x3f) = unat w mod 64" by (simp only: low_masks unat_and_low) simp
  then show "unat (ucast (w AND 0x3f OR 0x80) :: u8) = 0x80 + unat w mod 64"
    using byte_or [OF assms, of "w AND 0x3f" 6 2] by simp
qed

text \<open>The bytes of a code point \<open>c\<close> that is held in a word \<open>w\<close>.\<close>

lemma enc8_units:
  fixes w :: "'a::len word" and c :: u32
  assumes "8 \<le> LENGTH('a)" "unat c = unat w"
  shows "unat w < 0x80 \<Longrightarrow> enc8 c = [ucast w]"
    "0x80 \<le> unat w \<Longrightarrow> unat w < 0x800 \<Longrightarrow> enc8 c = [ucast (drop_bit 6 w OR 0xc0), ucast (w AND 0x3f OR 0x80)]"
    "0x800 \<le> unat w \<Longrightarrow> unat w < 0x10000 \<Longrightarrow> enc8 c =
       [ucast (drop_bit 12 w OR 0xe0), ucast (drop_bit 6 w AND 0x3f OR 0x80), ucast (w AND 0x3f OR 0x80)]"
    "0x10000 \<le> unat w \<Longrightarrow> unat w < 0x110000 \<Longrightarrow> enc8 c =
       [ucast (drop_bit 18 w OR 0xf0), ucast (drop_bit 12 w AND 0x3f OR 0x80),
        ucast (drop_bit 6 w AND 0x3f OR 0x80), ucast (w AND 0x3f OR 0x80)]"
proof -
  have d: "unat (drop_bit 6 w) = unat w div 64" "unat (drop_bit 12 w) = unat w div 4096"
    "unat (drop_bit 18 w) = unat w div 262144" by (simp_all only: unat_drop) simp_all
  show "unat w < 0x80 \<Longrightarrow> enc8 c = [ucast w]"
    using assms by (intro enc8_digits(1)) (auto simp: unat_ucast)
  show "0x80 \<le> unat w \<Longrightarrow> unat w < 0x800 \<Longrightarrow> enc8 c = [ucast (drop_bit 6 w OR 0xc0), ucast (w AND 0x3f OR 0x80)]"
    using assms utf8_units [OF assms(1)] d
    by (intro enc8_digits(2)) (auto simp: less_mult_imp_div_less)
  show "0x800 \<le> unat w \<Longrightarrow> unat w < 0x10000 \<Longrightarrow> enc8 c =
       [ucast (drop_bit 12 w OR 0xe0), ucast (drop_bit 6 w AND 0x3f OR 0x80), ucast (w AND 0x3f OR 0x80)]"
    using assms utf8_units [OF assms(1)] d
    by (intro enc8_digits(3)) (auto simp: less_mult_imp_div_less)
  show "0x10000 \<le> unat w \<Longrightarrow> unat w < 0x110000 \<Longrightarrow> enc8 c =
       [ucast (drop_bit 18 w OR 0xf0), ucast (drop_bit 12 w AND 0x3f OR 0x80),
        ucast (drop_bit 6 w AND 0x3f OR 0x80), ucast (w AND 0x3f OR 0x80)]"
    using assms utf8_units [OF assms(1)] d
    by (intro enc8_digits(4)) (auto simp: less_mult_imp_div_less)
qed
end
