(* ===== verification/Libutf_Convert.thy ===== *)
theory Libutf_Convert
  imports Libutf16
begin

text \<open>
  The conversions of \<open>libutf\<close> from UTF-16 and UTF-32 to UTF-8, from UTF-32 to UTF-16 and those of
  Latin-1, and the properties of the library.
\<close>

section \<open>UTF-16 to UTF-8\<close>

lemma utf16_to_utf8_step:
  assumes "s \<noteq> []" and slow: "\<not> (4 \<le> length s \<and> list_all (\<lambda>w. unat (le16 host w) < 0x80) (take 4 s))"
    and d: "dec16 (map (le16 host) s) = Some (c, k)"
  shows "utf16_to_utf8 host (pre @ s) (length pre) out =
    utf16_to_utf8 host (pre @ s) (length pre + k) (out @ enc8 c)"
proof -
  obtain w t where s: "s = w # t" using assms by (cases s) auto
  let ?w = "le16 host w"
  have fast: "ascii4 host (pre @ w # t) (length pre) = Some False"
    using slow s by (auto simp: ascii4_iff)
  note start = utf16_to_utf8.simps [of host "pre @ w # t" "length pre" out]
  have L: "8 \<le> LENGTH(16)" "8 \<le> LENGTH(32)" by simp_all
  note u = enc8_units [where w = ?w and c = "ucast ?w", OF L(1) unat_ucast_16]
  show ?thesis
  proof (cases "unat ?w < 0xd800 \<or> 0xe000 \<le> unat ?w")
    case True
    then have c: "c = ucast ?w" "k = 1" using d s by auto
    have n: "?w AND 0xf800 \<noteq> 0xd800" using True by (auto simp: tests16)
    consider "unat ?w < 0x80" | "0x80 \<le> unat ?w" "unat ?w < 0x800" | "0x800 \<le> unat ?w" by linarith
    then show ?thesis
    proof cases
      case 1 then show ?thesis unfolding c s using True by (subst start) (simp add: fast tests16 u(1) Let_def)
    next
      case 2 then show ?thesis unfolding c s using True by (subst start) (simp add: fast tests16 u(2) Let_def)
    next
      case 3 then show ?thesis unfolding c s using n u16_bound [of ?w]
        by (subst start) (simp add: fast tests16(2-) u(3) Let_def)
    qed
  next
    case False
    then obtain v r where t: "t = v # r" "0xdc00 \<le> unat (le16 host v)" "unat (le16 host v) < 0xe000"
      "unat ?w < 0xdc00" "c = pair16 ?w (le16 host v)" "k = 2"
      using d s by (auto split: list.splits if_splits)
    have v: "surrogate_pair (?w - 0xd800) (le16 host v) = c"
      unfolding t(5) using False t(2) by (intro surrogate_value) auto
    have "0x10000 \<le> unat c" "unat c < 0x110000"
      unfolding t(5) pair16_def using t False by (subst unat_u32; linarith)+
    then have e: "enc8 c = [ucast (drop_bit 18 c OR 0xf0), ucast (drop_bit 12 c AND 0x3f OR 0x80),
        ucast (drop_bit 6 c AND 0x3f OR 0x80), ucast (c AND 0x3f OR 0x80)]"
      by (intro enc8_units(4) L(2)) auto
    show ?thesis unfolding s t(6) e using False t(1,2,4) fast [unfolded t(1)]
      by (subst start) (simp add: tests16 v Let_def)
  qed
qed

lemma length_enc8: "length (enc8 c) = 1 + (if 0x80 \<le> unat c then 1 else 0) + (if 0x800 \<le> unat c then 1 else 0) +
    (if 0x10000 \<le> unat c then 1 else 0)"
  by (simp add: enc8_def Let_def One_nat_def)

lemma length_tests16:
  "w \<le> 0x7f \<longleftrightarrow> unat w < 0x80" "w \<le> 0x7ff \<longleftrightarrow> unat w < 0x800" "w \<le> 0xd7ff \<longleftrightarrow> unat w < 0xd800"
  "0xe000 \<le> w \<longleftrightarrow> 0xe000 \<le> unat w" for w :: u16
  by (auto simp: word_le_nat_alt One_nat_def)

lemma utf8_length_dec16:
  assumes "dec16 (map (le16 host) s) = Some (c, k)"
  shows "utf8_length_from_utf16le host s = length (enc8 c) + utf8_length_from_utf16le host (drop k s)"
proof -
  from assms have "s \<noteq> []" by auto
  then obtain w t where s: "s = w # t" by (cases s) auto
  let ?w = "le16 host w"
  show ?thesis
  proof (cases "unat ?w < 0xd800 \<or> 0xe000 \<le> unat ?w")
    case True
    then have "c = ucast ?w" "k = 1" using assms s by auto
    with s True u16_bound [of ?w] show ?thesis
      by (auto simp: length_tests16 length_enc8 unat_ucast_16 Let_def)
  next
    case False
    then obtain v r where t: "t = v # r" "0xdc00 \<le> unat (le16 host v)" "unat (le16 host v) < 0xe000"
      "unat ?w < 0xdc00" "c = pair16 ?w (le16 host v)" "k = 2"
      using assms s by (auto split: list.splits if_splits)
    have "0x10000 \<le> unat c"
      unfolding t(5) pair16_def using t False by (subst unat_u32; linarith)+
    with s t False show ?thesis by (auto simp: length_tests16 length_enc8 Let_def)
  qed
qed

lemma dec16_all_ascii:
  "list_all (\<lambda>w. unat (le16 host w) < 0x80) a \<Longrightarrow>
   dec16_all (map (le16 host) (a @ s)) = map_option (\<lambda>cs. map (\<lambda>w. ucast (le16 host w)) a @ cs) (dec16_all (map (le16 host) s))"
proof (induction a)
  case Nil
  then show ?case by (cases "dec16_all (map (le16 host) s)") auto
next
  case (Cons w a)
  then have "dec16 (map (le16 host) ((w # a) @ s)) = Some (ucast (le16 host w), 1)" by simp
  with Cons show ?case
    by (subst dec16_all.simps) (cases "dec16_all (map (le16 host) s)", auto simp del: dec16.simps)
qed

lemma utf8_length_ascii16:
  "list_all (\<lambda>w. unat (le16 host w) < 0x80) a \<Longrightarrow>
   utf8_length_from_utf16le host (a @ s) = length a + utf8_length_from_utf16le host s"
  by (induction a) (auto simp: length_tests16)

lemma enc8_ascii16:
  "list_all (\<lambda>w. unat (le16 host w) < 0x80) a \<Longrightarrow>
   concat (map enc8 (map (\<lambda>w. ucast (le16 host w)) a)) = map (\<lambda>w. ucast (le16 host w)) a"
  using enc8_units(1) [OF _ unat_ucast_16] by (induction a) auto

lemma utf16_to_utf8_result:
  "dec16_all (map (le16 host) s) = Some cs \<Longrightarrow>
   utf16_to_utf8 host (pre @ s) (length pre) out =
     Some (length out + length (concat (map enc8 cs)), out @ concat (map enc8 cs)) \<and>
   utf8_length_from_utf16le host s = length (concat (map enc8 cs))"
proof (induction "length s" arbitrary: s pre out cs rule: less_induct)
  case less
  show ?case
  proof (cases "s = []")
    case True
    with less.prems show ?thesis by (subst utf16_to_utf8.simps) (simp add: dec16_all.simps)
  next
    case False
    show ?thesis
    proof (cases "4 \<le> length s \<and> list_all (\<lambda>w. unat (le16 host w) < 0x80) (take 4 s)")
      case True
      let ?a = "take 4 s" and ?s = "drop 4 s"
      let ?w = "map (\<lambda>w. ucast (le16 host w)) ?a"
      have "map_option (\<lambda>cs. ?w @ cs) (dec16_all (map (le16 host) ?s)) = Some cs"
        using dec16_all_ascii [of host ?a ?s] True less.prems unfolding append_take_drop_id by metis
      then obtain cs' where cs': "dec16_all (map (le16 host) ?s) = Some cs'" "cs = ?w @ cs'"
        by (auto simp: map_option_case split: option.splits)
      have sz: "length s - 4 < length s" using True by linarith
      have "utf16_to_utf8 host ((pre @ ?a) @ ?s) (length (pre @ ?a)) (out @ ?w) =
          Some (length (out @ ?w) + length (concat (map enc8 cs')), (out @ ?w) @ concat (map enc8 cs')) \<and>
        utf8_length_from_utf16le host ?s = length (concat (map enc8 cs'))"
        by (rule less) (use sz cs' in auto)
      moreover have "concat (map enc8 cs) = ?w @ concat (map enc8 cs')"
        using cs'(2) enc8_ascii16 [of host ?a] True by simp
      moreover have "utf8_length_from_utf16le host s = 4 + utf8_length_from_utf16le host ?s"
        using utf8_length_ascii16 [of host ?a ?s] True by simp
      ultimately show ?thesis using True False
        by (subst utf16_to_utf8.simps) (simp add: ascii4_iff mem_slice_def add.commute)
    next
      case slow: False
      obtain c k cs' where p: "dec16 (map (le16 host) s) = Some (c, k)"
          "dec16_all (map (le16 host) (drop k s)) = Some cs'" "cs = c # cs'"
        using less.prems False by (subst (asm) dec16_all.simps) (auto simp: drop_map split: option.splits)
      note k = dec16_map_len [OF p(1)]
      let ?a = "take k s" and ?s = "drop k s"
      have "utf16_to_utf8 host ((pre @ ?a) @ ?s) (length (pre @ ?a)) (out @ enc8 c) =
          Some (length (out @ enc8 c) + length (concat (map enc8 cs')), (out @ enc8 c) @ concat (map enc8 cs')) \<and>
        utf8_length_from_utf16le host ?s = length (concat (map enc8 cs'))"
        by (rule less) (use k p in auto)
      then show ?thesis
        using utf16_to_utf8_step [OF False slow p(1), of pre out] utf8_length_dec16 [OF p(1)] p(3) k by simp
    qed
  qed
qed

end
