(* ===== verification/Libutf32.thy ===== *)
theory Libutf32
  imports Libutf_Convert
begin

text \<open>
  The conversions of \<open>libutf\<close> from UTF-32, and those from and to Latin-1: a conversion writes the
  encoding of the code points before the first ill-formed one, and returns its length if there is none.
\<close>

section \<open>Tests on code points\<close>

lemma tests32:
  "w AND 0xffffff80 = 0 \<longleftrightarrow> unat w < 0x80" "w AND 0xfffff800 = 0 \<longleftrightarrow> unat w < 0x800"
  "w AND 0xffff0000 = 0 \<longleftrightarrow> unat w < 0x10000" "w AND 0xffffff00 = 0 \<longleftrightarrow> unat w < 0x100" for w :: u32
proof -
  have *: "x AND y = z \<longleftrightarrow> unat (x AND y) = unat z" for x y z :: u32 by (simp add: word_unat_eq_iff)
  show "w AND 0xffffff80 = 0 \<longleftrightarrow> unat w < 0x80" "w AND 0xfffff800 = 0 \<longleftrightarrow> unat w < 0x800"
  "w AND 0xffff0000 = 0 \<longleftrightarrow> unat w < 0x10000" "w AND 0xffffff00 = 0 \<longleftrightarrow> unat w < 0x100"
  unfolding * unfolding high_masks unat_and_high unfolding high_masks [symmetric]
  by (simp_all add: One_nat_def, linarith+)
qed

lemma ascii2_iff:
  "ascii2 host data pos =
     Some (pos + 2 \<le> length data \<and> list_all (\<lambda>w. unat w < 0x80) (take 2 (drop pos data)))"
proof (cases "pos + 2 \<le> length data")
  case True
  let ?ws = "take 2 (drop pos data)"
  have l: "length ?ws = 2" using True by simp
  then have ne: "?ws \<noteq> []" by (metis length_0_conv zero_neq_numeral)
  have "pack64 ws AND 0xffffff80ffffff80 = 0 \<longleftrightarrow> list_all (\<lambda>w. unat w < 0x80) ws"
    if "length ws = 2" "ws \<noteq> []" for ws :: "u32 list"
    using pack64_mask [of ws "0xffffff80 :: u32"] that by (simp add: masks64(4) list_all_iff tests32)
  from this [of ?ws] this [of "rev ?ws"] show ?thesis using True l ne
    by (simp add: ascii2_def memcpy64_slice)
qed (simp add: ascii2_def)

lemma scalar_tests:
  "scalar c \<longleftrightarrow> \<not> (0x10ffff < c \<or> 0xd800 \<le> c \<and> c \<le> 0xdfff)" for c :: u32
  by (auto simp: scalar_def cp_tests)

lemma utf32_validate_iff: "utf32_validate data \<longleftrightarrow> list_all scalar data"
  by (induction data) (auto simp: scalar_tests)

section \<open>UTF-32 to UTF-8\<close>

lemma utf32_to_utf8_step:
  assumes slow: "\<not> (2 \<le> length (w # s) \<and> list_all (\<lambda>w. unat w < 0x80) (take 2 (w # s)))"
  shows "utf32_to_utf8 host (pre @ w # s) (length pre) out =
    (if scalar w then utf32_to_utf8 host (pre @ w # s) (length pre + 1) (out @ enc8 w) else Some (0, out))"
proof -
  have fast: "ascii2 host (pre @ w # s) (length pre) = Some False"
    using slow by (auto simp: ascii2_iff)
  note start = utf32_to_utf8.simps [of host "pre @ w # s" "length pre" out]
  have L: "8 \<le> LENGTH(32)" by simp
  note u = enc8_units [OF L refl, of w]
  consider "unat w < 0x80" | "0x80 \<le> unat w" "unat w < 0x800" | "0x800 \<le> unat w" "unat w < 0x10000"
    | "0x10000 \<le> unat w" by linarith
  then show ?thesis
  proof cases
    case 1 then show ?thesis by (subst start) (simp add: fast tests32 u(1) scalar_def)
  next
    case 2 then show ?thesis by (subst start) (simp add: fast tests32 u(2) scalar_def)
  next
    case 3 then show ?thesis by (subst start) (auto simp: fast tests32 u(3) scalar_def cp_tests)
  next
    case 4 then show ?thesis by (subst start) (auto simp: fast tests32 u(4) scalar_def cp_tests)
  qed
qed

lemma enc8_ascii32: "list_all (\<lambda>w. unat w < 0x80) a \<Longrightarrow> concat (map enc8 a) = map ucast a"
proof -
  have L: "8 \<le> LENGTH(32)" by simp
  show "list_all (\<lambda>w. unat w < 0x80) a \<Longrightarrow> concat (map enc8 a) = map ucast a"
    using enc8_units(1) [OF L refl] by (induction a) auto
qed

lemma utf32_to_utf8_result:
  "utf32_to_utf8 host (pre @ s) (length pre) out =
     Some (if list_all scalar s then length out + length (concat (map enc8 s)) else 0,
           out @ concat (map enc8 (takeWhile scalar s)))"
proof (induction "length s" arbitrary: s pre out rule: less_induct)
  case less
  show ?case
  proof (cases s)
    case Nil
    then show ?thesis by (subst utf32_to_utf8.simps) simp
  next
    case (Cons w t)
    show ?thesis
    proof (cases "2 \<le> length s \<and> list_all (\<lambda>w. unat w < 0x80) (take 2 s)")
      case True
      let ?a = "take 2 s" and ?s = "drop 2 s"
      have a: "list_all scalar ?a" using True by (auto simp: list_all_iff scalar_def)
      have "list_all scalar s = list_all scalar ?s"
        using a list_all_append [of scalar ?a ?s] by simp
      moreover have "takeWhile scalar s = ?a @ takeWhile scalar ?s"
        using a takeWhile_append2 [of ?a scalar ?s] by (simp add: list_all_iff)
      then have "concat (map enc8 (takeWhile scalar s)) = concat (map enc8 ?a) @ concat (map enc8 (takeWhile scalar ?s))"
        by simp
      moreover have "utf32_to_utf8 host ((pre @ ?a) @ ?s) (length (pre @ ?a)) (out @ map ucast ?a) =
        Some (if list_all scalar ?s then length (out @ map ucast ?a) + length (concat (map enc8 ?s)) else 0,
              (out @ map ucast ?a) @ concat (map enc8 (takeWhile scalar ?s)))"
        by (rule less) (use True in auto)
      moreover have e: "concat (map enc8 ?a) = map ucast ?a" by (rule enc8_ascii32) (use True in blast)
      moreover have "concat (map enc8 s) = map ucast ?a @ concat (map enc8 ?s)"
        using e by (metis append_take_drop_id concat_append map_append)
      moreover have "s \<noteq> []" using Cons by simp
      ultimately show ?thesis using True
        by (subst utf32_to_utf8.simps) (simp add: ascii2_iff mem_slice_def add.commute)
    next
      case False
      have "utf32_to_utf8 host ((pre @ [w]) @ t) (length (pre @ [w])) (out @ enc8 w) =
        Some (if list_all scalar t then length (out @ enc8 w) + length (concat (map enc8 t)) else 0,
              (out @ enc8 w) @ concat (map enc8 (takeWhile scalar t)))"
        by (rule less) (use Cons in auto)
      then show ?thesis using False utf32_to_utf8_step [of w t host pre out] Cons
        by (simp add: add.commute One_nat_def)
    qed
  qed
qed

lemma utf8_length_from_utf32_enc: "utf8_length_from_utf32 s = length (concat (map enc8 s))"
  by (induction s) (auto simp: length_enc8 cp_tests word_less_nat_alt)

section \<open>UTF-32 to UTF-16\<close>

lemma utf32_to_utf16_result:
  "utf32_to_utf16 host s out =
     (if list_all scalar s then length out + length (concat (map enc16 s)) else 0,
      out @ map (le16 host) (concat (map enc16 (takeWhile scalar s))))"
proof (induction s arbitrary: out)
  case (Cons w s)
  show ?case
  proof (cases "unat w < 0x10000")
    case True
    then show ?thesis using Cons enc16_small [OF True] by (auto simp: tests32 scalar_def cp_tests)
  next
    case False
    show ?thesis
    proof (cases "scalar w")
      case True
      then have "0x10000 \<le> unat w" "unat w < 0x110000" using False by (auto simp: scalar_def)
      from surrogates [OF this] this True Cons show ?thesis
        by (auto simp: tests32 cp_tests Let_def simp flip: surrogates)
    next
      case False
      then show ?thesis using \<open>\<not> unat w < 0x10000\<close> by (auto simp: tests32 scalar_def cp_tests)
    qed
  qed
qed simp

lemma utf16_length_from_utf32_enc: "utf16_length_from_utf32 s = length (concat (map enc16 s))"
  by (induction s) (auto simp: length_enc16 cp_tests)

section \<open>Latin-1\<close>

text \<open>The code points of Latin-1.\<close>

abbreviation latin1 :: "bytes \<Rightarrow> u32 list" where
  "latin1 s \<equiv> map ucast s"

lemma unat_ucast_8: "unat (ucast (b :: u8) :: u32) = unat b" "unat (ucast b :: u16) = unat b"
  by (rule unat_ucast_up, simp)+

lemma latin1_scalar: "list_all scalar (latin1 s)"
proof -
  have "scalar (ucast b)" for b :: u8 using u8_bound [of b] by (simp add: scalar_def unat_ucast_8)
  then show ?thesis by (induction s) auto
qed

lemma latin1_to_utf8_step:
  assumes slow: "\<not> (16 \<le> length (b # s) \<and> list_all is_ascii (take 16 (b # s)))"
  shows "latin1_to_utf8 host (pre @ b # s) (length pre) out =
     latin1_to_utf8 host (pre @ b # s) (length pre + 1) (out @ enc8 (ucast b))"
proof -
  have fast: "ascii16 host (pre @ b # s) (length pre) = Some False"
    using slow by (auto simp: ascii16_iff)
  have L: "8 \<le> LENGTH(8)" by simp
  note u = enc8_units [where w = b and c = "ucast b", OF L unat_ucast_8(1)]
  show ?thesis
    using u8_bound [of b] u
    by (subst latin1_to_utf8.simps) (simp add: fast tests)
qed

lemma latin1_to_utf8_result:
  "latin1_to_utf8 host (pre @ s) (length pre) out =
     Some (length out + length (concat (map enc8 (latin1 s))), out @ concat (map enc8 (latin1 s)))"
proof (induction "length s" arbitrary: s pre out rule: less_induct)
  case less
  show ?case
  proof (cases s)
    case Nil
    then show ?thesis by (subst latin1_to_utf8.simps) simp
  next
    case (Cons b t)
    show ?thesis
    proof (cases "16 \<le> length s \<and> list_all is_ascii (take 16 s)")
      case True
      let ?a = "take 16 s" and ?s = "drop 16 s"
      have "latin1_to_utf8 host ((pre @ ?a) @ ?s) (length (pre @ ?a)) (out @ ?a) =
        Some (length (out @ ?a) + length (concat (map enc8 (latin1 ?s))), (out @ ?a) @ concat (map enc8 (latin1 ?s)))"
        by (rule less) (use True in auto)
      moreover have "concat (map enc8 (latin1 ?a)) = ?a"
      proof -
        have "list_all is_ascii a \<Longrightarrow> concat (map enc8 (latin1 a)) = a" for a
          by (induction a) (auto simp: is_ascii_def enc8_digits(1) unat_ucast_8)
        then show ?thesis using True by blast
      qed
      then have "concat (map enc8 (latin1 s)) = ?a @ concat (map enc8 (latin1 ?s))"
        by (metis append_take_drop_id concat_append map_append)
      moreover have "s \<noteq> []" using Cons by simp
      ultimately show ?thesis using True
        by (subst latin1_to_utf8.simps) (simp add: ascii16_iff mem_slice_def add.commute)
    next
      case False
      have "latin1_to_utf8 host ((pre @ [b]) @ t) (length (pre @ [b])) (out @ enc8 (ucast b)) =
        Some (length (out @ enc8 (ucast b)) + length (concat (map enc8 (latin1 t))),
              (out @ enc8 (ucast b)) @ concat (map enc8 (latin1 t)))"
        by (rule less) (use Cons in auto)
      then show ?thesis using False latin1_to_utf8_step [of b t host pre out] Cons
        by (simp add: add.commute One_nat_def)
    qed
  qed
qed

lemma utf8_length_loop_enc: "utf8_length_loop s n + length s = n + length (concat (map enc8 (latin1 s)))"
proof (induction s arbitrary: n)
  case (Cons b s)
  have "unat b div 128 = (if 0x80 \<le> unat b then 1 else 0)"
    using u8_bound [of b] by (auto simp: div_nat_eqI One_nat_def)
  then have "unat (drop_bit 7 b) + 1 = length (enc8 (ucast b))"
    using u8_bound [of b] by (simp add: unat_drop length_enc8 unat_ucast_8)
  with Cons [of "n + unat (drop_bit 7 b)"] show ?case by (simp add: One_nat_def)
qed simp

lemma latin1_to_utf16_result:
  "latin1_to_utf16 host s out =
     (length out + length s, out @ map (le16 host) (concat (map enc16 (latin1 s))))"
proof (induction s arbitrary: out)
  case (Cons b s)
  have "enc16 (ucast b) = [ucast b]"
    using u8_bound [of b] by (simp add: enc16_def unat_ucast_8)
  with Cons show ?case by simp
qed simp

lemma latin1_to_utf32_result: "latin1_to_utf32 s out = (length out + length s, out @ latin1 s)"
  by (induction s arbitrary: out) simp_all

end
