(* ===== verification/Libutf_Latin1.thy ===== *)
theory Libutf_Latin1
  imports Libutf32
begin

text \<open>
  The conversions of \<open>libutf\<close> to Latin-1, and the properties of the library: validation accepts
  exactly the well-formed texts, a conversion is the change of encoding form and stays within the buffer
  that its length function computes, and the one conversion that does not.
\<close>

section \<open>To Latin-1\<close>

definition in_latin1 :: "u32 \<Rightarrow> bool" where
  "in_latin1 c \<longleftrightarrow> unat c < 0x100"

lemma ucast_back8: "ucast (ucast b :: u32) = (b :: u8)" "ucast (ucast b :: u16) = b"
  using u8_bound [of b] by (simp_all add: word_unat_eq_iff unat_ucast unat_ucast_8)

lemma utf8_to_latin1_step:
  assumes "s \<noteq> []" and slow: "\<not> (16 \<le> length s \<and> list_all is_ascii (take 16 s))"
  shows "utf8_to_latin1 host (pre @ s) (length pre) out =
    (case dec8 s of
       Some (c, k) \<Rightarrow> if in_latin1 c then utf8_to_latin1 host (pre @ s) (length pre + k) (out @ [ucast c])
                      else Some (0, out)
     | None \<Rightarrow> Some (0, out))"
proof -
  obtain a t where s: "s = a # t" using assms by (cases s) auto
  have fast: "ascii16 host (pre @ a # t) (length pre) = Some False"
    using slow s by (auto simp: ascii16_iff)
  note start = utf8_to_latin1.simps [of host "pre @ a # t" "length pre" out]
  have u: "ucast (ucast a :: u32) = a" by (rule ucast_back8)
  consider "unat a < 0x80" | "0x80 \<le> unat a" "unat a < 0xc0" | "0xc0 \<le> unat a" "unat a < 0xe0"
    | "0xe0 \<le> unat a" by linarith
  then show ?thesis
  proof cases
    case 1 then show ?thesis unfolding s
      by (subst start) (simp add: fast tests in_latin1_def unat_ucast_8 u)
  next
    case 2 then show ?thesis unfolding s by (subst start) (simp add: fast tests)
  next
    case 3
    show ?thesis
    proof (cases t)
      case Nil
      show ?thesis unfolding s Nil using 3 fast [unfolded Nil] by (subst start [unfolded Nil]) (simp add: tests)
    next
      case (Cons b r)
      show ?thesis unfolding s Cons using 3 fast [unfolded Cons]
        by (subst start [unfolded Cons]) (auto simp: tests cp_tests in_latin1_def cont_def)
    qed
  next
    case 4
    then have "\<not> in_latin1 c" if "dec8 (a # t) = Some (c, k)" for c k
      using that by (auto simp: in_latin1_def split: if_splits list.splits)
    then have "(case dec8 (a # t) of
       Some (c, k) \<Rightarrow> if in_latin1 c then utf8_to_latin1 host (pre @ a # t) (length pre + k) (out @ [ucast c])
                      else Some (0, out)
     | None \<Rightarrow> Some (0, out)) = Some (0, out)" by (auto split: option.splits)
    then show ?thesis unfolding s using 4
      by (subst start) (simp add: fast tests del: dec8.simps)
  qed
qed

definition latin1_all :: "bytes \<Rightarrow> u32 list option" where
  "latin1_all s = (case dec8_all s of Some cs \<Rightarrow> if list_all in_latin1 cs then Some cs else None | None \<Rightarrow> None)"

lemma latin1_all_dec8:
  "s \<noteq> [] \<Longrightarrow> latin1_all s = (case dec8 s of
     Some (c, k) \<Rightarrow> if in_latin1 c then map_option (Cons c) (latin1_all (drop k s)) else None
   | None \<Rightarrow> None)"
  by (subst latin1_all_def, subst dec8_all.simps) (auto simp: latin1_all_def split: option.splits)

lemma latin1_all_ascii:
  "list_all is_ascii a \<Longrightarrow> latin1_all (a @ s) = map_option (\<lambda>cs. map ucast a @ cs) (latin1_all s)"
proof -
  assume a: "list_all is_ascii a"
  then have "list_all in_latin1 (map ucast a)"
    by (induction a) (auto simp: in_latin1_def is_ascii_def unat_ucast_8)
  with dec8_all_ascii [OF a, of s] show ?thesis by (auto simp: latin1_all_def split: option.splits)
qed

lemma utf8_to_latin1_result:
  "converted (latin1_all s) (utf32_length_from_utf8 s) out (map ucast) (utf8_to_latin1 host (pre @ s) (length pre) out)"
proof (induction "length s" arbitrary: s pre out rule: less_induct)
  case less
  show ?case
  proof (cases "s = []")
    case True
    then show ?thesis by (subst utf8_to_latin1.simps) (simp add: converted_def latin1_all_def)
  next
    case False
    show ?thesis
    proof (cases "16 \<le> length s \<and> list_all is_ascii (take 16 s)")
      case True
      let ?a = "take 16 s" and ?s = "drop 16 s"
      have "converted (latin1_all ?s) (utf32_length_from_utf8 ?s) (out @ ?a) (map ucast)
          (utf8_to_latin1 host ((pre @ ?a) @ ?s) (length (pre @ ?a)) (out @ ?a))"
        by (rule less) (use True in auto)
      moreover have "latin1_all s = map_option (\<lambda>cs. map ucast ?a @ cs) (latin1_all ?s)"
        "utf32_length_from_utf8 s = 16 + utf32_length_from_utf8 ?s"
        using latin1_all_ascii [of ?a ?s] utf32_length_ascii [of ?a ?s] True by simp_all
      moreover have "utf8_to_latin1 host (pre @ s) (length pre) out =
          utf8_to_latin1 host ((pre @ ?a) @ ?s) (length (pre @ ?a)) (out @ ?a)"
        using True False by (subst utf8_to_latin1.simps) (simp add: ascii16_iff mem_slice_def add.commute)
      moreover have "map ucast (map ucast a :: u32 list) = a" for a :: bytes
        by (induction a) (simp_all add: ucast_back8)
      ultimately show ?thesis using True
        by (fastforce simp: converted_def split: option.splits)
    next
      case slow: False
      show ?thesis
      proof (cases "\<exists>c k. dec8 s = Some (c, k) \<and> in_latin1 c")
        case no: False
        then have "latin1_all s = None" using latin1_all_dec8 [OF False] by (auto split: option.splits)
        with no utf8_to_latin1_step [OF False slow, of host pre out] show ?thesis
          by (auto simp: converted_def split: option.splits)
      next
        case True
        then obtain c k where p: "dec8 s = Some (c, k)" "in_latin1 c" by blast
        note k = dec8_len [OF p(1)]
        let ?a = "take k s" and ?s = "drop k s"
        have "converted (latin1_all ?s) (utf32_length_from_utf8 ?s) (out @ [ucast c]) (map ucast)
            (utf8_to_latin1 host ((pre @ ?a) @ ?s) (length (pre @ ?a)) (out @ [ucast c]))"
          by (rule less) (use k in auto)
        moreover have "length (pre @ ?a) = length pre + k" "(pre @ ?a) @ ?s = pre @ s" using k by simp_all
        ultimately show ?thesis
          using utf8_to_latin1_step [OF False slow] p latin1_all_dec8 [OF False] utf32_length_dec8 [OF p(1)]
          by (cases "latin1_all ?s") (auto simp: converted_def)
      qed
    qed
  qed
qed

lemma latin1_length_utf8: "latin1_length_from_utf8 s = utf32_length_from_utf8 s"
  by (induction s) auto

lemma utf16_to_latin1_result:
  "utf16_to_latin1 host s overflow out =
     (if unat overflow < 0x100 \<and> list_all (\<lambda>w. unat (le16 host w) < 0x100) s then length out + length s else 0,
      out @ map (\<lambda>w. ucast (le16 host w AND 0xff)) s)"
proof (induction s arbitrary: overflow out)
  case (Cons w s)
  have "unat (overflow OR le16 host w) < 0x100 \<longleftrightarrow> unat overflow < 0x100 \<and> unat (le16 host w) < 0x100"
    by (simp only: tests16(5) [symmetric] bit.conj_disj_distrib2 or_zero_iff)
  with Cons show ?case by (auto simp: Let_def)
qed (auto simp: tests16)

lemma utf32_to_latin1_result:
  "utf32_to_latin1 s overflow out =
     (if unat overflow < 0x100 \<and> list_all in_latin1 s then length out + length s else 0,
      out @ map (\<lambda>w. ucast (w AND 0xff)) s)"
proof (induction s arbitrary: overflow out)
  case (Cons w s)
  have "unat (overflow OR w) < 0x100 \<longleftrightarrow> unat overflow < 0x100 \<and> unat w < 0x100"
    by (simp only: tests32(4) [symmetric] bit.conj_disj_distrib2 or_zero_iff)
  with Cons show ?case by (auto simp: in_latin1_def)
qed (auto simp: tests32)


section \<open>Properties\<close>

text \<open>C20. The validators decide well-formedness: \<open>utf8_validate\<close> accepts exactly the byte sequences that
  are the UTF-8 encoding of some sequence of Unicode scalar values (no overlong form, no surrogate, no
  truncated sequence, nothing above U+10FFFF, with the eight- and sixteen-byte ASCII paths of either byte
  order), \<open>utf16le_validate\<close> exactly the UTF-16LE texts, and \<open>utf32_validate\<close> exactly the sequences of
  scalar values. They never read outside the data.\<close>

theorem utf_validators_exact:
  "utf8_validate host data8 = Some (\<exists>cs. list_all scalar cs \<and> data8 = concat (map enc8 cs)) \<and>
   utf16le_validate host data16 = Some (\<exists>cs. list_all scalar cs \<and> map (le16 host) data16 = concat (map enc16 cs)) \<and>
   utf32_validate data32 = list_all scalar data32"
  using utf8_validate_from_result [of host "[]" data8] utf16le_validate_from_result [of host "[]" data16]
  by (simp_all add: utf8_validate_def utf16le_validate_def utf8_text_def utf16_text_def utf32_validate_iff)

lemma utf8_to_utf32_text:
  "dec8_all data = Some cs \<Longrightarrow> utf8_convert_to_utf32 host data = Some (length cs, cs)"
  using utf8_to_utf32_result [of data "[]" host "[]"] by (simp add: utf8_convert_to_utf32_def converted_def)

lemma utf8_to_utf16_text:
  "dec8_all data = Some cs \<Longrightarrow> utf8_convert_to_utf16le host data =
     Some (length (concat (map enc16 cs)), map (le16 host) (concat (map enc16 cs))) \<and>
   utf16_length_from_utf8 data = length (concat (map enc16 cs))"
  using utf8_to_utf16_result [of host "[]" data "[]"] by (auto simp: utf8_convert_to_utf16le_def)

lemma utf16_to_utf8_text:
  "dec16_all (map (le16 host) data) = Some cs \<Longrightarrow> utf16le_convert_to_utf8 host data =
     Some (length (concat (map enc8 cs)), concat (map enc8 cs)) \<and>
   utf8_length_from_utf16le host data = length (concat (map enc8 cs))"
  using utf16_to_utf8_result [of host data cs "[]" "[]"] by (simp add: utf16le_convert_to_utf8_def)

lemma utf16_to_utf32_text:
  "dec16_all (map (le16 host) data) = Some cs \<Longrightarrow> utf16le_convert_to_utf32 host data = Some (length cs, cs)"
  using utf16_to_utf32_result [of host data "[]" "[]"] by (simp add: utf16le_convert_to_utf32_def converted_def)

lemma utf32_to_text:
  "list_all scalar cs \<Longrightarrow> utf32_convert_to_utf8 host cs = Some (length (concat (map enc8 cs)), concat (map enc8 cs))"
  "list_all scalar cs \<Longrightarrow> utf32_convert_to_utf16le host cs =
     (length (concat (map enc16 cs)), map (le16 host) (concat (map enc16 cs)))"
  using utf32_to_utf8_result [of host "[]" cs "[]"] utf32_to_utf16_result [of host cs "[]"]
  by (simp_all add: utf32_convert_to_utf8_def utf32_convert_to_utf16le_def takeWhile_eq_all_conv [THEN iffD2] list_all_iff)

lemma length_concat_map_le16: "length (concat (map (map (le16 host)) xs)) = length (concat xs)"
  by (induction xs) auto

lemma utf8_validate_text: "utf8_validate host data = Some (utf8_text data)"
  using utf8_validate_from_result [of host "[]" data] by (simp add: utf8_validate_def)

lemma utf8_to_utf32_bounded:
  "\<exists>n w. utf8_convert_to_utf32 host data = Some (n, w) \<and> length w \<le> utf32_length_from_utf8 data \<and>
     n = (if utf8_validate host data = Some True then utf32_length_from_utf8 data else 0) \<and>
     (utf8_validate host data = Some True \<longrightarrow> list_all scalar w \<and> concat (map enc8 w) = data)"
proof (cases "dec8_all data")
  case None
  then show ?thesis using utf8_to_utf32_result [of data "[]" host "[]"] dec8_all_None [of data]
    by (auto simp: utf8_validate_text utf8_convert_to_utf32_def converted_def)
next
  case (Some cs)
  from dec8_all_Some [OF Some] have t: "utf8_text data" "list_all scalar cs" "concat (map enc8 cs) = data"
    by (auto simp: utf8_text_def)
  then have "utf32_length_from_utf8 data = length cs" using utf32_length_text [OF Some] by simp
  with t utf8_to_utf32_text [OF Some] show ?thesis by (auto simp: utf8_validate_text)
qed

lemma latin1_in_latin1: "list_all in_latin1 (latin1 v)"
  using u8_bound by (auto simp: list_all_iff in_latin1_def unat_ucast_8)

lemma utf8_to_latin1_bounded:
  "\<exists>n w. utf8_convert_to_latin1 host data = Some (n, w) \<and> length w \<le> latin1_length_from_utf8 data \<and>
     (n = length w \<and> data = concat (map enc8 (latin1 w)) \<or>
      n = 0 \<and> \<not> (\<exists>v. data = concat (map enc8 (latin1 v))))"
proof (cases "latin1_all data")
  case None
  have "data \<noteq> concat (map enc8 (latin1 v))" for v
    using None dec8_all_enc [OF latin1_scalar, of v] latin1_in_latin1 [of v] by (auto simp: latin1_all_def)
  with None utf8_to_latin1_result [of data "[]" host "[]"] show ?thesis
    by (auto simp: utf8_convert_to_latin1_def converted_def latin1_length_utf8)
next
  case (Some cs)
  then have cs: "dec8_all data = Some cs" "list_all in_latin1 cs" by (auto simp: latin1_all_def split: option.splits if_splits)
  then have same: "latin1 (map ucast cs) = cs"
    by (auto simp: list_all_iff in_latin1_def word_unat_eq_iff unat_ucast intro!: map_idI)
  show ?thesis
  proof (intro exI conjI)
    show "utf8_convert_to_latin1 host data = Some (length cs, map ucast cs)"
      using Some utf8_to_latin1_result [of data "[]" host "[]"]
      by (simp add: utf8_convert_to_latin1_def converted_def)
    show "length (map ucast cs) \<le> latin1_length_from_utf8 data"
      using utf32_length_text [OF cs(1)] by (simp add: latin1_length_utf8)
    have "data = concat (map enc8 (latin1 (map ucast cs)))"
      unfolding same using dec8_all_Some [OF cs(1)] by simp
    then show "length cs = length (map ucast cs :: bytes) \<and> data = concat (map enc8 (latin1 (map ucast cs))) \<or>
        length cs = 0 \<and> \<not> (\<exists>v. data = concat (map enc8 (latin1 v)))" by simp
  qed
qed

text \<open>C21. Converting from UTF-8 never writes past a buffer of the size that the length function gives,
  whatever the bytes are, and never reads past the input. To UTF-32 the result is the code points and
  their number when the input is well-formed, and 0 otherwise; the conversion to Latin-1 succeeds exactly
  on the texts whose code points are all below 256.\<close>

theorem utf8_conversions_in_bounds:
  "(\<exists>n w. utf8_convert_to_utf32 host data = Some (n, w) \<and> length w \<le> utf32_length_from_utf8 data \<and>
     n = (if utf8_validate host data = Some True then utf32_length_from_utf8 data else 0) \<and>
     (utf8_validate host data = Some True \<longrightarrow> list_all scalar w \<and> concat (map enc8 w) = data)) \<and>
   (\<exists>n w. utf8_convert_to_utf16le host data = Some (n, w) \<and> length w \<le> utf16_length_from_utf8 data) \<and>
   (\<exists>n w. utf8_convert_to_latin1 host data = Some (n, w) \<and> length w \<le> latin1_length_from_utf8 data \<and>
     (n = length w \<and> data = concat (map enc8 (latin1 w)) \<or>
      n = 0 \<and> \<not> (\<exists>v. data = concat (map enc8 (latin1 v)))))"
  using utf8_to_utf32_bounded utf8_to_latin1_bounded utf8_to_utf16_result [of host "[]" data "[]"]
  by (intro conjI) (auto simp: utf8_convert_to_utf16le_def)

lemma validates_e_acute: "utf8_validate utf_le [0xc3, 0xa9] = Some True"
  by (simp add: utf8_validate_def utf8_validate_from.simps skip_ascii.simps ascii16_def mem_get_def cp2_def One_nat_def)

theorem utf8_conversions_in_bounds_witness:
  "\<exists>w. utf8_convert_to_utf32 utf_le [0xc3, 0xa9] = Some (1, w) \<and> concat (map enc8 w) = [0xc3, 0xa9]"
proof -
  have "utf32_length_from_utf8 [0xc3, 0xa9] = 1"
    by (simp only: utf32_length_from_utf8.simps sint_lead cont_def) (simp add: One_nat_def)
  with utf8_conversions_in_bounds [of utf_le "[0xc3, 0xa9]"] validates_e_acute show ?thesis by auto
qed

text \<open>C22. Round trips: a sequence of scalar values that is converted to UTF-8 or to UTF-16LE comes back,
  the number returned is that of the units written, and it is the number that the length function
  computes; and a well-formed UTF-8 text survives UTF-16LE, on hosts of either byte order.\<close>

theorem utf_roundtrips:
  assumes "utf32_validate cs"
  shows "\<exists>data8 data16.
    utf32_convert_to_utf8 host cs = Some (length data8, data8) \<and> utf8_length_from_utf32 cs = length data8 \<and>
    utf8_convert_to_utf32 host data8 = Some (length cs, cs) \<and> utf32_length_from_utf8 data8 = length cs \<and>
    utf32_convert_to_utf16le host cs = (length data16, data16) \<and> utf16_length_from_utf32 cs = length data16 \<and>
    utf16le_convert_to_utf32 host data16 = Some (length cs, cs) \<and> utf32_length_from_utf16le host data16 = length cs \<and>
    utf8_convert_to_utf16le host data8 = Some (length data16, data16) \<and> utf16_length_from_utf8 data8 = length data16 \<and>
    utf16le_convert_to_utf8 host data16 = Some (length data8, data8) \<and>
    utf8_length_from_utf16le host data16 = length data8"
proof -
  have cs: "list_all scalar cs" using assms by (simp add: utf32_validate_iff)
  let ?a = "concat (map enc8 cs)" and ?b = "map (le16 host) (concat (map enc16 cs))"
  have b: "dec16_all (map (le16 host) ?b) = Some cs" unfolding map_le16_le16 by (rule dec16_all_enc [OF cs])
  have a: "dec8_all ?a = Some cs" by (rule dec8_all_enc [OF cs])
  have l: "utf32_length_from_utf16le host s = length cs" if "dec16_all (map (le16 host) s) = Some cs" for s cs
    using that
  proof (induction cs arbitrary: s)
    case Nil
    then have "s = []" by (subst (asm) dec16_all.simps) (auto split: option.splits if_splits)
    then show ?case by simp
  next
    case (Cons c cs)
    then obtain k where k: "dec16 (map (le16 host) s) = Some (c, k)" "dec16_all (map (le16 host) (drop k s)) = Some cs"
      by (subst (asm) dec16_all.simps) (auto simp: drop_map split: option.splits if_splits)
    with Cons.IH unit_tests [OF k(1)] show ?case by (simp add: One_nat_def)
  qed
  show ?thesis
    using utf32_to_text [OF cs] utf8_to_utf32_text [OF a] utf16_to_utf32_text [OF b] utf8_to_utf16_text [OF a]
      utf16_to_utf8_text [OF b] l [OF b] utf32_length_text [OF a]
    by (intro exI [of _ ?a] exI [of _ ?b]) (simp_all only: utf8_length_from_utf32_enc utf16_length_from_utf32_enc length_map)
qed

theorem utf_roundtrips_witness:
  "\<exists>data8. utf32_convert_to_utf8 utf_be [0x41, 0x1f600] = Some (length data8, data8) \<and>
     utf8_convert_to_utf32 utf_be data8 = Some (length [0x41, 0x1f600 :: u32], [0x41, 0x1f600])"
proof -
  have "utf32_validate [0x41, 0x1f600]" by simp
  from utf_roundtrips [OF this, of utf_be] show ?thesis by metis
qed

text \<open>C23. The direct conversions are the conversions through UTF-32: on a text that the validator accepts,
  \<open>utf8_convert_to_utf16le\<close> writes what converting to UTF-32 and then to UTF-16LE writes, and
  \<open>utf16le_convert_to_utf8\<close> what converting to UTF-32 and then to UTF-8 writes, with the same count.\<close>

theorem utf_direct_conversions:
  "(utf8_validate host data8 = Some True \<longrightarrow>
     (\<exists>cs. utf8_convert_to_utf32 host data8 = Some (length cs, cs) \<and>
       utf8_convert_to_utf16le host data8 = Some (utf32_convert_to_utf16le host cs))) \<and>
   (utf16le_validate host data16 = Some True \<longrightarrow>
     (\<exists>cs. utf16le_convert_to_utf32 host data16 = Some (length cs, cs) \<and>
       utf16le_convert_to_utf8 host data16 = utf32_convert_to_utf8 host cs))"
proof (intro conjI impI)
  assume "utf8_validate host data8 = Some True"
  then have "utf8_text data8"
    using utf8_validate_from_result [of host "[]" data8] by (simp add: utf8_validate_def)
  then obtain cs where cs: "dec8_all data8 = Some cs" using dec8_all_None by blast
  with dec8_all_Some [OF cs] utf8_to_utf32_text [OF cs] utf8_to_utf16_text [OF cs] utf32_to_text
  show "\<exists>cs. utf8_convert_to_utf32 host data8 = Some (length cs, cs) \<and>
       utf8_convert_to_utf16le host data8 = Some (utf32_convert_to_utf16le host cs)" by auto
next
  assume "utf16le_validate host data16 = Some True"
  then have "utf16_text (map (le16 host) data16)"
    using utf16le_validate_from_result [of host "[]" data16] by (simp add: utf16le_validate_def)
  then obtain cs where cs: "dec16_all (map (le16 host) data16) = Some cs" using dec16_all_None by blast
  with dec16_all_Some [OF cs] utf16_to_utf32_text [OF cs] utf16_to_utf8_text [OF cs] utf32_to_text
  show "\<exists>cs. utf16le_convert_to_utf32 host data16 = Some (length cs, cs) \<and>
       utf16le_convert_to_utf8 host data16 = utf32_convert_to_utf8 host cs" by auto
qed

theorem utf_direct_conversions_witness:
  "(\<exists>cs. utf8_convert_to_utf32 utf_le [0xc3, 0xa9] = Some (length cs, cs) \<and>
       utf8_convert_to_utf16le utf_le [0xc3, 0xa9] = Some (utf32_convert_to_utf16le utf_le cs)) \<and>
   (\<exists>cs. utf16le_convert_to_utf32 utf_le [0xd83d, 0xde00] = Some (length cs, cs) \<and>
       utf16le_convert_to_utf8 utf_le [0xd83d, 0xde00] = utf32_convert_to_utf8 utf_le cs)"
proof -
  note validates_e_acute
  moreover have "utf16le_validate utf_le [0xd83d, 0xde00] = Some True"
    by (simp add: utf16le_validate_def utf16le_validate_from.simps le16_def utf_is_be_def mem_get_def One_nat_def)
  ultimately show ?thesis using utf_direct_conversions by blast
qed

text \<open>
  What the conversion to UTF-8 writes beyond what the length function counts: it takes every surrogate with the unit behind
  it for a pair, whatever that unit is, and writes four bytes for the two, where the length function counts two for the
  surrogate and those of the other unit.
\<close>

definition is_surrogate :: "u16 \<Rightarrow> bool" where
  "is_surrogate w \<longleftrightarrow> 0xd800 \<le> unat w \<and> unat w < 0xe000"

fun pair_excess :: "u16 list \<Rightarrow> int option" where
  "pair_excess [] = Some 0"
| "pair_excess [w] = (if is_surrogate w then None else Some 0)"
| "pair_excess (w # v # ws) =
     (if is_surrogate w
      then map_option (\<lambda>e. e + (if unat v < 0x80 then 1 else if unat v < 0x800 \<or> is_surrogate v then 0 else -1)) (pair_excess ws)
      else pair_excess (v # ws))"

lemma pair_excess_unit: "\<not> is_surrogate w \<Longrightarrow> pair_excess (w # ws) = pair_excess ws"
  by (cases ws) simp_all

lemma pair_excess_ascii: "list_all (\<lambda>w. unat w < 0x80) a \<Longrightarrow> pair_excess (a @ s) = pair_excess s"
  by (induction a) (simp_all add: pair_excess_unit is_surrogate_def)

lemma utf16_to_utf8_pair:
  assumes "is_surrogate (le16 host w)"
  shows "\<exists>b. length b = 4 \<and> utf16_to_utf8 host (pre @ w # v # s) (length pre) out =
    utf16_to_utf8 host (pre @ w # v # s) (length pre + 2) (out @ b)"
proof -
  have "ascii4 host (pre @ w # v # s) (length pre) = Some False" using assms by (auto simp: ascii4_iff is_surrogate_def)
  then show ?thesis using assms
    by (subst utf16_to_utf8.simps) (auto simp: tests16 is_surrogate_def Let_def intro!: exI [of _ "[_, _, _, _]"])
qed

lemma utf16_to_utf8_alone:
  assumes "is_surrogate (le16 host w)"
  shows "utf16_to_utf8 host (pre @ [w]) (length pre) out = Some (0, out)"
  using assms by (subst utf16_to_utf8.simps) (simp add: ascii4_iff tests16 is_surrogate_def Let_def)

lemma length_unit16: "utf8_length_from_utf16le host (w # s) =
    (if unat (le16 host w) < 0x80 then 1 else if unat (le16 host w) < 0x800 \<or> is_surrogate (le16 host w) then 2 else 3)
      + utf8_length_from_utf16le host s"
  by (auto simp: length_tests16 is_surrogate_def Let_def)

definition writes :: "int option \<Rightarrow> nat \<Rightarrow> bytes \<Rightarrow> (nat \<times> bytes) option \<Rightarrow> bool" where
  "writes x n out r \<longleftrightarrow> (case x of None \<Rightarrow> \<exists>w. r = Some (0, w)
     | Some e \<Rightarrow> \<exists>w. r = Some (length out + length w, out @ w) \<and> int (length w) = int n + e)"

lemma writes_more: "writes x n (out @ b) r \<Longrightarrow> int m = int n + int (length b) - d \<Longrightarrow> writes (map_option (\<lambda>e. e + d) x) m out r"
  by (cases x) (auto simp: writes_def)

lemma utf16_to_utf8_writes:
  "writes (pair_excess (map (le16 host) s)) (utf8_length_from_utf16le host s) out (utf16_to_utf8 host (pre @ s) (length pre) out)"
proof (induction "length s" arbitrary: s pre out rule: less_induct)
  case less
  have step: "writes (map_option (\<lambda>e. e + d) (pair_excess (map (le16 host) (drop k s)))) n out (utf16_to_utf8 host (pre @ s) (length pre) out)"
    if "utf16_to_utf8 host (pre @ s) (length pre) out = utf16_to_utf8 host (pre @ s) (length pre + k) (out @ b)" "0 < k" "k \<le> length s"
      "int n = int (utf8_length_from_utf16le host (drop k s)) + int (length b) - d" for k b n d
  proof -
    have "writes (pair_excess (map (le16 host) (drop k s))) (utf8_length_from_utf16le host (drop k s)) (out @ b)
        (utf16_to_utf8 host ((pre @ take k s) @ drop k s) (length (pre @ take k s)) (out @ b))"
      by (rule less) (use that in auto)
    then show ?thesis using that by (intro writes_more) auto
  qed
  have id: "map_option (\<lambda>e. e) x = x" for x :: "int option" by (cases x) simp_all
  show ?case
  proof (cases "4 \<le> length s \<and> list_all (\<lambda>w. unat (le16 host w) < 0x80) (take 4 s)")
    case True
    have "pair_excess (map (le16 host) (take 4 s) @ map (le16 host) (drop 4 s)) = pair_excess (map (le16 host) (drop 4 s))"
      by (rule pair_excess_ascii) (use True in \<open>simp add: list.pred_map comp_def\<close>)
    then have e: "pair_excess (map (le16 host) s) = pair_excess (map (le16 host) (drop 4 s))"
      by (simp only: map_append [symmetric] append_take_drop_id)
    have l: "utf8_length_from_utf16le host s = 4 + utf8_length_from_utf16le host (drop 4 s)"
      using utf8_length_ascii16 [of host "take 4 s" "drop 4 s"] True by simp
    have "utf16_to_utf8 host (pre @ s) (length pre) out =
        utf16_to_utf8 host (pre @ s) (length pre + 4) (out @ map (\<lambda>w. ucast (le16 host w)) (take 4 s))"
      using True by (subst utf16_to_utf8.simps) (auto simp add: ascii4_iff mem_slice_def)
    then show ?thesis using step [of 4 "map (\<lambda>w. ucast (le16 host w)) (take 4 s)" "4 + utf8_length_from_utf16le host (drop 4 s)" 0] True
      by (simp add: e l id min_def)
  next
    case slow: False
    show ?thesis
    proof (cases s)
      case Nil
      then show ?thesis by (subst utf16_to_utf8.simps) (simp add: writes_def)
    next
      case (Cons w t)
      show ?thesis
      proof (cases "is_surrogate (le16 host w)")
        case False
        then have "dec16 (map (le16 host) s) = Some (ucast (le16 host w), 1)" unfolding Cons is_surrogate_def by auto
        from step [OF utf16_to_utf8_step [OF _ slow this], of _ 0] utf8_length_dec16 [OF this] show ?thesis
          using Cons False by (simp add: pair_excess_unit id)
      next
        case w: True
        show ?thesis
        proof (cases t)
          case Nil
          then show ?thesis using utf16_to_utf8_alone [OF w] Cons w by (simp add: writes_def)
        next
          case t: (Cons v r)
          let ?d = "if unat (le16 host v) < 0x80 then 1 else if unat (le16 host v) < 0x800 \<or> is_surrogate (le16 host v) then 0 else -1"
          obtain b where b: "length b = 4" "utf16_to_utf8 host (pre @ s) (length pre) out = utf16_to_utf8 host (pre @ s) (length pre + 2) (out @ b)"
            using utf16_to_utf8_pair [OF w, of pre v r out] unfolding Cons t by (elim exE conjE)
          have "\<not> unat (le16 host w) < 0x80" "\<not> unat (le16 host w) < 0x800" using w by (simp_all add: is_surrogate_def)
          then have "int (utf8_length_from_utf16le host s) = int (utf8_length_from_utf16le host (drop 2 s)) + int (length b) - ?d"
            using w b(1) unfolding Cons t by (auto simp only: length_unit16 split: if_splits) simp_all
          from step [OF b(2) _ _ this] show ?thesis using Cons t w by simp
        qed
      qed
    qed
  qed
qed

lemma well_formed_excess:
  assumes "utf16le_validate host data = Some True"
  shows "pair_excess (map (le16 host) data) = Some 0"
proof -
  have "utf16_text (map (le16 host) data)"
    using assms utf16le_validate_from_result [of host "[]" data] by (simp add: utf16le_validate_def)
  then obtain cs where "dec16_all (map (le16 host) data) = Some cs"
    using dec16_all_None [of "map (le16 host) data"] by (cases "dec16_all (map (le16 host) data)") auto
  moreover have "data = []" if "dec16_all (map (le16 host) data) = Some []"
    using that by (subst (asm) dec16_all.simps) (auto split: if_splits option.splits)
  ultimately show ?thesis using utf16_to_utf8_text [of host data cs] utf16_to_utf8_writes [of host data "[]" "[]"]
    by (auto simp: writes_def utf16le_convert_to_utf8_def split: option.splits)
qed

text \<open>
  C25. What \<open>utf16le_convert_to_utf8\<close> writes on any units, well formed or not. It gives up with the value 0 when a surrogate is left
  without a unit behind it; otherwise it reports success and writes \<open>pair_excess\<close> bytes more than \<open>utf8_length_from_utf16le\<close> counts, so a
  buffer of that length overflows whenever more of its pairs end in an ASCII unit than in a unit of three bytes. Units that the
  validator accepts have the excess 0 (\<open>well_formed_excess\<close>); \<open>D800 0041\<close>, which it rejects, has the excess 1.
\<close>

theorem utf16_to_utf8_overflow:
  "(case pair_excess (map (le16 host) data) of
      None \<Rightarrow> \<exists>w. utf16le_convert_to_utf8 host data = Some (0, w)
    | Some e \<Rightarrow> \<exists>w. utf16le_convert_to_utf8 host data = Some (length w, w) \<and>
        int (length w) = int (utf8_length_from_utf16le host data) + e) \<and>
   pair_excess [0xd800, 0x41] = Some 1 \<and> utf16le_validate host (map (le16 host) [0xd800, 0x41]) = Some False"
proof (intro conjI)
  show "case pair_excess (map (le16 host) data) of
      None \<Rightarrow> \<exists>w. utf16le_convert_to_utf8 host data = Some (0, w)
    | Some e \<Rightarrow> \<exists>w. utf16le_convert_to_utf8 host data = Some (length w, w) \<and>
        int (length w) = int (utf8_length_from_utf16le host data) + e"
    using utf16_to_utf8_writes [of host data "[]" "[]"]
    by (auto simp: writes_def utf16le_convert_to_utf8_def split: option.splits)
  show "pair_excess [0xd800, 0x41] = Some 1" by (simp add: is_surrogate_def One_nat_def)
  have b: "le16 host (le16 host w) = w" for w by simp
  show "utf16le_validate host (map (le16 host) [0xd800, 0x41]) = Some False"
    by (simp add: utf16le_validate_def utf16le_validate_from.simps b mem_get_def One_nat_def)
qed

lemma latin1_back: "map ucast (latin1 data) = data"
  by (simp add: comp_def ucast_back8)

lemma latin1_enc16: "concat (map enc16 (latin1 data)) = map ucast data"
proof -
  have "enc16 (ucast b) = [ucast b]" for b :: u8
    using u8_bound [of b] by (simp add: enc16_def unat_ucast_8)
  then show ?thesis by (induction data) auto
qed

lemma latin1_via_utf8:
  "\<exists>w. latin1_convert_to_utf8 host data = Some (length w, w) \<and> utf8_length_from_latin1 data = length w \<and>
     utf8_validate host w = Some True \<and> utf8_convert_to_latin1 host w = Some (length data, data)"
proof (intro exI conjI)
  let ?cs = "latin1 data"
  let ?w = "concat (map enc8 ?cs)"
  have d: "dec8_all ?w = Some ?cs" by (rule dec8_all_enc [OF latin1_scalar])
  show "latin1_convert_to_utf8 host data = Some (length ?w, ?w)"
    using latin1_to_utf8_result [of host "[]" data "[]"] by (simp add: latin1_convert_to_utf8_def)
  show "utf8_length_from_latin1 data = length ?w"
    using utf8_length_loop_enc [of data "length data"] by (simp add: utf8_length_from_latin1_def)
  show "utf8_validate host ?w = Some True"
    using dec8_all_text [OF d] by (simp add: utf8_validate_text)
  have "latin1_all ?w = Some ?cs" using d latin1_in_latin1 by (simp add: latin1_all_def)
  then show "utf8_convert_to_latin1 host ?w = Some (length data, data)"
    using utf8_to_latin1_result [of ?w "[]" host "[]"] latin1_back
    by (simp add: utf8_convert_to_latin1_def converted_def)
qed

lemma latin1_via_utf16:
  "\<exists>w. latin1_convert_to_utf16le host data = (length w, w) \<and> utf16_length_from_latin1 data = length w \<and>
     utf16le_validate host w = Some True \<and> utf16le_convert_to_latin1 host w = (length data, data)"
proof (intro exI conjI)
  let ?cs = "latin1 data"
  let ?w = "map (le16 host) (concat (map enc16 ?cs))"
  have d: "dec16_all (map (le16 host) ?w) = Some ?cs" unfolding map_le16_le16 by (rule dec16_all_enc [OF latin1_scalar])
  have len: "length ?w = length data" unfolding latin1_enc16 by simp
  show "latin1_convert_to_utf16le host data = (length ?w, ?w)"
    using latin1_to_utf16_result [of host data "[]"] len by (simp add: latin1_convert_to_utf16le_def)
  show "utf16_length_from_latin1 data = length ?w" using len by (simp add: utf16_length_from_latin1_def)
  show "utf16le_validate host ?w = Some True"
    using utf16le_validate_from_result [of host "[]" ?w] dec16_all_text [OF d] by (simp only: utf16le_validate_def) simp
  have "list_all (\<lambda>w. unat (le16 host w) < 0x100) ?w"
    unfolding latin1_enc16 using u8_bound by (auto simp: list_all_iff unat_ucast_8)
  moreover have "(ucast ((ucast b :: u16) AND 0xff) :: u8) = b" for b :: u8
    using u8_bound [of b] by (simp only: low_masks) (simp add: word_unat_eq_iff unat_ucast unat_and_low unat_ucast_8)
  then have "map (\<lambda>w. ucast (le16 host w AND 0xff)) ?w = data"
    unfolding latin1_enc16 by (simp add: comp_def)
  ultimately show "utf16le_convert_to_latin1 host ?w = (length data, data)"
    using utf16_to_latin1_result [of host ?w 0 "[]"] len by (simp add: utf16le_convert_to_latin1_def)
qed

lemma latin1_via_utf32:
  "\<exists>w. latin1_convert_to_utf32 data = (length w, w) \<and> utf32_length_from_latin1 data = length w \<and>
     utf32_validate w \<and> utf32_convert_to_latin1 w = (length data, data)"
proof -
  have "(ucast ((ucast b :: u32) AND 0xff) :: u8) = b" for b :: u8
    using u8_bound [of b] by (simp only: low_masks) (simp add: word_unat_eq_iff unat_ucast unat_and_low unat_ucast_8)
  then show ?thesis
    using latin1_to_utf32_result [of data "[]"] latin1_scalar [of data] latin1_in_latin1 [of data]
      utf32_to_latin1_result [of "latin1 data" 0 "[]"]
    by (simp add: latin1_convert_to_utf32_def utf32_length_from_latin1_def utf32_validate_iff
        utf32_convert_to_latin1_def comp_def)
qed

lemma utf32_to_latin1_refuses:
  "\<exists>w. utf32_convert_to_latin1 codes = (if list_all (\<lambda>c. c < 256) codes then length codes else 0, w) \<and>
     length w = latin1_length_from_utf32 codes"
  using utf32_to_latin1_result [of codes 0 "[]"]
  by (simp add: utf32_convert_to_latin1_def latin1_length_from_utf32_def list_all_iff in_latin1_def word_less_nat_alt)

text \<open>C24. Latin-1 round trips: any byte sequence converted from Latin-1 to UTF-8, UTF-16LE or UTF-32 comes
  back, the number of units is what the length function says, and the intermediate text passes the
  validator of its encoding. A UTF-32 text with a code point above 255 is refused, although all of it has
  been written.\<close>

theorem utf_latin1_roundtrip:
  "(\<exists>w. latin1_convert_to_utf8 host data = Some (length w, w) \<and> utf8_length_from_latin1 data = length w \<and>
     utf8_validate host w = Some True \<and> utf8_convert_to_latin1 host w = Some (length data, data)) \<and>
   (\<exists>w. latin1_convert_to_utf16le host data = (length w, w) \<and> utf16_length_from_latin1 data = length w \<and>
     utf16le_validate host w = Some True \<and> utf16le_convert_to_latin1 host w = (length data, data)) \<and>
   (\<exists>w. latin1_convert_to_utf32 data = (length w, w) \<and> utf32_length_from_latin1 data = length w \<and>
     utf32_validate w \<and> utf32_convert_to_latin1 w = (length data, data)) \<and>
   (\<exists>w. utf32_convert_to_latin1 codes = (if list_all (\<lambda>c. c < 256) codes then length codes else 0, w) \<and>
     length w = latin1_length_from_utf32 codes)"
  by (intro conjI latin1_via_utf8 latin1_via_utf16 latin1_via_utf32 utf32_to_latin1_refuses)

end
