(* ===== verification/Utf8_String.thy ===== *)
theory Utf8_String
  imports Prelude_C
begin

text \<open>
  The string builder of \<open>libutf\<close> (\<open>include/utf/string.h\<close>): a growing byte string with an inline
  buffer of eight bytes, and views. \<open>str_data\<close> is the block that the pointer \<open>data\<close> refers to,
  \<open>str_inline\<close> says that it is the buffer in the structure, and \<open>str_cap\<close> is the capacity in the union
  with it. Sizes wrap at \<open>2 ^ 64\<close>. The allocator is a parameter: which sizes it grants, and what bytes a
  fresh block holds. A status is \<open>0\<close> or \<open>-1\<close>; undefined behaviour is \<open>None\<close>. An operation with two
  strings is modelled for distinct strings.
\<close>

section \<open>Model\<close>

record utf8_string =
  str_data :: bytes
  str_len :: nat
  str_cap :: nat
  str_inline :: bool

record utf8_string_view_t =
  view_data :: bytes
  view_len :: nat

record allocator =
  grants :: "nat \<Rightarrow> bool"
  fresh :: "nat \<Rightarrow> u8"

definition fresh_block :: "allocator \<Rightarrow> nat \<Rightarrow> nat \<Rightarrow> bytes" where
  "fresh_block al i n = map (fresh al) [i..<n]"

definition utf8_string_init :: "allocator \<Rightarrow> utf8_string" where
  "utf8_string_init al = \<lparr> str_data = fresh_block al 0 8, str_len = 0, str_cap = 0, str_inline = True \<rparr>"

definition utf8_string_view_init :: "bytes \<Rightarrow> nat \<Rightarrow> utf8_string_view_t" where
  "utf8_string_view_init data len = \<lparr> view_data = data, view_len = len \<rparr>"

text \<open>Rounding up to a power of two; \<open>len\<close> is a \<open>size_t\<close> of eight bytes.\<close>

definition round_up :: "u64 \<Rightarrow> u64" where
  "round_up len =
    (let len = len - 1;
         len = len OR drop_bit 1 len;
         len = len OR drop_bit 2 len;
         len = len OR drop_bit 4 len;
         len = len OR drop_bit 8 len;
         len = len OR drop_bit 16 len;
         len = len OR drop_bit 32 len
     in len + 1)"

definition utf8_string_reserve :: "allocator \<Rightarrow> utf8_string \<Rightarrow> nat \<Rightarrow> (int \<times> utf8_string) option" where
  "utf8_string_reserve al string len =
    (let cap = (if str_inline string then 8 else str_cap string) in
     if len \<le> cap then Some (0, string)
     else
       let cap = unat (round_up (of_nat len)) in
       if str_inline string then
         (if grants al cap then
            do { old \<leftarrow> mem_slice (str_data string) 0 (str_len string);
                 data \<leftarrow> mem_write (fresh_block al 0 cap) 0 old;
                 Some (0, string\<lparr> str_data := data, str_cap := cap, str_inline := False \<rparr>) }
          else None)
       else
         (if grants al cap then
            Some (0, string\<lparr> str_data := take cap (str_data string) @ fresh_block al (length (str_data string)) cap,
                             str_cap := cap \<rparr>)
          else Some (-1, string)))"

definition utf8_string_shrink_to_fit :: "allocator \<Rightarrow> utf8_string \<Rightarrow> (int \<times> utf8_string) option" where
  "utf8_string_shrink_to_fit al string =
    (if str_inline string then Some (0, string)
     else
       let cap = str_len string in
       if cap \<le> 8 then
         do { old \<leftarrow> mem_slice (str_data string) 0 cap;
              buf \<leftarrow> mem_write (fresh_block al 0 8) 0 old;
              Some (0, string\<lparr> str_data := buf, str_inline := True \<rparr>) }
       else
         (if grants al cap then
            Some (0, string\<lparr> str_data := take cap (str_data string) @ fresh_block al (length (str_data string)) cap,
                             str_cap := cap \<rparr>)
          else Some (-1, string)))"

definition utf8_string_view :: "utf8_string \<Rightarrow> utf8_string_view_t" where
  "utf8_string_view string = utf8_string_view_init (str_data string) (str_len string)"

definition utf8_string_clear :: "utf8_string \<Rightarrow> utf8_string" where
  "utf8_string_clear string = string\<lparr> str_len := 0 \<rparr>"

definition utf8_string_empty :: "utf8_string \<Rightarrow> bool" where
  "utf8_string_empty string = (str_len string = 0)"

definition utf8_string_view_empty :: "utf8_string_view_t \<Rightarrow> bool" where
  "utf8_string_view_empty view = (view_len view = 0)"

text \<open>The pieces the operations are made of: \<open>memcpy\<close> from the front of a block, \<open>memmove\<close> within the
  string, and \<open>strlen\<close> for a literal of length \<open>(size_t) -1\<close>.\<close>

definition str_put :: "utf8_string \<Rightarrow> nat \<Rightarrow> bytes \<Rightarrow> nat \<Rightarrow> utf8_string option" where
  "str_put string pos src n =
     do { xs \<leftarrow> mem_slice src 0 n; data \<leftarrow> mem_write (str_data string) pos xs; Some (string\<lparr> str_data := data \<rparr>) }"

definition str_move :: "utf8_string \<Rightarrow> nat \<Rightarrow> nat \<Rightarrow> nat \<Rightarrow> utf8_string option" where
  "str_move string dst src n =
     do { xs \<leftarrow> mem_slice (str_data string) src n; data \<leftarrow> mem_write (str_data string) dst xs;
          Some (string\<lparr> str_data := data \<rparr>) }"

definition str_char :: "utf8_string \<Rightarrow> nat \<Rightarrow> u8 \<Rightarrow> utf8_string option" where
  "str_char string pos c = do { data \<leftarrow> mem_set (str_data string) pos c; Some (string\<lparr> str_data := data \<rparr>) }"

fun strlen :: "bytes \<Rightarrow> nat option" where
  "strlen [] = None"
| "strlen (b # bs) = (if b = 0 then Some 0 else map_option Suc (strlen bs))"

definition literal_len :: "bytes \<Rightarrow> nat \<Rightarrow> nat option" where
  "literal_len literal n = (if n = NEG1 then strlen literal else Some n)"

subsection \<open>Copying and appending\<close>

definition utf8_string_copy :: "allocator \<Rightarrow> utf8_string \<Rightarrow> utf8_string \<Rightarrow> (int \<times> utf8_string) option" where
  "utf8_string_copy al string result =
     do { (err, result) \<leftarrow> utf8_string_reserve al result (str_len string);
          if err < 0 then Some (err, result)
          else do { result \<leftarrow> str_put result 0 (str_data string) (str_len string);
                    Some (0, result\<lparr> str_len := str_len string \<rparr>) } }"

definition utf8_string_view_copy :: "allocator \<Rightarrow> utf8_string_view_t \<Rightarrow> utf8_string \<Rightarrow> (int \<times> utf8_string) option" where
  "utf8_string_view_copy al view result =
     do { (err, result) \<leftarrow> utf8_string_reserve al result (view_len view);
          if err < 0 then Some (err, result)
          else do { result \<leftarrow> str_put result 0 (view_data view) (view_len view);
                    Some (0, result\<lparr> str_len := view_len view \<rparr>) } }"

definition utf8_string_append :: "allocator \<Rightarrow> utf8_string \<Rightarrow> utf8_string \<Rightarrow> (int \<times> utf8_string) option" where
  "utf8_string_append al string other =
     do { (err, string) \<leftarrow> utf8_string_reserve al string (wadd (str_len string) (str_len other));
          if err < 0 then Some (-1, string)
          else do { string \<leftarrow> str_put string (str_len string) (str_data other) (str_len other);
                    Some (0, string\<lparr> str_len := wadd (str_len string) (str_len other) \<rparr>) } }"

definition utf8_string_append_view :: "allocator \<Rightarrow> utf8_string \<Rightarrow> utf8_string_view_t \<Rightarrow> (int \<times> utf8_string) option" where
  "utf8_string_append_view al string view =
     do { (err, string) \<leftarrow> utf8_string_reserve al string (wadd (str_len string) (view_len view));
          if err < 0 then Some (-1, string)
          else do { string \<leftarrow> str_put string (str_len string) (view_data view) (view_len view);
                    Some (0, string\<lparr> str_len := wadd (str_len string) (view_len view) \<rparr>) } }"

definition utf8_string_append_character :: "allocator \<Rightarrow> utf8_string \<Rightarrow> u8 \<Rightarrow> (int \<times> utf8_string) option" where
  "utf8_string_append_character al string c =
     do { (err, string) \<leftarrow> utf8_string_reserve al string (wadd (str_len string) 1);
          if err < 0 then Some (-1, string)
          else do { string \<leftarrow> str_char string (str_len string) c;
                    Some (0, string\<lparr> str_len := wadd (str_len string) 1 \<rparr>) } }"

definition utf8_string_append_literal :: "allocator \<Rightarrow> utf8_string \<Rightarrow> bytes \<Rightarrow> nat \<Rightarrow> (int \<times> utf8_string) option" where
  "utf8_string_append_literal al string literal n =
     do { n \<leftarrow> literal_len literal n;
          (err, string) \<leftarrow> utf8_string_reserve al string (wadd (str_len string) n);
          if err < 0 then Some (-1, string)
          else do { string \<leftarrow> str_put string (str_len string) literal n;
                    Some (0, string\<lparr> str_len := wadd (str_len string) n \<rparr>) } }"

subsection \<open>Prepending\<close>

definition utf8_string_prepend :: "allocator \<Rightarrow> utf8_string \<Rightarrow> utf8_string \<Rightarrow> (int \<times> utf8_string) option" where
  "utf8_string_prepend al string other =
     do { (err, string) \<leftarrow> utf8_string_reserve al string (wadd (str_len string) (str_len other));
          if err < 0 then Some (-1, string)
          else do { string \<leftarrow> str_move string (str_len other) 0 (str_len string);
                    string \<leftarrow> str_put string 0 (str_data other) (str_len other);
                    Some (0, string\<lparr> str_len := wadd (str_len string) (str_len other) \<rparr>) } }"

definition utf8_string_prepend_view :: "allocator \<Rightarrow> utf8_string \<Rightarrow> utf8_string_view_t \<Rightarrow> (int \<times> utf8_string) option" where
  "utf8_string_prepend_view al string view =
     do { (err, string) \<leftarrow> utf8_string_reserve al string (wadd (str_len string) (view_len view));
          if err < 0 then Some (-1, string)
          else do { string \<leftarrow> str_move string (view_len view) 0 (str_len string);
                    string \<leftarrow> str_put string 0 (view_data view) (view_len view);
                    Some (0, string\<lparr> str_len := wadd (str_len string) (view_len view) \<rparr>) } }"

definition utf8_string_prepend_character :: "allocator \<Rightarrow> utf8_string \<Rightarrow> u8 \<Rightarrow> (int \<times> utf8_string) option" where
  "utf8_string_prepend_character al string c =
     do { (err, string) \<leftarrow> utf8_string_reserve al string (wadd (str_len string) 1);
          if err < 0 then Some (-1, string)
          else do { string \<leftarrow> str_move string 1 0 (str_len string);
                    string \<leftarrow> str_char string 0 c;
                    Some (0, string\<lparr> str_len := wadd (str_len string) 1 \<rparr>) } }"

definition utf8_string_prepend_literal :: "allocator \<Rightarrow> utf8_string \<Rightarrow> bytes \<Rightarrow> nat \<Rightarrow> (int \<times> utf8_string) option" where
  "utf8_string_prepend_literal al string literal n =
     do { n \<leftarrow> literal_len literal n;
          (err, string) \<leftarrow> utf8_string_reserve al string (wadd (str_len string) n);
          if err < 0 then Some (-1, string)
          else do { string \<leftarrow> str_move string n 0 (str_len string);
                    string \<leftarrow> str_put string 0 literal n;
                    Some (0, string\<lparr> str_len := wadd (str_len string) n \<rparr>) } }"

subsection \<open>Inserting\<close>

definition utf8_string_insert :: "allocator \<Rightarrow> utf8_string \<Rightarrow> nat \<Rightarrow> utf8_string \<Rightarrow> (int \<times> utf8_string) option" where
  "utf8_string_insert al string pos other =
     (if pos > str_len string then Some (-1, string)
      else let inserted_len = wadd (str_len string) (str_len other) in
        do { (err, string) \<leftarrow> utf8_string_reserve al string inserted_len;
             if err < 0 then Some (err, string)
             else do { string \<leftarrow> str_move string (wadd pos (str_len other)) pos (wsub (str_len string) pos);
                       string \<leftarrow> str_put string pos (str_data other) (str_len other);
                       Some (0, string\<lparr> str_len := inserted_len \<rparr>) } })"

definition utf8_string_insert_view :: "allocator \<Rightarrow> utf8_string \<Rightarrow> nat \<Rightarrow> utf8_string_view_t \<Rightarrow> (int \<times> utf8_string) option" where
  "utf8_string_insert_view al string pos other =
     (if pos > str_len string then Some (-1, string)
      else let inserted_len = wadd (str_len string) (view_len other) in
        do { (err, string) \<leftarrow> utf8_string_reserve al string inserted_len;
             if err < 0 then Some (err, string)
             else do { string \<leftarrow> str_move string (wadd pos (view_len other)) pos (wsub (str_len string) pos);
                       string \<leftarrow> str_put string pos (view_data other) (view_len other);
                       Some (0, string\<lparr> str_len := inserted_len \<rparr>) } })"

definition utf8_string_insert_character :: "allocator \<Rightarrow> utf8_string \<Rightarrow> nat \<Rightarrow> u8 \<Rightarrow> (int \<times> utf8_string) option" where
  "utf8_string_insert_character al string pos c =
     (if pos > str_len string then Some (-1, string)
      else let inserted_len = wadd (str_len string) 1 in
        do { (err, string) \<leftarrow> utf8_string_reserve al string inserted_len;
             if err < 0 then Some (err, string)
             else do { string \<leftarrow> str_move string (wadd pos 1) pos (wsub (str_len string) pos);
                       string \<leftarrow> str_char string pos c;
                       Some (0, string\<lparr> str_len := inserted_len \<rparr>) } })"

definition utf8_string_insert_literal :: "allocator \<Rightarrow> utf8_string \<Rightarrow> nat \<Rightarrow> bytes \<Rightarrow> nat \<Rightarrow> (int \<times> utf8_string) option" where
  "utf8_string_insert_literal al string pos literal n =
     (if pos > str_len string then Some (-1, string)
      else do {
        n \<leftarrow> literal_len literal n;
        let inserted_len = wadd (str_len string) n;
        (err, string) \<leftarrow> utf8_string_reserve al string inserted_len;
        if err < 0 then Some (err, string)
        else do { string \<leftarrow> str_move string (wadd pos n) pos (wsub (str_len string) pos);
                  string \<leftarrow> str_put string pos literal n;
                  Some (0, string\<lparr> str_len := inserted_len \<rparr>) } })"

subsection \<open>Replacing and erasing\<close>

definition utf8_string_replace :: "allocator \<Rightarrow> utf8_string \<Rightarrow> nat \<Rightarrow> nat \<Rightarrow> utf8_string \<Rightarrow> (int \<times> utf8_string) option" where
  "utf8_string_replace al string pos len replacement =
     (if pos > str_len string then Some (-1, string)
      else
        let len = (if wadd pos len > str_len string then wsub (str_len string) pos else len);
            replaced_len = wsub (wadd (str_len string) (str_len replacement)) len
        in do {
          (err, string) \<leftarrow> utf8_string_reserve al string replaced_len;
          if err < 0 then Some (err, string)
          else do { string \<leftarrow> str_move string (wadd pos (str_len replacement)) (wadd pos len) (wsub (wsub (str_len string) pos) len);
                    string \<leftarrow> str_put string pos (str_data replacement) (str_len replacement);
                    Some (0, string\<lparr> str_len := replaced_len \<rparr>) } })"

definition utf8_string_replace_view :: "allocator \<Rightarrow> utf8_string \<Rightarrow> nat \<Rightarrow> nat \<Rightarrow> utf8_string_view_t \<Rightarrow> (int \<times> utf8_string) option" where
  "utf8_string_replace_view al string pos len replacement =
     (if pos > str_len string then Some (-1, string)
      else
        let len = (if wadd pos len > str_len string then wsub (str_len string) pos else len);
            replaced_len = wsub (wadd (str_len string) (view_len replacement)) len
        in do {
          (err, string) \<leftarrow> utf8_string_reserve al string replaced_len;
          if err < 0 then Some (err, string)
          else do { string \<leftarrow> str_move string (wadd pos (view_len replacement)) (wadd pos len) (wsub (wsub (str_len string) pos) len);
                    string \<leftarrow> str_put string pos (view_data replacement) (view_len replacement);
                    Some (0, string\<lparr> str_len := replaced_len \<rparr>) } })"

definition utf8_string_replace_character :: "allocator \<Rightarrow> utf8_string \<Rightarrow> nat \<Rightarrow> nat \<Rightarrow> u8 \<Rightarrow> (int \<times> utf8_string) option" where
  "utf8_string_replace_character al string pos len c =
     (if pos > str_len string then Some (-1, string)
      else
        let replaced_len = wsub (wadd (str_len string) 1) len
        in do {
          (err, string) \<leftarrow> utf8_string_reserve al string replaced_len;
          if err < 0 then Some (err, string)
          else do { string \<leftarrow> str_move string (wadd pos 1) (wadd pos len) (wsub (wsub (str_len string) pos) len);
                    string \<leftarrow> str_char string pos c;
                    Some (0, string\<lparr> str_len := replaced_len \<rparr>) } })"

definition utf8_string_replace_literal :: "allocator \<Rightarrow> utf8_string \<Rightarrow> nat \<Rightarrow> nat \<Rightarrow> bytes \<Rightarrow> nat \<Rightarrow> (int \<times> utf8_string) option" where
  "utf8_string_replace_literal al string pos len literal n =
     (if pos > str_len string then Some (-1, string)
      else
        let len = (if wadd pos len > str_len string then wsub (str_len string) pos else len)
        in do {
          n \<leftarrow> literal_len literal n;
          let replaced_len = wsub (wadd (str_len string) n) len;
          (err, string) \<leftarrow> utf8_string_reserve al string replaced_len;
          if err < 0 then Some (err, string)
          else do { string \<leftarrow> str_move string (wadd pos n) (wadd pos len) (wsub (wsub (str_len string) pos) len);
                    string \<leftarrow> str_put string pos literal n;
                    Some (0, string\<lparr> str_len := replaced_len \<rparr>) } })"

definition utf8_string_erase :: "utf8_string \<Rightarrow> nat \<Rightarrow> nat \<Rightarrow> (int \<times> utf8_string) option" where
  "utf8_string_erase string pos len =
     (if pos > str_len string then Some (-1, string)
      else
        let len = (if wadd pos len > str_len string then wsub (str_len string) pos else len)
        in do {
          string \<leftarrow> str_move string pos (wadd pos len) (wsub (wsub (str_len string) pos) len);
          Some (0, string\<lparr> str_len := wsub (str_len string) len \<rparr>) })"


subsection \<open>Concatenation\<close>

text \<open>The allocations after the first must not fail: \<open>assert (err == 0)\<close>.\<close>

definition assert_ok :: "(int \<times> utf8_string) option \<Rightarrow> utf8_string option" where
  "assert_ok r = do { (err, string) \<leftarrow> r; if err = 0 then Some string else None }"

definition utf8_string_concat :: "allocator \<Rightarrow> utf8_string \<Rightarrow> utf8_string \<Rightarrow> (int \<times> utf8_string) option" where
  "utf8_string_concat al string other =
     (let result = utf8_string_init al in
      do { (err, result) \<leftarrow> utf8_string_reserve al result (wadd (str_len string) (str_len other));
           if err < 0 then Some (err, result)
           else do { result \<leftarrow> assert_ok (utf8_string_append al result string);
                     result \<leftarrow> assert_ok (utf8_string_append al result other);
                     Some (0, result) } })"

definition utf8_string_view_concat :: "allocator \<Rightarrow> utf8_string_view_t \<Rightarrow> utf8_string \<Rightarrow> (int \<times> utf8_string) option" where
  "utf8_string_view_concat al view other =
     (let result = utf8_string_init al in
      do { (err, result) \<leftarrow> utf8_string_reserve al result (wadd (view_len view) (str_len other));
           if err < 0 then Some (err, result)
           else do { result \<leftarrow> assert_ok (utf8_string_append_view al result view);
                     result \<leftarrow> assert_ok (utf8_string_append al result other);
                     Some (0, result) } })"

definition utf8_string_concat_view :: "allocator \<Rightarrow> utf8_string \<Rightarrow> utf8_string_view_t \<Rightarrow> (int \<times> utf8_string) option" where
  "utf8_string_concat_view al string other =
     (let result = utf8_string_init al in
      do { (err, result) \<leftarrow> utf8_string_reserve al result (wadd (str_len string) (view_len other));
           if err < 0 then Some (err, result)
           else do { result \<leftarrow> assert_ok (utf8_string_append al result string);
                     result \<leftarrow> assert_ok (utf8_string_append_view al result other);
                     Some (0, result) } })"

definition utf8_string_view_concat_view ::
  "allocator \<Rightarrow> utf8_string_view_t \<Rightarrow> utf8_string_view_t \<Rightarrow> (int \<times> utf8_string) option" where
  "utf8_string_view_concat_view al view other =
     (let result = utf8_string_init al in
      do { (err, result) \<leftarrow> utf8_string_reserve al result (wadd (view_len view) (view_len other));
           if err < 0 then Some (err, result)
           else do { result \<leftarrow> assert_ok (utf8_string_append_view al result view);
                     result \<leftarrow> assert_ok (utf8_string_append_view al result other);
                     Some (0, result) } })"

definition utf8_string_concat_character :: "allocator \<Rightarrow> utf8_string \<Rightarrow> u8 \<Rightarrow> (int \<times> utf8_string) option" where
  "utf8_string_concat_character al string c =
     (let result = utf8_string_init al in
      do { (err, result) \<leftarrow> utf8_string_reserve al result (wadd (str_len string) 1);
           if err < 0 then Some (err, result)
           else do { result \<leftarrow> assert_ok (utf8_string_append al result string);
                     result \<leftarrow> assert_ok (utf8_string_append_character al result c);
                     Some (0, result) } })"

definition utf8_string_view_concat_character :: "allocator \<Rightarrow> utf8_string_view_t \<Rightarrow> u8 \<Rightarrow> (int \<times> utf8_string) option" where
  "utf8_string_view_concat_character al view c =
     (let result = utf8_string_init al in
      do { (err, result) \<leftarrow> utf8_string_reserve al result (wadd (view_len view) 1);
           if err < 0 then Some (err, result)
           else do { result \<leftarrow> assert_ok (utf8_string_append_view al result view);
                     result \<leftarrow> assert_ok (utf8_string_append_character al result c);
                     Some (0, result) } })"

definition utf8_string_concat_literal ::
  "allocator \<Rightarrow> utf8_string \<Rightarrow> bytes \<Rightarrow> nat \<Rightarrow> (int \<times> utf8_string) option" where
  "utf8_string_concat_literal al string literal n =
     (let result = utf8_string_init al in
      do { (err, result) \<leftarrow> utf8_string_reserve al result (wadd (str_len string) n);
           if err < 0 then Some (err, result)
           else do { result \<leftarrow> assert_ok (utf8_string_append al result string);
                     result \<leftarrow> assert_ok (utf8_string_append_literal al result literal n);
                     Some (0, result) } })"

definition utf8_string_view_concat_literal ::
  "allocator \<Rightarrow> utf8_string_view_t \<Rightarrow> bytes \<Rightarrow> nat \<Rightarrow> (int \<times> utf8_string) option" where
  "utf8_string_view_concat_literal al view literal n =
     (let result = utf8_string_init al in
      do { (err, result) \<leftarrow> utf8_string_reserve al result (wadd (view_len view) n);
           if err < 0 then Some (err, result)
           else do { result \<leftarrow> assert_ok (utf8_string_append_view al result view);
                     result \<leftarrow> assert_ok (utf8_string_append_literal al result literal n);
                     Some (0, result) } })"

subsection \<open>Comparison\<close>

text \<open>\<open>strncmp\<close>; of its value the standard fixes the sign, which the model returns.\<close>

fun strncmp :: "bytes \<Rightarrow> bytes \<Rightarrow> nat \<Rightarrow> int option" where
  "strncmp a b 0 = Some 0"
| "strncmp (x # a) (y # b) (Suc n) =
     (if x < y then Some (-1) else if y < x then Some 1 else if x = 0 then Some 0 else strncmp a b n)"
| "strncmp a b (Suc n) = None"

definition utf8_string_compare :: "utf8_string \<Rightarrow> utf8_string \<Rightarrow> int option" where
  "utf8_string_compare string other =
     (let a_len = str_len string; b_len = str_len other in
      do { result \<leftarrow> strncmp (str_data string) (str_data other) (if a_len < b_len then a_len else b_len);
           if result = 0 then Some (if a_len < b_len then -1 else if a_len > b_len then 1 else 0)
           else Some result })"

definition utf8_string_view_compare :: "utf8_string_view_t \<Rightarrow> utf8_string_view_t \<Rightarrow> int option" where
  "utf8_string_view_compare view other =
     (let a_len = view_len view; b_len = view_len other in
      do { result \<leftarrow> strncmp (view_data view) (view_data other) (if a_len < b_len then a_len else b_len);
           if result = 0 then Some (if a_len < b_len then -1 else if a_len > b_len then 1 else 0)
           else Some result })"

definition utf8_string_compare_literal :: "utf8_string \<Rightarrow> bytes \<Rightarrow> nat \<Rightarrow> int option" where
  "utf8_string_compare_literal string literal n =
     do { n \<leftarrow> literal_len literal n;
          let a_len = str_len string;
          let b_len = n;
          result \<leftarrow> strncmp (str_data string) literal (if a_len < b_len then a_len else b_len);
          if result = 0 then Some (if a_len < b_len then -1 else if a_len > b_len then 1 else 0)
          else Some result }"

definition utf8_string_view_compare_literal :: "utf8_string_view_t \<Rightarrow> bytes \<Rightarrow> nat \<Rightarrow> int option" where
  "utf8_string_view_compare_literal view literal n =
     do { n \<leftarrow> literal_len literal n;
          let a_len = view_len view;
          let b_len = n;
          result \<leftarrow> strncmp (view_data view) literal (if a_len < b_len then a_len else b_len);
          if result = 0 then Some (if a_len < b_len then -1 else if a_len > b_len then 1 else 0)
          else Some result }"

subsection \<open>Substrings\<close>

definition utf8_string_substring :: "utf8_string \<Rightarrow> nat \<Rightarrow> nat \<Rightarrow> utf8_string_view_t" where
  "utf8_string_substring string start stop =
     (let stop = (if stop = NEG1 \<or> stop > str_len string then str_len string else stop);
          start = (if start > stop then stop else start)
      in utf8_string_view_init (drop start (str_data string)) (wsub stop start))"

definition utf8_string_view_substring :: "utf8_string_view_t \<Rightarrow> nat \<Rightarrow> nat \<Rightarrow> utf8_string_view_t" where
  "utf8_string_view_substring view start stop =
     (let stop = (if stop = NEG1 \<or> stop > view_len view then view_len view else stop);
          start = (if start > stop then stop else start)
      in utf8_string_view_init (drop start (view_data view)) (wsub stop start))"

definition utf8_string_substring_copy :: "allocator \<Rightarrow> utf8_string \<Rightarrow> nat \<Rightarrow> nat \<Rightarrow> (int \<times> utf8_string) option" where
  "utf8_string_substring_copy al string start stop =
     (let stop = (if stop = NEG1 \<or> stop > str_len string then str_len string else stop);
          start = (if start > stop then stop else start);
          result = utf8_string_init al;
          len = wsub stop start
      in do { (err, result) \<leftarrow> utf8_string_reserve al result len;
              if err < 0 then Some (-1, result)
              else do { result \<leftarrow> str_put result 0 (drop start (str_data string)) len;
                        Some (0, result\<lparr> str_len := len \<rparr>) } })"

text \<open>Unlike the copy from a string, the copy from a view does not initialise its result.\<close>

definition utf8_string_view_substring_copy ::
  "allocator \<Rightarrow> utf8_string_view_t \<Rightarrow> nat \<Rightarrow> nat \<Rightarrow> utf8_string \<Rightarrow> (int \<times> utf8_string) option" where
  "utf8_string_view_substring_copy al view start stop result =
     (let stop = (if stop = NEG1 \<or> stop > view_len view then view_len view else stop);
          start = (if start > stop then stop else start);
          len = wsub stop start
      in do { (err, result) \<leftarrow> utf8_string_reserve al result len;
              if err < 0 then Some (-1, result)
              else do { result \<leftarrow> str_put result 0 (drop start (view_data view)) len;
                        Some (0, result\<lparr> str_len := len \<rparr>) } })"

subsection \<open>Searching\<close>

function index_loop :: "bytes \<Rightarrow> nat \<Rightarrow> nat \<Rightarrow> u8 \<Rightarrow> nat option" where
  "index_loop data i n c =
     (if i < n then do { b \<leftarrow> mem_get data i; if b = c then Some i else index_loop data (i + 1) n c }
      else Some NEG1)"
  by pat_completeness auto
termination by (relation "measure (\<lambda>(data, i, n, c). n - i)") auto

definition utf8_string_index_of_character :: "utf8_string \<Rightarrow> nat \<Rightarrow> u8 \<Rightarrow> nat option" where
  "utf8_string_index_of_character string pos c = index_loop (str_data string) pos (str_len string) c"

definition utf8_string_view_index_of_character :: "utf8_string_view_t \<Rightarrow> nat \<Rightarrow> u8 \<Rightarrow> nat option" where
  "utf8_string_view_index_of_character view pos c = index_loop (view_data view) pos (view_len view) c"

text \<open>The loop that counts down ends when \<open>i\<close> wraps below zero, which is then above \<open>pos\<close>.\<close>

partial_function (option) last_loop :: "bytes \<Rightarrow> nat \<Rightarrow> nat \<Rightarrow> u8 \<Rightarrow> nat option" where
  "last_loop data pos i c =
     (if i \<le> pos then do { b \<leftarrow> mem_get data i; if b = c then Some i else last_loop data pos (wsub i 1) c }
      else Some NEG1)"

definition utf8_string_last_index_of_character :: "utf8_string \<Rightarrow> nat \<Rightarrow> u8 \<Rightarrow> nat option" where
  "utf8_string_last_index_of_character string pos c =
     (if pos = NEG1 then let pos = wsub (str_len string) 1 in last_loop (str_data string) pos pos c
      else if pos \<ge> str_len string then Some NEG1
      else last_loop (str_data string) pos pos c)"

definition utf8_string_view_last_index_of_character :: "utf8_string_view_t \<Rightarrow> nat \<Rightarrow> u8 \<Rightarrow> nat option" where
  "utf8_string_view_last_index_of_character view pos c =
     (if pos = NEG1 then let pos = wsub (view_len view) 1 in last_loop (view_data view) pos pos c
      else if pos \<ge> view_len view then Some NEG1
      else last_loop (view_data view) pos pos c)"

declare index_loop.simps [simp del]

end
