(* ===== verification/Utf8_String_Spec.thy ===== *)
theory Utf8_String_Spec
  imports Utf8_String
begin

text \<open>
  What the string builder promises: the rounding of capacities, the invariant of a string, and the
  refinement of every edit by the same edit of a list of bytes.
\<close>

section \<open>Rounding\<close>

lemma smear_step:
  fixes w x :: u64
  assumes "\<And>i. bit x i \<longleftrightarrow> (\<exists>j. i \<le> j \<and> j < i + k \<and> bit w j)" "0 < k"
  shows "bit (x OR drop_bit k x) i \<longleftrightarrow> (\<exists>j. i \<le> j \<and> j < i + (k + k) \<and> bit w j)"
proof -
  have "bit (x OR drop_bit k x) i \<longleftrightarrow> bit x i \<or> bit x (k + i)"
    by (simp add: bit_simps)
  also have "\<dots> \<longleftrightarrow> (\<exists>j. i \<le> j \<and> j < i + (k + k) \<and> bit w j)"
    unfolding assms(1)
  proof safe
    fix j assume "i \<le> j" "j < i + (k + k)" "bit w j" "\<not> (\<exists>j. k + i \<le> j \<and> j < k + i + k \<and> bit w j)"
    then have "j < i + k" by (metis add.assoc add.commute not_less)
    then show "\<exists>j. i \<le> j \<and> j < i + k \<and> bit w j" using \<open>i \<le> j\<close> \<open>bit w j\<close> by blast
  next
    fix j assume "i \<le> j" "j < i + k" "bit w j"
    then show "\<exists>j. i \<le> j \<and> j < i + (k + k) \<and> bit w j" by (intro exI [of _ j]) simp
  next
    fix j assume "k + i \<le> j" "j < k + i + k" "bit w j"
    then show "\<exists>j. i \<le> j \<and> j < i + (k + k) \<and> bit w j" by (intro exI [of _ j]) simp
  qed
  finally show ?thesis .
qed

definition smear :: "u64 \<Rightarrow> u64" where
  "smear x0 =
    (let x1 = x0 OR drop_bit 1 x0; x2 = x1 OR drop_bit 2 x1; x3 = x2 OR drop_bit 4 x2;
         x4 = x3 OR drop_bit 8 x3; x5 = x4 OR drop_bit 16 x4 in x5 OR drop_bit 32 x5)"

lemma round_up_smear: "round_up len = smear (len - 1) + 1"
  by (simp only: round_up_def smear_def Let_def)

lemma bit_smear: "bit (smear w) i \<longleftrightarrow> (\<exists>j\<ge>i. bit w j)"
proof -
  define x1 where "x1 = w OR drop_bit 1 w"
  define x2 where "x2 = x1 OR drop_bit 2 x1"
  define x3 where "x3 = x2 OR drop_bit 4 x2"
  define x4 where "x4 = x3 OR drop_bit 8 x3"
  define x5 where "x5 = x4 OR drop_bit 16 x4"
  have 0: "bit w i \<longleftrightarrow> (\<exists>j. i \<le> j \<and> j < i + 1 \<and> bit w j)" for i
    by (auto simp: le_less_Suc_eq)
  have 1: "bit x1 i \<longleftrightarrow> (\<exists>j. i \<le> j \<and> j < i + 2 \<and> bit w j)" for i
    using smear_step [OF 0] by (simp add: x1_def)
  have 2: "bit x2 i \<longleftrightarrow> (\<exists>j. i \<le> j \<and> j < i + 4 \<and> bit w j)" for i
    using smear_step [OF 1] by (simp add: x2_def)
  have 3: "bit x3 i \<longleftrightarrow> (\<exists>j. i \<le> j \<and> j < i + 8 \<and> bit w j)" for i
    using smear_step [OF 2] by (simp add: x3_def)
  have 4: "bit x4 i \<longleftrightarrow> (\<exists>j. i \<le> j \<and> j < i + 16 \<and> bit w j)" for i
    using smear_step [OF 3] by (simp add: x4_def)
  have 5: "bit x5 i \<longleftrightarrow> (\<exists>j. i \<le> j \<and> j < i + 32 \<and> bit w j)" for i
    using smear_step [OF 4] by (simp add: x5_def)
  have "smear w = x5 OR drop_bit 32 x5"
    by (simp only: smear_def Let_def x1_def x2_def x3_def x4_def x5_def)
  moreover have "bit (x5 OR drop_bit 32 x5) i \<longleftrightarrow> (\<exists>j. i \<le> j \<and> j < i + 64 \<and> bit w j)"
    using smear_step [OF 5] by simp
  moreover have "j < i + 64" if "bit w j" for j using bit_imp_le_length [OF that] by simp
  ultimately show ?thesis by metis
qed

lemma bit_unat: "bit (unat w) j = bit w j" for w :: u64
  by (simp add: bit_unsigned_iff)

text \<open>A positive size up to \<open>2 ^ 63\<close> is rounded to the least power of two that is not below it.\<close>

lemma round_up_power:
  assumes "0 < n" "n \<le> 2 ^ 63"
  obtains k where "unat (round_up (of_nat n)) = 2 ^ k" "n \<le> 2 ^ k" "2 ^ k < 2 * n"
proof (cases "n = 1")
  case True
  have "smear 0 = 0" by (simp add: smear_def)
  with True show thesis by (intro that [of 0]) (simp_all add: round_up_smear)
next
  case False
  let ?w = "of_nat (n - 1) :: u64"
  have "0 < n - 1" using False assms by simp
  then obtain k where k: "2 ^ k \<le> n - 1" "n - 1 < 2 ^ (k + 1)"
    using ex_power_ivl1 [of 2 "n - 1"] by (metis One_nat_def Suc_leI order_refl)
  have "(2::nat) ^ k < 2 ^ 63" using k(1) assms by linarith
  then have k63: "k < 63" by (rule power_less_imp_less_exp [rotated]) simp
  have u: "unat ?w = n - 1" using assms by (intro unat_of_nat_small) simp
  have bits: "bit ?w j \<longleftrightarrow> bit (n - 1) j" for j
    using bit_unat [of ?w j] unfolding u by (rule sym)
  have top: "bit ?w k"
    unfolding bits
  proof -
    have "(n - 1) div 2 ^ k = 1" using k by (intro div_nat_eqI) simp_all
    then show "bit (n - 1) k" by (simp only: bit_iff_odd) simp
  qed
  have none: "\<not> bit ?w j" if "k < j" for j
    unfolding bits
  proof -
    have "(2::nat) ^ (k + 1) \<le> 2 ^ j" using that by (intro power_increasing) simp_all
    then have "(n - 1) div 2 ^ j = 0" using k(2) by (intro div_less) linarith
    then show "\<not> bit (n - 1) j" by (simp only: bit_iff_odd) simp
  qed
  have "smear ?w = mask (k + 1)"
  proof (rule bit_eqI)
    fix i assume "possible_bit TYPE(u64) i"
    then show "bit (smear ?w) i \<longleftrightarrow> bit (mask (k + 1) :: u64) i"
      using top none by (auto simp: bit_smear bit_mask_iff not_less less_Suc_eq_le intro: leI)
  qed
  moreover have "(of_nat n :: u64) - 1 = ?w" using assms by (simp add: of_nat_diff)
  ultimately have "round_up (of_nat n) = 2 ^ (k + 1)"
    by (simp add: round_up_smear mask_eq_exp_minus_1)
  moreover have "unat (2 ^ (k + 1) :: u64) = 2 ^ (k + 1)"
  proof -
    have "(2::nat) ^ (k + 1) < 2 ^ 64" using k63 by (intro power_strict_increasing) simp_all
    then have "unat (of_nat (2 ^ (k + 1)) :: u64) = 2 ^ (k + 1)" by (intro unat_of_nat_small) simp
    then show ?thesis by simp
  qed
  ultimately show thesis using k by (intro that [of "k + 1"]) auto
qed

end
