(* ===== verification/Utf8_String_Edit.thy ===== *)
theory Utf8_String_Edit
  imports Utf8_String_Spec
begin

text \<open>
  The edits of the string builder: every operation refines the same edit on lists of bytes and keeps the
  string well-formed, for every flavour of its argument (string, view, character or literal).
\<close>

section \<open>Invariant\<close>

definition str_ok :: "utf8_string \<Rightarrow> bool" where
  "str_ok s \<longleftrightarrow> str_len s \<le> length (str_data s) \<and>
     (if str_inline s then length (str_data s) = 8 else str_cap s = length (str_data s))"

definition str_text :: "utf8_string \<Rightarrow> bytes" where
  "str_text s = take (str_len s) (str_data s)"

definition view_text :: "utf8_string_view_t \<Rightarrow> bytes" where
  "view_text v = take (view_len v) (view_data v)"

lemma str_ok_init: "str_ok (utf8_string_init al)" "str_text (utf8_string_init al) = []"
  by (simp_all add: str_ok_def str_text_def utf8_string_init_def fresh_block_def)

lemma length_str_text [simp]: "str_ok s \<Longrightarrow> length (str_text s) = str_len s"
  by (auto simp: str_ok_def str_text_def)

text \<open>The allocator grants what a size needs.\<close>

definition room :: "allocator \<Rightarrow> utf8_string \<Rightarrow> nat \<Rightarrow> bool" where
  "room al s n \<longleftrightarrow> n \<le> length (str_data s) \<or> grants al (unat (round_up (of_nat n)))"

lemma round_up_ge: "n \<le> 2 ^ 63 \<Longrightarrow> 0 < n \<Longrightarrow> n \<le> unat (round_up (of_nat n))"
  using round_up_power [of n] by metis

lemma reserve_ok:
  assumes "str_ok s" "n \<le> 2 ^ 63" "room al s n"
  obtains s' where "utf8_string_reserve al s n = Some (0, s')" "str_ok s'" "str_text s' = str_text s"
    "str_len s' = str_len s" "n \<le> length (str_data s')"
proof (cases "n \<le> length (str_data s)")
  case True
  then have "utf8_string_reserve al s n = Some (0, s)"
    using assms(1) by (auto simp: utf8_string_reserve_def str_ok_def)
  with True assms show thesis by (intro that) simp_all
next
  case False
  let ?cap = "unat (round_up (of_nat n))"
  have g: "grants al ?cap" using False assms(3) by (simp add: room_def)
  have cap: "n \<le> ?cap" using False assms(2) by (intro round_up_ge) linarith+
  have len: "str_len s \<le> length (str_data s)" using assms(1) by (simp add: str_ok_def)
  show thesis
  proof (cases "str_inline s")
    case True
    let ?data = "take (str_len s) (str_data s) @ drop (str_len s) (fresh_block al 0 ?cap)"
    let ?s = "s\<lparr> str_data := ?data, str_cap := ?cap, str_inline := False \<rparr>"
    have l: "length ?data = ?cap" using len False cap by (simp add: fresh_block_def)
    have "utf8_string_reserve al s n = Some (0, ?s)"
      using True assms(1) False g len cap
      by (simp add: utf8_string_reserve_def str_ok_def mem_slice_def mem_write_def fresh_block_def Let_def)
    with l len cap False show thesis by (intro that [of ?s]) (simp_all add: str_ok_def str_text_def)
  next
    case heap: False
    let ?data = "str_data s @ fresh_block al (length (str_data s)) ?cap"
    let ?s = "s\<lparr> str_data := ?data, str_cap := ?cap \<rparr>"
    have l: "length ?data = ?cap" using False cap by (simp add: fresh_block_def)
    have "utf8_string_reserve al s n = Some (0, ?s)"
      using heap assms(1) False g cap by (simp add: utf8_string_reserve_def str_ok_def Let_def)
    with l len cap False heap show thesis by (intro that [of ?s]) (simp_all add: str_ok_def str_text_def)
  qed
qed

lemma reserve_fail:
  assumes "str_ok s" "\<not> room al s n"
  shows "utf8_string_reserve al s n = (if str_inline s then None else Some (-1, s))"
  using assms by (auto simp: utf8_string_reserve_def str_ok_def room_def Let_def)

text \<open>The outcome of an edit that needs \<open>n\<close> bytes and makes the text \<open>t\<close>: without memory a string on
  the heap is left as it is, and a string in its inline buffer copies to a null pointer.\<close>

definition edited :: "allocator \<Rightarrow> utf8_string \<Rightarrow> nat \<Rightarrow> bytes \<Rightarrow> (int \<times> utf8_string) option \<Rightarrow> bool" where
  "edited al s n t r \<longleftrightarrow>
     (if room al s n then \<exists>s'. r = Some (0, s') \<and> str_ok s' \<and> str_text s' = t
      else r = (if str_inline s then None else Some (-1, s)))"

section \<open>Splicing\<close>

lemma str_char_put: "str_char s pos c = str_put s pos [c] 1"
  by (auto simp: str_char_def str_put_def mem_set_def mem_slice_def mem_write_def bind_eq_Some_conv upd_conv_take_nth_drop)

lemma str_put_Some:
  "n \<le> length src \<Longrightarrow> pos + n \<le> length (str_data s) \<Longrightarrow>
   str_put s pos src n = Some (s\<lparr> str_data := take pos (str_data s) @ take n src @ drop (pos + n) (str_data s) \<rparr>)"
  by (simp add: str_put_def mem_slice_def mem_write_def)

lemma str_move_Some:
  "src + n \<le> length (str_data s) \<Longrightarrow> dst + n \<le> length (str_data s) \<Longrightarrow>
   str_move s dst src n = Some (s\<lparr> str_data := take dst (str_data s) @ take n (drop src (str_data s)) @
      drop (dst + n) (str_data s) \<rparr>)"
  by (simp add: str_move_def mem_slice_def mem_write_def)

text \<open>Replacing \<open>l\<close> bytes at \<open>pos\<close> by the first \<open>k\<close> bytes of \<open>src\<close>.\<close>

definition splice :: "nat \<Rightarrow> nat \<Rightarrow> bytes \<Rightarrow> bytes \<Rightarrow> bytes" where
  "splice pos l xs t = take pos t @ xs @ drop (pos + l) t"

lemma drop_take_app: "a \<le> length d \<Longrightarrow> drop a (take a d @ xs) = xs"
  by simp

lemma move_put:
  assumes "str_ok s" "pos + l \<le> str_len s" "str_len s - l + k \<le> length (str_data s)" "k \<le> length src"
  obtains s1 s2 where "str_move s (pos + k) (pos + l) (str_len s - pos - l) = Some s1"
    "str_put s1 pos src k = Some s2"
    "str_ok (s2\<lparr> str_len := str_len s - l + k \<rparr>)"
    "str_text (s2\<lparr> str_len := str_len s - l + k \<rparr>) = splice pos l (take k src) (str_text s)"
proof -
  let ?d = "str_data s" and ?m = "str_len s - pos - l"
  define d1 where "d1 = take (pos + k) ?d @ take ?m (drop (pos + l) ?d) @ drop (pos + k + ?m) ?d"
  let ?d2 = "take pos d1 @ take k src @ drop (pos + k) d1"
  have len: "str_len s \<le> length ?d" using assms(1) by (simp add: str_ok_def)
  have m: "pos + l + ?m = str_len s" "pos + k + ?m = str_len s - l + k" using assms(2) by simp_all
  have l1: "length d1 = length ?d" unfolding d1_def using assms len m by simp
  have l2: "length ?d2 = length ?d" using assms l1 m by simp
  have 1: "str_move s (pos + k) (pos + l) ?m = Some (s\<lparr> str_data := d1 \<rparr>)"
    unfolding d1_def using assms len m by (intro str_move_Some) simp_all
  have pk: "pos + k \<le> length ?d" using assms(3) m by linarith
  then have 2: "str_put (s\<lparr> str_data := d1 \<rparr>) pos src k = Some (s\<lparr> str_data := ?d2 \<rparr>)"
    using assms(4) l1 by (subst str_put_Some) simp_all
  have "take pos d1 = take pos ?d" unfolding d1_def using pk by simp
  moreover have "drop (pos + k) d1 = take ?m (drop (pos + l) ?d) @ drop (pos + k + ?m) ?d"
    unfolding d1_def using pk by (rule drop_take_app)
  ultimately have d2: "?d2 = take pos ?d @ take k src @ take ?m (drop (pos + l) ?d) @ drop (pos + k + ?m) ?d"
    by (simp only:)
  have tp: "take pos (str_text s) = take pos ?d" using assms(2) by (simp add: str_text_def min_absorb1)
  have "take (str_len s - l + k) ?d2 = take pos ?d @ take k src @ take ?m (drop (pos + l) ?d)"
    unfolding d2 m(2) [symmetric] using assms len m(1) by (simp add: add.commute)
  also have "take ?m (drop (pos + l) ?d) = drop (pos + l) (take (str_len s) ?d)"
    using m(1) by (simp add: drop_take)
  finally have t: "take (str_len s - l + k) ?d2 = splice pos l (take k src) (str_text s)"
    by (simp only: splice_def tp) (simp only: str_text_def)
  show thesis
    by (rule that [OF 1 2]) (use assms(1,3) l2 t in \<open>simp_all add: str_ok_def str_text_def\<close>)
qed


section \<open>Edits by a block of bytes\<close>

text \<open>The common shape of the four flavours of an edit: the first \<open>k\<close> bytes of a block are put in.\<close>

definition block_append :: "allocator \<Rightarrow> utf8_string \<Rightarrow> bytes \<Rightarrow> nat \<Rightarrow> (int \<times> utf8_string) option" where
  "block_append al s src k =
     do { (err, s) \<leftarrow> utf8_string_reserve al s (wadd (str_len s) k);
          if err < 0 then Some (-1, s)
          else do { s \<leftarrow> str_put s (str_len s) src k; Some (0, s\<lparr> str_len := wadd (str_len s) k \<rparr>) } }"

definition block_prepend :: "allocator \<Rightarrow> utf8_string \<Rightarrow> bytes \<Rightarrow> nat \<Rightarrow> (int \<times> utf8_string) option" where
  "block_prepend al s src k =
     do { (err, s) \<leftarrow> utf8_string_reserve al s (wadd (str_len s) k);
          if err < 0 then Some (-1, s)
          else do { s \<leftarrow> str_move s k 0 (str_len s); s \<leftarrow> str_put s 0 src k;
                    Some (0, s\<lparr> str_len := wadd (str_len s) k \<rparr>) } }"

definition block_insert :: "allocator \<Rightarrow> utf8_string \<Rightarrow> nat \<Rightarrow> bytes \<Rightarrow> nat \<Rightarrow> (int \<times> utf8_string) option" where
  "block_insert al s pos src k =
     (if pos > str_len s then Some (-1, s)
      else let n = wadd (str_len s) k in
        do { (err, s) \<leftarrow> utf8_string_reserve al s n;
             if err < 0 then Some (err, s)
             else do { s \<leftarrow> str_move s (wadd pos k) pos (wsub (str_len s) pos); s \<leftarrow> str_put s pos src k;
                       Some (0, s\<lparr> str_len := n \<rparr>) } })"

definition block_replace :: "allocator \<Rightarrow> utf8_string \<Rightarrow> nat \<Rightarrow> nat \<Rightarrow> bytes \<Rightarrow> nat \<Rightarrow> (int \<times> utf8_string) option" where
  "block_replace al s pos l src k =
     (if pos > str_len s then Some (-1, s)
      else let n = wsub (wadd (str_len s) k) l in
        do { (err, s) \<leftarrow> utf8_string_reserve al s n;
             if err < 0 then Some (err, s)
             else do { s \<leftarrow> str_move s (wadd pos k) (wadd pos l) (wsub (wsub (str_len s) pos) l);
                       s \<leftarrow> str_put s pos src k; Some (0, s\<lparr> str_len := n \<rparr>) } })"

named_theorems flavours

lemma append_flavours [flavours]:
  "utf8_string_append al s other = block_append al s (str_data other) (str_len other)"
  "utf8_string_append_view al s view = block_append al s (view_data view) (view_len view)"
  "utf8_string_append_character al s c = block_append al s [c] 1"
  "literal_len lit n = Some k \<Longrightarrow> utf8_string_append_literal al s lit n = block_append al s lit k"
  unfolding utf8_string_append_def utf8_string_append_view_def utf8_string_append_character_def
      utf8_string_append_literal_def block_append_def str_char_put
  by simp_all

lemma prepend_flavours [flavours]:
  "utf8_string_prepend al s other = block_prepend al s (str_data other) (str_len other)"
  "utf8_string_prepend_view al s view = block_prepend al s (view_data view) (view_len view)"
  "utf8_string_prepend_character al s c = block_prepend al s [c] 1"
  "literal_len lit n = Some k \<Longrightarrow> utf8_string_prepend_literal al s lit n = block_prepend al s lit k"
  unfolding utf8_string_prepend_def utf8_string_prepend_view_def utf8_string_prepend_character_def
      utf8_string_prepend_literal_def block_prepend_def str_char_put
  by simp_all

lemma insert_flavours [flavours]:
  "utf8_string_insert al s pos other = block_insert al s pos (str_data other) (str_len other)"
  "utf8_string_insert_view al s pos view = block_insert al s pos (view_data view) (view_len view)"
  "utf8_string_insert_character al s pos c = block_insert al s pos [c] 1"
  "literal_len lit n = Some k \<Longrightarrow> utf8_string_insert_literal al s pos lit n = block_insert al s pos lit k"
  unfolding utf8_string_insert_def utf8_string_insert_view_def utf8_string_insert_character_def
      utf8_string_insert_literal_def block_insert_def str_char_put Let_def
  by simp_all

definition clamp_len :: "utf8_string \<Rightarrow> nat \<Rightarrow> nat \<Rightarrow> nat" where
  "clamp_len s pos l = (if wadd pos l > str_len s then wsub (str_len s) pos else l)"

lemma replace_flavours [flavours]:
  "utf8_string_replace al s pos l other = block_replace al s pos (clamp_len s pos l) (str_data other) (str_len other)"
  "utf8_string_replace_view al s pos l view = block_replace al s pos (clamp_len s pos l) (view_data view) (view_len view)"
  "utf8_string_replace_character al s pos l c = block_replace al s pos l [c] 1"
  "literal_len lit n = Some k \<Longrightarrow>
     utf8_string_replace_literal al s pos l lit n = block_replace al s pos (clamp_len s pos l) lit k"
  unfolding utf8_string_replace_def utf8_string_replace_view_def utf8_string_replace_character_def
      utf8_string_replace_literal_def block_replace_def clamp_len_def str_char_put Let_def
  by simp_all

lemma editedI:
  assumes "str_ok s" "n \<le> 2 ^ 63"
    "\<And>s'. utf8_string_reserve al s n = Some (0, s') \<Longrightarrow> str_ok s' \<Longrightarrow> str_text s' = str_text s \<Longrightarrow>
       str_len s' = str_len s \<Longrightarrow> n \<le> length (str_data s') \<Longrightarrow> \<exists>s''. r = Some (0, s'') \<and> str_ok s'' \<and> str_text s'' = t"
    "utf8_string_reserve al s n = None \<Longrightarrow> r = None"
    "utf8_string_reserve al s n = Some (-1, s) \<Longrightarrow> r = Some (-1, s)"
  shows "edited al s n t r"
proof (cases "room al s n")
  case True
  show ?thesis by (rule reserve_ok [OF assms(1,2) True]) (use True assms(3) in \<open>simp add: edited_def\<close>)
qed (use reserve_fail [OF assms(1)] assms(4,5) in \<open>simp add: edited_def split: if_splits\<close>)

lemma str_len_keeps [simp]:
  "str_move s a b n = Some s' \<Longrightarrow> str_len s' = str_len s" "str_put s a src n = Some s' \<Longrightarrow> str_len s' = str_len s"
  by (auto simp: str_move_def str_put_def bind_eq_Some_conv)

lemma put_end:
  assumes "str_ok s" "str_len s + k \<le> length (str_data s)" "k \<le> length src"
  obtains s' where "str_put s (str_len s) src k = Some s'"
    "str_ok (s'\<lparr> str_len := str_len s + k \<rparr>)" "str_text (s'\<lparr> str_len := str_len s + k \<rparr>) = str_text s @ take k src"
proof -
  define d where "d = take (str_len s) (str_data s) @ take k src @ drop (str_len s + k) (str_data s)"
  have "str_put s (str_len s) src k = Some (s\<lparr> str_data := d \<rparr>)"
    unfolding d_def using assms by (intro str_put_Some) simp_all
  moreover have "length d = length (str_data s)" "take (str_len s + k) d = str_text s @ take k src"
    using assms by (simp_all add: d_def str_text_def)
  ultimately show thesis using assms by (intro that) (auto simp: str_ok_def str_text_def)
qed

lemma wadd63: "a + b \<le> 2 ^ 63 \<Longrightarrow> wadd a b = a + b"
  by (rule wadd_small) simp

lemma wsub63: "b \<le> a \<Longrightarrow> a \<le> 2 ^ 63 \<Longrightarrow> wsub a b = a - b"
  by (rule wsub_small) simp_all

lemma block_append_edited:
  assumes "str_ok s" "k \<le> length src" "str_len s + k \<le> 2 ^ 63"
  shows "edited al s (str_len s + k) (str_text s @ take k src) (block_append al s src k)"
proof (rule editedI [OF assms(1,3)])
  fix s' assume s': "utf8_string_reserve al s (str_len s + k) = Some (0, s')" "str_ok s'"
    "str_text s' = str_text s" "str_len s' = str_len s" "str_len s + k \<le> length (str_data s')"
  have room: "str_len s' + k \<le> length (str_data s')" using s'(4,5) by simp
  show "\<exists>s''. block_append al s src k = Some (0, s'') \<and> str_ok s'' \<and> str_text s'' = str_text s @ take k src"
    by (rule put_end [OF s'(2) room assms(2)]) (use s' in \<open>simp add: block_append_def wadd63 [OF assms(3)]\<close>)
qed (simp_all add: block_append_def wadd63 [OF assms(3)])

lemma block_prepend_edited:
  assumes "str_ok s" "k \<le> length src" "str_len s + k \<le> 2 ^ 63"
  shows "edited al s (str_len s + k) (splice 0 0 (take k src) (str_text s)) (block_prepend al s src k)"
proof (rule editedI [OF assms(1,3)])
  fix s' assume s': "utf8_string_reserve al s (str_len s + k) = Some (0, s')" "str_ok s'"
    "str_text s' = str_text s" "str_len s' = str_len s" "str_len s + k \<le> length (str_data s')"
  have room: "0 + 0 \<le> str_len s'" "str_len s' - 0 + k \<le> length (str_data s')" using s'(4,5) by simp_all
  show "\<exists>s''. block_prepend al s src k = Some (0, s'') \<and> str_ok s'' \<and>
      str_text s'' = splice 0 0 (take k src) (str_text s)"
    by (rule move_put [OF s'(2) room assms(2)]) (use s' in \<open>simp add: block_prepend_def wadd63 [OF assms(3)]\<close>)
qed (simp_all add: block_prepend_def wadd63 [OF assms(3)])

lemma block_insert_edited:
  assumes "str_ok s" "k \<le> length src" "str_len s + k \<le> 2 ^ 63" "pos \<le> str_len s"
  shows "edited al s (str_len s + k) (splice pos 0 (take k src) (str_text s)) (block_insert al s pos src k)"
proof (rule editedI [OF assms(1,3)])
  have w: "wadd (str_len s) k = str_len s + k" "wadd pos k = pos + k" "wsub (str_len s) pos = str_len s - pos"
    using assms by (simp_all only: wadd63 wsub63)
  fix s' assume s': "utf8_string_reserve al s (str_len s + k) = Some (0, s')" "str_ok s'"
    "str_text s' = str_text s" "str_len s' = str_len s" "str_len s + k \<le> length (str_data s')"
  have room: "pos + 0 \<le> str_len s'" "str_len s' - 0 + k \<le> length (str_data s')" using s'(4,5) assms(4) by simp_all
  show "\<exists>s''. block_insert al s pos src k = Some (0, s'') \<and> str_ok s'' \<and>
      str_text s'' = splice pos 0 (take k src) (str_text s)"
    by (rule move_put [OF s'(2) room assms(2)]) (use s' w assms(4) in \<open>simp add: block_insert_def\<close>)
qed (use assms in \<open>simp_all add: block_insert_def wadd63 [OF assms(3)]\<close>)

lemma block_replace_edited:
  assumes "str_ok s" "k \<le> length src" "str_len s + k \<le> 2 ^ 63" "pos + l \<le> str_len s"
  shows "edited al s (str_len s - l + k) (splice pos l (take k src) (str_text s)) (block_replace al s pos l src k)"
proof -
  have n: "str_len s - l + k \<le> 2 ^ 63" using assms by linarith
  have w: "wadd (str_len s) k = str_len s + k" "wadd pos k = pos + k" "wadd pos l = pos + l"
    "wsub (str_len s) pos = str_len s - pos" "wsub (str_len s - pos) l = str_len s - pos - l"
    "wsub (str_len s + k) l = str_len s - l + k"
    using assms by (simp_all add: wadd63 wsub63)
  show ?thesis
  proof (rule editedI [OF assms(1) n])
    fix s' assume s': "utf8_string_reserve al s (str_len s - l + k) = Some (0, s')" "str_ok s'"
      "str_text s' = str_text s" "str_len s' = str_len s" "str_len s - l + k \<le> length (str_data s')"
    have room: "pos + l \<le> str_len s'" "str_len s' - l + k \<le> length (str_data s')" using s'(4,5) assms(4) by simp_all
    show "\<exists>s''. block_replace al s pos l src k = Some (0, s'') \<and> str_ok s'' \<and>
        str_text s'' = splice pos l (take k src) (str_text s)"
      by (rule move_put [OF s'(2) room assms(2)]) (use s' w assms(4) in \<open>simp add: block_replace_def\<close>)
  qed (use assms w in \<open>simp_all add: block_replace_def\<close>)
qed


section \<open>All edits\<close>

datatype piece = Piece_string utf8_string | Piece_view utf8_string_view_t | Piece_char u8 | Piece_literal bytes nat

fun piece_ok :: "piece \<Rightarrow> bool" where
  "piece_ok (Piece_string s) = str_ok s"
| "piece_ok (Piece_view v) = (view_len v \<le> length (view_data v))"
| "piece_ok (Piece_char c) = True"
| "piece_ok (Piece_literal lit n) = (if n = NEG1 then 0 \<in> set lit else n \<le> length lit)"

fun piece_text :: "piece \<Rightarrow> bytes" where
  "piece_text (Piece_string s) = str_text s"
| "piece_text (Piece_view v) = view_text v"
| "piece_text (Piece_char c) = [c]"
| "piece_text (Piece_literal lit n) = (if n = NEG1 then takeWhile (\<lambda>b. b \<noteq> 0) lit else take n lit)"

datatype edit =
    Append piece
  | Prepend piece
  | Insert nat piece
  | Replace nat nat piece
  | Erase nat nat
  | Clear
  | Reserve nat
  | Shrink

fun run_edit :: "allocator \<Rightarrow> utf8_string \<Rightarrow> edit \<Rightarrow> (int \<times> utf8_string) option" where
  "run_edit al s (Append (Piece_string p)) = utf8_string_append al s p"
| "run_edit al s (Append (Piece_view v)) = utf8_string_append_view al s v"
| "run_edit al s (Append (Piece_char c)) = utf8_string_append_character al s c"
| "run_edit al s (Append (Piece_literal lit n)) = utf8_string_append_literal al s lit n"
| "run_edit al s (Prepend (Piece_string p)) = utf8_string_prepend al s p"
| "run_edit al s (Prepend (Piece_view v)) = utf8_string_prepend_view al s v"
| "run_edit al s (Prepend (Piece_char c)) = utf8_string_prepend_character al s c"
| "run_edit al s (Prepend (Piece_literal lit n)) = utf8_string_prepend_literal al s lit n"
| "run_edit al s (Insert pos (Piece_string p)) = utf8_string_insert al s pos p"
| "run_edit al s (Insert pos (Piece_view v)) = utf8_string_insert_view al s pos v"
| "run_edit al s (Insert pos (Piece_char c)) = utf8_string_insert_character al s pos c"
| "run_edit al s (Insert pos (Piece_literal lit n)) = utf8_string_insert_literal al s pos lit n"
| "run_edit al s (Replace pos l (Piece_string p)) = utf8_string_replace al s pos l p"
| "run_edit al s (Replace pos l (Piece_view v)) = utf8_string_replace_view al s pos l v"
| "run_edit al s (Replace pos l (Piece_char c)) = utf8_string_replace_character al s pos l c"
| "run_edit al s (Replace pos l (Piece_literal lit n)) = utf8_string_replace_literal al s pos l lit n"
| "run_edit al s (Erase pos l) = utf8_string_erase s pos l"
| "run_edit al s Clear = Some (0, utf8_string_clear s)"
| "run_edit al s (Reserve n) = utf8_string_reserve al s n"
| "run_edit al s Shrink = utf8_string_shrink_to_fit al s"

text \<open>The same edits of a list of bytes, and when they are within the contract: positions are inside the
  text, sizes stay below \<open>2 ^ 63\<close>, \<open>pos + len\<close> does not wrap, and the replacement by a character, which
  does not clamp its length, replaces bytes that are there.\<close>

fun edit_text :: "bytes \<Rightarrow> edit \<Rightarrow> bytes" where
  "edit_text t (Append p) = t @ piece_text p"
| "edit_text t (Prepend p) = piece_text p @ t"
| "edit_text t (Insert pos p) = take pos t @ piece_text p @ drop pos t"
| "edit_text t (Replace pos l p) = take pos t @ piece_text p @ drop (pos + l) t"
| "edit_text t (Erase pos l) = take pos t @ drop (pos + l) t"
| "edit_text t Clear = []"
| "edit_text t (Reserve n) = t"
| "edit_text t Shrink = t"

fun is_char :: "piece \<Rightarrow> bool" where
  "is_char (Piece_char c) = True" | "is_char p = False"

fun edit_ok :: "bytes \<Rightarrow> edit \<Rightarrow> bool" where
  "edit_ok t (Append p) = (piece_ok p \<and> length t + length (piece_text p) \<le> 2 ^ 63)"
| "edit_ok t (Prepend p) = (piece_ok p \<and> length t + length (piece_text p) \<le> 2 ^ 63)"
| "edit_ok t (Insert pos p) = (piece_ok p \<and> length t + length (piece_text p) \<le> 2 ^ 63 \<and> pos \<le> length t)"
| "edit_ok t (Replace pos l p) =
     (piece_ok p \<and> length t + length (piece_text p) \<le> 2 ^ 63 \<and> pos \<le> length t \<and> pos + l < 2 ^ 64 \<and>
      (is_char p \<longrightarrow> pos + l \<le> length t))"
| "edit_ok t (Erase pos l) = (length t \<le> 2 ^ 63 \<and> pos \<le> length t \<and> pos + l < 2 ^ 64)"
| "edit_ok t Clear = True"
| "edit_ok t (Reserve n) = (n \<le> 2 ^ 63)"
| "edit_ok t Shrink = True"

text \<open>A piece is the front of a block.\<close>

fun piece_block :: "piece \<Rightarrow> bytes \<times> nat" where
  "piece_block (Piece_string s) = (str_data s, str_len s)"
| "piece_block (Piece_view v) = (view_data v, view_len v)"
| "piece_block (Piece_char c) = ([c], 1)"
| "piece_block (Piece_literal lit n) = (lit, length (piece_text (Piece_literal lit n)))"

lemma strlen_takeWhile: "0 \<in> set bs \<Longrightarrow> strlen bs = Some (length (takeWhile (\<lambda>b. b \<noteq> 0) bs))"
  by (induction bs) auto

lemma literal_len_block: "piece_ok (Piece_literal lit n) \<Longrightarrow> literal_len lit n = Some (length (piece_text (Piece_literal lit n)))"
  by (auto simp: literal_len_def strlen_takeWhile)

lemma piece_block:
  assumes "piece_ok p" "piece_block p = (src, k)"
  shows "k \<le> length src" "take k src = piece_text p" "length (piece_text p) = k"
  using assms
  by (cases p; auto simp: str_ok_def str_text_def view_text_def length_takeWhile_le takeWhile_eq_take [symmetric])+

lemma run_edit_block:
  assumes "piece_ok p" "piece_block p = (src, k)"
  shows "run_edit al s (Append p) = block_append al s src k"
    "run_edit al s (Prepend p) = block_prepend al s src k"
    "run_edit al s (Insert pos p) = block_insert al s pos src k"
    "run_edit al s (Replace pos l p) = block_replace al s pos (if is_char p then l else clamp_len s pos l) src k"
proof -
  have "piece_ok (Piece_literal lit n) \<Longrightarrow> literal_len lit n = Some (length (piece_text (Piece_literal lit n)))" for lit n
    by (rule literal_len_block)
  with assms show "run_edit al s (Append p) = block_append al s src k"
    "run_edit al s (Prepend p) = block_prepend al s src k"
    "run_edit al s (Insert pos p) = block_insert al s pos src k"
    "run_edit al s (Replace pos l p) = block_replace al s pos (if is_char p then l else clamp_len s pos l) src k"
    by (cases p; force simp: flavours simp del: piece_ok.simps piece_text.simps)+
qed

lemma clamp:
  assumes "str_ok s" "str_len s \<le> 2 ^ 63" "pos \<le> str_len s" "pos + l < 2 ^ 64"
  shows "pos + clamp_len s pos l \<le> str_len s"
    "splice pos (clamp_len s pos l) xs (str_text s) = take pos (str_text s) @ xs @ drop (pos + l) (str_text s)"
proof -
  have c: "clamp_len s pos l = (if pos + l > str_len s then str_len s - pos else l)"
    using assms by (simp add: clamp_len_def wadd_small wsub63)
  then show "pos + clamp_len s pos l \<le> str_len s" using assms(3) by simp
  show "splice pos (clamp_len s pos l) xs (str_text s) = take pos (str_text s) @ xs @ drop (pos + l) (str_text s)"
    using assms(1,3) by (simp add: c splice_def)
qed

text \<open>What an edit needs of the allocator.\<close>

fun edit_size :: "utf8_string \<Rightarrow> edit \<Rightarrow> nat" where
  "edit_size s (Erase pos l) = 0"
| "edit_size s Clear = 0"
| "edit_size s (Reserve n) = n"
| "edit_size s Shrink = 0"
| "edit_size s (Replace pos l p) = str_len s - (if is_char p then l else clamp_len s pos l) + length (piece_text p)"
| "edit_size s (Append p) = str_len s + length (piece_text p)"
| "edit_size s (Prepend p) = str_len s + length (piece_text p)"
| "edit_size s (Insert pos p) = str_len s + length (piece_text p)"

lemma utf8_string_erase_text:
  assumes "str_ok s" "edit_ok (str_text s) (Erase pos l)"
  shows "\<exists>s'. utf8_string_erase s pos l = Some (0, s') \<and> str_ok s' \<and> str_text s' = edit_text (str_text s) (Erase pos l)"
proof -
  have a: "str_len s \<le> 2 ^ 63" "pos \<le> str_len s" "pos + l < 2 ^ 64" using assms by simp_all
  let ?l = "clamp_len s pos l"
  note c = clamp [OF assms(1) a]
  have w: "wadd pos ?l = pos + ?l" "wsub (str_len s) pos = str_len s - pos" "wsub (str_len s - pos) ?l = str_len s - pos - ?l"
    "wsub (str_len s) ?l = str_len s - ?l"
    using a c(1) by (simp_all add: wadd63 wsub63)
  have room: "str_len s - ?l + 0 \<le> length (str_data s)" using assms(1) by (auto simp: str_ok_def)
  obtain s1 s2 where m: "str_move s (pos + 0) (pos + ?l) (str_len s - pos - ?l) = Some s1" "str_put s1 pos [] 0 = Some s2"
    "str_ok (s2\<lparr> str_len := str_len s - ?l + 0 \<rparr>)"
    "str_text (s2\<lparr> str_len := str_len s - ?l + 0 \<rparr>) = splice pos ?l (take 0 []) (str_text s)"
    by (rule move_put [OF assms(1) c(1) room, of "[]"]) auto
  have "s2 = s1" using m(2) by (auto simp: str_put_def bind_eq_Some_conv)
  moreover have "utf8_string_erase s pos l = Some (0, s1\<lparr> str_len := str_len s - ?l \<rparr>)"
    using m(1) a w by (simp add: utf8_string_erase_def clamp_len_def [symmetric] Let_def)
  ultimately show ?thesis using m(3,4) c(2) [of "[]"] by simp
qed

lemma shrink_text:
  assumes "str_ok s" "\<forall>n. grants al n"
  shows "\<exists>s'. utf8_string_shrink_to_fit al s = Some (0, s') \<and> str_ok s' \<and> str_text s' = str_text s"
  using assms by (auto simp: utf8_string_shrink_to_fit_def str_ok_def str_text_def Let_def mem_slice_def mem_write_def
      fresh_block_def min_def)

lemma run_edit_edited:
  assumes "str_ok s" "edit_ok (str_text s) e" "e \<noteq> Shrink"
  shows "edited al s (edit_size s e) (edit_text (str_text s) e) (run_edit al s e)"
proof -
  have r0: "room al s 0" by (simp add: room_def)
  show ?thesis
  proof (cases e)
    case (Append p)
    obtain src k where b: "piece_block p = (src, k)" by (cases "piece_block p")
    have p: "piece_ok p" using assms(2) Append by simp
    note pb = piece_block [OF p b]
    show ?thesis using block_append_edited [OF assms(1) pb(1)] assms Append run_edit_block(1) [OF p b] pb by simp
  next
    case (Prepend p)
    obtain src k where b: "piece_block p = (src, k)" by (cases "piece_block p")
    have p: "piece_ok p" using assms(2) Prepend by simp
    note pb = piece_block [OF p b]
    show ?thesis using block_prepend_edited [OF assms(1) pb(1)] assms Prepend run_edit_block(2) [OF p b] pb
      by (simp add: splice_def)
  next
    case (Insert pos p)
    obtain src k where b: "piece_block p = (src, k)" by (cases "piece_block p")
    have p: "piece_ok p" using assms(2) Insert by simp
    note pb = piece_block [OF p b]
    show ?thesis using block_insert_edited [OF assms(1) pb(1), of pos] assms Insert run_edit_block(3) [OF p b] pb
      by (simp add: splice_def)
  next
    case (Replace pos l p)
    obtain src k where b: "piece_block p = (src, k)" by (cases "piece_block p")
    have p: "piece_ok p" using assms(2) Replace by simp
    note pb = piece_block [OF p b]
    have a: "str_len s + k \<le> 2 ^ 63" "pos \<le> str_len s" "pos + l < 2 ^ 64" "is_char p \<longrightarrow> pos + l \<le> str_len s"
      using assms Replace pb by simp_all
    then have "str_len s \<le> 2 ^ 63" by linarith
    note c = clamp [OF assms(1) this a(2,3)]
    let ?l = "if is_char p then l else clamp_len s pos l"
    have "pos + ?l \<le> str_len s" using c(1) a(4) by simp
    from block_replace_edited [OF assms(1) pb(1) a(1) this, of al] run_edit_block(4) [OF p b, of al s pos l]
    show ?thesis using Replace pb c(2) by (simp add: splice_def split: if_splits)
  next
    case (Erase pos l)
    then show ?thesis using utf8_string_erase_text [OF assms(1)] assms(2) r0 by (simp add: edited_def)
  next
    case Clear
    then show ?thesis using assms(1) r0
      by (auto simp: edited_def utf8_string_clear_def str_ok_def str_text_def)
  next
    case (Reserve n)
    show ?thesis unfolding Reserve run_edit.simps edit_size.simps edit_text.simps
      using assms(1,2) Reserve by (intro editedI) simp_all
  qed (use assms(3) in simp)
qed

end
