(* ===== verification/Utf8_String_Props.thy ===== *)
theory Utf8_String_Props
  imports Utf8_String_Edit
begin

text \<open>
  Sequences of edits, concatenation, substrings, comparison and search in the string builder, and the
  inputs on which its size arithmetic wraps.
\<close>

section \<open>Sequences of edits\<close>








section \<open>Wrapping sizes\<close>

lemma wadd_back: "0 < pos \<Longrightarrow> pos \<le> 2 ^ 63 \<Longrightarrow> wadd pos NEG1 = pos - 1"
  using wadd_NEG1 [of pos] by (simp add: wadd_def add.commute)

lemma wsub_back: "n < 2 ^ 63 \<Longrightarrow> wsub n NEG1 = n + 1"
  by (simp add: wsub_def NEG1_def)

text \<open>\<open>utf8_string_erase\<close> with the length \<open>(size_t) -1\<close>, which other functions of the header take for
  "to the end", does not erase but repeats a byte: \<open>pos + len\<close> wraps, the clamp does not apply, and the
  tail is moved up instead of down. When the string fills its block the move leaves the block by one
  byte.\<close>

theorem utf8_string_erase_wrap:
  assumes "str_ok s" "0 < pos" "pos \<le> str_len s" "str_len s < 2 ^ 63"
  shows "if str_len s < length (str_data s)
    then \<exists>s'. utf8_string_erase s pos NEG1 = Some (0, s') \<and>
           str_text s' = take pos (str_text s) @ drop (pos - 1) (str_text s)
    else utf8_string_erase s pos NEG1 = None"
proof -
  let ?d = "str_data s" and ?m = "str_len s - pos + 1"
  have len: "str_len s \<le> length ?d" using assms(1) by (simp add: str_ok_def)
  have w: "wadd pos NEG1 = pos - 1" "wsub (str_len s) pos = str_len s - pos" "wsub (str_len s - pos) NEG1 = ?m"
    "wsub (str_len s) NEG1 = str_len s + 1"
    using assms by (simp_all add: wadd_back wsub_back wsub63)
  have run: "utf8_string_erase s pos NEG1 =
      do { s' \<leftarrow> str_move s pos (pos - 1) ?m; Some (0, s'\<lparr> str_len := str_len s + 1 \<rparr>) }"
  proof -
    have "\<not> pos > str_len s" "\<not> wadd pos NEG1 > str_len s" using assms(2,3) w(1) by linarith+
    then have "utf8_string_erase s pos NEG1 =
        do { s' \<leftarrow> str_move s pos (pos - 1) ?m; Some (0, s'\<lparr> str_len := wsub (str_len s') NEG1 \<rparr>) }"
      by (simp only: utf8_string_erase_def Let_def w if_False)
    then show ?thesis using w(4) by (cases "str_move s pos (pos - 1) ?m") simp_all
  qed
  show ?thesis
  proof (cases "str_len s < length ?d")
    case True
    define d where "d = take pos ?d @ take ?m (drop (pos - 1) ?d) @ drop (pos + ?m) ?d"
    have m: "str_move s pos (pos - 1) ?m = Some (s\<lparr> str_data := d \<rparr>)"
      unfolding d_def using assms True by (intro str_move_Some) simp_all
    have "str_len s - (pos - 1) = ?m" using assms(2,3) by linarith
    then have "take ?m (drop (pos - 1) ?d) = drop (pos - 1) (str_text s)"
      by (simp only: str_text_def drop_take)
    moreover have "take pos (str_text s) = take pos ?d" using assms(3) by (simp add: str_text_def min_absorb1)
    moreover have "take (str_len s + 1) d = take pos ?d @ take ?m (drop (pos - 1) ?d)"
      unfolding d_def using assms(2,3) True by (simp add: Suc_diff_le)
    ultimately show ?thesis using True run m by (simp add: str_text_def)
  next
    case False
    then have "str_move s pos (pos - 1) ?m = None"
      using assms len by (auto simp: str_move_def mem_slice_def mem_write_def)
    with False run show ?thesis by simp
  qed
qed

theorem utf8_string_erase_wrap_witness:
  "\<exists>s'. utf8_string_erase \<lparr> str_data = [97, 98, 99, 0, 0, 0, 0, 0], str_len = 3, str_cap = 0, str_inline = True \<rparr> 1 NEG1
       = Some (0, s') \<and> str_text s' = [97, 97, 98, 99]"
  using utf8_string_erase_wrap
    [of "\<lparr> str_data = [97, 98, 99, 0, 0, 0, 0, 0], str_len = 3, str_cap = 0, str_inline = True \<rparr>" 1]
  by (simp add: str_ok_def str_text_def)

text \<open>\<open>strncmp\<close> stops at a null byte, so strings that differ after one compare equal.\<close>

lemma compare_stops_at_null:
  "utf8_string_view_compare (utf8_string_view_init [0, 1] 2) (utf8_string_view_init [0, 2] 2) = Some 0"
  by (simp add: utf8_string_view_compare_def utf8_string_view_init_def Let_def numeral_2_eq_2)

text \<open>A search from the end of an empty string reads far outside the string.\<close>

lemma last_index_of_empty:
  assumes "str_len s = 0" "length (str_data s) \<le> 2 ^ 63"
  shows "utf8_string_last_index_of_character s NEG1 c = None"
proof -
  have "wsub 0 1 = NEG1" by (simp add: wsub_def NEG1_def)
  moreover have "\<not> NEG1 < length (str_data s)" using assms(2) by (simp add: NEG1_def)
  ultimately show ?thesis using assms(1)
    by (simp add: utf8_string_last_index_of_character_def last_loop.simps mem_get_def)
qed

end
