(* ===== verification/Mega_Lzma.thy ===== *)
theory Mega_Lzma
  imports Prelude_C
begin

text \<open>
  The LZMA encoder of \<open>megalania\<close>: packets, the coder state with its adaptive probabilities
  (\<open>lzma_state\<close>, \<open>lzma_packet\<close>, \<open>probability_model\<close>) and the encoding of a packet
  (\<open>lzma_packet_encoder\<close>). The encoder interface is the list of the calls that it receives, so that
  the two implementations of it, the range coder and the perplexity estimate, are functions of that list.
  An access outside an array or a failed assertion is \<open>None\<close>.
\<close>

section \<open>Model\<close>

subsection \<open>Packets\<close>

datatype packet_type = INVALID | LITERAL | MATCH | SHORT_REP | LONG_REP

record LZMAPacket =
  ptype :: packet_type
  dist :: nat
  plen :: nat

definition lzma_packet_cmp :: "LZMAPacket \<Rightarrow> LZMAPacket \<Rightarrow> bool" where
  "lzma_packet_cmp a b = (ptype a = ptype b \<and> plen a = plen b \<and> dist a = dist b)"

definition literal_packet :: LZMAPacket where
  "literal_packet = \<lparr> ptype = LITERAL, dist = 0, plen = 1 \<rparr>"

text \<open>The distance is an \<open>unsigned\<close> and the length is cut to sixteen bits.\<close>

definition match_packet :: "nat \<Rightarrow> nat \<Rightarrow> LZMAPacket" where
  "match_packet d l = \<lparr> ptype = MATCH, dist = d mod 2 ^ 32, plen = l mod 2 ^ 16 \<rparr>"

definition short_rep_packet :: LZMAPacket where
  "short_rep_packet = \<lparr> ptype = SHORT_REP, dist = 0, plen = 1 \<rparr>"

definition long_rep_packet :: "nat \<Rightarrow> nat \<Rightarrow> LZMAPacket" where
  "long_rep_packet i l = \<lparr> ptype = LONG_REP, dist = i, plen = l mod 2 ^ 16 \<rparr>"

subsection \<open>State\<close>

definition NUM_POS_BITS_MAX :: nat where "NUM_POS_BITS_MAX = 4"
definition LOW_CODER_BITS :: nat where "LOW_CODER_BITS = 3"
definition LOW_CODER_SYMBOLS :: nat where "LOW_CODER_SYMBOLS = 2 ^ LOW_CODER_BITS"
definition MID_CODER_BITS :: nat where "MID_CODER_BITS = 3"
definition MID_CODER_SYMBOLS :: nat where "MID_CODER_SYMBOLS = 2 ^ MID_CODER_BITS"
definition HIGH_CODER_BITS :: nat where "HIGH_CODER_BITS = 8"
definition NUM_LEN_TO_POS_STATES :: nat where "NUM_LEN_TO_POS_STATES = 4"
definition POS_SLOT_BITS :: nat where "POS_SLOT_BITS = 6"
definition ALIGN_BITS :: nat where "ALIGN_BITS = 4"
definition END_POS_MODEL_INDEX :: nat where "END_POS_MODEL_INDEX = 14"
definition NUM_FULL_DISTANCES :: nat where "NUM_FULL_DISTANCES = 2 ^ (END_POS_MODEL_INDEX div 2)"
definition NUM_STATES :: nat where "NUM_STATES = 12"
definition LIT_PROBS_SIZE :: nat where "LIT_PROBS_SIZE = 0x300"
definition NUM_BIT_MODEL_TOTAL_BITS :: nat where "NUM_BIT_MODEL_TOTAL_BITS = 11"
definition NUM_MOVE_BITS :: nat where "NUM_MOVE_BITS = 5"

definition PROB_INIT_VAL :: u16 where
  "PROB_INIT_VAL = of_nat (2 ^ NUM_BIT_MODEL_TOTAL_BITS div 2)"

record LengthProbabilityModel =
  choice_1 :: u16
  choice_2 :: u16
  low_coder :: "u16 list list"
  mid_coder :: "u16 list list"
  high_coder :: "u16 list"

record DistanceProbabilityModel =
  pos_slot_coder :: "u16 list list"
  align_coder :: "u16 list"
  pos_coder :: "u16 list"

record ContextStateProbabilityModel =
  is_match :: "u16 list"
  is_rep :: "u16 list"
  is_rep_g0 :: "u16 list"
  is_rep_g1 :: "u16 list"
  is_rep_g2 :: "u16 list"
  is_rep0_long :: "u16 list"

record LZMAProbabilityModel =
  lit_probs :: "u16 list"
  len_probs :: LengthProbabilityModel
  rep_len_probs :: LengthProbabilityModel
  dist_probs :: DistanceProbabilityModel
  ctx_probs :: ContextStateProbabilityModel

record LZMAProperties =
  prop_lc :: nat
  prop_lp :: nat
  prop_pb :: nat

record LZMAState =
  sdata :: bytes
  properties :: LZMAProperties
  ctx_state :: nat
  dists :: "nat list"
  probs :: LZMAProbabilityModel
  position :: nat

definition init_len_probs :: LengthProbabilityModel where
  "init_len_probs =
    \<lparr> choice_1 = PROB_INIT_VAL, choice_2 = PROB_INIT_VAL,
      low_coder = replicate (2 ^ NUM_POS_BITS_MAX) (replicate (2 ^ LOW_CODER_BITS) PROB_INIT_VAL),
      mid_coder = replicate (2 ^ NUM_POS_BITS_MAX) (replicate (2 ^ MID_CODER_BITS) PROB_INIT_VAL),
      high_coder = replicate (2 ^ HIGH_CODER_BITS) PROB_INIT_VAL \<rparr>"

definition lzma_state_init_probs :: LZMAProbabilityModel where
  "lzma_state_init_probs =
    \<lparr> lit_probs = replicate LIT_PROBS_SIZE PROB_INIT_VAL,
      len_probs = init_len_probs,
      rep_len_probs = init_len_probs,
      dist_probs = \<lparr> pos_slot_coder = replicate NUM_LEN_TO_POS_STATES (replicate (2 ^ POS_SLOT_BITS) PROB_INIT_VAL),
        align_coder = replicate (2 ^ ALIGN_BITS) PROB_INIT_VAL,
        pos_coder = replicate (1 + NUM_FULL_DISTANCES - END_POS_MODEL_INDEX) PROB_INIT_VAL \<rparr>,
      ctx_probs = \<lparr> is_match = replicate (NUM_STATES * 2 ^ NUM_POS_BITS_MAX) PROB_INIT_VAL,
        is_rep = replicate NUM_STATES PROB_INIT_VAL, is_rep_g0 = replicate NUM_STATES PROB_INIT_VAL,
        is_rep_g1 = replicate NUM_STATES PROB_INIT_VAL, is_rep_g2 = replicate NUM_STATES PROB_INIT_VAL,
        is_rep0_long = replicate (NUM_STATES * 2 ^ NUM_POS_BITS_MAX) PROB_INIT_VAL \<rparr> \<rparr>"

definition lzma_state_init :: "bytes \<Rightarrow> LZMAProperties \<Rightarrow> LZMAState" where
  "lzma_state_init data props =
    \<lparr> sdata = data, properties = props, ctx_state = 0, dists = [0, 0, 0, 0],
      probs = lzma_state_init_probs, position = 0 \<rparr>"

definition lzma_state_update_ctx_state :: "LZMAState \<Rightarrow> packet_type \<Rightarrow> LZMAState option" where
  "lzma_state_update_ctx_state st t =
    (let c = ctx_state st in
     case t of
       LITERAL \<Rightarrow> Some (st\<lparr> ctx_state := (if c < 4 then 0 else if c < 10 then c - 3 else c - 6) \<rparr>)
     | MATCH \<Rightarrow> Some (st\<lparr> ctx_state := (if c < 7 then 7 else 10) \<rparr>)
     | SHORT_REP \<Rightarrow> Some (st\<lparr> ctx_state := (if c < 7 then 9 else 11) \<rparr>)
     | LONG_REP \<Rightarrow> Some (st\<lparr> ctx_state := (if c < 7 then 8 else 11) \<rparr>)
     | INVALID \<Rightarrow> None)"

definition lzma_state_push_distance :: "LZMAState \<Rightarrow> nat \<Rightarrow> LZMAState" where
  "lzma_state_push_distance st d =
    (let ds = dists st;
         ds = ds[3 := ds ! 2];
         ds = ds[2 := ds ! 1];
         ds = ds[1 := ds ! 0];
         ds = ds[0 := d]
     in st\<lparr> dists := ds \<rparr>)"

definition lzma_state_promote_distance_at :: "LZMAState \<Rightarrow> nat \<Rightarrow> LZMAState option" where
  "lzma_state_promote_distance_at st i =
    (if i < 4 then
       let ds = dists st;
           d = ds ! i;
           ds = (if i > 2 then ds[3 := ds ! 2] else ds);
           ds = (if i > 1 then ds[2 := ds ! 1] else ds);
           ds = (if i > 0 then ds[1 := ds ! 0] else ds);
           ds = ds[0 := d]
       in Some (st\<lparr> dists := ds \<rparr>)
     else None)"

subsection \<open>Probability model\<close>

text \<open>The calls that an encoder receives.\<close>

datatype enc_call = Enc_bit bool u16 | Enc_direct nat nat

definition encode_bit :: "bool \<Rightarrow> u16 \<Rightarrow> enc_call \<times> u16" where
  "encode_bit b prob =
    (let v = ucast prob :: u32;
         v = (if b then v - drop_bit NUM_MOVE_BITS v
              else v + drop_bit NUM_MOVE_BITS (push_bit NUM_BIT_MODEL_TOTAL_BITS 1 - v))
     in (Enc_bit b prob, ucast v))"

definition encode_bit_at :: "bool \<Rightarrow> u16 list \<Rightarrow> nat \<Rightarrow> (enc_call \<times> u16 list) option" where
  "encode_bit_at b ps i =
    do { prob \<leftarrow> mem_get ps i; let (e, prob) = encode_bit b prob; Some (e, ps[i := prob]) }"

definition encode_direct_bits :: "nat \<Rightarrow> nat \<Rightarrow> enc_call" where
  "encode_direct_bits bits num_bits = Enc_direct bits num_bits"

text \<open>The loops of the bit trees; the tree begins at offset \<open>base\<close> of the array.\<close>

fun bit_tree_loop :: "nat \<Rightarrow> u16 list \<Rightarrow> nat \<Rightarrow> nat \<Rightarrow> (enc_call list \<times> u16 list) option" where
  "bit_tree_loop bits ps m 0 = Some ([], ps)"
| "bit_tree_loop bits ps m (Suc bit_index) =
     (let b = odd (drop_bit bit_index bits) in
      do { (e, ps) \<leftarrow> encode_bit_at b ps m;
           (es, ps) \<leftarrow> bit_tree_loop bits ps (2 * m + of_bool b) bit_index;
           Some (e # es, ps) })"

definition encode_bit_tree :: "nat \<Rightarrow> u16 list \<Rightarrow> nat \<Rightarrow> (enc_call list \<times> u16 list) option" where
  "encode_bit_tree bits ps num_bits = bit_tree_loop bits ps 1 num_bits"

fun bit_tree_reverse_loop :: "nat \<Rightarrow> u16 list \<Rightarrow> nat \<Rightarrow> nat \<Rightarrow> nat \<Rightarrow> (enc_call list \<times> u16 list) option" where
  "bit_tree_reverse_loop bits ps base m 0 = Some ([], ps)"
| "bit_tree_reverse_loop bits ps base m (Suc n) =
     (let b = odd bits in
      do { (e, ps) \<leftarrow> encode_bit_at b ps (base + m);
           (es, ps) \<leftarrow> bit_tree_reverse_loop (bits div 2) ps base (2 * m + of_bool b) n;
           Some (e # es, ps) })"

definition encode_bit_tree_reverse :: "nat \<Rightarrow> u16 list \<Rightarrow> nat \<Rightarrow> nat \<Rightarrow> (enc_call list \<times> u16 list) option" where
  "encode_bit_tree_reverse bits ps base num_bits = bit_tree_reverse_loop bits ps base 1 num_bits"

subsection \<open>Encoding a packet\<close>

record LZMAPacketHeader =
  h_match :: bool
  h_rep :: bool
  h_b3 :: bool
  h_b4 :: bool
  h_b5 :: bool

definition put_ctx :: "LZMAState \<Rightarrow> ContextStateProbabilityModel \<Rightarrow> LZMAState" where
  "put_ctx st cp = st\<lparr> probs := (probs st)\<lparr> ctx_probs := cp \<rparr> \<rparr>"

definition lzma_encode_packet_header :: "LZMAState \<Rightarrow> LZMAPacketHeader \<Rightarrow> (enc_call list \<times> LZMAState) option" where
  "lzma_encode_packet_header st head =
    (let cp = ctx_probs (probs st);
         ctx_pos_bits = 0;
         ctx = ctx_state st;
         ctx_pos_state = ctx * 2 ^ NUM_POS_BITS_MAX + ctx_pos_bits
     in do {
       (e1, ps) \<leftarrow> encode_bit_at (h_match head) (is_match cp) ctx_pos_state;
       let cp = cp\<lparr> is_match := ps \<rparr>;
       if \<not> h_match head then Some ([e1], put_ctx st cp)
       else do {
         (e2, ps) \<leftarrow> encode_bit_at (h_rep head) (is_rep cp) ctx;
         let cp = cp\<lparr> is_rep := ps \<rparr>;
         if \<not> h_rep head then Some ([e1, e2], put_ctx st cp)
         else do {
           (e3, ps) \<leftarrow> encode_bit_at (h_b3 head) (is_rep_g0 cp) ctx;
           let cp = cp\<lparr> is_rep_g0 := ps \<rparr>;
           if h_b3 head then do {
             (e4, ps) \<leftarrow> encode_bit_at (h_b4 head) (is_rep_g1 cp) ctx;
             let cp = cp\<lparr> is_rep_g1 := ps \<rparr>;
             if h_b4 head then do {
               (e5, ps) \<leftarrow> encode_bit_at (h_b5 head) (is_rep_g2 cp) ctx;
               let cp = cp\<lparr> is_rep_g2 := ps \<rparr>;
               Some ([e1, e2, e3, e4, e5], put_ctx st cp) }
             else Some ([e1, e2, e3, e4], put_ctx st cp) }
           else do {
             (e4, ps) \<leftarrow> encode_bit_at (h_b4 head) (is_rep0_long cp) ctx_pos_state;
             let cp = cp\<lparr> is_rep0_long := ps \<rparr>;
             Some ([e1, e2, e3, e4], put_ctx st cp) } } } })"

definition lzma_encode_length ::
  "LengthProbabilityModel \<Rightarrow> nat \<Rightarrow> (enc_call list \<times> LengthProbabilityModel) option" where
  "lzma_encode_length lp len =
    (let ctx_pos_bits = 0 in
     if len < 2 then None
     else
       let len = len - 2 in
       if len < LOW_CODER_SYMBOLS then
         (let (e1, p) = encode_bit False (choice_1 lp); lp = lp\<lparr> choice_1 := p \<rparr> in
          do { ps \<leftarrow> mem_get (low_coder lp) ctx_pos_bits;
               (es, ps) \<leftarrow> encode_bit_tree len ps LOW_CODER_BITS;
               Some (e1 # es, lp\<lparr> low_coder := (low_coder lp)[ctx_pos_bits := ps] \<rparr>) })
       else
         let len = len - LOW_CODER_SYMBOLS; (e1, p) = encode_bit True (choice_1 lp); lp = lp\<lparr> choice_1 := p \<rparr> in
         if len < MID_CODER_SYMBOLS then
           (let (e2, p) = encode_bit False (choice_2 lp); lp = lp\<lparr> choice_2 := p \<rparr> in
            do { ps \<leftarrow> mem_get (mid_coder lp) ctx_pos_bits;
                 (es, ps) \<leftarrow> encode_bit_tree len ps MID_CODER_BITS;
                 Some (e1 # e2 # es, lp\<lparr> mid_coder := (mid_coder lp)[ctx_pos_bits := ps] \<rparr>) })
         else
           let len = len - MID_CODER_SYMBOLS; (e2, p) = encode_bit True (choice_2 lp); lp = lp\<lparr> choice_2 := p \<rparr> in
           do { (es, ps) \<leftarrow> encode_bit_tree len (high_coder lp) HIGH_CODER_BITS;
                Some (e1 # e2 # es, lp\<lparr> high_coder := ps \<rparr>) })"

text \<open>\<open>32 - __builtin_clz(val)\<close>: the number of bits of a positive number.\<close>

fun get_msb32 :: "nat \<Rightarrow> nat" where
  "get_msb32 v = (if v = 0 then 0 else Suc (get_msb32 (v div 2)))"

declare get_msb32.simps [simp del]

definition lzma_encode_distance :: "LZMAState \<Rightarrow> nat \<Rightarrow> nat \<Rightarrow> (enc_call list \<times> LZMAState) option" where
  "lzma_encode_distance st d len =
    (let len_ctx = len - 2;
         len_ctx = (if len_ctx \<ge> NUM_LEN_TO_POS_STATES then NUM_LEN_TO_POS_STATES - 1 else len_ctx);
         dp = dist_probs (probs st);
         put = (\<lambda>dp. st\<lparr> probs := (probs st)\<lparr> dist_probs := dp \<rparr> \<rparr>)
     in do {
       slot_ps \<leftarrow> mem_get (pos_slot_coder dp) len_ctx;
       if d < 4 then do {
         (es, ps) \<leftarrow> encode_bit_tree d slot_ps POS_SLOT_BITS;
         Some (es, put (dp\<lparr> pos_slot_coder := (pos_slot_coder dp)[len_ctx := ps] \<rparr>)) }
       else do {
         let num_low_bits = get_msb32 d - 2;
         let low_bits = d mod 2 ^ num_low_bits;
         let high_bits = d div 2 ^ num_low_bits;
         let pos_slot = num_low_bits * 2 + high_bits;
         (es, ps) \<leftarrow> encode_bit_tree pos_slot slot_ps POS_SLOT_BITS;
         let dp = dp\<lparr> pos_slot_coder := (pos_slot_coder dp)[len_ctx := ps] \<rparr>;
         if pos_slot < END_POS_MODEL_INDEX then do {
           let pos_coder_ctx = high_bits * 2 ^ num_low_bits - pos_slot;
           (fs, ps) \<leftarrow> encode_bit_tree_reverse low_bits (pos_coder dp) pos_coder_ctx num_low_bits;
           Some (es @ fs, put (dp\<lparr> pos_coder := ps \<rparr>)) }
         else do {
           let num_direct_bits = num_low_bits - ALIGN_BITS;
           let direct_bits = low_bits div 2 ^ ALIGN_BITS;
           let low_bits = low_bits mod 2 ^ ALIGN_BITS;
           let e = encode_direct_bits direct_bits num_direct_bits;
           (fs, ps) \<leftarrow> encode_bit_tree_reverse low_bits (align_coder dp) 0 ALIGN_BITS;
           Some (es @ e # fs, put (dp\<lparr> align_coder := ps \<rparr>)) } } })"

text \<open>The loop over the bits of a literal, from the top bit down to bit \<open>0\<close>.\<close>

fun literal_loop :: "nat \<Rightarrow> nat \<Rightarrow> bool \<Rightarrow> u16 list \<Rightarrow> nat \<Rightarrow> nat \<Rightarrow> (enc_call list \<times> u16 list) option" where
  "literal_loop lit match_byte matched ps symbol 0 = Some ([], ps)"
| "literal_loop lit match_byte matched ps symbol (Suc i) =
     (let b = odd (drop_bit i lit);
          match_bit = odd (drop_bit i match_byte);
          ctx_index = (if matched then symbol + (1 + of_bool match_bit) * 256 else symbol);
          matched = (matched \<and> match_bit = b)
      in do { (e, ps) \<leftarrow> encode_bit_at b ps ctx_index;
              (es, ps) \<leftarrow> literal_loop lit match_byte matched ps (2 * symbol + of_bool b) i;
              Some (e # es, ps) })"

definition byte_at_distance :: "LZMAState \<Rightarrow> nat \<Rightarrow> u8 option" where
  "byte_at_distance st d = mem_get (sdata st) (wsub (wsub (position st) d) 1)"

definition lzma_encode_literal :: "LZMAState \<Rightarrow> (enc_call list \<times> LZMAState) option" where
  "lzma_encode_literal st =
    do { (es, st) \<leftarrow> lzma_encode_packet_header st \<lparr> h_match = False, h_rep = False, h_b3 = False, h_b4 = False, h_b5 = False \<rparr>;
         lit \<leftarrow> mem_get (sdata st) (position st);
         let matched = (ctx_state st \<ge> 7);
         match_byte \<leftarrow> (if matched then byte_at_distance st (dists st ! 0) else Some 0);
         (fs, ps) \<leftarrow> literal_loop (unat lit) (unat match_byte) matched (lit_probs (probs st)) 1 8;
         Some (es @ fs, st\<lparr> probs := (probs st)\<lparr> lit_probs := ps \<rparr> \<rparr>) }"

definition lzma_encode_match :: "LZMAState \<Rightarrow> nat \<Rightarrow> nat \<Rightarrow> (enc_call list \<times> LZMAState) option" where
  "lzma_encode_match st d len =
    do { (es, st) \<leftarrow> lzma_encode_packet_header st \<lparr> h_match = True, h_rep = False, h_b3 = False, h_b4 = False, h_b5 = False \<rparr>;
         let st = lzma_state_push_distance st d;
         (fs, lp) \<leftarrow> lzma_encode_length (len_probs (probs st)) len;
         let st = st\<lparr> probs := (probs st)\<lparr> len_probs := lp \<rparr> \<rparr>;
         (gs, st) \<leftarrow> lzma_encode_distance st d len;
         Some (es @ fs @ gs, st) }"

definition lzma_encode_short_rep :: "LZMAState \<Rightarrow> (enc_call list \<times> LZMAState) option" where
  "lzma_encode_short_rep st =
    lzma_encode_packet_header st \<lparr> h_match = True, h_rep = True, h_b3 = False, h_b4 = False, h_b5 = False \<rparr>"

definition lzma_encode_long_rep :: "LZMAState \<Rightarrow> nat \<Rightarrow> nat \<Rightarrow> (enc_call list \<times> LZMAState) option" where
  "lzma_encode_long_rep st dist_index len =
    do { (es, st) \<leftarrow> lzma_encode_packet_header st
           \<lparr> h_match = True, h_rep = True, h_b3 = (dist_index \<noteq> 0), h_b4 = (dist_index \<noteq> 1), h_b5 = (dist_index \<noteq> 2) \<rparr>;
         st \<leftarrow> lzma_state_promote_distance_at st dist_index;
         (fs, lp) \<leftarrow> lzma_encode_length (rep_len_probs (probs st)) len;
         Some (es @ fs, st\<lparr> probs := (probs st)\<lparr> rep_len_probs := lp \<rparr> \<rparr>) }"

definition lzma_encode_packet :: "LZMAState \<Rightarrow> LZMAPacket \<Rightarrow> (enc_call list \<times> LZMAState) option" where
  "lzma_encode_packet st packet =
    do { (es, st) \<leftarrow> (case ptype packet of
             LITERAL \<Rightarrow> lzma_encode_literal st
           | MATCH \<Rightarrow> lzma_encode_match st (dist packet) (plen packet)
           | SHORT_REP \<Rightarrow> lzma_encode_short_rep st
           | LONG_REP \<Rightarrow> lzma_encode_long_rep st (dist packet) (plen packet)
           | INVALID \<Rightarrow> None);
         st \<leftarrow> lzma_state_update_ctx_state st (ptype packet);
         Some (es, st\<lparr> position := position st + plen packet \<rparr>) }"

end
