(* ===== verification/Mega_Decode.thy ===== *)
theory Mega_Decode
  imports Mega_Lzma
begin

text \<open>
  The reference decoder of LZMA streams (for the properties \<open>lc = lp = pb = 0\<close>), as the format
  defines it, over a source of bits, and the invariant of the coder state: the shape of the probability
  arrays, the range of the probabilities, of the context state and of the distances.
\<close>

section \<open>Probabilities\<close>

text \<open>A probability stays between 31 and 2017, so neither bit value ever has probability zero.\<close>

definition prob_ok :: "u16 \<Rightarrow> bool" where
  "prob_ok p \<longleftrightarrow> 31 \<le> unat p \<and> unat p \<le> 2017"

definition adapt :: "bool \<Rightarrow> u16 \<Rightarrow> u16" where
  "adapt b p = of_nat (if b then unat p - unat p div 32 else unat p + (2048 - unat p) div 32)"

lemma encode_bit_adapt:
  assumes "prob_ok p"
  shows "encode_bit b p = (Enc_bit b p, adapt b p)" "prob_ok (adapt b p)"
proof -
  have p: "31 \<le> unat p" "unat p \<le> 2017" using assms by (simp_all add: prob_ok_def)
  let ?v = "ucast p :: u32"
  have v: "unat ?v = unat p" by (rule unat_ucast_up) simp
  have d: "unat (drop_bit 5 w) = unat w div 32" for w :: u32
    using unat_drop [of 5 w] by simp
  have s: "unat (push_bit 11 1 - ?v) = 2048 - unat p"
    using p v by (subst unat_sub) (simp_all add: word_le_nat_alt)
  have 1: "unat (?v - drop_bit 5 ?v) = unat p - unat p div 32"
    using p v d by (subst unat_sub) (simp_all add: word_le_nat_alt)
  have q: "32 * (y div 32) \<le> y" for y :: nat by simp
  have b0: "unat p + (2048 - unat p) div 32 \<le> 2017" "31 \<le> unat p + (2048 - unat p) div 32"
    using p q [of "2048 - unat p"] by linarith+
  then have 0: "unat (?v + drop_bit 5 (push_bit 11 1 - ?v)) = unat p + (2048 - unat p) div 32"
    using p v d s by (subst unat_plus_if') simp
  have u: "(ucast w :: u16) = of_nat (unat w)" for w :: u32 by (metis of_nat_unat)
  show "encode_bit b p = (Enc_bit b p, adapt b p)"
    unfolding encode_bit_def Let_def NUM_MOVE_BITS_def NUM_BIT_MODEL_TOTAL_BITS_def u adapt_def
    using 0 1 by (cases b) (simp_all only: if_True if_False)
  have b1: "31 \<le> unat p - unat p div 32" "unat p - unat p div 32 \<le> 2017" using p q [of "unat p"] by linarith+
  have small: "unat (of_nat n :: u16) = n" if "n \<le> 2017" for n using that by (intro unat_of_nat_small) simp
  show "prob_ok (adapt b p)"
    using b0 b1 small by (cases b) (simp_all add: prob_ok_def adapt_def del: of_nat_add of_nat_diff)
qed

definition arr_ok :: "nat \<Rightarrow> u16 list \<Rightarrow> bool" where
  "arr_ok n ps \<longleftrightarrow> length ps = n \<and> (\<forall>p \<in> set ps. prob_ok p)"

lemma arr_ok_upd: "arr_ok n ps \<Longrightarrow> prob_ok p \<Longrightarrow> arr_ok n (ps[i := p])"
  unfolding arr_ok_def using set_update_subset_insert by fastforce

lemma arr_ok_nth: "arr_ok n ps \<Longrightarrow> i < n \<Longrightarrow> prob_ok (ps ! i)"
  by (auto simp: arr_ok_def)

lemma arr_ok_length: "arr_ok n ps \<Longrightarrow> length ps = n"
  by (simp add: arr_ok_def)

lemma encode_bit_at_ok:
  assumes "arr_ok n ps" "i < n"
  shows "encode_bit_at b ps i = Some (Enc_bit b (ps ! i), ps[i := adapt b (ps ! i)])"
    "prob_ok (ps ! i)" "arr_ok n (ps[i := adapt b (ps ! i)])"
proof -
  show p: "prob_ok (ps ! i)" using assms by (rule arr_ok_nth)
  show "encode_bit_at b ps i = Some (Enc_bit b (ps ! i), ps[i := adapt b (ps ! i)])"
    using assms(2) arr_ok_length [OF assms(1)] encode_bit_adapt(1) [OF p]
    by (simp add: encode_bit_at_def mem_get_nth)
  show "arr_ok n (ps[i := adapt b (ps ! i)])"
    using assms(1) encode_bit_adapt(2) [OF p] by (rule arr_ok_upd)
qed

lemma prob_ok_init: "prob_ok PROB_INIT_VAL"
  by (simp add: prob_ok_def PROB_INIT_VAL_def NUM_BIT_MODEL_TOTAL_BITS_def)

lemma arr_ok_replicate [simp]: "arr_ok n (replicate n PROB_INIT_VAL)"
  by (simp add: arr_ok_def prob_ok_init)

text \<open>The calls that a decoder can follow.\<close>

fun call_ok :: "enc_call \<Rightarrow> bool" where
  "call_ok (Enc_bit b p) = prob_ok p"
| "call_ok (Enc_direct bits n) = (0 < n \<and> n < 32 \<and> bits < 2 ^ n)"

section \<open>The reference decoder\<close>

record 'r bit_source =
  get_bit :: "'r \<Rightarrow> u16 \<Rightarrow> (bool \<times> 'r) option"
  get_direct :: "'r \<Rightarrow> nat \<Rightarrow> (nat \<times> 'r) option"

definition dec_bit_at :: "'r bit_source \<Rightarrow> 'r \<Rightarrow> u16 list \<Rightarrow> nat \<Rightarrow> (bool \<times> u16 list \<times> 'r) option" where
  "dec_bit_at S r ps i =
     do { p \<leftarrow> mem_get ps i; (b, r) \<leftarrow> get_bit S r p; Some (b, ps[i := adapt b p], r) }"

fun dec_tree :: "'r bit_source \<Rightarrow> 'r \<Rightarrow> u16 list \<Rightarrow> nat \<Rightarrow> nat \<Rightarrow> (nat \<times> u16 list \<times> 'r) option" where
  "dec_tree S r ps m 0 = Some (0, ps, r)"
| "dec_tree S r ps m (Suc n) =
     do { (b, ps, r) \<leftarrow> dec_bit_at S r ps m;
          (v, ps, r) \<leftarrow> dec_tree S r ps (2 * m + of_bool b) n;
          Some (of_bool b * 2 ^ n + v, ps, r) }"

fun dec_rev_tree :: "'r bit_source \<Rightarrow> 'r \<Rightarrow> u16 list \<Rightarrow> nat \<Rightarrow> nat \<Rightarrow> nat \<Rightarrow> (nat \<times> u16 list \<times> 'r) option" where
  "dec_rev_tree S r ps base m 0 = Some (0, ps, r)"
| "dec_rev_tree S r ps base m (Suc n) =
     do { (b, ps, r) \<leftarrow> dec_bit_at S r ps (base + m);
          (v, ps, r) \<leftarrow> dec_rev_tree S r ps base (2 * m + of_bool b) n;
          Some (of_bool b + 2 * v, ps, r) }"

datatype kind = Lit | Match | Short_Rep | Rep nat

definition dec_kind :: "'r bit_source \<Rightarrow> 'r \<Rightarrow> ContextStateProbabilityModel \<Rightarrow> nat \<Rightarrow>
    (kind \<times> ContextStateProbabilityModel \<times> 'r) option" where
  "dec_kind S r cp c =
     do { (b, ps, r) \<leftarrow> dec_bit_at S r (is_match cp) (16 * c);
          let cp = cp\<lparr> is_match := ps \<rparr>;
          if \<not> b then Some (Lit, cp, r) else do {
          (b, ps, r) \<leftarrow> dec_bit_at S r (is_rep cp) c;
          let cp = cp\<lparr> is_rep := ps \<rparr>;
          if \<not> b then Some (Match, cp, r) else do {
          (b, ps, r) \<leftarrow> dec_bit_at S r (is_rep_g0 cp) c;
          let cp = cp\<lparr> is_rep_g0 := ps \<rparr>;
          if \<not> b then do {
            (b, ps, r) \<leftarrow> dec_bit_at S r (is_rep0_long cp) (16 * c);
            Some (if b then Rep 0 else Short_Rep, cp\<lparr> is_rep0_long := ps \<rparr>, r) }
          else do {
            (b, ps, r) \<leftarrow> dec_bit_at S r (is_rep_g1 cp) c;
            let cp = cp\<lparr> is_rep_g1 := ps \<rparr>;
            if \<not> b then Some (Rep 1, cp, r) else do {
            (b, ps, r) \<leftarrow> dec_bit_at S r (is_rep_g2 cp) c;
            Some (if b then Rep 3 else Rep 2, cp\<lparr> is_rep_g2 := ps \<rparr>, r) } } } } }"

definition dec_len :: "'r bit_source \<Rightarrow> 'r \<Rightarrow> LengthProbabilityModel \<Rightarrow> (nat \<times> LengthProbabilityModel \<times> 'r) option" where
  "dec_len S r lp =
     do { (b, r) \<leftarrow> get_bit S r (choice_1 lp);
          let lp = lp\<lparr> choice_1 := adapt b (choice_1 lp) \<rparr>;
          if \<not> b then do {
            ps \<leftarrow> mem_get (low_coder lp) 0;
            (v, ps, r) \<leftarrow> dec_tree S r ps 1 3;
            Some (v + 2, lp\<lparr> low_coder := (low_coder lp)[0 := ps] \<rparr>, r) }
          else do {
            (b, r) \<leftarrow> get_bit S r (choice_2 lp);
            let lp = lp\<lparr> choice_2 := adapt b (choice_2 lp) \<rparr>;
            if \<not> b then do {
              ps \<leftarrow> mem_get (mid_coder lp) 0;
              (v, ps, r) \<leftarrow> dec_tree S r ps 1 3;
              Some (v + 10, lp\<lparr> mid_coder := (mid_coder lp)[0 := ps] \<rparr>, r) }
            else do {
              (v, ps, r) \<leftarrow> dec_tree S r (high_coder lp) 1 8;
              Some (v + 18, lp\<lparr> high_coder := ps \<rparr>, r) } } }"

definition dec_dist :: "'r bit_source \<Rightarrow> 'r \<Rightarrow> DistanceProbabilityModel \<Rightarrow> nat \<Rightarrow>
    (nat \<times> DistanceProbabilityModel \<times> 'r) option" where
  "dec_dist S r dp len =
     do { let k = min (len - 2) 3;
          ps \<leftarrow> mem_get (pos_slot_coder dp) k;
          (slot, ps, r) \<leftarrow> dec_tree S r ps 1 6;
          let dp = dp\<lparr> pos_slot_coder := (pos_slot_coder dp)[k := ps] \<rparr>;
          if slot < 4 then Some (slot, dp, r)
          else do {
            let n = slot div 2 - 1;
            let top = (2 + slot mod 2) * 2 ^ n;
            if slot < 14 then do {
              (v, ps, r) \<leftarrow> dec_rev_tree S r (pos_coder dp) (top - slot) 1 n;
              Some (top + v, dp\<lparr> pos_coder := ps \<rparr>, r) }
            else do {
              (d, r) \<leftarrow> get_direct S r (n - 4);
              (v, ps, r) \<leftarrow> dec_rev_tree S r (align_coder dp) 0 1 4;
              Some (top + d * 16 + v, dp\<lparr> align_coder := ps \<rparr>, r) } } }"

fun dec_lit_loop :: "'r bit_source \<Rightarrow> 'r \<Rightarrow> nat \<Rightarrow> bool \<Rightarrow> u16 list \<Rightarrow> nat \<Rightarrow> nat \<Rightarrow> (nat \<times> u16 list \<times> 'r) option" where
  "dec_lit_loop S r mb matched ps symbol 0 = Some (symbol, ps, r)"
| "dec_lit_loop S r mb matched ps symbol (Suc i) =
     (let match_bit = odd (mb div 2 ^ i) in
      do { (b, ps, r) \<leftarrow> dec_bit_at S r ps (if matched then 256 * (1 + of_bool match_bit) + symbol else symbol);
           dec_lit_loop S r mb (matched \<and> match_bit = b) ps (2 * symbol + of_bool b) i })"

text \<open>The state of the decoder: what it has written, the context state, the last distances and the
  probabilities.\<close>

record decoder =
  written :: bytes
  dctx :: nat
  reps :: "nat list"
  dprobs :: LZMAProbabilityModel

fun copy_match :: "nat \<Rightarrow> nat \<Rightarrow> bytes \<Rightarrow> bytes option" where
  "copy_match d 0 out = Some out"
| "copy_match d (Suc n) out =
     (if d < length out then copy_match d n (out @ [out ! (length out - d - 1)]) else None)"

definition to_front :: "nat \<Rightarrow> nat list \<Rightarrow> nat list" where
  "to_front i ds = ds ! i # take i ds @ drop (Suc i) ds"

definition lit_ctx :: "nat \<Rightarrow> nat" where
  "lit_ctx c = (if c < 4 then 0 else if c < 10 then c - 3 else c - 6)"

definition dec_match_byte :: "decoder \<Rightarrow> u8 option" where
  "dec_match_byte d =
     (if dctx d < 7 then Some 0 else mem_get (written d) (wsub (length (written d)) (reps d ! 0 + 1)))"

definition dec_literal :: "'r bit_source \<Rightarrow> decoder \<Rightarrow> 'r \<Rightarrow> (decoder \<times> 'r) option" where
  "dec_literal S d r =
     do { mb \<leftarrow> dec_match_byte d;
          (v, ps, r) \<leftarrow> dec_lit_loop S r (unat mb) (7 \<le> dctx d) (lit_probs (dprobs d)) 1 8;
          Some (d\<lparr> written := written d @ [of_nat (v - 256)], dctx := lit_ctx (dctx d),
                   dprobs := (dprobs d)\<lparr> lit_probs := ps \<rparr> \<rparr>, r) }"

definition dec_match :: "'r bit_source \<Rightarrow> decoder \<Rightarrow> 'r \<Rightarrow> (decoder \<times> 'r) option" where
  "dec_match S d r =
     do { (len, lp, r) \<leftarrow> dec_len S r (len_probs (dprobs d));
          (ds, dp, r) \<leftarrow> dec_dist S r (dist_probs (dprobs d)) len;
          out \<leftarrow> copy_match ds len (written d);
          Some (d\<lparr> written := out, dctx := (if dctx d < 7 then 7 else 10), reps := ds # take 3 (reps d),
                   dprobs := (dprobs d)\<lparr> len_probs := lp, dist_probs := dp \<rparr> \<rparr>, r) }"

definition dec_short_rep :: "decoder \<Rightarrow> decoder option" where
  "dec_short_rep d =
     do { out \<leftarrow> copy_match (reps d ! 0) 1 (written d);
          Some (d\<lparr> written := out, dctx := (if dctx d < 7 then 9 else 11) \<rparr>) }"

definition dec_rep :: "'r bit_source \<Rightarrow> decoder \<Rightarrow> nat \<Rightarrow> 'r \<Rightarrow> (decoder \<times> 'r) option" where
  "dec_rep S d i r =
     do { (len, lp, r) \<leftarrow> dec_len S r (rep_len_probs (dprobs d));
          out \<leftarrow> copy_match (reps d ! i) len (written d);
          Some (d\<lparr> written := out, dctx := (if dctx d < 7 then 8 else 11), reps := to_front i (reps d),
                   dprobs := (dprobs d)\<lparr> rep_len_probs := lp \<rparr> \<rparr>, r) }"

definition dec_body :: "'r bit_source \<Rightarrow> kind \<Rightarrow> decoder \<Rightarrow> 'r \<Rightarrow> (decoder \<times> 'r) option" where
  "dec_body S k d r =
     (case k of
        Lit \<Rightarrow> dec_literal S d r
      | Match \<Rightarrow> dec_match S d r
      | Short_Rep \<Rightarrow> map_option (\<lambda>d. (d, r)) (dec_short_rep d)
      | Rep i \<Rightarrow> dec_rep S d i r)"

definition dec_step :: "'r bit_source \<Rightarrow> decoder \<Rightarrow> 'r \<Rightarrow> (decoder \<times> 'r) option" where
  "dec_step S d r =
     do { (k, cp, r) \<leftarrow> dec_kind S r (ctx_probs (dprobs d)) (dctx d);
          dec_body S k (d\<lparr> dprobs := (dprobs d)\<lparr> ctx_probs := cp \<rparr> \<rparr>) r }"

definition dec_start :: decoder where
  "dec_start = \<lparr> written = [], dctx = 0, reps = [0, 0, 0, 0], dprobs = lzma_state_init_probs \<rparr>"

text \<open>Decoding up to a given size.\<close>

partial_function (option) dec_stream :: "'r bit_source \<Rightarrow> nat \<Rightarrow> decoder \<Rightarrow> 'r \<Rightarrow> (decoder \<times> 'r) option" where
  "dec_stream S n d r =
     (if length (written d) < n then do { (d, r) \<leftarrow> dec_step S d r; dec_stream S n d r } else Some (d, r))"

end
