(* ===== verification/Mega_Sync.thy ===== *)
theory Mega_Sync
  imports Mega_Decode
begin

text \<open>
  The encoder and the reference decoder stay in step: the interface of a source that reads back the
  calls of the encoder, and for each part of a packet the fact that the encoder succeeds, keeps its arrays
  well-formed and is followed by the decoder over every such source.
\<close>

section \<open>Shape of the probabilities\<close>

definition len_ok :: "LengthProbabilityModel \<Rightarrow> bool" where
  "len_ok lp \<longleftrightarrow> prob_ok (choice_1 lp) \<and> prob_ok (choice_2 lp) \<and>
     length (low_coder lp) = 16 \<and> (\<forall>ps \<in> set (low_coder lp). arr_ok 8 ps) \<and>
     length (mid_coder lp) = 16 \<and> (\<forall>ps \<in> set (mid_coder lp). arr_ok 8 ps) \<and> arr_ok 256 (high_coder lp)"

definition dist_ok :: "DistanceProbabilityModel \<Rightarrow> bool" where
  "dist_ok dp \<longleftrightarrow> length (pos_slot_coder dp) = 4 \<and> (\<forall>ps \<in> set (pos_slot_coder dp). arr_ok 64 ps) \<and>
     arr_ok 16 (align_coder dp) \<and> arr_ok 115 (pos_coder dp)"

definition ctx_ok :: "ContextStateProbabilityModel \<Rightarrow> bool" where
  "ctx_ok cp \<longleftrightarrow> arr_ok 192 (is_match cp) \<and> arr_ok 12 (is_rep cp) \<and> arr_ok 12 (is_rep_g0 cp) \<and>
     arr_ok 12 (is_rep_g1 cp) \<and> arr_ok 12 (is_rep_g2 cp) \<and> arr_ok 192 (is_rep0_long cp)"

definition probs_ok :: "LZMAProbabilityModel \<Rightarrow> bool" where
  "probs_ok pm \<longleftrightarrow> arr_ok 768 (lit_probs pm) \<and> len_ok (len_probs pm) \<and> len_ok (rep_len_probs pm) \<and>
     dist_ok (dist_probs pm) \<and> ctx_ok (ctx_probs pm)"

lemmas mega_consts = NUM_POS_BITS_MAX_def LOW_CODER_BITS_def LOW_CODER_SYMBOLS_def MID_CODER_BITS_def
  MID_CODER_SYMBOLS_def HIGH_CODER_BITS_def NUM_LEN_TO_POS_STATES_def POS_SLOT_BITS_def ALIGN_BITS_def
  END_POS_MODEL_INDEX_def NUM_FULL_DISTANCES_def NUM_STATES_def LIT_PROBS_SIZE_def

lemma probs_ok_init: "probs_ok lzma_state_init_probs"
proof -
  have "len_ok init_len_probs" by (simp add: len_ok_def init_len_probs_def mega_consts prob_ok_init)
  then show ?thesis
    by (simp add: probs_ok_def lzma_state_init_probs_def dist_ok_def ctx_ok_def mega_consts)
qed

lemma put_ctx_inject [simp]: "put_ctx st a = put_ctx st b \<longleftrightarrow> a = b"
proof
  assume "put_ctx st a = put_ctx st b"
  then have "ctx_probs (probs (put_ctx st a)) = ctx_probs (probs (put_ctx st b))" by simp
  then show "a = b" by (simp add: put_ctx_def)
qed simp

text \<open>What a packet header says.\<close>

definition kind_of :: "LZMAPacketHeader \<Rightarrow> kind" where
  "kind_of h = (if \<not> h_match h then Lit else if \<not> h_rep h then Match
     else if \<not> h_b3 h then (if h_b4 h then Rep 0 else Short_Rep)
     else if \<not> h_b4 h then Rep 1 else if h_b5 h then Rep 3 else Rep 2)"

section \<open>Sources that read back calls\<close>

text \<open>Over a source that reads back \<open>es\<close>, a decoder continues as \<open>g\<close> after \<open>es\<close>.\<close>

definition follows :: "('r \<Rightarrow> enc_call list \<Rightarrow> bool) \<Rightarrow> ('r \<Rightarrow> 'x) \<Rightarrow> enc_call list \<Rightarrow> ('r \<Rightarrow> 'x) \<Rightarrow> bool" where
  "follows reads f es g \<longleftrightarrow> (\<forall>r cs. reads r (es @ cs) \<longrightarrow> (\<exists>r'. f r = g r' \<and> reads r' cs))"

lemma follows_Nil: "follows reads g [] g"
  by (auto simp: follows_def)

lemma follows_bind:
  assumes "follows reads f es (\<lambda>r. Some (v, w, r))" "follows reads (\<lambda>r. k v w r) fs g"
  shows "follows reads (\<lambda>r. f r \<bind> (\<lambda>(v, w, r). k v w r)) (es @ fs) g"
  unfolding follows_def
proof (intro allI impI)
  fix r cs assume "reads r ((es @ fs) @ cs)"
  then obtain r1 where "f r = Some (v, w, r1)" "reads r1 (fs @ cs)"
    using assms(1) unfolding follows_def by (metis append_assoc)
  with assms(2) show "\<exists>r'. f r \<bind> (\<lambda>(v, w, r). k v w r) = g r' \<and> reads r' cs"
    unfolding follows_def by auto
qed

lemma follows_last:
  assumes "follows reads f es (\<lambda>r. Some (v, w, r))" "\<And>r. k v w r = g r"
  shows "follows reads (\<lambda>r. f r \<bind> (\<lambda>(v, w, r). k v w r)) es g"
proof -
  have "(\<lambda>r. k v w r) = g" using assms(2) by blast
  then show ?thesis using follows_bind [where k = k, OF assms(1), of "[]" g] by (simp add: follows_Nil)
qed

lemma le_mult_power: "k \<le> k * 2 ^ n" for k :: nat
  using mult_le_mono2 [of 1 "2 ^ n" k] by simp

lemma mod_power_Suc: "bits mod 2 ^ Suc n = of_bool (odd (bits div 2 ^ n)) * 2 ^ n + bits mod 2 ^ n" for bits :: nat
proof -
  have "bits mod 2 ^ Suc n = 2 ^ n * (bits div 2 ^ n mod 2) + bits mod 2 ^ n"
    using mod_mult2_eq [of bits "2 ^ n" 2] by (simp add: mult.commute)
  then show ?thesis by (simp add: of_bool_odd_eq_mod_2)
qed

locale bit_reader =
  fixes S :: "'r bit_source" and reads :: "'r \<Rightarrow> enc_call list \<Rightarrow> bool"
  assumes read_bit: "reads r (Enc_bit b p # cs) \<Longrightarrow> prob_ok p \<Longrightarrow> \<exists>r'. get_bit S r p = Some (b, r') \<and> reads r' cs"
    and read_direct: "reads r (Enc_direct v n # cs) \<Longrightarrow> 0 < n \<Longrightarrow> n < 32 \<Longrightarrow> v < 2 ^ n \<Longrightarrow>
      \<exists>r'. get_direct S r n = Some (v, r') \<and> reads r' cs"
begin

lemma bit_at:
  assumes "arr_ok n ps" "i < n"
  shows "follows reads (\<lambda>r. dec_bit_at S r ps i) [Enc_bit b (ps ! i)] (\<lambda>r. Some (b, ps[i := adapt b (ps ! i)], r))"
  unfolding follows_def using read_bit [OF _ arr_ok_nth [OF assms(1,2)]] arr_ok_length [OF assms(1)] assms(2)
  by (fastforce simp: dec_bit_at_def mem_get_nth)

lemma bit_at_bind:
  assumes "arr_ok n ps" "i < n" "follows reads (\<lambda>r. k b (ps[i := adapt b (ps ! i)]) r) es g"
  shows "follows reads (\<lambda>r. dec_bit_at S r ps i \<bind> (\<lambda>(b, ps, r). k b ps r)) (Enc_bit b (ps ! i) # es) g"
proof -
  have "follows reads (\<lambda>r. dec_bit_at S r ps i \<bind> (\<lambda>(b, ps, r). k b ps r)) ([Enc_bit b (ps ! i)] @ es) g"
    by (rule follows_bind [where k = k]) (rule bit_at [OF assms(1,2)], rule assms(3))
  then show ?thesis by simp
qed

lemma bit_bind:
  assumes "prob_ok p" "follows reads (\<lambda>r. k b r) es g"
  shows "follows reads (\<lambda>r. get_bit S r p \<bind> (\<lambda>(b, r). k b r)) (Enc_bit b p # es) g"
  unfolding follows_def
proof (intro allI impI)
  fix r cs assume "reads r ((Enc_bit b p # es) @ cs)"
  then obtain r1 where "get_bit S r p = Some (b, r1)" "reads r1 (es @ cs)" using read_bit [OF _ assms(1), of r b "es @ cs"] by auto
  with assms(2) show "\<exists>r'. get_bit S r p \<bind> (\<lambda>(b, r). k b r) = g r' \<and> reads r' cs" unfolding follows_def by auto
qed

lemma direct_bind:
  assumes "0 < n" "n < 32" "v < 2 ^ n" "follows reads (\<lambda>r. k v r) es g"
  shows "follows reads (\<lambda>r. get_direct S r n \<bind> (\<lambda>(v, r). k v r)) (Enc_direct v n # es) g"
  unfolding follows_def
proof (intro allI impI)
  fix r cs assume "reads r ((Enc_direct v n # es) @ cs)"
  then obtain r1 where "get_direct S r n = Some (v, r1)" "reads r1 (es @ cs)" using read_direct [OF _ assms(1-3), of r "es @ cs"] by auto
  with assms(4) show "\<exists>r'. get_direct S r n \<bind> (\<lambda>(v, r). k v r) = g r' \<and> reads r' cs" unfolding follows_def by auto
qed

lemma tree:
  "arr_ok N ps \<Longrightarrow> (m + 1) * 2 ^ n \<le> 2 * N \<Longrightarrow>
   \<exists>es ps'. bit_tree_loop bits ps m n = Some (es, ps') \<and> arr_ok N ps' \<and> list_all call_ok es \<and>
     follows reads (\<lambda>r. dec_tree S r ps m n) es (\<lambda>r. Some (bits mod 2 ^ n, ps', r))"
proof (induction n arbitrary: ps m)
  case (Suc n)
  let ?b = "odd (drop_bit n bits)"
  let ?ps = "ps[m := adapt ?b (ps ! m)]"
  have "m + 1 \<le> (m + 1) * 2 ^ n" by (rule le_mult_power)
  also have "\<dots> \<le> N" using Suc.prems(2) by simp
  finally have m: "m < N" by simp
  note e = encode_bit_at_ok [OF Suc.prems(1) m]
  have "(2 * m + of_bool ?b + 1) * 2 ^ n \<le> (2 * m + 2) * 2 ^ n" by simp
  also have "\<dots> \<le> 2 * N" using Suc.prems(2) by (simp add: algebra_simps)
  finally obtain es ps' where IH: "bit_tree_loop bits ?ps (2 * m + of_bool ?b) n = Some (es, ps')" "arr_ok N ps'"
    "list_all call_ok es"
    "follows reads (\<lambda>r. dec_tree S r ?ps (2 * m + of_bool ?b) n) es (\<lambda>r. Some (bits mod 2 ^ n, ps', r))"
    using Suc.IH [OF e(3)] by blast
  have v: "bits mod 2 ^ Suc n = of_bool ?b * 2 ^ n + bits mod 2 ^ n"
    unfolding mod_power_Suc drop_bit_eq_div ..
  have "follows reads (\<lambda>r. dec_tree S r ps m (Suc n)) (Enc_bit ?b (ps ! m) # es) (\<lambda>r. Some (bits mod 2 ^ Suc n, ps', r))"
    unfolding v dec_tree.simps
    using follows_bind [OF IH(4) follows_Nil, of "\<lambda>v w r. Some (of_bool ?b * 2 ^ n + v, w, r)"]
    by (intro bit_at_bind [OF Suc.prems(1) m]) simp
  with e(1) [of ?b] e(2) IH(1-3) show ?case by (auto simp: Let_def)
qed (auto simp: follows_Nil)

lemma bit_tree:
  assumes "arr_ok N ps" "2 ^ n \<le> N" "bits < 2 ^ n"
  shows "\<exists>es ps'. encode_bit_tree bits ps n = Some (es, ps') \<and> arr_ok N ps' \<and> list_all call_ok es \<and>
     follows reads (\<lambda>r. dec_tree S r ps 1 n) es (\<lambda>r. Some (bits, ps', r))"
  using tree [OF assms(1), of 1 n bits] assms(2,3) by (simp add: encode_bit_tree_def)

lemma rev_tree:
  "arr_ok N ps \<Longrightarrow> 2 * base + (m + 1) * 2 ^ n \<le> 2 * N \<Longrightarrow> bits < 2 ^ n \<Longrightarrow>
   \<exists>es ps'. bit_tree_reverse_loop bits ps base m n = Some (es, ps') \<and> arr_ok N ps' \<and> list_all call_ok es \<and>
     follows reads (\<lambda>r. dec_rev_tree S r ps base m n) es (\<lambda>r. Some (bits, ps', r))"
proof (induction n arbitrary: ps m bits)
  case (Suc n)
  let ?b = "odd bits"
  let ?ps = "ps[base + m := adapt ?b (ps ! (base + m))]"
  have "m + 1 \<le> (m + 1) * 2 ^ n" by (rule le_mult_power)
  also have "\<dots> + base \<le> N" using Suc.prems(2) by simp
  finally have m: "base + m < N" by simp
  note e = encode_bit_at_ok [OF Suc.prems(1) m]
  have half: "bits div 2 < 2 ^ n" using Suc.prems(3) by (simp add: less_mult_imp_div_less)
  have "2 * base + (2 * m + of_bool ?b + 1) * 2 ^ n \<le> 2 * base + (2 * m + 2) * 2 ^ n" by simp
  also have "\<dots> \<le> 2 * N" using Suc.prems(2) by (simp add: algebra_simps)
  finally obtain es ps' where IH: "bit_tree_reverse_loop (bits div 2) ?ps base (2 * m + of_bool ?b) n = Some (es, ps')"
    "arr_ok N ps'" "list_all call_ok es"
    "follows reads (\<lambda>r. dec_rev_tree S r ?ps base (2 * m + of_bool ?b) n) es (\<lambda>r. Some (bits div 2, ps', r))"
    using Suc.IH [OF e(3) _ half] by blast
  have v: "of_bool ?b + 2 * (bits div 2) = bits" by (simp add: of_bool_odd_eq_mod_2)
  have "follows reads (\<lambda>r. dec_rev_tree S r ps base m (Suc n)) (Enc_bit ?b (ps ! (base + m)) # es) (\<lambda>r. Some (bits, ps', r))"
    unfolding dec_rev_tree.simps
    using follows_bind [OF IH(4) follows_Nil, of "\<lambda>w p r. Some (of_bool ?b + 2 * w, p, r)"] v
    by (intro bit_at_bind [OF Suc.prems(1) m]) simp
  with e(1) [of ?b] e(2) IH(1-3) show ?case by (auto simp: Let_def)
qed (auto simp: follows_Nil)

end

section \<open>Header, length, distance\<close>

context bit_reader begin

lemma header:
  assumes cp: "ctx_ok (ctx_probs (probs st))" and c: "ctx_state st < 12"
  shows "\<exists>es cp'. lzma_encode_packet_header st h = Some (es, put_ctx st cp') \<and> ctx_ok cp' \<and> list_all call_ok es \<and>
    follows reads (\<lambda>r. dec_kind S r (ctx_probs (probs st)) (ctx_state st)) es (\<lambda>r. Some (kind_of h, cp', r))"
proof -
  let ?cp = "ctx_probs (probs st)" and ?c = "ctx_state st"
  have a: "arr_ok 192 (is_match ?cp)" "arr_ok 12 (is_rep ?cp)" "arr_ok 12 (is_rep_g0 ?cp)"
    "arr_ok 12 (is_rep_g1 ?cp)" "arr_ok 12 (is_rep_g2 ?cp)" "arr_ok 192 (is_rep0_long ?cp)"
    using cp by (simp_all add: ctx_ok_def)
  have c16: "16 * ?c < 192" using c by simp
  note e = encode_bit_at_ok [OF a(1) c16] encode_bit_at_ok [OF a(2) c] encode_bit_at_ok [OF a(3) c]
    encode_bit_at_ok [OF a(4) c] encode_bit_at_ok [OF a(5) c] encode_bit_at_ok [OF a(6) c16]
  note d = bit_at_bind [OF a(1) c16] bit_at_bind [OF a(2) c] bit_at_bind [OF a(3) c] bit_at_bind [OF a(4) c]
    bit_at_bind [OF a(5) c] bit_at_bind [OF a(6) c16]
  note defs = lzma_encode_packet_header_def dec_kind_def kind_of_def Let_def mega_consts mult.commute [of ?c 16]
  consider "\<not> h_match h" | "h_match h" "\<not> h_rep h" | "h_match h" "h_rep h" "\<not> h_b3 h" "\<not> h_b4 h"
    | "h_match h" "h_rep h" "\<not> h_b3 h" "h_b4 h"
    | "h_match h" "h_rep h" "h_b3 h" "\<not> h_b4 h" | "h_match h" "h_rep h" "h_b3 h" "h_b4 h" "\<not> h_b5 h"
    | "h_match h" "h_rep h" "h_b3 h" "h_b4 h" "h_b5 h" by blast
  then show ?thesis
    by cases (auto simp: defs e ctx_ok_def a intro!: d follows_Nil)
qed

end

lemma get_msb32_bounds: "0 < v \<Longrightarrow> 2 ^ (get_msb32 v - 1) \<le> v \<and> v < 2 ^ get_msb32 v \<and> 0 < get_msb32 v"
proof (induction v rule: get_msb32.induct)
  case (1 v)
  show ?case
  proof (cases "v < 2")
    case True
    with 1 have "v = 1" by simp
    then show ?thesis by (simp add: get_msb32.simps)
  next
    case False
    then have IH: "2 ^ (get_msb32 (v div 2) - 1) \<le> v div 2" "v div 2 < 2 ^ get_msb32 (v div 2)" "0 < get_msb32 (v div 2)"
      using 1 by auto
    have m: "get_msb32 v = Suc (get_msb32 (v div 2))" using 1(2) by (subst get_msb32.simps) simp
    have "(2::nat) ^ get_msb32 (v div 2) = 2 * 2 ^ (get_msb32 (v div 2) - 1)"
      using IH(3) by (cases "get_msb32 (v div 2)") simp_all
    moreover have "2 * (v div 2) \<le> v" "v < 2 * (v div 2) + 2" by simp_all
    ultimately show ?thesis using IH unfolding m by simp linarith
  qed
qed

text \<open>The slot of a distance and what is left below it.\<close>

lemma distance_slot:
  assumes "4 \<le> d" "d < 2 ^ 32"
  defines "n \<equiv> get_msb32 d - 2"
  shows "1 \<le> n" "n \<le> 30" "d div 2 ^ n = 2 \<or> d div 2 ^ n = 3"
proof -
  let ?k = "get_msb32 d"
  have b: "2 ^ (?k - 1) \<le> d" "d < 2 ^ ?k" using get_msb32_bounds [of d] assms by auto
  have "(2::nat) ^ 2 < 2 ^ ?k" using b(2) assms(1) by simp
  then have k3: "3 \<le> ?k" by (metis Suc_leI eval_nat_numeral(3) one_less_numeral_iff power_less_imp_less_exp semiring_norm(76))
  have "(2::nat) ^ (?k - 1) < 2 ^ 32" using b(1) assms(2) by linarith
  then have "?k - 1 < 32" by (rule power_less_imp_less_exp [rotated]) simp
  with k3 show "1 \<le> n" "n \<le> 30" unfolding n_def by simp_all
  have k: "?k = n + 2" using k3 unfolding n_def by simp
  have "2 * 2 ^ n \<le> d" "d < 4 * 2 ^ n" using b unfolding k by simp_all
  then have "2 \<le> d div 2 ^ n" "d div 2 ^ n < 4"
    by (simp_all add: less_eq_div_iff_mult_less_eq less_mult_imp_div_less)
  then show "d div 2 ^ n = 2 \<or> d div 2 ^ n = 3" by linarith
qed

lemma small_cases: "1 \<le> n \<Longrightarrow> n \<le> 5 \<Longrightarrow> n \<in> {1, 2, 3, 4, 5 :: nat}"
  by auto

lemma pos_coder_room:
  assumes "1 \<le> n" "n \<le> 5" "h = 2 \<or> h = (3::nat)"
  shows "2 * (h * 2 ^ n - (n * 2 + h)) + (1 + 1) * 2 ^ n \<le> 2 * 115"
  using small_cases [OF assms(1,2)] assms(3) by auto

context bit_reader begin

lemma length_code:
  assumes "len_ok lp" "2 \<le> len" "len \<le> 273"
  shows "\<exists>es lp'. lzma_encode_length lp len = Some (es, lp') \<and> len_ok lp' \<and> list_all call_ok es \<and>
    follows reads (\<lambda>r. dec_len S r lp) es (\<lambda>r. Some (len, lp', r))"
proof -
  have c: "prob_ok (choice_1 lp)" "prob_ok (choice_2 lp)" "0 < length (low_coder lp)" "0 < length (mid_coder lp)"
    "arr_ok 8 (low_coder lp ! 0)" "arr_ok 8 (mid_coder lp ! 0)" "arr_ok 256 (high_coder lp)"
    using assms(1) by (auto simp: len_ok_def)
  note e = encode_bit_adapt [OF c(1)] encode_bit_adapt [OF c(2)]
  note defs = lzma_encode_length_def dec_len_def Let_def mega_consts mem_get_nth c
  have up: "len_ok lp \<Longrightarrow> arr_ok 8 ps \<Longrightarrow> \<forall>qs \<in> set ((low_coder lp)[0 := ps]). arr_ok 8 qs"
     "len_ok lp \<Longrightarrow> arr_ok 8 ps \<Longrightarrow> \<forall>qs \<in> set ((mid_coder lp)[0 := ps]). arr_ok 8 qs" for ps
    unfolding len_ok_def by (metis insertE set_update_subset_insert subsetD)+
  consider "len < 10" | "10 \<le> len" "len < 18" | "18 \<le> len" by linarith
  then show ?thesis
  proof cases
    case 1
    have "len - 2 < 2 ^ 3" using 1 by simp
    from bit_tree [OF c(5) _ this] obtain es ps where
      t: "encode_bit_tree (len - 2) (low_coder lp ! 0) 3 = Some (es, ps)" "arr_ok 8 ps" "list_all call_ok es"
      "follows reads (\<lambda>r. dec_tree S r (low_coder lp ! 0) 1 3) es (\<lambda>r. Some (len - 2, ps, r))" by auto
    let ?lp = "lp\<lparr> choice_1 := adapt False (choice_1 lp), low_coder := (low_coder lp)[0 := ps] \<rparr>"
    have "follows reads (\<lambda>r. dec_len S r lp) (Enc_bit False (choice_1 lp) # es) (\<lambda>r. Some (len, ?lp, r))"
      using assms(2) c(3) by (auto simp: defs simp del: One_nat_def intro!: bit_bind follows_last [OF t(4)])
    then show ?thesis using 1 assms t e c up(1) [OF assms(1) t(2)] by (auto simp: defs len_ok_def)
  next
    case 2
    have "len - 10 < 2 ^ 3" using 2 by simp
    from bit_tree [OF c(6) _ this] obtain es ps where
      t: "encode_bit_tree (len - 10) (mid_coder lp ! 0) 3 = Some (es, ps)" "arr_ok 8 ps" "list_all call_ok es"
      "follows reads (\<lambda>r. dec_tree S r (mid_coder lp ! 0) 1 3) es (\<lambda>r. Some (len - 10, ps, r))" by auto
    let ?lp = "lp\<lparr> choice_1 := adapt True (choice_1 lp), choice_2 := adapt False (choice_2 lp),
        mid_coder := (mid_coder lp)[0 := ps] \<rparr>"
    have "follows reads (\<lambda>r. dec_len S r lp) (Enc_bit True (choice_1 lp) # Enc_bit False (choice_2 lp) # es)
        (\<lambda>r. Some (len, ?lp, r))"
      using 2 c(4) by (auto simp: defs simp del: One_nat_def intro!: bit_bind follows_last [OF t(4)])
    then show ?thesis using 2 assms t e c up(2) [OF assms(1) t(2)] by (auto simp: defs len_ok_def)
  next
    case 3
    have "len - 18 < 2 ^ 8" using 3 assms(3) by simp
    from bit_tree [OF c(7) _ this] obtain es ps where
      t: "encode_bit_tree (len - 18) (high_coder lp) 8 = Some (es, ps)" "arr_ok 256 ps" "list_all call_ok es"
      "follows reads (\<lambda>r. dec_tree S r (high_coder lp) 1 8) es (\<lambda>r. Some (len - 18, ps, r))" by auto
    let ?lp = "lp\<lparr> choice_1 := adapt True (choice_1 lp), choice_2 := adapt True (choice_2 lp), high_coder := ps \<rparr>"
    have "follows reads (\<lambda>r. dec_len S r lp) (Enc_bit True (choice_1 lp) # Enc_bit True (choice_2 lp) # es)
        (\<lambda>r. Some (len, ?lp, r))"
      using 3 by (auto simp: defs simp del: One_nat_def intro!: bit_bind follows_last [OF t(4)])
    then show ?thesis using 3 assms t e c by (auto simp: defs len_ok_def)
  qed
qed

end

lemma set_upd_all: "\<forall>x \<in> set xs. P x \<Longrightarrow> P y \<Longrightarrow> \<forall>x \<in> set (xs[i := y]). P x"
  by (metis insertE set_update_subset_insert subsetD)

lemma len_ctx: "(if NUM_LEN_TO_POS_STATES \<le> l then NUM_LEN_TO_POS_STATES - 1 else l) = min l 3"
  by (simp add: NUM_LEN_TO_POS_STATES_def)

context bit_reader begin

lemma distance_code:
  assumes "dist_ok (dist_probs (probs st))" "d < 2 ^ 32"
  shows "\<exists>es dp. lzma_encode_distance st d len = Some (es, st\<lparr> probs := (probs st)\<lparr> dist_probs := dp \<rparr> \<rparr>) \<and>
    dist_ok dp \<and> list_all call_ok es \<and>
    follows reads (\<lambda>r. dec_dist S r (dist_probs (probs st)) len) es (\<lambda>r. Some (d, dp, r))"
proof -
  let ?dp = "dist_probs (probs st)"
  define k where "k = min (len - 2) 3"
  have k: "k < 4" by (simp add: k_def)
  let ?sp = "pos_slot_coder ?dp ! k"
  have c: "length (pos_slot_coder ?dp) = 4" "arr_ok 64 ?sp" "arr_ok 16 (align_coder ?dp)" "arr_ok 115 (pos_coder ?dp)"
    using assms(1) k by (auto simp: dist_ok_def)
  have sl: "dist_ok (?dp\<lparr> pos_slot_coder := (pos_slot_coder ?dp)[k := ps] \<rparr>)" if "arr_ok 64 ps" for ps
    using assms(1) set_upd_all [of "pos_slot_coder ?dp" "arr_ok 64" ps k] that by (simp add: dist_ok_def)
  note enc = lzma_encode_distance_def [of st d len, unfolded Let_def len_ctx, folded k_def]
  note defs = enc dec_dist_def Let_def mega_consts mem_get_nth c k k_def [symmetric]
  show ?thesis
  proof (cases "d < 4")
    case True
    then have "d < 2 ^ 6" by simp
    from bit_tree [OF c(2) _ this] obtain es ps where
      t: "encode_bit_tree d ?sp 6 = Some (es, ps)" "arr_ok 64 ps" "list_all call_ok es"
      "follows reads (\<lambda>r. dec_tree S r ?sp 1 6) es (\<lambda>r. Some (d, ps, r))" by auto
    let ?d1 = "?dp\<lparr> pos_slot_coder := (pos_slot_coder ?dp)[k := ps] \<rparr>"
    have "follows reads (\<lambda>r. dec_dist S r ?dp len) es (\<lambda>r. Some (d, ?d1, r))"
      using True by (auto simp: defs simp del: One_nat_def intro!: follows_last [OF t(4)])
    moreover have "lzma_encode_distance st d len = Some (es, st\<lparr> probs := (probs st)\<lparr> dist_probs := ?d1 \<rparr> \<rparr>)"
      using True t(1) by (simp add: defs)
    ultimately show ?thesis using t(3) sl [OF t(2)] by blast
  next
    case False
    define n where "n = get_msb32 d - 2"
    define h where "h = d div 2 ^ n"
    have n: "1 \<le> n" "n \<le> 30" "h = 2 \<or> h = 3"
      using distance_slot [of d] False assms(2) by (simp_all add: n_def h_def)
    let ?slot = "n * 2 + h"
    have slot: "?slot < 2 ^ 6" "\<not> ?slot < 4" "?slot div 2 - 1 = n" "2 + ?slot mod 2 = h" "?slot < 14 \<longleftrightarrow> n \<le> 5"
      using n by auto
    have d: "h * 2 ^ n + d mod 2 ^ n = d" unfolding h_def by (rule div_mult_mod_eq)
    from bit_tree [OF c(2) _ slot(1)] obtain es ps where
      t: "encode_bit_tree ?slot ?sp 6 = Some (es, ps)" "arr_ok 64 ps" "list_all call_ok es"
      "follows reads (\<lambda>r. dec_tree S r ?sp 1 6) es (\<lambda>r. Some (?slot, ps, r))" by auto
    let ?d1 = "?dp\<lparr> pos_slot_coder := (pos_slot_coder ?dp)[k := ps] \<rparr>"
    have start: "follows reads (\<lambda>r. dec_dist S r ?dp len) (es @ fs) g"
      if "follows reads (\<lambda>r. let n = ?slot div 2 - 1; top = (2 + ?slot mod 2) * 2 ^ n in
            if ?slot < 14 then do {
              (v, ps, r) \<leftarrow> dec_rev_tree S r (pos_coder ?d1) (top - ?slot) 1 n;
              Some (top + v, ?d1\<lparr> pos_coder := ps \<rparr>, r) }
            else do {
              (d, r) \<leftarrow> get_direct S r (n - 4);
              (v, ps, r) \<leftarrow> dec_rev_tree S r (align_coder ?d1) 0 1 4;
              Some (top + d * 16 + v, ?d1\<lparr> align_coder := ps \<rparr>, r) }) fs g" for fs g
      unfolding dec_dist_def Let_def k_def [symmetric] mem_get_nth [OF k [folded c(1)]] Option.bind_lunit
      using that [unfolded Let_def] slot(2) by (intro follows_bind [OF t(4)]) (simp only: if_False)
    show ?thesis
    proof (cases "n \<le> 5")
      case True
      have "d mod 2 ^ n < 2 ^ n" by simp
      from rev_tree [OF c(4) pos_coder_room [OF n(1) True n(3)] this] obtain fs qs where
        u: "bit_tree_reverse_loop (d mod 2 ^ n) (pos_coder ?dp) (h * 2 ^ n - ?slot) 1 n = Some (fs, qs)" "arr_ok 115 qs"
        "list_all call_ok fs"
        "follows reads (\<lambda>r. dec_rev_tree S r (pos_coder ?dp) (h * 2 ^ n - ?slot) 1 n) fs (\<lambda>r. Some (d mod 2 ^ n, qs, r))"
        by auto
      let ?d2 = "?d1\<lparr> pos_coder := qs \<rparr>"
      have "follows reads (\<lambda>r. dec_dist S r ?dp len) (es @ fs) (\<lambda>r. Some (d, ?d2, r))"
        by (rule start) (use True u(4) slot d in \<open>simp add: Let_def follows_last [OF u(4)] del: One_nat_def\<close>)
      moreover have "lzma_encode_distance st d len = Some (es @ fs, st\<lparr> probs := (probs st)\<lparr> dist_probs := ?d2 \<rparr> \<rparr>)"
        using False t(1) u(1) True slot(5)
        by (simp add: defs n_def [symmetric] h_def [symmetric] encode_bit_tree_reverse_def)
      moreover have "dist_ok ?d2" using sl [OF t(2)] u(2) by (simp add: dist_ok_def)
      ultimately show ?thesis using t(3) u(3) by (metis list_all_append)
    next
      case big: False
      let ?l = "d mod 2 ^ n"
      have "?l mod 16 < 2 ^ 4" by simp
      from rev_tree [OF c(3) _ this, of 0 1] obtain fs qs where
        u: "bit_tree_reverse_loop (?l mod 16) (align_coder ?dp) 0 1 4 = Some (fs, qs)" "arr_ok 16 qs"
        "list_all call_ok fs"
        "follows reads (\<lambda>r. dec_rev_tree S r (align_coder ?dp) 0 1 4) fs (\<lambda>r. Some (?l mod 16, qs, r))"
        by auto
      let ?d2 = "?d1\<lparr> align_coder := qs \<rparr>"
      let ?e = "Enc_direct (?l div 16) (n - 4)"
      have "(2::nat) ^ n = 2 ^ (n - 4) * 16" using big power_add [of "2::nat" "n - 4" 4] by simp
      then have "?l div 16 < 2 ^ (n - 4)"
        by (metis less_mult_imp_div_less mod_less_divisor zero_less_numeral zero_less_power)
      then have ok: "0 < n - 4" "n - 4 < 32" "?l div 16 < 2 ^ (n - 4)" using big n(2) by simp_all
      have "?l div 16 * 16 + ?l mod 16 = ?l" by (rule div_mult_mod_eq)
      then have v: "h * 2 ^ n + ?l div 16 * 16 + ?l mod 16 = d" using d by linarith
      have "follows reads (\<lambda>r. dec_dist S r ?dp len) (es @ ?e # fs) (\<lambda>r. Some (d, ?d2, r))"
        by (rule start) (use big u(4) slot v ok in \<open>auto simp: Let_def simp del: One_nat_def
          intro!: direct_bind follows_last [OF u(4)]\<close>)
      moreover have "lzma_encode_distance st d len = Some (es @ ?e # fs, st\<lparr> probs := (probs st)\<lparr> dist_probs := ?d2 \<rparr> \<rparr>)"
        using False t(1) u(1) big slot(5)
        by (simp add: defs n_def [symmetric] h_def [symmetric] encode_bit_tree_reverse_def encode_direct_bits_def)
      moreover have "dist_ok ?d2" using sl [OF t(2)] u(2) by (simp add: dist_ok_def)
      moreover have "list_all call_ok (es @ ?e # fs)" using t(3) u(3) ok by simp
      ultimately show ?thesis by blast
    qed
  qed
qed

end

section \<open>Literals\<close>

lemma symbol_room:
  fixes m :: nat
  assumes "(m + 1) * 2 ^ Suc i \<le> 512"
  shows "m < 256" "(2 * m + of_bool b + 1) * 2 ^ i \<le> 512"
proof -
  have "m + 1 \<le> (m + 1) * 2 ^ i" by (rule le_mult_power)
  with assms show "m < 256" by simp
  have "(2 * m + of_bool b + 1) * 2 ^ i \<le> (2 * m + 2) * 2 ^ i" by simp
  with assms show "(2 * m + of_bool b + 1) * 2 ^ i \<le> 512" by (simp add: algebra_simps)
qed

context bit_reader begin

lemma literal_code:
  "arr_ok 768 ps \<Longrightarrow> (m + 1) * 2 ^ n \<le> 512 \<Longrightarrow>
   \<exists>es ps'. literal_loop lit mb matched ps m n = Some (es, ps') \<and> arr_ok 768 ps' \<and> list_all call_ok es \<and>
     follows reads (\<lambda>r. dec_lit_loop S r mb matched ps m n) es (\<lambda>r. Some (m * 2 ^ n + lit mod 2 ^ n, ps', r))"
proof (induction n arbitrary: ps m matched)
  case (Suc i)
  let ?b = "odd (lit div 2 ^ i)" and ?mb = "odd (mb div 2 ^ i)"
  let ?i = "if matched then m + (1 + of_bool ?mb) * 256 else m"
  let ?ps = "ps[?i := adapt ?b (ps ! ?i)]"
  let ?m = "2 * m + of_bool ?b" and ?t = "matched \<and> ?mb = ?b"
  have i: "?i < 768" using symbol_room(1) [OF Suc.prems(2)] by simp
  note e = encode_bit_at_ok [OF Suc.prems(1) i]
  obtain es ps' where IH: "literal_loop lit mb ?t ?ps ?m i = Some (es, ps')" "arr_ok 768 ps'" "list_all call_ok es"
    "follows reads (\<lambda>r. dec_lit_loop S r mb ?t ?ps ?m i) es (\<lambda>r. Some (?m * 2 ^ i + lit mod 2 ^ i, ps', r))"
    using Suc.IH [OF e(3) symbol_room(2) [OF Suc.prems(2)]] by blast
  have v: "m * 2 ^ Suc i + lit mod 2 ^ Suc i = ?m * 2 ^ i + lit mod 2 ^ i"
    unfolding mod_power_Suc by (simp add: algebra_simps)
  have x: "(if matched then 256 * (1 + of_bool ?mb) + m else m) = ?i" by simp
  have "follows reads (\<lambda>r. dec_lit_loop S r mb matched ps m (Suc i)) (Enc_bit ?b (ps ! ?i) # es)
      (\<lambda>r. Some (m * 2 ^ Suc i + lit mod 2 ^ Suc i, ps', r))"
    unfolding v dec_lit_loop.simps Let_def x using IH(4) by (intro bit_at_bind [OF Suc.prems(1) i])
  with e(1) [of ?b] e(2) IH(1-3) show ?case by (auto simp: Let_def drop_bit_eq_div)
qed (auto simp: follows_Nil)

end

end
