(* ===== verification/Mega_Packet.thy ===== *)
theory Mega_Packet
  imports Mega_Sync
begin

text \<open>
  Whole packets: when a packet describes the data at the position of the coder state, encoding it
  keeps the invariant of the state, and the reference decoder that reads the calls back writes the bytes
  that the packet stands for.
\<close>

section \<open>Packets\<close>

text \<open>The \<open>n\<close> bytes at \<open>pos\<close> repeat the bytes \<open>d + 1\<close> before them.\<close>

definition repeats :: "bytes \<Rightarrow> nat \<Rightarrow> nat \<Rightarrow> nat \<Rightarrow> bool" where
  "repeats data pos d n \<longleftrightarrow> (\<forall>i < n. data ! (pos + i) = data ! (pos + i - d - 1))"

text \<open>The invariant of the coder state.\<close>

definition state_ok :: "LZMAState \<Rightarrow> bool" where
  "state_ok st \<longleftrightarrow> ctx_state st < 12 \<and> (7 \<le> ctx_state st \<longrightarrow> 0 < position st) \<and> length (dists st) = 4 \<and>
     (\<forall>d \<in> set (dists st). d < max 1 (position st)) \<and> probs_ok (probs st) \<and>
     position st \<le> length (sdata st) \<and> length (sdata st) < 2 ^ 64"

text \<open>A packet that says what the data is at the position of the state.\<close>

definition packet_ok :: "LZMAState \<Rightarrow> LZMAPacket \<Rightarrow> bool" where
  "packet_ok st p =
    (let data = sdata st; pos = position st; d = dist p; n = plen p in
     case ptype p of
       LITERAL \<Rightarrow> n = 1 \<and> pos < length data
     | MATCH \<Rightarrow> 2 \<le> n \<and> n \<le> 273 \<and> pos + n \<le> length data \<and> d < pos \<and> d < 2 ^ 32 \<and> repeats data pos d n
     | SHORT_REP \<Rightarrow> n = 1 \<and> pos < length data \<and> 0 < pos \<and> repeats data pos (dists st ! 0) 1
     | LONG_REP \<Rightarrow> d < 4 \<and> 2 \<le> n \<and> n \<le> 273 \<and> pos + n \<le> length data \<and> 0 < pos \<and> repeats data pos (dists st ! d) n
     | INVALID \<Rightarrow> False)"

definition decoder_of :: "LZMAState \<Rightarrow> decoder" where
  "decoder_of st = \<lparr> written = take (position st) (sdata st), dctx = ctx_state st, reps = dists st, dprobs = probs st \<rparr>"

lemma repeats_Suc: "repeats data pos d (Suc n) \<longleftrightarrow> data ! pos = data ! (pos - d - 1) \<and> repeats data (Suc pos) d n"
  by (auto simp: repeats_def All_less_Suc2)

lemma copy_match_repeats:
  "d < pos \<Longrightarrow> pos + n \<le> length data \<Longrightarrow> repeats data pos d n \<Longrightarrow>
   copy_match d n (take pos data) = Some (take (pos + n) data)"
proof (induction n arbitrary: pos)
  case (Suc n)
  have "take pos data ! (length (take pos data) - d - 1) = data ! pos"
    using Suc.prems by (simp add: repeats_Suc)
  moreover have "take pos data @ [data ! pos] = take (Suc pos) data"
    using Suc.prems(2) by (simp add: take_Suc_conv_app_nth)
  ultimately show ?case using Suc.IH [of "Suc pos"] Suc.prems by (simp add: repeats_Suc)
qed simp

lemma dists_bound: "state_ok st \<Longrightarrow> i < 4 \<Longrightarrow> dists st ! i < max 1 (position st)"
  by (auto simp: state_ok_def)

lemma dists_four:
  assumes "state_ok st"
  obtains a b c d where "dists st = [a, b, c, d]" "a < max 1 (position st)" "b < max 1 (position st)"
    "c < max 1 (position st)" "d < max 1 (position st)"
proof -
  have "length (dists st) = 4" "\<forall>d \<in> set (dists st). d < max 1 (position st)" using assms by (simp_all add: state_ok_def)
  then show thesis using that by (auto simp: numeral_eq_Suc length_Suc_conv)
qed

lemma match_byte:
  assumes "state_ok st" "0 < position st"
  shows "byte_at_distance st (dists st ! 0) = Some (sdata st ! (position st - dists st ! 0 - 1))"
    "mem_get (take (position st) (sdata st)) (wsub (position st) (dists st ! 0 + 1)) =
     Some (sdata st ! (position st - dists st ! 0 - 1))"
proof -
  have d: "dists st ! 0 + 1 \<le> position st" using dists_bound [OF assms(1), of 0] assms(2) by simp
  have p: "position st \<le> length (sdata st)" "position st < 2 ^ 64" using assms(1) by (simp_all add: state_ok_def)
  have w: "wsub (position st) (dists st ! 0) = position st - dists st ! 0" using d p(2) by (intro wsub_small) linarith+
  have "wsub (position st - dists st ! 0) 1 = position st - dists st ! 0 - 1" using d p(2) by (intro wsub_small) linarith+
  then show "byte_at_distance st (dists st ! 0) = Some (sdata st ! (position st - dists st ! 0 - 1))"
    using d p unfolding byte_at_distance_def w by (simp add: mem_get_def)
  have "wsub (position st) (dists st ! 0 + 1) = position st - (dists st ! 0 + 1)" using d p(2) by (intro wsub_small) linarith+
  then show "mem_get (take (position st) (sdata st)) (wsub (position st) (dists st ! 0 + 1)) =
     Some (sdata st ! (position st - dists st ! 0 - 1))"
    using d p by (simp add: mem_get_def)
qed

lemma state_okD:
  assumes "state_ok st"
  shows "ctx_state st < 12" "arr_ok 768 (lit_probs (probs st))" "len_ok (len_probs (probs st))"
    "len_ok (rep_len_probs (probs st))" "dist_ok (dist_probs (probs st))" "ctx_ok (ctx_probs (probs st))"
  using assms by (simp_all add: state_ok_def probs_ok_def)

lemma put_ctx_simps [simp]:
  "sdata (put_ctx st cp) = sdata st" "properties (put_ctx st cp) = properties st" "ctx_state (put_ctx st cp) = ctx_state st"
  "dists (put_ctx st cp) = dists st" "position (put_ctx st cp) = position st"
  "probs (put_ctx st cp) = (probs st)\<lparr> ctx_probs := cp \<rparr>"
  by (simp_all add: put_ctx_def)

lemma byte_at_put_ctx [simp]: "byte_at_distance (put_ctx st cp) d = byte_at_distance st d"
  by (simp add: byte_at_distance_def)

lemma byte_of_literal: "of_nat (256 + unat w mod 256 - 256) = w" for w :: u8
proof -
  have "unat w < 2 ^ LENGTH(8)" by (rule unsigned_less)
  then show ?thesis by simp
qed

lemma byte_at_put_probs [simp]: "byte_at_distance (st\<lparr> probs := pm \<rparr>) d = byte_at_distance st d"
  by (simp add: byte_at_distance_def)

lemma lit_ctx_bounds: "c < 12 \<Longrightarrow> lit_ctx c < 7"
  by (auto simp: lit_ctx_def)

lemma decoder_of_put_ctx [simp]:
  "(decoder_of st)\<lparr> dprobs := (dprobs (decoder_of st))\<lparr> ctx_probs := cp \<rparr> \<rparr> = decoder_of (put_ctx st cp)"
  by (simp add: decoder_of_def)

lemma state_ok_put_ctx [simp]: "state_ok st \<Longrightarrow> ctx_ok cp \<Longrightarrow> state_ok (put_ctx st cp)"
  by (simp add: state_ok_def probs_ok_def)

lemma packet_ok_put_ctx [simp]: "packet_ok (put_ctx st cp) p = packet_ok st p"
  by (cases "ptype p") (simp_all add: packet_ok_def)

lemma dec_match_byte_of:
  assumes "state_ok st"
  shows "\<exists>mb. dec_match_byte (decoder_of st) = Some mb \<and>
     (if 7 \<le> ctx_state st then byte_at_distance st (dists st ! 0) else Some 0) = Some mb"
proof (cases "7 \<le> ctx_state st")
  case True
  then have "0 < position st" using assms by (simp add: state_ok_def)
  from match_byte [OF assms this] True show ?thesis
    using assms by (simp add: dec_match_byte_def decoder_of_def state_ok_def)
qed (simp add: dec_match_byte_def decoder_of_def)

lemma state_ok_dists_grow: "state_ok st \<Longrightarrow> position st \<le> n \<Longrightarrow> \<forall>d \<in> set (dists st). d < max 1 n"
  unfolding state_ok_def by fastforce

context bit_reader begin

definition steps :: "LZMAState \<Rightarrow> LZMAPacket \<Rightarrow> enc_call list \<Rightarrow> LZMAState \<Rightarrow> bool" where
  "steps st p es st' \<longleftrightarrow> lzma_encode_packet st p = Some (es, st') \<and> state_ok st' \<and> list_all call_ok es \<and>
     sdata st' = sdata st \<and> position st' = position st + plen p \<and>
     follows reads (dec_step S (decoder_of st)) es (\<lambda>r. Some (decoder_of st', r))"

lemma header_step:
  assumes "state_ok st"
  shows "\<exists>es cp. lzma_encode_packet_header st h = Some (es, put_ctx st cp) \<and> ctx_ok cp \<and> list_all call_ok es \<and>
    (\<forall>fs g. follows reads (dec_body S (kind_of h) (decoder_of (put_ctx st cp))) fs g \<longrightarrow>
       follows reads (dec_step S (decoder_of st)) (es @ fs) g)"
proof -
  from header [OF state_okD(6) [OF assms] state_okD(1) [OF assms], of h] obtain es cp where
    H: "lzma_encode_packet_header st h = Some (es, put_ctx st cp)" "ctx_ok cp" "list_all call_ok es"
    "follows reads (\<lambda>r. dec_kind S r (ctx_probs (probs st)) (ctx_state st)) es (\<lambda>r. Some (kind_of h, cp, r))" by auto
  have "follows reads (\<lambda>r. dec_kind S r (ctx_probs (dprobs (decoder_of st))) (dctx (decoder_of st))) es
     (\<lambda>r. Some (kind_of h, cp, r))" using H(4) by (simp add: decoder_of_def)
  note F = follows_bind [where k = "\<lambda>k cp r. dec_body S k
    ((decoder_of st)\<lparr> dprobs := (dprobs (decoder_of st))\<lparr> ctx_probs := cp \<rparr> \<rparr>) r", OF this, folded dec_step_def,
    unfolded decoder_of_put_ctx]
  show ?thesis using H(1-3) F by blast
qed

lemma literal_step:
  assumes st: "state_ok st" and p: "packet_ok st p" and t: "ptype p = LITERAL"
  shows "\<exists>es st'. steps st p es st'"
proof -
  have len: "plen p = 1" "position st < length (sdata st)" using p t by (simp_all add: packet_ok_def)
  let ?h = "\<lparr> h_match = False, h_rep = False, h_b3 = False, h_b4 = False, h_b5 = False \<rparr>"
  have k: "kind_of ?h = Lit" by (simp add: kind_of_def)
  obtain es cp where H: "lzma_encode_packet_header st ?h = Some (es, put_ctx st cp)" "ctx_ok cp" "list_all call_ok es"
    "\<And>fs g. follows reads (dec_body S Lit (decoder_of (put_ctx st cp))) fs g \<Longrightarrow>
       follows reads (dec_step S (decoder_of st)) (es @ fs) g"
    using header_step [OF st, of ?h] unfolding k by blast
  let ?s = "put_ctx st cp"
  have s: "state_ok ?s" using st H(2) by simp
  let ?lit = "sdata st ! position st" and ?m = "7 \<le> ctx_state st"
  obtain mb where mb: "dec_match_byte (decoder_of ?s) = Some mb"
    "(if ?m then byte_at_distance st (dists st ! 0) else Some 0) = Some mb"
    using dec_match_byte_of [OF s] by (cases ?m) auto
  obtain fs ps where L: "literal_loop (unat ?lit) (unat mb) ?m (lit_probs (probs ?s)) 1 8 = Some (fs, ps)" "arr_ok 768 ps"
    "list_all call_ok fs"
    "follows reads (\<lambda>r. dec_lit_loop S r (unat mb) ?m (lit_probs (probs ?s)) 1 8) fs (\<lambda>r. Some (256 + unat ?lit mod 256, ps, r))"
    using literal_code [OF state_okD(2) [OF s], of 1 8 "unat ?lit" "unat mb" ?m] by auto
  let ?pm = "(probs ?s)\<lparr> lit_probs := ps \<rparr>"
  let ?st = "?s\<lparr> probs := ?pm, ctx_state := lit_ctx (ctx_state st), position := position st + 1 \<rparr>"
  have "lzma_encode_literal st = Some (es @ fs, ?s\<lparr> probs := ?pm \<rparr>)"
    using len H(1) mb(2) L(1) by (cases ?m) (simp_all add: lzma_encode_literal_def mem_get_nth del: One_nat_def)
  then have "lzma_encode_packet st p = Some (es @ fs, ?st)"
    using t len by (simp add: lzma_encode_packet_def lzma_state_update_ctx_state_def lit_ctx_def del: One_nat_def)
  moreover have "state_ok ?st"
    using s L(2) len lit_ctx_bounds [of "ctx_state st"] state_ok_dists_grow [OF st, of "position st + 1"]
    by (simp add: state_ok_def probs_ok_def)
  moreover have "follows reads (dec_step S (decoder_of st)) (es @ fs) (\<lambda>r. Some (decoder_of ?st, r))"
  proof (rule H(4))
    have "take (position st) (sdata st) @ [of_nat (256 + unat ?lit mod 256 - 256)] = take (position st + 1) (sdata st)"
      using len byte_of_literal [of ?lit] by (simp add: take_Suc_conv_app_nth)
    then show "follows reads (dec_body S Lit (decoder_of ?s)) fs (\<lambda>r. Some (decoder_of ?st, r))"
      unfolding dec_body_def kind.case dec_literal_def mb(1) Option.bind_lunit
      using L(4) by (intro follows_last [where v = "256 + unat ?lit mod 256" and w = ps]) (simp_all add: decoder_of_def)
  qed
  ultimately show ?thesis using H(3) L(3) len unfolding steps_def by (intro exI [of _ "es @ fs"] exI [of _ ?st]) simp
qed

end

lemma packet_ok_simps:
  "ptype p = LITERAL \<Longrightarrow> packet_ok st p \<longleftrightarrow> plen p = 1 \<and> position st < length (sdata st)"
  "ptype p = MATCH \<Longrightarrow> packet_ok st p \<longleftrightarrow> 2 \<le> plen p \<and> plen p \<le> 273 \<and> position st + plen p \<le> length (sdata st) \<and>
     dist p < position st \<and> dist p < 2 ^ 32 \<and> repeats (sdata st) (position st) (dist p) (plen p)"
  "ptype p = SHORT_REP \<Longrightarrow> packet_ok st p \<longleftrightarrow> plen p = 1 \<and> position st < length (sdata st) \<and> 0 < position st \<and>
     repeats (sdata st) (position st) (dists st ! 0) 1"
  "ptype p = LONG_REP \<Longrightarrow> packet_ok st p \<longleftrightarrow> dist p < 4 \<and> 2 \<le> plen p \<and> plen p \<le> 273 \<and>
     position st + plen p \<le> length (sdata st) \<and> 0 < position st \<and>
     repeats (sdata st) (position st) (dists st ! dist p) (plen p)"
  "ptype p = INVALID \<Longrightarrow> \<not> packet_ok st p"
  by (simp_all add: packet_ok_def Let_def)

lemma push_distance_simps [simp]:
  "sdata (lzma_state_push_distance st d) = sdata st" "ctx_state (lzma_state_push_distance st d) = ctx_state st"
  "position (lzma_state_push_distance st d) = position st" "probs (lzma_state_push_distance st d) = probs st"
  by (simp_all add: lzma_state_push_distance_def Let_def)

lemma push_distance_dists:
  assumes "length (dists st) = 4"
  shows "dists (lzma_state_push_distance st d) = d # take 3 (dists st)"
proof -
  obtain a b c e where "dists st = [a, b, c, e]" using assms by (auto simp: numeral_eq_Suc length_Suc_conv)
  then show ?thesis by (simp add: lzma_state_push_distance_def)
qed

lemma promote_distance:
  assumes "length (dists st) = 4" "i < 4"
  shows "lzma_state_promote_distance_at st i = Some (st\<lparr> dists := to_front i (dists st) \<rparr>)"
proof -
  obtain a b c e where ds: "dists st = [a, b, c, e]" using assms(1) by (auto simp: numeral_eq_Suc length_Suc_conv)
  have "i \<in> {0, 1, 2, 3}" using assms(2) by auto
  then show ?thesis using ds by (auto simp: lzma_state_promote_distance_at_def to_front_def eval_nat_numeral)
qed

lemma to_front_set: "i < length ds \<Longrightarrow> length (to_front i ds) = length ds" "i < length ds \<Longrightarrow> set (to_front i ds) = set ds"
proof -
  assume i: "i < length ds"
  then show "length (to_front i ds) = length ds" by (simp add: to_front_def)
  have "set ds = set (take i ds @ ds ! i # drop (Suc i) ds)" using i by (simp add: id_take_nth_drop [symmetric])
  then show "set (to_front i ds) = set ds" by (auto simp: to_front_def)
qed

context bit_reader begin

lemma match_step:
  assumes st: "state_ok st" and p: "packet_ok st p" and t: "ptype p = MATCH"
  shows "\<exists>es st'. steps st p es st'"
proof -
  let ?n = "plen p" and ?d = "dist p" and ?pos = "position st"
  have len: "2 \<le> ?n" "?n \<le> 273" "?pos + ?n \<le> length (sdata st)" "?d < ?pos" "?d < 2 ^ 32" "repeats (sdata st) ?pos ?d ?n"
    using p t by (simp_all add: packet_ok_simps)
  let ?h = "\<lparr> h_match = True, h_rep = False, h_b3 = False, h_b4 = False, h_b5 = False \<rparr>"
  have k: "kind_of ?h = Match" by (simp add: kind_of_def)
  obtain es cp where H: "lzma_encode_packet_header st ?h = Some (es, put_ctx st cp)" "ctx_ok cp" "list_all call_ok es"
    "\<And>fs g. follows reads (dec_body S Match (decoder_of (put_ctx st cp))) fs g \<Longrightarrow>
       follows reads (dec_step S (decoder_of st)) (es @ fs) g"
    using header_step [OF st, of ?h] unfolding k by blast
  let ?s = "put_ctx st cp"
  have s: "state_ok ?s" using st H(2) by simp
  obtain fs lp where L: "lzma_encode_length (len_probs (probs ?s)) ?n = Some (fs, lp)" "len_ok lp" "list_all call_ok fs"
    "follows reads (\<lambda>r. dec_len S r (len_probs (probs ?s))) fs (\<lambda>r. Some (?n, lp, r))"
    using length_code [OF state_okD(3) [OF s] len(1,2)] by auto
  let ?s1 = "lzma_state_push_distance ?s ?d"
  let ?s2 = "?s1\<lparr> probs := (probs ?s1)\<lparr> len_probs := lp \<rparr> \<rparr>"
  obtain gs dp where D: "lzma_encode_distance ?s2 ?d ?n = Some (gs, ?s2\<lparr> probs := (probs ?s2)\<lparr> dist_probs := dp \<rparr> \<rparr>)"
    "dist_ok dp" "list_all call_ok gs"
    "follows reads (\<lambda>r. dec_dist S r (dist_probs (probs ?s)) ?n) gs (\<lambda>r. Some (?d, dp, r))"
    using distance_code [of ?s2 ?d ?n] state_okD(5) [OF s] len(5) by auto
  let ?c' = "if ctx_state st < 7 then 7 else 10"
  let ?st = "?s1\<lparr> probs := (probs ?s)\<lparr> len_probs := lp, dist_probs := dp \<rparr>, ctx_state := ?c', position := ?pos + ?n \<rparr>"
  have "lzma_encode_match st ?d ?n = Some (es @ fs @ gs, ?s1\<lparr> probs := (probs ?s)\<lparr> len_probs := lp, dist_probs := dp \<rparr> \<rparr>)"
    using H(1) L(1) D(1) by (simp add: lzma_encode_match_def)
  then have "lzma_encode_packet st p = Some (es @ fs @ gs, ?st)"
    using t by (simp add: lzma_encode_packet_def lzma_state_update_ctx_state_def)
  moreover have ds: "dists ?s1 = ?d # take 3 (dists st)" using st by (simp add: push_distance_dists state_ok_def)
  moreover have "state_ok ?st"
  proof -
    have "\<forall>d \<in> set (?d # take 3 (dists st)). d < max 1 (?pos + ?n)"
      using state_ok_dists_grow [OF st, of "?pos + ?n"] len(4) set_take_subset [of 3 "dists st"] by auto
    then show ?thesis using s L(2) D(2) len ds by (simp add: state_ok_def probs_ok_def)
  qed
  moreover have "follows reads (dec_step S (decoder_of st)) (es @ fs @ gs) (\<lambda>r. Some (decoder_of ?st, r))"
  proof (rule H(4))
    have c: "copy_match ?d ?n (written (decoder_of ?s)) = Some (take (?pos + ?n) (sdata st))"
      using copy_match_repeats [OF len(4,3,6)] by (simp add: decoder_of_def)
    show "follows reads (dec_body S Match (decoder_of ?s)) (fs @ gs) (\<lambda>r. Some (decoder_of ?st, r))"
      unfolding dec_body_def kind.case dec_match_def
      using L(4) D(4) c ds
      by (intro follows_bind [where v = ?n and w = lp] follows_last [where v = ?d and w = dp])
        (simp_all add: decoder_of_def)
  qed
  ultimately show ?thesis using H(3) L(3) D(3) unfolding steps_def by (intro exI [of _ "es @ fs @ gs"] exI [of _ ?st]) simp
qed

lemma short_rep_step:
  assumes st: "state_ok st" and p: "packet_ok st p" and t: "ptype p = SHORT_REP"
  shows "\<exists>es st'. steps st p es st'"
proof -
  let ?d = "dists st ! 0" and ?pos = "position st"
  have len: "plen p = 1" "?pos + 1 \<le> length (sdata st)" "0 < ?pos" "repeats (sdata st) ?pos ?d 1"
    using p t by (simp_all add: packet_ok_simps)
  have d: "?d < ?pos" using dists_bound [OF st, of 0] len(3) by simp
  let ?h = "\<lparr> h_match = True, h_rep = True, h_b3 = False, h_b4 = False, h_b5 = False \<rparr>"
  have k: "kind_of ?h = Short_Rep" by (simp add: kind_of_def)
  obtain es cp where H: "lzma_encode_packet_header st ?h = Some (es, put_ctx st cp)" "ctx_ok cp" "list_all call_ok es"
    "\<And>fs g. follows reads (dec_body S Short_Rep (decoder_of (put_ctx st cp))) fs g \<Longrightarrow>
       follows reads (dec_step S (decoder_of st)) (es @ fs) g"
    using header_step [OF st, of ?h] unfolding k by blast
  let ?s = "put_ctx st cp"
  have s: "state_ok ?s" using st H(2) by simp
  let ?st = "?s\<lparr> ctx_state := (if ctx_state st < 7 then 9 else 11), position := ?pos + 1 \<rparr>"
  have "lzma_encode_packet st p = Some (es, ?st)"
    using t H(1) len by (simp add: lzma_encode_packet_def lzma_encode_short_rep_def lzma_state_update_ctx_state_def)
  moreover have "state_ok ?st"
    using s len state_ok_dists_grow [OF st, of "?pos + 1"] by (simp add: state_ok_def)
  moreover have "follows reads (dec_step S (decoder_of st)) (es @ []) (\<lambda>r. Some (decoder_of ?st, r))"
  proof (rule H(4))
    have "dec_short_rep (decoder_of ?s) = Some (decoder_of ?st)"
      using copy_match_repeats [OF d len(2,4)] by (simp add: dec_short_rep_def decoder_of_def del: One_nat_def)
    then show "follows reads (dec_body S Short_Rep (decoder_of ?s)) [] (\<lambda>r. Some (decoder_of ?st, r))"
      by (simp add: dec_body_def follows_def)
  qed
  ultimately show ?thesis using H(3) len(1) unfolding steps_def by (intro exI [of _ es] exI [of _ ?st]) simp
qed

lemma long_rep_step:
  assumes st: "state_ok st" and p: "packet_ok st p" and t: "ptype p = LONG_REP"
  shows "\<exists>es st'. steps st p es st'"
proof -
  let ?n = "plen p" and ?i = "dist p" and ?pos = "position st"
  have len: "2 \<le> ?n" "?n \<le> 273" "?pos + ?n \<le> length (sdata st)" "?i < 4" "0 < ?pos" "repeats (sdata st) ?pos (dists st ! ?i) ?n"
    using p t by (simp_all add: packet_ok_simps)
  have d: "dists st ! ?i < ?pos" using dists_bound [OF st len(4)] len(5) by simp
  let ?h = "\<lparr> h_match = True, h_rep = True, h_b3 = (?i \<noteq> 0), h_b4 = (?i \<noteq> 1), h_b5 = (?i \<noteq> 2) \<rparr>"
  have k: "kind_of ?h = Rep ?i" using len(4) by (auto simp: kind_of_def)
  obtain es cp where H: "lzma_encode_packet_header st ?h = Some (es, put_ctx st cp)" "ctx_ok cp" "list_all call_ok es"
    "\<And>fs g. follows reads (dec_body S (Rep ?i) (decoder_of (put_ctx st cp))) fs g \<Longrightarrow>
       follows reads (dec_step S (decoder_of st)) (es @ fs) g"
    using header_step [OF st, of ?h] unfolding k by blast
  let ?s = "put_ctx st cp"
  have s: "state_ok ?s" using st H(2) by simp
  obtain fs lp where L: "lzma_encode_length (rep_len_probs (probs ?s)) ?n = Some (fs, lp)" "len_ok lp" "list_all call_ok fs"
    "follows reads (\<lambda>r. dec_len S r (rep_len_probs (probs ?s))) fs (\<lambda>r. Some (?n, lp, r))"
    using length_code [OF state_okD(4) [OF s] len(1,2)] by auto
  have l4: "length (dists st) = 4" using st by (simp add: state_ok_def)
  let ?ds = "to_front ?i (dists st)"
  let ?s2 = "?s\<lparr> dists := ?ds, probs := (probs ?s)\<lparr> rep_len_probs := lp \<rparr> \<rparr>"
  let ?st = "?s2\<lparr> ctx_state := (if ctx_state st < 7 then 8 else 11), position := ?pos + ?n \<rparr>"
  have "lzma_encode_long_rep st ?i ?n = Some (es @ fs, ?s2)"
    using H(1) L(1) l4 len(4) by (simp add: lzma_encode_long_rep_def promote_distance)
  then have "lzma_encode_packet st p = Some (es @ fs, ?st)"
    using t by (simp add: lzma_encode_packet_def lzma_state_update_ctx_state_def)
  moreover have "state_ok ?st"
  proof -
    have "\<forall>d \<in> set ?ds. d < max 1 (?pos + ?n)" "length ?ds = 4"
      using state_ok_dists_grow [OF st, of "?pos + ?n"] to_front_set [of ?i "dists st"] l4 len(4) by auto
    then show ?thesis using s L(2) len by (simp add: state_ok_def probs_ok_def)
  qed
  moreover have "follows reads (dec_step S (decoder_of st)) (es @ fs) (\<lambda>r. Some (decoder_of ?st, r))"
  proof (rule H(4))
    have c: "copy_match (reps (decoder_of ?s) ! ?i) ?n (written (decoder_of ?s)) = Some (take (?pos + ?n) (sdata st))"
      using copy_match_repeats [OF d len(3,6)] by (simp add: decoder_of_def)
    show "follows reads (dec_body S (Rep ?i) (decoder_of ?s)) fs (\<lambda>r. Some (decoder_of ?st, r))"
      unfolding dec_body_def kind.case dec_rep_def
      using L(4) c by (intro follows_last [where v = ?n and w = lp]) (simp_all add: decoder_of_def)
  qed
  ultimately show ?thesis using H(3) L(3) unfolding steps_def by (intro exI [of _ "es @ fs"] exI [of _ ?st]) simp
qed

lemma packet_step: "state_ok st \<Longrightarrow> packet_ok st p \<Longrightarrow> \<exists>es st'. steps st p es st'"
  using literal_step match_step short_rep_step long_rep_step
  by (cases "ptype p") (simp_all add: packet_ok_simps)

end

section \<open>The packets of a file\<close>

text \<open>The loop of \<open>main\<close> that encodes the packets found in a slab: at each position the packet that is
  stored for it.\<close>

partial_function (option) encode_all :: "LZMAPacket list \<Rightarrow> LZMAState \<Rightarrow> (enc_call list \<times> LZMAState) option" where
  "encode_all packets st =
     (if position st < length (sdata st) then do {
        p \<leftarrow> mem_get packets (position st);
        (es, st) \<leftarrow> lzma_encode_packet st p;
        (fs, st) \<leftarrow> encode_all packets st;
        Some (es @ fs, st) }
      else Some ([], st))"

text \<open>The packets met from a state on describe the data.\<close>

inductive chain :: "LZMAPacket list \<Rightarrow> LZMAState \<Rightarrow> bool" for packets where
  chain_end: "position st = length (sdata st) \<Longrightarrow> chain packets st"
| chain_step: "position st < length packets \<Longrightarrow> packet_ok st (packets ! position st) \<Longrightarrow>
    lzma_encode_packet st (packets ! position st) = Some (es, st') \<Longrightarrow> chain packets st' \<Longrightarrow> chain packets st"

inductive_cases chainE: "chain packets st"

lemma packet_ok_room: "packet_ok st p \<Longrightarrow> position st + plen p \<le> length (sdata st) \<and> 0 < plen p"
  by (cases "ptype p") (auto simp: packet_ok_simps)

context bit_reader begin

lemma all_steps:
  assumes "chain packets st" "state_ok st"
  shows "\<exists>es st'. encode_all packets st = Some (es, st') \<and> list_all call_ok es \<and> state_ok st' \<and> sdata st' = sdata st \<and>
    position st' = length (sdata st) \<and>
    follows reads (dec_stream S (length (sdata st)) (decoder_of st)) es (\<lambda>r. Some (decoder_of st', r))"
  using assms
proof (induction rule: chain.induct)
  case (chain_end st)
  then show ?case
    by (subst encode_all.simps) (simp add: follows_def dec_stream.simps [of S] decoder_of_def)
next
  case (chain_step st es st')
  let ?p = "packets ! position st"
  have st': "state_ok st'" "list_all call_ok es" "sdata st' = sdata st"
    "follows reads (dec_step S (decoder_of st)) es (\<lambda>r. Some (decoder_of st', r))"
    using packet_step [OF chain_step.prems chain_step.hyps(2)] chain_step.hyps(3) by (auto simp: steps_def)
  from chain_step.IH [OF st'(1)] obtain fs st2 where IH: "encode_all packets st' = Some (fs, st2)" "list_all call_ok fs"
    "state_ok st2" "sdata st2 = sdata st'" "position st2 = length (sdata st')"
    "follows reads (dec_stream S (length (sdata st)) (decoder_of st')) fs (\<lambda>r. Some (decoder_of st2, r))"
    using st'(3) by auto
  have pos: "position st < length (sdata st)" using packet_ok_room [OF chain_step.hyps(2)] by linarith
  have "encode_all packets st = Some (es @ fs, st2)"
    using pos chain_step.hyps IH(1) by (subst encode_all.simps) (simp add: mem_get_nth)
  moreover have "follows reads (dec_stream S (length (sdata st)) (decoder_of st)) (es @ fs) (\<lambda>r. Some (decoder_of st2, r))"
    unfolding follows_def
  proof (intro allI impI)
    fix r cs assume "reads r ((es @ fs) @ cs)"
    then obtain r1 where r1: "dec_step S (decoder_of st) r = Some (decoder_of st', r1)" "reads r1 (fs @ cs)"
      using st'(4) unfolding follows_def by (metis append_assoc)
    with IH(6) obtain r2 where "dec_stream S (length (sdata st)) (decoder_of st') r1 = Some (decoder_of st2, r2)" "reads r2 cs"
      unfolding follows_def by blast
    moreover have "length (written (decoder_of st)) < length (sdata st)" using pos by (simp add: decoder_of_def)
    ultimately show "\<exists>r'. dec_stream S (length (sdata st)) (decoder_of st) r = Some (decoder_of st2, r') \<and> reads r' cs"
      using r1(1) by (subst dec_stream.simps) simp
  qed
  ultimately show ?case using IH st' by auto
qed

end

lemma state_ok_init: "length data < 2 ^ 64 \<Longrightarrow> state_ok (lzma_state_init data props)"
  by (simp add: state_ok_def lzma_state_init_def probs_ok_init)

lemma decoder_of_init: "decoder_of (lzma_state_init data props) = dec_start"
  by (simp add: decoder_of_def lzma_state_init_def dec_start_def)

text \<open>The list of calls itself is a source of bits.\<close>

definition call_source :: "enc_call list bit_source" where
  "call_source = \<lparr> get_bit = (\<lambda>r p. case r of Enc_bit b q # cs \<Rightarrow> if p = q then Some (b, cs) else None | _ \<Rightarrow> None),
     get_direct = (\<lambda>r n. case r of Enc_direct v m # cs \<Rightarrow> if m = n then Some (v, cs) else None | _ \<Rightarrow> None) \<rparr>"

interpretation calls: bit_reader call_source "(=)"
  by unfold_locales (auto simp: call_source_def)

text \<open>C30. Decoding reverses packet encoding: from the initial state, any slab whose packets describe the
  data is encoded without failing, the state keeps its invariant, and the reference LZMA decoder, fed the calls
  that the encoder interface received (the bits with the probabilities it was told), reads back the same
  probabilities and exactly the data.\<close>

theorem encode_all_decodes:
  assumes "length data < 2 ^ 64" "chain packets (lzma_state_init data props)"
  shows "\<exists>es st. encode_all packets (lzma_state_init data props) = Some (es, st) \<and> state_ok st \<and>
    map_option (\<lambda>(d, r). (written d, dprobs d, r)) (dec_stream call_source (length data) dec_start es) =
      Some (data, probs st, [])"
proof -
  let ?i = "lzma_state_init data props"
  have d: "sdata ?i = data" by (simp add: lzma_state_init_def)
  obtain es st where E: "encode_all packets ?i = Some (es, st)" "state_ok st" "sdata st = data" "position st = length data"
    "follows (=) (dec_stream call_source (length data) dec_start) es (\<lambda>r. Some (decoder_of st, r))"
    using calls.all_steps [OF assms(2) state_ok_init [OF assms(1)]] by (auto simp: d decoder_of_init)
  then have "dec_stream call_source (length data) dec_start es = Some (decoder_of st, [])"
    by (auto simp: follows_def dest: spec [of _ "[]"])
  then show ?thesis using E by (simp add: decoder_of_def)
qed

lemma encode_packet_advances:
  assumes "state_ok st" "packet_ok st p"
  shows "\<exists>es st'. lzma_encode_packet st p = Some (es, st') \<and> state_ok st' \<and> list_all call_ok es \<and>
    sdata st' = sdata st \<and> position st' = position st + plen p"
  using calls.packet_step [OF assms] unfolding calls.steps_def by blast

text \<open>One step of a chain, without running the encoder.\<close>

lemma chain_step_ok:
  assumes "state_ok st" "position st < length packets" "packet_ok st (packets ! position st)"
    "\<And>st'. state_ok st' \<Longrightarrow> sdata st' = sdata st \<Longrightarrow> position st' = position st + plen (packets ! position st) \<Longrightarrow> chain packets st'"
  shows "chain packets st"
  using encode_packet_advances [OF assms(1,3)] assms chain_step by blast

lemma chain_example: "chain [literal_packet, match_packet 0 2, literal_packet] (lzma_state_init [97, 97, 97] props)"
proof (rule chain_step_ok)
  let ?ps = "[literal_packet, match_packet 0 2, literal_packet]" and ?i = "lzma_state_init [97, 97, 97] props"
  show "state_ok ?i" by (rule state_ok_init) simp
  fix st assume st: "state_ok st" "sdata st = sdata ?i" "position st = position ?i + plen (?ps ! position ?i)"
  then have p: "position st = 1" "sdata st = [97, 97, 97]" by (simp_all add: lzma_state_init_def literal_packet_def)
  show "chain ?ps st"
  proof (rule chain_step_ok [OF st(1)])
    have "repeats [97, 97, 97] 1 0 2" by (simp add: repeats_def eval_nat_numeral All_less_Suc2)
    then show "packet_ok st (?ps ! position st)" using p by (simp add: packet_ok_simps match_packet_def)
  qed (use p in \<open>auto simp: match_packet_def intro: chain_end\<close>)
qed (simp_all add: lzma_state_init_def literal_packet_def packet_ok_simps)

theorem encode_all_decodes_witness:
  "\<exists>es st. encode_all [literal_packet, match_packet 0 2, literal_packet]
       (lzma_state_init [97, 97, 97] \<lparr> prop_lc = 0, prop_lp = 0, prop_pb = 0 \<rparr>) = Some (es, st) \<and> state_ok st \<and>
    map_option (\<lambda>(d, r). (written d, dprobs d, r)) (dec_stream call_source (length [97, 97, 97 :: u8]) dec_start es) =
      Some ([97, 97, 97], probs st, [])"
  by (rule encode_all_decodes [OF _ chain_example]) simp

text \<open>C35. The type of the coder state is preserved: with probability arrays of the declared sizes, every
  probability between 31 and 2017, the context state below 12 and every remembered distance inside the bytes
  already coded, encoding a packet that describes the data succeeds (no access outside an array, no failed
  assertion), gives such a state again, advances by the length of the packet, and asks the encoder only for
  bits with a probability strictly between 0 and 2048 and for direct bits that fit their width.\<close>

theorem encode_packet_preserves_state:
  assumes "state_ok st" "packet_ok st p"
  shows "\<exists>es st'. lzma_encode_packet st p = Some (es, st') \<and> state_ok st' \<and> list_all call_ok es \<and>
    sdata st' = sdata st \<and> position st' = position st + plen p"
  by (rule encode_packet_advances [OF assms])

theorem encode_packet_preserves_state_witness:
  "\<exists>es st'. lzma_encode_packet (lzma_state_init [7] \<lparr> prop_lc = 0, prop_lp = 0, prop_pb = 0 \<rparr>) literal_packet = Some (es, st') \<and>
    state_ok st' \<and> list_all call_ok es \<and> sdata st' = [7] \<and> position st' = 1"
  using encode_packet_preserves_state [OF state_ok_init [of "[7]" "\<lparr> prop_lc = 0, prop_lp = 0, prop_pb = 0 \<rparr>"],
      of literal_packet]
  by (simp add: packet_ok_simps literal_packet_def lzma_state_init_def)

end
