(* ===== verification/Mega_Range.thy ===== *)
theory Mega_Range
  imports Mega_Packet
begin

text \<open>
  The range coder of \<open>megalania\<close> (\<open>range_encoder\<close>), the reference range decoder, and the fact that
  the decoder reads back the bits that were encoded. The numbers are those of the C code with their wrap-around
  written out; \<open>r_out\<close> is what has been written to the output.
\<close>

section \<open>Model\<close>

definition TOP_MASK :: nat where "TOP_MASK = 0xFF000000"

record RangeEncoderData =
  r_out :: bytes
  r_low :: nat
  r_range :: nat
  r_cache :: nat
  r_cache_size :: nat

text \<open>The loop that writes the cached byte and the bytes \<open>0xFF\<close> behind it, with the carry; the counter
  is decremented before it is compared, so a size of zero would run once around.\<close>

fun write_cache :: "nat \<Rightarrow> nat \<Rightarrow> nat \<Rightarrow> bytes" where
  "write_cache temp high_bytes 0 = []"
| "write_cache temp high_bytes (Suc n) = of_nat (temp + high_bytes mod 2 ^ 8) # write_cache 0xFF high_bytes n"

definition range_encoder_shift_low :: "RangeEncoderData \<Rightarrow> RangeEncoderData" where
  "range_encoder_shift_low d =
    (let high_bytes = (r_low d div 2 ^ 32) mod 2 ^ 32;
         low_bytes = r_low d mod 2 ^ 32;
         d = (if low_bytes < TOP_MASK \<or> high_bytes \<noteq> 0
              then d\<lparr> r_out := r_out d @ write_cache (r_cache d) high_bytes (if r_cache_size d = 0 then 2 ^ 64 else r_cache_size d),
                      r_cache_size := 0, r_cache := (r_low d div 2 ^ 24) mod 2 ^ 8 \<rparr>
              else d)
     in d\<lparr> r_cache_size := r_cache_size d + 1, r_low := (low_bytes * 2 ^ 8) mod 2 ^ 32 \<rparr>)"

definition range_encoder_flush_data :: "RangeEncoderData \<Rightarrow> RangeEncoderData" where
  "range_encoder_flush_data d = (range_encoder_shift_low ^^ 5) d"

text \<open>The loop of \<open>range_encoder_encode_bit\<close>; it would not end for a range of zero.\<close>

partial_function (option) range_normalize :: "RangeEncoderData \<Rightarrow> RangeEncoderData option" where
  "range_normalize d =
    (if r_range d AND TOP_MASK = 0
     then range_normalize (range_encoder_shift_low (d\<lparr> r_range := (r_range d * 2 ^ 8) mod 2 ^ 32 \<rparr>))
     else Some d)"

definition range_encoder_encode_bit :: "RangeEncoderData \<Rightarrow> bool \<Rightarrow> u16 \<Rightarrow> RangeEncoderData option" where
  "range_encoder_encode_bit d b prob =
    (let new_bound = (r_range d div 2 ^ NUM_BIT_MODEL_TOTAL_BITS * unat prob) mod 2 ^ 32;
         d = (if b then d\<lparr> r_low := (r_low d + new_bound) mod 2 ^ 64, r_range := (r_range d + (2 ^ 32 - new_bound)) mod 2 ^ 32 \<rparr>
              else d\<lparr> r_range := new_bound \<rparr>)
     in range_normalize d)"

fun direct_bits_loop :: "RangeEncoderData \<Rightarrow> nat \<Rightarrow> nat \<Rightarrow> RangeEncoderData" where
  "direct_bits_loop d bits 0 = d"
| "direct_bits_loop d bits (Suc n) =
    (let b = odd (drop_bit n bits);
         d = d\<lparr> r_range := r_range d div 2 \<rparr>;
         d = (if b then d\<lparr> r_low := (r_low d + r_range d) mod 2 ^ 64 \<rparr> else d);
         d = (if r_range d AND TOP_MASK = 0
              then range_encoder_shift_low (d\<lparr> r_range := (r_range d * 2 ^ 8) mod 2 ^ 32 \<rparr>) else d)
     in direct_bits_loop d bits n)"

text \<open>The bit mask \<open>1 << (num_bits - 1)\<close> is a signed shift.\<close>

definition range_encoder_encode_direct_bits :: "RangeEncoderData \<Rightarrow> nat \<Rightarrow> nat \<Rightarrow> RangeEncoderData option" where
  "range_encoder_encode_direct_bits d bits num_bits =
    (if 0 < num_bits \<and> num_bits < 32 then Some (direct_bits_loop d bits num_bits) else None)"

definition range_encoder_new :: RangeEncoderData where
  "range_encoder_new = \<lparr> r_out = [], r_low = 0, r_range = 0xFFFFFFFF, r_cache = 0, r_cache_size = 1 \<rparr>"

text \<open>Freeing the encoder flushes it; this is what the output has then received.\<close>

definition range_encoder_free :: "RangeEncoderData \<Rightarrow> bytes" where
  "range_encoder_free d = r_out (range_encoder_flush_data d)"

fun range_call :: "RangeEncoderData \<Rightarrow> enc_call \<Rightarrow> RangeEncoderData option" where
  "range_call d (Enc_bit b p) = range_encoder_encode_bit d b p"
| "range_call d (Enc_direct bits n) = range_encoder_encode_direct_bits d bits n"

fun range_calls :: "RangeEncoderData \<Rightarrow> enc_call list \<Rightarrow> RangeEncoderData option" where
  "range_calls d [] = Some d"
| "range_calls d (c # cs) = do { d \<leftarrow> range_call d c; range_calls d cs }"

section \<open>The number that has been written\<close>

definition num :: "bytes \<Rightarrow> nat" where
  "num bs = foldl (\<lambda>n b. 256 * n + unat b) 0 bs"

lemma num_simps [simp]: "num [] = 0" "num (bs @ [b]) = 256 * num bs + unat b"
  by (simp_all add: num_def)

lemma num_append: "num (bs @ cs) = num bs * 256 ^ length cs + num cs"
proof (induction cs rule: rev_induct)
  case (snoc c cs)
  have "num (bs @ cs @ [c]) = 256 * num (bs @ cs) + unat c" using num_simps(2) [of "bs @ cs" c] by simp
  then show ?case using snoc by (simp add: algebra_simps)
qed simp

lemma num_less: "num bs < 256 ^ length bs"
proof (induction bs rule: rev_induct)
  case (snoc b bs)
  have "unat b < 256" using unsigned_less [of b] by simp
  then have "256 * num bs + unat b < 256 * (num bs + 1)" by simp
  also have "\<dots> \<le> 256 * 256 ^ length bs" using snoc by (intro mult_le_mono2) simp
  finally show ?case by simp
qed simp

text \<open>The pending bytes and the whole number of a state.\<close>

definition pending :: "RangeEncoderData \<Rightarrow> nat" where
  "pending d = r_cache d * 256 ^ (r_cache_size d - 1) + (256 ^ (r_cache_size d - 1) - 1)"

definition code_num :: "RangeEncoderData \<Rightarrow> nat" where
  "code_num d = (num (r_out d) * 256 ^ r_cache_size d + pending d) * 2 ^ 32 + r_low d"

definition digits :: "RangeEncoderData \<Rightarrow> nat" where
  "digits d = length (r_out d) + r_cache_size d + 4"

definition low_ok :: "RangeEncoderData \<Rightarrow> bool" where
  "low_ok d \<longleftrightarrow> 0 < r_cache_size d \<and> r_cache d < 256 \<and> r_low d < 2 ^ 33 \<and>
     pending d * 2 ^ 32 + r_low d < 256 ^ r_cache_size d * 2 ^ 32"

lemma write_cache_ff: "length (write_cache c h n) = n"
  "num (write_cache 255 0 n) = 256 ^ n - 1" "num (write_cache 255 1 n) = 0"
proof -
  show "length (write_cache c h n) = n" by (induction n arbitrary: c) simp_all
  have l: "length (write_cache c h n) = n" for c h n by (induction n arbitrary: c) simp_all
  show "num (write_cache 255 0 n) = 256 ^ n - 1"
  proof (induction n)
    case (Suc n)
    have "(1::nat) \<le> 256 ^ n" by simp
    then show ?case using Suc num_append [of "[255]" "write_cache 255 0 n"] by (simp add: l num_def)
  qed simp
  show "num (write_cache 255 1 n) = 0"
  proof (induction n)
    case (Suc n)
    then show ?case using num_append [of "[0]" "write_cache 255 1 n"] by (simp add: l num_def)
  qed simp
qed

lemma num_write_cache:
  assumes "0 < n" "c + h < 256" "h = 0 \<or> h = 1"
  shows "num (write_cache c h n) = c * 256 ^ (n - 1) + (256 ^ (n - 1) - 1) + h"
proof -
  obtain m where n: "n = Suc m" using assms(1) by (cases n) auto
  have u: "unat (of_nat (c + h) :: u8) = c + h" using assms(2) by (intro unat_of_nat_small) simp
  have "h mod 256 = h" using assms(2) by simp
  then have "num (write_cache c h n) = (c + h) * 256 ^ m + num (write_cache 255 h m)"
    using num_append [of "[of_nat (c + h)]" "write_cache 255 h m"] u
    by (simp add: n write_cache_ff(1) num_def del: of_nat_add)
  moreover have "(1::nat) \<le> 256 ^ m" by simp
  ultimately show ?thesis using assms(3) write_cache_ff(2,3) [of m] by (auto simp: n algebra_simps)
qed

lemma pending_Suc: "0 < r_cache_size d \<Longrightarrow>
    r_cache d * 256 ^ r_cache_size d + (256 ^ r_cache_size d - 1) = 256 * pending d + 255"
proof -
  assume "0 < r_cache_size d"
  then obtain m where m: "r_cache_size d = Suc m" by (cases "r_cache_size d") auto
  obtain k where "(256::nat) ^ m = Suc k" by (metis gr0_implies_Suc zero_less_numeral zero_less_power)
  then show ?thesis by (simp add: pending_def m algebra_simps)
qed

lemma pending_less: "r_cache d < 256 \<Longrightarrow> 0 < r_cache_size d \<Longrightarrow> pending d < 256 ^ r_cache_size d"
proof -
  assume c: "r_cache d < 256" "0 < r_cache_size d"
  then obtain m where m: "r_cache_size d = Suc m" by (cases "r_cache_size d") auto
  have "(r_cache d + 1) * 256 ^ m \<le> 256 * 256 ^ m" using c(1) by (intro mult_le_mono1) simp
  moreover obtain k where "(256::nat) ^ m = Suc k" by (metis gr0_implies_Suc zero_less_numeral zero_less_power)
  ultimately show ?thesis by (simp add: pending_def m algebra_simps)
qed

lemma byte_split: "l * 256 = l div 2 ^ 24 * 2 ^ 32 + l * 256 mod 2 ^ 32" for l :: nat
proof -
  have "l * 256 div 2 ^ 32 = l div 2 ^ 24" using div_mult2_eq [of "l * 256" 256 "2 ^ 24"] by simp
  then show ?thesis using div_mult_mod_eq [of "l * 256" "2 ^ 32"] by simp
qed

lemma carry_room:
  assumes "low_ok d" "h = r_low d div 2 ^ 32"
  shows "h = 0 \<or> h = 1" "r_cache d + h < 256"
proof -
  have d: "0 < r_cache_size d" "r_cache d < 256" "r_low d < 2 ^ 33" "pending d * 2 ^ 32 + r_low d < 256 ^ r_cache_size d * 2 ^ 32"
    using assms(1) by (simp_all add: low_ok_def)
  obtain m where m: "r_cache_size d = Suc m" using d(1) by (cases "r_cache_size d") auto
  show h: "h = 0 \<or> h = 1" using d(3) unfolding assms(2) by simp linarith
  show "r_cache d + h < 256"
  proof (cases "h = 1")
    case True
    then have "2 ^ 32 \<le> r_low d" using assms(2) by simp
    then have "(pending d + 1) * 2 ^ 32 < 256 ^ r_cache_size d * 2 ^ 32" using d(4) by simp
    then have p: "pending d + 1 < 256 * 256 ^ m" by (simp add: m)
    have "(1::nat) \<le> 256 ^ m" by simp
    then have "pending d + 1 = (r_cache d + 1) * 256 ^ m" unfolding pending_def m by simp
    with p have "(r_cache d + 1) * 256 ^ m < 256 * 256 ^ m" by simp
    then have "r_cache d + 1 < 256" by (simp only: mult_less_cancel2)
    with True show ?thesis by simp
  qed (use h d(2) in simp)
qed

lemma shift_low:
  assumes "low_ok d"
  shows "low_ok (range_encoder_shift_low d)" "code_num (range_encoder_shift_low d) = 256 * code_num d"
    "digits (range_encoder_shift_low d) = Suc (digits d)" "r_range (range_encoder_shift_low d) = r_range d"
    "r_low (range_encoder_shift_low d) = r_low d mod 2 ^ 32 * 256 mod 2 ^ 32"
    "R \<le> 2 ^ 24 \<Longrightarrow> r_low d + R \<le> 2 ^ 33 \<Longrightarrow> pending d * 2 ^ 32 + r_low d + R \<le> 256 ^ r_cache_size d * 2 ^ 32 \<Longrightarrow>
      pending (range_encoder_shift_low d) * 2 ^ 32 + r_low (range_encoder_shift_low d) + 256 * R
        \<le> 256 ^ r_cache_size (range_encoder_shift_low d) * 2 ^ 32"
proof -
  have d: "0 < r_cache_size d" "r_cache d < 256" "r_low d < 2 ^ 33" using assms by (simp_all add: low_ok_def)
  define h where "h = r_low d div 2 ^ 32"
  define l where "l = r_low d mod 2 ^ 32"
  have low: "r_low d = h * 2 ^ 32 + l" and l: "l < 2 ^ 32" by (simp_all add: h_def l_def)
  note h = carry_room [OF assms h_def]
  have hm: "h mod 2 ^ 32 = h" using h(1) by auto
  have top: "r_low d div 2 ^ 24 mod 2 ^ 8 = l div 2 ^ 24"
  proof -
    have "r_low d div 2 ^ 24 = h * 2 ^ 8 + l div 2 ^ 24" unfolding low by simp
    moreover have "l div 2 ^ 24 < 2 ^ 8" using l by simp
    ultimately show ?thesis by simp
  qed
  define e where "e \<longleftrightarrow> l < TOP_MASK \<or> h \<noteq> 0"
  let ?d = "range_encoder_shift_low d"
  note sh = range_encoder_shift_low_def [of d, unfolded Let_def, folded h_def l_def, unfolded hm top, folded e_def]
  show lo: "r_low ?d = r_low d mod 2 ^ 32 * 256 mod 2 ^ 32" and "r_range ?d = r_range d"
    unfolding sh by (simp_all add: l_def)
  note s = byte_split [of l]
  have lo': "r_low ?d = l * 256 mod 2 ^ 32" unfolding lo l_def ..
  have l256: "l div 2 ^ 24 < 256" using l by simp
  have P: "r_cache ?d < 256 \<and> 0 < r_cache_size ?d \<and> code_num ?d = 256 * code_num d \<and> digits ?d = Suc (digits d) \<and>
     (R \<le> 2 ^ 24 \<longrightarrow> r_low d + R \<le> 2 ^ 33 \<longrightarrow> pending d * 2 ^ 32 + r_low d + R \<le> 256 ^ r_cache_size d * 2 ^ 32 \<longrightarrow>
      pending ?d * 2 ^ 32 + r_low ?d + 256 * R \<le> 256 ^ r_cache_size ?d * 2 ^ 32)"
  proof (cases e)
    case True
    have n: "num (write_cache (r_cache d) h (r_cache_size d)) = pending d + h"
      using num_write_cache [OF d(1) h(2,1)] by (simp add: pending_def)
    have o': "num (r_out ?d) = num (r_out d) * 256 ^ r_cache_size d + pending d + h" "r_cache_size ?d = 1" "r_cache ?d = l div 2 ^ 24"
      "length (r_out ?d) = length (r_out d) + r_cache_size d"
      using True d(1) n unfolding sh by (simp_all add: num_append write_cache_ff(1))
    have p: "pending ?d = l div 2 ^ 24" using o' by (simp add: pending_def)
    have "code_num ?d = 256 * code_num d"
      unfolding code_num_def p o' lo' using low s by (simp add: algebra_simps)
    moreover have "pending ?d * 2 ^ 32 + r_low ?d + 256 * R \<le> 256 ^ r_cache_size ?d * 2 ^ 32" if "R \<le> 2 ^ 24" "r_low d + R \<le> 2 ^ 33"
    proof -
      have "l + R \<le> 2 ^ 32"
      proof (cases "h = 0")
        case True
        then have "l < TOP_MASK" using \<open>e\<close> by (simp add: e_def)
        then show ?thesis using that(1) by (simp add: TOP_MASK_def)
      next
        case False
        then show ?thesis using h(1) low that(2) by simp
      qed
      then show ?thesis unfolding p o' lo' using s by simp
    qed
    ultimately show ?thesis using o' l256 by (simp add: digits_def)
  next
    case False
    then have z: "h = 0" "255 * 2 ^ 24 \<le> l" by (simp_all add: e_def TOP_MASK_def)
    have t: "l div 2 ^ 24 = 255" using z(2) l by simp
    have o': "r_out ?d = r_out d" "r_cache_size ?d = Suc (r_cache_size d)" "r_cache ?d = r_cache d"
      using False unfolding sh by simp_all
    have p: "pending ?d = 256 * pending d + 255" using pending_Suc [OF d(1)] o' by (simp add: pending_def)
    have "code_num ?d = 256 * code_num d"
      unfolding code_num_def p o' lo' using low s t z(1) by (simp add: algebra_simps)
    moreover have "pending ?d * 2 ^ 32 + r_low ?d + 256 * R \<le> 256 ^ r_cache_size ?d * 2 ^ 32"
      if "pending d * 2 ^ 32 + r_low d + R \<le> 256 ^ r_cache_size d * 2 ^ 32"
      using that unfolding p o' lo' using s t low z(1) by (simp add: algebra_simps)
    ultimately show ?thesis using o' d by (auto simp: digits_def)
  qed
  from P show "code_num ?d = 256 * code_num d" by blast
  from P show "digits ?d = Suc (digits d)" by blast
  from P show "R \<le> 2 ^ 24 \<Longrightarrow> r_low d + R \<le> 2 ^ 33 \<Longrightarrow> pending d * 2 ^ 32 + r_low d + R \<le> 256 ^ r_cache_size d * 2 ^ 32 \<Longrightarrow>
      pending ?d * 2 ^ 32 + r_low ?d + 256 * R \<le> 256 ^ r_cache_size ?d * 2 ^ 32" by blast
  from P have c: "r_cache ?d < 256" "0 < r_cache_size ?d" by blast+
  have "r_low ?d < 2 ^ 32" unfolding lo by simp
  moreover have "(pending ?d + 1) * 2 ^ 32 \<le> 256 ^ r_cache_size ?d * 2 ^ 32" using pending_less [OF c] by (intro mult_le_mono1) simp
  ultimately show "low_ok ?d" using c by (simp add: low_ok_def)
qed

section \<open>Intervals\<close>

text \<open>The state between two calls, and within one before the range is normalised.\<close>

definition mid_ok :: "RangeEncoderData \<Rightarrow> bool" where
  "mid_ok d \<longleftrightarrow> low_ok d \<and> 2 ^ 16 \<le> r_range d \<and> r_range d < 2 ^ 32 \<and> r_low d + r_range d \<le> 2 ^ 33 \<and>
     pending d * 2 ^ 32 + r_low d + r_range d \<le> 256 ^ r_cache_size d * 2 ^ 32"

definition enc_ok :: "RangeEncoderData \<Rightarrow> bool" where
  "enc_ok d \<longleftrightarrow> mid_ok d \<and> 2 ^ 24 \<le> r_range d"

definition narrow :: "RangeEncoderData \<Rightarrow> nat \<Rightarrow> nat \<Rightarrow> RangeEncoderData" where
  "narrow d lo w = d\<lparr> r_low := r_low d + lo, r_range := w \<rparr>"

definition norm1 :: "RangeEncoderData \<Rightarrow> RangeEncoderData" where
  "norm1 d = (if r_range d AND TOP_MASK = 0 then range_encoder_shift_low (d\<lparr> r_range := (r_range d * 2 ^ 8) mod 2 ^ 32 \<rparr>) else d)"



lemma bit_push_mask: "bit (push_bit 24 (mask 8) :: nat) i \<longleftrightarrow> 24 \<le> i \<and> i < 32"
  by (auto simp: bit_push_bit_iff bit_mask_iff)

lemma top_mask:
  assumes "n < 2 ^ 32"
  shows "n AND TOP_MASK = 0 \<longleftrightarrow> n < 2 ^ 24"
proof -
  have m: "bit TOP_MASK i \<longleftrightarrow> 24 \<le> i \<and> i < 32" for i
  proof -
    have "TOP_MASK = push_bit 24 (mask 8)" by (simp add: TOP_MASK_def mask_eq_exp_minus_1 push_bit_eq_mult)
    then show ?thesis by (metis (no_types) bit_push_mask)
  qed
  have hi: "\<not> bit n i" if "32 \<le> i" for i
  proof -
    have "take_bit 32 n = n" using assms by (simp add: take_bit_nat_eq_self)
    then show ?thesis using that by (metis bit_take_bit_iff not_le)
  qed
  have "n AND TOP_MASK = 0 \<longleftrightarrow> (\<forall>i. \<not> (bit n i \<and> 24 \<le> i \<and> i < 32))"
    by (simp add: bit_eq_iff bit_and_iff m)
  also have "\<dots> \<longleftrightarrow> (\<forall>i \<ge> 24. \<not> bit n i)" using hi not_le by blast
  also have "\<dots> \<longleftrightarrow> take_bit 24 n = n"
    unfolding bit_eq_iff bit_take_bit_iff not_le [symmetric] by (simp only: possible_bit_def) auto
  also have "\<dots> \<longleftrightarrow> n < 2 ^ 24" by (metis take_bit_nat_eq_self take_bit_nat_less_exp)
  finally show ?thesis .
qed

lemma norm1:
  assumes "mid_ok d"
  shows "range_normalize d = Some (norm1 d)" "enc_ok (norm1 d)"
    "r_range d < 2 ^ 24 \<Longrightarrow> r_range (norm1 d) = 256 * r_range d \<and> code_num (norm1 d) = 256 * code_num d \<and> digits (norm1 d) = Suc (digits d)"
    "2 ^ 24 \<le> r_range d \<Longrightarrow> norm1 d = d"
proof -
  have d: "low_ok d" "2 ^ 16 \<le> r_range d" "r_range d < 2 ^ 32" "r_low d + r_range d \<le> 2 ^ 33"
    "pending d * 2 ^ 32 + r_low d + r_range d \<le> 256 ^ r_cache_size d * 2 ^ 32" using assms by (simp_all add: mid_ok_def)
  note t = top_mask [OF d(3)]
  have big: "norm1 d = d" if "2 ^ 24 \<le> r_range d" using that t by (simp add: norm1_def)
  then show "2 ^ 24 \<le> r_range d \<Longrightarrow> norm1 d = d" .
  let ?e = "d\<lparr> r_range := 256 * r_range d \<rparr>"
  have small: "r_range (norm1 d) = 256 * r_range d \<and> code_num (norm1 d) = 256 * code_num d \<and> digits (norm1 d) = Suc (digits d) \<and> mid_ok (norm1 d)"
    if r: "r_range d < 2 ^ 24"
  proof -
    have n: "norm1 d = range_encoder_shift_low ?e" using r t by (simp add: norm1_def mult.commute)
    have e: "low_ok ?e" "code_num ?e = code_num d" "digits ?e = digits d" "pending ?e = pending d" using d(1) by (simp_all add: low_ok_def pending_def code_num_def digits_def)
    note s = shift_low [OF e(1)]
    have "r_low (range_encoder_shift_low ?e) < 2 ^ 32" unfolding s(5) by simp
    moreover have "pending (range_encoder_shift_low ?e) * 2 ^ 32 + r_low (range_encoder_shift_low ?e) + 256 * r_range d
        \<le> 256 ^ r_cache_size (range_encoder_shift_low ?e) * 2 ^ 32"
      using s(6) [of "r_range d"] r d(4,5) e(4) by simp
    ultimately show ?thesis using s e r d(2) unfolding n mid_ok_def by simp
  qed
  then show "r_range d < 2 ^ 24 \<Longrightarrow> r_range (norm1 d) = 256 * r_range d \<and> code_num (norm1 d) = 256 * code_num d \<and> digits (norm1 d) = Suc (digits d)"
    by blast
  show e: "enc_ok (norm1 d)"
    using small big assms d(2) by (cases "r_range d < 2 ^ 24") (auto simp: enc_ok_def)
  have stop: "range_normalize (norm1 d) = Some (norm1 d)"
    using e top_mask [of "r_range (norm1 d)"] by (subst range_normalize.simps) (simp add: enc_ok_def mid_ok_def)
  show "range_normalize d = Some (norm1 d)"
  proof (cases "r_range d AND TOP_MASK = 0")
    case True
    then show ?thesis using stop by (subst range_normalize.simps) (simp add: norm1_def)
  next
    case False
    then show ?thesis by (subst range_normalize.simps) (simp add: norm1_def)
  qed
qed

lemma narrow_ok:
  assumes "enc_ok d" "lo + w \<le> r_range d" "2 ^ 16 \<le> w"
  shows "mid_ok (narrow d lo w)" "code_num (narrow d lo w) = code_num d + lo" "digits (narrow d lo w) = digits d"
    "r_range (narrow d lo w) = w"
proof -
  have p: "pending (narrow d lo w) = pending d" by (simp add: pending_def narrow_def)
  show "code_num (narrow d lo w) = code_num d + lo" "digits (narrow d lo w) = digits d" "r_range (narrow d lo w) = w"
    by (simp_all add: code_num_def digits_def p) (simp_all add: narrow_def)
  show "mid_ok (narrow d lo w)"
    using assms unfolding enc_ok_def mid_ok_def low_ok_def p by (simp add: narrow_def)
qed

text \<open>The calls as narrowings.\<close>

definition bound :: "nat \<Rightarrow> u16 \<Rightarrow> nat" where
  "bound r p = r div 2048 * unat p"

lemma bound_ok:
  assumes "2 ^ 24 \<le> r" "prob_ok p"
  shows "2 ^ 16 \<le> bound r p" "bound r p + 2 ^ 16 \<le> r"
proof -
  have p: "31 \<le> unat p" "unat p \<le> 2017" using assms(2) by (simp_all add: prob_ok_def)
  define q where "q = r div 2048"
  have q: "2 ^ 13 \<le> q" "q * 2048 \<le> r" using assms(1) by (simp_all add: q_def less_eq_div_iff_mult_less_eq)
  have "q * 31 \<le> q * unat p" "q * unat p \<le> q * 2017" using p by (intro mult_le_mono2; simp)+
  moreover define m where "m = q * unat p"
  ultimately have "q * 31 \<le> m" "m \<le> q * 2017" by simp_all
  with q have "2 ^ 16 \<le> m \<and> m + 2 ^ 16 \<le> r" by auto
  then show "2 ^ 16 \<le> bound r p" "bound r p + 2 ^ 16 \<le> r" unfolding bound_def m_def q_def by simp_all
qed

lemma encode_bit_narrow:
  assumes "enc_ok d" "prob_ok p"
  shows "range_encoder_encode_bit d b p = Some (norm1 (if b then narrow d (bound (r_range d) p) (r_range d - bound (r_range d) p)
    else narrow d 0 (bound (r_range d) p)))"
proof -
  have d: "2 ^ 24 \<le> r_range d" "r_range d < 2 ^ 32" "r_low d < 2 ^ 33" using assms(1) by (simp_all add: enc_ok_def mid_ok_def low_ok_def)
  note w = bound_ok [OF d(1) assms(2)]
  let ?b = "bound (r_range d) p"
  have b: "r_range d div 2 ^ NUM_BIT_MODEL_TOTAL_BITS * unat p mod 2 ^ 32 = ?b"
    using w(2) d(2) by (simp add: bound_def NUM_BIT_MODEL_TOTAL_BITS_def)
  have s: "(r_low d + ?b) mod 2 ^ 64 = r_low d + ?b" "(r_range d + (2 ^ 32 - ?b)) mod 2 ^ 32 = r_range d - ?b"
  proof -
    show "(r_low d + ?b) mod 2 ^ 64 = r_low d + ?b" using d w by simp
    have "r_range d + (2 ^ 32 - ?b) = (r_range d - ?b) + 2 ^ 32" using d w by simp
    then show "(r_range d + (2 ^ 32 - ?b)) mod 2 ^ 32 = r_range d - ?b" using d(2) by (simp only: mod_add_self2) simp
  qed
  have "mid_ok (narrow d ?b (r_range d - ?b))" "mid_ok (narrow d 0 ?b)"
    using narrow_ok(1) [OF assms(1), of ?b "r_range d - ?b"] narrow_ok(1) [OF assms(1), of 0 ?b] w by simp_all
  then show ?thesis
    using norm1(1) unfolding range_encoder_encode_bit_def Let_def b s by (simp add: narrow_def)
qed

lemma direct_bits_narrow:
  assumes "enc_ok d"
  shows "direct_bits_loop d bits (Suc n) = direct_bits_loop
    (norm1 (narrow d (if odd (drop_bit n bits) then r_range d div 2 else 0) (r_range d div 2))) bits n"
proof -
  have "(r_low d + r_range d div 2) mod 2 ^ 64 = r_low d + r_range d div 2"
  proof -
    have "r_low d + r_range d \<le> 2 ^ 33" using assms by (simp add: enc_ok_def mid_ok_def)
    then have "r_low d + r_range d div 2 < 2 ^ 64" by simp
    then show ?thesis by simp
  qed
  then show ?thesis by (cases d) (simp add: Let_def norm1_def narrow_def)
qed

section \<open>The reference range decoder\<close>

record range_source =
  d_code :: nat
  d_range :: nat
  d_rest :: bytes

definition dec_normalize :: "range_source \<Rightarrow> range_source option" where
  "dec_normalize r =
     (if d_range r < 2 ^ 24
      then case d_rest r of [] \<Rightarrow> None
        | b # bs \<Rightarrow> Some \<lparr> d_code = 256 * d_code r + unat b, d_range = 256 * d_range r, d_rest = bs \<rparr>
      else Some r)"

definition range_get_bit :: "range_source \<Rightarrow> u16 \<Rightarrow> (bool \<times> range_source) option" where
  "range_get_bit r p =
     (let h = bound (d_range r) p in
      if d_code r < h then map_option (Pair False) (dec_normalize (r\<lparr> d_range := h \<rparr>))
      else map_option (Pair True) (dec_normalize (r\<lparr> d_code := d_code r - h, d_range := d_range r - h \<rparr>)))"

fun range_get_direct :: "range_source \<Rightarrow> nat \<Rightarrow> (nat \<times> range_source) option" where
  "range_get_direct r 0 = Some (0, r)"
| "range_get_direct r (Suc n) =
     (let h = d_range r div 2; b = (h \<le> d_code r) in
      do { r \<leftarrow> dec_normalize (r\<lparr> d_code := (if b then d_code r - h else d_code r), d_range := h \<rparr>);
           (v, r) \<leftarrow> range_get_direct r n;
           Some (of_bool b * 2 ^ n + v, r) })"

definition range_source :: "range_source bit_source" where
  "range_source = \<lparr> get_bit = range_get_bit, get_direct = range_get_direct \<rparr>"

text \<open>The decoder begins with five bytes, of which the first is zero.\<close>

definition range_start :: "bytes \<Rightarrow> range_source option" where
  "range_start bs =
     (if 5 \<le> length bs \<and> bs ! 0 = 0
      then Some \<lparr> d_code = num (take 4 (drop 1 bs)), d_range = 0xFFFFFFFF, d_rest = drop 5 bs \<rparr> else None)"

section \<open>The decoder reads what was encoded\<close>

text \<open>The output \<open>F\<close> lies in the interval of a state; a decoder that has read as many bytes.\<close>

definition target :: "RangeEncoderData \<Rightarrow> bytes \<Rightarrow> bool" where
  "target d F \<longleftrightarrow> digits d \<le> length F \<and> code_num d \<le> num (take (digits d) F) \<and>
     num (take (digits d) F) < code_num d + r_range d"

definition decoder_at :: "RangeEncoderData \<Rightarrow> bytes \<Rightarrow> range_source" where
  "decoder_at d F = \<lparr> d_code = num (take (digits d) F) - code_num d, d_range = r_range d, d_rest = drop (digits d) F \<rparr>"

lemma num_take_Suc: "n < length F \<Longrightarrow> num (take (Suc n) F) = 256 * num (take n F) + unat (F ! n)"
  by (simp add: take_Suc_conv_app_nth)

lemma narrow_step:
  assumes d: "enc_ok d" and w: "lo + w \<le> r_range d" "2 ^ 16 \<le> w" and t: "target (norm1 (narrow d lo w)) F"
  shows "target d F" "lo \<le> d_code (decoder_at d F)" "d_code (decoder_at d F) < lo + w"
    "dec_normalize ((decoder_at d F)\<lparr> d_code := d_code (decoder_at d F) - lo, d_range := w \<rparr>) =
     Some (decoder_at (norm1 (narrow d lo w)) F)"
proof -
  let ?e = "narrow d lo w" and ?v = "num (take (digits d) F)"
  note n = narrow_ok [OF d w]
  have e: "digits d \<le> length F \<and> code_num d + lo \<le> ?v \<and> ?v < code_num d + lo + w \<and>
    dec_normalize ((decoder_at d F)\<lparr> d_code := ?v - code_num d - lo, d_range := w \<rparr>) = Some (decoder_at (norm1 ?e) F)"
  proof (cases "w < 2 ^ 24")
    case True
    have m: "r_range (norm1 ?e) = 256 * w" "code_num (norm1 ?e) = 256 * (code_num d + lo)" "digits (norm1 ?e) = Suc (digits d)"
      using norm1(3) [OF n(1)] True by (simp_all add: n)
    have l: "digits d < length F" using t m(3) by (simp add: target_def)
    have u: "unat (F ! digits d) < 256" using unsigned_less [of "F ! digits d"] by simp
    have b: "256 * (code_num d + lo) \<le> 256 * ?v + unat (F ! digits d)"
      "256 * ?v + unat (F ! digits d) < 256 * (code_num d + lo) + 256 * w"
      using t unfolding target_def m by (simp_all add: num_take_Suc [OF l])
    have c: "code_num d + lo \<le> ?v" "?v < code_num d + lo + w" using b u by (simp_all only: distrib_left)
    have "drop (digits d) F = F ! digits d # drop (Suc (digits d)) F" using l by (rule drop_nth_Cons)
    moreover have "256 * (?v - code_num d - lo) + unat (F ! digits d) = 256 * ?v + unat (F ! digits d) - 256 * (code_num d + lo)"
      using c by (simp add: algebra_simps)
    ultimately show ?thesis using True l c by (simp add: dec_normalize_def decoder_at_def m num_take_Suc)
  next
    case False
    then have m: "norm1 ?e = ?e" using norm1(4) [OF n(1)] n(4) by simp
    show ?thesis using False t unfolding target_def m by (simp add: dec_normalize_def decoder_at_def n)
  qed
  then show "target d F" using w by (simp add: target_def)
  from e show "lo \<le> d_code (decoder_at d F)" "d_code (decoder_at d F) < lo + w"
    "dec_normalize ((decoder_at d F)\<lparr> d_code := d_code (decoder_at d F) - lo, d_range := w \<rparr>) =
     Some (decoder_at (norm1 (narrow d lo w)) F)"
    by (auto simp: decoder_at_def)
qed

text \<open>One bit.\<close>

lemma bit_step:
  assumes "enc_ok d" "prob_ok p"
  shows "\<exists>e. range_encoder_encode_bit d b p = Some e \<and> enc_ok e \<and>
    (\<forall>F. target e F \<longrightarrow> target d F \<and> range_get_bit (decoder_at d F) p = Some (b, decoder_at e F))"
proof -
  let ?h = "bound (r_range d) p"
  have r: "2 ^ 24 \<le> r_range d" using assms(1) by (simp add: enc_ok_def)
  note w = bound_ok [OF r assms(2)]
  have rr: "d_range (decoder_at d F) = r_range d" for F by (simp add: decoder_at_def)
  show ?thesis
  proof (cases b)
    case True
    have n: "?h + (r_range d - ?h) \<le> r_range d" "2 ^ 16 \<le> r_range d - ?h" using w by simp_all
    show ?thesis
      using True encode_bit_narrow [OF assms, of b] norm1(2) [OF narrow_ok(1) [OF assms(1) n]] narrow_step [OF assms(1) n]
      by (auto simp: range_get_bit_def Let_def rr not_less [symmetric])
  next
    case False
    have n: "0 + ?h \<le> r_range d" "2 ^ 16 \<le> ?h" using w by simp_all
    have z: "(decoder_at d F)\<lparr> d_range := x \<rparr> = (decoder_at d F)\<lparr> d_code := d_code (decoder_at d F) - 0, d_range := x \<rparr>" for F x
      by simp
    show ?thesis
      using False encode_bit_narrow [OF assms, of b] norm1(2) [OF narrow_ok(1) [OF assms(1) n]] narrow_step [OF assms(1) n]
      by (auto simp: range_get_bit_def Let_def rr)
  qed
qed

lemma direct_step:
  "enc_ok d \<Longrightarrow> enc_ok (direct_bits_loop d bits n) \<and>
    (\<forall>F. target (direct_bits_loop d bits n) F \<longrightarrow>
       target d F \<and> range_get_direct (decoder_at d F) n = Some (bits mod 2 ^ n, decoder_at (direct_bits_loop d bits n) F))"
proof (induction n arbitrary: d)
  case (Suc n)
  let ?b = "odd (drop_bit n bits)" and ?h = "r_range d div 2"
  let ?lo = "if ?b then ?h else 0"
  have w: "?lo + ?h \<le> r_range d" "2 ^ 16 \<le> ?h" using Suc.prems by (auto simp: enc_ok_def)
  let ?e = "norm1 (narrow d ?lo ?h)"
  have e: "enc_ok ?e" by (rule norm1(2) [OF narrow_ok(1) [OF Suc.prems w]])
  note IH = Suc.IH [OF e]
  note s = narrow_step [OF Suc.prems w]
  have "range_get_direct (decoder_at d F) (Suc n) = Some (bits mod 2 ^ Suc n, decoder_at (direct_bits_loop ?e bits n) F)"
    if t: "target (direct_bits_loop ?e bits n) F" for F
  proof -
    have i: "target ?e F" "range_get_direct (decoder_at ?e F) n = Some (bits mod 2 ^ n, decoder_at (direct_bits_loop ?e bits n) F)"
      using IH t by blast+
    have h: "d_range (decoder_at d F) div 2 = ?h" by (simp add: decoder_at_def)
    have b: "?h \<le> d_code (decoder_at d F) \<longleftrightarrow> ?b" using s(2,3) [OF i(1)] by (cases ?b) auto
    have c: "(if ?b then d_code (decoder_at d F) - ?h else d_code (decoder_at d F)) = d_code (decoder_at d F) - ?lo" by simp
    show ?thesis
      unfolding range_get_direct.simps Let_def h b c s(4) [OF i(1)] Option.bind_lunit i(2) mod_power_Suc
      by (simp add: drop_bit_eq_div)
  qed
  then show ?case unfolding direct_bits_narrow [OF Suc.prems] using IH s(1) by blast
qed simp

lemma call_step:
  assumes "enc_ok d" "call_ok c"
  shows "\<exists>e. range_call d c = Some e \<and> enc_ok e \<and> (\<forall>F. target e F \<longrightarrow> target d F)"
proof (cases c)
  case (Enc_bit b p)
  then have "prob_ok p" using assms(2) by simp
  from bit_step [OF assms(1) this, of b] show ?thesis using Enc_bit by auto
next
  case (Enc_direct v n)
  then show ?thesis
    using direct_step [OF assms(1), of v n] assms(2) by (simp add: range_encoder_encode_direct_bits_def)
qed

lemma calls_step:
  "enc_ok d \<Longrightarrow> list_all call_ok cs \<Longrightarrow> \<exists>e. range_calls d cs = Some e \<and> enc_ok e \<and> (\<forall>F. target e F \<longrightarrow> target d F)"
proof (induction cs arbitrary: d)
  case (Cons c cs)
  from call_step [OF Cons.prems(1), of c] Cons.prems(2) obtain e where
    e: "range_call d c = Some e" "enc_ok e" "\<forall>F. target e F \<longrightarrow> target d F" by auto
  from Cons.IH [OF e(2)] Cons.prems(2) e show ?case by auto
qed simp

lemma flush:
  assumes "low_ok d"
  shows "length (range_encoder_free d) = digits d" "num (range_encoder_free d) = code_num d"
proof -
  let ?s = "range_encoder_shift_low"
  define d4 where "d4 = ?s (?s (?s (?s d)))"
  note s = shift_low
  have l: "low_ok (?s d)" "low_ok (?s (?s d))" "low_ok (?s (?s (?s d)))" "low_ok d4"
    using s(1) assms by (simp_all add: d4_def)
  have sh: "x mod 2 ^ 32 * 256 mod 2 ^ 32 = x * 256 mod 2 ^ 32" for x :: nat by (simp add: mod_mult_left_eq)
  have "r_low d4 = r_low d * 256 * 256 * 256 * 256 mod 2 ^ 32"
    unfolding d4_def s(5) [OF assms] s(5) [OF l(1)] s(5) [OF l(2)] s(5) [OF l(3)] sh
    by (simp only: mod_mult_left_eq)
  also have "\<dots> = 0" by simp
  finally have z: "r_low d4 = 0" .
  have d5: "r_out (?s d4) = range_encoder_free d" "r_cache (?s d4) = 0" "r_cache_size (?s d4) = 1" "r_low (?s d4) = 0"
  proof -
    show "r_out (?s d4) = range_encoder_free d"
      by (simp add: range_encoder_free_def range_encoder_flush_data_def d4_def eval_nat_numeral)
  qed (simp_all add: range_encoder_shift_low_def z TOP_MASK_def)
  have "digits (?s d4) = digits d + 5"
    unfolding s(3) [OF l(4)] unfolding d4_def s(3) [OF l(3)] s(3) [OF l(2)] s(3) [OF l(1)] s(3) [OF assms] by simp
  then show "length (range_encoder_free d) = digits d" using d5 by (simp add: digits_def)
  have "code_num (?s d4) = 256 ^ 5 * code_num d"
    unfolding s(2) [OF l(4)] unfolding d4_def s(2) [OF l(3)] s(2) [OF l(2)] s(2) [OF l(1)] s(2) [OF assms] by simp
  then show "num (range_encoder_free d) = code_num d" using d5 by (simp add: code_num_def pending_def)
qed

lemma target_free: "enc_ok d \<Longrightarrow> target d (range_encoder_free d)"
  using flush [of d] by (simp add: target_def enc_ok_def mid_ok_def)

definition range_reads :: "range_source \<Rightarrow> enc_call list \<Rightarrow> bool" where
  "range_reads r cs \<longleftrightarrow> (\<exists>d e. enc_ok d \<and> list_all call_ok cs \<and> range_calls d cs = Some e \<and>
     r = decoder_at d (range_encoder_free e))"

lemma range_reads_target:
  assumes "enc_ok d" "list_all call_ok cs" "range_calls d cs = Some e"
  shows "target d (range_encoder_free e)" "enc_ok e"
proof -
  obtain e' where "range_calls d cs = Some e'" "enc_ok e'" "\<forall>F. target e' F \<longrightarrow> target d F"
    using calls_step [OF assms(1,2)] by blast
  then show "target d (range_encoder_free e)" "enc_ok e" using assms(3) target_free by auto
qed

interpretation coded: bit_reader range_source range_reads
proof
  fix r b p cs
  assume r: "range_reads r (Enc_bit b p # cs)" and p: "prob_ok p"
  then obtain d e where d: "enc_ok d" "list_all call_ok cs" "range_calls d (Enc_bit b p # cs) = Some e"
    "r = decoder_at d (range_encoder_free e)" by (auto simp: range_reads_def)
  obtain d1 where d1: "range_encoder_encode_bit d b p = Some d1" "enc_ok d1"
    "\<And>F. target d1 F \<Longrightarrow> range_get_bit (decoder_at d F) p = Some (b, decoder_at d1 F)" using bit_step [OF d(1) p, of b] by blast
  then have c: "range_calls d1 cs = Some e" using d(3) by simp
  show "\<exists>r'. get_bit range_source r p = Some (b, r') \<and> range_reads r' cs"
    using d1(3) [OF range_reads_target(1) [OF d1(2) d(2) c]] d1(2) d(2,4) c unfolding range_reads_def range_source_def by auto
next
  fix r v n cs
  assume r: "range_reads r (Enc_direct v n # cs)" and n: "0 < n" "n < 32" "v < 2 ^ n"
  then obtain d e where d: "enc_ok d" "list_all call_ok cs" "range_calls d (Enc_direct v n # cs) = Some e"
    "r = decoder_at d (range_encoder_free e)" by (auto simp: range_reads_def)
  let ?d = "direct_bits_loop d v n"
  note d1 = direct_step [OF d(1), of v n]
  then have c: "range_calls ?d cs = Some e" "enc_ok ?d" using d(3) n by (simp_all add: range_encoder_encode_direct_bits_def)
  have "range_get_direct r n = Some (v, decoder_at ?d (range_encoder_free e))"
    using d1 range_reads_target(1) [OF c(2) d(2) c(1)] n(3) unfolding d(4) by simp
  then show "\<exists>r'. get_direct range_source r n = Some (v, r') \<and> range_reads r' cs"
    using c d(2) unfolding range_reads_def range_source_def by auto
qed

lemma enc_ok_new: "enc_ok range_encoder_new"
  by (simp add: enc_ok_def mid_ok_def low_ok_def pending_def range_encoder_new_def)

lemma range_start_decoder:
  assumes "list_all call_ok cs" "range_calls range_encoder_new cs = Some e"
  shows "range_start (range_encoder_free e) = Some (decoder_at range_encoder_new (range_encoder_free e))"
    "range_reads (decoder_at range_encoder_new (range_encoder_free e)) cs"
proof -
  let ?F = "range_encoder_free e"
  show "range_reads (decoder_at range_encoder_new ?F) cs"
    using assms enc_ok_new unfolding range_reads_def by blast
  have n: "digits range_encoder_new = 5" "code_num range_encoder_new = 0" "r_range range_encoder_new = 2 ^ 32 - 1"
    by (simp_all add: digits_def code_num_def pending_def range_encoder_new_def)
  have t: "5 \<le> length ?F" "num (take 5 ?F) < 2 ^ 32"
    using range_reads_target(1) [OF enc_ok_new assms] unfolding target_def n by auto
  obtain b bs where F: "?F = b # bs" using t(1) by (cases ?F) auto
  have "length (take 4 bs) = 4" using t(1) F by simp
  then have v: "num (take 5 ?F) = unat b * 2 ^ 32 + num (take 4 bs)"
    using num_append [of "[b]" "take 4 bs"] by (simp add: F num_def)
  with t(2) have "unat b = 0" by (cases "unat b") simp_all
  then have "b = 0" by (simp add: unat_eq_zero)
  then show "range_start ?F = Some (decoder_at range_encoder_new ?F)"
    using t(1) v unfolding range_start_def decoder_at_def n F by simp
qed

text \<open>Asking a source for the bits of a list of calls: only the kinds of the calls, the probabilities and the
  widths are given to it.\<close>

fun replay :: "'r bit_source \<Rightarrow> 'r \<Rightarrow> enc_call list \<Rightarrow> (enc_call list \<times> 'r) option" where
  "replay S r [] = Some ([], r)"
| "replay S r (Enc_bit _ p # cs) = do { (b, r) \<leftarrow> get_bit S r p; (es, r) \<leftarrow> replay S r cs; Some (Enc_bit b p # es, r) }"
| "replay S r (Enc_direct _ n # cs) = do { (v, r) \<leftarrow> get_direct S r n; (es, r) \<leftarrow> replay S r cs; Some (Enc_direct v n # es, r) }"

context bit_reader begin

lemma replay_reads: "reads r cs \<Longrightarrow> list_all call_ok cs \<Longrightarrow> \<exists>r'. replay S r cs = Some (cs, r') \<and> reads r' []"
proof (induction cs arbitrary: r)
  case (Cons c cs)
  show ?case
  proof (cases c)
    case (Enc_bit b p)
    with Cons.prems read_bit [of r b p cs] obtain r1 where "get_bit S r p = Some (b, r1)" "reads r1 cs" by auto
    with Cons.IH [of r1] Cons.prems(2) Enc_bit show ?thesis by auto
  next
    case (Enc_direct v n)
    with Cons.prems read_direct [of r v n cs] obtain r1 where "get_direct S r n = Some (v, r1)" "reads r1 cs" by auto
    with Cons.IH [of r1] Cons.prems(2) Enc_direct show ?thesis by auto
  qed
qed simp

end

lemma range_reads_end: "range_reads r [] \<Longrightarrow> d_code r = 0 \<and> d_rest r = []"
  unfolding range_reads_def
  by (auto simp: decoder_at_def enc_ok_def mid_ok_def flush)

text \<open>C29. The range coder is reversible: encoding bits with probabilities in the range of the model, and direct
  bits of the widths that packets use, ends (the loop that renormalises the range included), and from the flushed
  output a standard range decoder that is told the same probabilities reads back every bit, consumes every byte,
  and is left with the code value zero.\<close>

theorem range_coder_roundtrip:
  assumes "list_all call_ok cs"
  shows "\<exists>e r r'. range_calls range_encoder_new cs = Some e \<and> range_start (range_encoder_free e) = Some r \<and>
    replay range_source r cs = Some (cs, r') \<and> d_rest r' = [] \<and> d_code r' = 0"
proof -
  obtain e where e: "range_calls range_encoder_new cs = Some e" using calls_step [OF enc_ok_new assms] by blast
  note s = range_start_decoder [OF assms e]
  obtain r' where "replay range_source (decoder_at range_encoder_new (range_encoder_free e)) cs = Some (cs, r')" "range_reads r' []"
    using coded.replay_reads [OF s(2) assms] by blast
  with e s(1) range_reads_end show ?thesis by blast
qed

theorem range_coder_roundtrip_witness:
  "\<exists>e r r'. range_calls range_encoder_new [Enc_bit True 1024, Enc_bit False 31, Enc_direct 5 3] = Some e \<and>
    range_start (range_encoder_free e) = Some r \<and>
    replay range_source r [Enc_bit True 1024, Enc_bit False 31, Enc_direct 5 3] =
      Some ([Enc_bit True 1024, Enc_bit False 31, Enc_direct 5 3], r') \<and> d_rest r' = [] \<and> d_code r' = 0"
  by (rule range_coder_roundtrip) (simp add: prob_ok_def)

text \<open>The loop that renormalises the range does not end for a range of zero, so the encoder hangs when it is told
  that a bit that is zero has the probability zero.\<close>

lemma normalize_zero: "range_normalize d = Some e \<Longrightarrow> r_range d \<noteq> 0"
proof (rule range_normalize.raw_induct [of "\<lambda>d e. r_range d \<noteq> 0"])
  fix f :: "RangeEncoderData \<Rightarrow> RangeEncoderData option" and d e
  assume 1: "\<And>d e. f d = Some e \<Longrightarrow> r_range d \<noteq> 0"
    "(if r_range d AND TOP_MASK = 0 then f (range_encoder_shift_low (d\<lparr> r_range := (r_range d * 2 ^ 8) mod 2 ^ 32 \<rparr>)) else Some d) = Some e"
  show "r_range d \<noteq> 0"
  proof
    assume z: "r_range d = 0"
    then have "f (range_encoder_shift_low (d\<lparr> r_range := 0 \<rparr>)) = Some e" using 1(2) by simp
    then have "r_range (range_encoder_shift_low (d\<lparr> r_range := 0 \<rparr>)) \<noteq> 0" by (rule 1(1))
    moreover have "r_range (range_encoder_shift_low x) = r_range x" for x by (simp add: range_encoder_shift_low_def Let_def if_distrib)
    ultimately show False by simp
  qed
qed (assumption)

lemma encode_bit_zero_hangs: "range_encoder_encode_bit d False 0 = None"
  using normalize_zero [of "d\<lparr> r_range := 0 \<rparr>"]
  by (cases "range_normalize (d\<lparr> r_range := 0 \<rparr>)") (auto simp: range_encoder_encode_bit_def)

end
