(* ===== verification/Mega_Heap.thy ===== *)
theory Mega_Heap
  imports Prelude_C
begin

text \<open>
  The bounded binary heap of \<open>megalania\<close> (\<open>max_heap\<close>): an array of unsigned items in heap order for a
  comparator that the client passes with its own data, and that may fail an assertion. The locale \<open>heap_order\<close>
  states what the heap relies on, a total preorder on the items that the comparator accepts; the lemmas about
  the operations are proved inside it.
\<close>

section \<open>Model\<close>

type_synonym comparator = "nat \<Rightarrow> nat \<Rightarrow> int option"

text \<open>The capacity is the length of the store; a new heap has the block that \<open>malloc\<close> returned, with
  whatever it holds.\<close>

record MaxHeap =
  store :: "nat list"
  hcount :: nat

definition max_heap_new :: "nat list \<Rightarrow> MaxHeap" where
  "max_heap_new block = \<lparr> store = block, hcount = 0 \<rparr>"

definition max_heap_count :: "MaxHeap \<Rightarrow> nat" where
  "max_heap_count h = hcount h"

definition max_heap_clear :: "MaxHeap \<Rightarrow> MaxHeap" where
  "max_heap_clear h = h\<lparr> hcount := 0 \<rparr>"

definition heap_swap :: "MaxHeap \<Rightarrow> nat \<Rightarrow> nat \<Rightarrow> MaxHeap option" where
  "heap_swap h a b =
    do { x \<leftarrow> mem_get (store h) a;
         y \<leftarrow> mem_get (store h) b;
         Some (h\<lparr> store := (store h)[a := y, b := x] \<rparr>) }"

definition max_heap_parent :: "nat \<Rightarrow> bool \<times> nat" where
  "max_heap_parent index = (index > 0, (index - 1) div 2)"

definition max_heap_left_child :: "MaxHeap \<Rightarrow> nat \<Rightarrow> bool \<times> nat" where
  "max_heap_left_child h index = (index * 2 + 1 < hcount h, index * 2 + 1)"

definition max_heap_right_child :: "MaxHeap \<Rightarrow> nat \<Rightarrow> bool \<times> nat" where
  "max_heap_right_child h index = (index * 2 + 2 < hcount h, index * 2 + 2)"

text \<open>The comparison of two cells of the store.\<close>

definition cell_greater :: "comparator \<Rightarrow> MaxHeap \<Rightarrow> nat \<Rightarrow> nat \<Rightarrow> bool option" where
  "cell_greater cmp h a b = do { x \<leftarrow> mem_get (store h) a; y \<leftarrow> mem_get (store h) b; c \<leftarrow> cmp x y; Some (c > 0) }"

definition largest_child :: "comparator \<Rightarrow> MaxHeap \<Rightarrow> nat \<Rightarrow> nat option" where
  "largest_child cmp h parent =
    (let left = snd (max_heap_left_child h parent);
         (has_right, right) = max_heap_right_child h parent
     in if has_right then do { g \<leftarrow> cell_greater cmp h right left; Some (if g then right else left) } else Some left)"

lemma largest_child_cases: "largest_child cmp h p = Some c \<Longrightarrow> c = p * 2 + 1 \<or> c = p * 2 + 2 \<and> p * 2 + 2 < hcount h"
  by (auto simp: largest_child_def max_heap_left_child_def max_heap_right_child_def split: if_splits Option.bind_splits)

lemma heap_swap_count: "heap_swap h a b = Some h' \<Longrightarrow> hcount h' = hcount h"
  by (auto simp: heap_swap_def split: Option.bind_splits)

function max_heap_bubble_down :: "comparator \<Rightarrow> MaxHeap \<Rightarrow> nat \<Rightarrow> MaxHeap option" where
  "max_heap_bubble_down cmp h parent =
    (if fst (max_heap_left_child h parent) then
       do { largest \<leftarrow> largest_child cmp h parent;
            g \<leftarrow> cell_greater cmp h largest parent;
            if g then do { h' \<leftarrow> heap_swap h largest parent; max_heap_bubble_down cmp h' largest }
            else Some h }
     else Some h)"
  by pat_completeness auto
termination
  by (relation "measure (\<lambda>(cmp, h, p). hcount h - p)")
    (auto simp: max_heap_left_child_def dest!: largest_child_cases heap_swap_count)

function max_heap_bubble_up :: "comparator \<Rightarrow> MaxHeap \<Rightarrow> nat \<Rightarrow> MaxHeap option" where
  "max_heap_bubble_up cmp h node =
    (let (has_parent, parent) = max_heap_parent node in
     if has_parent then
       do { g \<leftarrow> cell_greater cmp h node parent;
            if g then do { h' \<leftarrow> heap_swap h node parent; max_heap_bubble_up cmp h' parent }
            else Some h }
     else Some h)"
  by pat_completeness auto
termination
  by (relation "measure (\<lambda>(cmp, h, n). n)") (auto simp: max_heap_parent_def)

declare max_heap_bubble_down.simps [simp del] max_heap_bubble_up.simps [simp del]

definition max_heap_insert :: "comparator \<Rightarrow> MaxHeap \<Rightarrow> nat \<Rightarrow> (bool \<times> MaxHeap) option" where
  "max_heap_insert cmp h v =
    (if hcount h = length (store h) then Some (False, h)
     else do { st \<leftarrow> mem_set (store h) (hcount h) v;
               h' \<leftarrow> max_heap_bubble_up cmp (h\<lparr> store := st, hcount := hcount h + 1 \<rparr>) (hcount h);
               Some (True, h') })"

definition max_heap_maximum :: "MaxHeap \<Rightarrow> nat option option" where
  "max_heap_maximum h =
    (if hcount h = 0 then Some None else do { v \<leftarrow> mem_get (store h) 0; Some (Some v) })"

definition max_heap_remove_maximum :: "comparator \<Rightarrow> MaxHeap \<Rightarrow> (bool \<times> MaxHeap) option" where
  "max_heap_remove_maximum cmp h =
    (if hcount h = 0 then Some (False, h)
     else do { v \<leftarrow> mem_get (store h) (hcount h - 1);
               h' \<leftarrow> max_heap_bubble_down cmp (h\<lparr> store := (store h)[0 := v], hcount := hcount h - 1 \<rparr>) 0;
               Some (True, h') })"

definition max_heap_update_maximum :: "comparator \<Rightarrow> MaxHeap \<Rightarrow> (bool \<times> MaxHeap) option" where
  "max_heap_update_maximum cmp h =
    (if hcount h = 0 then Some (False, h)
     else do { h' \<leftarrow> max_heap_bubble_down cmp h 0; Some (True, h') })"

section \<open>Heap order\<close>

definition items :: "MaxHeap \<Rightarrow> nat list" where
  "items h = take (hcount h) (store h)"

abbreviation par :: "nat \<Rightarrow> nat" where
  "par i \<equiv> (i - 1) div 2"

definition room_ok :: "(nat \<Rightarrow> bool) \<Rightarrow> MaxHeap \<Rightarrow> bool" where
  "room_ok dm h \<longleftrightarrow> hcount h \<le> length (store h) \<and> (\<forall>i < hcount h. dm (store h ! i))"

text \<open>Heap order everywhere but between the cells of \<open>X\<close> and their parents.\<close>

definition order_but :: "(nat \<Rightarrow> nat \<Rightarrow> int) \<Rightarrow> MaxHeap \<Rightarrow> (nat \<Rightarrow> bool) \<Rightarrow> bool" where
  "order_but ord h X \<longleftrightarrow> (\<forall>i. 0 < i \<longrightarrow> i < hcount h \<longrightarrow> \<not> X i \<longrightarrow> ord (store h ! i) (store h ! par i) \<le> 0)"

definition heap_ok :: "(nat \<Rightarrow> bool) \<Rightarrow> (nat \<Rightarrow> nat \<Rightarrow> int) \<Rightarrow> MaxHeap \<Rightarrow> bool" where
  "heap_ok dm ord h \<longleftrightarrow> room_ok dm h \<and> order_but ord h (\<lambda>i. False)"

lemma par_children: "0 < i \<Longrightarrow> par i = p \<longleftrightarrow> i = p * 2 + 1 \<or> i = p * 2 + 2"
  by (cases i) auto

lemma par_less: "0 < i \<Longrightarrow> par i < i"
  by simp

lemma heap_swap_eq:
  assumes "room_ok dm h" "a < hcount h" "b < hcount h"
  shows "heap_swap h a b = Some (h\<lparr> store := (store h)[a := store h ! b, b := store h ! a] \<rparr>)"
  using assms by (simp add: heap_swap_def room_ok_def mem_get_nth)

lemma swap_items:
  assumes "room_ok dm h" "a < hcount h" "b < hcount h"
  shows "mset (items (h\<lparr> store := (store h)[a := store h ! b, b := store h ! a] \<rparr>)) = mset (items h)"
proof -
  have "items (h\<lparr> store := (store h)[a := store h ! b, b := store h ! a] \<rparr>) = (items h)[a := items h ! b, b := items h ! a]"
    using assms by (simp add: items_def take_update_swap)
  moreover have "a < length (items h)" "b < length (items h)" using assms by (simp_all add: items_def room_ok_def)
  ultimately show ?thesis by (simp add: mset_swap)
qed

lemma swap_room:
  assumes "room_ok dm h" "a < hcount h" "b < hcount h"
  shows "room_ok dm (h\<lparr> store := (store h)[a := store h ! b, b := store h ! a] \<rparr>)"
proof -
  have "a < length (store h)" "b < length (store h)" using assms by (simp_all add: room_ok_def)
  then show ?thesis using assms by (simp add: room_ok_def nth_list_update)
qed

locale heap_order =
  fixes cmp :: comparator and dm :: "nat \<Rightarrow> bool" and ord :: "nat \<Rightarrow> nat \<Rightarrow> int"
  assumes compares: "dm a \<Longrightarrow> dm b \<Longrightarrow> cmp a b = Some (ord a b)"
    and trans: "ord a b \<le> 0 \<Longrightarrow> ord b c \<le> 0 \<Longrightarrow> ord a c \<le> 0"
    and total: "ord a b \<le> 0 \<or> ord b a < 0"
begin

lemma greater: "ord a b > 0 \<Longrightarrow> ord b a \<le> 0"
  using total [of b a] total [of a b] by auto

lemma refl: "ord a a \<le> 0"
  using total [of a a] by auto

lemma cell_greater_eq: "room_ok dm h \<Longrightarrow> a < hcount h \<Longrightarrow> b < hcount h \<Longrightarrow>
    cell_greater cmp h a b = Some (ord (store h ! a) (store h ! b) > 0)"
  using compares by (simp add: cell_greater_def room_ok_def mem_get_nth)

lemma largest_child:
  assumes "room_ok dm h" "p * 2 + 1 < hcount h"
  shows "\<exists>c. largest_child cmp h p = Some c \<and> c < hcount h \<and> (c = p * 2 + 1 \<or> c = p * 2 + 2) \<and>
    (\<forall>i. 0 < i \<longrightarrow> i < hcount h \<longrightarrow> par i = p \<longrightarrow> ord (store h ! i) (store h ! c) \<le> 0)"
proof -
  let ?l = "p * 2 + 1" and ?r = "p * 2 + 2" and ?s = "store h"
  have kids: "(\<forall>i. 0 < i \<longrightarrow> i < hcount h \<longrightarrow> par i = p \<longrightarrow> Q i) \<longleftrightarrow> Q ?l \<and> (?r < hcount h \<longrightarrow> Q ?r)" for Q
  proof (intro iffI allI impI)
    assume q: "\<forall>i. 0 < i \<longrightarrow> i < hcount h \<longrightarrow> par i = p \<longrightarrow> Q i"
    have "par ?l = p" "par ?r = p" by simp_all
    then show "Q ?l \<and> (?r < hcount h \<longrightarrow> Q ?r)" using q assms(2) by simp
  next
    fix i assume "Q ?l \<and> (?r < hcount h \<longrightarrow> Q ?r)" "0 < i" "i < hcount h" "par i = p"
    then show "Q i" using par_children [of i p] by auto
  qed
  show ?thesis
  proof (cases "?r < hcount h")
    case True
    let ?c = "if ord (?s ! ?r) (?s ! ?l) > 0 then ?r else ?l"
    have "largest_child cmp h p = Some ?c"
      using True cell_greater_eq [OF assms(1) True assms(2)]
      by (simp add: largest_child_def max_heap_left_child_def max_heap_right_child_def)
    moreover have "ord (?s ! ?l) (?s ! ?c) \<le> 0" "ord (?s ! ?r) (?s ! ?c) \<le> 0" using greater refl by (auto simp: not_less)
    ultimately show ?thesis unfolding kids using True assms(2) by (intro exI [of _ ?c]) simp
  next
    case False
    then have "largest_child cmp h p = Some ?l"
      by (simp add: largest_child_def max_heap_left_child_def max_heap_right_child_def)
    then show ?thesis unfolding kids using False assms(2) refl by (intro exI [of _ ?l]) simp
  qed
qed

lemma bubble_down:
  assumes "room_ok dm h" "order_but ord h (\<lambda>i. par i = p)" "p < hcount h"
    "\<And>i. 0 < i \<Longrightarrow> i < hcount h \<Longrightarrow> par i = p \<Longrightarrow> 0 < p \<Longrightarrow> ord (store h ! i) (store h ! par p) \<le> 0"
  shows "\<exists>h'. max_heap_bubble_down cmp h p = Some h' \<and> heap_ok dm ord h' \<and> mset (items h') = mset (items h) \<and>
    length (store h') = length (store h) \<and> hcount h' = hcount h"
  using assms
proof (induction "hcount h - p" arbitrary: h p rule: less_induct)
  case less
  let ?s = "store h" and ?n = "hcount h"
  note ord = less.prems(2) [unfolded order_but_def, rule_format]
  show ?case
  proof (cases "p * 2 + 1 < ?n")
    case False
    then have "order_but ord h (\<lambda>i. False)" using less.prems(2) by (auto simp: order_but_def par_children)
    then show ?thesis using False less.prems(1)
      by (subst max_heap_bubble_down.simps) (simp add: max_heap_left_child_def heap_ok_def)
  next
    case True
    obtain c where c: "largest_child cmp h p = Some c" "c < ?n" "c = p * 2 + 1 \<or> c = p * 2 + 2"
      "\<And>i. 0 < i \<Longrightarrow> i < ?n \<Longrightarrow> par i = p \<Longrightarrow> ord (?s ! i) (?s ! c) \<le> 0"
      using largest_child [OF less.prems(1) True] by blast
    have pc: "0 < c" "p < c" "par c = p" using c(3) by auto
    have g: "cell_greater cmp h c p = Some (ord (?s ! c) (?s ! p) > 0)"
      using cell_greater_eq [OF less.prems(1) c(2) less.prems(3)] .
    have step: "max_heap_bubble_down cmp h p = (if ord (?s ! c) (?s ! p) > 0
        then do { h' \<leftarrow> heap_swap h c p; max_heap_bubble_down cmp h' c } else Some h)"
      using True c(1) g by (subst max_heap_bubble_down.simps) (simp add: max_heap_left_child_def)
    show ?thesis
    proof (cases "ord (?s ! c) (?s ! p) > 0")
      case False
      have "ord (?s ! i) (?s ! par i) \<le> 0" if "0 < i" "i < ?n" for i
        using ord [OF that] c(4) [OF that] False trans [of "?s ! i" "?s ! c" "?s ! p"] by (cases "par i = p") auto
      then show ?thesis using step False less.prems(1) by (simp add: heap_ok_def order_but_def)
    next
      case gt: True
      let ?h = "h\<lparr> store := ?s[c := ?s ! p, p := ?s ! c] \<rparr>"
      have len: "c < length ?s" "p < length ?s" using c(2) less.prems(1,3) by (simp_all add: room_ok_def)
      have at: "store ?h ! i = (if i = p then ?s ! c else if i = c then ?s ! p else ?s ! i)" for i
        using len pc(2) by (auto simp: nth_list_update)
      have down: "ord (?s ! p) (?s ! c) \<le> 0" by (rule greater [OF gt])
      have o': "ord (store ?h ! i) (store ?h ! par i) \<le> 0" if i: "0 < i" "i < ?n" "par i \<noteq> c" for i
      proof (cases "par i = p")
        case True
        then show ?thesis using c(4) [OF i(1,2) True] down i(1) unfolding at by auto
      next
        case False
        then have "i \<noteq> c" using pc(3) by auto
        then show ?thesis using ord [OF i(1,2) False] less.prems(4) [OF pc(1) c(2) pc(3)] i False unfolding at by auto
      qed
      have p': "ord (store ?h ! i) (store ?h ! par c) \<le> 0" if i: "0 < i" "i < ?n" "par i = c" for i
      proof -
        have "i \<noteq> p" "i \<noteq> c" using par_less [OF i(1)] i(3) pc(2) by auto
        moreover have "par i \<noteq> p" using i(3) pc(2) by simp
        ultimately show ?thesis using ord [OF i(1,2)] i(3) unfolding at pc(3) by simp
      qed
      have "\<exists>h'. max_heap_bubble_down cmp ?h c = Some h' \<and> heap_ok dm ord h' \<and> mset (items h') = mset (items ?h) \<and>
        length (store h') = length (store ?h) \<and> hcount h' = hcount ?h"
        using less.prems(3) c(2) pc(2) o' p' swap_room [OF less.prems(1) c(2) less.prems(3)]
        by (intro less.hyps) (auto simp: order_but_def)
      then show ?thesis
        using step gt heap_swap_eq [OF less.prems(1) c(2) less.prems(3)] swap_items [OF less.prems(1) c(2) less.prems(3)]
        by simp
    qed
  qed
qed

lemma bubble_up:
  assumes "room_ok dm h" "order_but ord h (\<lambda>i. i = n)" "n < hcount h"
    "\<And>i. 0 < i \<Longrightarrow> i < hcount h \<Longrightarrow> par i = n \<Longrightarrow> 0 < n \<Longrightarrow> ord (store h ! i) (store h ! par n) \<le> 0"
  shows "\<exists>h'. max_heap_bubble_up cmp h n = Some h' \<and> heap_ok dm ord h' \<and> mset (items h') = mset (items h) \<and>
    length (store h') = length (store h) \<and> hcount h' = hcount h"
  using assms
proof (induction n arbitrary: h rule: less_induct)
  case (less n)
  let ?s = "store h" and ?p = "par n"
  note ord = less.prems(2) [unfolded order_but_def, rule_format]
  show ?case
  proof (cases "n = 0")
    case True
    then have "order_but ord h (\<lambda>i. False)" using less.prems(2) by (simp add: order_but_def)
    then show ?thesis using True less.prems(1)
      by (subst max_heap_bubble_up.simps) (simp add: max_heap_parent_def heap_ok_def)
  next
    case False
    then have pn: "?p < n" "?p < hcount h" using less.prems(3) by auto
    have step: "max_heap_bubble_up cmp h n = (if ord (?s ! n) (?s ! ?p) > 0
        then do { h' \<leftarrow> heap_swap h n ?p; max_heap_bubble_up cmp h' ?p } else Some h)"
      using False cell_greater_eq [OF less.prems(1,3) pn(2)] by (subst max_heap_bubble_up.simps) (simp add: max_heap_parent_def)
    show ?thesis
    proof (cases "ord (?s ! n) (?s ! ?p) > 0")
      case ngt: False
      then have "order_but ord h (\<lambda>i. False)" using less.prems(2) unfolding order_but_def by (metis not_less)
      then show ?thesis using step ngt less.prems(1) by (simp add: heap_ok_def)
    next
      case gt: True
      let ?h = "h\<lparr> store := ?s[n := ?s ! ?p, ?p := ?s ! n] \<rparr>"
      have len: "n < length ?s" "?p < length ?s" using pn less.prems(1,3) by (simp_all add: room_ok_def)
      have at: "store ?h ! i = (if i = ?p then ?s ! n else if i = n then ?s ! ?p else ?s ! i)" for i
        using len pn(1) by (auto simp: nth_list_update)
      have down: "ord (?s ! ?p) (?s ! n) \<le> 0" by (rule greater [OF gt])
      have o': "ord (store ?h ! i) (store ?h ! par i) \<le> 0" if i: "0 < i" "i < hcount h" "i \<noteq> ?p" for i
      proof (cases "i = n")
        case True
        then show ?thesis using down pn(1) unfolding at by simp
      next
        case ne: False
        consider "par i = n" | "par i = ?p" | "par i \<noteq> n" "par i \<noteq> ?p" by blast
        then show ?thesis
        proof cases
          case 1
          then show ?thesis using less.prems(4) [OF i(1,2) 1] False ne i(3) pn(1) unfolding at by simp
        next
          case 2
          have "ord (?s ! i) (?s ! ?p) \<le> 0" using ord [OF i(1,2)] ne 2 by simp
          then show ?thesis using trans [OF _ down] ne i(3) 2 unfolding at by simp
        next
          case 3
          then show ?thesis using ord [OF i(1,2)] ne i(3) unfolding at by simp
        qed
      qed
      have p': "ord (store ?h ! i) (store ?h ! par ?p) \<le> 0" if i: "0 < i" "i < hcount h" "par i = ?p" "0 < ?p" for i
      proof -
        have pp: "par ?p \<noteq> ?p" "par ?p \<noteq> n" "i \<noteq> ?p" using i(1,3,4) pn(1) par_less [OF i(4)] par_less [OF i(1)] by auto
        have b: "ord (?s ! ?p) (?s ! par ?p) \<le> 0" using ord [OF i(4) pn(2)] pn(1) by simp
        show ?thesis
        proof (cases "i = n")
          case False
          then have "ord (?s ! i) (?s ! ?p) \<le> 0" using ord [OF i(1,2)] i(3) by simp
          then show ?thesis using trans [OF _ b] False pp unfolding at by simp
        next
          case True
          then show ?thesis using b pp unfolding at by simp
        qed
      qed
      have "\<exists>h'. max_heap_bubble_up cmp ?h ?p = Some h' \<and> heap_ok dm ord h' \<and> mset (items h') = mset (items ?h) \<and>
        length (store h') = length (store ?h) \<and> hcount h' = hcount ?h"
      proof (rule less.IH [OF pn(1) swap_room [OF less.prems(1,3) pn(2)]])
        show "order_but ord ?h (\<lambda>i. i = ?p)" using o' by (simp only: order_but_def simp_thms select_convs) simp
        show "?p < hcount ?h" using pn(2) by simp
      next
        fix i assume i: "0 < i" "i < hcount ?h" "par i = ?p" "0 < ?p"
        then have "i < hcount h" by simp
        then show "ord (store ?h ! i) (store ?h ! par ?p) \<le> 0" by (rule p' [OF i(1) _ i(3,4)])
      qed
      then show ?thesis
        using step gt heap_swap_eq [OF less.prems(1,3) pn(2)] swap_items [OF less.prems(1,3) pn(2)] by simp
    qed
  qed
qed

end

section \<open>The operations\<close>

lemma items_length: "room_ok dm h \<Longrightarrow> length (items h) = hcount h"
  by (simp add: items_def room_ok_def)

lemma items_nth: "room_ok dm h \<Longrightarrow> i < hcount h \<Longrightarrow> items h ! i = store h ! i"
  by (simp add: items_def)

lemma items_dm: "room_ok dm h \<Longrightarrow> x \<in> set (items h) \<Longrightarrow> dm x"
  by (auto simp: items_def room_ok_def in_set_conv_nth)

context heap_order begin

lemma clear_ok: "heap_ok dm ord h \<Longrightarrow> heap_ok dm ord (max_heap_clear h) \<and> items (max_heap_clear h) = []"
  by (simp add: heap_ok_def room_ok_def order_but_def max_heap_clear_def items_def)

lemma insert_full: "hcount h = length (store h) \<Longrightarrow> max_heap_insert cmp h v = Some (False, h)"
  by (simp add: max_heap_insert_def)

lemma insert_ok:
  assumes "heap_ok dm ord h" "hcount h < length (store h)" "dm v"
  shows "\<exists>h'. max_heap_insert cmp h v = Some (True, h') \<and> heap_ok dm ord h' \<and> mset (items h') = add_mset v (mset (items h)) \<and>
    length (store h') = length (store h) \<and> hcount h' = Suc (hcount h)"
proof -
  let ?h = "h\<lparr> store := (store h)[hcount h := v], hcount := hcount h + 1 \<rparr>"
  have o: "order_but ord h (\<lambda>i. False)" "room_ok dm h" using assms(1) by (simp_all add: heap_ok_def)
  have "\<exists>h'. max_heap_bubble_up cmp ?h (hcount h) = Some h' \<and> heap_ok dm ord h' \<and> mset (items h') = mset (items ?h) \<and>
    length (store h') = length (store ?h) \<and> hcount h' = hcount ?h"
  proof (rule bubble_up)
    show "room_ok dm ?h" using o(2) assms(2,3) by (simp add: room_ok_def nth_list_update)
    have "par i \<noteq> hcount h" if "0 < i" "i < Suc (hcount h)" for i using par_less [OF that(1)] that(2) by linarith
    then show "order_but ord ?h (\<lambda>i. i = hcount h)" using o(1) assms(2) by (simp add: order_but_def nth_list_update)
    fix i assume "0 < i" "i < hcount ?h" "par i = hcount h"
    then show "ord (store ?h ! i) (store ?h ! par (hcount h)) \<le> 0" using par_less [of i] by simp
  qed simp
  moreover have "items ?h = items h @ [v]" using assms(2) by (simp add: items_def take_Suc_conv_app_nth)
  ultimately show ?thesis using assms(2) by (auto simp: max_heap_insert_def mem_set_upd)
qed

lemma root_greatest:
  assumes "heap_ok dm ord h" "i < hcount h"
  shows "ord (store h ! i) (store h ! 0) \<le> 0"
  using assms(2)
proof (induction i rule: less_induct)
  case (less i)
  show ?case
  proof (cases "i = 0")
    case False
    have "ord (store h ! i) (store h ! par i) \<le> 0" using assms(1) less.prems False by (simp add: heap_ok_def order_but_def)
    moreover have "ord (store h ! par i) (store h ! 0) \<le> 0" using False less.prems by (intro less.IH) auto
    ultimately show ?thesis by (rule trans)
  qed (simp add: refl)
qed

lemma maximum_ok:
  assumes "heap_ok dm ord h" "0 < hcount h"
  shows "max_heap_maximum h = Some (Some (store h ! 0))" "store h ! 0 \<in> set (items h)"
    "\<forall>x \<in> set (items h). ord x (store h ! 0) \<le> 0"
proof -
  have r: "room_ok dm h" using assms(1) by (simp add: heap_ok_def)
  then have "0 < length (store h)" using assms(2) unfolding room_ok_def by linarith
  then show "max_heap_maximum h = Some (Some (store h ! 0))"
    using assms(2) by (simp add: max_heap_maximum_def mem_get_nth)
  show "store h ! 0 \<in> set (items h)" using r assms(2) items_length [OF r] items_nth [OF r assms(2)] by (metis nth_mem)
  show "\<forall>x \<in> set (items h). ord x (store h ! 0) \<le> 0"
    using root_greatest [OF assms(1)] items_length [OF r] items_nth [OF r] by (metis in_set_conv_nth)
qed

lemma remove_ok:
  assumes "heap_ok dm ord h" "0 < hcount h"
  shows "\<exists>h'. max_heap_remove_maximum cmp h = Some (True, h') \<and> heap_ok dm ord h' \<and>
    mset (items h') = mset (items h) - {# store h ! 0 #} \<and> length (store h') = length (store h) \<and> hcount h' = hcount h - 1"
proof -
  let ?n = "hcount h - 1"
  have o: "order_but ord h (\<lambda>i. False)" "room_ok dm h" using assms(1) by (simp_all add: heap_ok_def)
  have len: "hcount h \<le> length (store h)" using o(2) by (simp add: room_ok_def)
  let ?h = "h\<lparr> store := (store h)[0 := store h ! ?n], hcount := ?n \<rparr>"
  have ne: "0 < length (store h)" using assms(2) len by linarith
  have r: "room_ok dm ?h"
  proof -
    have "dm ((store h)[0 := store h ! ?n] ! i)" if "i < ?n" for i
      using o(2) assms(2) that ne by (cases i) (auto simp: room_ok_def nth_list_update)
    then show ?thesis using len by (simp add: room_ok_def)
  qed
  have "\<exists>h'. max_heap_bubble_down cmp ?h 0 = Some h' \<and> heap_ok dm ord h' \<and> mset (items h') = mset (items ?h) \<and>
    length (store h') = length (store ?h) \<and> hcount h' = hcount ?h"
  proof (cases "?n = 0")
    case True
    then show ?thesis using r
      by (subst max_heap_bubble_down.simps) (simp add: max_heap_left_child_def heap_ok_def order_but_def)
  next
    case False
    show ?thesis
    proof (rule bubble_down [OF r])
      show "order_but ord ?h (\<lambda>i. par i = 0)" using o(1) by (auto simp: order_but_def)
    qed (use False in auto)
  qed
  moreover have "mset (items ?h) = mset (items h) - {# store h ! 0 #}"
  proof -
    have l: "length (items h) = Suc ?n" using assms(2) items_length [OF o(2)] by simp
    then obtain x xs where x: "items h = x # xs" "length xs = ?n" by (cases "items h") auto
    have x0: "store h ! 0 = x" using x(1) items_nth [OF o(2) assms(2)] by simp
    have i: "items ?h = (take ?n (items h))[0 := store h ! ?n]" using assms(2) by (simp add: items_def take_update_swap min_def)
    show ?thesis
    proof (cases xs rule: rev_cases)
      case Nil
      then show ?thesis using x x0 i by simp
    next
      case (snoc ys l)
      have it: "items h = (x # ys) @ [l]" using x snoc by simp
      have n: "?n = length (x # ys)" using x snoc by simp
      have l: "items h ! ?n = l" unfolding it n by (rule nth_append_length)
      have s: "store h ! ?n = l" using l items_nth [OF o(2), of ?n] assms(2) by simp
      have "take ?n (items h) = x # ys" unfolding it n by simp
      then have "items ?h = l # ys" using i s by simp
      then show ?thesis using x x0 snoc by simp
    qed
  qed
  ultimately show ?thesis using assms(2) len by (auto simp: max_heap_remove_maximum_def mem_get_nth)
qed

text \<open>After the client has lowered the item at the root.\<close>

lemma update_ok:
  assumes "room_ok dm h" "order_but ord h (\<lambda>i. par i = 0)" "0 < hcount h"
  shows "\<exists>h'. max_heap_update_maximum cmp h = Some (True, h') \<and> heap_ok dm ord h' \<and> mset (items h') = mset (items h) \<and>
    length (store h') = length (store h) \<and> hcount h' = hcount h"
  using bubble_down [OF assms] assms(3) by (auto simp: max_heap_update_maximum_def)

end

end
