(* ===== verification/Mega_Enum.thy ===== *)
theory Mega_Enum
  imports Mega_Packet
begin

text \<open>
  The enumeration of the packets that may be used at a position: the table of the positions of all bigrams
  of the file (\<open>substring_enumerator\<close>), built by counting, and the packets that are offered for the matches
  (\<open>packet_enumerator\<close>). A callback is called for each element of the list that a function returns, in
  its order. The main fact is that exactly the packets that describe the data are enumerated.
\<close>

section \<open>Model\<close>

definition N_CHARS :: nat where "N_CHARS = 256"
definition MIN_SUBSTRING :: nat where "MIN_SUBSTRING = 2"
definition MAX_SUBSTRING :: nat where "MAX_SUBSTRING = 273"

text \<open>An array that is indexed by two bytes is a function of them.\<close>

type_synonym bigram_table = "u8 \<Rightarrow> u8 \<Rightarrow> nat"

definition tab_set :: "bigram_table \<Rightarrow> u8 \<Rightarrow> u8 \<Rightarrow> nat \<Rightarrow> bigram_table" where
  "tab_set t a b v = t(a := (t a)(b := v))"

record SubstringEnumerator =
  em_data :: bytes
  em_max_length :: nat
  bigram_offsets :: bigram_table
  bigram_sizes :: bigram_table
  bigram_positions :: "nat list"

text \<open>The three loops of \<open>memoize_bigram_positions\<close>. The counters \<open>fills\<close> are signed integers.\<close>

definition count_bigrams :: "bytes \<Rightarrow> bigram_table" where
  "count_bigrams data =
    fold (\<lambda>i t. let a = data ! (i - 1); b = data ! i in tab_set t a b (t a b + 1)) [1..<length data] (\<lambda>_ _. 0)"

definition offset_bigrams :: "bigram_table \<Rightarrow> bigram_table" where
  "offset_bigrams sizes =
    fold (\<lambda>i t. let j = i - 1; a = of_nat (j mod N_CHARS); b = of_nat (j div N_CHARS) in
       tab_set t (of_nat (i mod N_CHARS)) (of_nat (i div N_CHARS)) (t a b + sizes a b))
     [1..<N_CHARS * N_CHARS] (\<lambda>_ _. 0)"

fun fill_positions :: "bytes \<Rightarrow> bigram_table \<Rightarrow> nat list \<Rightarrow> nat list \<times> bigram_table \<Rightarrow> (nat list \<times> bigram_table) option" where
  "fill_positions data offsets [] (ps, fills) = Some (ps, fills)"
| "fill_positions data offsets (i # is) (ps, fills) =
    (let a = data ! (i - 1); b = data ! i in
     do { ps \<leftarrow> mem_set ps (offsets a b + fills a b) (i - 1);
          if fills a b + 1 < 2 ^ 31 then fill_positions data offsets is (ps, tab_set fills a b (fills a b + 1)) else None })"

definition memoize_bigram_positions :: "SubstringEnumerator \<Rightarrow> SubstringEnumerator option" where
  "memoize_bigram_positions em =
    (let data = em_data em;
         sizes = count_bigrams data;
         offsets = offset_bigrams sizes
     in do { (ps, fills) \<leftarrow> fill_positions data offsets [1..<length data] (bigram_positions em, \<lambda>_ _. 0);
             Some (em\<lparr> bigram_sizes := sizes, bigram_offsets := offsets, bigram_positions := ps \<rparr>) })"

text \<open>The mapped block of positions is zero-filled. \<open>None\<close> is a run that goes wrong, \<open>Some None\<close> the
  null pointer that is returned for a minimal length that is not supported.\<close>

definition substring_enumerator_new :: "bytes \<Rightarrow> nat \<Rightarrow> nat \<Rightarrow> SubstringEnumerator option option" where
  "substring_enumerator_new data min_length max_length =
    (if min_length \<noteq> 2 then Some None
     else map_option Some (memoize_bigram_positions
       \<lparr> em_data = data, em_max_length = max_length, bigram_offsets = (\<lambda>_ _. 0), bigram_sizes = (\<lambda>_ _. 0),
         bigram_positions = replicate (length data) 0 \<rparr>))"

text \<open>The loop over the lengths from \<open>j\<close> on.\<close>

function extend_match :: "SubstringEnumerator \<Rightarrow> nat \<Rightarrow> nat \<Rightarrow> nat \<Rightarrow> (nat \<times> nat) list option" where
  "extend_match em pos q j =
    (if j < em_max_length em \<and> j + pos < length (em_data em) then do {
       x \<leftarrow> mem_get (em_data em) (pos + j);
       y \<leftarrow> mem_get (em_data em) (q + j);
       if x \<noteq> y then Some []
       else do { rest \<leftarrow> extend_match em pos q (j + 1); Some ((q, 1 + j) # rest) } }
     else Some [])"
  by pat_completeness auto
termination by (relation "measure (\<lambda>(em, pos, q, j). em_max_length em - j)") auto

declare extend_match.simps [simp del]

fun for_each_loop :: "SubstringEnumerator \<Rightarrow> nat \<Rightarrow> nat \<Rightarrow> nat list \<Rightarrow> (nat \<times> nat) list option" where
  "for_each_loop em pos offset [] = Some []"
| "for_each_loop em pos offset (i # is) =
    do { q \<leftarrow> mem_get (bigram_positions em) (offset + i);
         if q \<ge> pos then Some []
         else do { cs \<leftarrow> extend_match em pos q 2;
                   rest \<leftarrow> for_each_loop em pos offset is;
                   Some ((q, 2) # cs @ rest) } }"

definition substring_enumerator_for_each :: "SubstringEnumerator \<Rightarrow> nat \<Rightarrow> (nat \<times> nat) list option" where
  "substring_enumerator_for_each em pos =
    (if pos = 0 then Some []
     else if pos = wsub (length (em_data em)) 1 then Some []
     else do { a \<leftarrow> mem_get (em_data em) pos;
               b \<leftarrow> mem_get (em_data em) (pos + 1);
               for_each_loop em pos (bigram_offsets em a b) [0..<bigram_sizes em a b] })"

subsection \<open>Packets\<close>

definition packet_enumerator_new :: "bytes \<Rightarrow> SubstringEnumerator option option" where
  "packet_enumerator_new data = substring_enumerator_new data MIN_SUBSTRING MAX_SUBSTRING"

definition packet_enumerator_substring_callback :: "LZMAState \<Rightarrow> nat \<times> nat \<Rightarrow> LZMAPacket list" where
  "packet_enumerator_substring_callback st = (\<lambda>(offset, len).
    let d = (position st + 2 ^ 64 - offset - 1) mod 2 ^ 32 in
    match_packet d len # map (\<lambda>i. long_rep_packet i len) (filter (\<lambda>i. d = dists st ! i) [0..<4]))"

text \<open>The data of the enumerator and of the state are the same block, which the code asserts.\<close>

definition packet_enumerator_for_each :: "SubstringEnumerator \<Rightarrow> LZMAState \<Rightarrow> LZMAPacket list option" where
  "packet_enumerator_for_each em st =
    (if em_data em \<noteq> sdata st then None
     else do {
       short \<leftarrow> (if position st > 0 then do {
           x \<leftarrow> mem_get (em_data em) (position st);
           y \<leftarrow> byte_at_distance st (dists st ! 0);
           Some (if x = y then [short_rep_packet] else []) }
         else Some []);
       subs \<leftarrow> substring_enumerator_for_each em (position st);
       Some (literal_packet # short @ concat (map (packet_enumerator_substring_callback st) subs)) })"

section \<open>The table of bigrams\<close>

text \<open>A bigram as a number, in the order in which the offsets are assigned, and its occurrences.\<close>

definition code :: "u8 \<Rightarrow> u8 \<Rightarrow> nat" where
  "code a b = unat a + 256 * unat b"

definition bigram_at :: "bytes \<Rightarrow> nat \<Rightarrow> nat" where
  "bigram_at data q = code (data ! q) (data ! Suc q)"

definition occ :: "bytes \<Rightarrow> nat \<Rightarrow> nat \<Rightarrow> nat list" where
  "occ data m k = filter (\<lambda>q. bigram_at data q = k) [0..<m]"

definition before :: "bytes \<Rightarrow> nat \<Rightarrow> nat \<Rightarrow> nat" where
  "before data m k = (\<Sum>j < k. length (occ data m j))"

lemma byte_less: "unat (w :: u8) < 256"
  using unsigned_less [of w] by simp

lemma code_inject: "code a b = code c d \<longleftrightarrow> a = c \<and> b = d"
proof
  assume e: "code a b = code c d"
  have "unat a = code a b mod 256" "unat b = code a b div 256" for a b
    using byte_less [of a] by (simp_all add: code_def)
  with e have "unat a = unat c" "unat b = unat d" by metis+
  then show "a = c \<and> b = d" by (simp add: word_unat_eq_iff)
qed simp

lemma code_less: "code a b < 65536"
  using byte_less [of a] byte_less [of b] by (simp add: code_def)

lemma code_decode: "k < 65536 \<Longrightarrow> code (of_nat (k mod 256)) (of_nat (k div 256)) = k"
proof -
  assume "k < 65536"
  then have "k div 256 < 256" by simp
  then show ?thesis by (simp add: code_def unat_of_nat_small del: of_nat_mod)
qed

lemma tab_set_apply: "tab_set t a b v c d = (if code c d = code a b then v else t c d)"
  by (simp add: tab_set_def code_inject)

lemma occ_Suc: "occ data (Suc m) k = occ data m k @ (if bigram_at data m = k then [m] else [])"
  by (simp add: occ_def)

lemma set_occ: "set (occ data m k) = {q. q < m \<and> bigram_at data q = k}"
  by (auto simp: occ_def)

lemma before_Suc: "before data m (Suc k) = before data m k + length (occ data m k)"
  by (simp add: before_def)

lemma before_mono: "j < k \<Longrightarrow> before data m j + length (occ data m j) \<le> before data m k"
proof -
  assume "j < k"
  then have "before data m (Suc j) \<le> before data m k" unfolding before_def by (intro sum_mono2) auto
  then show ?thesis by (simp add: before_Suc)
qed

lemma before_bound: "before data m k \<le> m"
proof -
  have "before data m k = length (filter (\<lambda>q. bigram_at data q < k) [0..<m])"
  proof (induction k)
    case (Suc k)
    have "length (filter (\<lambda>q. bigram_at data q < Suc k) xs) =
        length (filter (\<lambda>q. bigram_at data q < k) xs) + length (filter (\<lambda>q. bigram_at data q = k) xs)" for xs
      by (induction xs) auto
    then show ?case using Suc by (simp add: before_Suc occ_def)
  qed (simp add: before_def)
  also have "\<dots> \<le> length [0..<m]" by (rule length_filter_le)
  finally show ?thesis by simp
qed

lemma count_bigrams_eq: "count_bigrams data a b = length (occ data (length data - 1) (code a b))"
proof -
  let ?f = "\<lambda>i t. let a = data ! (i - 1); b = data ! i in tab_set t a b (t a b + 1)"
  have "fold ?f [1..<Suc m] (\<lambda>_ _. 0) a b = length (occ data m (code a b))" for m
  proof (induction m arbitrary: a b)
    case (Suc m)
    define t where "t = fold ?f [1..<Suc m] (\<lambda>_ _. 0)"
    have "[1..<Suc (Suc m)] = [1..<Suc m] @ [Suc m]" by simp
    then have e: "fold ?f [1..<Suc (Suc m)] (\<lambda>_ _. 0) = tab_set t (data ! m) (data ! Suc m) (t (data ! m) (data ! Suc m) + 1)"
      by (simp add: Let_def t_def del: upt_Suc)
    have "t a b = length (occ data m (code a b))" for a b unfolding t_def by (rule Suc.IH)
    then show ?case unfolding e unfolding tab_set_apply by (simp add: occ_Suc bigram_at_def)
  qed (simp add: occ_def)
  moreover have "[1..<length data] = [1..<Suc (length data - 1)]" by (cases data) simp_all
  ultimately show ?thesis by (simp only: count_bigrams_def)
qed

lemma offset_bigrams_eq:
  assumes "\<And>a b. sizes a b = length (occ data m (code a b))"
  shows "offset_bigrams sizes a b = before data m (code a b)"
proof -
  let ?g = "\<lambda>i t. let j = i - 1; a = of_nat (j mod N_CHARS) :: u8; b = of_nat (j div N_CHARS) :: u8 in
       tab_set t (of_nat (i mod N_CHARS)) (of_nat (i div N_CHARS)) (t a b + sizes a b)"
  have G: "\<forall>c d. code c d < Suc n \<longrightarrow> fold ?g [1..<Suc n] (\<lambda>_ _. 0) c d = before data m (code c d)" if "n < 65536" for n
    using that
  proof (induction n)
    case 0
    then show ?case by (simp add: before_def)
  next
    case (Suc n)
    define t where "t = fold ?g [1..<Suc n] (\<lambda>_ _. 0)"
    have "[1..<Suc (Suc n)] = [1..<Suc n] @ [Suc n]" by simp
    then have e: "fold ?g [1..<Suc (Suc n)] (\<lambda>_ _. 0) = ?g (Suc n) t" by (simp add: t_def del: upt_Suc)
    define a where "a = (of_nat (n mod 256) :: u8)"
    define b where "b = (of_nat (n div 256) :: u8)"
    define a' where "a' = (of_nat (Suc n mod 256) :: u8)"
    define b' where "b' = (of_nat (Suc n div 256) :: u8)"
    have k: "code a b = n" unfolding a_def b_def by (rule code_decode) (use Suc.prems in simp)
    have k': "code a' b' = Suc n" unfolding a'_def b'_def by (rule code_decode) (rule Suc.prems)
    have IH: "code c d < Suc n \<Longrightarrow> t c d = before data m (code c d)" for c d using Suc.IH Suc.prems by (simp add: t_def del: upt_Suc)
    have st: "?g (Suc n) t = tab_set t a' b' (before data m (Suc n))"
      using IH [of a b] k assms [of a b] by (simp add: N_CHARS_def a_def b_def a'_def b'_def before_Suc del: upt_Suc of_nat_mod)
    show ?case unfolding e unfolding st unfolding tab_set_apply k' using IH by (auto simp: less_Suc_eq)
  qed
  have "N_CHARS * N_CHARS = Suc 65535" by (simp add: N_CHARS_def)
  then show ?thesis using G [of 65535] code_less [of a b] unfolding offset_bigrams_def by simp
qed

lemma occ_length_mono: "m \<le> n \<Longrightarrow> length (occ data m k) \<le> length (occ data n k)"
  by (induction rule: dec_induct) (simp_all add: occ_Suc)

text \<open>What the position table holds after the first \<open>m\<close> bigrams.\<close>

definition filled :: "bytes \<Rightarrow> nat \<Rightarrow> nat list \<Rightarrow> bool" where
  "filled data m ps \<longleftrightarrow> length ps = length data \<and>
     (\<forall>k r. r < length (occ data m k) \<longrightarrow> ps ! (before data (length data - 1) k + r) = occ data m k ! r)"

lemma filled_step:
  assumes "filled data m ps" "Suc m < length data" "k = bigram_at data m"
  defines "i \<equiv> before data (length data - 1) k + length (occ data m k)"
  shows "i < length ps" "filled data (Suc m) (ps[i := m])"
proof -
  let ?N = "length data - 1"
  have len: "length ps = length data" using assms(1) by (simp add: filled_def)
  have room: "length (occ data (Suc m) j) \<le> length (occ data ?N j)" for j
    using assms(2) by (intro occ_length_mono) simp
  have lt: "length (occ data m k) < length (occ data ?N k)" using room [of k] assms(3) by (simp add: occ_Suc)
  then have "i < before data ?N (Suc k)" by (simp add: i_def before_Suc)
  also have "\<dots> \<le> ?N" by (rule before_bound)
  finally have i: "i < ?N" .
  then show il: "i < length ps" using len by simp
  have "ps[i := m] ! (before data ?N j + r) = occ data (Suc m) j ! r" if r: "r < length (occ data (Suc m) j)" for j r
  proof (cases "j = k \<and> r = length (occ data m k)")
    case True
    then show ?thesis using il assms(3) by (simp add: i_def occ_Suc nth_append)
  next
    case False
    then have r': "r < length (occ data m j)" using r assms(3) by (auto simp: occ_Suc split: if_splits)
    have "before data ?N j + r \<noteq> i"
    proof -
      have a: "r < length (occ data ?N j)" using r room [of j] by simp
      consider "j = k" | "j < k" | "k < j" by linarith
      then show ?thesis
      proof cases
        case 1
        then show ?thesis using r' by (simp add: i_def)
      next
        case 2
        then show ?thesis using before_mono [OF 2, of data ?N] a by (simp add: i_def)
      next
        case 3
        then show ?thesis using before_mono [OF 3, of data ?N] lt by (simp add: i_def)
      qed
    qed
    then show ?thesis using assms(1) r' by (simp add: filled_def occ_Suc nth_append)
  qed
  then show "filled data (Suc m) (ps[i := m])" using len by (simp add: filled_def)
qed

lemma occ_length_le: "length (occ data m k) \<le> m"
  by (induction m) (simp_all add: occ_Suc occ_def)

lemma fill_positions_filled:
  assumes "\<And>a b. offs a b = before data (length data - 1) (code a b)"
    "filled data m ps" "\<And>a b. fills a b = length (occ data m (code a b))" "Suc m + d = length data"
  shows "(length data \<le> 2 ^ 31 \<longrightarrow> fill_positions data offs [Suc m..<length data] (ps, fills) \<noteq> None) \<and>
    (\<forall>ps' fills'. fill_positions data offs [Suc m..<length data] (ps, fills) = Some (ps', fills') \<longrightarrow> filled data (length data - 1) ps')"
  using assms(2-)
proof (induction d arbitrary: m ps fills)
  case 0
  then have "length data - 1 = m" by simp
  then show ?case using 0 by simp
next
  case (Suc d)
  let ?a = "data ! m" and ?b = "data ! Suc m"
  have m: "Suc m < length data" using Suc.prems(3) by simp
  have k: "code ?a ?b = bigram_at data m" by (simp add: bigram_at_def)
  let ?i = "before data (length data - 1) (bigram_at data m) + length (occ data m (bigram_at data m))"
  note f = filled_step [OF Suc.prems(1) m refl]
  have fs: "tab_set fills ?a ?b (fills ?a ?b + 1) a b = length (occ data (Suc m) (code a b))" for a b
    using Suc.prems(2) k by (simp add: tab_set_apply occ_Suc)
  have "[Suc m..<length data] = Suc m # [Suc (Suc m)..<length data]" using m by (rule upt_conv_Cons)
  then have run: "fill_positions data offs [Suc m..<length data] (ps, fills) =
      (if fills ?a ?b + 1 < 2 ^ 31
       then fill_positions data offs [Suc (Suc m)..<length data] (ps[?i := m], tab_set fills ?a ?b (fills ?a ?b + 1)) else None)"
    using f(1) by (simp add: Let_def assms(1) Suc.prems(2) k mem_set_upd)
  have small: "fills ?a ?b + 1 < length data" using Suc.prems(2) occ_length_le [of data m "code ?a ?b"] m by simp
  from Suc.IH [OF f(2) fs] Suc.prems(3) have IH:
    "length data \<le> 2 ^ 31 \<longrightarrow> fill_positions data offs [Suc (Suc m)..<length data] (ps[?i := m], tab_set fills ?a ?b (fills ?a ?b + 1)) \<noteq> None"
    "\<forall>ps' fills'. fill_positions data offs [Suc (Suc m)..<length data] (ps[?i := m], tab_set fills ?a ?b (fills ?a ?b + 1)) = Some (ps', fills') \<longrightarrow>
      filled data (length data - 1) ps'" by simp_all
  show ?case
  proof (cases "fills ?a ?b + 1 < 2 ^ 31")
    case True
    show ?thesis unfolding run if_P [OF True] using IH by (rule conjI)
  next
    case False
    show ?thesis unfolding run if_not_P [OF False] using False small by simp
  qed
qed

text \<open>The enumerator that is made for a block of data.\<close>

definition em_ok :: "SubstringEnumerator \<Rightarrow> bytes \<Rightarrow> nat \<Rightarrow> bool" where
  "em_ok em data max_length \<longleftrightarrow> em_data em = data \<and> em_max_length em = max_length \<and>
     (\<forall>a b. bigram_sizes em a b = length (occ data (length data - 1) (code a b)) \<and>
       bigram_offsets em a b = before data (length data - 1) (code a b)) \<and>
     filled data (length data - 1) (bigram_positions em)"

lemma substring_enumerator_new_em:
  "(length data \<le> 2 ^ 31 \<longrightarrow> (\<exists>em. substring_enumerator_new data 2 max_length = Some (Some em))) \<and>
   (\<forall>em. substring_enumerator_new data 2 max_length = Some (Some em) \<longrightarrow> em_ok em data max_length)"
proof -
  let ?sizes = "count_bigrams data" and ?ps = "replicate (length data) (0::nat)"
  let ?offs = "offset_bigrams ?sizes"
  have o: "?offs a b = before data (length data - 1) (code a b)" for a b
    by (rule offset_bigrams_eq) (rule count_bigrams_eq)
  have f0: "filled data 0 ?ps" by (simp add: filled_def occ_def)
  let ?run = "fill_positions data ?offs [1..<length data] (?ps, \<lambda>_ _. 0)"
  have run: "(length data \<le> 2 ^ 31 \<longrightarrow> ?run \<noteq> None) \<and> (\<forall>ps fills. ?run = Some (ps, fills) \<longrightarrow> filled data (length data - 1) ps)"
  proof (cases "data = []")
    case False
    then have "Suc 0 + (length data - 1) = length data" by (cases data) simp_all
    then show ?thesis using fill_positions_filled [OF o f0, of "\<lambda>_ _. 0" "length data - 1"] by (simp add: occ_def)
  qed (simp add: f0 [simplified] filled_def occ_def)
  have new: "substring_enumerator_new data 2 max_length =
    map_option (\<lambda>(ps, fills). Some \<lparr> em_data = data, em_max_length = max_length, bigram_offsets = ?offs, bigram_sizes = ?sizes,
      bigram_positions = ps \<rparr>) ?run"
    by (cases ?run) (auto simp: substring_enumerator_new_def memoize_bigram_positions_def Let_def)
  show ?thesis using run unfolding new by (auto simp: em_ok_def count_bigrams_eq o)
qed

section \<open>What is enumerated\<close>

text \<open>The bytes \<open>j\<close> to \<open>l\<close> behind \<open>pos\<close> and behind \<open>q\<close> agree.\<close>

definition agree :: "bytes \<Rightarrow> nat \<Rightarrow> nat \<Rightarrow> nat \<Rightarrow> nat \<Rightarrow> bool" where
  "agree data pos q j l \<longleftrightarrow> (\<forall>i. j \<le> i \<longrightarrow> i < l \<longrightarrow> data ! (pos + i) = data ! (q + i))"

lemma agree_step: "j < l \<Longrightarrow> agree data pos q j l \<longleftrightarrow> data ! (pos + j) = data ! (q + j) \<and> agree data pos q (Suc j) l"
  unfolding agree_def using Suc_le_eq le_eq_less_or_eq by auto

lemma agree_repeats: "q < pos \<Longrightarrow> agree data pos q 0 l \<longleftrightarrow> repeats data pos (pos - q - 1) l"
proof -
  assume "q < pos"
  then have "pos + i - (pos - q - 1) - 1 = q + i" for i by simp
  then show ?thesis by (simp add: agree_def repeats_def)
qed

lemma extend_match_set:
  assumes "em_data em = data" "em_max_length em = M" "q < pos"
  shows "\<exists>cs. extend_match em pos q j = Some cs \<and>
    set cs = {(q', l). q' = q \<and> j < l \<and> l \<le> M \<and> pos + l \<le> length data \<and> agree data pos q j l}"
proof (induction "M - j" arbitrary: j rule: less_induct)
  case less
  show ?case
  proof (cases "j < M \<and> j + pos < length data")
    case False
    then show ?thesis using assms by (subst extend_match.simps) auto
  next
    case True
    then have g: "mem_get data (pos + j) = Some (data ! (pos + j))" "mem_get data (q + j) = Some (data ! (q + j))"
      using assms(3) by (simp_all add: mem_get_def)
    show ?thesis
    proof (cases "data ! (pos + j) = data ! (q + j)")
      case False
      then have "\<not> agree data pos q j l" if "j < l" for l using that by (simp add: agree_step)
      moreover have "extend_match em pos q j = Some []"
        using False True by (subst extend_match.simps) (simp add: assms(1,2) g)
      ultimately show ?thesis by auto
    next
      case eq: True
      obtain cs where cs: "extend_match em pos q (j + 1) = Some cs"
        "set cs = {(q', l). q' = q \<and> Suc j < l \<and> l \<le> M \<and> pos + l \<le> length data \<and> agree data pos q (Suc j) l}"
        using less.hyps [of "j + 1"] True diff_less_mono2 [of j "j + 1" M] by auto
      have "agree data pos q (Suc j) (Suc j)" by (simp add: agree_def)
      then have "insert (q, Suc j) (set cs) = {(q', l). q' = q \<and> j < l \<and> l \<le> M \<and> pos + l \<le> length data \<and> agree data pos q j l}"
        unfolding cs(2) using True eq agree_step [of j _ data pos q] by (auto simp: Suc_lessI)
      moreover have "extend_match em pos q j = Some ((q, Suc j) # cs)"
        using cs(1) True eq by (subst extend_match.simps) (simp add: assms(1,2) g)
      ultimately show ?thesis by simp
    qed
  qed
qed

lemma for_each_loop_set:
  assumes "em_data em = data" "em_max_length em = M" "2 \<le> M" "pos + 2 \<le> length data"
  shows "\<forall>i \<in> set is. offset + i < length (bigram_positions em) \<Longrightarrow>
    sorted (map (\<lambda>i. bigram_positions em ! (offset + i)) is) \<Longrightarrow>
    \<exists>cs. for_each_loop em pos offset is = Some cs \<and>
      set cs = {(q, l). q \<in> set (map (\<lambda>i. bigram_positions em ! (offset + i)) is) \<and> q < pos \<and> 2 \<le> l \<and> l \<le> M \<and>
        pos + l \<le> length data \<and> agree data pos q 2 l}"
proof (induction "is")
  case (Cons i "is")
  let ?q = "bigram_positions em ! (offset + i)"
  have g: "mem_get (bigram_positions em) (offset + i) = Some ?q" using Cons.prems(1) by (simp add: mem_get_nth)
  show ?case
  proof (cases "pos \<le> ?q")
    case True
    then have "\<not> q < pos" if "q \<in> set (map (\<lambda>i. bigram_positions em ! (offset + i)) (i # is))" for q
      using Cons.prems(2) that by auto
    then have "{(q, l). q \<in> set (map (\<lambda>i. bigram_positions em ! (offset + i)) (i # is)) \<and> q < pos \<and> 2 \<le> l \<and> l \<le> M \<and>
        pos + l \<le> length data \<and> agree data pos q 2 l} = set []" by auto
    moreover have "for_each_loop em pos offset (i # is) = Some []" by (simp add: True g)
    ultimately show ?thesis by blast
  next
    case False
    obtain cs where cs: "extend_match em pos ?q 2 = Some cs"
      "set cs = {(q', l). q' = ?q \<and> 2 < l \<and> l \<le> M \<and> pos + l \<le> length data \<and> agree data pos ?q 2 l}"
      using extend_match_set [OF assms(1,2), of ?q pos 2] False by auto
    obtain ds where ds: "for_each_loop em pos offset is = Some ds"
      "set ds = {(q, l). q \<in> set (map (\<lambda>i. bigram_positions em ! (offset + i)) is) \<and> q < pos \<and> 2 \<le> l \<and> l \<le> M \<and>
        pos + l \<le> length data \<and> agree data pos q 2 l}"
      using Cons by auto
    have a2: "agree data pos ?q 2 2" by (simp add: agree_def)
    have "2 \<le> l \<longleftrightarrow> l = 2 \<or> 2 < l" for l :: nat by linarith
    then have one: "insert (?q, 2) (set cs) = {(q', l). q' = ?q \<and> 2 \<le> l \<and> l \<le> M \<and> pos + l \<le> length data \<and> agree data pos ?q 2 l}"
      unfolding cs(2) using assms(3,4) a2 by blast
    have "set ((?q, 2) # cs @ ds) = insert (?q, 2) (set cs) \<union> set ds" by simp
    also have "\<dots> = {(q, l). q \<in> set (map (\<lambda>i. bigram_positions em ! (offset + i)) (i # is)) \<and> q < pos \<and> 2 \<le> l \<and> l \<le> M \<and>
        pos + l \<le> length data \<and> agree data pos q 2 l}"
      unfolding one ds(2) using False by (simp only: list.map list.set insert_iff not_le) blast
    finally have "set ((?q, 2) # cs @ ds) = {(q, l). q \<in> set (map (\<lambda>i. bigram_positions em ! (offset + i)) (i # is)) \<and> q < pos \<and>
        2 \<le> l \<and> l \<le> M \<and> pos + l \<le> length data \<and> agree data pos q 2 l}" .
    moreover have "for_each_loop em pos offset (i # is) = Some ((?q, 2) # cs @ ds)" using False cs(1) ds(1) by (simp add: g)
    ultimately show ?thesis by blast
  qed
qed simp

lemma substring_for_each_set:
  assumes "em_ok em data M" "2 \<le> M" "pos < length data" "length data < 2 ^ 64"
  shows "\<exists>cs. substring_enumerator_for_each em pos = Some cs \<and>
    set cs = {(q, l). q < pos \<and> 2 \<le> l \<and> l \<le> M \<and> pos + l \<le> length data \<and> repeats data pos (pos - q - 1) l}"
proof -
  have em: "em_data em = data" "em_max_length em = M" "filled data (length data - 1) (bigram_positions em)"
    "\<And>a b. bigram_sizes em a b = length (occ data (length data - 1) (code a b))"
    "\<And>a b. bigram_offsets em a b = before data (length data - 1) (code a b)"
    using assms(1) by (simp_all add: em_ok_def)
  have w: "wsub (length data) 1 = length data - 1" using assms(3,4) by (intro wsub_small) linarith+
  show ?thesis
  proof (cases "pos = 0 \<or> pos = length data - 1")
    case True
    then show ?thesis using assms(3) em(1) w by (auto simp: substring_enumerator_for_each_def)
  next
    case False
    then have pos: "pos + 2 \<le> length data" using assms(3) by linarith
    let ?k = "code (data ! pos) (data ! (pos + 1))" and ?N = "length data - 1"
    let ?o = "before data ?N ?k" and ?is = "[0..<length (occ data ?N ?k)]"
    have nth: "bigram_positions em ! (?o + i) = occ data ?N ?k ! i" if "i < length (occ data ?N ?k)" for i
      using em(3) that by (simp add: filled_def)
    have m: "map (\<lambda>i. bigram_positions em ! (?o + i)) ?is = occ data ?N ?k"
      using nth by (intro nth_equalityI) simp_all
    have "?o + length (occ data ?N ?k) \<le> ?N" using before_bound [of data ?N "Suc ?k"] by (simp add: before_Suc)
    moreover have "length (bigram_positions em) = length data" using em(3) by (simp add: filled_def)
    ultimately have r: "\<forall>i \<in> set ?is. ?o + i < length (bigram_positions em)" using pos by auto
    have s: "sorted (occ data ?N ?k)" by (simp add: occ_def sorted_wrt_filter)
    obtain cs where cs: "for_each_loop em pos ?o ?is = Some cs"
      "set cs = {(q, l). q \<in> set (occ data ?N ?k) \<and> q < pos \<and> 2 \<le> l \<and> l \<le> M \<and> pos + l \<le> length data \<and> agree data pos q 2 l}"
      using for_each_loop_set [OF em(1,2) assms(2) pos r] s unfolding m by blast
    have "substring_enumerator_for_each em pos = Some cs"
      using False pos em w cs(1) by (simp add: substring_enumerator_for_each_def mem_get_nth)
    moreover have "q \<in> set (occ data ?N ?k) \<and> agree data pos q 2 l \<longleftrightarrow> repeats data pos (pos - q - 1) l"
      if "q < pos" "2 \<le> l" for q l
    proof -
      have "repeats data pos (pos - q - 1) l \<longleftrightarrow> agree data pos q 0 l" using agree_repeats [OF that(1)] by simp
      also have "\<dots> \<longleftrightarrow> data ! pos = data ! q \<and> data ! (pos + 1) = data ! (q + 1) \<and> agree data pos q 2 l"
        using that(2) by (simp add: agree_step numeral_2_eq_2)
      also have "\<dots> \<longleftrightarrow> q \<in> set (occ data ?N ?k) \<and> agree data pos q 2 l"
        using that(1) pos by (auto simp: set_occ bigram_at_def code_inject)
      finally show ?thesis by simp
    qed
    ultimately show ?thesis using cs(2) by (intro exI [of _ cs]) auto
  qed
qed

lemma packet_enumerator_new_ok: "length data \<le> 2 ^ 31 \<Longrightarrow> \<exists>em. packet_enumerator_new data = Some (Some em)"
  using substring_enumerator_new_em [of data 273] by (simp add: packet_enumerator_new_def MIN_SUBSTRING_def MAX_SUBSTRING_def)

lemma packet_enumerator_new_em: "packet_enumerator_new data = Some (Some em) \<Longrightarrow> em_ok em data 273"
  using substring_enumerator_new_em [of data 273] by (simp add: packet_enumerator_new_def MIN_SUBSTRING_def MAX_SUBSTRING_def)

lemma callback_set:
  assumes "q < position st" "position st < 2 ^ 32" "l \<le> 273"
  shows "set (packet_enumerator_substring_callback st (q, l)) =
    insert \<lparr> ptype = MATCH, dist = position st - q - 1, plen = l \<rparr>
      {p. ptype p = LONG_REP \<and> plen p = l \<and> dist p < 4 \<and> dists st ! dist p = position st - q - 1}"
proof -
  let ?d = "position st - q - 1"
  have "position st + 2 ^ 64 - q - 1 = ?d + 2 ^ 32 * 2 ^ 32" using assms(1) by simp
  then have "(position st + 2 ^ 64 - q - 1) mod 2 ^ 32 = ?d mod 2 ^ 32" by (simp only: mod_mult_self2)
  then have d: "(position st + 2 ^ 64 - q - 1) mod 2 ^ 32 = ?d" using assms(2) by simp
  have "l mod 2 ^ 16 = l" "?d mod 2 ^ 32 = ?d" using assms by simp_all
  then have m: "match_packet ?d l = \<lparr> ptype = MATCH, dist = ?d, plen = l \<rparr>"
    and r: "long_rep_packet i l = \<lparr> ptype = LONG_REP, dist = i, plen = l \<rparr>" for i
    by (simp_all only: match_packet_def long_rep_packet_def)
  have "{p. ptype p = LONG_REP \<and> plen p = l \<and> dist p < 4 \<and> dists st ! dist p = ?d} =
      (\<lambda>i. \<lparr> ptype = LONG_REP, dist = i, plen = l \<rparr>) ` {i. i < 4 \<and> ?d = dists st ! i}"
  proof (intro set_eqI iffI)
    fix p :: LZMAPacket assume "p \<in> {p. ptype p = LONG_REP \<and> plen p = l \<and> dist p < 4 \<and> dists st ! dist p = ?d}"
    then show "p \<in> (\<lambda>i. \<lparr> ptype = LONG_REP, dist = i, plen = l \<rparr>) ` {i. i < 4 \<and> ?d = dists st ! i}"
      by (cases p) auto
  qed auto
  then show ?thesis unfolding packet_enumerator_substring_callback_def Let_def prod.case d m r by auto
qed

lemma for_each_packets:
  assumes "em_ok em (sdata st) 273" "state_ok st" "position st < length (sdata st)" "length (sdata st) \<le> 2 ^ 32"
  shows "\<exists>ps. packet_enumerator_for_each em st = Some ps \<and>
    set ps = {p. packet_ok st p \<and> (ptype p = LITERAL \<or> ptype p = SHORT_REP \<longrightarrow> dist p = 0)}"
proof -
  let ?pos = "position st" and ?data = "sdata st"
  have em: "em_data em = ?data" using assms(1) by (simp add: em_ok_def)
  have pos: "?pos < 2 ^ 32" using assms(3,4) by linarith
  obtain cs where cs: "substring_enumerator_for_each em ?pos = Some cs"
    "set cs = {(q, l). q < ?pos \<and> 2 \<le> l \<and> l \<le> 273 \<and> ?pos + l \<le> length ?data \<and> repeats ?data ?pos (?pos - q - 1) l}"
    using substring_for_each_set [OF assms(1) _ assms(3)] assms(4) by auto
  let ?short = "if 0 < ?pos \<and> repeats ?data ?pos (dists st ! 0) 1 then [short_rep_packet] else []"
  have "(if 0 < ?pos then do { x \<leftarrow> mem_get (em_data em) ?pos; y \<leftarrow> byte_at_distance st (dists st ! 0);
           Some (if x = y then [short_rep_packet] else []) } else Some []) = Some ?short"
    using match_byte(1) [OF assms(2)] assms(3) by (auto simp: em mem_get_nth repeats_def)
  then have run: "packet_enumerator_for_each em st =
      Some (literal_packet # ?short @ concat (map (packet_enumerator_substring_callback st) cs))"
    unfolding packet_enumerator_for_each_def using em cs(1) by simp
  have sub: "set (concat (map (packet_enumerator_substring_callback st) cs)) =
      {p. (ptype p = MATCH \<or> ptype p = LONG_REP) \<and> packet_ok st p}"
  proof (intro set_eqI iffI)
    fix p assume "p \<in> set (concat (map (packet_enumerator_substring_callback st) cs))"
    then obtain q l where q: "(q, l) \<in> set cs" "p \<in> set (packet_enumerator_substring_callback st (q, l))" by auto
    then have c: "q < ?pos" "2 \<le> l" "l \<le> 273" "?pos + l \<le> length ?data" "repeats ?data ?pos (?pos - q - 1) l"
      using cs(2) by auto
    then show "p \<in> {p. (ptype p = MATCH \<or> ptype p = LONG_REP) \<and> packet_ok st p}"
      using q(2) pos unfolding callback_set [OF c(1) pos c(3)] by (auto simp: packet_ok_simps)
  next
    fix p assume p: "p \<in> {p. (ptype p = MATCH \<or> ptype p = LONG_REP) \<and> packet_ok st p}"
    define d where "d = (if ptype p = MATCH then dist p else dists st ! dist p)"
    have len: "2 \<le> plen p" "plen p \<le> 273" "?pos + plen p \<le> length ?data" "repeats ?data ?pos d (plen p)"
      using p by (auto simp: packet_ok_simps d_def)
    have d: "d < ?pos" using p dists_bound [OF assms(2), of "dist p"] by (auto simp: packet_ok_simps d_def max_def split: if_splits)
    let ?q = "?pos - d - 1"
    have q: "?q < ?pos" "?pos - ?q - 1 = d" using d by simp_all
    then have "(?q, plen p) \<in> set cs" unfolding cs(2) using len by simp
    moreover have "p \<in> set (packet_enumerator_substring_callback st (?q, plen p))"
      unfolding callback_set [OF q(1) pos len(2)] q(2) using p by (cases p) (auto simp: d_def packet_ok_simps)
    ultimately show "p \<in> set (concat (map (packet_enumerator_substring_callback st) cs))" by auto
  qed
  have lit: "packet_ok st literal_packet" using assms(3) by (simp add: packet_ok_simps literal_packet_def)
  have sh: "packet_ok st short_rep_packet \<longleftrightarrow> 0 < ?pos \<and> repeats ?data ?pos (dists st ! 0) 1"
    using assms(3) by (simp add: packet_ok_simps short_rep_packet_def)
  have eq: "packet_ok st p \<and> (ptype p = LITERAL \<or> ptype p = SHORT_REP \<longrightarrow> dist p = 0) \<longleftrightarrow>
      p = literal_packet \<or> p = short_rep_packet \<and> packet_ok st short_rep_packet \<or> (ptype p = MATCH \<or> ptype p = LONG_REP) \<and> packet_ok st p" for p
    using lit by (cases p; cases "ptype p") (auto simp: packet_ok_simps literal_packet_def short_rep_packet_def)
  show ?thesis unfolding eq sh using run sub by auto
qed

text \<open>C32. The enumeration of packets is exact: built over a file of at most 4 GiB, and asked at any position by a coder
  state that satisfies its invariant, it offers exactly the packets that describe the data there: the literal,
  a short repeat when it applies, every match of two to 273 bytes against any earlier occurrence, and the
  long repeat for each of the four remembered distances that gives such a match. None is missed, and none
  that is offered is wrong.\<close>

theorem packet_enumerator_exact:
  assumes "packet_enumerator_new (sdata st) = Some (Some em)" "state_ok st"
    "position st < length (sdata st)" "length (sdata st) \<le> 2 ^ 32"
  shows "map_option set (packet_enumerator_for_each em st) =
    Some {p. packet_ok st p \<and> (ptype p = LITERAL \<or> ptype p = SHORT_REP \<longrightarrow> dist p = 0)}"
proof -
  have "em_ok em (sdata st) 273" by (rule packet_enumerator_new_em [OF assms(1)])
  from for_each_packets [OF this assms(2-4)] show ?thesis by auto
qed

theorem packet_enumerator_exact_witness:
  "\<exists>em st. sdata st = [5, 6, 5, 6] \<and> position st = 2 \<and> map_option set (packet_enumerator_for_each em st) =
    Some {p. packet_ok st p \<and> (ptype p = LITERAL \<or> ptype p = SHORT_REP \<longrightarrow> dist p = 0)}"
proof -
  let ?st = "(lzma_state_init [5, 6, 5, 6] \<lparr> prop_lc = 0, prop_lp = 0, prop_pb = 0 \<rparr>)\<lparr> position := 2 \<rparr>"
  have st: "state_ok ?st" by (simp add: state_ok_def lzma_state_init_def probs_ok_init)
  obtain em where em: "packet_enumerator_new (sdata ?st) = Some (Some em)"
    using packet_enumerator_new_ok [of "sdata ?st"] by (auto simp: lzma_state_init_def)
  have "map_option set (packet_enumerator_for_each em ?st) =
    Some {p. packet_ok ?st p \<and> (ptype p = LITERAL \<or> ptype p = SHORT_REP \<longrightarrow> dist p = 0)}"
    by (rule packet_enumerator_exact [OF em st]) (simp_all add: lzma_state_init_def)
  moreover have "sdata ?st = [5, 6, 5, 6]" "position ?st = 2" by (simp_all add: lzma_state_init_def)
  ultimately show ?thesis by blast
qed

end
