(* ===== verification/Mega_Finder.thy ===== *)
theory Mega_Finder
  imports Mega_Enum Mega_Heap Mega_Table
begin

text \<open>
  The perplexity encoder, which only adds up the cost of the calls it receives, and the search for the
  packets that code a position at the least cost per byte (\<open>perplexity_encoder\<close>, \<open>top_k_packet_finder\<close>).
\<close>

section \<open>Model\<close>

definition DECIMAL_PLACES :: nat where "DECIMAL_PLACES = 11"

definition perplexity_encoder_encode_bit :: "nat \<Rightarrow> bool \<Rightarrow> u16 \<Rightarrow> nat option" where
  "perplexity_encoder_encode_bit perplexity b prob =
    do { c \<leftarrow> mem_get LOG2_LOOKUP (if b then wsub 2048 (unat prob) else unat prob);
         Some ((perplexity + c) mod 2 ^ 64) }"

definition perplexity_encoder_encode_direct_bits :: "nat \<Rightarrow> nat \<Rightarrow> nat" where
  "perplexity_encoder_encode_direct_bits perplexity num_bits =
    (perplexity + (num_bits * 2 ^ DECIMAL_PLACES) mod 2 ^ 32) mod 2 ^ 64"

fun perplexity_calls :: "nat \<Rightarrow> enc_call list \<Rightarrow> nat option" where
  "perplexity_calls perplexity [] = Some perplexity"
| "perplexity_calls perplexity (Enc_bit b p # cs) =
     do { perplexity \<leftarrow> perplexity_encoder_encode_bit perplexity b p; perplexity_calls perplexity cs }"
| "perplexity_calls perplexity (Enc_direct bits n # cs) =
     perplexity_calls (perplexity_encoder_encode_direct_bits perplexity n) cs"

text \<open>A call of \<open>lzma_encode_packet\<close> with this encoder.\<close>

definition encode_perplexity :: "LZMAState \<Rightarrow> nat \<Rightarrow> LZMAPacket \<Rightarrow> (LZMAState \<times> nat) option" where
  "encode_perplexity st perplexity p =
    do { (es, st) \<leftarrow> lzma_encode_packet st p; perplexity \<leftarrow> perplexity_calls perplexity es; Some (st, perplexity) }"

subsection \<open>Finder\<close>

text \<open>A cost is a \<open>float\<close>: a whole number that is rounded to 24 significant bits, a tie to the even side.\<close>

definition to_float :: "nat \<Rightarrow> nat" where
  "to_float n =
    (if n < 2 ^ 24 then n
     else let e = get_msb32 n - 24; q = n div 2 ^ e; r = n mod 2 ^ e
          in (if 2 * r > 2 ^ e \<or> 2 * r = 2 ^ e \<and> odd q then q + 1 else q) * 2 ^ e)"

record TopKEntry =
  packet :: LZMAPacket
  cost :: nat

text \<open>The size of the finder is the length of the array of entries.\<close>

record TopKPacketFinder =
  entries :: "TopKEntry list"
  heap :: MaxHeap
  enumerator :: SubstringEnumerator

definition sign :: "int \<Rightarrow> int" where
  "sign x = (if x < 0 then -1 else if x > 0 then 1 else 0)"

definition top_k_entry_comparator :: "TopKEntry list \<Rightarrow> comparator" where
  "top_k_entry_comparator es a b =
    (if a < length es \<and> b < length es then Some (sign (int (cost (es ! a)) - int (cost (es ! b)))) else None)"

definition top_k_packet_finder_new :: "TopKEntry list \<Rightarrow> nat list \<Rightarrow> SubstringEnumerator \<Rightarrow> TopKPacketFinder" where
  "top_k_packet_finder_new entry_block heap_block em =
    \<lparr> entries = entry_block, heap = max_heap_new heap_block, enumerator = em \<rparr>"

definition top_k_packet_finder_count :: "TopKPacketFinder \<Rightarrow> nat" where
  "top_k_packet_finder_count f = max_heap_count (heap f)"

definition top_k_entry_finder_insert :: "TopKPacketFinder \<Rightarrow> TopKEntry \<Rightarrow> TopKPacketFinder option" where
  "top_k_entry_finder_insert f entry =
    (let count = top_k_packet_finder_count f in
     if count < length (entries f) then
       do { es \<leftarrow> mem_set (entries f) count entry;
            (inserted, h) \<leftarrow> max_heap_insert (top_k_entry_comparator es) (heap f) count;
            Some (f\<lparr> entries := es, heap := h \<rparr>) }
     else
       do { m \<leftarrow> max_heap_maximum (heap f);
            maximum \<leftarrow> m;
            worst \<leftarrow> mem_get (entries f) maximum;
            if cost entry \<le> cost worst then
              do { es \<leftarrow> mem_set (entries f) maximum entry;
                   (updated, h) \<leftarrow> max_heap_update_maximum (top_k_entry_comparator es) (heap f);
                   Some (f\<lparr> entries := es, heap := h \<rparr>) }
            else Some f })"

definition packet_cost :: "LZMAState \<Rightarrow> LZMAPacket \<Rightarrow> nat option" where
  "packet_cost st p =
    do { (new_state, perplexity) \<leftarrow> encode_perplexity st 0 p;
         let len = position new_state - position st;
         if len = 0 then None else Some (to_float (perplexity div len)) }"

definition top_k_packet_finder_callback ::
  "LZMAPacket list \<Rightarrow> LZMAState \<Rightarrow> TopKPacketFinder \<Rightarrow> LZMAPacket \<Rightarrow> TopKPacketFinder option" where
  "top_k_packet_finder_callback next_packets st f p =
    do { next \<leftarrow> mem_get next_packets (position st);
         if lzma_packet_cmp p next then Some f
         else do { c \<leftarrow> packet_cost st p;
                   top_k_entry_finder_insert f \<lparr> packet = p, cost = c \<rparr> } }"

fun find_loop :: "LZMAPacket list \<Rightarrow> LZMAState \<Rightarrow> TopKPacketFinder \<Rightarrow> LZMAPacket list \<Rightarrow> TopKPacketFinder option" where
  "find_loop next_packets st f [] = Some f"
| "find_loop next_packets st f (p # ps) =
     do { f \<leftarrow> top_k_packet_finder_callback next_packets st f p; find_loop next_packets st f ps }"

definition top_k_packet_finder_find :: "TopKPacketFinder \<Rightarrow> LZMAState \<Rightarrow> LZMAPacket list \<Rightarrow> TopKPacketFinder option" where
  "top_k_packet_finder_find f st next_packets =
    do { ps \<leftarrow> packet_enumerator_for_each (enumerator f) st;
         find_loop next_packets st (f\<lparr> heap := max_heap_clear (heap f) \<rparr>) ps }"

definition top_k_packet_finder_pop :: "TopKPacketFinder \<Rightarrow> (LZMAPacket \<times> TopKPacketFinder) option option" where
  "top_k_packet_finder_pop f =
    do { m \<leftarrow> max_heap_maximum (heap f);
         case m of None \<Rightarrow> Some None
         | Some maximum \<Rightarrow> do {
             e \<leftarrow> mem_get (entries f) maximum;
             (removed, h) \<leftarrow> max_heap_remove_maximum (top_k_entry_comparator (entries f)) (heap f);
             Some (Some (packet e, f\<lparr> heap := h \<rparr>)) } }"

section \<open>The order of the entries\<close>

definition cost_order :: "TopKEntry list \<Rightarrow> nat \<Rightarrow> nat \<Rightarrow> int" where
  "cost_order es a b = sign (int (cost (es ! a)) - int (cost (es ! b)))"

lemma cost_order_le: "cost_order es a b \<le> 0 \<longleftrightarrow> cost (es ! a) \<le> cost (es ! b)"
  "cost_order es a b < 0 \<longleftrightarrow> cost (es ! a) < cost (es ! b)"
  by (auto simp: cost_order_def sign_def)

interpretation by_cost: heap_order "top_k_entry_comparator es" "\<lambda>i. i < length es" "cost_order es" for es
proof
  show "a < length es \<Longrightarrow> b < length es \<Longrightarrow> top_k_entry_comparator es a b = Some (cost_order es a b)" for a b
    by (simp add: top_k_entry_comparator_def cost_order_def)
qed (auto simp: cost_order_le)

section \<open>The cheapest candidates\<close>

text \<open>What the finder holds, and its invariant; while candidates are inserted, the heap holds the entries
  from the first one on.\<close>

definition held :: "TopKPacketFinder \<Rightarrow> TopKEntry multiset" where
  "held f = image_mset (\<lambda>i. entries f ! i) (mset (items (heap f)))"

definition finder_ok :: "TopKPacketFinder \<Rightarrow> bool" where
  "finder_ok f \<longleftrightarrow> heap_ok (\<lambda>i. i < length (entries f)) (cost_order (entries f)) (heap f) \<and>
     length (store (heap f)) = length (entries f)"

definition filling :: "TopKPacketFinder \<Rightarrow> bool" where
  "filling f \<longleftrightarrow> finder_ok f \<and> mset (items (heap f)) = mset [0..<hcount (heap f)]"

lemma finder_room: "finder_ok f \<Longrightarrow> room_ok (\<lambda>i. i < length (entries f)) (heap f)"
  by (simp add: finder_ok_def heap_ok_def)

lemma held_size: "finder_ok f \<Longrightarrow> size (held f) = hcount (heap f)"
  using items_length [OF finder_room] by (simp add: held_def)

lemma clear_filling:
  "finder_ok f \<Longrightarrow> filling (f\<lparr> heap := max_heap_clear (heap f) \<rparr>) \<and> held (f\<lparr> heap := max_heap_clear (heap f) \<rparr>) = {#}"
  using by_cost.clear_ok [of "entries f" "heap f"]
  by (simp add: filling_def finder_ok_def held_def max_heap_clear_def)

text \<open>Changing an entry that no item of the heap refers to.\<close>

lemma heap_ok_cong:
  assumes "heap_ok (\<lambda>i. i < length es) (cost_order es) h" "length es' = length es"
    "\<And>i. i \<in> set (items h) \<Longrightarrow> es' ! i = es ! i"
  shows "heap_ok (\<lambda>i. i < length es') (cost_order es') h"
proof -
  have r: "room_ok (\<lambda>i. i < length es) h" using assms(1) by (simp add: heap_ok_def)
  have "store h ! i \<in> set (items h)" if "i < hcount h" for i
    using that items_nth [OF r that] items_length [OF r] by (metis nth_mem)
  then have "es' ! (store h ! i) = es ! (store h ! i)" if "i < hcount h" for i using assms(3) that by blast
  moreover have "i < hcount h \<Longrightarrow> par i < hcount h" for i by auto
  ultimately show ?thesis using assms(1,2) by (simp add: heap_ok_def order_but_def cost_order_def)
qed

text \<open>What an insertion does to what is held: it is added while there is room; then it replaces a most
  expensive one, unless it is more expensive than that.\<close>

definition replaces :: "TopKEntry \<Rightarrow> nat \<Rightarrow> TopKEntry multiset \<Rightarrow> TopKEntry multiset \<Rightarrow> bool" where
  "replaces e k M M' \<longleftrightarrow>
     (if size M < k then M' = add_mset e M
      else \<exists>m. m \<in># M \<and> (\<forall>x \<in># M. cost x \<le> cost m) \<and> (if cost e \<le> cost m then M' = add_mset e (M - {#m#}) else M' = M))"

lemma insert_filling:
  assumes "filling f" "0 < length (entries f)"
  shows "\<exists>f'. top_k_entry_finder_insert f e = Some f' \<and> filling f' \<and> length (entries f') = length (entries f) \<and>
    enumerator f' = enumerator f \<and> replaces e (length (entries f)) (held f) (held f')"
proof -
  let ?es = "entries f" and ?h = "heap f"
  let ?n = "hcount ?h"
  have ok: "finder_ok f" "heap_ok (\<lambda>i. i < length ?es) (cost_order ?es) ?h" "length (store ?h) = length ?es"
    "mset (items ?h) = mset [0..<?n]" using assms(1) by (simp_all add: filling_def finder_ok_def)
  have its: "set (items ?h) = {0..<?n}" using ok(4) by (metis atLeast_upt set_mset_mset atLeast0LessThan)
  have dist: "distinct (items ?h)" using ok(4) by (metis distinct_upt mset_eq_imp_distinct_iff)
  note r = finder_room [OF ok(1)]
  have cnt: "top_k_packet_finder_count f = ?n" by (simp add: top_k_packet_finder_count_def max_heap_count_def)
  show ?thesis
  proof (cases "?n < length ?es")
    case True
    let ?es' = "?es[?n := e]"
    have h: "heap_ok (\<lambda>i. i < length ?es') (cost_order ?es') ?h"
      by (rule heap_ok_cong [OF ok(2)]) (simp_all add: its)
    obtain h' where h': "max_heap_insert (top_k_entry_comparator ?es') ?h ?n = Some (True, h')"
      "heap_ok (\<lambda>i. i < length ?es') (cost_order ?es') h'" "mset (items h') = add_mset ?n (mset (items ?h))"
      "length (store h') = length (store ?h)" "hcount h' = Suc ?n"
      using by_cost.insert_ok [OF h] True ok(3) by auto
    let ?f = "f\<lparr> entries := ?es', heap := h' \<rparr>"
    have "top_k_entry_finder_insert f e = Some ?f"
      using True h'(1) by (simp add: top_k_entry_finder_insert_def cnt mem_set_upd)
    moreover have "filling ?f" using h' ok(3,4) by (simp add: filling_def finder_ok_def)
    moreover have "held ?f = add_mset e (held f)"
    proof -
      have "image_mset (\<lambda>i. ?es' ! i) (mset (items ?h)) = image_mset (\<lambda>i. ?es ! i) (mset (items ?h))"
        by (rule image_mset_cong) (simp add: its)
      then show ?thesis using True h'(3) by (simp add: held_def)
    qed
    ultimately show ?thesis using True held_size [OF ok(1)] by (auto simp: replaces_def)
  next
    case False
    then have n: "?n = length ?es" "0 < ?n" using r assms(2) ok(3) by (auto simp: room_ok_def)
    note mx = by_cost.maximum_ok [OF ok(2) n(2)]
    let ?m = "store ?h ! 0"
    let ?w = "?es ! ?m"
    have m: "?m < length ?es" using mx(2) its n(1) by simp
    have worst: "?w \<in># held f" "\<forall>x \<in># held f. cost x \<le> cost ?w"
      using mx(2,3) by (auto simp: held_def cost_order_le)
    show ?thesis
    proof (cases "cost e \<le> cost ?w")
      case False
      then have "top_k_entry_finder_insert f e = Some f"
        using \<open>\<not> ?n < length ?es\<close> mx(1) m by (simp add: top_k_entry_finder_insert_def cnt mem_get_nth)
      then show ?thesis using assms(1) False worst n(1) held_size [OF ok(1)] by (auto simp: replaces_def)
    next
      case True
      let ?es' = "?es[?m := e]"
      have room: "room_ok (\<lambda>i. i < length ?es') ?h" using r by simp
      have ord: "order_but (cost_order ?es') ?h (\<lambda>i. par i = 0)"
      proof -
        have ne: "store ?h ! i \<noteq> ?m" if "0 < i" "i < ?n" for i
          using dist that n(2) items_nth [OF r] items_length [OF r] by (metis nth_eq_iff_index_eq less_numeral_extra(3))
        have "cost_order ?es' (store ?h ! i) (store ?h ! par i) \<le> 0" if i: "0 < i" "i < ?n" "par i \<noteq> 0" for i
        proof -
          have "cost_order ?es (store ?h ! i) (store ?h ! par i) \<le> 0" using ok(2) i by (simp add: heap_ok_def order_but_def)
          moreover have "par i < ?n" "0 < par i" using i by auto
          then have "store ?h ! par i \<noteq> ?m" by (intro ne)
          ultimately show ?thesis using ne [OF i(1,2)] by (simp add: cost_order_def)
        qed
        then show ?thesis by (simp add: order_but_def)
      qed
      obtain h' where h': "max_heap_update_maximum (top_k_entry_comparator ?es') ?h = Some (True, h')"
        "heap_ok (\<lambda>i. i < length ?es') (cost_order ?es') h'" "mset (items h') = mset (items ?h)"
        "length (store h') = length (store ?h)" "hcount h' = ?n"
        using by_cost.update_ok [OF room ord n(2)] by blast
      let ?f = "f\<lparr> entries := ?es', heap := h' \<rparr>"
      have "top_k_entry_finder_insert f e = Some ?f"
        using \<open>\<not> ?n < length ?es\<close> True mx(1) m h'(1)
        by (simp add: top_k_entry_finder_insert_def cnt mem_get_nth mem_set_upd)
      moreover have "filling ?f" using h' ok(3,4) by (simp add: filling_def finder_ok_def)
      moreover have "held ?f = add_mset e (held f - {#?w#})"
      proof -
        obtain B where B: "mset (items ?h) = add_mset ?m B" using mx(2) by (metis insert_DiffM set_mset_mset)
        have "count (add_mset ?m B) ?m \<le> 1" using dist unfolding B [symmetric] distinct_count_atmost_1 by simp
        then have "?m \<notin># B" by (simp add: not_in_iff)
        then have "image_mset (\<lambda>i. ?es' ! i) B = image_mset (\<lambda>i. ?es ! i) B" by (intro image_mset_cong) (metis nth_list_update_neq)
        then show ?thesis using h'(3) B m by (simp add: held_def)
      qed
      ultimately show ?thesis using True worst n(1) held_size [OF ok(1)] by (auto simp: replaces_def)
    qed
  qed
qed

text \<open>\<open>M\<close> holds \<open>k\<close> cheapest elements of \<open>C\<close>.\<close>

definition cheapest :: "nat \<Rightarrow> TopKEntry multiset \<Rightarrow> TopKEntry multiset \<Rightarrow> bool" where
  "cheapest k C M \<longleftrightarrow> M \<subseteq># C \<and> size M = min k (size C) \<and> (\<forall>c \<in># C - M. \<forall>m \<in># M. cost m \<le> cost c)"

lemma replaces_cheapest:
  assumes "cheapest k C M" "replaces e k M M'"
  shows "cheapest k (add_mset e C) M'"
proof -
  have M: "M \<subseteq># C" "size M = min k (size C)" "\<And>c m. c \<in># C - M \<Longrightarrow> m \<in># M \<Longrightarrow> cost m \<le> cost c"
    using assms(1) by (auto simp: cheapest_def)
  show ?thesis
  proof (cases "size M < k")
    case True
    then have "size M = size C" using M(2) by simp
    then have "M = C" using M(1) by (metis mset_subset_size subset_mset.less_le nless_le)
    then show ?thesis using True assms(2) by (simp add: replaces_def cheapest_def)
  next
    case False
    then obtain m where m: "m \<in># M" "\<forall>x \<in># M. cost x \<le> cost m"
      "if cost e \<le> cost m then M' = add_mset e (M - {#m#}) else M' = M" using assms(2) by (auto simp: replaces_def)
    obtain R where R: "C = M + R" using M(1) by (metis mset_subset_eq_exists_conv)
    have k: "size M = k" using False M(2) by simp
    have rest: "cost x \<le> cost c" if "c \<in># R" "x \<in># M" for c x using M(3) [of c x] that R by simp
    show ?thesis
    proof (cases "cost e \<le> cost m")
      case True
      obtain N where N: "M = add_mset m N" using m(1) by (metis insert_DiffM)
      have "M' = add_mset e N" using True m(3) N by simp
      moreover have "add_mset e C - add_mset e N = add_mset m R" by (simp add: R N)
      ultimately show ?thesis using k R N m(2) rest True by (fastforce simp: cheapest_def)
    next
      case False
      then have M': "M' = M" using m(3) by simp
      have d: "add_mset e C - M = add_mset e R" by (simp add: R)
      have "cost x \<le> cost e" if "x \<in># M" for x using m(2) that False by fastforce
      then show ?thesis using k R rest unfolding M' cheapest_def d by auto
    qed
  qed
qed

lemma packet_cmp_eq: "lzma_packet_cmp p q \<longleftrightarrow> p = q"
  by (cases p; cases q) (auto simp: lzma_packet_cmp_def)

lemma perplexity_calls_defined: "list_all call_ok cs \<Longrightarrow> \<exists>v. perplexity_calls x cs = Some v"
proof (induction x cs rule: perplexity_calls.induct)
  case (2 x b p cs)
  then have p: "31 \<le> unat p" "unat p \<le> 2017" by (simp_all add: prob_ok_def)
  then have "wsub 2048 (unat p) = 2048 - unat p" by (intro wsub_small) simp_all
  then obtain v where "perplexity_encoder_encode_bit x b p = Some v"
    using p by (cases b) (auto simp: perplexity_encoder_encode_bit_def mem_get_def LOG2_LOOKUP_length)
  with 2 show ?case by simp
qed simp_all

lemma encode_perplexity_ok:
  assumes "state_ok st" "packet_ok st p"
  shows "\<exists>st' v. encode_perplexity st x p = Some (st', v) \<and> state_ok st' \<and> sdata st' = sdata st \<and> position st' = position st + plen p"
proof -
  obtain es st' where e: "lzma_encode_packet st p = Some (es, st')" "state_ok st'" "list_all call_ok es"
    "sdata st' = sdata st" "position st' = position st + plen p" using encode_packet_advances [OF assms] by blast
  moreover obtain v where "perplexity_calls x es = Some v" using perplexity_calls_defined [OF e(3)] by blast
  ultimately show ?thesis by (simp add: encode_perplexity_def)
qed

lemma packet_cost_ok:
  assumes "state_ok st" "packet_ok st p"
  shows "\<exists>c. packet_cost st p = Some c"
  using encode_perplexity_ok [OF assms, of 0] packet_ok_room [OF assms(2)] by (auto simp: packet_cost_def)

text \<open>The candidates at a position: the enumerated packets, without the one that is there now.\<close>

definition candidate :: "LZMAState \<Rightarrow> LZMAPacket \<Rightarrow> TopKEntry" where
  "candidate st p = \<lparr> packet = p, cost = the (packet_cost st p) \<rparr>"

lemma find_loop_cheapest:
  assumes "state_ok st" "position st < length next"
  shows "filling f \<Longrightarrow> 0 < length (entries f) \<Longrightarrow> \<forall>p \<in> set ps. packet_ok st p \<Longrightarrow> cheapest (length (entries f)) C (held f) \<Longrightarrow>
    \<exists>f'. find_loop next st f ps = Some f' \<and> filling f' \<and> length (entries f') = length (entries f) \<and> enumerator f' = enumerator f \<and>
      cheapest (length (entries f)) (C + mset (map (candidate st) (filter (\<lambda>p. p \<noteq> next ! position st) ps))) (held f')"
proof (induction ps arbitrary: f C)
  case (Cons p ps)
  show ?case
  proof (cases "p = next ! position st")
    case True
    then show ?thesis using Cons assms(2) by (simp add: top_k_packet_finder_callback_def mem_get_nth packet_cmp_eq)
  next
    case False
    obtain c where c: "packet_cost st p = Some c" using packet_cost_ok [OF assms(1)] Cons.prems(3) by auto
    obtain f1 where f1: "top_k_entry_finder_insert f (candidate st p) = Some f1" "filling f1" "length (entries f1) = length (entries f)"
      "enumerator f1 = enumerator f" "replaces (candidate st p) (length (entries f)) (held f) (held f1)"
      using insert_filling [OF Cons.prems(1,2)] by blast
    have "top_k_packet_finder_callback next st f p = Some f1"
      using False c f1(1) assms(2) by (simp add: top_k_packet_finder_callback_def mem_get_nth packet_cmp_eq candidate_def)
    moreover have "cheapest (length (entries f1)) (add_mset (candidate st p) C) (held f1)"
      using replaces_cheapest [OF Cons.prems(4) f1(5)] f1(3) by simp
    ultimately show ?thesis using Cons.IH [OF f1(2), of "add_mset (candidate st p) C"] Cons.prems(2,3) False f1(3,4) by simp
  qed
qed simp

lemma find_ok:
  assumes "finder_ok f" "0 < length (entries f)" "em_ok (enumerator f) (sdata st) 273" "state_ok st"
    "position st < length (sdata st)" "length (sdata st) \<le> 2 ^ 32" "position st < length next"
  shows "\<exists>ps f'. packet_enumerator_for_each (enumerator f) st = Some ps \<and>
    set ps = {p. packet_ok st p \<and> (ptype p = LITERAL \<or> ptype p = SHORT_REP \<longrightarrow> dist p = 0)} \<and>
    top_k_packet_finder_find f st next = Some f' \<and> finder_ok f' \<and> length (entries f') = length (entries f) \<and>
    enumerator f' = enumerator f \<and>
    cheapest (length (entries f)) (mset (map (candidate st) (filter (\<lambda>p. p \<noteq> next ! position st) ps))) (held f')"
proof -
  obtain ps where ps: "packet_enumerator_for_each (enumerator f) st = Some ps"
    "set ps = {p. packet_ok st p \<and> (ptype p = LITERAL \<or> ptype p = SHORT_REP \<longrightarrow> dist p = 0)}"
    using for_each_packets [OF assms(3-6)] by blast
  let ?f = "f\<lparr> heap := max_heap_clear (heap f) \<rparr>"
  have f: "filling ?f" "held ?f = {#}" using clear_filling [OF assms(1)] by blast+
  have "cheapest (length (entries ?f)) {#} (held ?f)" using f(2) by (simp add: cheapest_def)
  then obtain f' where "find_loop next st ?f ps = Some f'" "filling f'" "length (entries f') = length (entries f)"
    "enumerator f' = enumerator f"
    "cheapest (length (entries f)) (mset (map (candidate st) (filter (\<lambda>p. p \<noteq> next ! position st) ps))) (held f')"
    using find_loop_cheapest [OF assms(4,7) f(1), of ps "{#}"] assms(2) ps(2) by auto
  with ps show ?thesis by (auto simp: top_k_packet_finder_find_def filling_def)
qed

lemma pop_ok:
  assumes "finder_ok f"
  shows "held f = {#} \<Longrightarrow> top_k_packet_finder_pop f = Some None"
    "held f \<noteq> {#} \<Longrightarrow> \<exists>e f'. top_k_packet_finder_pop f = Some (Some (packet e, f')) \<and> finder_ok f' \<and> entries f' = entries f \<and>
      enumerator f' = enumerator f \<and> e \<in># held f \<and> (\<forall>x \<in># held f. cost x \<le> cost e) \<and> held f' = held f - {#e#}"
proof -
  let ?es = "entries f" and ?h = "heap f"
  have ok: "heap_ok (\<lambda>i. i < length ?es) (cost_order ?es) ?h" "length (store ?h) = length ?es"
    using assms by (simp_all add: finder_ok_def)
  have n: "held f = {#} \<longleftrightarrow> hcount ?h = 0" using held_size [OF assms] by auto
  show "top_k_packet_finder_pop f = Some None" if "held f = {#}"
    using that n by (simp add: top_k_packet_finder_pop_def max_heap_maximum_def)
  assume "held f \<noteq> {#}"
  then have pos: "0 < hcount ?h" using n by simp
  note mx = by_cost.maximum_ok [OF ok(1) pos]
  let ?m = "store ?h ! 0"
  have m: "?m < length ?es" using items_dm [OF finder_room [OF assms] mx(2)] .
  obtain h' where h': "max_heap_remove_maximum (top_k_entry_comparator ?es) ?h = Some (True, h')"
    "heap_ok (\<lambda>i. i < length ?es) (cost_order ?es) h'" "mset (items h') = mset (items ?h) - {# ?m #}"
    "length (store h') = length (store ?h)" using by_cost.remove_ok [OF ok(1) pos] by blast
  let ?f = "f\<lparr> heap := h' \<rparr>"
  have "held ?f = held f - {# ?es ! ?m #}"
    using mx(2) h'(3) by (simp add: held_def image_mset_Diff mset_subset_eq_single)
  then show "\<exists>e f'. top_k_packet_finder_pop f = Some (Some (packet e, f')) \<and> finder_ok f' \<and> entries f' = entries f \<and>
      enumerator f' = enumerator f \<and> e \<in># held f \<and> (\<forall>x \<in># held f. cost x \<le> cost e) \<and> held f' = held f - {#e#}"
    using mx m h' ok(2)
    by (intro exI [of _ "?es ! ?m"] exI [of _ ?f])
      (auto simp: top_k_packet_finder_pop_def mem_get_nth finder_ok_def held_def cost_order_le)
qed

text \<open>Popping a number of packets.\<close>

fun pop_n :: "nat \<Rightarrow> TopKPacketFinder \<Rightarrow> (LZMAPacket list \<times> TopKPacketFinder) option" where
  "pop_n 0 f = Some ([], f)"
| "pop_n (Suc n) f =
     do { r \<leftarrow> top_k_packet_finder_pop f; (p, f) \<leftarrow> r; (ps, f) \<leftarrow> pop_n n f; Some (p # ps, f) }"

definition dearer :: "LZMAState \<Rightarrow> LZMAPacket \<Rightarrow> LZMAPacket \<Rightarrow> bool" where
  "dearer st p q \<longleftrightarrow> cost (candidate st q) \<le> cost (candidate st p)"

lemma pop_n_ok:
  "finder_ok f \<Longrightarrow> size (held f) = n \<Longrightarrow> \<forall>e \<in># held f. e = candidate st (packet e) \<Longrightarrow>
   \<exists>ps f'. pop_n n f = Some (ps, f') \<and> mset (map (candidate st) ps) = held f \<and> sorted_wrt (dearer st) ps"
proof (induction n arbitrary: f)
  case (Suc n)
  then have "held f \<noteq> {#}" by auto
  then obtain e f1 where e: "top_k_packet_finder_pop f = Some (Some (packet e, f1))" "finder_ok f1" "e \<in># held f"
    "\<forall>x \<in># held f. cost x \<le> cost e" "held f1 = held f - {#e#}" using pop_ok(2) [OF Suc.prems(1)] by blast
  have ce: "candidate st (packet e) = e" using Suc.prems(3) e(3) by simp
  have "\<forall>x \<in># held f1. x = candidate st (packet x)" using Suc.prems(3) unfolding e(5) by (meson in_diffD)
  moreover have "size (held f1) = n" using Suc.prems(2) e(3,5) by (simp add: size_Diff_singleton)
  ultimately obtain ps f2 where ps: "pop_n n f1 = Some (ps, f2)" "mset (map (candidate st) ps) = held f1" "sorted_wrt (dearer st) ps"
    using Suc.IH [OF e(2)] by blast
  have "dearer st (packet e) q" if "q \<in> set ps" for q
  proof -
    have "candidate st q \<in># held f1" using that unfolding ps(2) [symmetric] by simp
    then show ?thesis using e(4) unfolding e(5) dearer_def ce by (meson in_diffD)
  qed
  then show ?case using e ps ce by simp
qed simp

text \<open>C33. The finder keeps the cheapest packets: asked at a position, it ends up with \<open>k\<close> candidates (all of them when there
  are fewer) such that no candidate that was left out costs less than one that was kept, where the candidates
  are the enumerated packets other than the one already stored there and the cost is that of the packet's calls per
  byte; and popping yields them from the most to the least expensive.\<close>

theorem top_k_cheapest:
  assumes "packet_enumerator_new (sdata st) = Some (Some em)" "0 < k" "length entry_block = k" "length heap_block = k"
    "state_ok st" "position st < length (sdata st)" "length (sdata st) \<le> 2 ^ 32" "position st < length next"
  shows "\<exists>ps f out f'. packet_enumerator_for_each em st = Some ps \<and>
    top_k_packet_finder_find (top_k_packet_finder_new entry_block heap_block em) st next = Some f \<and>
    pop_n (top_k_packet_finder_count f) f = Some (out, f') \<and> sorted_wrt (dearer st) out \<and>
    cheapest k (mset (map (candidate st) (filter (\<lambda>p. p \<noteq> next ! position st) ps))) (mset (map (candidate st) out))"
proof -
  let ?f = "top_k_packet_finder_new entry_block heap_block em"
  have em: "em_ok em (sdata st) 273" by (rule packet_enumerator_new_em [OF assms(1)])
  have "finder_ok ?f"
    using assms(3,4) by (simp add: finder_ok_def top_k_packet_finder_new_def heap_ok_def room_ok_def order_but_def max_heap_new_def)
  then obtain ps f where f: "packet_enumerator_for_each em st = Some ps" "top_k_packet_finder_find ?f st next = Some f"
    "finder_ok f" "cheapest k (mset (map (candidate st) (filter (\<lambda>p. p \<noteq> next ! position st) ps))) (held f)"
    using find_ok [of ?f st "next"] assms em by (auto simp: top_k_packet_finder_new_def)
  have n: "size (held f) = top_k_packet_finder_count f"
    using held_size [OF f(3)] by (simp add: top_k_packet_finder_count_def max_heap_count_def)
  have "e = candidate st (packet e)" if "e \<in># held f" for e
  proof -
    have "e \<in># mset (map (candidate st) (filter (\<lambda>p. p \<noteq> next ! position st) ps))"
      using f(4) that unfolding cheapest_def by (meson mset_subset_eqD)
    then show ?thesis by (auto simp: candidate_def)
  qed
  then obtain out f' where "pop_n (top_k_packet_finder_count f) f = Some (out, f')"
    "mset (map (candidate st) out) = held f" "sorted_wrt (dearer st) out" using pop_n_ok [OF f(3) n] by blast
  with f show ?thesis by metis
qed

lemma state_ok_at: "length data < 2 ^ 64 \<Longrightarrow> n \<le> length data \<Longrightarrow> state_ok ((lzma_state_init data props)\<lparr> position := n \<rparr>)"
  by (simp add: state_ok_def lzma_state_init_def probs_ok_init)

theorem top_k_cheapest_witness:
  "\<exists>st em ps f out f'. sdata st = [5, 6, 5, 6] \<and> position st = 2 \<and> packet_enumerator_for_each em st = Some ps \<and>
    top_k_packet_finder_find (top_k_packet_finder_new (replicate 20 (candidate st literal_packet)) (replicate 20 0) em) st
      (replicate 4 literal_packet) = Some f \<and>
    pop_n (top_k_packet_finder_count f) f = Some (out, f') \<and> sorted_wrt (dearer st) out \<and>
    cheapest 20 (mset (map (candidate st) (filter (\<lambda>p. p \<noteq> replicate 4 literal_packet ! position st) ps)))
      (mset (map (candidate st) out))"
proof -
  let ?st = "(lzma_state_init [5, 6, 5, 6] \<lparr> prop_lc = 0, prop_lp = 0, prop_pb = 0 \<rparr>)\<lparr> position := 2 \<rparr>"
  have st: "state_ok ?st" "sdata ?st = [5, 6, 5, 6]" "position ?st = 2"
    by (rule state_ok_at) (simp_all add: lzma_state_init_def)
  obtain em where em: "packet_enumerator_new (sdata ?st) = Some (Some em)"
    using packet_enumerator_new_ok [of "sdata ?st"] by (auto simp: lzma_state_init_def)
  have "\<exists>ps f out f'. packet_enumerator_for_each em ?st = Some ps \<and>
    top_k_packet_finder_find (top_k_packet_finder_new (replicate 20 (candidate ?st literal_packet)) (replicate 20 0) em) ?st
      (replicate 4 literal_packet) = Some f \<and>
    pop_n (top_k_packet_finder_count f) f = Some (out, f') \<and> sorted_wrt (dearer ?st) out \<and>
    cheapest 20 (mset (map (candidate ?st) (filter (\<lambda>p. p \<noteq> replicate 4 literal_packet ! position ?st) ps)))
      (mset (map (candidate ?st) out))"
    by (rule top_k_cheapest [OF em _ _ _ st(1)]) (simp_all only: st length_replicate list.size, simp_all)
  with st show ?thesis by blast
qed

section \<open>The size of a cost\<close>

lemma bit_tree_length: "bit_tree_loop bits ps m n = Some (es, ps') \<Longrightarrow> length es = n"
  by (induction n arbitrary: ps m es) (auto simp: Let_def split: Option.bind_splits prod.splits)

lemma rev_tree_length: "bit_tree_reverse_loop bits ps base m n = Some (es, ps') \<Longrightarrow> length es = n"
  by (induction n arbitrary: bits ps m es) (auto simp: Let_def split: Option.bind_splits prod.splits)

lemma literal_length: "literal_loop lit mb matched ps m n = Some (es, ps') \<Longrightarrow> length es = n"
  by (induction n arbitrary: ps m matched es) (auto simp: Let_def split: Option.bind_splits prod.splits)

lemma header_length: "lzma_encode_packet_header st h = Some (es, st') \<Longrightarrow> length es \<le> 5"
  by (auto simp: lzma_encode_packet_header_def Let_def split: Option.bind_splits prod.splits if_splits)

lemma length_length: "lzma_encode_length lp len = Some (es, lp') \<Longrightarrow> length es \<le> 10"
  by (auto simp: lzma_encode_length_def Let_def encode_bit_tree_def mega_consts dest!: bit_tree_length
      split: Option.bind_splits prod.splits if_splits)

lemma distance_length: "lzma_encode_distance st d len = Some (es, st') \<Longrightarrow> length es \<le> 12"
  by (auto simp: lzma_encode_distance_def Let_def encode_bit_tree_def encode_bit_tree_reverse_def mega_consts
      dest!: bit_tree_length rev_tree_length split: Option.bind_splits prod.splits if_splits)

lemma packet_length: "lzma_encode_packet st p = Some (es, st') \<Longrightarrow> length es \<le> 27"
  by (cases "ptype p")
    (auto simp: lzma_encode_packet_def lzma_encode_literal_def lzma_encode_match_def lzma_encode_short_rep_def
      lzma_encode_long_rep_def Let_def dest!: header_length length_length distance_length literal_length
      split: Option.bind_splits prod.splits if_splits)

lemma perplexity_calls_bound:
  "list_all call_ok cs \<Longrightarrow> perplexity_calls x cs = Some v \<Longrightarrow> v \<le> x + length cs * 65536"
proof (induction x cs rule: perplexity_calls.induct)
  case (2 x b p cs)
  from 2(3) obtain y where y: "perplexity_encoder_encode_bit x b p = Some y" "perplexity_calls y cs = Some v"
    by (auto split: Option.bind_splits)
  then obtain i where i: "i < 2048" "y = (x + LOG2_LOOKUP ! i) mod 2 ^ 64"
    by (auto simp: perplexity_encoder_encode_bit_def LOG2_LOOKUP_length split: Option.bind_splits)
  have "LOG2_LOOKUP ! i \<le> 22528" using LOG2_LOOKUP_bound i(1) by (simp add: list_all_length LOG2_LOOKUP_length)
  moreover have "y \<le> x + LOG2_LOOKUP ! i" unfolding i(2) by (rule mod_less_eq_dividend)
  moreover have "v \<le> y + length cs * 65536" using 2 y by simp
  ultimately show ?case by simp
next
  case (3 x bits n cs)
  let ?y = "perplexity_encoder_encode_direct_bits x n"
  have "?y \<le> x + n * 2048 mod 2 ^ 32"
    unfolding perplexity_encoder_encode_direct_bits_def DECIMAL_PLACES_def by (simp add: mod_less_eq_dividend)
  also have "\<dots> \<le> x + n * 2048" by (simp add: mod_less_eq_dividend)
  also have "\<dots> \<le> x + 65536" using 3(2) by simp
  finally have "?y \<le> x + 65536" .
  moreover have "v \<le> ?y + length cs * 65536" using 3 by simp
  ultimately show ?case by simp
qed simp

text \<open>The cost of a packet is exact: for a packet that describes the data, the perplexity that the cost encoder
  adds up stays below \<open>2 ^ 24\<close>, so the conversion of its share per byte to \<open>float\<close>, and the comparison of
  two such costs, lose nothing, and the accumulator does not wrap.\<close>

theorem packet_cost_exact:
  assumes "state_ok st" "packet_ok st p"
  shows "\<exists>st' v. encode_perplexity st 0 p = Some (st', v) \<and> v < 2 ^ 24 \<and> packet_cost st p = Some (v div plen p)"
proof -
  obtain es st' where e: "lzma_encode_packet st p = Some (es, st')" "list_all call_ok es" "position st' = position st + plen p"
    using encode_packet_advances [OF assms] by blast
  obtain v where v: "perplexity_calls 0 es = Some v" using perplexity_calls_defined [OF e(2)] by blast
  have "v \<le> length es * 65536" using perplexity_calls_bound [OF e(2) v] by simp
  moreover have "length es \<le> 27" by (rule packet_length [OF e(1)])
  ultimately have b: "v < 2 ^ 24" by simp
  have "v div plen p < 2 ^ 24" using b div_le_dividend [of v "plen p"] by linarith
  then have "to_float (v div plen p) = v div plen p" by (simp only: to_float_def if_True)
  then show ?thesis using e v b packet_ok_room [OF assms(2)] by (simp add: encode_perplexity_def packet_cost_def)
qed

theorem packet_cost_exact_witness:
  "\<exists>st st' v. sdata st = [97, 97, 97] \<and> encode_perplexity st 0 (match_packet 0 2) = Some (st', v) \<and> v < 2 ^ 24 \<and>
    packet_cost st (match_packet 0 2) = Some (v div plen (match_packet 0 2))"
proof -
  let ?st = "(lzma_state_init [97, 97, 97] \<lparr> prop_lc = 0, prop_lp = 0, prop_pb = 0 \<rparr>)\<lparr> position := 1 \<rparr>"
  have st: "state_ok ?st" "sdata ?st = [97, 97, 97]" "position ?st = 1"
    by (rule state_ok_at) (simp_all add: lzma_state_init_def)
  have "repeats [97, 97, 97] 1 0 2" by (simp add: repeats_def eval_nat_numeral All_less_Suc2)
  then have "packet_ok ?st (match_packet 0 2)" using st by (simp add: packet_ok_simps match_packet_def)
  from packet_cost_exact [OF st(1) this] st show ?thesis by blast
qed

end
