(* ===== verification/Mega_Slab.thy ===== *)
theory Mega_Slab
  imports Mega_Packet
begin

text \<open>
  The packet slab of \<open>megalania\<close>, one packet for each position of the file (\<open>packet_slab\<close>), and the stack
  of the changes made to it (\<open>packet_slab_undo_stack\<close>): sixteen changes in place, then heap blocks that
  double in size. The stack refines a plain log of changes, and applying it restores the slab. Allocations
  are taken to succeed.
\<close>

section \<open>Slab\<close>

definition packet_slab_new :: "nat \<Rightarrow> LZMAPacket list" where
  "packet_slab_new data_size = map (\<lambda>i. literal_packet) [0..<data_size]"

definition packet_slab_size :: "LZMAPacket list \<Rightarrow> nat" where
  "packet_slab_size slab = length slab"

text \<open>The loop does not end when it meets a packet of length zero.\<close>

partial_function (option) slab_count_loop :: "LZMAPacket list \<Rightarrow> nat \<Rightarrow> nat \<Rightarrow> nat option" where
  "slab_count_loop slab pos n =
    (if pos < length slab then slab_count_loop slab (pos + plen (slab ! pos)) (n + 1) else Some n)"

definition packet_slab_count :: "LZMAPacket list \<Rightarrow> nat option" where
  "packet_slab_count slab = slab_count_loop slab 0 0"

section \<open>Undo stack\<close>

definition UNDO_STACK_SIZE :: nat where "UNDO_STACK_SIZE = 16"

record PacketSlabUndo =
  u_position :: nat
  old_packet :: LZMAPacket

text \<open>A block holds the changes below its count; the cells above it are never read.\<close>

record PacketSlabUndoHeap =
  uh_size :: nat
  uh_heap :: "PacketSlabUndo list"

text \<open>The chain of blocks begins with the last one.\<close>

record PacketSlabUndoStack =
  total_count :: nat
  us_stack :: "PacketSlabUndo list"
  us_last :: "PacketSlabUndoHeap list"

definition packet_slab_undo_heap_new :: "nat \<Rightarrow> PacketSlabUndoHeap" where
  "packet_slab_undo_heap_new n = \<lparr> uh_size = n, uh_heap = [] \<rparr>"

definition packet_slab_undo_stack_new :: PacketSlabUndoStack where
  "packet_slab_undo_stack_new = \<lparr> total_count = 0, us_stack = [], us_last = [] \<rparr>"

definition packet_slab_undo_stack_free :: "PacketSlabUndoStack \<Rightarrow> PacketSlabUndoStack" where
  "packet_slab_undo_stack_free us = us\<lparr> total_count := 0, us_stack := [], us_last := [] \<rparr>"

definition packet_slab_undo_stack_insert :: "PacketSlabUndoStack \<Rightarrow> PacketSlabUndo \<Rightarrow> PacketSlabUndoStack option" where
  "packet_slab_undo_stack_insert us undo =
    (let us = us\<lparr> total_count := total_count us + 1 \<rparr> in
     if length (us_stack us) < UNDO_STACK_SIZE then Some (us\<lparr> us_stack := us_stack us @ [undo] \<rparr>)
     else
       let blocks = (case us_last us of
           [] \<Rightarrow> [packet_slab_undo_heap_new (UNDO_STACK_SIZE * 2)]
         | b # bs \<Rightarrow> (if uh_size b = length (uh_heap b) then packet_slab_undo_heap_new (uh_size b * 2) # b # bs
                     else b # bs))
       in case blocks of
           [] \<Rightarrow> None
         | b # bs \<Rightarrow> (if length (uh_heap b) < uh_size b
                     then Some (us\<lparr> us_last := b\<lparr> uh_heap := uh_heap b @ [undo] \<rparr> # bs \<rparr>)
                     else None))"

text \<open>The loops that put packets back, from the last change to the first.\<close>

fun undo_loop :: "PacketSlabUndo list \<Rightarrow> LZMAPacket list \<Rightarrow> LZMAPacket list option" where
  "undo_loop [] slab = Some slab"
| "undo_loop (u # us) slab = do { slab \<leftarrow> mem_set slab (u_position u) (old_packet u); undo_loop us slab }"

definition packet_slab_undo_heap_apply :: "PacketSlabUndoHeap \<Rightarrow> LZMAPacket list \<Rightarrow> LZMAPacket list option" where
  "packet_slab_undo_heap_apply b slab = undo_loop (rev (uh_heap b)) slab"

fun undo_blocks :: "PacketSlabUndoHeap list \<Rightarrow> LZMAPacket list \<Rightarrow> LZMAPacket list option" where
  "undo_blocks [] slab = Some slab"
| "undo_blocks (b # bs) slab = do { slab \<leftarrow> packet_slab_undo_heap_apply b slab; undo_blocks bs slab }"

definition packet_slab_undo_stack_apply ::
  "PacketSlabUndoStack \<Rightarrow> LZMAPacket list \<Rightarrow> (PacketSlabUndoStack \<times> LZMAPacket list) option" where
  "packet_slab_undo_stack_apply us slab =
    do { slab \<leftarrow> undo_blocks (us_last us) slab;
         slab \<leftarrow> undo_loop (rev (us_stack us)) slab;
         Some (us\<lparr> total_count := 0, us_stack := [], us_last := [] \<rparr>, slab) }"

definition packet_slab_undo_stack_count :: "PacketSlabUndoStack \<Rightarrow> nat" where
  "packet_slab_undo_stack_count us = total_count us"

section \<open>The log\<close>

text \<open>The abstract state is the list of the changes, the first one first.\<close>

definition log :: "PacketSlabUndoStack \<Rightarrow> PacketSlabUndo list" where
  "log us = us_stack us @ concat (rev (map uh_heap (us_last us)))"

definition blocks_ok :: "PacketSlabUndoHeap list \<Rightarrow> bool" where
  "blocks_ok bs \<longleftrightarrow> (\<forall>b \<in> set bs. 0 < uh_size b \<and> length (uh_heap b) \<le> uh_size b)"

definition undo_ok :: "PacketSlabUndoStack \<Rightarrow> bool" where
  "undo_ok us \<longleftrightarrow> length (us_stack us) \<le> UNDO_STACK_SIZE \<and> (us_last us \<noteq> [] \<longrightarrow> length (us_stack us) = UNDO_STACK_SIZE) \<and>
     blocks_ok (us_last us) \<and> total_count us = length (log us)"

lemma undo_new_ok: "undo_ok packet_slab_undo_stack_new" "log packet_slab_undo_stack_new = []"
  by (simp_all add: undo_ok_def log_def blocks_ok_def packet_slab_undo_stack_new_def)

lemma undo_insert_ok:
  assumes "undo_ok us"
  shows "\<exists>us'. packet_slab_undo_stack_insert us u = Some us' \<and> undo_ok us' \<and> log us' = log us @ [u]"
proof (cases "length (us_stack us) < UNDO_STACK_SIZE")
  case True
  then have "us_last us = []" using assms by (auto simp: undo_ok_def)
  then show ?thesis using True assms by (simp add: packet_slab_undo_stack_insert_def undo_ok_def log_def Let_def)
next
  case False
  show ?thesis
  proof (cases "us_last us")
    case Nil
    then show ?thesis using False assms
      by (simp add: packet_slab_undo_stack_insert_def undo_ok_def log_def Let_def blocks_ok_def UNDO_STACK_SIZE_def packet_slab_undo_heap_new_def)
  next
    case (Cons b bs)
    then show ?thesis using False assms
      by (cases "uh_size b = length (uh_heap b)")
        (simp_all add: Suc_le_eq packet_slab_undo_stack_insert_def undo_ok_def log_def Let_def blocks_ok_def UNDO_STACK_SIZE_def packet_slab_undo_heap_new_def)
  qed
qed

lemma undo_loop_append: "undo_loop (xs @ ys) slab = undo_loop xs slab \<bind> undo_loop ys"
  by (induction xs arbitrary: slab) (auto simp: bind_assoc intro!: Option.bind_cong)

lemma undo_blocks_loop: "undo_blocks bs slab = undo_loop (rev (concat (rev (map uh_heap bs)))) slab"
  by (induction bs arbitrary: slab) (auto simp: packet_slab_undo_heap_apply_def undo_loop_append intro!: Option.bind_cong)

lemma undo_apply_log:
  "packet_slab_undo_stack_apply us slab =
     map_option (\<lambda>s. (packet_slab_undo_stack_new, s)) (undo_loop (rev (log us)) slab)"
  by (cases us) (auto simp: packet_slab_undo_stack_apply_def undo_blocks_loop log_def undo_loop_append
    packet_slab_undo_stack_new_def split: Option.bind_split)

text \<open>A log that leads back to a slab.\<close>

definition leads_back :: "PacketSlabUndoStack \<Rightarrow> LZMAPacket list \<Rightarrow> LZMAPacket list \<Rightarrow> bool" where
  "leads_back us slab slab0 \<longleftrightarrow> undo_ok us \<and> undo_loop (rev (log us)) slab = Some slab0"

lemma leads_back_apply:
  "leads_back us slab slab0 \<Longrightarrow> packet_slab_undo_stack_apply us slab = Some (packet_slab_undo_stack_new, slab0)"
  by (simp add: leads_back_def undo_apply_log)

lemma leads_back_save:
  assumes "leads_back us slab slab0" "i < length slab"
  shows "\<exists>us'. packet_slab_undo_stack_insert us \<lparr> u_position = i, old_packet = slab ! i \<rparr> = Some us' \<and>
    (\<forall>p. leads_back us' (slab[i := p]) slab0)"
proof -
  obtain us' where "packet_slab_undo_stack_insert us \<lparr> u_position = i, old_packet = slab ! i \<rparr> = Some us'" "undo_ok us'"
    "log us' = log us @ [\<lparr> u_position = i, old_packet = slab ! i \<rparr>]" using undo_insert_ok assms(1) unfolding leads_back_def by blast
  then show ?thesis using assms by (simp add: leads_back_def mem_set_upd)
qed

fun insert_all :: "PacketSlabUndoStack \<Rightarrow> PacketSlabUndo list \<Rightarrow> PacketSlabUndoStack option" where
  "insert_all us [] = Some us"
| "insert_all us (u # rest) = do { us \<leftarrow> packet_slab_undo_stack_insert us u; insert_all us rest }"

lemma insert_all_ok: "undo_ok us \<Longrightarrow> \<exists>us'. insert_all us changes = Some us' \<and> undo_ok us' \<and> log us' = log us @ changes"
proof (induction changes arbitrary: us)
  case (Cons u changes)
  from undo_insert_ok [OF Cons.prems, of u] obtain us1 where
    u: "packet_slab_undo_stack_insert us u = Some us1" "undo_ok us1" "log us1 = log us @ [u]" by blast
  from Cons.IH [OF u(2)] u show ?case by auto
qed simp

text \<open>C34. The undo stack refines a log: however many changes are recorded, across the sixteen cells in place and the
  chain of growing blocks, no insertion fails, the count is their number, and applying the stack puts the recorded
  packets back in the reverse of the order in which they were recorded, and empties the stack.\<close>

theorem undo_stack_refines_log:
  "\<exists>us. insert_all packet_slab_undo_stack_new changes = Some us \<and> packet_slab_undo_stack_count us = length changes \<and>
    packet_slab_undo_stack_apply us slab = map_option (Pair packet_slab_undo_stack_new) (undo_loop (rev changes) slab)"
proof -
  obtain us where us: "insert_all packet_slab_undo_stack_new changes = Some us" "undo_ok us" "log us = changes"
    using insert_all_ok [OF undo_new_ok(1)] undo_new_ok(2) by auto
  then show ?thesis using undo_apply_log [of us slab] by (auto simp: packet_slab_undo_stack_count_def undo_ok_def)
qed

end
