(* ===== verification/Mega_Neighbour.thy ===== *)
theory Mega_Neighbour
  imports Mega_Finder Mega_Slab
begin

text \<open>
  A random step of the search (\<open>packet_slab_neighbour\<close>): one packet of the slab is changed, and the packets
  behind it are repaired, so that the slab still describes the file; the step can be undone. The results of
  \<open>rand\<close> are a stream that the model is given.
\<close>

section \<open>Model\<close>

type_synonym rand_src = "nat \<Rightarrow> nat"

definition rand :: "rand_src \<Rightarrow> nat \<times> rand_src" where
  "rand rs = (rs 0, \<lambda>i. rs (Suc i))"

record PacketSlabNeighbour =
  slab :: "LZMAPacket list"
  perplexity :: nat
  undo_stack :: PacketSlabUndoStack

definition packet_slab_neighbour_new :: "LZMAPacket list \<Rightarrow> PacketSlabNeighbour" where
  "packet_slab_neighbour_new sl = \<lparr> slab = sl, perplexity = 0, undo_stack = packet_slab_undo_stack_new \<rparr>"

text \<open>Encoding the packets before the one with the number \<open>target\<close>.\<close>

fun encode_to_packet_number :: "LZMAPacket list \<Rightarrow> LZMAState \<Rightarrow> nat \<Rightarrow> nat \<Rightarrow> (LZMAState \<times> nat) option" where
  "encode_to_packet_number packets st perp 0 = Some (st, perp)"
| "encode_to_packet_number packets st perp (Suc target) =
    (if position st < length (sdata st)
     then do { p \<leftarrow> mem_get packets (position st);
               (st, perp) \<leftarrow> encode_perplexity st perp p;
               encode_to_packet_number packets st perp target }
     else Some (st, perp))"

definition save_packet_at_position :: "PacketSlabNeighbour \<Rightarrow> LZMAPacket \<Rightarrow> nat \<Rightarrow> PacketSlabNeighbour option" where
  "save_packet_at_position nb p pos =
    do { us \<leftarrow> packet_slab_undo_stack_insert (undo_stack nb) \<lparr> u_position = pos, old_packet = p \<rparr>;
         Some (nb\<lparr> undo_stack := us \<rparr>) }"

definition put_packet :: "PacketSlabNeighbour \<Rightarrow> nat \<Rightarrow> LZMAPacket \<Rightarrow> PacketSlabNeighbour option" where
  "put_packet nb pos p = do { sl \<leftarrow> mem_set (slab nb) pos p; Some (nb\<lparr> slab := sl \<rparr>) }"

fun rand_max_loop :: "nat \<Rightarrow> nat \<Rightarrow> nat \<Rightarrow> rand_src \<Rightarrow> nat \<times> rand_src" where
  "rand_max_loop cnt rnd 0 rs = (rnd, rs)"
| "rand_max_loop cnt rnd (Suc num) rs = (let (r, rs) = rand rs in rand_max_loop cnt (max rnd (r mod cnt)) num rs)"

definition rand_max_dist :: "nat \<Rightarrow> nat \<Rightarrow> rand_src \<Rightarrow> nat \<times> rand_src" where
  "rand_max_dist cnt num rs = (let (r, rs) = rand rs in rand_max_loop cnt (r mod cnt) (num - 1) rs)"

text \<open>Popping into the cell of the next packet until the choice is reached.\<close>

fun pick_loop :: "TopKPacketFinder \<Rightarrow> nat \<Rightarrow> PacketSlabNeighbour \<Rightarrow> nat \<Rightarrow> (PacketSlabNeighbour \<times> TopKPacketFinder) option" where
  "pick_loop f pos nb choice =
    do { r \<leftarrow> top_k_packet_finder_pop f;
         case r of None \<Rightarrow> Some (nb, f)
         | Some (p, f) \<Rightarrow> do {
             nb \<leftarrow> put_packet nb pos p;
             case choice of 0 \<Rightarrow> Some (nb, f) | Suc choice \<Rightarrow> pick_loop f pos nb choice } }"

definition pick_random_next_packet_from_top_k ::
  "LZMAState \<Rightarrow> TopKPacketFinder \<Rightarrow> PacketSlabNeighbour \<Rightarrow> bool \<Rightarrow> rand_src \<Rightarrow>
    (bool \<times> PacketSlabNeighbour \<times> TopKPacketFinder \<times> rand_src) option" where
  "pick_random_next_packet_from_top_k st f nb best rs =
    do { f \<leftarrow> top_k_packet_finder_find f st (slab nb);
         let cnt = top_k_packet_finder_count f;
         if cnt = 0 then Some (False, nb, f, rs)
         else do {
           let (choice, rs) = rand_max_dist cnt 8 rs;
           let (r, rs) = rand rs;
           let choice = (if r mod 8 = 0 \<or> best then cnt - 1 else choice);
           (nb, f) \<leftarrow> pick_loop f (position st) nb choice;
           Some (True, nb, f, rs) } }"

definition validate_long_rep_packet :: "LZMAState \<Rightarrow> LZMAPacket \<Rightarrow> bool option" where
  "validate_long_rep_packet st p =
    (if ptype p \<noteq> LONG_REP then None
     else do { d \<leftarrow> mem_get (dists st) (dist p);
               rep \<leftarrow> mem_slice (sdata st) (wsub (wsub (position st) d) 1) (plen p);
               current \<leftarrow> mem_slice (sdata st) (position st) (plen p);
               Some (rep = current) })"

text \<open>The loop that tries the remembered distances; \<open>n\<close> of them are left.\<close>

fun repair_dist_loop :: "LZMAState \<Rightarrow> LZMAPacket \<Rightarrow> nat \<Rightarrow> LZMAPacket option" where
  "repair_dist_loop st p n =
    do { ok \<leftarrow> validate_long_rep_packet st p;
         case n of 0 \<Rightarrow> Some p
         | Suc n \<Rightarrow> (if ok then Some p else repair_dist_loop st (p\<lparr> dist := 3 - n \<rparr>) n) }"

text \<open>What is done to a packet that is \<open>SHORT_REP\<close> or \<open>LITERAL\<close>, and to one that is \<open>LONG_REP\<close>.\<close>

definition repair_single :: "LZMAState \<Rightarrow> nat \<Rightarrow> LZMAPacket \<Rightarrow> LZMAPacket option" where
  "repair_single st cnt p =
    do { x \<leftarrow> mem_get (sdata st) (position st);
         y \<leftarrow> byte_at_distance st (dists st ! 0);
         Some (if x = y then if cnt < 4 then short_rep_packet else p else literal_packet) }"

definition repair_long_rep ::
  "LZMAState \<Rightarrow> TopKPacketFinder \<Rightarrow> PacketSlabNeighbour \<Rightarrow> rand_src \<Rightarrow>
    (PacketSlabNeighbour \<times> TopKPacketFinder \<times> rand_src) option" where
  "repair_long_rep st f nb rs =
    do { p \<leftarrow> mem_get (slab nb) (position st);
         p \<leftarrow> repair_dist_loop st p 4;
         nb \<leftarrow> put_packet nb (position st) p;
         ok \<leftarrow> validate_long_rep_packet st p;
         if ok then Some (nb, f, rs)
         else do {
           let (r, rs) = rand rs;
           (picked, nb, f, rs) \<leftarrow> pick_random_next_packet_from_top_k st f nb (r mod 4 = 0) rs;
           Some (nb, f, rs) } }"

definition repair_packet ::
  "LZMAState \<Rightarrow> nat \<Rightarrow> TopKPacketFinder \<Rightarrow> PacketSlabNeighbour \<Rightarrow> rand_src \<Rightarrow>
    (PacketSlabNeighbour \<times> TopKPacketFinder \<times> rand_src) option" where
  "repair_packet st cnt f nb rs =
    do { old \<leftarrow> mem_get (slab nb) (position st);
         nb \<leftarrow> (if ptype old = SHORT_REP \<or> ptype old = LITERAL
                 then do { p \<leftarrow> repair_single st cnt old; put_packet nb (position st) p } else Some nb);
         p \<leftarrow> mem_get (slab nb) (position st);
         (nb, f, rs) \<leftarrow> (if ptype p = LONG_REP then repair_long_rep st f nb rs else Some (nb, f, rs));
         p \<leftarrow> mem_get (slab nb) (position st);
         nb \<leftarrow> (if \<not> lzma_packet_cmp old p then save_packet_at_position nb old (position st) else Some nb);
         Some (nb, f, rs) }"

partial_function (option) repair_remaining_packets ::
  "LZMAState \<Rightarrow> nat \<Rightarrow> TopKPacketFinder \<Rightarrow> PacketSlabNeighbour \<Rightarrow> rand_src \<Rightarrow>
    (PacketSlabNeighbour \<times> TopKPacketFinder \<times> rand_src) option" where
  "repair_remaining_packets st cnt f nb rs =
    (if position st < length (sdata st) then do {
       (nb, f, rs) \<leftarrow> repair_packet st (cnt + 1) f nb rs;
       p \<leftarrow> mem_get (slab nb) (position st);
       (st, perp) \<leftarrow> encode_perplexity st (perplexity nb) p;
       repair_remaining_packets st (cnt + 1) f (nb\<lparr> perplexity := perp \<rparr>) rs }
     else Some (nb, f, rs))"

text \<open>Shrinking a match at its front, or growing one to the front; \<open>None\<close> inside when neither applies.\<close>

definition shrink_packet :: "LZMAState \<Rightarrow> PacketSlabNeighbour \<Rightarrow> LZMAPacket \<Rightarrow> LZMAPacket \<Rightarrow> PacketSlabNeighbour option" where
  "shrink_packet st nb first second =
    do { nb \<leftarrow> save_packet_at_position nb first (position st);
         nb \<leftarrow> save_packet_at_position nb second (position st + 1);
         nb \<leftarrow> put_packet nb (position st + 1) (first\<lparr> plen := plen first - 1 \<rparr>);
         put_packet nb (position st) literal_packet }"

definition grow_packet :: "LZMAState \<Rightarrow> PacketSlabNeighbour \<Rightarrow> LZMAPacket \<Rightarrow> LZMAPacket \<Rightarrow> (PacketSlabNeighbour option) option" where
  "grow_packet st nb first second =
    do { rep_start \<leftarrow> (if ptype second = LONG_REP
            then do { d \<leftarrow> mem_get (dists st) (dist second); Some (wsub (position st) d) }
            else Some (wsub (position st) (dist second)));
         if plen second < 273 \<and> rep_start > 0 then do {
           x \<leftarrow> mem_get (sdata st) (position st);
           y \<leftarrow> mem_get (sdata st) (rep_start - 1);
           if x = y then do {
             nb \<leftarrow> save_packet_at_position nb first (position st);
             nb \<leftarrow> put_packet nb (position st) (second\<lparr> plen := plen second + 1 \<rparr>);
             Some (Some nb) }
           else Some None }
         else Some None }"

definition resize_packet :: "LZMAState \<Rightarrow> PacketSlabNeighbour \<Rightarrow> (PacketSlabNeighbour option) option" where
  "resize_packet st nb =
    do { first \<leftarrow> mem_get (slab nb) (position st);
         second \<leftarrow> mem_get (slab nb) (position st + 1);
         if (ptype first = LONG_REP \<or> ptype first = MATCH) \<and> plen first > 2
         then map_option Some (shrink_packet st nb first second)
         else if ptype first = LITERAL \<or> ptype first = SHORT_REP
         then (if ptype second = MATCH \<or> ptype second = LONG_REP then grow_packet st nb first second else Some None)
         else Some None }"

definition mutate_next_packet ::
  "LZMAState \<Rightarrow> TopKPacketFinder \<Rightarrow> PacketSlabNeighbour \<Rightarrow> rand_src \<Rightarrow>
    (bool \<times> PacketSlabNeighbour \<times> TopKPacketFinder \<times> rand_src) option" where
  "mutate_next_packet st f nb rs =
    do { let room = position st + 1 < length (sdata st);
         let (r, rs) = (if room then rand rs else (1, rs));
         resized \<leftarrow> (if room \<and> r mod 2 = 0 then resize_packet st nb else Some None);
         case resized of Some nb \<Rightarrow> Some (True, nb, f, rs)
         | None \<Rightarrow> do {
             first \<leftarrow> mem_get (slab nb) (position st);
             nb \<leftarrow> save_packet_at_position nb first (position st);
             pick_random_next_packet_from_top_k st f nb False rs } }"

definition packet_slab_neighbour_generate ::
  "LZMAState \<Rightarrow> TopKPacketFinder \<Rightarrow> PacketSlabNeighbour \<Rightarrow> rand_src \<Rightarrow>
    (bool \<times> PacketSlabNeighbour \<times> TopKPacketFinder \<times> rand_src) option" where
  "packet_slab_neighbour_generate init_state f nb rs =
    do { packet_count \<leftarrow> packet_slab_count (slab nb);
         if packet_count = 0 then None
         else do {
           let (r, rs) = rand rs;
           (st, perp) \<leftarrow> encode_to_packet_number (slab nb) init_state (perplexity nb) (r mod packet_count);
           (ok, nb, f, rs) \<leftarrow> mutate_next_packet st f (nb\<lparr> perplexity := perp \<rparr>) rs;
           if \<not> ok then Some (False, nb, f, rs)
           else do {
             p \<leftarrow> mem_get (slab nb) (position st);
             (st, perp) \<leftarrow> encode_perplexity st (perplexity nb) p;
             (nb, f, rs) \<leftarrow> repair_remaining_packets st 0 f (nb\<lparr> perplexity := perp \<rparr>) rs;
             Some (True, nb, f, rs) } } }"

definition packet_slab_neighbour_undo :: "PacketSlabNeighbour \<Rightarrow> PacketSlabNeighbour option" where
  "packet_slab_neighbour_undo nb =
    do { (us, sl) \<leftarrow> packet_slab_undo_stack_apply (undo_stack nb) (slab nb);
         Some (nb\<lparr> undo_stack := us, slab := sl \<rparr>) }"

definition packet_slab_neighbour_undo_count :: "PacketSlabNeighbour \<Rightarrow> nat" where
  "packet_slab_neighbour_undo_count nb = packet_slab_undo_stack_count (undo_stack nb)"

section \<open>Valid slabs\<close>

text \<open>What every entry of a slab satisfies, met or not: its length is that of its type and stays in the file, and
  a match repeats the data.\<close>

definition entry_ok :: "bytes \<Rightarrow> nat \<Rightarrow> LZMAPacket \<Rightarrow> bool" where
  "entry_ok data i p \<longleftrightarrow>
    (case ptype p of
       LITERAL \<Rightarrow> plen p = 1
     | SHORT_REP \<Rightarrow> plen p = 1
     | MATCH \<Rightarrow> 2 \<le> plen p \<and> plen p \<le> 273 \<and> i + plen p \<le> length data \<and> dist p < i \<and> dist p < 2 ^ 32 \<and>
         repeats data i (dist p) (plen p)
     | LONG_REP \<Rightarrow> 2 \<le> plen p \<and> plen p \<le> 273 \<and> i + plen p \<le> length data \<and> dist p < 4
     | INVALID \<Rightarrow> False)"

definition slab_ok :: "bytes \<Rightarrow> LZMAPacket list \<Rightarrow> bool" where
  "slab_ok data ps \<longleftrightarrow> length ps = length data \<and> (\<forall>i < length data. entry_ok data i (ps ! i))"

definition canonical :: "LZMAPacket \<Rightarrow> bool" where
  "canonical p \<longleftrightarrow> (ptype p = LITERAL \<or> ptype p = SHORT_REP \<longrightarrow> dist p = 0)"

lemma packet_entry_ok: "packet_ok st p \<Longrightarrow> entry_ok (sdata st) (position st) p"
  by (cases "ptype p") (simp_all add: entry_ok_def packet_ok_simps)

lemma slab_ok_upd: "slab_ok data ps \<Longrightarrow> entry_ok data i p \<Longrightarrow> slab_ok data (ps[i := p])"
  by (cases "i < length ps") (auto simp: slab_ok_def nth_list_update)

lemma slab_ok_length: "slab_ok data ps \<Longrightarrow> length ps = length data"
  by (simp add: slab_ok_def)

lemma slab_ok_nth: "slab_ok data ps \<Longrightarrow> i < length data \<Longrightarrow> entry_ok data i (ps ! i)"
  by (simp add: slab_ok_def)

lemma slab_ok_new: "slab_ok data (packet_slab_new (length data))"
  by (simp add: slab_ok_def packet_slab_new_def entry_ok_def literal_packet_def)

definition finder_for :: "bytes \<Rightarrow> TopKPacketFinder \<Rightarrow> bool" where
  "finder_for data f \<longleftrightarrow> finder_ok f \<and> 0 < length (entries f) \<and> em_ok (enumerator f) data 273"

text \<open>The states in which the search works.\<close>

definition at_packet :: "LZMAState \<Rightarrow> bool" where
  "at_packet st \<longleftrightarrow> state_ok st \<and> position st < length (sdata st) \<and> length (sdata st) \<le> 2 ^ 32"

section \<open>Picking a packet\<close>

lemma put_packet_ok: "pos < length (slab nb) \<Longrightarrow> put_packet nb pos p = Some (nb\<lparr> slab := (slab nb)[pos := p] \<rparr>)"
  by (simp add: put_packet_def mem_set_upd)

declare pick_loop.simps [simp del]

lemma pick_loop_ok:
  "finder_ok f \<Longrightarrow> held f \<noteq> {#} \<Longrightarrow> pos < length (slab nb) \<Longrightarrow>
   \<exists>e f'. pick_loop f pos nb choice = Some (nb\<lparr> slab := (slab nb)[pos := packet e] \<rparr>, f') \<and> e \<in># held f \<and>
     finder_ok f' \<and> entries f' = entries f \<and> enumerator f' = enumerator f"
proof (induction choice arbitrary: f nb)
  case (0 f nb)
  then show ?case using pop_ok(2) [OF 0(1,2)] by (subst pick_loop.simps) (auto simp: put_packet_ok)
next
  case (Suc choice)
  obtain e f1 where e: "top_k_packet_finder_pop f = Some (Some (packet e, f1))" "finder_ok f1" "entries f1 = entries f"
    "enumerator f1 = enumerator f" "e \<in># held f" "held f1 = held f - {#e#}" using pop_ok(2) [OF Suc.prems(1,2)] by blast
  let ?nb = "nb\<lparr> slab := (slab nb)[pos := packet e] \<rparr>"
  have step: "pick_loop f pos nb (Suc choice) = pick_loop f1 pos ?nb choice"
    using e(1) Suc.prems(3) by (subst pick_loop.simps) (simp add: put_packet_ok)
  show ?case
  proof (cases "held f1 = {#}")
    case True
    then have "pick_loop f1 pos ?nb choice = Some (?nb, f1)"
      using pop_ok(1) [OF e(2) True] by (subst pick_loop.simps) simp
    then show ?thesis using step e by auto
  next
    case False
    have "pos < length (slab ?nb)" using Suc.prems(3) by simp
    from Suc.IH [OF e(2) False this] show ?thesis using step e by (auto dest: in_diffD)
  qed
qed

lemma pick_ok:
  assumes "at_packet st" "finder_for (sdata st) f" "length (slab nb) = length (sdata st)"
  shows "\<exists>ok nb' f' rs'. pick_random_next_packet_from_top_k st f nb best rs = Some (ok, nb', f', rs') \<and> finder_for (sdata st) f' \<and>
    (if ok then \<exists>p. packet_ok st p \<and> nb' = nb\<lparr> slab := (slab nb)[position st := p] \<rparr>
     else nb' = nb) \<and>
    (ok \<longleftrightarrow> (\<exists>p. packet_ok st p \<and> canonical p \<and> p \<noteq> slab nb ! position st))"
proof -
  have f: "finder_ok f" "0 < length (entries f)" "em_ok (enumerator f) (sdata st) 273" using assms(2) by (simp_all add: finder_for_def)
  have st: "state_ok st" "position st < length (sdata st)" "length (sdata st) \<le> 2 ^ 32" using assms(1) by (simp_all add: at_packet_def)
  let ?now = "slab nb ! position st"
  obtain ps f1 where f1: "set ps = {p. packet_ok st p \<and> canonical p}" "top_k_packet_finder_find f st (slab nb) = Some f1"
    "finder_ok f1" "length (entries f1) = length (entries f)" "enumerator f1 = enumerator f"
    "cheapest (length (entries f)) (mset (map (candidate st) (filter (\<lambda>p. p \<noteq> ?now) ps))) (held f1)"
    using find_ok [OF f st, of "slab nb"] st(2) unfolding canonical_def assms(3) by blast
  have ff: "finder_for (sdata st) f1" using f1 f by (simp add: finder_for_def)
  have cnt: "top_k_packet_finder_count f1 = size (held f1)"
    using held_size [OF f1(3)] by (simp add: top_k_packet_finder_count_def max_heap_count_def)
  have any: "held f1 \<noteq> {#} \<longleftrightarrow> (\<exists>p. packet_ok st p \<and> canonical p \<and> p \<noteq> ?now)"
  proof -
    have "size (held f1) = min (length (entries f)) (length (filter (\<lambda>p. p \<noteq> ?now) ps))"
      using f1(6) unfolding cheapest_def size_mset length_map by blast
    then have "held f1 = {#} \<longleftrightarrow> filter (\<lambda>p. p \<noteq> ?now) ps = []" using f(2)
      by (metis length_0_conv min_0R min_def not_less0 size_eq_0_iff_empty)
    also have "\<dots> \<longleftrightarrow> (\<forall>p \<in> set ps. p = ?now)" by (simp add: filter_empty_conv)
    finally show ?thesis unfolding f1(1) by blast
  qed
  show ?thesis
  proof (cases "held f1 = {#}")
    case True
    then have run: "pick_random_next_packet_from_top_k st f nb best rs = Some (False, nb, f1, rs)"
      using f1(2) cnt by (simp add: pick_random_next_packet_from_top_k_def)
    have "\<not> (\<exists>p. packet_ok st p \<and> canonical p \<and> p \<noteq> ?now)" using any True by blast
    with run ff show ?thesis
      by (intro exI [of _ False] exI [of _ nb] exI [of _ f1] exI [of _ rs]) (simp only: if_False simp_thms)
  next
    case False
    obtain c rs1 where c: "rand_max_dist (size (held f1)) 8 rs = (c, rs1)" by fastforce
    obtain r rs2 where r: "rand rs1 = (r, rs2)" by fastforce
    let ?c = "if r mod 8 = 0 \<or> best then size (held f1) - 1 else c"
    obtain e f2 where e: "pick_loop f1 (position st) nb ?c = Some (nb\<lparr> slab := (slab nb)[position st := packet e] \<rparr>, f2)"
      "e \<in># held f1" "finder_ok f2" "entries f2 = entries f1" "enumerator f2 = enumerator f1"
      using pick_loop_ok [OF f1(3) False, of "position st" nb ?c] st(2) assms(3) by auto
    have "e \<in># mset (map (candidate st) (filter (\<lambda>p. p \<noteq> ?now) ps))"
      using f1(6) e(2) unfolding cheapest_def by (meson mset_subset_eqD)
    then have p: "packet_ok st (packet e)" using f1(1) by (auto simp: candidate_def)
    have run: "pick_random_next_packet_from_top_k st f nb best rs =
        Some (True, nb\<lparr> slab := (slab nb)[position st := packet e] \<rparr>, f2, rs2)"
      using False f1(2) cnt c r e(1) by (simp add: pick_random_next_packet_from_top_k_def)
    have "finder_for (sdata st) f2" using ff e by (simp add: finder_for_def)
    with run p False any show ?thesis by auto
  qed
qed

section \<open>Repairing a packet\<close>

lemma repair_single_ok:
  assumes "at_packet st" "0 < position st" "plen p = 1" "ptype p = LITERAL \<or> ptype p = SHORT_REP"
  shows "\<exists>q. repair_single st cnt p = Some q \<and> packet_ok st q \<and> ptype q \<noteq> LONG_REP"
proof -
  have st: "state_ok st" "position st < length (sdata st)" using assms(1) by (simp_all add: at_packet_def)
  have r: "repeats (sdata st) (position st) d 1 \<longleftrightarrow> sdata st ! position st = sdata st ! (position st - d - 1)" for d
    by (simp add: repeats_def)
  show ?thesis
    using match_byte(1) [OF st(1) assms(2)] st assms(2-4)
    by (auto simp: repair_single_def mem_get_nth packet_ok_simps short_rep_packet_def literal_packet_def r simp del: One_nat_def)
qed

lemma validate_ok:
  assumes "state_ok st" "0 < position st" "ptype p = LONG_REP" "dist p < 4" "position st + plen p \<le> length (sdata st)"
  shows "validate_long_rep_packet st p = Some (repeats (sdata st) (position st) (dists st ! dist p) (plen p))"
proof -
  let ?d = "dists st ! dist p" and ?pos = "position st" and ?data = "sdata st"
  have d: "?d < ?pos" using dists_bound [OF assms(1,4)] assms(2) by simp
  have len: "length (dists st) = 4" "?pos < 2 ^ 64" using assms(1) by (simp_all add: state_ok_def)
  have "wsub ?pos ?d = ?pos - ?d" using d len(2) by (intro wsub_small) linarith+
  moreover have "wsub (?pos - ?d) 1 = ?pos - ?d - 1" using d len(2) by (intro wsub_small) linarith+
  ultimately have w: "wsub (wsub ?pos ?d) 1 = ?pos - ?d - 1" by simp
  let ?a = "take (plen p) (drop (?pos - ?d - 1) ?data)" and ?b = "take (plen p) (drop ?pos ?data)"
  have s: "mem_slice ?data (?pos - ?d - 1) (plen p) = Some ?a" "mem_slice ?data ?pos (plen p) = Some ?b"
    using assms(5) by (simp_all add: mem_slice_def)
  have l: "length ?a = plen p" "length ?b = plen p" using assms(5) by simp_all
  have nth: "?a ! i = ?data ! (?pos + i - ?d - 1)" "?b ! i = ?data ! (?pos + i)" if "i < plen p" for i
  proof -
    have "?pos - ?d - 1 + i = ?pos + i - ?d - 1" using d by simp
    then show "?a ! i = ?data ! (?pos + i - ?d - 1)" "?b ! i = ?data ! (?pos + i)" using that assms(5) by simp_all
  qed
  have "?a = ?b \<longleftrightarrow> (\<forall>i < plen p. ?a ! i = ?b ! i)" using l by (simp add: list_eq_iff_nth_eq)
  also have "\<dots> \<longleftrightarrow> repeats ?data ?pos ?d (plen p)" unfolding repeats_def using nth by auto
  finally show ?thesis
    using assms(3,4) len(1) by (simp add: validate_long_rep_packet_def mem_get_nth w s del: One_nat_def diff_diff_left)
qed

declare repair_dist_loop.simps [simp del]

lemma repair_dist_loop_ok:
  assumes "state_ok st" "0 < position st"
  shows "ptype p = LONG_REP \<Longrightarrow> dist p < 4 \<Longrightarrow> position st + plen p \<le> length (sdata st) \<Longrightarrow>
    \<exists>d < 4. repair_dist_loop st p n = Some (p\<lparr> dist := d \<rparr>)"
proof (induction n arbitrary: p)
  case 0
  then show ?case using validate_ok [OF assms 0] by (subst repair_dist_loop.simps) (auto intro!: exI [of _ "dist p"])
next
  case (Suc n)
  show ?case
  proof (cases "repeats (sdata st) (position st) (dists st ! dist p) (plen p)")
    case True
    then show ?thesis using validate_ok [OF assms Suc.prems] Suc.prems(2)
      by (subst repair_dist_loop.simps) (auto intro!: exI [of _ "dist p"])
  next
    case False
    let ?p = "p\<lparr> dist := 3 - n \<rparr>"
    have p: "ptype ?p = LONG_REP" "dist ?p < 4" "position st + plen ?p \<le> length (sdata st)" using Suc.prems by simp_all
    from Suc.IH [OF p] show ?thesis using validate_ok [OF assms Suc.prems] False
      by (subst repair_dist_loop.simps) auto
  qed
qed

lemma literal_candidate: "at_packet st \<Longrightarrow> packet_ok st literal_packet \<and> canonical literal_packet"
  by (simp add: at_packet_def packet_ok_simps canonical_def literal_packet_def)

lemma repair_long_rep_ok:
  assumes "at_packet st" "0 < position st" "finder_for (sdata st) f" "slab_ok (sdata st) (slab nb)"
    "ptype (slab nb ! position st) = LONG_REP"
  shows "\<exists>p f' rs'. repair_long_rep st f nb rs = Some (nb\<lparr> slab := (slab nb)[position st := p] \<rparr>, f', rs') \<and>
    finder_for (sdata st) f' \<and> packet_ok st p"
proof -
  let ?old = "slab nb ! position st" and ?pos = "position st"
  have st: "state_ok st" "?pos < length (sdata st)" using assms(1) by (simp_all add: at_packet_def)
  have len: "length (slab nb) = length (sdata st)" using assms(4) by (rule slab_ok_length)
  have o': "2 \<le> plen ?old" "plen ?old \<le> 273" "?pos + plen ?old \<le> length (sdata st)" "dist ?old < 4"
    using slab_ok_nth [OF assms(4) st(2)] assms(5) by (simp_all add: entry_ok_def)
  obtain d where d: "d < 4" "repair_dist_loop st ?old 4 = Some (?old\<lparr> dist := d \<rparr>)"
    using repair_dist_loop_ok [OF st(1) assms(2,5) o'(4,3)] by blast
  let ?p = "?old\<lparr> dist := d \<rparr>"
  let ?nb = "nb\<lparr> slab := (slab nb)[?pos := ?p] \<rparr>"
  have v: "validate_long_rep_packet st ?p = Some (repeats (sdata st) ?pos (dists st ! d) (plen ?old))"
    using validate_ok [OF st(1) assms(2), of ?p] assms(5) d(1) o'(3) by simp
  have put: "put_packet nb ?pos ?p = Some ?nb" using st(2) len by (simp add: put_packet_ok)
  show ?thesis
  proof (cases "repeats (sdata st) ?pos (dists st ! d) (plen ?old)")
    case True
    then have "repair_long_rep st f nb rs = Some (?nb, f, rs)"
      using d(2) put v st(2) len by (simp add: repair_long_rep_def mem_get_nth)
    moreover have "packet_ok st ?p" using True assms(2,5) d(1) o' by (simp add: packet_ok_simps)
    ultimately show ?thesis using assms(3) by blast
  next
    case False
    obtain r rs1 where r: "rand rs = (r, rs1)" by fastforce
    have l: "length (slab ?nb) = length (sdata st)" using len by simp
    have now: "slab ?nb ! ?pos = ?p" using st(2) len by simp
    have "literal_packet \<noteq> ?p" using assms(5) by (metis LZMAPacket.select_convs(1) LZMAPacket.update_convs(2) LZMAPacket.surjective
          literal_packet_def packet_type.distinct(13))
    then have "\<exists>p. packet_ok st p \<and> canonical p \<and> p \<noteq> slab ?nb ! ?pos"
      using literal_candidate [OF assms(1)] unfolding now by metis
    then obtain p f' rs' where p: "pick_random_next_packet_from_top_k st f ?nb (r mod 4 = 0) rs1 =
        Some (True, ?nb\<lparr> slab := (slab ?nb)[?pos := p] \<rparr>, f', rs')" "finder_for (sdata st) f'" "packet_ok st p"
      using pick_ok [OF assms(1,3) l, of "r mod 4 = 0" rs1] by (auto split: if_splits)
    have "repair_long_rep st f nb rs = Some (nb\<lparr> slab := (slab nb)[?pos := p] \<rparr>, f', rs')"
      using False d(2) put v st(2) len r p(1) by (simp add: repair_long_rep_def mem_get_nth)
    with p show ?thesis by blast
  qed
qed

lemma save_packet_ok:
  assumes "leads_back (undo_stack nb) sl sl0" "i < length sl"
  shows "\<exists>us. save_packet_at_position nb (sl ! i) i = Some (nb\<lparr> undo_stack := us \<rparr>) \<and> (\<forall>p. leads_back us (sl[i := p]) sl0)"
  using leads_back_save [OF assms] by (auto simp: save_packet_at_position_def)

lemma repair_packet_ok:
  assumes "at_packet st" "0 < position st" "finder_for (sdata st) f" "slab_ok (sdata st) (slab nb)"
    "leads_back (undo_stack nb) (slab nb) sl0"
  shows "\<exists>p us f' rs'. repair_packet st cnt f nb rs =
      Some (nb\<lparr> slab := (slab nb)[position st := p], undo_stack := us \<rparr>, f', rs') \<and>
    finder_for (sdata st) f' \<and> packet_ok st p \<and> leads_back us ((slab nb)[position st := p]) sl0"
proof -
  let ?old = "slab nb ! position st" and ?pos = "position st"
  have pos: "?pos < length (sdata st)" using assms(1) by (simp add: at_packet_def)
  have len: "length (slab nb) = length (sdata st)" using assms(4) by (rule slab_ok_length)
  have e: "entry_ok (sdata st) ?pos ?old" by (rule slab_ok_nth [OF assms(4) pos])
  have "\<exists>p f' rs'. finder_for (sdata st) f' \<and> packet_ok st p \<and>
    do { nb1 \<leftarrow> (if ptype ?old = SHORT_REP \<or> ptype ?old = LITERAL
                 then do { p \<leftarrow> repair_single st cnt ?old; put_packet nb ?pos p } else Some nb);
         p \<leftarrow> mem_get (slab nb1) ?pos;
         if ptype p = LONG_REP then repair_long_rep st f nb1 rs else Some (nb1, f, rs) } =
    Some (nb\<lparr> slab := (slab nb)[?pos := p] \<rparr>, f', rs')"
  proof (cases "ptype ?old = SHORT_REP \<or> ptype ?old = LITERAL")
    case True
    have "plen ?old = 1" "ptype ?old = LITERAL \<or> ptype ?old = SHORT_REP" using e True by (auto simp: entry_ok_def)
    from repair_single_ok [OF assms(1,2) this] obtain q where
      "repair_single st cnt ?old = Some q" "packet_ok st q" "ptype q \<noteq> LONG_REP" by blast
    then show ?thesis using True assms(3) pos len
      by (intro exI [of _ q] exI [of _ f] exI [of _ rs]) (simp add: put_packet_ok mem_get_nth)
  next
    case nsingle: False
    show ?thesis
    proof (cases "ptype ?old = LONG_REP")
      case True
      from repair_long_rep_ok [OF assms(1-4) True, of rs] show ?thesis using True pos len by (auto simp: mem_get_nth)
    next
      case False
      then have m: "ptype ?old = MATCH" using nsingle e by (cases "ptype ?old") (simp_all add: entry_ok_def)
      then have "packet_ok st ?old" using e by (simp add: entry_ok_def packet_ok_simps)
      then show ?thesis using m assms(3) pos len
        by (intro exI [of _ ?old] exI [of _ f] exI [of _ rs]) (simp add: mem_get_nth)
    qed
  qed
  then obtain p f' rs' where p: "finder_for (sdata st) f'" "packet_ok st p"
    "do { nb1 \<leftarrow> (if ptype ?old = SHORT_REP \<or> ptype ?old = LITERAL
                 then do { p \<leftarrow> repair_single st cnt ?old; put_packet nb ?pos p } else Some nb);
         p \<leftarrow> mem_get (slab nb1) ?pos;
         if ptype p = LONG_REP then repair_long_rep st f nb1 rs else Some (nb1, f, rs) } =
    Some (nb\<lparr> slab := (slab nb)[?pos := p] \<rparr>, f', rs')" by blast
  let ?nb = "nb\<lparr> slab := (slab nb)[?pos := p] \<rparr>"
  have run: "repair_packet st cnt f nb rs =
    do { nb \<leftarrow> (if ?old \<noteq> p then save_packet_at_position ?nb ?old ?pos else Some ?nb); Some (nb, f', rs') }"
  proof -
    have "repair_packet st cnt f nb rs =
      do { (nb2, f, rs) \<leftarrow> do { nb1 \<leftarrow> (if ptype ?old = SHORT_REP \<or> ptype ?old = LITERAL
                 then do { p \<leftarrow> repair_single st cnt ?old; put_packet nb ?pos p } else Some nb);
              p \<leftarrow> mem_get (slab nb1) ?pos;
              if ptype p = LONG_REP then repair_long_rep st f nb1 rs else Some (nb1, f, rs) };
           p \<leftarrow> mem_get (slab nb2) ?pos;
           nb \<leftarrow> (if ?old \<noteq> p then save_packet_at_position nb2 ?old ?pos else Some nb2);
           Some (nb, f, rs) }"
      using pos len by (simp add: repair_packet_def mem_get_nth packet_cmp_eq bind_assoc)
    then show ?thesis unfolding p(3) using pos len by (simp add: mem_get_nth)
  qed
  show ?thesis
  proof (cases "?old = p")
    case True
    then have "(slab nb)[?pos := p] = slab nb" using list_update_id [of "slab nb" ?pos] by simp
    then show ?thesis using run True p(1,2) assms(5)
      by (intro exI [of _ p] exI [of _ "undo_stack nb"] exI [of _ f'] exI [of _ rs']) simp
  next
    case False
    obtain us where us: "save_packet_at_position nb ?old ?pos = Some (nb\<lparr> undo_stack := us \<rparr>)"
      "leads_back us ((slab nb)[?pos := p]) sl0" using save_packet_ok [OF assms(5), of ?pos] pos len by auto
    have "save_packet_at_position ?nb ?old ?pos = Some (?nb\<lparr> undo_stack := us \<rparr>)"
      using us(1) by (cases nb) (auto simp: save_packet_at_position_def split: Option.bind_splits)
    then show ?thesis using run False p(1,2) us(2)
      by (intro exI [of _ p] exI [of _ us] exI [of _ f'] exI [of _ rs']) simp
  qed
qed

text \<open>The packets from a state on are repaired: the rest of the slab describes the data, what lies before is kept,
  and the undo stack still leads back.\<close>

lemma chain_agree:
  "chain ps st \<Longrightarrow> state_ok st \<Longrightarrow> \<forall>i \<ge> position st. ps' ! i = ps ! i \<Longrightarrow> length ps' = length ps \<Longrightarrow> chain ps' st"
proof (induction rule: chain.induct)
  case (chain_step st es st')
  have "position st \<le> position st'" "state_ok st'"
    using encode_packet_advances [OF chain_step.prems(1) chain_step.hyps(2)] chain_step.hyps(3) by auto
  then show ?case using chain_step chain.chain_step [of st ps' es st'] by simp
qed (rule chain_end)

lemma repair_remaining_ok:
  assumes "state_ok st" "0 < position st" "length (sdata st) \<le> 2 ^ 32" "finder_for (sdata st) f" "slab_ok (sdata st) (slab nb)"
    "leads_back (undo_stack nb) (slab nb) sl0"
  shows "\<exists>nb' f' rs'. repair_remaining_packets st cnt f nb rs = Some (nb', f', rs') \<and> finder_for (sdata st) f' \<and>
    slab_ok (sdata st) (slab nb') \<and> leads_back (undo_stack nb') (slab nb') sl0 \<and>
    (\<forall>i < position st. slab nb' ! i = slab nb ! i) \<and> chain (slab nb') st"
  using assms
proof (induction "length (sdata st) - position st" arbitrary: st cnt f nb rs rule: less_induct)
  case less
  have ple: "position st \<le> length (sdata st)" using less.prems(1) by (simp add: state_ok_def)
  show ?case
  proof (cases "position st < length (sdata st)")
    case False
    then show ?thesis using less.prems ple
      by (subst repair_remaining_packets.simps) (simp add: chain_end)
  next
    case True
    have at: "at_packet st" using less.prems True by (simp add: at_packet_def)
    obtain p us f1 rs1 where r: "repair_packet st (cnt + 1) f nb rs =
        Some (nb\<lparr> slab := (slab nb)[position st := p], undo_stack := us \<rparr>, f1, rs1)"
      "finder_for (sdata st) f1" "packet_ok st p" "leads_back us ((slab nb)[position st := p]) sl0"
      using repair_packet_ok [OF at less.prems(2,4-6)] by blast
    let ?sl = "(slab nb)[position st := p]"
    obtain es st1 where e: "lzma_encode_packet st p = Some (es, st1)" "state_ok st1" "sdata st1 = sdata st"
      "position st1 = position st + plen p" "list_all call_ok es" using encode_packet_advances [OF less.prems(1) r(3)] by blast
    obtain v where v: "perplexity_calls (perplexity nb) es = Some v" using perplexity_calls_defined [OF e(5)] by blast
    have adv: "position st < position st1" using packet_ok_room [OF r(3)] e(4) by simp
    let ?nb = "nb\<lparr> slab := ?sl, undo_stack := us, perplexity := v \<rparr>"
    have len: "length (slab nb) = length (sdata st)" using less.prems(5) by (rule slab_ok_length)
    have sl: "slab_ok (sdata st) ?sl" using less.prems(5) packet_entry_ok [OF r(3)] by (rule slab_ok_upd)
    have "\<exists>nb' f' rs'. repair_remaining_packets st1 (cnt + 1) f1 ?nb rs1 = Some (nb', f', rs') \<and> finder_for (sdata st1) f' \<and>
      slab_ok (sdata st1) (slab nb') \<and> leads_back (undo_stack nb') (slab nb') sl0 \<and>
      (\<forall>i < position st1. slab nb' ! i = slab ?nb ! i) \<and> chain (slab nb') st1"
      using less.prems e r(2,4) sl adv True by (intro less.hyps) auto
    then obtain nb' f' rs' where IH: "repair_remaining_packets st1 (cnt + 1) f1 ?nb rs1 = Some (nb', f', rs')"
      "finder_for (sdata st) f'" "slab_ok (sdata st) (slab nb')" "leads_back (undo_stack nb') (slab nb') sl0"
      "\<And>i. i < position st1 \<Longrightarrow> slab nb' ! i = ?sl ! i" "chain (slab nb') st1" using e(3) by auto
    have "repair_remaining_packets st cnt f nb rs = Some (nb', f', rs')"
      using True r(1) len e(1) v IH(1) by (subst repair_remaining_packets.simps) (simp add: mem_get_nth encode_perplexity_def)
    moreover have "slab nb' ! position st = p" using IH(5) [OF adv] True len by simp
    then have "chain (slab nb') st"
      using True e(1) r(3) IH(3,6) slab_ok_length by (intro chain.chain_step [of st _ es st1]) auto
    moreover have "\<forall>i < position st. slab nb' ! i = slab nb ! i" using IH(5) adv by auto
    ultimately show ?thesis using IH by blast
  qed
qed

section \<open>Changing a packet\<close>

lemma header_dists: "lzma_encode_packet_header st h = Some (es, st') \<Longrightarrow> dists st' = dists st"
  by (auto simp: lzma_encode_packet_header_def Let_def split: Option.bind_splits prod.splits if_splits)

lemma single_dists:
  assumes "lzma_encode_packet st p = Some (es, st')" "ptype p = LITERAL \<or> ptype p = SHORT_REP"
  shows "dists st' = dists st"
  using assms header_dists
  by (fastforce simp: lzma_encode_packet_def lzma_encode_literal_def lzma_encode_short_rep_def lzma_state_update_ctx_state_def Let_def
      split: Option.bind_splits prod.splits if_splits)

lemma leads_back_save2:
  assumes "leads_back (undo_stack nb) sl sl0" "i < length sl" "j < length sl"
  shows "\<exists>us us'. save_packet_at_position nb (sl ! i) i = Some (nb\<lparr> undo_stack := us \<rparr>) \<and>
    save_packet_at_position (nb\<lparr> undo_stack := us \<rparr>) (sl ! j) j = Some (nb\<lparr> undo_stack := us' \<rparr>) \<and>
    (\<forall>p q. leads_back us' (sl[j := p, i := q]) sl0)"
proof -
  have ok: "undo_ok (undo_stack nb)" "undo_loop (rev (log (undo_stack nb))) sl = Some sl0"
    using assms(1) by (simp_all add: leads_back_def)
  obtain us where us: "packet_slab_undo_stack_insert (undo_stack nb) \<lparr> u_position = i, old_packet = sl ! i \<rparr> = Some us" "undo_ok us"
    "log us = log (undo_stack nb) @ [\<lparr> u_position = i, old_packet = sl ! i \<rparr>]" using undo_insert_ok [OF ok(1)] by blast
  obtain us' where us': "packet_slab_undo_stack_insert us \<lparr> u_position = j, old_packet = sl ! j \<rparr> = Some us'" "undo_ok us'"
    "log us' = log us @ [\<lparr> u_position = j, old_packet = sl ! j \<rparr>]" using undo_insert_ok [OF us(2)] by blast
  have "sl[j := p, i := q, j := sl ! j, i := sl ! i] = sl" for p q
    using assms(2,3) by (intro nth_equalityI) (auto simp: nth_list_update)
  then have "leads_back us' (sl[j := p, i := q]) sl0" for p q
    using us' us(3) ok(2) assms(2,3) by (simp add: leads_back_def mem_set_upd)
  then show ?thesis using us(1) us'(1) by (intro exI [of _ us] exI [of _ us']) (simp add: save_packet_at_position_def)
qed

text \<open>What a change of the packet at the position of a state may do.\<close>

definition changed :: "LZMAState \<Rightarrow> PacketSlabNeighbour \<Rightarrow> PacketSlabNeighbour \<Rightarrow> LZMAPacket list \<Rightarrow> bool" where
  "changed st nb nb' sl0 \<longleftrightarrow> slab_ok (sdata st) (slab nb') \<and> leads_back (undo_stack nb') (slab nb') sl0 \<and>
     (\<forall>i < position st. slab nb' ! i = slab nb ! i) \<and> packet_ok st (slab nb' ! position st)"

lemma shrink_ok:
  assumes "at_packet st" "slab_ok (sdata st) (slab nb)" "leads_back (undo_stack nb) (slab nb) sl0"
    "packet_ok st (slab nb ! position st)" "position st + 1 < length (sdata st)"
    "ptype (slab nb ! position st) = LONG_REP \<or> ptype (slab nb ! position st) = MATCH" "2 < plen (slab nb ! position st)"
  shows "\<exists>nb'. shrink_packet st nb (slab nb ! position st) (slab nb ! (position st + 1)) = Some nb' \<and> changed st nb nb' sl0"
proof -
  let ?pos = "position st" and ?p = "slab nb ! position st"
  let ?q = "?p\<lparr> plen := plen ?p - 1 \<rparr>"
  have len: "length (slab nb) = length (sdata st)" using assms(2) by (rule slab_ok_length)
  have i: "?pos < length (slab nb)" "?pos + 1 < length (slab nb)" using assms(5) len by simp_all
  obtain us us' where us: "save_packet_at_position nb ?p ?pos = Some (nb\<lparr> undo_stack := us \<rparr>)"
    "save_packet_at_position (nb\<lparr> undo_stack := us \<rparr>) (slab nb ! (?pos + 1)) (?pos + 1) = Some (nb\<lparr> undo_stack := us' \<rparr>)"
    "\<And>p q. leads_back us' ((slab nb)[?pos + 1 := p, ?pos := q]) sl0" using leads_back_save2 [OF assms(3) i] by blast
  let ?sl = "(slab nb)[?pos + 1 := ?q, ?pos := literal_packet]"
  have run: "shrink_packet st nb ?p (slab nb ! (?pos + 1)) = Some (nb\<lparr> undo_stack := us', slab := ?sl \<rparr>)"
    using us(1,2) i by (simp add: shrink_packet_def put_packet_ok)
  obtain m where m: "plen ?p = Suc m" using assms(7) by (cases "plen ?p") auto
  have q: "entry_ok (sdata st) (?pos + 1) ?q"
    using assms(4,6,7) m by (auto simp: packet_ok_simps entry_ok_def repeats_Suc)
  have lit: "packet_ok st literal_packet" using literal_candidate [OF assms(1)] by blast
  have "slab_ok (sdata st) ?sl"
    using slab_ok_upd [OF slab_ok_upd [OF assms(2) q] packet_entry_ok [OF lit]] .
  then have "changed st nb (nb\<lparr> undo_stack := us', slab := ?sl \<rparr>) sl0"
    using us(3) lit i by (simp add: changed_def)
  with run show ?thesis by blast
qed

lemma chainD:
  assumes "chain ps st" "position st < length (sdata st)"
  shows "packet_ok st (ps ! position st)"
    "\<exists>es st'. lzma_encode_packet st (ps ! position st) = Some (es, st') \<and> chain ps st'"
  using assms by (auto elim: chain.cases)

lemma grow_ok:
  assumes "at_packet st" "slab_ok (sdata st) (slab nb)" "leads_back (undo_stack nb) (slab nb) sl0" "chain (slab nb) st"
    "position st + 1 < length (sdata st)"
    "ptype (slab nb ! position st) = LITERAL \<or> ptype (slab nb ! position st) = SHORT_REP"
    "ptype (slab nb ! (position st + 1)) = MATCH \<or> ptype (slab nb ! (position st + 1)) = LONG_REP"
  shows "\<exists>r. grow_packet st nb (slab nb ! position st) (slab nb ! (position st + 1)) = Some r \<and>
    (case r of None \<Rightarrow> True | Some nb' \<Rightarrow> changed st nb nb' sl0)"
proof -
  let ?pos = "position st" and ?p = "slab nb ! position st" and ?s = "slab nb ! (position st + 1)" and ?data = "sdata st"
  have st: "state_ok st" "?pos < length ?data" "?pos < 2 ^ 64" using assms(1) by (auto simp: at_packet_def)
  have len: "length (slab nb) = length ?data" using assms(2) by (rule slab_ok_length)
  from assms(4) obtain es st1 where c: "packet_ok st ?p" "lzma_encode_packet st ?p = Some (es, st1)" "chain (slab nb) st1"
    using chainD [OF _ st(2)] by blast
  have p1: "plen ?p = 1" using c(1) assms(6) by (auto simp: packet_ok_simps)
  have s1: "state_ok st1" "sdata st1 = ?data" "position st1 = ?pos + 1" "dists st1 = dists st"
    using encode_packet_advances [OF st(1) c(1)] c(2) p1 single_dists [OF c(2) assms(6)] by auto
  have sok: "packet_ok st1 ?s" using chainD(1) [OF c(3)] s1 assms(5) by simp
  define d where "d = (if ptype ?s = LONG_REP then dists st ! dist ?s else dist ?s)"
  have s: "2 \<le> plen ?s" "plen ?s \<le> 273" "?pos + 1 + plen ?s \<le> length ?data" "repeats ?data (?pos + 1) d (plen ?s)"
    "ptype ?s = LONG_REP \<Longrightarrow> dist ?s < 4" "ptype ?s = MATCH \<Longrightarrow> dist ?s < 2 ^ 32"
    using sok assms(7) s1 by (auto simp: packet_ok_simps d_def)
  have dpos: "d \<le> ?pos"
  proof (cases "ptype ?s = LONG_REP")
    case True
    then show ?thesis using dists_bound [OF st(1) s(5)] by (simp add: d_def)
  next
    case False
    then show ?thesis using sok assms(7) s1 by (auto simp: packet_ok_simps d_def)
  qed
  have l4: "length (dists st) = 4" using st(1) by (simp add: state_ok_def)
  have rs: "(if ptype ?s = LONG_REP then do { d \<leftarrow> mem_get (dists st) (dist ?s); Some (wsub ?pos d) }
      else Some (wsub ?pos (dist ?s))) = Some (?pos - d)"
    using s(5) l4 wsub_small [OF dpos st(3)] by (auto simp: mem_get_nth d_def)
  let ?q = "?s\<lparr> plen := plen ?s + 1 \<rparr>"
  show ?thesis
  proof (cases "plen ?s < 273 \<and> 0 < ?pos - d \<and> ?data ! ?pos = ?data ! (?pos - d - 1)")
    case False
    have "grow_packet st nb ?p ?s = Some None"
      using False st(2) unfolding grow_packet_def rs Option.bind_lunit by (auto simp: mem_get_nth)
    then show ?thesis by auto
  next
    case True
    have "leads_back (undo_stack nb) (slab nb) sl0" by (rule assms(3))
    then obtain us where us: "save_packet_at_position nb ?p ?pos = Some (nb\<lparr> undo_stack := us \<rparr>)"
      "\<And>p. leads_back us ((slab nb)[?pos := p]) sl0" using save_packet_ok [of nb "slab nb" sl0 ?pos] st(2) len by auto
    let ?nb = "nb\<lparr> undo_stack := us, slab := (slab nb)[?pos := ?q] \<rparr>"
    have run: "grow_packet st nb ?p ?s = Some (Some ?nb)"
      using True st(2) us(1) len unfolding grow_packet_def rs Option.bind_lunit by (simp add: mem_get_nth put_packet_ok)
    have r: "repeats ?data ?pos d (plen ?s + 1)" using True s(4) by (simp add: repeats_Suc)
    have q: "packet_ok st ?q" using True s r assms(7) by (auto simp: packet_ok_simps d_def)
    have "slab_ok ?data ((slab nb)[?pos := ?q])" using slab_ok_upd [OF assms(2) packet_entry_ok [OF q]] .
    then have "changed st nb ?nb sl0" using us(2) q st(2) len by (simp add: changed_def)
    with run show ?thesis by auto
  qed
qed

lemma resize_ok:
  assumes "at_packet st" "slab_ok (sdata st) (slab nb)" "leads_back (undo_stack nb) (slab nb) sl0" "chain (slab nb) st"
    "position st + 1 < length (sdata st)"
  shows "\<exists>r. resize_packet st nb = Some r \<and> (case r of None \<Rightarrow> True | Some nb' \<Rightarrow> changed st nb nb' sl0)"
proof -
  let ?p = "slab nb ! position st" and ?s = "slab nb ! (position st + 1)"
  have len: "length (slab nb) = length (sdata st)" using assms(2) by (rule slab_ok_length)
  have g: "mem_get (slab nb) (position st) = Some ?p" "mem_get (slab nb) (position st + 1) = Some ?s"
    using assms(5) len by (simp_all add: mem_get_def)
  note eq = resize_packet_def [of st nb, unfolded g Option.bind_lunit]
  have p: "packet_ok st ?p" using chainD(1) [OF assms(4)] assms(1) by (simp add: at_packet_def)
  show ?thesis
  proof (cases "(ptype ?p = LONG_REP \<or> ptype ?p = MATCH) \<and> 2 < plen ?p")
    case True
    then show ?thesis using shrink_ok [OF assms(1-3) p assms(5)] by (auto simp: eq)
  next
    case nshrink: False
    show ?thesis
    proof (cases "(ptype ?p = LITERAL \<or> ptype ?p = SHORT_REP) \<and> (ptype ?s = MATCH \<or> ptype ?s = LONG_REP)")
      case True
      then show ?thesis using grow_ok [OF assms] nshrink by (auto simp: eq)
    next
      case False
      then have "resize_packet st nb = Some None" using nshrink by (auto simp: eq)
      then show ?thesis by simp
    qed
  qed
qed

text \<open>A packet other than the one that is stored now.\<close>

definition alternative :: "LZMAState \<Rightarrow> LZMAPacket list \<Rightarrow> bool" where
  "alternative st sl \<longleftrightarrow> (\<exists>p. packet_ok st p \<and> canonical p \<and> p \<noteq> sl ! position st)"

lemma mutate_ok:
  assumes "at_packet st" "finder_for (sdata st) f" "slab_ok (sdata st) (slab nb)" "leads_back (undo_stack nb) (slab nb) sl0"
    "chain (slab nb) st"
  shows "\<exists>ok nb' f' rs'. mutate_next_packet st f nb rs = Some (ok, nb', f', rs') \<and> finder_for (sdata st) f' \<and>
    (if ok then changed st nb nb' sl0
     else slab nb' = slab nb \<and> leads_back (undo_stack nb') (slab nb') sl0) \<and>
    ((position st + 1 < length (sdata st) \<and> rs 0 mod 2 = 0 \<longrightarrow> resize_packet st nb = Some None) \<longrightarrow> (ok \<longleftrightarrow> alternative st (slab nb)))"
proof -
  let ?pos = "position st"
  let ?room = "?pos + 1 < length (sdata st)"
  have st: "state_ok st" "?pos < length (sdata st)" using assms(1) by (simp_all add: at_packet_def)
  have len: "length (slab nb) = length (sdata st)" using assms(3) by (rule slab_ok_length)
  obtain r rs1 where r: "(if ?room then rand rs else (1, rs)) = (r, rs1)" by fastforce
  then have r0: "?room \<Longrightarrow> r = rs 0" by (simp add: rand_def)
  obtain z where z: "(if ?room \<and> r mod 2 = 0 then resize_packet st nb else Some None) = Some z"
    "case z of None \<Rightarrow> True | Some nb' \<Rightarrow> changed st nb nb' sl0"
  proof (cases "?room \<and> r mod 2 = 0")
    case True
    with resize_ok [OF assms(1,3-5)] that show thesis by auto
  next
    case False
    show thesis by (rule that [of None]) (simp_all only: False if_False option.case)
  qed
  show ?thesis
  proof (cases z)
    case (Some nb')
    then have "mutate_next_packet st f nb rs = Some (True, nb', f, rs1)"
      using z(1) unfolding mutate_next_packet_def Let_def r prod.case by simp
    moreover have "?room \<and> rs 0 mod 2 = 0 \<and> resize_packet st nb \<noteq> Some None"
      using z(1) Some r0 by (auto split: if_splits)
    ultimately show ?thesis using z(2) Some assms(2)
      by (intro exI [of _ True] exI [of _ nb'] exI [of _ f] exI [of _ rs1]) simp
  next
    case None
    obtain us where us: "save_packet_at_position nb (slab nb ! ?pos) ?pos = Some (nb\<lparr> undo_stack := us \<rparr>)"
      "\<And>p. leads_back us ((slab nb)[?pos := p]) sl0" using save_packet_ok [OF assms(4), of ?pos] st(2) len by auto
    let ?nb = "nb\<lparr> undo_stack := us \<rparr>"
    have l: "length (slab ?nb) = length (sdata st)" using len by simp
    obtain ok nb' f' rs' where pk: "pick_random_next_packet_from_top_k st f ?nb False rs1 = Some (ok, nb', f', rs')"
      "finder_for (sdata st) f'"
      "if ok then \<exists>p. packet_ok st p \<and> nb' = ?nb\<lparr> slab := (slab ?nb)[?pos := p] \<rparr> else nb' = ?nb"
      "ok \<longleftrightarrow> alternative st (slab nb)"
      using pick_ok [OF assms(1,2) l, of False rs1] unfolding alternative_def by auto
    have run: "mutate_next_packet st f nb rs = Some (ok, nb', f', rs')"
      using z(1) None us(1) pk(1) st(2) len unfolding mutate_next_packet_def Let_def r prod.case by (simp add: mem_get_nth)
    show ?thesis
    proof (cases ok)
      case True
      then obtain p where p: "packet_ok st p" "nb' = ?nb\<lparr> slab := (slab nb)[?pos := p] \<rparr>" using pk(3) by auto
      then have "changed st nb nb' sl0"
        using us(2) slab_ok_upd [OF assms(3) packet_entry_ok [OF p(1)]] st(2) len by (simp add: changed_def)
      then show ?thesis using run True pk(2,4)
        by (intro exI [of _ True] exI [of _ nb'] exI [of _ f'] exI [of _ rs']) simp
    next
      case False
      have "leads_back us (slab nb) sl0" using us(2) [of "slab nb ! ?pos"] by simp
      then show ?thesis using run False pk(2-4)
        by (intro exI [of _ False] exI [of _ nb'] exI [of _ f'] exI [of _ rs']) simp
    qed
  qed
qed

section \<open>Reaching a packet\<close>

text \<open>The number of packets of a chain is counted, and the packets before a target number lead to a state
  that is still on the chain; a slab that agrees before that state has the same packets there.\<close>

lemma slab_count_ok:
  assumes "chain ps st" "state_ok st" "length ps = length (sdata st)"
  shows "\<exists>k. slab_count_loop ps (position st) n = Some (n + k) \<and> (position st < length (sdata st) \<longrightarrow> 0 < k) \<and>
    (\<forall>target < k. \<forall>v. \<exists>st' v'. encode_to_packet_number ps st v target = Some (st', v') \<and> state_ok st' \<and> sdata st' = sdata st \<and>
       position st \<le> position st' \<and> position st' < length (sdata st) \<and> chain ps st' \<and>
       (\<forall>ps'. length ps' = length ps \<longrightarrow> (\<forall>i < position st'. ps' ! i = ps ! i) \<longrightarrow> chain ps' st' \<longrightarrow> chain ps' st))"
  using assms
proof (induction arbitrary: n rule: chain.induct)
  case (chain_end st)
  then show ?case by (subst slab_count_loop.simps) (simp add: exI [of _ 0])
next
  case (chain_step st es st')
  let ?p = "ps ! position st"
  have s: "state_ok st'" "sdata st' = sdata st" "position st' = position st + plen ?p" "list_all call_ok es"
    using encode_packet_advances [OF chain_step.prems(1) chain_step.hyps(2)] chain_step.hyps(3) by auto
  have adv: "position st < position st'" using packet_ok_room [OF chain_step.hyps(2)] s(3) by simp
  have len: "length ps = length (sdata st)" by (rule chain_step.prems(2))
  have pos: "position st < length (sdata st)" using chain_step.hyps(1) len by simp
  obtain k where k: "slab_count_loop ps (position st') (n + 1) = Some (n + 1 + k)"
    "\<And>target v. target < k \<Longrightarrow> \<exists>st2 v'. encode_to_packet_number ps st' v target = Some (st2, v') \<and> state_ok st2 \<and> sdata st2 = sdata st \<and>
       position st' \<le> position st2 \<and> position st2 < length (sdata st) \<and> chain ps st2 \<and>
       (\<forall>ps'. length ps' = length ps \<longrightarrow> (\<forall>i < position st2. ps' ! i = ps ! i) \<longrightarrow> chain ps' st2 \<longrightarrow> chain ps' st')"
    using chain_step.IH [OF s(1), of "n + 1"] len s(2) by auto
  have "slab_count_loop ps (position st) n = Some (n + Suc k)"
    using k(1) chain_step.hyps(1) s(3) by (subst slab_count_loop.simps) simp
  moreover have "\<exists>st2 v'. encode_to_packet_number ps st v target = Some (st2, v') \<and> state_ok st2 \<and> sdata st2 = sdata st \<and>
       position st \<le> position st2 \<and> position st2 < length (sdata st) \<and> chain ps st2 \<and>
       (\<forall>ps'. length ps' = length ps \<longrightarrow> (\<forall>i < position st2. ps' ! i = ps ! i) \<longrightarrow> chain ps' st2 \<longrightarrow> chain ps' st)"
    if t: "target < Suc k" for target v
  proof (cases target)
    case 0
    then show ?thesis using chain_step pos chain.chain_step by auto
  next
    case (Suc t)
    obtain v1 where v1: "perplexity_calls v es = Some v1" using perplexity_calls_defined [OF s(4)] by blast
    obtain st2 v' where st2: "encode_to_packet_number ps st' v1 t = Some (st2, v')" "state_ok st2" "sdata st2 = sdata st"
       "position st' \<le> position st2" "position st2 < length (sdata st)" "chain ps st2"
       "\<And>ps'. length ps' = length ps \<Longrightarrow> (\<forall>i < position st2. ps' ! i = ps ! i) \<Longrightarrow> chain ps' st2 \<Longrightarrow> chain ps' st'"
      using k(2) [of t v1] t Suc by auto
    have "encode_to_packet_number ps st v target = Some (st2, v')"
      using Suc pos chain_step.hyps(1,3) v1 st2(1) by (simp add: mem_get_nth encode_perplexity_def)
    moreover have "chain ps' st" if "length ps' = length ps" "\<forall>i < position st2. ps' ! i = ps ! i" "chain ps' st2" for ps'
    proof -
      have "ps' ! position st = ?p" using that(2) adv st2(4) by simp
      then show ?thesis using st2(7) [OF that] chain_step.hyps that(1) by (intro chain.chain_step [of st ps' es st']) simp_all
    qed
    ultimately show ?thesis using st2 adv by auto
  qed
  ultimately show ?case by (intro exI [of _ "Suc k"]) blast
qed

section \<open>A step of the search\<close>

text \<open>A slab that stands for the file: every entry is of its type, and the packets that are met describe the data.\<close>

definition search_ok :: "LZMAState \<Rightarrow> TopKPacketFinder \<Rightarrow> LZMAPacket list \<Rightarrow> bool" where
  "search_ok init f sl \<longleftrightarrow> state_ok init \<and> position init = 0 \<and> 0 < length (sdata init) \<and> length (sdata init) \<le> 2 ^ 32 \<and>
     finder_for (sdata init) f \<and> slab_ok (sdata init) sl \<and> chain sl init"

lemma generate_ok:
  assumes "search_ok init f (slab nb)" "leads_back (undo_stack nb) (slab nb) sl0"
  shows "\<exists>ok nb' f' rs' k st v. packet_slab_neighbour_generate init f nb rs = Some (ok, nb', f', rs') \<and>
    search_ok init f' (slab nb') \<and> leads_back (undo_stack nb') (slab nb') sl0 \<and> (\<not> ok \<longrightarrow> slab nb' = slab nb) \<and>
    packet_slab_count (slab nb) = Some k \<and> 0 < k \<and>
    encode_to_packet_number (slab nb) init (perplexity nb) (rs 0 mod k) = Some (st, v) \<and> at_packet st \<and> sdata st = sdata init \<and>
    ((position st + 1 < length (sdata st) \<and> rs 1 mod 2 = 0 \<longrightarrow> resize_packet st (nb\<lparr> perplexity := v \<rparr>) = Some None) \<longrightarrow>
      (ok \<longleftrightarrow> alternative st (slab nb)))"
proof -
  let ?data = "sdata init"
  have i: "state_ok init" "position init = 0" "0 < length ?data" "length ?data \<le> 2 ^ 32" "finder_for ?data f"
    "slab_ok ?data (slab nb)" "chain (slab nb) init" using assms(1) by (simp_all add: search_ok_def)
  have len: "length (slab nb) = length ?data" by (rule slab_ok_length [OF i(6)])
  obtain k where k: "packet_slab_count (slab nb) = Some k" "0 < k"
    "\<And>target v. target < k \<Longrightarrow> \<exists>st' v'. encode_to_packet_number (slab nb) init v target = Some (st', v') \<and> state_ok st' \<and>
       sdata st' = ?data \<and> position st' < length ?data \<and> chain (slab nb) st' \<and>
       (\<forall>ps'. length ps' = length (slab nb) \<longrightarrow> (\<forall>i < position st'. ps' ! i = slab nb ! i) \<longrightarrow> chain ps' st' \<longrightarrow> chain ps' init)"
    using slab_count_ok [OF i(7,1) len, of 0] i(2,3) by (auto simp: packet_slab_count_def)
  obtain st v where st: "encode_to_packet_number (slab nb) init (perplexity nb) (rs 0 mod k) = Some (st, v)" "state_ok st"
    "sdata st = ?data" "position st < length ?data" "chain (slab nb) st"
    "\<And>ps'. length ps' = length (slab nb) \<Longrightarrow> (\<forall>i < position st. ps' ! i = slab nb ! i) \<Longrightarrow> chain ps' st \<Longrightarrow> chain ps' init"
    using k(3) [of "rs 0 mod k" "perplexity nb"] k(2) by auto
  have at: "at_packet st" using st i(4) by (simp add: at_packet_def)
  let ?nb = "nb\<lparr> perplexity := v \<rparr>" and ?rs = "\<lambda>i. rs (Suc i)"
  have "finder_for (sdata st) f" "slab_ok (sdata st) (slab ?nb)" "leads_back (undo_stack ?nb) (slab ?nb) sl0" "chain (slab ?nb) st"
    using i st assms(2) by simp_all
  from mutate_ok [OF at this, of ?rs] obtain ok nb1 f1 rs1 where m: "mutate_next_packet st f ?nb ?rs = Some (ok, nb1, f1, rs1)"
    "finder_for (sdata st) f1" "if ok then changed st ?nb nb1 sl0 else slab nb1 = slab ?nb \<and> leads_back (undo_stack nb1) (slab nb1) sl0"
    "(position st + 1 < length (sdata st) \<and> ?rs 0 mod 2 = 0 \<longrightarrow> resize_packet st ?nb = Some None) \<longrightarrow> (ok \<longleftrightarrow> alternative st (slab ?nb))"
    by (elim exE conjE) (rule that)
  have m4: "(position st + 1 < length (sdata st) \<and> rs 1 mod 2 = 0 \<longrightarrow> resize_packet st ?nb = Some None) \<longrightarrow> (ok \<longleftrightarrow> alternative st (slab nb))"
    using m(4) by simp
  have gen: "packet_slab_neighbour_generate init f nb rs =
     (if \<not> ok then Some (False, nb1, f1, rs1)
      else do { p \<leftarrow> mem_get (slab nb1) (position st);
                (st, perp) \<leftarrow> encode_perplexity st (perplexity nb1) p;
                (nb, f, rs) \<leftarrow> repair_remaining_packets st 0 f1 (nb1\<lparr> perplexity := perp \<rparr>) rs1;
                Some (True, nb, f, rs) })"
    using k(1,2) st(1) m(1) by (simp add: packet_slab_neighbour_generate_def rand_def)
  show ?thesis
  proof (cases ok)
    case False
    have d: "slab nb1 = slab nb" using m(3) False by simp
    have l: "leads_back (undo_stack nb1) (slab nb1) sl0" using m(3) unfolding if_not_P [OF False] by blast
    have "search_ok init f1 (slab nb1)" using m(2) assms(1) st(3) unfolding d by (simp add: search_ok_def)
    then show ?thesis using gen False k(1,2) st(1,3) at m4 l d
      by (intro exI [of _ False] exI [of _ nb1] exI [of _ f1] exI [of _ rs1] exI [of _ k] exI [of _ st] exI [of _ v]) simp
  next
    case True
    then have c: "slab_ok ?data (slab nb1)" "leads_back (undo_stack nb1) (slab nb1) sl0" "\<forall>i < position st. slab nb1 ! i = slab nb ! i"
      "packet_ok st (slab nb1 ! position st)" using m(3) st(3) by (simp_all add: changed_def)
    let ?p = "slab nb1 ! position st"
    have l1: "length (slab nb1) = length ?data" by (rule slab_ok_length [OF c(1)])
    obtain es st1 where e: "lzma_encode_packet st ?p = Some (es, st1)" "state_ok st1" "sdata st1 = ?data"
      "position st1 = position st + plen ?p" "list_all call_ok es" using encode_packet_advances [OF st(2) c(4)] st(3) by auto
    obtain w where w: "perplexity_calls (perplexity nb1) es = Some w" using perplexity_calls_defined [OF e(5)] by blast
    have adv: "position st < position st1" using packet_ok_room [OF c(4)] e(4) by simp
    let ?nb1 = "nb1\<lparr> perplexity := w \<rparr>"
    have pre: "0 < position st1" "length (sdata st1) \<le> 2 ^ 32" "finder_for (sdata st1) f1" "slab_ok (sdata st1) (slab ?nb1)"
      "leads_back (undo_stack ?nb1) (slab ?nb1) sl0" using adv i(4) e(3) m(2) st(3) c by simp_all
    obtain nb2 f2 rs2 where r: "repair_remaining_packets st1 0 f1 ?nb1 rs1 = Some (nb2, f2, rs2)" "finder_for ?data f2"
      "slab_ok ?data (slab nb2)" "leads_back (undo_stack nb2) (slab nb2) sl0" "\<And>i. i < position st1 \<Longrightarrow> slab nb2 ! i = slab nb1 ! i"
      "chain (slab nb2) st1"
      using repair_remaining_ok [OF e(2) pre, of 0 rs1] e(3) by auto
    have l2: "length (slab nb2) = length ?data" by (rule slab_ok_length [OF r(3)])
    have "slab nb2 ! position st = ?p" by (rule r(5) [OF adv])
    then have "chain (slab nb2) st"
      using st(4) l2 c(4) e(1) r(6) by (intro chain.chain_step [of st _ es st1]) simp_all
    moreover have "\<forall>i < position st. slab nb2 ! i = slab nb ! i" using r(5) adv c(3) by simp
    ultimately have "chain (slab nb2) init" using st(6) l2 len by simp
    then have "search_ok init f2 (slab nb2)" using i r(2,3) by (simp add: search_ok_def)
    moreover have "packet_slab_neighbour_generate init f nb rs = Some (True, nb2, f2, rs2)"
      using gen True st(4) l1 e(1) w r(1) by (simp add: mem_get_nth encode_perplexity_def)
    ultimately show ?thesis using r(4) k(1,2) st(1,3) at m4 True
      by (intro exI [of _ True] exI [of _ nb2] exI [of _ f2] exI [of _ rs2] exI [of _ k] exI [of _ st] exI [of _ v]) simp
  qed
qed

text \<open>The start of the search: a slab of literals.\<close>

lemma chain_literals:
  "state_ok st \<Longrightarrow> \<forall>i < length (sdata st). ps ! i = literal_packet \<Longrightarrow> length ps = length (sdata st) \<Longrightarrow> chain ps st"
proof (induction "length (sdata st) - position st" arbitrary: st rule: less_induct)
  case less
  have "position st \<le> length (sdata st)" using less.prems(1) by (simp add: state_ok_def)
  then consider "position st = length (sdata st)" | "position st < length (sdata st)" by linarith
  then show ?case
  proof cases
    case 1
    then show ?thesis by (rule chain_end)
  next
    case 2
    then have p: "ps ! position st = literal_packet" using less.prems(2) by simp
    then have ok: "packet_ok st (ps ! position st)" using 2 by (simp add: packet_ok_simps literal_packet_def)
    show ?thesis
    proof (rule chain_step_ok [OF less.prems(1) _ ok])
      fix st' assume "state_ok st'" "sdata st' = sdata st" "position st' = position st + plen (ps ! position st)"
      then show "chain ps st'" using less.prems 2 p by (intro less.hyps) (simp_all add: literal_packet_def)
    qed (use 2 less.prems(3) in simp)
  qed
qed

lemma search_ok_literals:
  assumes "0 < length data" "length data \<le> 2 ^ 32" "finder_for data f" "length sl = length data"
    "\<forall>i < length data. sl ! i = literal_packet"
  shows "search_ok (lzma_state_init data props) f sl"
proof -
  let ?i = "lzma_state_init data props"
  have i: "state_ok ?i" "sdata ?i = data" "position ?i = 0"
    using state_ok_init [of data props] assms(2) by (auto simp: lzma_state_init_def)
  have "slab_ok data sl" using assms(4,5) by (simp add: slab_ok_def entry_ok_def literal_packet_def)
  then show ?thesis using assms i chain_literals [OF i(1), of sl] by (simp add: search_ok_def)
qed

lemma finder_for_new:
  assumes "packet_enumerator_new data = Some (Some em)" "0 < k" "length entry_block = k" "length heap_block = k"
  shows "finder_for data (top_k_packet_finder_new entry_block heap_block em)"
proof -
  have "em_ok em data 273" by (rule packet_enumerator_new_em [OF assms(1)])
  then show ?thesis using assms(2-4)
    by (simp add: finder_for_def finder_ok_def top_k_packet_finder_new_def heap_ok_def room_ok_def order_but_def max_heap_new_def)
qed

lemma search_ok_new:
  assumes "packet_enumerator_new data = Some (Some em)" "0 < k" "length entry_block = k" "length heap_block = k"
    "0 < length data" "length data \<le> 2 ^ 32"
  shows "search_ok (lzma_state_init data props) (top_k_packet_finder_new entry_block heap_block em) (packet_slab_new (length data))"
  using assms by (intro search_ok_literals finder_for_new) (simp_all add: packet_slab_new_def)

lemma leads_back_new: "leads_back (undo_stack (packet_slab_neighbour_new sl)) (slab (packet_slab_neighbour_new sl)) sl"
  by (simp add: packet_slab_neighbour_new_def leads_back_def undo_new_ok)

lemma slab_neighbour_new [simp]: "slab (packet_slab_neighbour_new sl) = sl"
  by (simp add: packet_slab_neighbour_new_def)

lemma search_example:
  "\<exists>f. search_ok (lzma_state_init [97, 97, 97] \<lparr> prop_lc = 0, prop_lp = 0, prop_pb = 0 \<rparr>) f (packet_slab_new 3)"
proof -
  obtain em where em: "packet_enumerator_new [97, 97, 97] = Some (Some em)" using packet_enumerator_new_ok [of "[97, 97, 97]"] by auto
  let ?f = "top_k_packet_finder_new (replicate 20 \<lparr> packet = literal_packet, cost = 0 \<rparr>) (replicate 20 0) em"
  let ?i = "lzma_state_init [97, 97, 97] \<lparr> prop_lc = 0, prop_lp = 0, prop_pb = 0 \<rparr>"
  have "search_ok ?i ?f (packet_slab_new (length [97, 97, 97 :: u8]))"
    by (rule search_ok_new [OF em, of 20]) simp_all
  then have "search_ok ?i ?f (packet_slab_new 3)" by (simp add: numeral_3_eq_3)
  then show ?thesis by blast
qed


text \<open>C28. A random step keeps the slab valid: whatever values \<open>rand\<close> returns, generating a neighbour of a slab that
  stands for the file ends without an access out of bounds or a failed assertion, and the slab that it leaves
  still stands for the file: each packet met from the start describes the data at its position (a shrunk or grown match,
  and each repeated distance that the change has made stale, included). When it reports failure the slab is unchanged.\<close>

theorem generate_keeps_slab_valid:
  assumes "search_ok init f sl"
  shows "\<exists>ok nb f' rs'. packet_slab_neighbour_generate init f (packet_slab_neighbour_new sl) rs = Some (ok, nb, f', rs') \<and>
    search_ok init f' (slab nb) \<and> (ok \<or> slab nb = sl)"
  using generate_ok [of init f "packet_slab_neighbour_new sl", unfolded slab_neighbour_new, OF assms leads_back_new [unfolded slab_neighbour_new], of rs]
  by blast

theorem generate_keeps_slab_valid_witness:
  "\<exists>f ok nb f' rs'. packet_slab_neighbour_generate (lzma_state_init [97, 97, 97] \<lparr> prop_lc = 0, prop_lp = 0, prop_pb = 0 \<rparr>) f
      (packet_slab_neighbour_new (packet_slab_new 3)) (\<lambda>i. 5 * i) = Some (ok, nb, f', rs') \<and>
    search_ok (lzma_state_init [97, 97, 97] \<lparr> prop_lc = 0, prop_lp = 0, prop_pb = 0 \<rparr>) f' (slab nb) \<and> (ok \<or> slab nb = packet_slab_new 3)"
  using search_example generate_keeps_slab_valid by blast

text \<open>C31. Undoing a step restores the slab exactly: after generating a neighbour, with success or not, and with whatever
  values \<open>rand\<close> returned, undoing puts back the very slab from before and leaves an empty undo stack (the comment in
  \<open>main\<close> asks for this to be checked).\<close>

theorem neighbour_undo_restores:
  assumes "search_ok init f sl"
  shows "\<exists>ok nb f' rs'. packet_slab_neighbour_generate init f (packet_slab_neighbour_new sl) rs = Some (ok, nb, f', rs') \<and>
    packet_slab_neighbour_undo nb = Some (nb\<lparr> slab := sl, undo_stack := packet_slab_undo_stack_new \<rparr>)"
proof -
  obtain ok nb f' rs' where g: "packet_slab_neighbour_generate init f (packet_slab_neighbour_new sl) rs = Some (ok, nb, f', rs')"
    "leads_back (undo_stack nb) (slab nb) sl"
    using generate_ok [of init f "packet_slab_neighbour_new sl", unfolded slab_neighbour_new, OF assms leads_back_new [unfolded slab_neighbour_new], of rs]
    by blast
  from leads_back_apply [OF g(2)] have "packet_slab_neighbour_undo nb = Some (nb\<lparr> slab := sl, undo_stack := packet_slab_undo_stack_new \<rparr>)"
    by (cases nb) (simp add: packet_slab_neighbour_undo_def)
  with g(1) show ?thesis by blast
qed

theorem neighbour_undo_restores_witness:
  "\<exists>f ok nb f' rs'. packet_slab_neighbour_generate (lzma_state_init [97, 97, 97] \<lparr> prop_lc = 0, prop_lp = 0, prop_pb = 0 \<rparr>) f
      (packet_slab_neighbour_new (packet_slab_new 3)) (\<lambda>i. 5 * i) = Some (ok, nb, f', rs') \<and>
    packet_slab_neighbour_undo nb = Some (nb\<lparr> slab := packet_slab_new 3, undo_stack := packet_slab_undo_stack_new \<rparr>)"
  using search_example neighbour_undo_restores by blast

end
