(* ===== verification/Mega_Main.thy ===== *)
theory Mega_Main
  imports Mega_Neighbour Mega_Range
begin

text \<open>
  The whole of \<open>megalania\<close>: the header (\<open>lzma_header_encoder\<close>), the simulated annealing of \<open>main\<close>, which
  changes a slab at random and remembers the best one, and its output, which a reference decoder turns back
  into the file. The messages on \<open>stderr\<close> are left out.
\<close>

section \<open>Model\<close>

text \<open>The little-endian bytes of a number, as they lie in memory on the hosts that \<open>htole32\<close> leaves alone.\<close>

definition le_bytes :: "nat \<Rightarrow> nat \<Rightarrow> bytes" where
  "le_bytes k n = map (\<lambda>i. of_nat (n div 256 ^ i)) [0..<k]"

definition lzma_encode_header_properties :: "LZMAProperties \<Rightarrow> u8" where
  "lzma_encode_header_properties p = of_nat ((prop_pb p * 5 + prop_lp p) * 9 + prop_lc p)"

text \<open>The size passes through \<open>htole32\<close> and so loses its upper half.\<close>

definition lzma_encode_header :: "LZMAState \<Rightarrow> bytes" where
  "lzma_encode_header st =
    lzma_encode_header_properties (properties st) # le_bytes 4 0x400000 @ le_bytes 8 (length (sdata st) mod 2 ^ 32)"

record annealing =
  a_packets :: "LZMAPacket list"
  a_best :: "LZMAPacket list"
  a_current :: nat
  a_best_perplexity :: nat
  a_finder :: TopKPacketFinder
  a_rand :: rand_src

text \<open>One pass of the inner loop: a neighbour is generated, and when that succeeds it is kept or undone. The
  product \<open>i * i\<close> is one of signed integers, the rest of the modulus is unsigned; the comparison with the square root is exact.\<close>

definition num_iters :: "bytes \<Rightarrow> nat" where
  "num_iters data = (let n = length data mod 2 ^ 32 in if n < 2 ^ 31 then n else 0)"

definition accepts :: "nat \<Rightarrow> nat \<Rightarrow> nat \<Rightarrow> nat \<Rightarrow> bool option" where
  "accepts step iters i r =
    (if i * i + 1 \<ge> 2 ^ 31 then None
     else let m = (i * i + 1 + (step * iters) mod 2 ^ 32 div 2) mod 2 ^ 32 in
       if m = 0 then None else Some (r mod m * (r mod m) < iters))"

definition anneal_step :: "LZMAState \<Rightarrow> nat \<Rightarrow> nat \<Rightarrow> nat \<Rightarrow> annealing \<Rightarrow> (bool \<times> annealing) option" where
  "anneal_step init step iters i a =
    do { (ok, nb, f, rs) \<leftarrow> packet_slab_neighbour_generate init (a_finder a) (packet_slab_neighbour_new (a_packets a)) (a_rand a);
         let a = a\<lparr> a_packets := slab nb, a_finder := f, a_rand := rs \<rparr>;
         if \<not> ok then Some (False, a)
         else do {
           let (r, rs) = rand rs;
           transition \<leftarrow> accepts step iters i r;
           let a = a\<lparr> a_rand := rs \<rparr>;
           if a_current a = 0 \<or> perplexity nb < a_current a \<or> transition
           then let a = a\<lparr> a_current := perplexity nb \<rparr> in
             Some (True, if a_best_perplexity a = 0 \<or> perplexity nb < a_best_perplexity a
               then a\<lparr> a_best_perplexity := perplexity nb, a_best := slab nb \<rparr> else a)
           else do { nb \<leftarrow> packet_slab_neighbour_undo nb; Some (True, a\<lparr> a_packets := slab nb \<rparr>) } } }"

text \<open>A pass that fails does not count: the loop may run for ever.\<close>

partial_function (option) anneal_loop :: "LZMAState \<Rightarrow> nat \<Rightarrow> nat \<Rightarrow> nat \<Rightarrow> annealing \<Rightarrow> annealing option" where
  "anneal_loop init step iters i a =
    (if i < iters then do {
       (ok, a) \<leftarrow> anneal_step init step iters i a;
       anneal_loop init step iters (if ok then i + 1 else i) a }
     else Some a)"

fun epochs :: "LZMAState \<Rightarrow> nat \<Rightarrow> nat \<Rightarrow> annealing \<Rightarrow> annealing option" where
  "epochs init step 0 a = Some a"
| "epochs init step (Suc n) a =
    do { a \<leftarrow> anneal_loop init step (num_iters (sdata init)) 0
           (a\<lparr> a_packets := (if step \<noteq> 0 then a_best a else packet_slab_new (length (sdata init))), a_current := 0 \<rparr>);
         epochs init step n a }"

definition num_epochs :: nat where "num_epochs = 200"

definition anneal :: "LZMAState \<Rightarrow> annealing \<Rightarrow> annealing option" where
  "anneal init a =
    do { a \<leftarrow> epochs init 0 num_epochs a; a \<leftarrow> epochs init 1 num_epochs a; epochs init 2 num_epochs a }"

text \<open>The end of \<open>main\<close>: the header and the packets of the best slab through the range coder.\<close>

definition write_output :: "LZMAState \<Rightarrow> LZMAPacket list \<Rightarrow> bytes option" where
  "write_output init best =
    do { (es, st) \<leftarrow> encode_all best init;
         e \<leftarrow> range_calls range_encoder_new es;
         Some (lzma_encode_header init @ range_encoder_free e) }"

text \<open>What \<open>main\<close> writes for a file; the blocks are the memory that is allocated for the finder. An empty
  file gives no output at all.\<close>

definition megalania :: "bytes \<Rightarrow> TopKEntry list \<Rightarrow> nat list \<Rightarrow> rand_src \<Rightarrow> bytes option" where
  "megalania data entry_block heap_block rs =
    (if data = [] then Some []
     else do {
       let init = lzma_state_init data \<lparr> prop_lc = 0, prop_lp = 0, prop_pb = 0 \<rparr>;
       r \<leftarrow> packet_enumerator_new data;
       em \<leftarrow> r;
       a \<leftarrow> anneal init \<lparr> a_packets = [], a_best = packet_slab_new (length data), a_current = 0, a_best_perplexity = 0,
              a_finder = top_k_packet_finder_new entry_block heap_block em, a_rand = rs \<rparr>;
       write_output init (a_best a) })"

section \<open>The reference decoder of a file\<close>

definition le_num :: "bytes \<Rightarrow> nat" where
  "le_num bs = foldr (\<lambda>b n. unat b + 256 * n) bs 0"

text \<open>It accepts the properties zero and a size that fits the dictionary, so that the bytes written are the
  window, and it checks that the code value ends at zero.\<close>

definition lzma_decode :: "bytes \<Rightarrow> bytes option" where
  "lzma_decode bs =
    (if length bs < 13 \<or> bs ! 0 \<noteq> 0 then None
     else let dict = le_num (take 4 (drop 1 bs)); n = le_num (take 8 (drop 5 bs)) in
       if dict < n then None
       else do { r \<leftarrow> range_start (drop 13 bs);
                 (d, r) \<leftarrow> dec_stream range_source n dec_start r;
                 if d_code r = 0 then Some (written d) else None })"

section \<open>The output\<close>

lemma le_bytes_length [simp]: "length (le_bytes k n) = k"
  by (simp add: le_bytes_def)

lemma le_num_bytes: "n < 256 ^ k \<Longrightarrow> le_num (le_bytes k n) = n"
proof (induction k arbitrary: n)
  case (Suc k)
  have "[0..<Suc k] = 0 # map Suc [0..<k]" by (metis map_Suc_upt upt_conv_Cons zero_less_Suc)
  then have "le_bytes (Suc k) n = of_nat n # le_bytes k (n div 256)"
    by (simp add: le_bytes_def div_mult2_eq del: upt_Suc)
  moreover have "unat (of_nat n :: u8) = n mod 256" by (simp add: unsigned_of_nat take_bit_eq_mod)
  moreover have "n div 256 < 256 ^ k" using Suc.prems by (simp add: less_mult_imp_div_less mult.commute)
  ultimately show ?case using Suc.IH [of "n div 256"] by (simp add: le_num_def)
qed (simp add: le_num_def le_bytes_def)

lemma write_output_ok:
  assumes "chain best (lzma_state_init data \<lparr> prop_lc = 0, prop_lp = 0, prop_pb = 0 \<rparr>)" "length data \<le> 0x400000"
  shows "\<exists>out. write_output (lzma_state_init data \<lparr> prop_lc = 0, prop_lp = 0, prop_pb = 0 \<rparr>) best = Some out \<and> lzma_decode out = Some data"
proof -
  let ?i = "lzma_state_init data \<lparr> prop_lc = 0, prop_lp = 0, prop_pb = 0 \<rparr>"
  have i: "state_ok ?i" "sdata ?i = data" "decoder_of ?i = dec_start"
    using state_ok_init [of data] assms(2) by (simp_all add: decoder_of_init) (simp add: lzma_state_init_def)
  obtain es st where E: "encode_all best ?i = Some (es, st)" "list_all call_ok es" "sdata st = data" "position st = length data"
    "follows range_reads (dec_stream range_source (length data) dec_start) es (\<lambda>r. Some (decoder_of st, r))"
    using coded.all_steps [OF assms(1) i(1)] by (auto simp: i)
  obtain e where e: "range_calls range_encoder_new es = Some e" using calls_step [OF enc_ok_new E(2)] by blast
  let ?F = "range_encoder_free e"
  note s = range_start_decoder [OF E(2) e]
  obtain r where r: "dec_stream range_source (length data) dec_start (decoder_at range_encoder_new ?F) = Some (decoder_of st, r)"
    "range_reads r []" using E(5) s(2) unfolding follows_def by (metis append_Nil2)
  have w: "written (decoder_of st) = data" using E(3,4) by (simp add: decoder_of_def)
  let ?h = "lzma_encode_header ?i"
  have n: "length data mod 2 ^ 32 = length data" using assms(2) by simp
  have h: "?h = 0 # le_bytes 4 0x400000 @ le_bytes 8 (length data)"
    using n by (simp add: lzma_encode_header_def lzma_encode_header_properties_def lzma_state_init_def)
  have l: "length ?h = 13" unfolding h by simp
  have d: "le_num (take 4 (drop 1 (?h @ ?F))) = 0x400000" "le_num (take 8 (drop 5 (?h @ ?F))) = length data"
    unfolding h using assms(2) le_num_bytes [of "0x400000" 4] le_num_bytes [of "length data" 8] by simp_all
  have z: "(?h @ ?F) ! 0 = 0" unfolding h by simp
  have "drop 13 (?h @ ?F) = ?F" using l by simp
  then have "lzma_decode (?h @ ?F) = Some data"
    using s(1) r range_reads_end [OF r(2)] w assms(2) l z unfolding lzma_decode_def Let_def d by simp
  then show ?thesis using E(1) e by (simp add: write_output_def)
qed

section \<open>The search keeps a valid slab\<close>

definition anneal_ok :: "LZMAState \<Rightarrow> annealing \<Rightarrow> bool" where
  "anneal_ok init a \<longleftrightarrow> search_ok init (a_finder a) (a_packets a) \<and> search_ok init (a_finder a) (a_best a)"

lemma search_ok_finder: "search_ok init f sl \<Longrightarrow> search_ok init g sl' \<Longrightarrow> search_ok init g sl"
  by (simp add: search_ok_def)

lemma anneal_step_ok:
  assumes "anneal_ok init a"
  shows "\<exists>ok nb f rs. packet_slab_neighbour_generate init (a_finder a) (packet_slab_neighbour_new (a_packets a)) (a_rand a) = Some (ok, nb, f, rs) \<and>
    (if ok then accepts step iters i (rs 0) = None \<and> anneal_step init step iters i a = None \<or>
       (\<exists>a'. anneal_step init step iters i a = Some (True, a') \<and> anneal_ok init a' \<and> a_rand a' = (\<lambda>i. rs (Suc i)))
     else anneal_step init step iters i a = Some (False, a\<lparr> a_finder := f, a_rand := rs \<rparr>) \<and>
       anneal_ok init (a\<lparr> a_finder := f, a_rand := rs \<rparr>))"
proof -
  have a: "search_ok init (a_finder a) (a_packets a)" "search_ok init (a_finder a) (a_best a)"
    using assms by (simp_all add: anneal_ok_def)
  let ?nb = "packet_slab_neighbour_new (a_packets a)"
  obtain ok nb f rs where g: "packet_slab_neighbour_generate init (a_finder a) ?nb (a_rand a) = Some (ok, nb, f, rs)"
    "search_ok init f (slab nb)" "leads_back (undo_stack nb) (slab nb) (a_packets a)" "\<not> ok \<longrightarrow> slab nb = a_packets a"
    using generate_ok [of init "a_finder a" ?nb "a_packets a" "a_rand a"] a(1) leads_back_new [of "a_packets a"] by auto
  note old = search_ok_finder [OF a(1) g(2)] search_ok_finder [OF a(2) g(2)]
  have undo: "packet_slab_neighbour_undo nb = Some (nb\<lparr> slab := a_packets a, undo_stack := packet_slab_undo_stack_new \<rparr>)"
    using leads_back_apply [OF g(3)] by (cases nb) (simp add: packet_slab_neighbour_undo_def)
  show ?thesis
  proof (cases ok)
    case False
    then have "slab nb = a_packets a" using g(4) by simp
    then have "anneal_step init step iters i a = Some (False, a\<lparr> a_finder := f, a_rand := rs \<rparr>)"
      using g(1) False by (cases a) (simp add: anneal_step_def)
    moreover have "anneal_ok init (a\<lparr> a_finder := f, a_rand := rs \<rparr>)" using old by (simp add: anneal_ok_def)
    ultimately show ?thesis using g(1) False by (intro exI [of _ False] exI [of _ nb] exI [of _ f] exI [of _ rs]) simp
  next
    case True
    show ?thesis
    proof (cases "accepts step iters i (rs 0)")
      case None
      then have "anneal_step init step iters i a = None" using g(1) True by (simp add: anneal_step_def rand_def)
      then show ?thesis using g(1) True None by (intro exI [of _ True] exI [of _ nb] exI [of _ f] exI [of _ rs]) simp
    next
      case (Some t)
      then have "\<exists>a'. anneal_step init step iters i a = Some (True, a') \<and> anneal_ok init a' \<and> a_rand a' = (\<lambda>i. rs (Suc i))"
        using g(1,2) True old undo
        by (cases "a_current a = 0 \<or> perplexity nb < a_current a \<or> t"; cases "a_best_perplexity a = 0 \<or> perplexity nb < a_best_perplexity a")
          (simp_all add: anneal_step_def rand_def anneal_ok_def Let_def)
      then show ?thesis using g(1) True by (intro exI [of _ True] exI [of _ nb] exI [of _ f] exI [of _ rs]) simp
    qed
  qed
qed

lemma anneal_loop_ok:
  assumes ret: "anneal_loop init step iters i a = Some a'" and ok: "anneal_ok init a"
  shows "anneal_ok init a'"
proof -
  have "anneal_ok init a \<longrightarrow> anneal_ok init a'"
  proof (rule anneal_loop.raw_induct [where P = "\<lambda>init step iters i a r. anneal_ok init a \<longrightarrow> anneal_ok init r", OF _ ret], rule impI)
    fix f :: "LZMAState \<Rightarrow> nat \<Rightarrow> nat \<Rightarrow> nat \<Rightarrow> annealing \<Rightarrow> annealing option" and init step iters i a a'
    assume IH: "\<And>init step iters i a a'. f init step iters i a = Some a' \<Longrightarrow> anneal_ok init a \<longrightarrow> anneal_ok init a'"
      and eq: "(if i < iters then do { (ok, a) \<leftarrow> anneal_step init step iters i a; f init step iters (if ok then i + 1 else i) a } else Some a) = Some a'"
      and a: "anneal_ok init a"
    show "anneal_ok init a'"
    proof (cases "i < iters")
      case True
      then obtain ok b where b: "anneal_step init step iters i a = Some (ok, b)" "f init step iters (if ok then i + 1 else i) b = Some a'"
        using eq by (auto simp: bind_eq_Some_conv)
      have "anneal_ok init b" using anneal_step_ok [OF a, of step iters i] b(1) by (auto split: if_splits)
      then show ?thesis using IH [OF b(2)] by simp
    qed (use eq a in simp)
  qed
  then show ?thesis using ok by simp
qed

lemma finder_new_ok: "packet_enumerator_new data = Some (Some em) \<Longrightarrow> 0 < length data \<Longrightarrow> length data \<le> 2 ^ 32 \<Longrightarrow>
  length entry_block = 20 \<Longrightarrow> length heap_block = 20 \<Longrightarrow>
  search_ok (lzma_state_init data props) (top_k_packet_finder_new entry_block heap_block em) (packet_slab_new (length data))"
  by (rule search_ok_new [of data em 20]) simp_all

text \<open>An epoch starts from the literals or from the best slab.\<close>

lemma epoch_start_ok:
  assumes "search_ok (lzma_state_init data props) (a_finder a) (a_best a)"
  shows "anneal_ok (lzma_state_init data props)
    (a\<lparr> a_packets := (if step \<noteq> 0 then a_best a else packet_slab_new (length data)), a_current := 0 \<rparr>)"
proof -
  have f: "finder_for data (a_finder a)" "0 < length data" "length data \<le> 2 ^ 32"
    using assms by (simp_all add: search_ok_def lzma_state_init_def)
  have "search_ok (lzma_state_init data props) (a_finder a) (packet_slab_new (length data))"
    using f by (intro search_ok_literals) (simp_all add: packet_slab_new_def)
  then show ?thesis using assms by (simp add: anneal_ok_def)
qed

lemma epochs_ok:
  "epochs (lzma_state_init data props) step n a = Some a' \<Longrightarrow> search_ok (lzma_state_init data props) (a_finder a) (a_best a) \<Longrightarrow>
   search_ok (lzma_state_init data props) (a_finder a') (a_best a')"
proof (induction n arbitrary: a)
  case (Suc n)
  let ?i = "lzma_state_init data props"
  have d: "sdata ?i = data" by (simp add: lzma_state_init_def)
  obtain b where b: "anneal_loop ?i step (num_iters data) 0
      (a\<lparr> a_packets := (if step \<noteq> 0 then a_best a else packet_slab_new (length data)), a_current := 0 \<rparr>) = Some b"
    "epochs ?i step n b = Some a'" using Suc.prems(1) by (auto simp: d bind_eq_Some_conv split: if_splits)
  have "anneal_ok ?i b" by (rule anneal_loop_ok [OF b(1) epoch_start_ok [OF Suc.prems(2)]])
  then show ?case using Suc.IH [OF b(2)] by (simp add: anneal_ok_def)
qed simp

text \<open>The input of the search: the blocks have the sizes that \<open>top_k_packet_finder_new\<close> allocates for 20 entries.\<close>

definition annealing_start :: "bytes \<Rightarrow> TopKEntry list \<Rightarrow> nat list \<Rightarrow> SubstringEnumerator \<Rightarrow> rand_src \<Rightarrow> annealing" where
  "annealing_start data entry_block heap_block em rs =
    \<lparr> a_packets = [], a_best = packet_slab_new (length data), a_current = 0, a_best_perplexity = 0,
      a_finder = top_k_packet_finder_new entry_block heap_block em, a_rand = rs \<rparr>"

lemma megalania_unfold:
  assumes "packet_enumerator_new data = Some (Some em)" "data \<noteq> []"
  shows "megalania data entry_block heap_block rs =
    do { a \<leftarrow> anneal (lzma_state_init data \<lparr> prop_lc = 0, prop_lp = 0, prop_pb = 0 \<rparr>) (annealing_start data entry_block heap_block em rs);
         write_output (lzma_state_init data \<lparr> prop_lc = 0, prop_lp = 0, prop_pb = 0 \<rparr>) (a_best a) }"
  using assms by (simp add: megalania_def annealing_start_def Let_def)

lemma megalania_ok:
  assumes "length entry_block = 20" "length heap_block = 20" "data \<noteq> []" "length data \<le> 0x400000"
    "anneal (lzma_state_init data \<lparr> prop_lc = 0, prop_lp = 0, prop_pb = 0 \<rparr>) (annealing_start data entry_block heap_block em rs) = Some a"
    "packet_enumerator_new data = Some (Some em)"
  shows "\<exists>out. megalania data entry_block heap_block rs = Some out \<and> lzma_decode out = Some data"
proof -
  let ?i = "lzma_state_init data \<lparr> prop_lc = 0, prop_lp = 0, prop_pb = 0 \<rparr>"
  have "search_ok ?i (a_finder (annealing_start data entry_block heap_block em rs)) (a_best (annealing_start data entry_block heap_block em rs))"
    using finder_new_ok [OF assms(6)] assms(1-4) by (simp add: annealing_start_def)
  moreover obtain a1 a2 where "epochs ?i 0 num_epochs (annealing_start data entry_block heap_block em rs) = Some a1"
    "epochs ?i 1 num_epochs a1 = Some a2" "epochs ?i 2 num_epochs a2 = Some a"
    using assms(5) by (auto simp: anneal_def bind_eq_Some_conv)
  ultimately have "search_ok ?i (a_finder a) (a_best a)" using epochs_ok by blast
  then have "chain (a_best a) ?i" by (simp add: search_ok_def)
  then show ?thesis using write_output_ok [OF _ assms(4)] megalania_unfold [OF assms(6,3)] assms(5) by simp
qed

end
