(* ===== verification/Mega_Live.thy ===== *)
theory Mega_Live
  imports Mega_Main
begin

text \<open>
  What \<open>megalania\<close> gives on a whole run: its output decodes to the file, it never ends on a file that has no
  two equal bytes, and it ends on files that begin with two equal ones for a source of random numbers that is
  constant.
\<close>

section \<open>A file with no two equal bytes\<close>

lemma distinct_no_repeats: "distinct data \<Longrightarrow> 0 < n \<Longrightarrow> pos + n \<le> length data \<Longrightarrow> d < pos \<Longrightarrow> \<not> repeats data pos d n"
  unfolding repeats_def by (auto intro!: exI [of _ 0] simp: nth_eq_iff_index_eq)

lemma distinct_no_alternative:
  assumes "state_ok st" "distinct (sdata st)" "sl ! position st = literal_packet"
  shows "\<not> alternative st sl"
proof -
  have "p = literal_packet" if p: "packet_ok st p" "canonical p" for p
  proof (cases "ptype p")
    case LITERAL
    then show ?thesis using p by (cases p) (simp add: packet_ok_simps canonical_def literal_packet_def)
  next
    case MATCH
    then show ?thesis using p distinct_no_repeats [OF assms(2), of "plen p" "position st" "dist p"] by (simp add: packet_ok_simps)
  next
    case SHORT_REP
    then show ?thesis using p distinct_no_repeats [OF assms(2), of 1 "position st" "dists st ! 0"] dists_bound [OF assms(1), of 0]
      by (simp add: packet_ok_simps del: One_nat_def)
  next
    case LONG_REP
    then show ?thesis using p distinct_no_repeats [OF assms(2), of "plen p" "position st" "dists st ! dist p"] dists_bound [OF assms(1), of "dist p"]
      by (simp add: packet_ok_simps)
  qed (use p in \<open>simp add: packet_ok_simps\<close>)
  then show ?thesis using assms(3) by (auto simp: alternative_def)
qed

lemma resize_literals:
  "position st + 1 < length (slab nb) \<Longrightarrow> slab nb ! position st = literal_packet \<Longrightarrow> slab nb ! (position st + 1) = literal_packet \<Longrightarrow>
   resize_packet st nb = Some None"
  by (simp add: resize_packet_def mem_get_nth literal_packet_def)

text \<open>With a slab of literals no pass of the loop succeeds.\<close>

definition all_literal :: "LZMAState \<Rightarrow> annealing \<Rightarrow> bool" where
  "all_literal init a \<longleftrightarrow> anneal_ok init a \<and> (\<forall>i < length (sdata init). a_packets a ! i = literal_packet)"

lemma literal_step_fails:
  assumes "all_literal init a" "distinct (sdata init)"
  shows "\<exists>a'. anneal_step init step iters i a = Some (False, a') \<and> all_literal init a'"
proof -
  have a: "anneal_ok init a" "\<And>i. i < length (sdata init) \<Longrightarrow> a_packets a ! i = literal_packet" using assms(1) by (auto simp: all_literal_def)
  then have s: "search_ok init (a_finder a) (slab (packet_slab_neighbour_new (a_packets a)))" by (simp add: anneal_ok_def)
  let ?nb = "packet_slab_neighbour_new (a_packets a)"
  from generate_ok [OF s leads_back_new, of "a_rand a"]
  obtain ok nb f rs k st v where g: "packet_slab_neighbour_generate init (a_finder a) ?nb (a_rand a) = Some (ok, nb, f, rs)"
    "search_ok init f (slab nb)" "leads_back (undo_stack nb) (slab nb) (a_packets a)" "\<not> ok \<longrightarrow> slab nb = slab ?nb"
    "packet_slab_count (slab ?nb) = Some k" "0 < k" "encode_to_packet_number (slab ?nb) init (perplexity ?nb) (a_rand a 0 mod k) = Some (st, v)"
    "at_packet st" "sdata st = sdata init"
    "(position st + 1 < length (sdata st) \<and> a_rand a 1 mod 2 = 0 \<longrightarrow> resize_packet st (?nb\<lparr> perplexity := v \<rparr>) = Some None) \<longrightarrow>
      (ok \<longleftrightarrow> alternative st (slab ?nb))"
    by (elim exE conjE) (rule that)
  have st: "state_ok st" "position st < length (sdata init)" using g(8,9) by (simp_all add: at_packet_def)
  have len: "length (a_packets a) = length (sdata init)" using s by (simp add: search_ok_def slab_ok_length)
  have "\<not> alternative st (a_packets a)" using distinct_no_alternative [OF st(1)] assms(2) a(2) [OF st(2)] g(9) by simp
  moreover have "position st + 1 < length (sdata st) \<longrightarrow> resize_packet st (?nb\<lparr> perplexity := v \<rparr>) = Some None"
    using resize_literals [of st "?nb\<lparr> perplexity := v \<rparr>"] a(2) len g(9) st(2) by simp
  ultimately have "\<not> ok" using g(10) by simp
  then have e: "anneal_step init step iters i a = Some (False, a\<lparr> a_packets := slab nb, a_finder := f, a_rand := rs \<rparr>)"
    using g(1) by (simp add: anneal_step_def)
  have "slab nb = a_packets a" using g(4) \<open>\<not> ok\<close> by simp
  moreover from anneal_step_ok [OF a(1), of step iters i] have "anneal_ok init (a\<lparr> a_finder := f, a_rand := rs \<rparr>)"
    using g(1) \<open>\<not> ok\<close> by (auto split: if_splits)
  ultimately show ?thesis using e a(2) by (simp add: all_literal_def)
qed

text \<open>The loop after a number of passes: its counter and its state.\<close>

fun anneal_passes :: "LZMAState \<Rightarrow> nat \<Rightarrow> nat \<Rightarrow> nat \<Rightarrow> nat \<Rightarrow> annealing \<Rightarrow> (nat \<times> annealing) option" where
  "anneal_passes init step iters 0 i a = Some (i, a)"
| "anneal_passes init step iters (Suc n) i a =
    do { (ok, a) \<leftarrow> anneal_step init step iters i a; anneal_passes init step iters n (if ok then i + 1 else i) a }"

lemma literal_passes: "all_literal init a \<Longrightarrow> distinct (sdata init) \<Longrightarrow> \<exists>a'. anneal_passes init step iters n i a = Some (i, a')"
proof (induction n arbitrary: a)
  case (Suc n)
  obtain b where "anneal_step init step iters i a = Some (False, b)" "all_literal init b"
    using literal_step_fails [OF Suc.prems] by blast
  then show ?case using Suc.IH Suc.prems(2) by simp
qed simp

lemma literal_loop_hangs:
  assumes "i < iters" "all_literal init a" "distinct (sdata init)"
  shows "anneal_loop init step iters i a = None"
proof (rule ccontr)
  assume "anneal_loop init step iters i a \<noteq> None"
  then obtain r where ret: "anneal_loop init step iters i a = Some r" by blast
  have "\<not> (i < iters \<and> all_literal init a \<and> distinct (sdata init))"
  proof (rule anneal_loop.raw_induct [where P = "\<lambda>init step iters i a r. \<not> (i < iters \<and> all_literal init a \<and> distinct (sdata init))", OF _ ret],
      rule notI, elim conjE)
    fix f :: "LZMAState \<Rightarrow> nat \<Rightarrow> nat \<Rightarrow> nat \<Rightarrow> annealing \<Rightarrow> annealing option" and init step iters i a a'
    assume IH: "\<And>init step iters i a a'. f init step iters i a = Some a' \<Longrightarrow> \<not> (i < iters \<and> all_literal init a \<and> distinct (sdata init))"
      and eq: "(if i < iters then do { (ok, a) \<leftarrow> anneal_step init step iters i a; f init step iters (if ok then i + 1 else i) a } else Some a) = Some a'"
      and i: "i < iters" and a: "all_literal init a" and d: "distinct (sdata init)"
    obtain b where "anneal_step init step iters i a = Some (False, b)" "all_literal init b" using literal_step_fails [OF a d] by blast
    then show False using eq i d IH [of init step iters i b a'] by simp
  qed
  then show False using assms by blast
qed

section \<open>A constant source of random numbers\<close>

lemma rand_const [simp]: "rand (\<lambda>_. c) = (c, \<lambda>_. c)"
  by (simp add: rand_def)

lemma rand_max_loop_const: "rand_max_loop cnt rnd n (\<lambda>_. c) = (x, rs) \<Longrightarrow> rs = (\<lambda>_. c)"
  by (induction n arbitrary: rnd) simp_all

lemma rand_max_dist_const: "rand_max_dist cnt n (\<lambda>_. c) = (x, rs) \<Longrightarrow> rs = (\<lambda>_. c)"
  using rand_max_loop_const by (simp add: rand_max_dist_def)

lemma pick_const: "pick_random_next_packet_from_top_k st f nb best (\<lambda>_. c) = Some (ok, nb', f', rs') \<Longrightarrow> rs' = (\<lambda>_. c)"
  by (auto simp: pick_random_next_packet_from_top_k_def Let_def bind_eq_Some_conv dest!: rand_max_dist_const split: prod.splits if_splits)

lemma mutate_const: "mutate_next_packet st f nb (\<lambda>_. c) = Some (ok, nb', f', rs') \<Longrightarrow> rs' = (\<lambda>_. c)"
  by (auto simp: mutate_next_packet_def Let_def bind_eq_Some_conv dest: pick_const split: prod.splits if_splits option.splits)

lemma repair_packet_const: "repair_packet st cnt f nb (\<lambda>_. c) = Some (nb', f', rs') \<Longrightarrow> rs' = (\<lambda>_. c)"
  by (auto simp: repair_packet_def repair_long_rep_def Let_def bind_eq_Some_conv dest: pick_const split: prod.splits if_splits option.splits)

lemma repair_remaining_const:
  assumes ret: "repair_remaining_packets st cnt f nb (\<lambda>_. c) = Some r"
  shows "snd (snd r) = (\<lambda>_. c)"
proof -
  have "rs = (\<lambda>_. c) \<longrightarrow> snd (snd r) = (\<lambda>_. c)" if "repair_remaining_packets st cnt f nb rs = Some r" for rs
  proof (rule repair_remaining_packets.raw_induct [where P = "\<lambda>st cnt f nb rs r. rs = (\<lambda>_. c) \<longrightarrow> snd (snd r) = (\<lambda>_. c)", OF _ that], rule impI)
    fix g :: "LZMAState \<Rightarrow> nat \<Rightarrow> TopKPacketFinder \<Rightarrow> PacketSlabNeighbour \<Rightarrow> rand_src \<Rightarrow> (PacketSlabNeighbour \<times> TopKPacketFinder \<times> rand_src) option"
      and st cnt f nb rs r
    assume IH: "\<And>st cnt f nb rs r. g st cnt f nb rs = Some r \<Longrightarrow> rs = (\<lambda>_. c) \<longrightarrow> snd (snd r) = (\<lambda>_. c)"
      and eq: "(if position st < length (sdata st) then do {
         (nb, f, rs) \<leftarrow> repair_packet st (cnt + 1) f nb rs;
         p \<leftarrow> mem_get (slab nb) (position st);
         (st, perp) \<leftarrow> encode_perplexity st (perplexity nb) p;
         g st (cnt + 1) f (nb\<lparr> perplexity := perp \<rparr>) rs } else Some (nb, f, rs)) = Some r" and rs: "rs = (\<lambda>_. c)"
    show "snd (snd r) = (\<lambda>_. c)"
      using eq unfolding rs by (auto simp: bind_eq_Some_conv dest!: repair_packet_const IH split: if_splits)
  qed
  then show ?thesis using ret by blast
qed

lemma generate_const: "packet_slab_neighbour_generate init f nb (\<lambda>_. c) = Some (ok, nb', f', rs') \<Longrightarrow> rs' = (\<lambda>_. c)"
  by (auto simp: packet_slab_neighbour_generate_def Let_def bind_eq_Some_conv dest!: mutate_const repair_remaining_const split: prod.splits if_splits)

text \<open>The first packet of a slab is a literal, and two equal bytes leave a choice for the second.\<close>

lemma second_packet:
  assumes "search_ok init f sl" "dists init = [0, 0, 0, 0]" "2 \<le> length (sdata init)" "sdata init ! 0 = sdata init ! 1"
  shows "\<exists>k st w. packet_slab_count sl = Some k \<and> 2 \<le> k \<and> encode_to_packet_number sl init v 1 = Some (st, w) \<and> alternative st sl"
proof -
  let ?p = "sl ! 0"
  have i: "state_ok init" "position init = 0" "chain sl init" "slab_ok (sdata init) sl" using assms(1) by (simp_all add: search_ok_def)
  have len: "length sl = length (sdata init)" by (rule slab_ok_length [OF i(4)])
  obtain es st where c: "packet_ok init ?p" "lzma_encode_packet init ?p = Some (es, st)" "chain sl st"
    using chainE [OF i(3)] assms(3) i(2) by fastforce
  have p: "ptype ?p = LITERAL" "plen ?p = 1" using c(1) i(2) by (cases "ptype ?p"; simp add: packet_ok_simps)+
  have st: "state_ok st" "sdata st = sdata init" "position st = 1" "list_all call_ok es"
    using encode_packet_advances [OF i(1) c(1)] c(2) p(2) i(2) by auto
  have "dists st = [0, 0, 0, 0]" using single_dists [OF c(2)] p(1) assms(2) by simp
  then have s: "packet_ok st short_rep_packet" "packet_ok st literal_packet"
    using assms(3,4) st(2,3) by (simp_all add: packet_ok_simps short_rep_packet_def literal_packet_def repeats_def)
  have alt: "alternative st sl"
  proof (cases "sl ! position st = literal_packet")
    case True
    then have "short_rep_packet \<noteq> sl ! position st" by (simp add: short_rep_packet_def literal_packet_def)
    then show ?thesis using s(1) unfolding alternative_def by (intro exI [of _ short_rep_packet]) (simp add: canonical_def short_rep_packet_def)
  next
    case False
    then show ?thesis using s(2) unfolding alternative_def by (intro exI [of _ literal_packet]) (simp add: canonical_def literal_packet_def)
  qed
  obtain k where k: "slab_count_loop sl 1 1 = Some (1 + k)" "0 < k"
    using slab_count_ok [OF c(3) st(1), of 1] len st(2,3) assms(3) by auto
  have "packet_slab_count sl = Some (1 + k)"
    unfolding packet_slab_count_def using k(1) p(2) len assms(3) by (subst slab_count_loop.simps) auto
  moreover obtain w where "perplexity_calls v es = Some w" using perplexity_calls_defined [OF st(4)] by blast
  then have "encode_to_packet_number sl init v (Suc 0) = Some (st, w)"
    using c(2) i(2) assms(3) len by (auto simp: mem_get_nth encode_perplexity_def)
  ultimately show ?thesis using k(2) alt by (intro exI [of _ "1 + k"] exI [of _ st] exI [of _ w]) simp
qed

lemma accepts_defined:
  assumes "i < 46341" "iters \<le> 46341" "step \<le> 2"
  shows "accepts step iters i r \<noteq> None"
proof -
  have "i * i \<le> 46340 * 46340" using assms(1) by (intro mult_le_mono) simp_all
  then have i: "i * i + 1 < 2 ^ 31" by simp
  have s: "step * iters \<le> 2 * 46341" using assms(2,3) by (intro mult_le_mono) simp_all
  let ?q = "(step * iters) mod 2 ^ 32 div 2"
  have "(step * iters) mod 2 ^ 32 \<le> step * iters" by (rule mod_less_eq_dividend)
  then have "?q \<le> 46341" using s by simp
  then have "i * i + 1 + ?q < 2 ^ 32" using i by simp
  then have "(i * i + 1 + ?q) mod 2 ^ 32 = i * i + 1 + ?q" by (rule mod_less)
  then show ?thesis using i by (simp add: accepts_def Let_def)
qed

text \<open>Such a pass succeeds.\<close>

definition good_start :: "LZMAState \<Rightarrow> bool" where
  "good_start init \<longleftrightarrow> dists init = [0, 0, 0, 0] \<and> 2 \<le> length (sdata init) \<and> length (sdata init) \<le> 46341 \<and> sdata init ! 0 = sdata init ! 1"

lemma one_step_succeeds:
  assumes "anneal_ok init a" "good_start init" "a_rand a = (\<lambda>_. 1)" "i < 46341" "iters \<le> 46341" "step \<le> 2"
  shows "\<exists>a'. anneal_step init step iters i a = Some (True, a') \<and> anneal_ok init a' \<and> a_rand a' = (\<lambda>_. 1)"
proof -
  let ?nb = "packet_slab_neighbour_new (a_packets a)"
  have s: "search_ok init (a_finder a) (slab ?nb)" using assms(1) by (simp add: anneal_ok_def)
  obtain k st w where c: "packet_slab_count (slab ?nb) = Some k" "2 \<le> k"
    "encode_to_packet_number (slab ?nb) init (perplexity ?nb) 1 = Some (st, w)" "alternative st (slab ?nb)"
    using second_packet [OF s] assms(2) unfolding good_start_def by blast
  from generate_ok [OF s leads_back_new, of "a_rand a"]
  obtain ok nb f rs k' st' v where g: "packet_slab_neighbour_generate init (a_finder a) ?nb (a_rand a) = Some (ok, nb, f, rs)"
    "search_ok init f (slab nb)" "leads_back (undo_stack nb) (slab nb) (a_packets a)" "\<not> ok \<longrightarrow> slab nb = slab ?nb"
    "packet_slab_count (slab ?nb) = Some k'" "0 < k'" "encode_to_packet_number (slab ?nb) init (perplexity ?nb) (a_rand a 0 mod k') = Some (st', v)"
    "at_packet st'" "sdata st' = sdata init"
    "(position st' + 1 < length (sdata st') \<and> a_rand a 1 mod 2 = 0 \<longrightarrow> resize_packet st' (?nb\<lparr> perplexity := v \<rparr>) = Some None) \<longrightarrow>
      (ok \<longleftrightarrow> alternative st' (slab ?nb))"
    by (elim exE conjE) (rule that)
  have "a_rand a 0 mod k' = 1" using c(1,2) g(5) assms(3) by simp
  then have "st' = st" using g(7) c(3) by simp
  then have ok: ok using g(10) c(4) assms(3) by simp
  have rs: "rs = (\<lambda>_. 1)" using generate_const [of init "a_finder a" ?nb 1 ok nb f rs] g(1) assms(3) by simp
  from anneal_step_ok [OF assms(1), of step iters i] show ?thesis
    using g(1) ok rs accepts_defined [OF assms(4-6), of 1] by auto
qed

lemma one_loop_ends:
  "anneal_ok init a \<Longrightarrow> good_start init \<Longrightarrow> a_rand a = (\<lambda>_. 1) \<Longrightarrow> iters \<le> 46341 \<Longrightarrow> step \<le> 2 \<Longrightarrow>
   \<exists>a'. anneal_loop init step iters i a = Some a' \<and> a_rand a' = (\<lambda>_. 1)"
proof (induction "iters - i" arbitrary: i a)
  case 0
  then show ?case by (subst anneal_loop.simps) simp
next
  case (Suc n)
  then have i: "i < 46341" "i < iters" by linarith+
  obtain b where b: "anneal_step init step iters i a = Some (True, b)" "anneal_ok init b" "a_rand b = (\<lambda>_. 1)"
    using one_step_succeeds [OF Suc.prems(1-3) i(1) Suc.prems(4,5)] by blast
  have "n = iters - (i + 1)" using Suc.hyps(2) by simp
  from Suc.hyps(1) [OF this b(2) Suc.prems(2) b(3) Suc.prems(4,5)] show ?case
    using b(1) i(2) by (subst anneal_loop.simps) simp
qed

lemma one_epochs_end:
  "search_ok (lzma_state_init data props) (a_finder a) (a_best a) \<Longrightarrow> good_start (lzma_state_init data props) \<Longrightarrow>
   a_rand a = (\<lambda>_. 1) \<Longrightarrow> step \<le> 2 \<Longrightarrow>
   \<exists>a'. epochs (lzma_state_init data props) step n a = Some a' \<and> a_rand a' = (\<lambda>_. 1) \<and>
     search_ok (lzma_state_init data props) (a_finder a') (a_best a')"
proof (induction n arbitrary: a)
  case (Suc n)
  let ?i = "lzma_state_init data props" and ?a = "a\<lparr> a_packets := (if step \<noteq> 0 then a_best a else packet_slab_new (length data)), a_current := 0 \<rparr>"
  have d: "sdata ?i = data" by (simp add: lzma_state_init_def)
  have n: "num_iters data = length data" "num_iters data \<le> 46341"
    using Suc.prems(2) by (simp_all add: good_start_def d num_iters_def)
  have ok: "anneal_ok ?i ?a" by (rule epoch_start_ok [OF Suc.prems(1)])
  have r: "a_rand ?a = (\<lambda>_. 1)" using Suc.prems(3) by simp
  obtain b where b: "anneal_loop ?i step (num_iters data) 0 ?a = Some b" "a_rand b = (\<lambda>_. 1)"
    using one_loop_ends [OF ok Suc.prems(2) r n(2) Suc.prems(4)] by blast
  have "anneal_ok ?i b" by (rule anneal_loop_ok [OF b(1) ok])
  then have "search_ok ?i (a_finder b) (a_best b)" by (simp add: anneal_ok_def)
  from Suc.IH [OF this Suc.prems(2) b(2) Suc.prems(4)] show ?case using b(1)
    unfolding epochs.simps d by (simp only: Option.bind_lunit)
qed simp

lemma one_anneal_ends:
  assumes "search_ok (lzma_state_init data props) (a_finder a) (a_best a)" "good_start (lzma_state_init data props)" "a_rand a = (\<lambda>_. 1)"
  shows "\<exists>a'. anneal (lzma_state_init data props) a = Some a'"
proof -
  let ?i = "lzma_state_init data props"
  obtain b where b: "epochs ?i 0 num_epochs a = Some b" "a_rand b = (\<lambda>_. 1)" "search_ok ?i (a_finder b) (a_best b)"
    using one_epochs_end [OF assms(1-3), of 0] by auto
  obtain c where c: "epochs ?i 1 num_epochs b = Some c" "a_rand c = (\<lambda>_. 1)" "search_ok ?i (a_finder c) (a_best c)"
    using one_epochs_end [OF b(3) assms(2) b(2), of 1] by auto
  obtain e where "epochs ?i 2 num_epochs c = Some e" using one_epochs_end [OF c(3) assms(2) c(2), of 2] by auto
  then show ?thesis using b(1) c(1) by (simp add: anneal_def)
qed

section \<open>The whole program\<close>

text \<open>C27. The compressor is correct: whatever values \<open>rand\<close> returns and whatever the memory of the finder holds at the
  start, if a run on a file of at most 4 MiB ends, the bytes that it writes are an LZMA file (the header of
  13 bytes and the range-coded packets of the best slab) that a decoder, written from the format, turns back into the file.\<close>

theorem megalania_output_decodes:
  assumes "length entry_block = 20" "length heap_block = 20" "data \<noteq> []" "length data \<le> 0x400000"
    "megalania data entry_block heap_block rs = Some out"
  shows "lzma_decode out = Some data"
proof -
  obtain em where em: "packet_enumerator_new data = Some (Some em)" using packet_enumerator_new_ok [of data] assms(4) by auto
  obtain a where "anneal (lzma_state_init data \<lparr> prop_lc = 0, prop_lp = 0, prop_pb = 0 \<rparr>) (annealing_start data entry_block heap_block em rs) = Some a"
    using assms(5) megalania_unfold [OF em assms(3)] by (auto simp: bind_eq_Some_conv)
  from megalania_ok [OF assms(1-4) this em] show ?thesis using assms(5) by simp
qed

lemma megalania_ends:
  assumes "length entry_block = 20" "length heap_block = 20" "2 \<le> length data" "length data \<le> 46341" "data ! 0 = data ! 1"
  shows "\<exists>out. megalania data entry_block heap_block (\<lambda>_. 1) = Some out \<and> lzma_decode out = Some data"
proof -
  obtain em where em: "packet_enumerator_new data = Some (Some em)" using packet_enumerator_new_ok [of data] assms(4) by auto
  let ?i = "lzma_state_init data \<lparr> prop_lc = 0, prop_lp = 0, prop_pb = 0 \<rparr>"
  let ?a = "annealing_start data entry_block heap_block em (\<lambda>_. 1)"
  have d: "data \<noteq> []" "length data \<le> 0x400000" using assms(3,4) by auto
  have "good_start ?i" using assms(3-5) by (simp add: good_start_def lzma_state_init_def)
  moreover have "search_ok ?i (a_finder ?a) (a_best ?a)"
    using finder_new_ok [OF em _ _ assms(1,2)] assms(4) d(1) by (simp add: annealing_start_def)
  ultimately obtain a where "anneal ?i ?a = Some a" using one_anneal_ends [of data _ ?a] by (auto simp: annealing_start_def)
  from megalania_ok [OF assms(1,2) d this em] show ?thesis .
qed

theorem megalania_output_decodes_witness:
  "\<exists>out. megalania [7, 7, 7] (replicate 20 \<lparr> packet = literal_packet, cost = 0 \<rparr>) (replicate 20 0) (\<lambda>_. 1) = Some out \<and>
    lzma_decode out = Some [7, 7, 7]"
proof -
  let ?e = "replicate 20 \<lparr> packet = literal_packet, cost = 0 \<rparr>" and ?h = "replicate 20 0 :: nat list"
  obtain out where "megalania [7, 7, 7] ?e ?h (\<lambda>_. 1) = Some out"
    using megalania_ends [of ?e ?h "[7, 7, 7]"] by auto
  then show ?thesis using megalania_output_decodes [of ?e ?h "[7, 7, 7]" "\<lambda>_. 1" out] by simp
qed

text \<open>C36. A run can hang: on a file with no two equal bytes (one of a single byte, say) no pass of the search loop ever succeeds, whatever
  \<open>rand\<close> returns, because no packet but the literal describes any byte. After any number of passes the loop's
  counter is still 0, and \<open>main\<close> never returns.\<close>

theorem megalania_hangs:
  assumes "length entry_block = 20" "length heap_block = 20" "data \<noteq> []" "distinct data"
  shows "megalania data entry_block heap_block rs = None \<and>
    (\<exists>em. packet_enumerator_new data = Some (Some em) \<and>
      (\<forall>n. \<exists>a. anneal_passes (lzma_state_init data \<lparr> prop_lc = 0, prop_lp = 0, prop_pb = 0 \<rparr>) 0 (num_iters data) n 0
        ((annealing_start data entry_block heap_block em rs)\<lparr> a_packets := packet_slab_new (length data), a_current := 0 \<rparr>) = Some (0, a)))"
proof -
  let ?i = "lzma_state_init data \<lparr> prop_lc = 0, prop_lp = 0, prop_pb = 0 \<rparr>"
  have d: "sdata ?i = data" by (simp add: lzma_state_init_def)
  have "length data \<le> card (UNIV :: u8 set)" using assms(4) by (metis card_mono distinct_card finite subset_UNIV)
  then have n: "length data \<le> 256" by (simp add: card_word)
  obtain em where em: "packet_enumerator_new data = Some (Some em)" using packet_enumerator_new_ok [of data] n by auto
  let ?a = "annealing_start data entry_block heap_block em rs"
  let ?b = "?a\<lparr> a_packets := packet_slab_new (length data), a_current := 0 \<rparr>"
  have "search_ok ?i (a_finder ?a) (a_best ?a)"
    using finder_new_ok [OF em] assms(1-3) n by (simp add: annealing_start_def)
  from epoch_start_ok [OF this, of 0] have "anneal_ok ?i ?b" by simp
  then have lit: "all_literal ?i ?b" by (simp add: all_literal_def d packet_slab_new_def)
  have "num_iters data = length data" using n by (simp add: num_iters_def)
  then have i: "0 < num_iters data" using assms(3) by simp
  have dist: "distinct (sdata ?i)" using assms(4) d by simp
  have "epochs ?i 0 (Suc m) ?a = None" for m using literal_loop_hangs [OF i lit dist, of 0] by (simp add: d)
  from this [of 199] have "epochs ?i 0 num_epochs ?a = None" by (simp add: num_epochs_def)
  then have "megalania data entry_block heap_block rs = None"
    using megalania_unfold [OF em assms(3)] by (simp add: anneal_def)
  moreover have "\<exists>a. anneal_passes ?i 0 (num_iters data) n 0 ?b = Some (0, a)" for n
    by (rule literal_passes [OF lit dist])
  ultimately show ?thesis using em by blast
qed

theorem megalania_hangs_witness:
  "megalania [42] (replicate 20 \<lparr> packet = literal_packet, cost = 0 \<rparr>) (replicate 20 0) (\<lambda>n. n) = None"
  using megalania_hangs [of "replicate 20 \<lparr> packet = literal_packet, cost = 0 \<rparr>" "replicate 20 0" "[42]" "\<lambda>n. n"] by simp

end
