(* ===== verification/M17_Soft.thy ===== *)
theory M17_Soft
  imports Prelude_C
begin

unbundle bit_operations_syntax

text \<open>
  The fixed-point arithmetic of \<open>libm17\<close> (\<open>math/math.c\<close>): soft bits, sixteen-bit values between 0 and \<open>0xFFFF\<close>
  for a bit that is more or less sure, their exclusive or, and the conversion of words to and from vectors of them.
  The bounds on \<open>near\<close> sure bits are what the Golay and the Viterbi decoder rest on.
\<close>

section \<open>Model\<close>

definition q_abs_diff :: "nat \<Rightarrow> nat \<Rightarrow> nat" where
  "q_abs_diff v1 v2 = (if v2 > v1 then v2 - v1 else v1 - v2)"

definition add16 :: "nat \<Rightarrow> nat \<Rightarrow> nat" where
  "add16 a b = (if a + b \<le> 0xFFFF then a + b else 0xFFFF)"

definition sub16 :: "nat \<Rightarrow> nat \<Rightarrow> nat" where
  "sub16 a b = (if a \<ge> b then a - b else 0)"

definition mul16 :: "nat \<Rightarrow> nat \<Rightarrow> nat" where
  "mul16 a b = (a * b mod 2 ^ 32) div 2 ^ 16"

definition soft_bit_XOR :: "nat \<Rightarrow> nat \<Rightarrow> nat" where
  "soft_bit_XOR a b = add16 (mul16 a (sub16 0xFFFF b)) (mul16 b (sub16 0xFFFF a))"

definition soft_bit_NOT :: "nat \<Rightarrow> nat" where
  "soft_bit_NOT a = 0xFFFF - a"

definition soft_XOR :: "nat list \<Rightarrow> nat list \<Rightarrow> nat \<Rightarrow> nat list" where
  "soft_XOR a b len = map (\<lambda>i. soft_bit_XOR (a ! i) (b ! i)) [0..<len]"

definition int_to_soft :: "u16 \<Rightarrow> nat \<Rightarrow> nat list" where
  "int_to_soft w len = map (\<lambda>i. if bit w i then 0xFFFF else 0) [0..<len]"

definition soft_to_int :: "nat list \<Rightarrow> nat \<Rightarrow> u16" where
  "soft_to_int vs len = fold (\<lambda>i tmp. if vs ! i > 0x7FFF then tmp OR push_bit i 1 else tmp) [0..<len] 0"

text \<open>A division by zero has no result.\<close>

definition div16 :: "nat \<Rightarrow> nat \<Rightarrow> nat option" where
  "div16 a b = (if b = 0 then None else Some (let r = (a * 2 ^ 16) div b in if r \<le> 0xFFFF then r else 0xFFFF))"

text \<open>The bits of a byte, the most significant first, each in a byte of its own.\<close>

definition unpack :: "u8 \<Rightarrow> bytes" where
  "unpack b = map (\<lambda>j. drop_bit (7 - j) b AND 1) [0..<8]"

section \<open>Nearly sure bits\<close>

text \<open>A value within \<open>t\<close> of the sure bit, and a vector of such values for the low bits of a word.\<close>

definition near :: "nat \<Rightarrow> bool \<Rightarrow> nat \<Rightarrow> bool" where
  "near t b v \<longleftrightarrow> v \<le> 0xFFFF \<and> (if b then 0xFFFF \<le> v + t else v \<le> t)"

definition noisy :: "nat \<Rightarrow> 'a::len word \<Rightarrow> nat \<Rightarrow> nat list \<Rightarrow> bool" where
  "noisy t w n vs \<longleftrightarrow> length vs = n \<and> (\<forall>i < n. near t (bit w i) (vs ! i))"

lemma near_mono: "near s b v \<Longrightarrow> s \<le> t \<Longrightarrow> near t b v"
  by (auto simp: near_def split: if_splits)

lemma near_sure [simp]: "near t b (if b then 0xFFFF else 0)"
  by (simp add: near_def)

lemma near_half: "near t b v \<Longrightarrow> t < 0x7FFF \<Longrightarrow> v > 0x7FFF \<longleftrightarrow> b"
  by (auto simp: near_def split: if_splits)

lemma mul16_eq: "a \<le> 0xFFFF \<Longrightarrow> b \<le> 0xFFFF \<Longrightarrow> mul16 a b = a * b div 65536"
proof -
  assume "a \<le> 0xFFFF" "b \<le> 0xFFFF"
  then have "a * b \<le> 0xFFFF * 0xFFFF" by (rule mult_le_mono)
  then show ?thesis by (simp add: mul16_def)
qed

lemma mul16_low:
  assumes "a \<le> 0xFFFF" "b \<le> 0xFFFF"
  shows "mul16 a b \<le> a" "mul16 a b \<le> b"
proof -
  have "a * b \<le> a * 65536" "a * b \<le> b * 65536" using assms by (simp_all add: mult.commute mult_le_mono)
  then show "mul16 a b \<le> a" "mul16 a b \<le> b"
    using div_le_mono [of "a * b" "a * 65536" 65536] div_le_mono [of "a * b" "b * 65536" 65536] by (simp_all add: mul16_eq [OF assms])
qed

lemma mul16_high:
  assumes "a + s = 0xFFFF" "b + t = 0xFFFF"
  shows "0xFFFF \<le> mul16 a b + (s + t + 1)"
proof (cases "s + t + 1 \<le> 0xFFFF")
  case True
  have a: "int a = 65535 - int s" "int b = 65535 - int t" using assms by linarith+
  have "int (0xFFFF - (s + t + 1)) * 65536 \<le> int a * int b"
  proof -
    have "int a * int b = 65534 * 65536 + 1 - 65535 * (int s + int t) + int s * int t" unfolding a by (simp add: algebra_simps)
    moreover have "int (0xFFFF - (s + t + 1)) = 65534 - (int s + int t)" using True by simp
    moreover have "0 \<le> int s * int t" by simp
    moreover have "D * 65536 \<le> P" if "P = 65534 * 65536 + 1 - 65535 * x + Q" "D = 65534 - x" "0 \<le> Q" "0 \<le> x" for D P Q x :: int
      using that by linarith
    ultimately show ?thesis by (metis of_nat_0_le_iff of_nat_add)
  qed
  then have "(0xFFFF - (s + t + 1)) * 65536 \<le> a * b" by (metis of_nat_le_iff of_nat_mult of_nat_numeral)
  then have "(0xFFFF - (s + t + 1)) * 65536 div 65536 \<le> a * b div 65536" by (rule div_le_mono)
  then show ?thesis using assms by (simp add: mul16_eq)
qed simp

lemma soft_bit_XOR_near:
  assumes "near s x a" "near t y b"
  shows "near (s + t + 1) (x \<noteq> y) (soft_bit_XOR a b)"
proof -
  have ab: "a \<le> 0xFFFF" "b \<le> 0xFFFF" using assms by (simp_all add: near_def)
  let ?m = "mul16 a (0xFFFF - b)" and ?n = "mul16 b (0xFFFF - a)"
  have eq: "soft_bit_XOR a b = min (?m + ?n) 0xFFFF" using ab by (simp add: soft_bit_XOR_def sub16_def add16_def)
  have m: "?m \<le> a" "?m \<le> 0xFFFF - b" "?n \<le> b" "?n \<le> 0xFFFF - a" using ab by (auto intro: mul16_low)
  have h: "0xFFFF \<le> ?m + ((0xFFFF - a) + b + 1)" "0xFFFF \<le> ?n + ((0xFFFF - b) + a + 1)"
    using ab by (intro mul16_high; simp)+
  have r: "soft_bit_XOR a b \<le> ?m + ?n" "soft_bit_XOR a b \<le> 0xFFFF" "?m \<le> soft_bit_XOR a b" "?n \<le> soft_bit_XOR a b"
    unfolding eq using m ab by simp_all
  consider "x" "y" | "x" "\<not> y" | "\<not> x" "y" | "\<not> x" "\<not> y" by blast
  then show ?thesis
  proof cases
    case 1
    then have "0xFFFF \<le> a + s" "0xFFFF \<le> b + t" using assms by (simp_all add: near_def)
    then have "soft_bit_XOR a b \<le> s + t + 1" using m(2,4) r(1) by linarith
    then show ?thesis using 1 r(2) by (simp add: near_def)
  next
    case 2
    then have "0xFFFF \<le> a + s" "b \<le> t" using assms by (simp_all add: near_def)
    then have "0xFFFF \<le> soft_bit_XOR a b + (s + t + 1)" using h(1) r(3) by linarith
    then show ?thesis using 2 r(2) by (simp add: near_def)
  next
    case 3
    then have "a \<le> s" "0xFFFF \<le> b + t" using assms by (simp_all add: near_def)
    then have "0xFFFF \<le> soft_bit_XOR a b + (s + t + 1)" using h(2) r(4) by linarith
    then show ?thesis using 3 r(2) by (simp add: near_def)
  next
    case 4
    then have "a \<le> s" "b \<le> t" using assms by (simp_all add: near_def)
    then have "soft_bit_XOR a b \<le> s + t + 1" using m(1,3) r(1) by linarith
    then show ?thesis using 4 r(2) by (simp add: near_def)
  qed
qed

lemma noisy_mono: "noisy s w n vs \<Longrightarrow> s \<le> t \<Longrightarrow> noisy t w n vs"
  by (auto simp: noisy_def intro: near_mono)

lemma noisy_soft: "n \<le> 16 \<Longrightarrow> noisy 0 (w :: u16) n (int_to_soft w n)"
  by (simp add: noisy_def int_to_soft_def)

lemma noisy_XOR: "noisy s v n a \<Longrightarrow> noisy t w n b \<Longrightarrow> n \<le> 16 \<Longrightarrow> noisy (s + t + 1) (v XOR w :: u16) n (soft_XOR a b n)"
  using soft_bit_XOR_near by (simp add: noisy_def soft_XOR_def bit_xor_iff)

lemma bit_fold_set:
  "bit (fold (\<lambda>i tmp. if P i then tmp OR push_bit i 1 else tmp) is (w :: 'a::len word)) j \<longleftrightarrow> bit w j \<or> j < LENGTH('a) \<and> j \<in> set is \<and> P j"
  by (induction "is" arbitrary: w) (auto simp: bit_simps)

lemma soft_to_int_noisy:
  assumes "noisy t (w :: 'a::len word) n vs" "t < 0x7FFF" "n \<le> 16"
  shows "bit (soft_to_int vs n) j \<longleftrightarrow> j < n \<and> bit w j"
  using assms near_half unfolding soft_to_int_def bit_fold_set by (auto simp: noisy_def)

lemma soft_to_int_12:
  assumes "noisy t (w :: u16) 12 vs" "t < 0x7FFF" "take_bit 12 w = w"
  shows "soft_to_int vs 12 = w"
proof (rule bit_word_eqI)
  fix j show "bit (soft_to_int vs 12) j = bit w j"
    using soft_to_int_noisy [OF assms(1,2), of j] bit_take_bit_iff [of 12 w j] assms(3) by auto
qed

lemma soft_to_int_near:
  assumes "\<forall>i < n. near t (b i) (vs ! i)" "t < 0x7FFF" "n \<le> 16"
  shows "bit (soft_to_int vs n) j \<longleftrightarrow> j < n \<and> b j"
  using assms near_half unfolding soft_to_int_def bit_fold_set by auto

section \<open>Unpacked bits\<close>

lemma drop_AND_1: "drop_bit k (w :: 'a::len word) AND 1 = of_bool (bit w k)"
  by (simp add: and_one_eq bit_iff_odd_drop_bit odd_iff_mod_2_eq_one)

lemma unpack_eq: "unpack b = map (\<lambda>j. of_bool (bit b (7 - j))) [0..<8]"
  unfolding unpack_def drop_AND_1 ..

lemma length_unpack [simp]: "length (unpack b) = 8"
  by (simp add: unpack_def)

end
