(* ===== verification/M17_Golay.thy ===== *)
theory M17_Golay
  imports M17_Soft
begin

unbundle bit_operations_syntax

text \<open>
  The Golay code of \<open>libm17\<close> (\<open>math/math.c\<close>): the encoder, the soft decoder with its search for up to three errors,
  and the link information channel that is protected by it. The arrays have the sizes that the code declares.
\<close>

section \<open>Model\<close>

definition s_popcount :: "nat list \<Rightarrow> nat \<Rightarrow> nat" where
  "s_popcount vs siz = sum_list (map (\<lambda>i. vs ! i) [0..<siz]) mod 2 ^ 32"

subsection \<open>Golay code\<close>

definition encode_matrix :: "u16 list" where
  "encode_matrix = [0x8eb, 0x93e, 0xa97, 0xdc6, 0x367, 0x6cd, 0xd99, 0x3da, 0x7b4, 0xf68, 0x63b, 0xc75]"

definition decode_matrix :: "u16 list" where
  "decode_matrix = [0xc75, 0x49f, 0x93e, 0x6e3, 0xdc6, 0xf13, 0xab9, 0x1ed, 0x3da, 0x7b4, 0xf68, 0xa4f]"

text \<open>The sum of the rows of a matrix that a word selects.\<close>

definition combine :: "u16 list \<Rightarrow> u16 \<Rightarrow> u16" where
  "combine m d = fold (\<lambda>i c. if bit d i then c XOR m ! i else c) [0..<12] 0"

definition golay24_encode :: "u16 \<Rightarrow> u32" where
  "golay24_encode d = push_bit 12 (ucast d) OR ucast (combine encode_matrix d)"

text \<open>The same sum for soft bits: the loop of \<open>s_calc_checksum\<close> and that of the inverse syndrome.\<close>

definition soft_combine :: "u16 list \<Rightarrow> nat list \<Rightarrow> nat list" where
  "soft_combine m vs =
    fold (\<lambda>i acc. if vs ! i > 0x7FFF then soft_XOR acc (int_to_soft (m ! i) 12) 12 else acc) [0..<12] (replicate 12 0)"

definition s_calc_checksum :: "nat list \<Rightarrow> nat list" where
  "s_calc_checksum vs = soft_combine encode_matrix vs"

text \<open>The loops over the patterns of errors in the data part, with the checksum of each pattern.\<close>

fun try_patterns :: "nat list \<Rightarrow> nat \<Rightarrow> (u16 \<times> u16) list \<Rightarrow> u32 option" where
  "try_patterns syndrome limit [] = None"
| "try_patterns syndrome limit ((e, coded_error) # ps) =
    (let sc = soft_XOR syndrome (int_to_soft coded_error 12) 12 in
     if s_popcount sc 12 < limit
     then Some (push_bit 12 (ucast e) OR ucast (soft_to_int syndrome 12 XOR coded_error))
     else try_patterns syndrome limit ps)"

definition single_patterns :: "(u16 \<times> u16) list" where
  "single_patterns = map (\<lambda>i. (push_bit i 1, encode_matrix ! i)) [0..<12]"

definition double_patterns :: "(u16 \<times> u16) list" where
  "double_patterns = concat (map (\<lambda>i. map (\<lambda>j. (push_bit i 1 OR push_bit j 1, encode_matrix ! i XOR encode_matrix ! j))
    [i + 1..<12]) [0..<11])"

text \<open>The last loop, over one error in the parity part.\<close>

fun try_parity :: "nat list \<Rightarrow> nat list \<Rightarrow> u32 option" where
  "try_parity inv_syndrome [] = None"
| "try_parity inv_syndrome (i # is) =
    (let coding_error = decode_matrix ! i; tmp = soft_XOR inv_syndrome (int_to_soft coding_error 12) 12 in
     if s_popcount tmp 12 < 3 * (0xFFFF + 2)
     then Some (push_bit 12 (ucast (soft_to_int inv_syndrome 12 XOR coding_error)) OR push_bit i 1)
     else try_parity inv_syndrome is)"

definition s_detect_errors :: "nat list \<Rightarrow> u32" where
  "s_detect_errors codeword =
    (let data = take 12 (drop 12 codeword);
         parity = take 12 codeword;
         syndrome = soft_XOR parity (s_calc_checksum data) 12
     in if s_popcount syndrome 12 < 4 * 0xFFFE then ucast (soft_to_int syndrome 12)
     else case try_patterns syndrome (3 * 0xFFFE) single_patterns of Some r \<Rightarrow> r
     | None \<Rightarrow> (case try_patterns syndrome (2 * 0xFFFF) double_patterns of Some r \<Rightarrow> r
     | None \<Rightarrow>
       (let inv_syndrome = soft_combine decode_matrix syndrome in
        if s_popcount inv_syndrome 12 < 4 * 0xFFFF then push_bit 12 (ucast (soft_to_int inv_syndrome 12))
        else case try_parity inv_syndrome [0..<12] of Some r \<Rightarrow> r | None \<Rightarrow> 0xFFFFFFFF)))"

definition golay24_sdecode :: "nat list \<Rightarrow> u16" where
  "golay24_sdecode codeword =
    (let cw = map (\<lambda>i. codeword ! (23 - i)) [0..<24];
         errors = s_detect_errors cw
     in if errors = 0xFFFFFFFF then 0xFFFF
     else ucast (drop_bit 12 ((ucast (soft_to_int cw 16) OR push_bit 16 (ucast (soft_to_int (drop 16 cw) 8))) XOR errors) AND 0x0FFF))"

subsection \<open>Link information channel\<close>

text \<open>The packing of four codewords into twelve bytes, and of four data words into six.\<close>

definition word_bytes :: "u32 \<Rightarrow> bytes" where
  "word_bytes v = [ucast (drop_bit 16 v AND 0xFF), ucast (drop_bit 8 v AND 0xFF), ucast (v AND 0xFF)]"

definition encode_LICH :: "bytes \<Rightarrow> bytes" where
  "encode_LICH inp =
    (let b = (\<lambda>i. ucast (inp ! i) :: u16) in
     word_bytes (golay24_encode (push_bit 4 (b 0) OR drop_bit 4 (b 1))) @
     word_bytes (golay24_encode (push_bit 8 (b 1 AND 0x0F) OR b 2)) @
     word_bytes (golay24_encode (push_bit 4 (b 3) OR drop_bit 4 (b 4))) @
     word_bytes (golay24_encode (push_bit 8 (b 4 AND 0x0F) OR b 5)))"

definition unpack_LICH :: "bytes \<Rightarrow> bytes" where
  "unpack_LICH inp = concat (map unpack (take 12 inp))"

definition decode_LICH :: "nat list \<Rightarrow> bytes" where
  "decode_LICH inp =
    (let w = (\<lambda>k. golay24_sdecode (take 24 (drop (24 * k) inp)));
         high = (\<lambda>t. ucast (drop_bit 4 t AND 0xFF) :: u8);
         mid1 = (\<lambda>t. push_bit 4 (ucast (t AND 0xF)) :: u8);
         mid2 = (\<lambda>t. ucast (drop_bit 8 t AND 0xF) :: u8);
         low = (\<lambda>t. ucast (t AND 0xFF) :: u8)
     in [high (w 0), mid1 (w 0) OR mid2 (w 1), low (w 1), high (w 2), mid1 (w 2) OR mid2 (w 3), low (w 3)])"

subsection \<open>Weight\<close>

definition wt :: "u16 \<Rightarrow> nat" where
  "wt w = card {i. i < 12 \<and> bit w i}"

lemma wt_0 [simp]: "wt 0 = 0"
  by (simp add: wt_def)

lemma wt_XOR: "wt (a XOR b) \<le> wt a + wt b"
proof -
  have "{i. i < 12 \<and> bit (a XOR b) i} \<subseteq> {i. i < 12 \<and> bit a i} \<union> {i. i < 12 \<and> bit b i}" by (auto simp: bit_xor_iff)
  then have "wt (a XOR b) \<le> card ({i. i < 12 \<and> bit a i} \<union> {i. i < 12 \<and> bit b i})" unfolding wt_def by (intro card_mono) simp_all
  also have "\<dots> \<le> wt a + wt b" unfolding wt_def by (rule card_Un_le)
  finally show ?thesis .
qed

lemma wt_sum: "wt w = sum_list (map (\<lambda>i. of_bool (bit w i)) [0..<12])"
proof -
  have "{i. i < 12 \<and> bit w i} = set (filter (bit w) [0..<12])" by auto
  then have "wt w = length (filter (bit w) [0..<12])" unfolding wt_def by (simp only: distinct_card distinct_filter distinct_upt)
  also have "length (filter (bit w) xs) = sum_list (map (\<lambda>i. of_bool (bit w i)) xs)" for xs by (induction xs) simp_all
  finally show ?thesis .
qed

lemma s_popcount_bounds:
  assumes "noisy t w 12 vs"
  shows "wt w * 0xFFFF \<le> s_popcount vs 12 + 12 * t" "s_popcount vs 12 \<le> wt w * 0xFFFF + 12 * t"
proof -
  have v: "near t (bit w i) (vs ! i)" if "i < 12" for i using assms that by (simp add: noisy_def)
  have le: "vs ! i \<le> 0xFFFF" if "i < 12" for i using v [OF that] by (simp add: near_def)
  let ?s = "sum_list (map (\<lambda>i. vs ! i) [0..<12])"
  have "?s \<le> sum_list (map (\<lambda>i. 0xFFFF) [0..<12])" by (rule sum_list_mono) (simp add: le)
  then have "?s \<le> 12 * 0xFFFF" by (simp add: sum_list_triv del: upt_conv_Cons)
  then have eq: "s_popcount vs 12 = ?s" by (simp add: s_popcount_def del: upt_conv_Cons)
  have c: "sum_list (map (\<lambda>i. t) [0..<12]) = 12 * t" by (simp add: sum_list_triv)
  have "sum_list (map (\<lambda>i. of_bool (bit w i) * 0xFFFF) [0..<12]) \<le> sum_list (map (\<lambda>i. vs ! i + t) [0..<12])"
    using v by (intro sum_list_mono) (auto simp: near_def split: if_splits)
  then show "wt w * 0xFFFF \<le> s_popcount vs 12 + 12 * t"
    unfolding eq wt_sum sum_list_addf c by (simp add: sum_list_mult_const)
  have "?s \<le> sum_list (map (\<lambda>i. of_bool (bit w i) * 0xFFFF + t) [0..<12])"
    by (intro sum_list_mono) (use v in \<open>auto simp: near_def le_add1 le_SucI split: if_splits intro: trans_le_add1\<close>)
  then show "s_popcount vs 12 \<le> wt w * 0xFFFF + 12 * t"
    unfolding eq wt_sum sum_list_addf c by (simp add: sum_list_mult_const)
qed

section \<open>The code\<close>

lemma fold_select_XOR:
  "fold (\<lambda>i c. if bit (a XOR b :: u16) i then c XOR m i else c) is (x XOR y) =
   fold (\<lambda>i c. if bit a i then c XOR m i else c) is x XOR fold (\<lambda>i c. if bit b i then c XOR m i else c) is (y :: u16)"
proof (induction "is" arbitrary: x y)
  case (Cons i "is")
  have "(if bit (a XOR b) i then (x XOR y) XOR m i else x XOR y) =
    (if bit a i then x XOR m i else x) XOR (if bit b i then y XOR m i else y)"
    by (rule bit_word_eqI) (auto simp: bit_xor_iff)
  then show ?case using Cons.IH by simp
qed simp

lemma combine_XOR: "combine m (a XOR b) = combine m a XOR combine m b"
  using fold_select_XOR [of a b "(!) m" "[0..<12]" 0 0] by (simp add: combine_def)

lemma combine_0 [simp]: "combine m 0 = 0"
proof -
  have "fold (\<lambda>i c. if bit (0 :: u16) i then c XOR m ! i else c) is c = c" for c and "is" :: "nat list"
    by (induction "is") simp_all
  then show ?thesis by (simp add: combine_def del: upt_conv_Cons)
qed

text \<open>A word is the sum of its bits, so a sum that inverts each row of the matrix inverts the code.\<close>

lemma word_sum:
  assumes "take_bit 12 d = (d :: u16)"
  shows "combine (map (\<lambda>i. push_bit i 1) [0..<12]) d = d"
proof -
  have "bit (fold (\<lambda>i c. if bit d i then c XOR push_bit i 1 else c) [0..<n] (0 :: u16)) j \<longleftrightarrow> j < n \<and> bit d j" if "n \<le> 16" for n j
    using that
  proof (induction n)
    case (Suc n)
    then show ?case by (auto simp: bit_simps less_Suc_eq)
  qed simp
  moreover have "combine (map (\<lambda>i. push_bit i 1) [0..<12]) d = fold (\<lambda>i c. if bit d i then c XOR push_bit i 1 else c) [0..<12] 0"
    unfolding combine_def by (rule fold_cong) auto
  ultimately show ?thesis using assms bit_take_bit_iff [of 12 d] by (intro bit_word_eqI) auto
qed

lemma combine_combine:
  assumes "length m = 12"
  shows "combine n (combine m d) = combine (map (combine n) m) d"
proof -
  have "combine n (fold (\<lambda>i c. if bit d i then c XOR m ! i else c) is c) =
    fold (\<lambda>i c. if bit d i then c XOR combine n (m ! i) else c) is (combine n c)" for "is" c
    by (induction "is" arbitrary: c) (simp_all add: combine_XOR)
  from this [of "[0..<12]" 0] have "combine n (combine m d) = fold (\<lambda>i c. if bit d i then c XOR combine n (m ! i) else c) [0..<12] 0"
    by (simp add: combine_def [of m] del: upt_conv_Cons)
  also have "\<dots> = combine (map (combine n) m) d" unfolding combine_def [of "map (combine n) m"] by (rule fold_cong) (use assms in auto)
  finally show ?thesis .
qed

lemma decode_inverts:
  assumes "take_bit 12 d = d"
  shows "combine decode_matrix (combine encode_matrix d) = d"
proof -
  have "map (combine decode_matrix) encode_matrix = map (\<lambda>i. push_bit i 1) [0..<12]"
    by (simp add: encode_matrix_def combine_def decode_matrix_def upt_rec)
  then show ?thesis using combine_combine [of encode_matrix decode_matrix d] word_sum [OF assms] by (simp add: encode_matrix_def)
qed

lemma combine_range: "\<forall>i < 12. take_bit 12 (m ! i) = m ! i \<Longrightarrow> take_bit 12 (combine m d) = combine m d"
proof -
  assume m: "\<forall>i < 12. take_bit 12 (m ! i) = m ! i"
  have "(\<forall>i \<in> set is. i < 12) \<Longrightarrow> take_bit 12 c = c \<Longrightarrow>
    take_bit 12 (fold (\<lambda>i c. if bit d i then c XOR m ! i else c) is c) = fold (\<lambda>i c. if bit d i then c XOR m ! i else c) is c" for "is" c
    using m by (induction "is" arbitrary: c) (simp_all add: take_bit_xor)
  from this [of "[0..<12]" 0] show ?thesis by (simp add: combine_def)
qed

lemma encode_range: "take_bit 12 (combine encode_matrix d) = combine encode_matrix d"
proof (rule combine_range)
  have "list_all (\<lambda>w. take_bit 12 w = w) encode_matrix" by (simp add: encode_matrix_def)
  then show "\<forall>i < 12. take_bit 12 (encode_matrix ! i) = encode_matrix ! i" by (simp add: list_all_length) (simp add: encode_matrix_def)
qed

subsection \<open>Distance\<close>

text \<open>The least weight of a codeword is eight: all sums of rows are gone through, as vectors of bits.\<close>

fun heavy :: "bool list \<Rightarrow> nat \<Rightarrow> bool" where
  "heavy [] k = (k = 0)"
| "heavy (b # bs) k = (case k of 0 \<Rightarrow> True | Suc k' \<Rightarrow> heavy bs (if b then k' else k))"

fun bxor :: "bool list \<Rightarrow> bool list \<Rightarrow> bool list" where
  "bxor [] ys = []"
| "bxor (x # xs) ys = (case ys of [] \<Rightarrow> [] | y # ys \<Rightarrow> (if x then \<not> y else y) # bxor xs ys)"

fun far :: "bool list list \<Rightarrow> bool list \<Rightarrow> nat \<Rightarrow> bool" where
  "far [] acc k = heavy acc k"
| "far (r # rs) acc k = (case k of 0 \<Rightarrow> True | Suc k' \<Rightarrow> far rs acc k \<and> far rs (bxor r acc) k')"

fun far_all :: "bool list list \<Rightarrow> bool" where
  "far_all [] = True"
| "far_all (r # rs) = (far rs r 7 \<and> far_all rs)"

definition row_bits :: "u16 \<Rightarrow> bool list" where
  "row_bits w = map (bit w) [0..<12]"

fun select_rows :: "bool list \<Rightarrow> bool list list \<Rightarrow> bool list \<Rightarrow> bool list" where
  "select_rows (b # bs) (r # rs) acc = select_rows bs rs (if b then bxor r acc else acc)"
| "select_rows bs rs acc = acc"

lemma heavy_count: "heavy bs k \<Longrightarrow> k \<le> length (filter (\<lambda>b. b) bs)"
proof (induction bs arbitrary: k)
  case (Cons b bs)
  then show ?case by (cases k) (auto split: if_splits)
qed simp

lemma far_select: "far rs acc k \<Longrightarrow> length bs = length rs \<Longrightarrow> heavy (select_rows bs rs acc) (k - length (filter (\<lambda>b. b) bs))"
proof (induction rs arbitrary: acc k bs)
  case (Cons r rs)
  obtain b bs' where bs: "bs = b # bs'" "length bs' = length rs" using Cons.prems(2) by (cases bs) auto
  show ?case
  proof (cases k)
    case 0
    have "heavy xs 0" for xs by (cases xs) simp_all
    then show ?thesis using 0 by simp
  next
    case (Suc k')
    then show ?thesis using Cons.IH [of _ _ bs'] Cons.prems(1) bs by (cases b) auto
  qed
qed simp

lemma bxor_zero: "length r = n \<Longrightarrow> bxor r (replicate n False) = r"
proof (induction r arbitrary: n)
  case (Cons b r)
  then show ?case by (cases n) auto
qed simp

lemma far_all_select:
  "far_all rs \<Longrightarrow> length bs = length rs \<Longrightarrow> True \<in> set bs \<Longrightarrow> \<forall>r \<in> set rs. length r = 12 \<Longrightarrow>
   heavy (select_rows bs rs (replicate 12 False)) (8 - length (filter (\<lambda>b. b) bs))"
proof (induction rs arbitrary: bs)
  case (Cons r rs)
  obtain b bs' where bs: "bs = b # bs'" "length bs' = length rs" using Cons.prems(2) by (cases bs) auto
  show ?case
  proof (cases b)
    case True
    then show ?thesis using far_select [of rs r 7 bs'] Cons.prems(1,4) bs bxor_zero [of r 12] by simp
  next
    case False
    then show ?thesis using Cons.IH [of bs'] Cons.prems bs by simp
  qed
qed simp

lemma encode_far_all: "far_all (map row_bits encode_matrix)"
proof -
  have "map row_bits encode_matrix = 
    [[True, True, False, True, False, True, True, True, False, False, False, True],
     [False, True, True, True, True, True, False, False, True, False, False, True],
     [True, True, True, False, True, False, False, True, False, True, False, True],
     [False, True, True, False, False, False, True, True, True, False, True, True],
     [True, True, True, False, False, True, True, False, True, True, False, False],
     [True, False, True, True, False, False, True, True, False, True, True, False],
     [True, False, False, True, True, False, False, True, True, False, True, True],
     [False, True, False, True, True, False, True, True, True, True, False, False],
     [False, False, True, False, True, True, False, True, True, True, True, False],
     [False, False, False, True, False, True, True, False, True, True, True, True],
     [True, True, False, True, True, True, False, False, False, True, True, False],
     [True, False, True, False, True, True, True, False, False, False, True, True]]"
    by (simp add: encode_matrix_def row_bits_def upt_rec)
  then show ?thesis by simp
qed

lemma bxor_map: "bxor (map f is) (map g is) = map (\<lambda>i. g i \<noteq> f i) is"
  by (induction "is") auto

lemma select_rows_fold:
  "select_rows (map (bit u) is) (map (\<lambda>i. row_bits (m i)) is) (row_bits c) =
   row_bits (fold (\<lambda>i c. if bit u i then c XOR m i else c) is c)"
proof (induction "is" arbitrary: c)
  case (Cons i "is")
  have "bxor (row_bits (m i)) (row_bits c) = row_bits (c XOR m i)"
    unfolding row_bits_def bxor_map by (simp add: bit_xor_iff)
  then show ?case using Cons.IH by simp
qed simp

lemma wt_row_bits: "wt w = length (filter (\<lambda>b. b) (row_bits w))"
proof -
  have "{i. i < 12 \<and> bit w i} = set (filter (bit w) [0..<12])" by auto
  then have "wt w = length (filter (bit w) [0..<12])" unfolding wt_def by (simp only: distinct_card distinct_filter distinct_upt)
  then show ?thesis unfolding row_bits_def filter_map by (simp add: comp_def del: upt_conv_Cons)
qed

lemma golay_distance:
  assumes "take_bit 12 u = u" "u \<noteq> 0"
  shows "8 \<le> wt u + wt (combine encode_matrix u)"
proof -
  have "length encode_matrix = 12" by (simp add: encode_matrix_def)
  then have rows: "map row_bits encode_matrix = map (\<lambda>i. row_bits (encode_matrix ! i)) [0..<12]"
    by (intro nth_equalityI) simp_all
  have z: "row_bits 0 = replicate 12 False" by (rule nth_equalityI) (simp_all add: row_bits_def)
  obtain i where "bit u i" using assms(2) by (auto simp: bit_eq_iff)
  then have "True \<in> set (row_bits u)" using assms(1) bit_take_bit_iff [of 12 u i] by (auto simp: row_bits_def intro: rev_image_eqI)
  then have "heavy (select_rows (row_bits u) (map row_bits encode_matrix) (replicate 12 False)) (8 - length (filter (\<lambda>b. b) (row_bits u)))"
    using encode_far_all \<open>length encode_matrix = 12\<close> by (intro far_all_select) (simp_all add: row_bits_def)
  then have "heavy (row_bits (combine encode_matrix u)) (8 - wt u)"
    using select_rows_fold [of u "[0..<12]" "(!) encode_matrix" 0] unfolding rows z combine_def wt_row_bits by (simp add: row_bits_def del: upt_conv_Cons)
  then have "8 - wt u \<le> wt (combine encode_matrix u)" unfolding wt_row_bits [of "combine encode_matrix u"] by (rule heavy_count)
  then show ?thesis by linarith
qed

section \<open>Decoding\<close>

text \<open>The sum of the rows over soft bits is nearly sure of the sum over the bits.\<close>

lemma soft_combine_noisy:
  assumes "noisy t w 12 vs" "t < 0x7FFF"
  shows "noisy 12 (combine m w) 12 (soft_combine m vs)"
proof -
  have "noisy (length is) (fold (\<lambda>i c. if bit w i then c XOR m ! i else c) is 0) 12
      (fold (\<lambda>i acc. if vs ! i > 0x7FFF then soft_XOR acc (int_to_soft (m ! i) 12) 12 else acc) is (replicate 12 0))"
    if "\<forall>i \<in> set is. i < 12" for "is"
    using that
  proof (induction "is" rule: rev_induct)
    case Nil
    then show ?case by (simp add: noisy_def near_def)
  next
    case (snoc i "is")
    have "near t (bit w i) (vs ! i)" using assms(1) snoc.prems by (simp add: noisy_def)
    then have c: "vs ! i > 0x7FFF \<longleftrightarrow> bit w i" using near_half assms(2) by blast
    let ?a = "fold (\<lambda>i c. if bit w i then c XOR m ! i else c) is 0"
      and ?s = "fold (\<lambda>i acc. if vs ! i > 0x7FFF then soft_XOR acc (int_to_soft (m ! i) 12) 12 else acc) is (replicate 12 0)"
    have IH: "noisy (length is) ?a 12 ?s" using snoc by simp
    show ?case
    proof (cases "bit w i")
      case True
      then show ?thesis using noisy_XOR [OF IH noisy_soft [of 12 "m ! i"]] c by simp
    next
      case False
      then show ?thesis using noisy_mono [OF IH, of "Suc (length is)"] c by simp
    qed
  qed
  from this [of "[0..<12]"] show ?thesis by (simp add: combine_def soft_combine_def del: upt_conv_Cons)
qed

text \<open>A sum of twelve such bits is compared with a multiple of the sure bit.\<close>

lemma s_popcount_less:
  assumes "noisy t w 12 vs" "t \<le> 4100"
  shows "wt w \<le> 3 \<Longrightarrow> s_popcount vs 12 < 4 * 0xFFFE" "5 \<le> wt w \<Longrightarrow> \<not> s_popcount vs 12 < 4 * 0xFFFE"
    "wt w \<le> 2 \<Longrightarrow> s_popcount vs 12 < 3 * 0xFFFE" "4 \<le> wt w \<Longrightarrow> \<not> s_popcount vs 12 < 3 * 0xFFFE"
    "wt w \<le> 1 \<Longrightarrow> s_popcount vs 12 < 2 * 0xFFFF" "3 \<le> wt w \<Longrightarrow> \<not> s_popcount vs 12 < 2 * 0xFFFF"
    "wt w \<le> 3 \<Longrightarrow> s_popcount vs 12 < 4 * 0xFFFF"
  using s_popcount_bounds [OF assms(1)] assms(2) by linarith+

text \<open>A pattern that is not the error leaves a weight of at least \<open>5\<close> less its own.\<close>

lemma wrong_pattern_weight:
  assumes "take_bit 12 ed = ed" "take_bit 12 e = e" "e \<noteq> ed" "wt ed + wt ep \<le> 3"
  shows "5 \<le> wt ((ep XOR combine encode_matrix ed) XOR combine encode_matrix e) + wt e"
proof -
  let ?c = "combine encode_matrix (ed XOR e)"
  have "ed XOR e \<noteq> 0" using assms(3) by (auto simp: bit_eq_iff bit_xor_iff)
  then have "8 \<le> wt (ed XOR e) + wt ?c" using assms(1,2) by (intro golay_distance) (simp_all add: take_bit_xor)
  moreover have "?c = ((ep XOR combine encode_matrix ed) XOR combine encode_matrix e) XOR ep"
    unfolding combine_XOR by (rule bit_word_eqI) (auto simp: bit_xor_iff)
  then have "wt ?c \<le> wt ((ep XOR combine encode_matrix ed) XOR combine encode_matrix e) + wt ep" using wt_XOR by metis
  moreover have "wt (ed XOR e) \<le> wt ed + wt e" by (rule wt_XOR)
  ultimately show ?thesis using assms(4) by linarith
qed

lemma try_patterns_right:
  assumes "noisy t (ep XOR combine encode_matrix ed) 12 syn" "t \<le> 4050" "take_bit 12 ep = ep" "take_bit 12 ed = ed" "wt ed + wt ep \<le> 3"
    "\<forall>(e, ce) \<in> set ps. ce = combine encode_matrix e \<and> take_bit 12 e = e \<and> wt e = k"
    "k = 1 \<and> limit = 3 * 0xFFFE \<or> k = 2 \<and> limit = 2 * 0xFFFF"
  shows "try_patterns syn limit ps =
    (if ed \<in> fst ` set ps then Some (push_bit 12 (ucast ed) OR ucast ep) else None)"
  using assms(6)
proof (induction ps)
  case (Cons p ps)
  obtain e ce where p: "p = (e, ce)" "ce = combine encode_matrix e" "take_bit 12 e = e" "wt e = k" using Cons.prems by (cases p) auto
  let ?w = "(ep XOR combine encode_matrix ed) XOR ce"
  have sc: "noisy (t + 0 + 1) ?w 12 (soft_XOR syn (int_to_soft ce 12) 12)" by (rule noisy_XOR [OF assms(1) noisy_soft]) simp_all
  have t: "t + 0 + 1 \<le> 4100" using assms(2) by simp
  have syn: "soft_to_int syn 12 = ep XOR combine encode_matrix ed"
    using assms(2-4) by (intro soft_to_int_12 [OF assms(1)]) (simp_all add: take_bit_xor encode_range)
  show ?case
  proof (cases "e = ed")
    case True
    then have "?w = ep" unfolding p(2) by (intro bit_word_eqI) (auto simp: bit_xor_iff)
    moreover have "wt ep + k \<le> 3" using assms(5) p(4) True by simp
    ultimately have "s_popcount (soft_XOR syn (int_to_soft ce 12) 12) 12 < limit"
      using s_popcount_less(3,5) [OF sc t] assms(7) by auto
    moreover have "soft_to_int syn 12 XOR ce = ep" unfolding syn using \<open>?w = ep\<close> .
    ultimately show ?thesis using True p(1) by simp
  next
    case False
    have "5 \<le> wt ?w + k" using wrong_pattern_weight [OF assms(4) p(3) False assms(5)] p(2,4) by simp
    then have "\<not> s_popcount (soft_XOR syn (int_to_soft ce 12) 12) 12 < limit"
      using s_popcount_less(4,6) [OF sc t] assms(7) by auto
    then show ?thesis using Cons.IH Cons.prems False p(1) by simp
  qed
qed simp


declare push_bit_of_1 [simp del]

lemma bit_push_one: "bit (push_bit i 1 :: u16) n \<longleftrightarrow> n = i \<and> n < 16"
  by (auto simp: bit_push_bit_iff bit_1_iff)

lemma wt_1: "take_bit 12 w = w \<Longrightarrow> wt w = 1 \<longleftrightarrow> (\<exists>i < 12. w = push_bit i 1)"
proof
  assume w: "take_bit 12 w = w" and "wt w = 1"
  then have "card {i. i < 12 \<and> bit w i} = 1" by (simp add: wt_def)
  then obtain i where i: "{i. i < 12 \<and> bit w i} = {i}" by (rule card_1_singletonE)
  then have "i < 12" by auto
  moreover have "w = push_bit i 1"
  proof (rule bit_word_eqI)
    fix j assume "j < LENGTH(16)"
    have "bit w j \<longleftrightarrow> j \<in> {i. i < 12 \<and> bit w i}" using w bit_take_bit_iff [of 12 w j] by simp
    also have "\<dots> \<longleftrightarrow> j = i" unfolding i by simp
    finally show "bit w j = bit (push_bit i 1 :: u16) j" using \<open>i < 12\<close> by (auto simp: bit_push_one)
  qed
  ultimately show "\<exists>i < 12. w = push_bit i 1" by blast
next
  assume "\<exists>i < 12. w = push_bit i 1"
  then obtain i where i: "i < 12" "w = push_bit i 1" by blast
  then have "{j. j < 12 \<and> bit w j} = {i}" by (auto simp: bit_push_one)
  then show "wt w = 1" by (simp add: wt_def)
qed

lemma wt_2: "take_bit 12 w = w \<Longrightarrow> wt w = 2 \<longleftrightarrow> (\<exists>i j. i < j \<and> j < 12 \<and> w = push_bit i 1 OR push_bit j 1)"
proof
  assume w: "take_bit 12 w = w" and "wt w = 2"
  then obtain a b where ab: "{i. i < 12 \<and> bit w i} = {a, b}" "a \<noteq> b" unfolding wt_def by (auto simp: card_2_iff)
  define i j where "i = min a b" and "j = max a b"
  have ij: "{i. i < 12 \<and> bit w i} = {i, j}" "i < j" using ab by (auto simp: i_def j_def min_def max_def)
  then have "j < 12" by auto
  moreover have "w = push_bit i 1 OR push_bit j 1"
  proof (rule bit_word_eqI)
    fix n assume "n < LENGTH(16)"
    have "bit w n \<longleftrightarrow> n \<in> {i. i < 12 \<and> bit w i}" using w bit_take_bit_iff [of 12 w n] by simp
    also have "\<dots> \<longleftrightarrow> n = i \<or> n = j" unfolding ij(1) by simp
    finally show "bit w n = bit (push_bit i 1 OR push_bit j 1 :: u16) n"
      using \<open>i < j\<close> \<open>j < 12\<close> by (auto simp: bit_or_iff bit_push_one)
  qed
  ultimately show "\<exists>i j. i < j \<and> j < 12 \<and> w = push_bit i 1 OR push_bit j 1" using ij(2) by blast
next
  assume "\<exists>i j. i < j \<and> j < 12 \<and> w = push_bit i 1 OR push_bit j 1"
  then obtain i j where i: "i < j" "j < 12" "w = push_bit i 1 OR push_bit j 1" by blast
  then have "{n. n < 12 \<and> bit w n} = {i, j}" by (auto simp: bit_or_iff bit_push_one)
  then show "wt w = 2" using i(1) by (simp add: wt_def)
qed

lemma wt_zero:
  assumes "take_bit 12 w = w"
  shows "wt w = 0 \<longleftrightarrow> w = 0"
proof
  assume "wt w = 0"
  then have z: "\<not> bit w i" if "i < 12" for i using that unfolding wt_def by simp
  show "w = 0"
  proof (rule bit_word_eqI)
    fix i show "bit w i = bit (0 :: u16) i" using z [of i] bit_take_bit_iff [of 12 w i] assms by auto
  qed
qed simp

lemma combine_row:
  assumes "i < 12"
  shows "combine m (push_bit i 1) = m ! i"
proof -
  have "fold (\<lambda>j c. if bit (push_bit i 1 :: u16) j then c XOR m ! j else c) [0..<n] 0 = (if i < n then m ! i else 0)" if "n \<le> 12" for n
    using that by (induction n) (auto simp: bit_push_one less_Suc_eq)
  from this [of 12] show ?thesis using assms by (simp add: combine_def del: upt_conv_Cons)
qed

lemma combine_rows:
  assumes "i < j" "j < 12"
  shows "combine m (push_bit i 1 OR push_bit j 1) = m ! i XOR m ! j"
proof -
  have "push_bit i 1 OR push_bit j 1 = (push_bit i 1 XOR push_bit j 1 :: u16)"
    using assms(1) by (intro bit_word_eqI) (auto simp: bit_or_iff bit_xor_iff bit_push_one)
  then show ?thesis using assms combine_row [of i m] combine_row [of j m] by (simp add: combine_XOR)
qed

lemma take_bit_pushes [simp]: "i < 12 \<Longrightarrow> take_bit 12 (push_bit i 1 :: u16) = push_bit i 1"
  by (rule bit_word_eqI) (auto simp: bit_take_bit_iff bit_push_one)

lemma single_patterns_ok:
  "\<forall>(e, ce) \<in> set single_patterns. ce = combine encode_matrix e \<and> take_bit 12 e = e \<and> wt e = 1"
  "take_bit 12 e = e \<Longrightarrow> e \<in> fst ` set single_patterns \<longleftrightarrow> wt e = 1"
proof -
  show "\<forall>(e, ce) \<in> set single_patterns. ce = combine encode_matrix e \<and> take_bit 12 e = e \<and> wt e = 1"
    using wt_1 by (auto simp: single_patterns_def combine_row)
  show "e \<in> fst ` set single_patterns \<longleftrightarrow> wt e = 1" if "take_bit 12 e = e"
    unfolding wt_1 [OF that] by (auto simp: single_patterns_def image_iff)
qed

lemma double_patterns_ok:
  "\<forall>(e, ce) \<in> set double_patterns. ce = combine encode_matrix e \<and> take_bit 12 e = e \<and> wt e = 2"
  "take_bit 12 e = e \<Longrightarrow> e \<in> fst ` set double_patterns \<longleftrightarrow> wt e = 2"
proof -
  have inner: "p \<in> set (map (f i) [i + 1..<m]) \<longleftrightarrow> (\<exists>j. i < j \<and> j < m \<and> p = f i j)" for p :: "u16 \<times> u16" and f i m
    by (auto simp: Suc_le_eq)
  have outer: "set (concat (map h xs)) = (\<Union>x \<in> set xs. set (h x))" for h :: "nat \<Rightarrow> (u16 \<times> u16) list" and xs by simp
  have pairs: "p \<in> set (concat (map (\<lambda>i. map (f i) [i + 1..<m]) [0..<n])) \<longleftrightarrow> (\<exists>i j. i < n \<and> i < j \<and> j < m \<and> p = f i j)"
    for p :: "u16 \<times> u16" and f and m n :: nat
    unfolding outer UN_iff inner by auto
  have in_set: "p \<in> set double_patterns \<longleftrightarrow> (\<exists>i j. i < j \<and> j < 12 \<and> p = (push_bit i 1 OR push_bit j 1, encode_matrix ! i XOR encode_matrix ! j))" for p
  proof -
    have "i < 11 \<and> i < j \<and> j < 12 \<longleftrightarrow> i < j \<and> j < 12" for i j :: nat by linarith
    then show ?thesis unfolding double_patterns_def pairs by metis
  qed
  have t: "take_bit 12 (push_bit i 1 OR push_bit j 1 :: u16) = push_bit i 1 OR push_bit j 1" if "i < j" "j < 12" for i j
    using that by (simp add: take_bit_or)
  have w: "wt (push_bit i 1 OR push_bit j 1 :: u16) = 2" if "i < j" "j < 12" for i j
    by (rule iffD2 [OF wt_2 [OF t [OF that]]]) (use that in blast)
  show "\<forall>(e, ce) \<in> set double_patterns. ce = combine encode_matrix e \<and> take_bit 12 e = e \<and> wt e = 2"
    using w t by (auto simp: in_set combine_rows)
  show "e \<in> fst ` set double_patterns \<longleftrightarrow> wt e = 2" if "take_bit 12 e = e"
  proof -
    have "e \<in> fst ` set double_patterns \<longleftrightarrow> (\<exists>i j. i < j \<and> j < 12 \<and> e = push_bit i 1 OR push_bit j 1)"
      unfolding image_iff Bex_def in_set by (metis fst_conv)
    then show ?thesis unfolding wt_2 [OF that] .
  qed
qed


lemma s_detect_errors_right:
  assumes "noisy t (d XOR ed) 12 (take 12 (drop 12 cw))" "noisy t (combine encode_matrix d XOR ep) 12 (take 12 cw)" "t \<le> 4000"
    "take_bit 12 ed = ed" "take_bit 12 ep = ep" "wt ed + wt ep \<le> 3"
  shows "s_detect_errors cw = push_bit 12 (ucast ed) OR ucast ep"
proof -
  define syn where "syn = soft_XOR (take 12 cw) (s_calc_checksum (take 12 (drop 12 cw))) 12"
  let ?w = "ep XOR combine encode_matrix ed"
  have "noisy 12 (combine encode_matrix (d XOR ed)) 12 (s_calc_checksum (take 12 (drop 12 cw)))"
    unfolding s_calc_checksum_def using assms(3) by (intro soft_combine_noisy [OF assms(1)]) simp
  from noisy_XOR [OF assms(2) this] have "noisy (t + 12 + 1) ((combine encode_matrix d XOR ep) XOR combine encode_matrix (d XOR ed)) 12 syn"
    by (simp add: syn_def)
  moreover have "(combine encode_matrix d XOR ep) XOR combine encode_matrix (d XOR ed) = ?w"
    unfolding combine_XOR by (rule bit_word_eqI) (auto simp: bit_xor_iff)
  ultimately have syn: "noisy (t + 12 + 1) ?w 12 syn" by simp
  have t: "t + 12 + 1 \<le> 4050" "t + 12 + 1 \<le> 4100" "t + 12 + 1 < 0x7FFF" using assms(3) by simp_all
  have range: "take_bit 12 ?w = ?w" using assms(5) by (simp add: take_bit_xor encode_range)
  have int: "soft_to_int syn 12 = ?w" by (rule soft_to_int_12 [OF syn t(3) range])
  note def = s_detect_errors_def [of cw, unfolded Let_def, folded syn_def]
  show ?thesis
  proof (cases "ed = 0")
    case True
    then have "wt ?w \<le> 3" using assms(6) by simp
    then show ?thesis using s_popcount_less(1) [OF syn t(2)] int True unfolding def by simp
  next
    case False
    have "5 \<le> wt ?w" using wrong_pattern_weight [OF assms(4), of 0 ep] False assms(6) by simp
    then have no: "\<not> s_popcount syn 12 < 4 * 0xFFFE" by (rule s_popcount_less(2) [OF syn t(2)])
    note single = try_patterns_right [OF syn t(1) assms(5,4,6) single_patterns_ok(1), of "3 * 0xFFFE", unfolded single_patterns_ok(2) [OF assms(4)]]
    note double = try_patterns_right [OF syn t(1) assms(5,4,6) double_patterns_ok(1), of "2 * 0xFFFF", unfolded double_patterns_ok(2) [OF assms(4)]]
    have "wt ed \<noteq> 0" using False wt_zero [OF assms(4)] by simp
    then consider "wt ed = 1" | "wt ed = 2" | "wt ed = 3" using assms(6) by linarith
    then show ?thesis
    proof cases
      case 1
      then show ?thesis using no single unfolding def by simp
    next
      case 2
      then show ?thesis using no single double unfolding def by simp
    next
      case 3
      then have "ep = 0" using assms(6) wt_zero [OF assms(5)] by simp
      then have "combine decode_matrix ?w = ed" using decode_inverts [OF assms(4)] by simp
      then have inv: "noisy 12 ed 12 (soft_combine decode_matrix syn)" using soft_combine_noisy [OF syn t(3), of decode_matrix] by simp
      have "soft_to_int (soft_combine decode_matrix syn) 12 = ed" by (rule soft_to_int_12 [OF inv _ assms(4)]) simp
      then show ?thesis using no single double 3 s_popcount_less(7) [OF inv] \<open>ep = 0\<close> unfolding def by simp
    qed
  qed
qed

lemma card_bits_split:
  fixes e :: u32
  assumes "card {i. i < 24 \<and> bit e i} \<le> 3"
  shows "wt (take_bit 12 (ucast (drop_bit 12 e))) + wt (take_bit 12 (ucast e)) \<le> 3"
proof -
  let ?A = "{i. i < 12 \<and> bit e (12 + i)}" and ?B = "{i. i < 12 \<and> bit e i}"
  have a: "{i. i < 12 \<and> bit (take_bit 12 (ucast (drop_bit 12 e)) :: u16) i} = ?A"
    by (auto simp: bit_take_bit_iff bit_ucast_iff bit_drop_bit_eq)
  have b: "{i. i < 12 \<and> bit (take_bit 12 (ucast e) :: u16) i} = ?B" by (auto simp: bit_take_bit_iff bit_ucast_iff)
  have "card ((+) 12 ` ?A) = card ?A" by (rule card_image) simp
  moreover have "card ((+) 12 ` ?A \<union> ?B) = card ((+) 12 ` ?A) + card ?B" by (rule card_Un_disjoint) auto
  moreover have "(+) 12 ` ?A \<union> ?B \<subseteq> {i. i < 24 \<and> bit e i}" by auto
  then have "card ((+) 12 ` ?A \<union> ?B) \<le> card {i. i < 24 \<and> bit e i}" by (intro card_mono) simp_all
  ultimately show ?thesis using assms unfolding wt_def a b by linarith
qed

lemma golay_bits:
  assumes "take_bit 12 d = d"
  shows "bit (golay24_encode d) i \<longleftrightarrow> (if i < 12 then bit (combine encode_matrix d) i else i < 24 \<and> bit d (i - 12))"
proof -
  have "bit (combine encode_matrix d) i \<Longrightarrow> i < 12" for i using encode_range [of d] bit_take_bit_iff [of 12 "combine encode_matrix d" i] by simp
  moreover have "bit d i \<Longrightarrow> i < 12" for i using assms bit_take_bit_iff [of 12 d i] by simp
  moreover have "bit d (i - 12) \<Longrightarrow> i < 24" using calculation(2) [of "i - 12"] by linarith
  ultimately show ?thesis by (auto simp: golay24_encode_def bit_or_iff bit_push_bit_iff bit_ucast_iff)
qed

lemma golay24_sdecode_right:
  assumes "take_bit 12 d = d" "length c = 24" "\<forall>i < 24. near t (bit (golay24_encode d XOR e) i) (c ! (23 - i))" "t \<le> 4000"
    "card {i. i < 24 \<and> bit e i} \<le> 3"
  shows "golay24_sdecode c = d"
proof -
  define e' where "e' = take_bit 24 e"
  define ed ep where "ed = (take_bit 12 (ucast (drop_bit 12 e)) :: u16)" and "ep = (take_bit 12 (ucast e) :: u16)"
  let ?cw = "map (\<lambda>i. c ! (23 - i)) [0..<24]" and ?g = "golay24_encode d"
  have e: "bit e' i \<longleftrightarrow> (if i < 12 then bit ep i else i < 24 \<and> bit ed (i - 12))" for i
    unfolding e'_def ed_def ep_def by (auto simp: bit_take_bit_iff bit_ucast_iff bit_drop_bit_eq)
  have w: "wt ed + wt ep \<le> 3" unfolding ed_def ep_def by (rule card_bits_split [OF assms(5)])
  have cw: "near t (bit (?g XOR e') i) (?cw ! i)" if "i < 24" for i
    using assms(3) that by (simp add: bit_xor_iff e'_def bit_take_bit_iff)
  have low: "?cw ! i = c ! (23 - i)" if "i < 24" for i using that by simp
  have "near t (bit (d XOR ed) i) (c ! (11 - i))" if "i < 12" for i
    using cw [of "12 + i"] that by (simp add: bit_xor_iff e golay_bits [OF assms(1)])
  then have "noisy t (d XOR ed) 12 (take 12 (drop 12 ?cw))" by (simp add: noisy_def)
  moreover have "near t (bit (combine encode_matrix d XOR ep) i) (c ! (23 - i))" if "i < 12" for i
    using cw [of i] that by (simp add: bit_xor_iff e golay_bits [OF assms(1)])
  then have "noisy t (combine encode_matrix d XOR ep) 12 (take 12 ?cw)" by (simp add: noisy_def)
  ultimately have err: "s_detect_errors ?cw = push_bit 12 (ucast ed) OR ucast ep"
    using assms(4) w by (intro s_detect_errors_right) (simp_all add: ed_def ep_def)
  have eb: "bit (s_detect_errors ?cw) i \<longleftrightarrow> bit e' i" for i
  proof -
    have "bit ep i \<Longrightarrow> i < 12" "bit ed i \<Longrightarrow> i < 12" for i by (simp_all add: ed_def ep_def bit_take_bit_iff)
    moreover have "bit ed (i - 12) \<Longrightarrow> i < 24" using calculation(2) [of "i - 12"] by linarith
    ultimately show ?thesis unfolding err e by (auto simp: bit_or_iff bit_push_bit_iff bit_ucast_iff)
  qed
  have ne: "s_detect_errors ?cw \<noteq> 0xFFFFFFFF"
  proof
    assume "s_detect_errors ?cw = 0xFFFFFFFF"
    then have "bit (s_detect_errors ?cw) 31" by simp
    then show False unfolding eb by (simp add: e'_def bit_take_bit_iff)
  qed
  have b1: "bit (soft_to_int ?cw 16) j \<longleftrightarrow> j < 16 \<and> bit (?g XOR e') j" for j
    using cw assms(4) by (intro soft_to_int_near [of _ t]) simp_all
  have b2: "bit (soft_to_int (drop 16 ?cw) 8) j \<longleftrightarrow> j < 8 \<and> bit (?g XOR e') (16 + j)" for j
  proof (rule soft_to_int_near [of _ t])
    show "\<forall>i < 8. near t (bit (?g XOR e') (16 + i)) (drop 16 ?cw ! i)"
      using cw [of "16 + _"] by (auto simp: add.commute)
  qed (use assms(4) in simp_all)
  have m: "bit (0x0FFF :: u32) j \<longleftrightarrow> j < 12" "bit (0x0FFF :: int) j \<longleftrightarrow> j < 12" for j
    using bit_mask_iff [where 'a = u32, of 12 j] bit_mask_iff [where 'a = int, of 12 j] by (auto simp: mask_eq_exp_minus_1)
  have "bit (golay24_sdecode c) j \<longleftrightarrow> bit d j" for j
  proof (cases "j < 12")
    case True
    then have "bit (golay24_sdecode c) j \<longleftrightarrow> bit (?g XOR e') (12 + j) \<noteq> bit e' (12 + j)"
      using ne less_diff_conv2 [of 4 j 8] unfolding golay24_sdecode_def Let_def
      by (cases "j < 4") (simp_all add: bit_ucast_iff bit_and_iff bit_drop_bit_eq bit_xor_iff bit_or_iff bit_push_bit_iff b1 b2 eb m)
    then show ?thesis using True by (auto simp: bit_xor_iff golay_bits [OF assms(1)])
  next
    case False
    then have "\<not> bit (golay24_sdecode c) j" using ne unfolding golay24_sdecode_def Let_def by (simp add: bit_ucast_iff bit_and_iff m)
    then show ?thesis using False assms(1) bit_take_bit_iff [of 12 d j] by simp
  qed
  then show ?thesis by (auto simp: bit_eq_iff)
qed

section \<open>Correctness\<close>

text \<open>
  C37. A twelve-bit word that is encoded with the Golay code, sent as twenty-four soft bits with the most significant first,
  changed in any three of them or less, and received with an uncertainty of at most 4000 of 65535 on every bit, is decoded
  to the word that was sent.
\<close>

theorem golay_corrects_three_errors:
  assumes "take_bit 12 d = d" "card {i. i < 24 \<and> bit e i} \<le> 3"
    and "length c = 24" "\<forall>i < 24. near 4000 (bit (golay24_encode d XOR e) i) (c ! (23 - i))"
  shows "golay24_sdecode c = d"
  using assms by (intro golay24_sdecode_right [where t = 4000 and e = e]) simp_all

theorem golay_corrects_three_errors_witness:
  "golay24_sdecode (map (\<lambda>i. if bit (golay24_encode 0xD78 XOR 0x800401) (23 - i) then 0xFFFF - 3000 else 20) [0..<24]) = 0xD78"
proof (rule golay_corrects_three_errors [where e = "0x800401"])
  have "{i. i < 24 \<and> bit (0x800401 :: u32) i} \<subseteq> {0, 10, 23}"
  proof
    fix i assume "i \<in> {i. i < 24 \<and> bit (0x800401 :: u32) i}"
    then have "i \<in> set (filter (bit (0x800401 :: u32)) [0..<24])" by simp
    also have "filter (bit (0x800401 :: u32)) [0..<24] = [0, 10, 23]" by code_simp
    finally show "i \<in> {0, 10, 23}" by simp
  qed
  from card_mono [OF _ this] show "card {i. i < 24 \<and> bit (0x800401 :: u32) i} \<le> 3" by simp
qed (simp_all add: near_def)

subsection \<open>Link information channel\<close>

lemma bit_ones: "bit (0xFF :: int) j \<longleftrightarrow> j < 8" "bit (0xF :: int) j \<longleftrightarrow> j < 4" "bit (0x0FFF :: int) j \<longleftrightarrow> j < 12"
  using bit_mask_iff [where 'a = int, of 8 j] bit_mask_iff [where 'a = int, of 4 j] bit_mask_iff [where 'a = int, of 12 j]
  by (simp_all add: mask_eq_exp_minus_1)

lemma unpack_word: "concat (map unpack (word_bytes v)) = map (\<lambda>i. of_bool (bit v (23 - i))) [0..<24]"
proof -
  have u: "[0..<24] = map (\<lambda>j. 0 + j) [0..<8] @ map (\<lambda>j. 8 + j) [0..<8] @ map (\<lambda>j. 16 + j) [0..<8 :: nat]" by code_simp
  have "bit v (23 - j) = bit v (16 + (7 - j))" "bit v (23 - (8 + j)) = bit v (8 + (7 - j))" "bit v (23 - (16 + j)) = bit v (7 - j)" if "j < 8" for j
    using that by (simp_all add: Suc_leI le_imp_diff_is_add)
  then show ?thesis unfolding u
    by (simp add: word_bytes_def unpack_eq bit_ucast_iff bit_and_iff bit_drop_bit_eq bit_ones less_Suc_eq_le del: upt_conv_Cons) auto
qed

lemma golay24_sdecode_flipped:
  assumes "take_bit 12 d = d" "card {i. i < 24 \<and> P i} \<le> 3" "length c = 24"
    and "\<forall>i < 24. near 4000 (bit (golay24_encode d) (23 - i) \<noteq> P i) (c ! i)"
  shows "golay24_sdecode c = d"
proof (rule golay24_sdecode_right [where t = 4000])
  let ?e = "fold (\<lambda>i tmp. if P (23 - i) then tmp OR push_bit i 1 else tmp) [0..<24] 0 :: u32"
  have e: "bit ?e i \<longleftrightarrow> i < 24 \<and> P (23 - i)" for i by (auto simp: bit_fold_set simp del: upt_conv_Cons)
  show "\<forall>i < 24. near 4000 (bit (golay24_encode d XOR ?e) i) (c ! (23 - i))"
  proof (intro allI impI)
    fix i :: nat assume "i < 24"
    then show "near 4000 (bit (golay24_encode d XOR ?e) i) (c ! (23 - i))"
      using assms(4) [rule_format, of "23 - i"] by (simp add: bit_xor_iff e)
  qed
  have "inj_on (\<lambda>i :: nat. 23 - i) {i. i < 24 \<and> bit ?e i}" by (rule inj_onI) auto
  then have "card {i. i < 24 \<and> bit ?e i} = card ((\<lambda>i. 23 - i) ` {i. i < 24 \<and> bit ?e i})" by (rule card_image [symmetric])
  also have "\<dots> \<le> card {i. i < 24 \<and> P i}" by (rule card_mono) (auto simp: e)
  finally show "card {i. i < 24 \<and> bit ?e i} \<le> 3" using assms(2) by linarith
qed (use assms in simp_all)

definition LICH_words :: "bytes \<Rightarrow> u16 list" where
  "LICH_words inp = (let b = (\<lambda>i. ucast (inp ! i) :: u16) in
    [push_bit 4 (b 0) OR drop_bit 4 (b 1), push_bit 8 (b 1 AND 0x0F) OR b 2,
     push_bit 4 (b 3) OR drop_bit 4 (b 4), push_bit 8 (b 4 AND 0x0F) OR b 5])"

lemma LICH_words_ranges: "d \<in> set (LICH_words inp) \<Longrightarrow> take_bit 12 d = d"
proof -
  assume "d \<in> set (LICH_words inp)"
  moreover have "bit x n \<Longrightarrow> n < 8" for x :: u8 and n using bit_imp_le_length [of x n] by simp
  moreover have "bit (0xF00 :: int) j \<longleftrightarrow> 8 \<le> j \<and> j < 12" for j
    using bit_push_bit_iff [of 8 "0xF :: int" j] by (auto simp: bit_ones push_bit_eq_mult)
  ultimately have "bit d j \<Longrightarrow> j < 12" for j
    by (fastforce simp: LICH_words_def Let_def bit_or_iff bit_push_bit_iff bit_drop_bit_eq bit_ucast_iff bit_and_iff bit_ones)
  then show ?thesis by (auto simp: bit_eq_iff bit_take_bit_iff)
qed

lemma encode_LICH_words: "encode_LICH inp = concat (map (\<lambda>d. word_bytes (golay24_encode d)) (LICH_words inp))"
  by (simp add: encode_LICH_def LICH_words_def Let_def)

lemma length_word_bytes [simp]: "length (word_bytes v) = 3"
  by (simp add: word_bytes_def)

lemma unpack_encode_LICH:
  "unpack_LICH (encode_LICH inp) = concat (map (\<lambda>d. map (\<lambda>i. of_bool (bit (golay24_encode d) (23 - i))) [0..<24]) (LICH_words inp))"
proof -
  have "length (encode_LICH inp) = 12" by (simp add: encode_LICH_def Let_def)
  then have "unpack_LICH (encode_LICH inp) = concat (map unpack (encode_LICH inp))" by (simp add: unpack_LICH_def)
  then show ?thesis unfolding encode_LICH_words LICH_words_def Let_def by (simp add: unpack_word del: upt_conv_Cons)
qed

lemma nth_unpack_encode_LICH:
  assumes "k < 4" "i < 24"
  shows "unpack_LICH (encode_LICH inp) ! (24 * k + i) = of_bool (bit (golay24_encode (LICH_words inp ! k)) (23 - i))"
proof -
  obtain a b c d where w: "LICH_words inp = [a, b, c, d]" by (simp add: LICH_words_def Let_def)
  have "k = 0 \<or> k = 1 \<or> k = 2 \<or> k = 3" using assms(1) by linarith
  then show ?thesis using assms(2) unfolding unpack_encode_LICH w
    by (elim disjE) (simp_all add: nth_append del: upt_conv_Cons)
qed

lemma LICH_bytes:
  fixes a b c :: u8
  defines "v \<equiv> push_bit 4 (ucast a) OR drop_bit 4 (ucast b) :: u16" and "w \<equiv> push_bit 8 (ucast b AND 0x0F) OR ucast c :: u16"
  shows "ucast (drop_bit 4 v AND 0xFF) = a" "push_bit 4 (ucast (v AND 0xF)) OR ucast (drop_bit 8 w AND 0xF) = (b :: u8)" "ucast (w AND 0xFF) = c"
proof -
  have l: "bit x n \<Longrightarrow> n < 8" for x :: u8 and n using bit_imp_le_length [of x n] by simp
  have m: "bit (0xF00 :: int) j \<longleftrightarrow> 8 \<le> j \<and> j < 12" for j
    using bit_push_bit_iff [of 8 "0xF :: int" j] by (auto simp: bit_ones push_bit_eq_mult)
  note s = bit_or_iff bit_push_bit_iff bit_drop_bit_eq bit_ucast_iff bit_and_iff bit_ones m
  show "ucast (drop_bit 4 v AND 0xFF) = a"
    by (rule bit_word_eqI) (auto simp: v_def s dest: l)
  show "push_bit 4 (ucast (v AND 0xF)) OR ucast (drop_bit 8 w AND 0xF) = (b :: u8)"
  proof (rule bit_word_eqI)
    fix n assume "n < LENGTH(8)"
    then show "bit (push_bit 4 (ucast (v AND 0xF)) OR ucast (drop_bit 8 w AND 0xF) :: u8) n \<longleftrightarrow> bit b n"
      by (cases "n < 4") (auto simp: v_def w_def s dest: l)
  qed
  show "ucast (w AND 0xFF) = c"
    by (rule bit_word_eqI) (auto simp: w_def s dest: l)
qed

lemma LICH_decodes:
  assumes "length inp = 6" "length c = 96"
    and "\<forall>i < 96. near 4000 (unpack_LICH (encode_LICH inp) ! i = 1 \<longleftrightarrow> \<not> flipped i) (c ! i)"
    and "\<forall>k < 4. card {i. i < 24 \<and> flipped (24 * k + i)} \<le> 3"
  shows "decode_LICH c = inp"
proof -
  have w: "golay24_sdecode (take 24 (drop (24 * k) c)) = LICH_words inp ! k" if k: "k < 4" for k
  proof (rule golay24_sdecode_flipped [where P = "\<lambda>i. flipped (24 * k + i)"])
    show "take_bit 12 (LICH_words inp ! k) = LICH_words inp ! k"
      using k by (intro LICH_words_ranges [where inp = inp] nth_mem) (simp add: LICH_words_def Let_def)
    show "\<forall>i < 24. near 4000 (bit (golay24_encode (LICH_words inp ! k)) (23 - i) \<noteq> flipped (24 * k + i)) (take 24 (drop (24 * k) c) ! i)"
    proof (intro allI impI)
      fix i :: nat assume "i < 24"
      then show "near 4000 (bit (golay24_encode (LICH_words inp ! k)) (23 - i) \<noteq> flipped (24 * k + i)) (take 24 (drop (24 * k) c) ! i)"
        using assms(3) [rule_format, of "24 * k + i"] k assms(2) by (simp add: nth_unpack_encode_LICH)
    qed
  qed (use assms k in simp_all)
  obtain a0 a1 a2 a3 a4 a5 where inp: "inp = [a0, a1, a2, a3, a4, a5]"
    using assms(1) by (auto simp: numeral_eq_Suc length_Suc_conv)
  have d: "decode_LICH c = [ucast (drop_bit 4 (LICH_words inp ! 0) AND 0xFF),
      push_bit 4 (ucast (LICH_words inp ! 0 AND 0xF)) OR ucast (drop_bit 8 (LICH_words inp ! 1) AND 0xF), ucast (LICH_words inp ! 1 AND 0xFF),
      ucast (drop_bit 4 (LICH_words inp ! 2) AND 0xFF),
      push_bit 4 (ucast (LICH_words inp ! 2 AND 0xF)) OR ucast (drop_bit 8 (LICH_words inp ! 3) AND 0xF), ucast (LICH_words inp ! 3 AND 0xFF)]"
    using w [of 0] w [of 1] w [of 2] w [of 3] by (simp add: decode_LICH_def)
  have n: "LICH_words inp ! 0 = push_bit 4 (ucast a0) OR drop_bit 4 (ucast a1)" "LICH_words inp ! 1 = push_bit 8 (ucast a1 AND 0x0F) OR ucast a2"
    "LICH_words inp ! 2 = push_bit 4 (ucast a3) OR drop_bit 4 (ucast a4)" "LICH_words inp ! 3 = push_bit 8 (ucast a4 AND 0x0F) OR ucast a5"
    by (simp_all add: LICH_words_def inp)
  show ?thesis unfolding d n LICH_bytes by (simp only: inp)
qed

text \<open>
  C38. The link information channel: six bytes that are packed into four codewords, unpacked into 96 bits and received as soft
  bits with up to three flipped bits in each codeword, and an uncertainty of at most 4000 of 65535 on every bit, are decoded
  to the same six bytes.
\<close>

theorem LICH_roundtrip:
  assumes "length inp = 6" "length c = 96"
    and "\<forall>i < 96. near 4000 (unpack_LICH (encode_LICH inp) ! i = 1 \<longleftrightarrow> \<not> flipped i) (c ! i)"
    and "\<forall>k < 4. card {i. i < 24 \<and> flipped (24 * k + i)} \<le> 3"
  shows "decode_LICH c = inp"
  using assms by (rule LICH_decodes)

theorem LICH_roundtrip_witness:
  "decode_LICH (map (\<lambda>i. if (unpack_LICH (encode_LICH [0x12, 0, 0xFF, 7, 0x80, 0xE0]) ! i = 1) \<noteq> (i mod 24 \<in> {2, 9, 11}) then 0xF123 else 9)
      [0..<96]) = [0x12, 0, 0xFF, 7, 0x80, 0xE0]"
proof (rule LICH_roundtrip [where flipped = "\<lambda>i. i mod 24 \<in> {2, 9, 11}"])
  have "card {i :: nat. i < 24 \<and> i \<in> {2, 9, 11}} \<le> card {2, 9, 11 :: nat}" by (rule card_mono) auto
  then have "card {i :: nat. i < 24 \<and> i \<in> {2, 9, 11}} \<le> 3" by simp
  moreover have "{i. i < 24 \<and> (24 * k + i) mod 24 \<in> {2, 9, 11}} = {i. i < 24 \<and> i \<in> {2, 9, 11}}" for k :: nat by auto
  ultimately show "\<forall>k < 4 :: nat. card {i :: nat. i < 24 \<and> (24 * k + i) mod 24 \<in> {2, 9, 11}} \<le> 3" by simp
qed (auto simp: near_def simp del: upt_conv_Cons)

end
