(* ===== verification/M17_Payload.thy ===== *)
theory M17_Payload
  imports M17_Soft
begin

unbundle bit_operations_syntax

text \<open>
  The contents of the frames of \<open>libm17\<close> (\<open>payload/payload.c\<close>): call signs in base 40, the checksum, and the pieces of the link
  setup frame that the link information channel carries. Call signs come back from their addresses, and the checksum
  tells any change within two neighbouring bytes.
\<close>

section \<open>Model\<close>

subsection \<open>Call signs\<close>

definition CHAR_MAP :: bytes where
  "CHAR_MAP = map of_nat ([32] @ [65..<91] @ [48..<58] @ [45, 47, 46])"

definition U40_9 :: u64 where "U40_9 = 262144000000000"
definition U40_9_8 :: u64 where "U40_9_8 = 268697600000000"

text \<open>The string before the terminating zero; without one \<open>strlen\<close> leaves the block.\<close>

definition c_str :: "bytes \<Rightarrow> bytes option" where
  "c_str inp = (if 0 \<in> set inp then Some (takeWhile (\<lambda>c. c \<noteq> 0) inp) else None)"

function decode_digits :: "u64 \<Rightarrow> bytes" where
  "decode_digits encoded = (if encoded = 0 then [] else CHAR_MAP ! unat (encoded mod 40) # decode_digits (encoded div 40))"
  by pat_completeness auto
termination by (relation "measure unat") (simp_all add: unat_div_distrib unat_gt_0)

declare decode_digits.simps [simp del]

definition AT_ALL :: bytes where
  "AT_ALL = [0x40, 0x41, 0x4C, 0x4C]"

definition decode_callsign_value :: "bytes \<Rightarrow> u64 \<Rightarrow> bytes option" where
  "decode_callsign_value outp encoded =
    (if encoded \<ge> U40_9
     then if encoded = 0xFFFFFFFFFFFF then mem_write outp 0 (AT_ALL @ [0])
          else if encoded \<le> U40_9_8 then mem_write outp 0 (0x23 # decode_digits (encoded - U40_9) @ [0])
          else Some outp
     else mem_write outp 0 (decode_digits encoded @ [0]))"

definition decode_callsign_bytes :: "bytes \<Rightarrow> bytes \<Rightarrow> bytes option" where
  "decode_callsign_bytes outp inp =
    decode_callsign_value outp (fold (\<lambda>i encoded. encoded OR push_bit (8 * i) (ucast (inp ! (5 - i)))) [0..<6] 0)"

text \<open>The position of a character in the table; a character that is not there is passed over.\<close>

definition char_index :: "u8 \<Rightarrow> nat option" where
  "char_index c = List.find (\<lambda>j. c = CHAR_MAP ! j) [0..<40]"

definition encode_digit :: "u8 \<Rightarrow> u64 \<Rightarrow> u64" where
  "encode_digit c tmp = (case char_index c of Some j \<Rightarrow> tmp * 40 + of_nat j | None \<Rightarrow> tmp)"

text \<open>The value, or \<open>None\<close> within for the result \<open>-1\<close>.\<close>

definition encode_callsign_value :: "bytes \<Rightarrow> u64 option option" where
  "encode_callsign_value inp =
    do { s \<leftarrow> c_str inp;
         Some (if length s > 9 then None
               else if s = AT_ALL then Some 0xFFFFFFFFFFFF
               else let start = (if inp ! 0 = 0x23 then 1 else 0);
                        tmp = fold encode_digit (rev (drop start s)) 0
                    in Some (if start \<noteq> 0 then tmp + U40_9 else tmp)) }"

definition encode_callsign_bytes :: "bytes \<Rightarrow> bytes option option" where
  "encode_callsign_bytes inp =
    do { r \<leftarrow> encode_callsign_value inp;
         Some (map_option (\<lambda>tmp. map (\<lambda>i. ucast (drop_bit (8 * (5 - i)) tmp AND 0xFF)) [0..<6]) r) }"

subsection \<open>Checksum\<close>

definition M17_CRC_POLY :: u32 where
  "M17_CRC_POLY = 0x5935"

definition crc_bit :: "u32 \<Rightarrow> u32" where
  "crc_bit crc = (let crc = push_bit 1 crc in if crc AND 0x10000 \<noteq> 0 then (crc XOR M17_CRC_POLY) AND 0xFFFF else crc)"

definition crc_byte :: "u8 \<Rightarrow> u32 \<Rightarrow> u32" where
  "crc_byte b crc = (crc_bit ^^ 8) (crc XOR push_bit 8 (ucast b))"

definition CRC_M17 :: "bytes \<Rightarrow> u16" where
  "CRC_M17 inp = ucast (fold crc_byte inp 0xFFFF AND 0xFFFF)"

subsection \<open>Link setup frame\<close>

text \<open>The link setup frame.\<close>

record lsf_t =
  lsf_dst :: bytes
  lsf_src :: bytes
  lsf_type :: bytes
  lsf_meta :: bytes
  lsf_crc :: bytes

definition lsf_bytes :: "lsf_t \<Rightarrow> bytes" where
  "lsf_bytes l = lsf_dst l @ lsf_src l @ lsf_type l @ lsf_meta l @ lsf_crc l"

definition lsf_ok :: "lsf_t \<Rightarrow> bool" where
  "lsf_ok l \<longleftrightarrow> length (lsf_dst l) = 6 \<and> length (lsf_src l) = 6 \<and> length (lsf_type l) = 2 \<and> length (lsf_meta l) = 14 \<and> length (lsf_crc l) = 2"

definition LSF_CRC :: "lsf_t \<Rightarrow> u16" where
  "LSF_CRC l = CRC_M17 (lsf_dst l @ lsf_src l @ lsf_type l @ lsf_meta l)"

text \<open>The pieces of the frame, five bytes each. Another counter leaves the five bytes as they are.\<close>

definition extract_LICH :: "bytes \<Rightarrow> nat \<Rightarrow> lsf_t \<Rightarrow> bytes" where
  "extract_LICH outp cnt l =
    (let d = lsf_dst l; s = lsf_src l; t = lsf_type l; m = lsf_meta l; c = lsf_crc l in
     (if cnt = 0 then [d ! 0, d ! 1, d ! 2, d ! 3, d ! 4]
      else if cnt = 1 then [d ! 5, s ! 0, s ! 1, s ! 2, s ! 3]
      else if cnt = 2 then [s ! 4, s ! 5, t ! 0, t ! 1, m ! 0]
      else if cnt = 3 then [m ! 1, m ! 2, m ! 3, m ! 4, m ! 5]
      else if cnt = 4 then [m ! 6, m ! 7, m ! 8, m ! 9, m ! 10]
      else if cnt = 5 then [m ! 11, m ! 12, m ! 13, c ! 0, c ! 1]
      else take 5 outp) @ [push_bit 5 (of_nat cnt)])"

section \<open>Checksum\<close>

definition fit :: "u32 \<Rightarrow> bool" where
  "fit c \<longleftrightarrow> take_bit 16 c = c"

lemma fit_bit: "fit c \<Longrightarrow> bit c n \<Longrightarrow> n < 16"
  unfolding fit_def by (metis bit_take_bit_iff)

lemma fitI: "(\<And>n. bit c n \<Longrightarrow> n < 16) \<Longrightarrow> fit c"
  unfolding fit_def by (rule bit_word_eqI) (auto simp: bit_take_bit_iff)

lemma bit_crc_bit:
  assumes "fit a"
  shows "bit (crc_bit a) n \<longleftrightarrow> n < 16 \<and> ((0 < n \<and> bit a (n - 1)) \<noteq> (bit a 15 \<and> bit (0x5935 :: u32) n))"
proof -
  have m: "bit (0xFFFF :: u32) n \<longleftrightarrow> n < 16"
  proof -
    have "(0xFFFF :: u32) = mask 16" by (simp add: mask_eq_exp_minus_1)
    then show ?thesis by (simp only: bit_mask_iff) auto
  qed
  have "(0x10000 :: u32) = push_bit 16 1" by simp
  then have c: "push_bit 1 a AND 0x10000 \<noteq> 0 \<longleftrightarrow> bit a 15"
    using bit_iff_and_push_bit_not_eq_0 [of "push_bit 1 a" 16] bit_push_bit_iff [of 1 a 16] by (simp only:) simp
  have p: "bit (push_bit 1 a) n \<longleftrightarrow> 0 < n \<and> n < 32 \<and> bit a (n - 1)" by (auto simp: bit_push_bit_iff simp del: push_bit_Suc)
  have o: "\<not> bit a 15 \<Longrightarrow> bit a (n - 1) \<Longrightarrow> n < 16" using fit_bit [OF assms, of "n - 1"] by (cases "n = 16") auto
  show ?thesis
  proof (cases "bit a 15")
    case True
    then have "crc_bit a = (push_bit 1 a XOR 0x5935) AND 0xFFFF"
      using c unfolding crc_bit_def Let_def M17_CRC_POLY_def by (simp only: if_True simp_thms)
    then show ?thesis by (simp only: bit_and_iff bit_xor_iff p m) (use True in auto)
  next
    case False
    then have "crc_bit a = push_bit 1 a"
      using c unfolding crc_bit_def Let_def by (simp only: if_False simp_thms)
    then show ?thesis by (simp only: p) (use False o in auto)
  qed
qed

lemma crc_bit_fit: "fit a \<Longrightarrow> fit (crc_bit a)"
  by (rule fitI) (simp add: bit_crc_bit)

lemma fit_XOR: "fit a \<Longrightarrow> fit b \<Longrightarrow> fit (a XOR b)"
  by (rule fitI) (auto simp: bit_xor_iff dest: fit_bit)

lemma crc_bit_XOR: "fit a \<Longrightarrow> fit b \<Longrightarrow> crc_bit (a XOR b) = crc_bit a XOR crc_bit b"
  by (rule bit_word_eqI) (auto simp: bit_crc_bit fit_XOR bit_xor_iff)

lemma crc_bit_inj:
  assumes "fit a" "fit b" "crc_bit a = crc_bit b"
  shows "a = b"
proof -
  have e: "bit (crc_bit a) n = bit (crc_bit b) n" for n using assms(3) by simp
  have h: "bit a 15 = bit b 15" using e [of 0] unfolding bit_crc_bit [OF assms(1)] bit_crc_bit [OF assms(2)] by simp
  have "bit a n = bit b n" if "n < 15" for n
    using e [of "Suc n"] that h unfolding bit_crc_bit [OF assms(1)] bit_crc_bit [OF assms(2)] by auto
  then have "bit a n = bit b n" for n
    using h fit_bit [OF assms(1), of n] fit_bit [OF assms(2), of n] by (cases "n < 15"; cases "n = 15") auto
  then show ?thesis by (auto intro: bit_word_eqI)
qed

lemma crc_pow:
  assumes "fit a" "fit b"
  shows "fit ((crc_bit ^^ k) a)" "(crc_bit ^^ k) (a XOR b) = (crc_bit ^^ k) a XOR (crc_bit ^^ k) b"
    "(crc_bit ^^ k) a = (crc_bit ^^ k) b \<Longrightarrow> a = b"
proof -
  have f: "fit ((crc_bit ^^ k) a)" if "fit a" for a k using that by (induction k) (simp_all add: crc_bit_fit)
  show "fit ((crc_bit ^^ k) a)" by (rule f [OF assms(1)])
  show "(crc_bit ^^ k) (a XOR b) = (crc_bit ^^ k) a XOR (crc_bit ^^ k) b"
    by (induction k) (simp_all add: crc_bit_XOR f assms)
  show "(crc_bit ^^ k) a = (crc_bit ^^ k) b \<Longrightarrow> a = b"
    by (induction k) (auto dest: crc_bit_inj [OF f f, OF assms])
qed

lemma fit_byte: "fit (ucast (b :: u8))" "fit (push_bit 8 (ucast (b :: u8)))"
proof -
  have "bit b n \<Longrightarrow> n < 8" for n using bit_imp_le_length [of b n] by simp
  then show "fit (ucast b)" "fit (push_bit 8 (ucast b))"
    by (auto intro!: fitI simp: bit_ucast_iff bit_push_bit_iff) fastforce+
qed

lemma crc_low_byte: "(crc_bit ^^ 8) (ucast (b :: u8)) = push_bit 8 (ucast b)"
proof -
  have l: "bit b n \<Longrightarrow> n < 8" for n using bit_imp_le_length [of b n] by simp
  have "(crc_bit ^^ k) (ucast b) = push_bit k (ucast b)" if "k \<le> 8" for k
    using that
  proof (induction k)
    case (Suc k)
    have "fit (push_bit k (ucast b))" using l Suc.prems by (intro fitI) (fastforce simp: bit_ucast_iff bit_push_bit_iff)
    moreover have "\<not> bit (push_bit k (ucast b :: u32)) 15" using l [of "15 - k"] Suc.prems by (auto simp: bit_push_bit_iff bit_ucast_iff)
    ultimately have "crc_bit (push_bit k (ucast b)) = push_bit (Suc k) (ucast b)"
    proof (intro bit_word_eqI)
      fix n assume "fit (push_bit k (ucast b))" "\<not> bit (push_bit k (ucast b :: u32)) 15"
      then show "bit (crc_bit (push_bit k (ucast b))) n = bit (push_bit (Suc k) (ucast b :: u32)) n"
        using l [of "n - Suc k"] Suc.prems by (auto simp: bit_crc_bit bit_push_bit_iff bit_ucast_iff simp del: push_bit_Suc)
    qed
    then show ?case using Suc by simp
  qed simp
  then show ?thesis by blast
qed

lemma crc_fit: "fit s \<Longrightarrow> fit (fold crc_byte xs s)"
  by (induction xs arbitrary: s) (simp_all add: crc_byte_def crc_pow(1) fit_XOR fit_byte)

lemma crc_two_bytes:
  assumes "fit s"
  shows "crc_byte b (crc_byte a s) = (crc_bit ^^ 8) ((crc_bit ^^ 8) (s XOR (push_bit 8 (ucast a) XOR ucast b)))"
proof -
  have "(crc_bit ^^ 8) (s XOR push_bit 8 (ucast a)) XOR push_bit 8 (ucast b)
      = (crc_bit ^^ 8) ((s XOR push_bit 8 (ucast a)) XOR ucast b)"
    by (simp only: crc_low_byte crc_pow(2) [OF fit_XOR [OF assms fit_byte(2)] fit_byte(1)])
  then show ?thesis by (simp only: crc_byte_def xor.assoc)
qed

lemma byte_pair_inj:
  assumes "push_bit 8 (ucast (a :: u8)) XOR ucast b = (push_bit 8 (ucast a') XOR ucast (b' :: u8) :: u32)"
  shows "a = a' \<and> b = b'"
proof -
  have l: "bit x n \<Longrightarrow> n < 8" for x :: u8 and n using bit_imp_le_length [of x n] by simp
  have e: "bit (push_bit 8 (ucast a) XOR ucast b :: u32) n = bit (push_bit 8 (ucast a') XOR ucast b' :: u32) n" for n using assms by simp
  have "bit b n = bit b' n" for n using e [of n] l [of b n] l [of b' n] by (auto simp: bit_xor_iff bit_push_bit_iff bit_ucast_iff)
  moreover have "bit a n = bit a' n" for n
    using e [of "8 + n"] l [of b "8 + n"] l [of b' "8 + n"] l [of a n] l [of a' n] by (auto simp: bit_xor_iff bit_push_bit_iff bit_ucast_iff)
  ultimately show ?thesis by (auto intro: bit_word_eqI)
qed

lemma crc_state: "fit c \<Longrightarrow> ucast (c AND 0xFFFF) = (ucast c :: u16)" "fit c \<Longrightarrow> fit c' \<Longrightarrow> ucast c = (ucast c' :: u16) \<Longrightarrow> c = c'"
proof -
  have m: "(0xFFFF :: u32) = mask 16" by (simp add: mask_eq_exp_minus_1)
  show "fit c \<Longrightarrow> ucast (c AND 0xFFFF) = (ucast c :: u16)" unfolding m fit_def by (metis take_bit_eq_mask)
  assume c: "fit c" "fit c'" "ucast c = (ucast c' :: u16)"
  have "bit (ucast c :: u16) n = bit (ucast c' :: u16) n" for n using c(3) by simp
  then have "bit c n = bit c' n" for n using fit_bit [OF c(1), of n] fit_bit [OF c(2), of n] by (fastforce simp: bit_ucast_iff)
  then show "c = c'" by (auto intro: bit_word_eqI)
qed

lemma fit_start: "fit 0xFFFF"
  by (simp add: fit_def)

lemma CRC_fold: "CRC_M17 xs = ucast (fold crc_byte xs 0xFFFF)"
  by (simp add: CRC_M17_def crc_state(1) [OF crc_fit [OF fit_start]])

lemma xor_cancel: "x XOR z = y XOR z \<Longrightarrow> x = y" for x :: u32
  by (metis xor.assoc xor_self_eq xor.right_neutral)

lemma crc_fold_inj: "fit s \<Longrightarrow> fit s' \<Longrightarrow> fold crc_byte zs s = fold crc_byte zs s' \<Longrightarrow> s = s'"
proof (induction zs arbitrary: s s')
  case (Cons z zs)
  let ?z = "push_bit 8 (ucast z)"
  have f: "fit (s XOR ?z)" "fit (s' XOR ?z)" using Cons.prems by (simp_all add: fit_XOR fit_byte)
  have "fit (crc_byte z s)" "fit (crc_byte z s')" unfolding crc_byte_def using f by (simp_all add: crc_pow(1))
  then have "crc_byte z s = crc_byte z s'" using Cons.IH Cons.prems(3) by simp
  then have "s XOR ?z = s' XOR ?z" unfolding crc_byte_def by (rule crc_pow(3) [OF f])
  then show ?case by (rule xor_cancel)
qed simp

text \<open>
  The checksum of M17: a message with its own checksum behind it, the high byte first, has the checksum zero, and two messages
  that differ in two neighbouring bytes only, in any way, have different checksums.
\<close>

theorem CRC_M17_detects:
  "CRC_M17 (xs @ [ucast (drop_bit 8 (CRC_M17 xs)), ucast (CRC_M17 xs)]) = 0 \<and>
    ((a, b) \<noteq> (a', b') \<longrightarrow> CRC_M17 (xs @ [a, b] @ zs) \<noteq> CRC_M17 (xs @ [a', b'] @ zs))"
proof (intro conjI impI)
  let ?s = "fold crc_byte xs 0xFFFF"
  have s: "fit ?s" by (rule crc_fit [OF fit_start])
  have "push_bit 8 (ucast (ucast (drop_bit 8 (ucast ?s :: u16)) :: u8)) XOR ucast (ucast (ucast ?s :: u16) :: u8) = ?s"
    by (rule bit_word_eqI) (auto simp: bit_xor_iff bit_push_bit_iff bit_ucast_iff bit_drop_bit_eq dest: fit_bit [OF s])
  then have "fold crc_byte (xs @ [ucast (drop_bit 8 (CRC_M17 xs)), ucast (CRC_M17 xs)]) 0xFFFF = (crc_bit ^^ 8) ((crc_bit ^^ 8) 0)"
    unfolding CRC_fold by (simp only: fold_append o_apply fold_simps crc_two_bytes [OF s] xor_self_eq id_apply)
  moreover have "(crc_bit ^^ k) 0 = 0" for k by (induction k) (simp_all add: crc_bit_def)
  ultimately show "CRC_M17 (xs @ [ucast (drop_bit 8 (CRC_M17 xs)), ucast (CRC_M17 xs)]) = 0"
    by (simp only: CRC_fold) simp
next
  let ?s = "fold crc_byte xs 0xFFFF"
  have s: "fit ?s" by (rule crc_fit [OF fit_start])
  assume n: "(a, b) \<noteq> (a', b')"
  let ?w = "\<lambda>a b. push_bit 8 (ucast a) XOR ucast b :: u32"
  have w: "fit (?s XOR ?w a b)" for a b :: u8 using s by (simp add: fit_XOR fit_byte)
  show "CRC_M17 (xs @ [a, b] @ zs) \<noteq> CRC_M17 (xs @ [a', b'] @ zs)"
  proof
    assume "CRC_M17 (xs @ [a, b] @ zs) = CRC_M17 (xs @ [a', b'] @ zs)"
    then have "fold crc_byte (xs @ [a, b] @ zs) 0xFFFF = fold crc_byte (xs @ [a', b'] @ zs) 0xFFFF"
      unfolding CRC_fold by (rule crc_state(2) [OF crc_fit [OF fit_start] crc_fit [OF fit_start]])
    then have "fold crc_byte zs (crc_byte b (crc_byte a ?s)) = fold crc_byte zs (crc_byte b' (crc_byte a' ?s))" by simp
    then have "(crc_bit ^^ 8) ((crc_bit ^^ 8) (?s XOR ?w a b)) = (crc_bit ^^ 8) ((crc_bit ^^ 8) (?s XOR ?w a' b'))"
      unfolding crc_two_bytes [OF s] by (rule crc_fold_inj [rotated 2]) (intro crc_pow(1) [OF _ fit_start] w)+
    then have "(crc_bit ^^ 8) (?s XOR ?w a b) = (crc_bit ^^ 8) (?s XOR ?w a' b')"
      by (rule crc_pow(3) [OF crc_pow(1) [OF w w] crc_pow(1) [OF w w]])
    then have "?s XOR ?w a b = ?s XOR ?w a' b'" by (rule crc_pow(3) [OF w w])
    then have "?w a b = ?w a' b'" by (simp only: xor.commute [of ?s]) (rule xor_cancel)
    then show False using byte_pair_inj n by blast
  qed
qed

theorem CRC_M17_detects_witness:
  "CRC_M17 [0x41, 0x20, 0x6E] = 0 \<and> CRC_M17 [0x41, 0x42, 0x43, 7] \<noteq> CRC_M17 [0x41, 0x43, 0x42, 7]"
proof -
  have "CRC_M17 [0x41] = 0x206E" by code_simp
  then have "CRC_M17 [0x41, 0x20, 8302] = 0"
    using CRC_M17_detects [of "[0x41]" 0 0 0 0 "[]"] by simp
  moreover have "(8302 :: u8) = 0x6E" by simp
  ultimately have "CRC_M17 [0x41, 0x20, 0x6E] = 0" by metis
  moreover have "CRC_M17 [0x41, 0x42, 0x43, 7] \<noteq> CRC_M17 [0x41, 0x43, 0x42, 7]"
    using CRC_M17_detects [of "[0x41]" 66 67 67 66 "[7]"] by simp
  ultimately show ?thesis by blast
qed

section \<open>Call signs\<close>

lemma CHAR_MAP_index: "\<forall>j \<in> set [0..<40]. char_index (CHAR_MAP ! j) = Some j"
  by code_simp

lemma CHAR_MAP_facts: "length CHAR_MAP = 40" "CHAR_MAP ! 0 = 0x20" "0 \<notin> set CHAR_MAP" "0x23 \<notin> set CHAR_MAP" "0x40 \<notin> set CHAR_MAP"
  by code_simp+

fun call_value :: "nat list \<Rightarrow> nat" where
  "call_value [] = 0"
| "call_value (j # js) = j + 40 * call_value js"

lemma call_value_less: "\<forall>j \<in> set js. j < 40 \<Longrightarrow> call_value js < 40 ^ length js"
  by (induction js) auto

lemma call_value_pos: "js \<noteq> [] \<Longrightarrow> last js \<noteq> 0 \<Longrightarrow> 0 < call_value js"
  by (induction js) (auto split: if_splits)

lemma encode_digits:
  "\<forall>j \<in> set js. j < 40 \<Longrightarrow> fold encode_digit (rev (map (\<lambda>j. CHAR_MAP ! j) js)) 0 = of_nat (call_value js)"
proof (induction js)
  case (Cons j js)
  have "char_index (CHAR_MAP ! j) = Some j" using CHAR_MAP_index Cons.prems by simp
  then show ?case using Cons by (simp add: encode_digit_def algebra_simps)
qed simp

lemma decode_encoded:
  "\<forall>j \<in> set js. j < 40 \<Longrightarrow> js = [] \<or> last js \<noteq> 0 \<Longrightarrow> call_value js < 2 ^ 64 \<Longrightarrow>
    decode_digits (of_nat (call_value js)) = map (\<lambda>j. CHAR_MAP ! j) js"
proof (induction js)
  case Nil
  then show ?case by (simp add: decode_digits.simps)
next
  case (Cons j js)
  let ?v = "call_value (j # js)"
  have u: "unat (of_nat ?v :: u64) = ?v" using Cons.prems(3) by (intro unat_of_nat_small) simp
  have "0 < ?v" using Cons.prems(2) by (intro call_value_pos) simp_all
  then have n: "(of_nat ?v :: u64) \<noteq> 0" using u by (metis less_irrefl unat_0)
  have j: "j < 40" using Cons.prems(1) by simp
  have "unat (of_nat ?v mod 40 :: u64) = j" unfolding unat_mod_distrib u using j by simp
  moreover have "(of_nat ?v div 40 :: u64) = of_nat (call_value js)"
  proof -
    have "unat (of_nat ?v div 40 :: u64) = call_value js" unfolding unat_div_distrib u using j by simp
    then show ?thesis by (metis of_nat_unat ucast_id)
  qed
  moreover have "decode_digits (of_nat (call_value js)) = map (\<lambda>j. CHAR_MAP ! j) js"
    using Cons.prems by (intro Cons.IH) (auto split: if_splits)
  ultimately show ?case using n by (simp only: decode_digits.simps [of "of_nat ?v"] if_False list.map)
qed

lemma address_bytes:
  fixes w :: u64
  assumes "take_bit 48 w = w"
  shows "fold (\<lambda>i e. e OR push_bit (8 * i) (ucast (map (\<lambda>i. ucast (drop_bit (8 * (5 - i)) w AND 0xFF) :: u8) [0..<6] ! (5 - i)))) [0..<6] 0 = w"
proof -
  let ?b = "\<lambda>i. map (\<lambda>i. ucast (drop_bit (8 * (5 - i)) w AND 0xFF) :: u8) [0..<6] ! (5 - i)"
  have m: "bit (0xFF :: u64) n \<longleftrightarrow> n < 8" for n
  proof -
    have "(0xFF :: u64) = mask 8" by (simp add: mask_eq_exp_minus_1)
    then show ?thesis by (simp only: bit_mask_iff) auto
  qed
  have b: "bit (push_bit (8 * i) (ucast (?b i)) :: u64) n \<longleftrightarrow> 8 * i \<le> n \<and> n < 8 * i + 8 \<and> bit w n" if "i < 6" for i n
  proof -
    have "?b i = ucast (drop_bit (8 * i) w AND 0xFF)" using that by (subst nth_map, simp, subst nth_upt, simp, simp)
    moreover have "n < 64" if "bit w n" for n using bit_imp_le_length [OF that] by simp
    ultimately show ?thesis by (simp only: bit_push_bit_iff bit_ucast_iff bit_and_iff bit_drop_bit_eq m o_apply) auto
  qed
  have o: "bit (fold (\<lambda>i e. e OR f i) is (e :: u64)) n \<longleftrightarrow> bit e n \<or> (\<exists>i \<in> set is. bit (f i) n)" for f "is" e n
    by (induction "is" arbitrary: e) (auto simp: bit_or_iff)
  have w: "n < 48" if "bit w n" for n using assms that bit_take_bit_iff [of 48 w n] by simp
  show ?thesis
  proof (rule bit_word_eqI)
    fix n
    have "(\<exists>i \<in> set [0..<6]. 8 * i \<le> n \<and> n < 8 * i + 8 \<and> bit w n) \<longleftrightarrow> bit w n"
      using w [of n] by (auto intro!: bexI [of _ "n div 8"])
    moreover have "(\<exists>i \<in> set [0..<6]. bit (push_bit (8 * i) (ucast (?b i)) :: u64) n) \<longleftrightarrow>
        (\<exists>i \<in> set [0..<6]. 8 * i \<le> n \<and> n < 8 * i + 8 \<and> bit w n)"
      by (intro bex_cong refl b) (simp only: set_upt atLeastLessThan_iff)
    ultimately show "bit (fold (\<lambda>i e. e OR push_bit (8 * i) (ucast (?b i))) [0..<6] (0 :: u64)) n = bit w n"
      using o [of "\<lambda>i. push_bit (8 * i) (ucast (?b i))" "[0..<6]" 0 n] by (simp only: bit_0_eq bot_apply bot_bool_def simp_thms)
  qed
qed

definition valid_call :: "bytes \<Rightarrow> bool" where
  "valid_call t \<longleftrightarrow> set t \<subseteq> set CHAR_MAP \<and> (t = [] \<or> last t \<noteq> 0x20)"

lemma valid_call_indices:
  assumes "valid_call t"
  obtains js where "t = map (\<lambda>j. CHAR_MAP ! j) js" "\<forall>j \<in> set js. j < 40" "js = [] \<or> last js \<noteq> 0" "length js = length t"
proof -
  have "\<forall>c \<in> set t. \<exists>j. j < 40 \<and> c = CHAR_MAP ! j"
    using assms CHAR_MAP_facts(1) by (fastforce simp: valid_call_def in_set_conv_nth)
  then obtain f where f: "\<forall>c \<in> set t. f c < 40 \<and> c = CHAR_MAP ! f c" by metis
  then have t: "t = map (\<lambda>j. CHAR_MAP ! j) (map f t)" by (simp add: map_idI comp_def)
  have "t = [] \<or> last (map f t) \<noteq> 0"
    using f assms CHAR_MAP_facts(2) by (metis last_in_set last_map valid_call_def)
  then show ?thesis using that [OF t] f by simp
qed

lemma c_str_block: "0 \<notin> set s \<Longrightarrow> c_str (s @ 0 # rest) = Some s"
  by (induction s) (auto simp: c_str_def)

lemma bytes_address:
  assumes "unat w < 2 ^ 48"
  shows "decode_callsign_bytes outp (map (\<lambda>i. ucast (drop_bit (8 * (5 - i)) w AND 0xFF)) [0..<6]) = decode_callsign_value outp w"
proof -
  have "take_bit 48 w = w" using assms by (intro unsigned_word_eqI [where 'a = nat]) (simp add: unsigned_take_bit_eq take_bit_nat_eq_self)
  then show ?thesis unfolding decode_callsign_bytes_def by (simp only: address_bytes)
qed

lemma plain_call:
  assumes "valid_call t" "length t \<le> 9"
  shows "\<exists>w. encode_callsign_value (t @ 0 # rest) = Some (Some w) \<and> unat w < 2 ^ 48 \<and>
    (length t < length outp \<longrightarrow> decode_callsign_value outp w = Some (t @ 0 # drop (length t + 1) outp))"
proof -
  obtain js where js: "t = map (\<lambda>j. CHAR_MAP ! j) js" "\<forall>j \<in> set js. j < 40" "js = [] \<or> last js \<noteq> 0" "length js = length t"
    by (rule valid_call_indices [OF assms(1)])
  have s: "0 \<notin> set t" "0x23 \<notin> set t" "0x40 \<notin> set t" using assms(1) CHAR_MAP_facts by (auto simp: valid_call_def)
  then have h: "t \<noteq> AT_ALL" "(t @ 0 # rest) ! 0 \<noteq> 0x23" by (cases t; auto simp: AT_ALL_def)+
  have "call_value js < 40 ^ length js" by (rule call_value_less [OF js(2)])
  also have "\<dots> \<le> 40 ^ 9" using js(4) assms(2) by (intro power_increasing) simp_all
  finally have v: "call_value js < 40 ^ 9" .
  then have u: "unat (of_nat (call_value js) :: u64) = call_value js" by (intro unat_of_nat_small) simp
  have e: "encode_callsign_value (t @ 0 # rest) = Some (Some (of_nat (call_value js)))"
    using s h assms(2) encode_digits [OF js(2)] unfolding encode_callsign_value_def by (simp add: c_str_block Let_def js(1) [symmetric])
  have d: "decode_digits (of_nat (call_value js)) = t" using v js(1) decode_encoded [OF js(2,3)] by simp
  have "\<not> U40_9 \<le> of_nat (call_value js)" using v by (simp add: U40_9_def word_le_nat_alt u)
  then have "length t < length outp \<longrightarrow> decode_callsign_value outp (of_nat (call_value js)) = Some (t @ 0 # drop (length t + 1) outp)"
    by (simp add: decode_callsign_value_def d)
  then show ?thesis using e u v by (intro exI [of _ "of_nat (call_value js)"]) simp
qed

lemma hash_call:
  assumes "valid_call t" "length t \<le> 8"
  shows "\<exists>w. encode_callsign_value (0x23 # t @ 0 # rest) = Some (Some w) \<and> unat w < 2 ^ 48 \<and>
    (length t + 1 < length outp \<longrightarrow> decode_callsign_value outp w = Some (0x23 # t @ 0 # drop (length t + 2) outp))"
proof -
  obtain js where js: "t = map (\<lambda>j. CHAR_MAP ! j) js" "\<forall>j \<in> set js. j < 40" "js = [] \<or> last js \<noteq> 0" "length js = length t"
    by (rule valid_call_indices [OF assms(1)])
  have "0 \<notin> set t" using assms(1) CHAR_MAP_facts by (auto simp: valid_call_def)
  then have c: "c_str (0x23 # t @ 0 # rest) = Some (0x23 # t)" using c_str_block [of "0x23 # t" rest] by simp
  have "call_value js < 40 ^ length js" by (rule call_value_less [OF js(2)])
  also have "\<dots> \<le> 40 ^ 8" using js(4) assms(2) by (intro power_increasing) simp_all
  finally have v: "call_value js < 40 ^ 8" .
  let ?v = "of_nat (call_value js) :: u64"
  have u: "unat ?v = call_value js" using v by (intro unat_of_nat_small) simp
  then have a: "unat (?v + U40_9) = call_value js + 262144000000000" using v by (simp add: U40_9_def unat_word_ariths)
  have e: "encode_callsign_value (0x23 # t @ 0 # rest) = Some (Some (?v + U40_9))"
    using assms(2) encode_digits [OF js(2)] unfolding encode_callsign_value_def c
    by (simp add: AT_ALL_def Let_def js(1) [symmetric])
  have d: "decode_digits ?v = t" using v js(1) decode_encoded [OF js(2,3)] by simp
  have "U40_9 \<le> ?v + U40_9" "?v + U40_9 \<le> U40_9_8" "?v + U40_9 \<noteq> 0xFFFFFFFFFFFF"
    using v a by (auto simp: U40_9_def U40_9_8_def word_le_nat_alt dest: arg_cong [where f = unat])
  then have "length t + 1 < length outp \<longrightarrow> decode_callsign_value outp (?v + U40_9) = Some (0x23 # t @ 0 # drop (length t + 2) outp)"
    by (simp add: decode_callsign_value_def d)
  then show ?thesis using e a v by (intro exI [of _ "?v + U40_9"]) simp
qed

text \<open>
  Call signs: one of up to nine characters of the table that does not end in a space, or of up to eight behind a number sign, is
  encoded to six bytes, and decoding these writes the same string with its terminating zero.
\<close>

theorem callsign_roundtrip:
  assumes "valid_call t" "s = t \<and> length t \<le> 9 \<or> s = 0x23 # t \<and> length t \<le> 8" "length s < length outp"
  shows "\<exists>b. encode_callsign_bytes (s @ 0 # rest) = Some (Some b) \<and> length b = 6 \<and>
    decode_callsign_bytes outp b = Some (s @ 0 # drop (length s + 1) outp)"
proof -
  obtain w where w: "encode_callsign_value (s @ 0 # rest) = Some (Some w)" "unat w < 2 ^ 48"
    "decode_callsign_value outp w = Some (s @ 0 # drop (length s + 1) outp)"
    using plain_call [OF assms(1), of rest outp] hash_call [OF assms(1), of rest outp] assms(2,3) by fastforce
  then show ?thesis using bytes_address [OF w(2), of outp]
    by (simp add: encode_callsign_bytes_def del: upt_conv_Cons upt_rec_numeral)
qed

theorem callsign_roundtrip_witness:
  "\<exists>b. encode_callsign_bytes [0x23, 0x53, 0x50, 0x35, 0, 9] = Some (Some b) \<and> length b = 6 \<and>
    decode_callsign_bytes (replicate 10 7) b = Some [0x23, 0x53, 0x50, 0x35, 0, 7, 7, 7, 7, 7]"
proof -
  have "valid_call [0x53, 0x50, 0x35]" by code_simp
  moreover have "drop 5 (replicate 10 7) = [7, 7, 7, 7, 7 :: u8]" by code_simp
  ultimately show ?thesis
    using callsign_roundtrip [of "[0x53, 0x50, 0x35]" "[0x23, 0x53, 0x50, 0x35]" "replicate 10 7" "[9]"] by simp
qed

lemma length_digits: "unat w < 40 ^ k \<Longrightarrow> length (decode_digits w) \<le> k"
proof (induction k arbitrary: w)
  case 0
  then have "w = 0" by (simp add: unat_eq_zero)
  then show ?case by (simp add: decode_digits.simps)
next
  case (Suc k)
  have "unat (w div 40) < 40 ^ k" using Suc.prems by (simp add: unat_div_distrib less_mult_imp_div_less mult.commute)
  from Suc.IH [OF this] show ?case by (simp add: decode_digits.simps [of w])
qed

text \<open>
  A buffer of ten bytes, for nine characters and the terminating zero, is enough for every address but one: the range
  test for addresses with a number sign lets a value too many through, whose call sign has ten characters.
\<close>

theorem decode_callsign_ten_bytes:
  assumes "length outp = 10"
  shows "decode_callsign_value outp w = None \<longleftrightarrow> w = U40_9_8"
proof -
  have top: "length (decode_digits (U40_9_8 - U40_9)) = 9"
    unfolding U40_9_8_def U40_9_def by (simp add: decode_digits.simps)
  have plain: "length (decode_digits w) \<le> 9" if "w < U40_9"
    using that by (intro length_digits) (simp add: U40_9_def word_less_nat_alt)
  have hash: "length (decode_digits (w - U40_9)) \<le> 8" if "U40_9 \<le> w" "w \<le> U40_9_8" "w \<noteq> U40_9_8"
  proof (rule length_digits)
    have "unat w < unat U40_9_8" using that(2,3) by (simp add: word_less_nat_alt [symmetric])
    then show "unat (w - U40_9) < 40 ^ 8" using that(1) by (simp add: unat_sub U40_9_def U40_9_8_def)
  qed
  have "U40_9 \<le> U40_9_8" "U40_9_8 \<noteq> 0xFFFFFFFFFFFF" by (simp_all add: U40_9_def U40_9_8_def)
  then show ?thesis
    using top plain hash assms by (cases "w = U40_9_8") (auto simp: decode_callsign_value_def mem_write_def AT_ALL_def not_le)
qed

theorem decode_callsign_ten_bytes_witness:
  "decode_callsign_value (replicate 10 0) U40_9_8 = None \<and> decode_callsign_value (replicate 10 0) (U40_9_8 - 1) \<noteq> None"
  using decode_callsign_ten_bytes [of "replicate 10 0" U40_9_8] decode_callsign_ten_bytes [of "replicate 10 0" "U40_9_8 - 1"]
  by (simp add: U40_9_8_def)

section \<open>Pieces of the link setup frame\<close>

lemma extract_LICH_piece:
  assumes "lsf_ok l" "cnt < 6"
  shows "extract_LICH outp cnt l = take 5 (drop (5 * cnt) (lsf_bytes l)) @ [push_bit 5 (of_nat cnt)]"
proof -
  have f: "length xs = n \<Longrightarrow> xs = map (\<lambda>i. xs ! i) [0..<n]" for xs :: bytes and n using map_nth [of xs] by simp
  have b: "lsf_bytes l = map (\<lambda>i. lsf_dst l ! i) [0..<6] @ map (\<lambda>i. lsf_src l ! i) [0..<6] @ map (\<lambda>i. lsf_type l ! i) [0..<2] @
      map (\<lambda>i. lsf_meta l ! i) [0..<14] @ map (\<lambda>i. lsf_crc l ! i) [0..<2]"
    using assms(1) unfolding lsf_bytes_def lsf_ok_def by (metis f)
  have "cnt = 0 \<or> cnt = 1 \<or> cnt = 2 \<or> cnt = 3 \<or> cnt = 4 \<or> cnt = 5" using assms(2) by linarith
  then show ?thesis unfolding b by (elim disjE) (simp_all add: extract_LICH_def Let_def upt_rec numeral_eq_Suc)
qed

lemma concat_pieces: "length xs = 30 \<Longrightarrow> concat (map (\<lambda>k. take 5 (drop (5 * k) xs)) [0..<6]) = xs"
proof -
  assume "length xs = 30"
  then have "xs = map (\<lambda>i. xs ! i) [0..<30]" using map_nth [of xs] by simp
  moreover have "concat (map (\<lambda>k. take 5 (drop (5 * k) (map f [0..<30]))) [0..<6]) = map f [0..<30]" for f by (simp add: upt_rec)
  ultimately show ?thesis by metis
qed

end
