(* ===== verification/M17_Fec.thy ===== *)
theory M17_Fec
  imports M17_Payload
begin

unbundle bit_operations_syntax

text \<open>
  The convolutional code of \<open>libm17\<close>: the three encoders with their puncturing patterns (\<open>encode/encode.c\<close>) and the
  Viterbi decoder (\<open>decode/decode.c\<close>). The decoder is compared with the search through all inputs of the encoder for the
  one whose code is nearest to the soft bits received; decoding what an encoder sent follows from that.
\<close>

section \<open>Model\<close>

subsection \<open>Encoder\<close>

definition puncture_pattern_1 :: "nat list" where
  "puncture_pattern_1 = [
    1,1,0,1,1,1,0,1,1,1,0,1,1,1,0,1,1,
      1,0,1,1,1,0,1,1,1,0,1,1,1,0,1,1,
      1,0,1,1,1,0,1,1,1,0,1,1,1,0,1,1,
      1,0,1,1,1,0,1,1,1,0,1,1]"

definition puncture_pattern_2 :: "nat list" where
  "puncture_pattern_2 = [1,1,1,1,1,1,1,1,1,1,1,0]"

definition puncture_pattern_3 :: "nat list" where
  "puncture_pattern_3 = [1,1,1,1,1,1,1,0]"

definition conv_G1 :: "bytes \<Rightarrow> nat \<Rightarrow> u8" where
  "conv_G1 ud i = of_nat ((unat (ud ! (i + 4)) + unat (ud ! (i + 1)) + unat (ud ! i)) mod 2)"

definition conv_G2 :: "bytes \<Rightarrow> nat \<Rightarrow> u8" where
  "conv_G2 ud i = of_nat ((unat (ud ! (i + 4)) + unat (ud ! (i + 3)) + unat (ud ! (i + 2)) + unat (ud ! i)) mod 2)"

text \<open>One bit with the index in the puncturing pattern; the output is the list of the bits written so far.\<close>

definition punct_put :: "nat list \<Rightarrow> u8 \<Rightarrow> nat \<times> bytes \<Rightarrow> nat \<times> bytes" where
  "punct_put pat b s = (case s of (p, out) \<Rightarrow> ((p + 1) mod length pat, if pat ! p \<noteq> 0 then out @ [b] else out))"

definition conv_encode :: "nat list \<Rightarrow> bytes \<Rightarrow> nat \<Rightarrow> bytes" where
  "conv_encode pat ud n = snd (fold (\<lambda>i s. punct_put pat (conv_G2 ud i) (punct_put pat (conv_G1 ud i) s)) [0..<n] (0, []))"

definition conv_encode_stream_frame :: "bytes \<Rightarrow> u16 \<Rightarrow> bytes" where
  "conv_encode_stream_frame inp fn =
    (let ud = replicate 4 0 @ map (\<lambda>i. ucast (drop_bit (15 - i) fn AND 1)) [0..<16] @ concat (map unpack (take 16 inp)) @ replicate 4 0
     in conv_encode puncture_pattern_2 ud (144 + 4))"

definition conv_encode_packet_frame :: "bytes \<Rightarrow> bytes" where
  "conv_encode_packet_frame inp =
    (let ud = replicate 4 0 @ take 206 (concat (map unpack (take 26 inp))) @ replicate 4 0
     in conv_encode puncture_pattern_3 ud (206 + 4))"

definition conv_encode_LSF :: "lsf_t \<Rightarrow> bytes" where
  "conv_encode_LSF l =
    (let ud = replicate 4 0 @ concat (map unpack (lsf_bytes l)) @ replicate 4 0
     in conv_encode puncture_pattern_1 ud (240 + 4))"

subsection \<open>Decoder\<close>

text \<open>
  The static arrays of the decoder, but for the two \<open>MetricsData\<close> arrays, which are cleared and never used. Metrics are
  unsigned 32-bit integers. The history has 244 entries: the code only warns about a longer input and then writes behind
  the array, which has no result here.
\<close>

record viterbi =
  prevMetrics :: "nat list"
  currMetrics :: "nat list"
  viterbi_history :: "u16 list"

definition viterbi_reset :: viterbi where
  "viterbi_reset = \<lparr>prevMetrics = replicate 16 0, currMetrics = replicate 16 0, viterbi_history = replicate 244 0\<rparr>"

definition COST_TABLE_0 :: "nat list" where
  "COST_TABLE_0 = [0, 0, 0, 0, 0xFFFF, 0xFFFF, 0xFFFF, 0xFFFF]"

definition COST_TABLE_1 :: "nat list" where
  "COST_TABLE_1 = [0, 0xFFFF, 0xFFFF, 0, 0, 0xFFFF, 0xFFFF, 0]"

text \<open>The survivor of the two branches with the metrics \<open>a\<close> and \<open>b\<close> into the state \<open>st\<close>.\<close>

definition survive :: "nat \<Rightarrow> nat \<Rightarrow> nat \<Rightarrow> nat \<Rightarrow> viterbi \<Rightarrow> viterbi" where
  "survive pos st a b v =
    (let h = viterbi_history v in
     if a \<ge> b
     then v\<lparr>viterbi_history := h[pos := h ! pos OR push_bit st 1], currMetrics := (currMetrics v)[st := b]\<rparr>
     else v\<lparr>viterbi_history := h[pos := h ! pos AND NOT (push_bit st 1)], currMetrics := (currMetrics v)[st := a]\<rparr>)"

definition butterfly :: "nat \<Rightarrow> nat \<Rightarrow> nat \<Rightarrow> nat \<Rightarrow> viterbi \<Rightarrow> viterbi" where
  "butterfly s0 s1 pos i v =
    (let metric = q_abs_diff (COST_TABLE_0 ! i) s0 + q_abs_diff (COST_TABLE_1 ! i) s1;
         m0 = (prevMetrics v ! i + metric) mod 2 ^ 32;
         m1 = (prevMetrics v ! (i + 8) + (0x1FFFE - metric)) mod 2 ^ 32;
         m2 = (prevMetrics v ! i + (0x1FFFE - metric)) mod 2 ^ 32;
         m3 = (prevMetrics v ! (i + 8) + metric) mod 2 ^ 32
     in survive pos (2 * i + 1) m2 m3 (survive pos (2 * i) m0 m1 v))"

definition viterbi_decode_bit :: "nat \<Rightarrow> nat \<Rightarrow> nat \<Rightarrow> viterbi \<Rightarrow> viterbi option" where
  "viterbi_decode_bit s0 s1 pos v =
    (if pos < 244
     then (let v = fold (butterfly s0 s1 pos) [0..<8] v in Some (v\<lparr>prevMetrics := currMetrics v, currMetrics := prevMetrics v\<rparr>))
     else None)"

fun chainback_loop :: "u16 list \<Rightarrow> nat \<Rightarrow> u8 \<Rightarrow> nat \<Rightarrow> bytes \<Rightarrow> bytes option" where
  "chainback_loop h 0 state bitPos out = Some out"
| "chainback_loop h (Suc pos) state bitPos out =
    (let bitPos = wsub bitPos 1; b = bit (h ! pos) (unat (drop_bit 4 state)); state = drop_bit 1 state in
     if b
     then (do { x \<leftarrow> mem_get out (bitPos div 8);
                out \<leftarrow> mem_set out (bitPos div 8) (x OR push_bit (7 - bitPos mod 8) 1);
                chainback_loop h pos (state OR 0x80) bitPos out })
     else chainback_loop h pos state bitPos out)"

definition viterbi_chainback :: "bytes \<Rightarrow> nat \<Rightarrow> nat \<Rightarrow> viterbi \<Rightarrow> (bytes \<times> nat) option" where
  "viterbi_chainback out pos len v =
    do { out \<leftarrow> mem_write out 0 (replicate ((len - 1) div 8 + 1) 0);
         out \<leftarrow> chainback_loop (viterbi_history v) pos 0 (len + 4) out;
         Some (out, fold (\<lambda>m cost. if m < cost then m else cost) (prevMetrics v) (prevMetrics v ! 0)) }"

text \<open>The loop over pairs of soft bits. An input of odd length is read behind its end.\<close>

fun decode_loop :: "nat list \<Rightarrow> nat \<Rightarrow> viterbi \<Rightarrow> (nat \<times> viterbi) option" where
  "decode_loop [] pos v = Some (pos, v)"
| "decode_loop [s0] pos v = None"
| "decode_loop (s0 # s1 # inp) pos v = do { v \<leftarrow> viterbi_decode_bit s0 s1 pos v; decode_loop inp (pos + 1) v }"

definition viterbi_decode :: "bytes \<Rightarrow> nat list \<Rightarrow> (bytes \<times> nat) option" where
  "viterbi_decode out inp =
    do { (pos, v) \<leftarrow> decode_loop inp 0 viterbi_reset; viterbi_chainback out pos (length inp div 2) v }"

text \<open>The bits that were not sent become half sure ones, in a buffer of 488.\<close>

function unpuncture :: "nat list \<Rightarrow> nat \<Rightarrow> nat list \<Rightarrow> nat list \<Rightarrow> nat list option" where
  "unpuncture punct p inp umsg =
    (if inp = [] then Some umsg
     else if length umsg \<ge> 488 then None
     else if punct ! p \<noteq> 0 then unpuncture punct ((p + 1) mod length punct) (tl inp) (umsg @ [hd inp])
     else unpuncture punct ((p + 1) mod length punct) inp (umsg @ [0x7FFF]))"
  by pat_completeness auto
termination by (relation "measure (\<lambda>(punct, p, inp, umsg). 488 - length umsg)") simp_all

declare unpuncture.simps [simp del]

definition viterbi_decode_punctured :: "bytes \<Rightarrow> nat list \<Rightarrow> nat list \<Rightarrow> (bytes \<times> nat) option" where
  "viterbi_decode_punctured out inp punct =
    do { umsg \<leftarrow> unpuncture punct 0 inp [];
         (out, cost) \<leftarrow> viterbi_decode out umsg;
         Some (out, (cost + 2 ^ 32 - (length umsg - length inp) * 0x7FFF) mod 2 ^ 32) }"

section \<open>Reference\<close>

text \<open>
  An input of the encoder is the list of its bits with the four before it. The decoder should find the input whose code is
  nearest to the soft bits.
\<close>

definition G1 :: "bool list \<Rightarrow> nat \<Rightarrow> bool" where
  "G1 w i \<longleftrightarrow> (w ! (i + 4) \<noteq> (w ! (i + 1) \<noteq> w ! i))"

definition G2 :: "bool list \<Rightarrow> nat \<Rightarrow> bool" where
  "G2 w i \<longleftrightarrow> (w ! (i + 4) \<noteq> (w ! (i + 3) \<noteq> (w ! (i + 2) \<noteq> w ! i)))"

definition code :: "bool list \<Rightarrow> nat \<Rightarrow> bool list" where
  "code w n = concat (map (\<lambda>i. [G1 w i, G2 w i]) [0..<n])"

definition dev :: "bool \<Rightarrow> nat \<Rightarrow> nat" where
  "dev b v = (if b then 0xFFFF - v else v)"

definition distance :: "bool list \<Rightarrow> nat list \<Rightarrow> nat" where
  "distance bs vs = sum_list (map2 dev bs vs)"

section \<open>The trellis\<close>

text \<open>A state is the last four bits, the oldest the most significant; the cost of the branch that reads the bit \<open>b\<close>.\<close>

definition branch :: "nat \<Rightarrow> bool \<Rightarrow> nat \<Rightarrow> nat \<Rightarrow> nat" where
  "branch s b v0 v1 = dev (b \<noteq> (odd (s div 4) \<noteq> odd (s div 8))) v0 + dev (b \<noteq> (odd s \<noteq> (odd (s div 2) \<noteq> odd (s div 8)))) v1"

text \<open>The least cost of a path of \<open>t\<close> steps that ends in a state, by the recursion that the decoder follows.\<close>

fun best :: "nat list \<Rightarrow> nat \<Rightarrow> nat \<Rightarrow> nat" where
  "best vs 0 s = 0"
| "best vs (Suc t) s = min (best vs t (s div 2) + branch (s div 2) (odd s) (vs ! (2 * t)) (vs ! (2 * t + 1)))
    (best vs t (s div 2 + 8) + branch (s div 2 + 8) (odd s) (vs ! (2 * t)) (vs ! (2 * t + 1)))"

definition upper_wins :: "nat list \<Rightarrow> nat \<Rightarrow> nat \<Rightarrow> bool" where
  "upper_wins vs t s \<longleftrightarrow> best vs t (s div 2) + branch (s div 2) (odd s) (vs ! (2 * t)) (vs ! (2 * t + 1))
    \<ge> best vs t (s div 2 + 8) + branch (s div 2 + 8) (odd s) (vs ! (2 * t)) (vs ! (2 * t + 1))"

lemma dev_le: "v \<le> 0xFFFF \<Longrightarrow> dev b v \<le> 0xFFFF"
  by (simp add: dev_def)

lemma branch_le: "v0 \<le> 0xFFFF \<Longrightarrow> v1 \<le> 0xFFFF \<Longrightarrow> branch s b v0 v1 \<le> 0x1FFFE"
  unfolding branch_def by (rule order_trans [OF add_mono [OF dev_le dev_le]]) simp_all

lemma butterfly_metric:
  assumes "v0 \<le> 0xFFFF" "v1 \<le> 0xFFFF" "i < 8"
  shows "q_abs_diff (COST_TABLE_0 ! i) v0 + q_abs_diff (COST_TABLE_1 ! i) v1 = branch i False v0 v1"
    "0x1FFFE - branch i False v0 v1 = branch i True v0 v1" "branch (i + 8) False v0 v1 = branch i True v0 v1"
    "branch (i + 8) True v0 v1 = branch i False v0 v1"
proof -
  have "q_abs_diff (COST_TABLE_0 ! i) v0 + q_abs_diff (COST_TABLE_1 ! i) v1 = branch i False v0 v1 \<and>
    0x1FFFE - branch i False v0 v1 = branch i True v0 v1 \<and> branch (i + 8) False v0 v1 = branch i True v0 v1 \<and>
    branch (i + 8) True v0 v1 = branch i False v0 v1"
  proof -
    have "i = 0 \<or> i = 1 \<or> i = 2 \<or> i = 3 \<or> i = 4 \<or> i = 5 \<or> i = 6 \<or> i = 7" using assms(3) by linarith
    then show ?thesis using assms(1,2)
      by (elim disjE; simp add: COST_TABLE_0_def COST_TABLE_1_def q_abs_diff_def branch_def dev_def; auto)
  qed
  then show "q_abs_diff (COST_TABLE_0 ! i) v0 + q_abs_diff (COST_TABLE_1 ! i) v1 = branch i False v0 v1"
    "0x1FFFE - branch i False v0 v1 = branch i True v0 v1" "branch (i + 8) False v0 v1 = branch i True v0 v1"
    "branch (i + 8) True v0 v1 = branch i False v0 v1" by simp_all
qed

definition keep_bit :: "u16 \<Rightarrow> nat \<Rightarrow> bool \<Rightarrow> u16" where
  "keep_bit h st c = (if c then h OR push_bit st 1 else h AND NOT (push_bit st 1))"

lemma bit_keep_bit: "n < 16 \<Longrightarrow> bit (keep_bit h st c) n \<longleftrightarrow> (if n = st then c else bit h n)"
  by (auto simp: keep_bit_def bit_or_iff bit_and_iff bit_not_iff bit_push_bit_iff bit_1_iff simp del: push_bit_of_1)

lemma survive_eq:
  "survive pos st a b v = v\<lparr>viterbi_history := (viterbi_history v)[pos := keep_bit (viterbi_history v ! pos) st (a \<ge> b)],
    currMetrics := (currMetrics v)[st := min a b]\<rparr>"
  by (simp add: survive_def Let_def keep_bit_def)

definition low :: "nat list \<Rightarrow> nat \<Rightarrow> nat \<Rightarrow> nat \<Rightarrow> nat" where
  "low ms v0 v1 s = ms ! (s div 2) + branch (s div 2) (odd s) v0 v1"

definition high :: "nat list \<Rightarrow> nat \<Rightarrow> nat \<Rightarrow> nat \<Rightarrow> nat" where
  "high ms v0 v1 s = ms ! (s div 2 + 8) + branch (s div 2 + 8) (odd s) v0 v1"

text \<open>What the survivors of the first states are, and that the rest of the decoder is as before.\<close>

definition after :: "nat \<Rightarrow> nat \<Rightarrow> nat \<Rightarrow> viterbi \<Rightarrow> nat \<Rightarrow> viterbi \<Rightarrow> bool" where
  "after v0 v1 pos v k v' \<longleftrightarrow> prevMetrics v' = prevMetrics v \<and> length (currMetrics v') = 16 \<and> length (viterbi_history v') = 244 \<and>
    (\<forall>s < k. currMetrics v' ! s = min (low (prevMetrics v) v0 v1 s) (high (prevMetrics v) v0 v1 s) \<and>
      (bit (viterbi_history v' ! pos) s \<longleftrightarrow> low (prevMetrics v) v0 v1 s \<ge> high (prevMetrics v) v0 v1 s)) \<and>
    (\<forall>q. q \<noteq> pos \<longrightarrow> viterbi_history v' ! q = viterbi_history v ! q)"

lemma after_survive:
  assumes "after v0 v1 pos v k v'" "k < 16" "pos < 244" "a = low (prevMetrics v) v0 v1 k" "b = high (prevMetrics v) v0 v1 k"
  shows "after v0 v1 pos v (Suc k) (survive pos k a b v')"
  using assms by (auto simp: after_def survive_eq bit_keep_bit less_Suc_eq nth_list_update)

lemma butterfly_after:
  assumes "after v0 v1 pos v (2 * i) v'" "i < 8" "pos < 244" "v0 \<le> 0xFFFF" "v1 \<le> 0xFFFF" "\<forall>s < 16. prevMetrics v ! s + 0x1FFFE < 2 ^ 32"
  shows "after v0 v1 pos v (2 * Suc i) (butterfly v0 v1 pos i v')"
proof -
  have p: "prevMetrics v' = prevMetrics v" using assms(1) by (simp add: after_def)
  note m = butterfly_metric [OF assms(4,5,2)]
  have l: "(prevMetrics v ! s + branch s' b v0 v1) mod 2 ^ 32 = prevMetrics v ! s + branch s' b v0 v1" if "s < 16" for s s' b
    using assms(6) branch_le [OF assms(4,5), of s' b] that by (intro mod_less) (meson add_left_mono le_less_trans)
  have low: "low (prevMetrics v) v0 v1 (2 * i) = prevMetrics v ! i + branch i False v0 v1"
    "high (prevMetrics v) v0 v1 (2 * i) = prevMetrics v ! (i + 8) + branch i True v0 v1"
    "low (prevMetrics v) v0 v1 (2 * i + 1) = prevMetrics v ! i + branch i True v0 v1"
    "high (prevMetrics v) v0 v1 (2 * i + 1) = prevMetrics v ! (i + 8) + branch i False v0 v1"
    by (simp_all add: low_def high_def m)
  have "butterfly v0 v1 pos i v' = survive pos (Suc (2 * i)) (low (prevMetrics v) v0 v1 (2 * i + 1)) (high (prevMetrics v) v0 v1 (2 * i + 1))
      (survive pos (2 * i) (low (prevMetrics v) v0 v1 (2 * i)) (high (prevMetrics v) v0 v1 (2 * i)) v')"
    using assms(2) unfolding butterfly_def Let_def p m low by (simp only: l) simp
  moreover have "2 * Suc i = Suc (Suc (2 * i))" by simp
  ultimately show ?thesis using assms by (simp only:) (intro after_survive; simp)
qed

lemma viterbi_decode_bit_step:
  assumes "length (currMetrics v) = 16" "length (viterbi_history v) = 244"
    and "pos < 244" "v0 \<le> 0xFFFF" "v1 \<le> 0xFFFF" "\<forall>s < 16. prevMetrics v ! s + 0x1FFFE < 2 ^ 32"
  shows "\<exists>v'. viterbi_decode_bit v0 v1 pos v = Some (v'\<lparr>prevMetrics := currMetrics v', currMetrics := prevMetrics v\<rparr>) \<and> after v0 v1 pos v 16 v'"
proof -
  have "after v0 v1 pos v (2 * k) (fold (butterfly v0 v1 pos) [0..<k] v)" if "k \<le> 8" for k
    using that
  proof (induction k)
    case 0
    then show ?case using assms by (simp add: after_def)
  next
    case (Suc k)
    then show ?case using butterfly_after [of v0 v1 pos v k] assms by simp
  qed
  from this [of 8] have "after v0 v1 pos v 16 (fold (butterfly v0 v1 pos) [0..<8] v)" by simp
  then show ?thesis using assms(3)
    by (intro exI [of _ "fold (butterfly v0 v1 pos) [0..<8] v"]) (simp add: viterbi_decode_bit_def after_def Let_def del: upt_conv_Cons)
qed

text \<open>The decoder after \<open>t\<close> pairs of the soft bits \<open>vs\<close>.\<close>

definition decoded :: "nat list \<Rightarrow> nat \<Rightarrow> viterbi \<Rightarrow> bool" where
  "decoded vs t v \<longleftrightarrow> length (prevMetrics v) = 16 \<and> length (currMetrics v) = 16 \<and> length (viterbi_history v) = 244 \<and>
    (\<forall>s < 16. prevMetrics v ! s = best vs t s) \<and> (\<forall>q < t. \<forall>s < 16. bit (viterbi_history v ! q) s \<longleftrightarrow> upper_wins vs q s)"

lemma best_le: "\<forall>x \<in> set vs. x \<le> 0xFFFF \<Longrightarrow> 2 * t \<le> length vs \<Longrightarrow> best vs t s \<le> t * 0x1FFFE"
proof (induction t arbitrary: s)
  case (Suc t)
  have v: "vs ! (2 * t) \<le> 0xFFFF" "vs ! (2 * t + 1) \<le> 0xFFFF" using Suc.prems by simp_all
  have "best vs (Suc t) s \<le> best vs t (s div 2) + branch (s div 2) (odd s) (vs ! (2 * t)) (vs ! (2 * t + 1))" by simp
  also have "\<dots> \<le> t * 0x1FFFE + 0x1FFFE" using Suc by (intro add_mono branch_le v) simp
  finally show ?case by simp
qed simp

lemma decoded_step:
  assumes "decoded vs t v" "\<forall>x \<in> set vs. x \<le> 0xFFFF" "2 * t + 1 < length vs" "t < 244"
  shows "\<exists>v'. viterbi_decode_bit (vs ! (2 * t)) (vs ! (2 * t + 1)) t v = Some v' \<and> decoded vs (Suc t) v'"
proof -
  let ?a = "vs ! (2 * t)" and ?b = "vs ! (2 * t + 1)"
  have ms: "prevMetrics v ! s = best vs t s" if "s < 16" for s using assms(1) that by (simp add: decoded_def)
  have "\<forall>s < 16. prevMetrics v ! s + 0x1FFFE < 2 ^ 32"
  proof (intro allI impI)
    fix s :: nat assume s: "s < 16"
    have "best vs t s \<le> t * 0x1FFFE" using assms(2,3) by (intro best_le) simp_all
    then have "best vs t s \<le> 243 * 0x1FFFE" using assms(4) by linarith
    then show "prevMetrics v ! s + 0x1FFFE < 2 ^ 32" unfolding ms [OF s] by simp
  qed
  then obtain v' where v': "viterbi_decode_bit ?a ?b t v = Some (v'\<lparr>prevMetrics := currMetrics v', currMetrics := prevMetrics v\<rparr>)"
    "after ?a ?b t v 16 v'"
    using viterbi_decode_bit_step [of v t ?a ?b] assms by (auto simp: decoded_def)
  have "low (prevMetrics v) ?a ?b s = best vs t (s div 2) + branch (s div 2) (odd s) ?a ?b"
    "high (prevMetrics v) ?a ?b s = best vs t (s div 2 + 8) + branch (s div 2 + 8) (odd s) ?a ?b" if "s < 16" for s
    using that by (simp_all add: low_def high_def ms)
  then have "decoded vs (Suc t) (v'\<lparr>prevMetrics := currMetrics v', currMetrics := prevMetrics v\<rparr>)"
    using v'(2) assms(1) by (auto simp: decoded_def after_def less_Suc_eq upper_wins_def)
  then show ?thesis using v'(1) by blast
qed

lemma decode_loop_decoded:
  assumes "decoded vs t v" "\<forall>x \<in> set vs. x \<le> 0xFFFF" "length vs = 2 * n" "n \<le> 244" "t \<le> n"
  shows "\<exists>v'. decode_loop (drop (2 * t) vs) t v = Some (n, v') \<and> decoded vs n v'"
  using assms(1,5)
proof (induction "n - t" arbitrary: t v)
  case 0
  then show ?case using assms(3) by simp
next
  case (Suc k)
  then have t: "2 * t + 1 < length vs" "t < 244" using assms(3,4) by simp_all
  obtain v' where v': "viterbi_decode_bit (vs ! (2 * t)) (vs ! (2 * t + 1)) t v = Some v'" "decoded vs (Suc t) v'"
    using decoded_step [OF Suc.prems(1) assms(2) t] by blast
  have "drop (2 * t) vs = vs ! (2 * t) # vs ! (2 * t + 1) # drop (2 * Suc t) vs"
    using t(1) by (simp add: drop_nth_Cons)
  then show ?case using Suc.hyps(1) [OF _ v'(2)] Suc.hyps(2) v'(1) by simp
qed

lemma decoded_reset: "decoded vs 0 viterbi_reset"
  by (simp add: decoded_def viterbi_reset_def)

section \<open>Paths\<close>

definition state :: "bool list \<Rightarrow> nat \<Rightarrow> nat" where
  "state w t = 8 * of_bool (w ! t) + 4 * of_bool (w ! (t + 1)) + 2 * of_bool (w ! (t + 2)) + of_bool (w ! (t + 3))"

fun path_cost :: "bool list \<Rightarrow> nat list \<Rightarrow> nat \<Rightarrow> nat" where
  "path_cost w vs 0 = 0"
| "path_cost w vs (Suc t) = path_cost w vs t + (dev (G1 w t) (vs ! (2 * t)) + dev (G2 w t) (vs ! (2 * t + 1)))"

lemma state_less: "state w t < 16"
  by (simp add: state_def of_bool_def)

lemma state_Suc: "state w (Suc t) div 2 = state w t mod 8" "odd (state w (Suc t)) \<longleftrightarrow> w ! (t + 4)"
proof -
  have "Suc t + 1 = t + 2" "Suc t + 2 = t + 3" "Suc t + 3 = t + 4" by simp_all
  then show "state w (Suc t) div 2 = state w t mod 8" "odd (state w (Suc t)) \<longleftrightarrow> w ! (t + 4)"
    unfolding state_def by (simp_all only:) (auto simp: of_bool_def)
qed

lemma state_upper: "state w t = state w t mod 8 + (if w ! t then 8 else 0)"
  by (auto simp: state_def of_bool_def)

lemma branch_state: "branch (state w t) (w ! (t + 4)) v0 v1 = dev (G1 w t) v0 + dev (G2 w t) v1"
proof -
  have "odd (state w t) = w ! (t + 3)" "odd (state w t div 2) = w ! (t + 2)" "odd (state w t div 4) = w ! (t + 1)" "odd (state w t div 8) = w ! t"
    by (auto simp: state_def of_bool_def)
  then show ?thesis unfolding branch_def G1_def G2_def by (simp only: neq_commute conj_commute)
qed

lemma best_path: "best vs t (state w t) \<le> path_cost w vs t"
proof (induction t)
  case (Suc t)
  let ?c = "branch (state w t) (w ! (t + 4)) (vs ! (2 * t)) (vs ! (2 * t + 1))"
  have "state w (Suc t) div 2 = state w t \<or> state w (Suc t) div 2 + 8 = state w t"
    using state_upper [of w t] by (simp only: state_Suc) (cases "w ! t"; simp)
  then have "best vs (Suc t) (state w (Suc t)) \<le> best vs t (state w t) + ?c"
    by (elim disjE) (simp_all add: state_Suc [simplified])
  then show ?case using Suc by (simp add: branch_state)
qed simp

text \<open>The decisions along the way back from a state, and the path that they make with the bits of the state.\<close>

fun walk :: "nat list \<Rightarrow> nat \<Rightarrow> nat \<Rightarrow> bool list" where
  "walk vs 0 s = []"
| "walk vs (Suc t) s = walk vs t (s div 2 + (if upper_wins vs t s then 8 else 0)) @ [upper_wins vs t s]"

definition bits4 :: "nat \<Rightarrow> bool list" where
  "bits4 s = [odd (s div 8), odd (s div 4), odd (s div 2), odd s]"

lemma length_walk [simp]: "length (walk vs t s) = t"
  by (induction t arbitrary: s) simp_all

lemma length_bits4 [simp]: "length (bits4 s) = 4"
  by (simp add: bits4_def)

lemma small_state_bits:
  "\<forall>s \<in> set [0..<16 :: nat]. s = 8 * of_bool (odd (s div 8)) + 4 * of_bool (odd (s div 4)) + 2 * of_bool (odd (s div 2)) + of_bool (odd s)"
  by code_simp

lemma bits4_upper:
  "\<forall>s \<in> set [0..<16]. \<forall>b \<in> set [False, True]. bits4 (s div 2 + (if b then 8 else 0)) = [b, odd (s div 8), odd (s div 4), odd (s div 2)]"
  by code_simp

lemma state_bits4: "s < 16 \<Longrightarrow> length w = t \<Longrightarrow> state (w @ bits4 s) t = s"
proof -
  assume "s < 16" "length w = t"
  moreover have "s = 8 * of_bool (odd (s div 8)) + 4 * of_bool (odd (s div 4)) + 2 * of_bool (odd (s div 2)) + of_bool (odd s)"
    using \<open>s < 16\<close> small_state_bits by simp
  ultimately show ?thesis by (simp add: state_def bits4_def nth_append)
qed

lemma path_cost_append: "t + 4 \<le> length w \<Longrightarrow> path_cost (w @ u) vs t = path_cost w vs t"
  by (induction t) (simp_all add: G1_def G2_def nth_append)

lemma walk_best: "s < 16 \<Longrightarrow> path_cost (walk vs t s @ bits4 s) vs t = best vs t s"
proof (induction t arbitrary: s)
  case (Suc t)
  let ?b = "upper_wins vs t s" and ?w = "walk vs (Suc t) s @ bits4 s"
  define p where "p = s div 2 + (if ?b then 8 else 0)"
  have p: "p < 16" using Suc.prems by (simp add: p_def) linarith
  have b4: "bits4 p = [?b, odd (s div 8), odd (s div 4), odd (s div 2)]"
    using Suc.prems bits4_upper [rule_format, of s ?b] unfolding p_def by (simp del: upt_conv_Cons)
  have w: "?w = (walk vs t p @ bits4 p) @ [odd s]" unfolding b4 by (simp add: bits4_def p_def)
  have "path_cost ?w vs t = best vs t p" unfolding w by (subst path_cost_append) (simp_all add: Suc.IH [OF p])
  moreover have "state ?w t = p"
    using state_bits4 [OF p, of "walk vs t p" t] unfolding w by (simp add: state_def nth_append)
  moreover have "?w ! (t + 4) = odd s" unfolding w by (simp add: nth_append)
  ultimately have "path_cost ?w vs (Suc t) = best vs t p + branch p (odd s) (vs ! (2 * t)) (vs ! (2 * t + 1))"
    using branch_state [of ?w t] by simp
  also have "\<dots> = best vs (Suc t) s" by (simp add: p_def upper_wins_def min_def)
  finally show ?case .
qed simp

section \<open>The chain back\<close>

text \<open>The bits of a block of bytes, the most significant of each byte first.\<close>

definition obit :: "bytes \<Rightarrow> nat \<Rightarrow> bool" where
  "obit out j \<longleftrightarrow> bit (out ! (j div 8)) (7 - j mod 8)"

lemma bit_push_1: "bit (push_bit i 1 :: 'a::len word) n \<longleftrightarrow> n = i \<and> n < LENGTH('a)"
  by (auto simp: bit_push_bit_iff bit_1_iff simp del: push_bit_of_1)

lemma obit_set:
  assumes "k div 8 < length out"
  shows "obit (out[k div 8 := out ! (k div 8) OR push_bit (7 - k mod 8) 1]) j \<longleftrightarrow> obit out j \<or> j = k"
proof (cases "j div 8 = k div 8")
  case True
  then have "j = k \<longleftrightarrow> j mod 8 = k mod 8" using div_mult_mod_eq [of j 8] div_mult_mod_eq [of k 8] by metis
  moreover have "7 - j mod 8 = 7 - k mod 8 \<longleftrightarrow> j mod 8 = k mod 8" using mod_less_divisor [of 8 j] mod_less_divisor [of 8 k] by linarith
  ultimately show ?thesis using True assms
    by (auto simp: obit_def bit_or_iff bit_push_1 simp del: push_bit_of_1)
next
  case False
  then show ?thesis by (auto simp: obit_def)
qed

lemma next_state:
  fixes st :: u8
  shows "unat (drop_bit 4 (drop_bit 1 st)) = unat (drop_bit 4 st) div 2" "unat (drop_bit 4 (drop_bit 1 st OR 0x80)) = unat (drop_bit 4 st) div 2 + 8"
proof -
  have a: "unat (drop_bit 5 st) = unat (drop_bit 4 st) div 2" unfolding unat_drop by (simp add: div_mult2_eq [symmetric])
  have "drop_bit 5 st < 8" unfolding word_less_nat_alt unat_drop using unsigned_less [of st, where 'a = nat] by (simp add: less_mult_imp_div_less)
  have "bit (drop_bit 5 st) n \<Longrightarrow> n < 3" for n
    using bit_imp_le_length [of st "5 + n"] by (simp add: bit_drop_bit_eq)
  moreover have "bit (8 :: u8) n \<longleftrightarrow> n = 3" for n using bit_push_1 [of 3 n, where 'a = 8] by (auto simp: push_bit_eq_mult)
  ultimately have "\<not> (n < 8 \<and> bit (drop_bit 5 st) n \<and> bit (8 :: u8) n)" for n by (metis less_irrefl)
  then have d: "drop_bit 5 st AND 8 = 0" by (intro bit_word_eqI) (auto simp: bit_and_iff)
  show "unat (drop_bit 4 (drop_bit 1 st)) = unat (drop_bit 4 st) div 2" using a by simp
  have "drop_bit 4 (drop_bit 1 st OR 0x80) = drop_bit 5 st + 8"
    unfolding disjunctive_add_eq_or [OF d] by (simp add: drop_bit_or)
  moreover have "unat (drop_bit 5 st + 8) = unat (drop_bit 5 st) + 8"
    using \<open>drop_bit 5 st < 8\<close> by (simp add: unat_word_ariths word_less_nat_alt)
  ultimately show "unat (drop_bit 4 (drop_bit 1 st OR 0x80)) = unat (drop_bit 4 st) div 2 + 8" using a by simp
qed

lemma chainback_loop_walk:
  assumes "decoded vs n v" "t \<le> n" "n \<le> 244" "t > 0 \<longrightarrow> (t + 3) div 8 < length out"
  shows "\<exists>out'. chainback_loop (viterbi_history v) t st (t + 4) out = Some out' \<and> length out' = length out \<and>
    (\<forall>j. obit out' j \<longleftrightarrow> obit out j \<or> 4 \<le> j \<and> j < t + 4 \<and> walk vs t (unat (drop_bit 4 st)) ! (j - 4))"
  using assms(2,4)
proof (induction t arbitrary: st out)
  case (Suc t)
  let ?s = "unat (drop_bit 4 st)"
  have s: "?s < 16" unfolding unat_drop using unsigned_less [of st, where 'a = nat] by (simp add: less_mult_imp_div_less)
  have b: "bit (viterbi_history v ! t) ?s \<longleftrightarrow> upper_wins vs t ?s" using assms(1) Suc.prems(1) s by (simp add: decoded_def)
  have pos: "wsub (Suc t + 4) 1 = t + 4" using Suc.prems(1) assms(3) by (subst wsub_small) simp_all
  have len: "(t + 4) div 8 < length out" using Suc.prems(2) by (simp add: add.commute)
  have mono: "t > 0 \<longrightarrow> (t + 3) div 8 < length out" using len by (auto intro: le_less_trans [OF div_le_mono])
  have split: "walk vs (Suc t) ?s ! (j - 4) = (if j = t + 4 then upper_wins vs t ?s else walk vs t (?s div 2 + (if upper_wins vs t ?s then 8 else 0)) ! (j - 4))"
    if "4 \<le> j" "j < Suc t + 4" for j using that by (auto simp: nth_append)
  show ?case
  proof (cases "upper_wins vs t ?s")
    case True
    define o1 where "o1 = out[(t + 4) div 8 := out ! ((t + 4) div 8) OR push_bit (7 - (t + 4) mod 8) 1]"
    obtain out' where out': "chainback_loop (viterbi_history v) t (drop_bit 1 st OR 0x80) (t + 4) o1 = Some out'" "length out' = length o1"
      "\<And>j. obit out' j \<longleftrightarrow> obit o1 j \<or> 4 \<le> j \<and> j < t + 4 \<and> walk vs t (unat (drop_bit 4 (drop_bit 1 st OR 0x80))) ! (j - 4)"
      using Suc.IH [of o1 "drop_bit 1 st OR 0x80"] Suc.prems(1) mono by (auto simp: o1_def)
    have "chainback_loop (viterbi_history v) (Suc t) st (Suc t + 4) out = Some out'"
      using True out'(1) b len unfolding o1_def by (simp only: chainback_loop.simps Let_def pos if_True) (simp add: mem_get_nth mem_set_upd)
    moreover have "obit out' j \<longleftrightarrow> obit out j \<or> 4 \<le> j \<and> j < Suc t + 4 \<and> walk vs (Suc t) ?s ! (j - 4)" for j
      using split [of j] True unfolding out'(3) next_state o1_def obit_set [OF len] by (auto simp del: walk.simps split: if_splits)
    ultimately show ?thesis using out'(2) by (auto simp: o1_def)
  next
    case False
    obtain out' where out': "chainback_loop (viterbi_history v) t (drop_bit 1 st) (t + 4) out = Some out'" "length out' = length out"
      "\<And>j. obit out' j \<longleftrightarrow> obit out j \<or> 4 \<le> j \<and> j < t + 4 \<and> walk vs t (unat (drop_bit 4 (drop_bit 1 st))) ! (j - 4)"
      using Suc.IH [of out "drop_bit 1 st"] Suc.prems(1) mono by auto
    have "chainback_loop (viterbi_history v) (Suc t) st (Suc t + 4) out = Some out'"
      using False out'(1) b by (simp only: chainback_loop.simps Let_def pos if_False)
    moreover have "obit out' j \<longleftrightarrow> obit out j \<or> 4 \<le> j \<and> j < Suc t + 4 \<and> walk vs (Suc t) ?s ! (j - 4)" for j
      using split [of j] False unfolding out'(3) next_state by (auto simp del: walk.simps split: if_splits)
    ultimately show ?thesis using out'(2) by auto
  qed
qed auto

section \<open>Decoding finds the nearest code\<close>

lemma code_Suc: "code w (Suc n) = code w n @ [G1 w n, G2 w n]"
  by (simp add: code_def)

lemma length_conv [simp]: "length (code w n) = 2 * n"
  by (induction n) (simp_all add: code_Suc, simp add: code_def)

lemma distance_path_cost: "2 * n \<le> length vs \<Longrightarrow> distance (code w n) (take (2 * n) vs) = path_cost w vs n"
proof (induction n)
  case 0
  then show ?case by (simp add: code_def distance_def)
next
  case (Suc n)
  have "take (2 * Suc n) vs = take (2 * n) vs @ [vs ! (2 * n), vs ! (2 * n + 1)]"
    using Suc.prems take_Suc_conv_app_nth [of "2 * n" vs] take_Suc_conv_app_nth [of "Suc (2 * n)" vs] by simp
  then show ?case using Suc by (simp add: code_Suc distance_def del: take_Suc_conv_app_nth)
qed

lemma path_distance: "length vs = 2 * n \<Longrightarrow> path_cost w vs n = distance (code w n) vs"
  using distance_path_cost [of n vs w] by simp

definition terminated :: "bool list \<Rightarrow> nat \<Rightarrow> bool" where
  "terminated w n \<longleftrightarrow> length w = n + 4 \<and> drop n w = replicate 4 False"

lemma terminated_state: "terminated w n \<Longrightarrow> state w n = 0"
proof -
  assume t: "terminated w n"
  then have "\<not> w ! (n + k)" if "k < 4" for k
    using that nth_drop [of n w k] by (simp add: terminated_def del: nth_drop)
  from this [of 0] this [of 1] this [of 2] this [of 3] show ?thesis by (simp add: state_def)
qed

lemma terminated_walk: "terminated (walk vs n 0 @ bits4 0) n"
proof -
  have "replicate 4 False = [False, False, False, False]" by code_simp
  then show ?thesis by (simp add: terminated_def bits4_def)
qed

lemma least_metric: "ms \<noteq> [] \<Longrightarrow> fold (\<lambda>m c. if m < c then m else c) ms (ms ! 0) = Min (set ms)" for ms :: "nat list"
proof -
  assume "ms \<noteq> []"
  have "(\<lambda>m c :: nat. if m < c then m else c) = min" by (auto simp: fun_eq_iff min_def)
  then have "fold (\<lambda>m c. if m < c then m else c) ms (ms ! 0) = Min (set (ms ! 0 # ms))" by (simp only: Min.set_eq_fold)
  also have "set (ms ! 0 # ms) = set ms" using \<open>ms \<noteq> []\<close> by auto
  finally show ?thesis .
qed

lemma obit_zeros: "j < 8 * k \<Longrightarrow> \<not> obit (replicate k 0 @ out) j"
  by (simp add: obit_def nth_append less_mult_imp_div_less mult.commute)

text \<open>
  The bits of the output: the bytes that are cleared hold the path; a byte behind them, which the last four bits may reach,
  keeps the bits that it had.
\<close>

definition path_written :: "bytes \<Rightarrow> bool list \<Rightarrow> nat \<Rightarrow> bytes \<Rightarrow> bool" where
  "path_written out w n out' \<longleftrightarrow> length out' = length out \<and>
    (\<forall>j. obit out' j \<longleftrightarrow> j \<ge> 8 * ((n - 1) div 8 + 1) \<and> obit out j \<or> 4 \<le> j \<and> j < n + 4 \<and> w ! (j - 4))"

lemma viterbi_decode_nearest:
  assumes "length inp = 2 * n" "0 < n" "n \<le> 244" "\<forall>x \<in> set inp. x \<le> 0xFFFF" "(n + 3) div 8 < length out"
  obtains out' w v where "viterbi_decode out inp = Some (out', Min (set (prevMetrics v)))" "decoded inp n v"
    "w = walk inp n 0 @ bits4 0" "path_written out w n out'"
proof -
  obtain v where v: "decode_loop inp 0 viterbi_reset = Some (n, v)" "decoded inp n v"
    using decode_loop_decoded [OF decoded_reset assms(4,1,3)] by auto
  define k where "k = (n - 1) div 8 + 1"
  have "(n - 1) div 8 \<le> (n + 3) div 8" by (rule div_le_mono) simp
  then have k: "k \<le> length out" using assms(5) by (simp add: k_def)
  define o1 where "o1 = replicate k 0 @ drop k out"
  have o1: "mem_write out 0 (replicate k 0) = Some o1" "length o1 = length out"
    using k by (simp_all add: o1_def)
  obtain out' where out': "chainback_loop (viterbi_history v) n 0 (n + 4) o1 = Some out'" "length out' = length o1"
      "\<forall>j. obit out' j \<longleftrightarrow> obit o1 j \<or> 4 \<le> j \<and> j < n + 4 \<and> walk inp n 0 ! (j - 4)"
    using chainback_loop_walk [OF v(2) order.refl assms(3), of o1 0] assms(5) o1(2) by auto
  have "prevMetrics v \<noteq> []" using v(2) by (auto simp: decoded_def)
  then have d: "viterbi_decode out inp = Some (out', Min (set (prevMetrics v)))"
    using assms(1) o1(1) [unfolded k_def]
    by (simp add: viterbi_decode_def viterbi_chainback_def v(1) out'(1) least_metric
      del: mem_write_Some replicate_Suc One_nat_def Suc_eq_plus1 Suc_eq_plus1_left add_Suc_right)
  have "obit o1 j \<longleftrightarrow> 8 * k \<le> j \<and> obit out j" for j
  proof (cases "j < 8 * k")
    case True
    then show ?thesis unfolding o1_def using obit_zeros [of j k "drop k out"] by simp
  next
    case False
    then have "k \<le> j div 8" by (simp add: less_eq_div_iff_mult_less_eq mult.commute)
    then show ?thesis using False k by (simp add: o1_def obit_def nth_append)
  qed
  moreover have "j - 4 < n" if "4 \<le> j" "j < n + 4" for j using that by simp
  ultimately have "path_written out (walk inp n 0 @ bits4 0) n out'"
    using out'(2,3) o1(2) by (auto simp: path_written_def k_def nth_append)
  then show ?thesis using that [OF d v(2)] by simp
qed

text \<open>
  C39. Viterbi decoding is maximum likelihood decoding. For every sequence of soft bits that fits the history and whose path fits
  the output, the decoder returns; the bits that it writes from position four on are those of an encoder input that
  ends in four zeros and whose code is at the least distance from the soft bits among all of these (with the four bits of the state
  before the first at the beginning); the cost that it returns is the least distance of any input, whatever its end,
  a sum of soft deviations.
\<close>

theorem viterbi_decode_optimal:
  assumes "length inp = 2 * n" "0 < n" "n \<le> 244" "\<forall>x \<in> set inp. x \<le> 0xFFFF" "(n + 3) div 8 < length out"
  shows "\<exists>out' cost w. viterbi_decode out inp = Some (out', cost) \<and> terminated w n \<and> path_written out w n out' \<and>
    (\<forall>w'. terminated w' n \<longrightarrow> distance (code w n) inp \<le> distance (code w' n) inp) \<and>
    (\<exists>w'. length w' = n + 4 \<and> distance (code w' n) inp = cost) \<and> (\<forall>w'. length w' = n + 4 \<longrightarrow> cost \<le> distance (code w' n) inp)"
proof -
  obtain out' w v where d: "viterbi_decode out inp = Some (out', Min (set (prevMetrics v)))" "decoded inp n v"
    "w = walk inp n 0 @ bits4 0" "path_written out w n out'"
    by (rule viterbi_decode_nearest [OF assms])
  have m: "prevMetrics v ! s = best inp n s" if "s < 16" for s using d(2) that by (simp add: decoded_def)
  have len: "length (prevMetrics v) = 16" using d(2) by (simp add: decoded_def)
  have "distance (code w n) inp \<le> distance (code w' n) inp" if "terminated w' n" for w'
  proof -
    have "distance (code w n) inp = best inp n 0" unfolding d(3) path_distance [OF assms(1), symmetric] by (rule walk_best) simp
    also have "\<dots> \<le> distance (code w' n) inp" using best_path [of inp n w'] unfolding terminated_state [OF that] path_distance [OF assms(1)] .
    finally show ?thesis .
  qed
  moreover have "Min (set (prevMetrics v)) \<le> distance (code w' n) inp" for w'
  proof -
    have "best inp n (state w' n) \<in> set (prevMetrics v)" using m [OF state_less] nth_mem [of "state w' n" "prevMetrics v"] len state_less by metis
    then show ?thesis using best_path [of inp n w'] path_distance [OF assms(1), of w'] by (metis List.finite_set Min_le order_trans)
  qed
  moreover have "\<exists>w'. length w' = n + 4 \<and> distance (code w' n) inp = Min (set (prevMetrics v))"
  proof -
    have "Min (set (prevMetrics v)) \<in> set (prevMetrics v)" using len by (intro Min_in) auto
    then obtain s where s: "s < 16" "prevMetrics v ! s = Min (set (prevMetrics v))" using len by (metis in_set_conv_nth)
    then show ?thesis
      using walk_best [OF s(1), of inp n] path_distance [OF assms(1)] m [OF s(1)] by (intro exI [of _ "walk inp n s @ bits4 s"]) simp
  qed
  ultimately show ?thesis using d(1,4) terminated_walk [of inp n] unfolding d(3) by blast
qed

theorem viterbi_decode_optimal_witness:
  "\<exists>out' cost w. viterbi_decode [0xFF, 7] [0xFFFF, 3, 0xFFF0, 0x8000] = Some (out', cost) \<and> terminated w 2 \<and> path_written [0xFF, 7] w 2 out' \<and>
    (\<forall>w'. terminated w' 2 \<longrightarrow> distance (code w 2) [0xFFFF, 3, 0xFFF0, 0x8000] \<le> distance (code w' 2) [0xFFFF, 3, 0xFFF0, 0x8000])"
  using viterbi_decode_optimal [of "[0xFFFF, 3, 0xFFF0, 0x8000]" 2 "[0xFF, 7]"] by fastforce

section \<open>Puncturing\<close>

fun punct_bits :: "nat list \<Rightarrow> nat \<Rightarrow> bool list \<Rightarrow> bool list" where
  "punct_bits pat p [] = []"
| "punct_bits pat p (b # bs) = (if pat ! p \<noteq> 0 then [b] else []) @ punct_bits pat ((p + 1) mod length pat) bs"

lemma G_bits:
  assumes "i + 4 < length w"
  shows "conv_G1 (map of_bool w) i = of_bool (G1 w i)" "conv_G2 (map of_bool w) i = of_bool (G2 w i)"
  using assms by (simp_all add: conv_G1_def conv_G2_def G1_def G2_def of_bool_def)

lemma fold_punct_put:
  "snd (fold (\<lambda>b. punct_put pat (of_bool b)) bs (p, out)) = out @ map of_bool (punct_bits pat p bs)"
  by (induction bs arbitrary: p out) (simp_all add: punct_put_def)

lemma conv_encode_bits:
  assumes "n + 4 \<le> length w"
  shows "conv_encode pat (map of_bool w) n = map of_bool (punct_bits pat 0 (code w n))"
proof -
  have "fold (\<lambda>i s. punct_put pat (conv_G2 (map of_bool w) i) (punct_put pat (conv_G1 (map of_bool w) i) s)) [0..<m] s
      = fold (\<lambda>b. punct_put pat (of_bool b)) (code w m) s" if "m \<le> n" for m s
    using that assms by (induction m) (simp_all add: G_bits code_Suc, simp add: code_def)
  then show ?thesis unfolding conv_encode_def by (simp add: fold_punct_put del: upt_conv_Cons)
qed

text \<open>Soft bits for all bits of a code: those received, nearly sure, and the half sure ones for those that were not sent.\<close>

fun matches :: "nat \<Rightarrow> nat list \<Rightarrow> nat \<Rightarrow> bool list \<Rightarrow> nat list \<Rightarrow> bool" where
  "matches t pat p [] vs \<longleftrightarrow> vs = []"
| "matches t pat p (b # bs) vs \<longleftrightarrow> vs \<noteq> [] \<and> (if pat ! p \<noteq> 0 then near t b (hd vs) else hd vs = 0x7FFF) \<and>
    matches t pat ((p + 1) mod length pat) bs (tl vs)"

fun last_sent :: "nat list \<Rightarrow> nat \<Rightarrow> bool list \<Rightarrow> bool" where
  "last_sent pat p [] \<longleftrightarrow> True"
| "last_sent pat p (b # bs) \<longleftrightarrow> (if bs = [] then pat ! p \<noteq> 0 else last_sent pat ((p + 1) mod length pat) bs)"

lemma last_sent_nonempty: "last_sent pat p bs \<Longrightarrow> punct_bits pat p bs = [] \<Longrightarrow> bs = []"
  by (induction bs arbitrary: p) (auto split: if_splits)

lemma last_sent_index: "p < length pat \<Longrightarrow> last_sent pat p bs \<longleftrightarrow> bs = [] \<or> pat ! ((p + length bs - 1) mod length pat) \<noteq> 0"
proof (induction bs arbitrary: p)
  case (Cons b bs)
  show ?case
  proof (cases bs)
    case (Cons c cs)
    have "((p + 1) mod length pat + length bs - 1) mod length pat = ((p + 1) mod length pat + length cs) mod length pat"
      using Cons by simp
    also have "\<dots> = (p + length (b # bs) - 1) mod length pat" using Cons by (simp add: mod_simps)
    finally have "((p + 1) mod length pat + length bs - 1) mod length pat = (p + length (b # bs) - 1) mod length pat" .
    moreover have "(p + 1) mod length pat < length pat" using Cons.prems by (intro mod_less_divisor) linarith
    ultimately show ?thesis using Cons.IH [of "(p + 1) mod length pat"] Cons by auto
  qed (use Cons.prems in simp)
qed simp

lemma unpuncture_matches:
  assumes "list_all2 (near t) (punct_bits pat p bs) inp" "last_sent pat p bs" "length um + length bs \<le> 488"
  shows "\<exists>vs. unpuncture pat p inp um = Some (um @ vs) \<and> matches t pat p bs vs"
  using assms
proof (induction bs arbitrary: p inp um)
  case Nil
  then show ?case by (simp add: unpuncture.simps)
next
  case (Cons b bs)
  have i: "inp \<noteq> []" using Cons.prems(1) last_sent_nonempty [OF Cons.prems(2)] by auto
  have s: "last_sent pat ((p + 1) mod length pat) bs" using Cons.prems(2) by (cases "bs = []") simp_all
  show ?case
  proof (cases "pat ! p \<noteq> 0")
    case True
    then obtain v inp' where inp: "inp = v # inp'" "near t b v" "list_all2 (near t) (punct_bits pat ((p + 1) mod length pat) bs) inp'"
      using Cons.prems(1) by (auto simp: list_all2_Cons1)
    obtain vs where vs: "unpuncture pat ((p + 1) mod length pat) inp' (um @ [v]) = Some ((um @ [v]) @ vs)"
      "matches t pat ((p + 1) mod length pat) bs vs"
      using Cons.IH [OF inp(3) s, of "um @ [v]"] Cons.prems(3) by auto
    then show ?thesis using True inp Cons.prems(3) by (intro exI [of _ "v # vs"]) (simp add: unpuncture.simps [of _ p])
  next
    case False
    then obtain vs where vs: "unpuncture pat ((p + 1) mod length pat) inp (um @ [0x7FFF]) = Some ((um @ [0x7FFF]) @ vs)"
      "matches t pat ((p + 1) mod length pat) bs vs"
      using Cons.IH [OF _ s, of inp "um @ [0x7FFF]"] Cons.prems(1,3) by auto
    then show ?thesis using False i Cons.prems(3) by (intro exI [of _ "0x7FFF # vs"]) (simp add: unpuncture.simps [of _ p])
  qed
qed

lemma matches_length: "matches t pat p bs vs \<Longrightarrow> length vs = length bs"
proof (induction bs arbitrary: p vs)
  case (Cons b bs)
  then show ?case by (cases vs) auto
qed simp

lemma matches_bound: "matches t pat p bs vs \<Longrightarrow> \<forall>v \<in> set vs. v \<le> 0xFFFF"
proof (induction bs arbitrary: p vs)
  case (Cons b bs)
  then show ?case by (cases vs) (auto simp: near_def split: if_splits)
qed simp

text \<open>Another code is farther away as soon as it differs in a bit that was sent.\<close>

lemma distance_Cons: "distance (b # bs) (v # vs) = dev b v + distance bs vs"
  by (simp add: distance_def)

lemma matches_distance:
  assumes "matches 32000 pat p bs vs" "length cs = length bs" "p < length pat"
  shows "distance bs vs + (if \<exists>j < length bs. pat ! ((p + j) mod length pat) \<noteq> 0 \<and> bs ! j \<noteq> cs ! j then 1535 else 0) \<le> distance cs vs + length bs"
  using assms
proof (induction bs arbitrary: p vs cs)
  case Nil
  then show ?case by (simp add: distance_def)
next
  case (Cons b bs)
  obtain v vs' where vs: "vs = v # vs'" using Cons.prems(1) by (cases vs) simp_all
  obtain c cs' where cs: "cs = c # cs'" using Cons.prems(2) by (cases cs) simp_all
  let ?p = "(p + 1) mod length pat"
  let ?D = "\<lambda>p bs cs. \<exists>j < length bs. pat ! ((p + j) mod length pat) \<noteq> 0 \<and> bs ! j \<noteq> cs ! j"
  have IH: "distance bs vs' + (if ?D ?p bs cs' then 1535 else 0) \<le> distance cs' vs' + length bs"
    using Cons.prems vs cs by (intro Cons.IH) (auto intro: mod_less_divisor)
  have D: "?D p (b # bs) (c # cs') \<longleftrightarrow> pat ! p \<noteq> 0 \<and> b \<noteq> c \<or> ?D ?p bs cs'"
    using Cons.prems(3) by (simp add: Ex_less_Suc2 mod_simps)
  have both: "a + (if P then 1535 else 0) \<le> a' + 1 \<Longrightarrow> d + (if Q then 1535 else 0) \<le> d' + n \<Longrightarrow>
    (a + d) + (if P \<or> Q then 1535 else 0) \<le> (a' + d') + (n + 1)" for a a' d d' n :: nat and P Q by (auto split: if_splits)
  have "dev b v + (if pat ! p \<noteq> 0 \<and> b \<noteq> c then 1535 else 0) \<le> dev c v + 1"
    using Cons.prems(1) unfolding vs by (auto simp: dev_def near_def split: if_splits)
  from both [OF this IH] show ?case unfolding vs cs D by (simp only: distance_Cons length_Cons Suc_eq_plus1)
qed

lemma nth_code: "i < n \<Longrightarrow> code w n ! (2 * i) = G1 w i \<and> code w n ! (2 * i + 1) = G2 w i"
  by (induction n) (auto simp: code_Suc nth_append less_Suc_eq)

lemma codes_differ:
  assumes "terminated w n" "terminated w' n" "w \<noteq> w'"
  shows "\<exists>i < n. G1 w i \<noteq> G1 w' i \<and> G2 w i \<noteq> G2 w' i"
proof -
  let ?I = "{i. i < n + 4 \<and> w ! i \<noteq> w' ! i}"
  have len: "length w = n + 4" "length w' = n + 4" using assms(1,2) by (simp_all add: terminated_def)
  have "?I \<noteq> {}" using assms(3) len nth_equalityI [of w w'] by auto
  then have m: "Max ?I \<in> ?I" by (intro Max_in) simp_all
  define i where "i = Max ?I"
  have last: "w ! j = w' ! j" if "i < j" "j < n + 4" for j
  proof (rule ccontr)
    assume "w ! j \<noteq> w' ! j"
    then have "j \<le> Max ?I" using that by (intro Max_ge) simp_all
    then show False using that by (simp add: i_def)
  qed
  have "w ! j = w' ! j" if "n \<le> j" "j < n + 4" for j
    using assms(1,2) that nth_drop [of n w "j - n"] nth_drop [of n w' "j - n"] by (simp add: terminated_def)
  then have "i < n" using m unfolding i_def [symmetric] by (metis (mono_tags, lifting) mem_Collect_eq not_less)
  moreover have "w ! i \<noteq> w' ! i" using m by (simp add: i_def)
  ultimately show ?thesis using last by (intro exI [of _ i]) (simp add: G1_def G2_def)
qed

definition good_pattern :: "nat list \<Rightarrow> nat \<Rightarrow> bool" where
  "good_pattern pat n \<longleftrightarrow> pat \<noteq> [] \<and> pat ! ((2 * n - 1) mod length pat) \<noteq> 0 \<and>
    (\<forall>i \<in> set [0..<n]. pat ! (2 * i mod length pat) \<noteq> 0 \<or> pat ! ((2 * i + 1) mod length pat) \<noteq> 0)"

lemma sent_code_nearest:
  assumes "good_pattern pat n" "n \<le> 244" "matches 32000 pat 0 (code w n) vs" "terminated w n" "terminated w' n" "w' \<noteq> w"
  shows "distance (code w n) vs < distance (code w' n) vs"
proof -
  obtain i where i: "i < n" "G1 w i \<noteq> G1 w' i" "G2 w i \<noteq> G2 w' i" using codes_differ [OF assms(4,5)] assms(6) by auto
  then have "pat ! (2 * i mod length pat) \<noteq> 0 \<or> pat ! ((2 * i + 1) mod length pat) \<noteq> 0"
    using assms(1) by (simp add: good_pattern_def)
  then have "\<exists>j < length (code w n). pat ! ((0 + j) mod length pat) \<noteq> 0 \<and> code w n ! j \<noteq> code w' n ! j"
    using i nth_code [OF i(1), of w] nth_code [OF i(1), of w']
    by (elim disjE; intro exI [of _ "2 * i"] exI [of _ "2 * i + 1"]) auto
  then have "distance (code w n) vs + 1535 \<le> distance (code w' n) vs + 2 * n"
    using matches_distance [OF assms(3), of "code w' n"] assms(1) by (simp add: good_pattern_def)
  then show ?thesis using assms(2) by linarith
qed

lemma decode_sent:
  assumes "good_pattern pat n" "0 < n" "n \<le> 244" "(n + 3) div 8 < length out" "terminated w n"
    and "list_all2 (near 32000) (punct_bits pat 0 (code w n)) inp"
  shows "\<exists>out' cost. viterbi_decode_punctured out inp pat = Some (out', cost) \<and> path_written out w n out'"
proof -
  have "last_sent pat 0 (code w n)" using assms(1) by (simp add: last_sent_index good_pattern_def)
  then obtain vs where vs: "unpuncture pat 0 inp [] = Some vs" "matches 32000 pat 0 (code w n) vs"
    using unpuncture_matches [OF assms(6), of "[]"] assms(3) by auto
  have len: "length vs = 2 * n" using matches_length [OF vs(2)] by simp
  obtain out' u v where d: "viterbi_decode out vs = Some (out', Min (set (prevMetrics v)))" "decoded vs n v"
    "u = walk vs n 0 @ bits4 0" "path_written out u n out'"
    by (rule viterbi_decode_nearest [OF len assms(2,3) matches_bound [OF vs(2)] assms(4)])
  have u: "terminated u n" unfolding d(3) by (rule terminated_walk)
  have "distance (code u n) vs = best vs n 0" unfolding d(3) path_distance [OF len, symmetric] by (rule walk_best) simp
  also have "\<dots> \<le> distance (code w n) vs" using best_path [of vs n w] unfolding terminated_state [OF assms(5)] path_distance [OF len] .
  finally have "u = w" using sent_code_nearest [OF assms(1,3) vs(2) assms(5) u] by linarith
  then show ?thesis using d(1,4) vs(1) by (simp add: viterbi_decode_punctured_def)
qed

section \<open>The three frames\<close>

text \<open>The bits of bytes, as truth values, and the input of an encoder for them.\<close>

definition bits :: "bytes \<Rightarrow> bool list" where
  "bits bs = concat (map (\<lambda>b. map (\<lambda>j. bit b (7 - j)) [0..<8]) bs)"

definition framed :: "bool list \<Rightarrow> bool list" where
  "framed w = replicate 4 False @ w @ replicate 4 False"

lemma unpack_bits: "concat (map unpack bs) = map of_bool (bits bs)"
  by (induction bs) (simp_all add: bits_def unpack_def drop_AND_1 del: upt_conv_Cons)

lemma length_bits [simp]: "length (bits bs) = 8 * length bs"
  by (induction bs) (simp_all add: bits_def)

lemma bits_Cons: "bits (b # bs) = map (\<lambda>j. bit b (7 - j)) [0..<8] @ bits bs"
  by (simp add: bits_def)

lemma nth_bits: "j < 8 * length bs \<Longrightarrow> bits bs ! j \<longleftrightarrow> obit bs j"
proof (induction bs arbitrary: j)
  case (Cons b bs)
  then show ?case
    by (cases "j < 8") (simp_all add: bits_Cons nth_append obit_def div_if [of j] mod_if [of j] del: upt_conv_Cons)
qed simp

lemma bytes_eqI:
  assumes "length xs = length ys" "\<forall>j < 8 * length xs. obit xs j \<longleftrightarrow> obit ys j"
  shows "xs = ys"
proof (rule nth_equalityI)
  fix k assume k: "k < length xs"
  show "xs ! k = ys ! k"
  proof (rule bit_word_eqI)
    fix n assume "n < LENGTH(8)"
    then obtain m where m: "n = 7 - m" "m < 8" using that [of "7 - n"] by simp
    then have "8 * k + m < 8 * length xs" "(8 * k + m) div 8 = k" "(8 * k + m) mod 8 = m" using k by simp_all
    then show "bit (xs ! k) n \<longleftrightarrow> bit (ys ! k) n"
      using assms(2) [rule_format, of "8 * k + m"] by (simp add: obit_def m)
  qed
qed (rule assms(1))

lemma terminated_framed: "terminated (framed w) (length w + 4)"
  by (simp add: terminated_def framed_def)


text \<open>Soft bits that are near to the bits sent.\<close>

definition received :: "nat \<Rightarrow> bytes \<Rightarrow> nat list \<Rightarrow> bool" where
  "received t bs c \<longleftrightarrow> length c = length bs \<and> (\<forall>i < length bs. near t (bs ! i = 1) (c ! i))"

lemma received_bits: "received t (map of_bool ps) c \<Longrightarrow> list_all2 (near t) ps c"
  by (simp add: received_def list_all2_conv_all_nth)

lemma decode_framed:
  assumes "good_pattern pat n" "n = length w + 4" "n \<le> 244" "(n + 3) div 8 < length out"
    and "received 32000 (conv_encode pat (map of_bool (framed w)) n) c"
  shows "\<exists>out' cost. viterbi_decode_punctured out c pat = Some (out', cost) \<and> length out' = length out \<and>
    (\<forall>j < 8 * ((n - 1) div 8 + 1). obit out' j \<longleftrightarrow> 8 \<le> j \<and> j < 8 + length w \<and> w ! (j - 8))"
proof -
  have t: "terminated (framed w) n" unfolding assms(2) by (rule terminated_framed)
  then have "conv_encode pat (map of_bool (framed w)) n = map of_bool (punct_bits pat 0 (code (framed w) n))"
    by (intro conv_encode_bits) (simp add: terminated_def)
  then have l: "list_all2 (near 32000) (punct_bits pat 0 (code (framed w) n)) c" using assms(5) by (simp add: received_bits)
  have "0 < n" using assms(2) by simp
  from decode_sent [OF assms(1) this assms(3,4) t l] obtain out' cost where
    d: "viterbi_decode_punctured out c pat = Some (out', cost)" "path_written out (framed w) n out'" by auto
  from d(2) have d': "length out' = length out"
    "\<And>j. j < 8 * ((n - 1) div 8 + 1) \<Longrightarrow> obit out' j \<longleftrightarrow> 4 \<le> j \<and> j < n + 4 \<and> framed w ! (j - 4)"
    by (auto simp: path_written_def)
  have "4 \<le> j \<and> j < n + 4 \<and> framed w ! (j - 4) \<longleftrightarrow> 8 \<le> j \<and> j < 8 + length w \<and> w ! (j - 8)" for j
    using assms(2) by (auto simp: framed_def nth_append)
  then show ?thesis using d(1) d' by auto
qed

text \<open>Which bits are sent, by walking through the pattern, which the simplifier evaluates quickly.\<close>

fun sent_flags :: "nat list \<Rightarrow> nat list \<Rightarrow> nat \<Rightarrow> bool list" where
  "sent_flags pat ps 0 = []"
| "sent_flags pat [] (Suc n) = []"
| "sent_flags pat (a # ps) (Suc n) = (a \<noteq> 0) # sent_flags pat (if ps = [] then pat else ps) n"

fun one_of_two :: "bool list \<Rightarrow> bool" where
  "one_of_two (a # b # r) \<longleftrightarrow> (a \<or> b) \<and> one_of_two r"
| "one_of_two r \<longleftrightarrow> True"

lemma sent_flags_Suc:
  "p < length pat \<Longrightarrow> sent_flags pat (drop p pat) (Suc n) = (pat ! p \<noteq> 0) # sent_flags pat (drop ((p + 1) mod length pat) pat) n"
proof -
  assume p: "p < length pat"
  then have d: "drop p pat = pat ! p # drop (p + 1) pat" by (simp add: Cons_nth_drop_Suc)
  show ?thesis unfolding d using p by (cases "p + 1 = length pat") (simp_all add: Suc_lessI)
qed

lemma sent_flags_nth: "p < length pat \<Longrightarrow> j < n \<Longrightarrow> sent_flags pat (drop p pat) n ! j \<longleftrightarrow> pat ! ((p + j) mod length pat) \<noteq> 0"
proof (induction n arbitrary: p j)
  case (Suc n)
  have "(p + 1) mod length pat < length pat" using Suc.prems(1) by (intro mod_less_divisor) linarith
  then show ?case using Suc.IH [of "(p + 1) mod length pat" "j - 1"] Suc.prems
    by (cases j) (simp_all add: sent_flags_Suc mod_simps del: sent_flags.simps)
qed simp

lemma length_sent_flags: "p < length pat \<Longrightarrow> length (sent_flags pat (drop p pat) n) = n"
proof (induction n arbitrary: p)
  case (Suc n)
  have "(p + 1) mod length pat < length pat" using Suc.prems by (intro mod_less_divisor) linarith
  then show ?case using Suc by (simp add: sent_flags_Suc del: sent_flags.simps)
qed simp

lemma length_punct_bits: "p < length pat \<Longrightarrow> length (punct_bits pat p bs) = length (filter (\<lambda>b. b) (sent_flags pat (drop p pat) (length bs)))"
proof (induction bs arbitrary: p)
  case (Cons b bs)
  have "(p + 1) mod length pat < length pat" using Cons.prems by (intro mod_less_divisor) linarith
  then show ?case using Cons by (simp add: sent_flags_Suc del: sent_flags.simps)
qed simp

lemma one_of_two_nth: "one_of_two fl \<Longrightarrow> 2 * i + 1 < length fl \<Longrightarrow> fl ! (2 * i) \<or> fl ! (2 * i + 1)"
proof (induction fl arbitrary: i rule: one_of_two.induct)
  case (1 a b r)
  then show ?case by (cases i) auto
qed simp_all

lemma good_patternI:
  assumes "sent_flags pat pat (2 * n) = fl" "fl \<noteq> []" "last fl" "one_of_two fl" "pat \<noteq> []"
  shows "good_pattern pat n"
proof -
  have p: "0 < length pat" using assms(5) by simp
  have len: "length fl = 2 * n" using length_sent_flags [OF p, of "2 * n"] assms(1) by simp
  have nth: "fl ! j \<longleftrightarrow> pat ! (j mod length pat) \<noteq> 0" if "j < 2 * n" for j
    using sent_flags_nth [OF p that] assms(1) by simp
  have "0 < n" using assms(2) len by (cases n) auto
  have "fl ! (2 * n - 1)" using assms(2,3) len by (simp add: last_conv_nth)
  then have "pat ! ((2 * n - 1) mod length pat) \<noteq> 0" using nth [of "2 * n - 1"] \<open>0 < n\<close> by simp
  moreover have "pat ! (2 * i mod length pat) \<noteq> 0 \<or> pat ! ((2 * i + 1) mod length pat) \<noteq> 0" if "i < n" for i
    using one_of_two_nth [OF assms(4), of i] nth [of "2 * i"] nth [of "2 * i + 1"] that len by auto
  ultimately show ?thesis using assms(5) by (simp add: good_pattern_def)
qed

lemma flags_checked:
  "let fl = sent_flags puncture_pattern_1 puncture_pattern_1 488 in fl \<noteq> [] \<and> last fl \<and> one_of_two fl \<and> length (filter (\<lambda>b. b) fl) = 368"
  "let fl = sent_flags puncture_pattern_2 puncture_pattern_2 296 in fl \<noteq> [] \<and> last fl \<and> one_of_two fl \<and> length (filter (\<lambda>b. b) fl) = 272"
  "let fl = sent_flags puncture_pattern_3 puncture_pattern_3 420 in fl \<noteq> [] \<and> last fl \<and> one_of_two fl \<and> length (filter (\<lambda>b. b) fl) = 368"
  by code_simp+

lemma good_patterns: "good_pattern puncture_pattern_1 244" "good_pattern puncture_pattern_2 148" "good_pattern puncture_pattern_3 210"
  using flags_checked by (auto simp: Let_def puncture_pattern_1_def puncture_pattern_2_def puncture_pattern_3_def intro!: good_patternI [OF refl])

lemma decoded_bytes:
  assumes "\<forall>j < 8 * Suc (length bs). obit out j \<longleftrightarrow> 8 \<le> j \<and> j < 8 + m \<and> bits ds ! (j - 8)" "length bs < length out"
    and "\<forall>j < 8 * length bs. obit bs j \<longleftrightarrow> j < m \<and> bits ds ! j"
  shows "take (Suc (length bs)) out = 0 # bs"
proof (rule bytes_eqI)
  show "\<forall>j < 8 * length (take (Suc (length bs)) out). obit (take (Suc (length bs)) out) j \<longleftrightarrow> obit (0 # bs) j"
  proof (intro allI impI)
    fix j assume "j < 8 * length (take (Suc (length bs)) out)"
    then have j: "j < 8 * Suc (length bs)" using assms(2) by simp
    then have "obit (take (Suc (length bs)) out) j \<longleftrightarrow> obit out j" by (simp add: obit_def less_mult_imp_div_less mult.commute)
    moreover have "obit (0 # bs) j \<longleftrightarrow> 8 \<le> j \<and> obit bs (j - 8)"
      by (cases "j < 8") (simp_all add: obit_def div_if [of j] mod_if [of j])
    ultimately show "obit (take (Suc (length bs)) out) j \<longleftrightarrow> obit (0 # bs) j" using assms(1,3) j by auto
  qed
qed (use assms(2) in simp)

lemma framed_ud: "replicate 4 0 @ map of_bool w @ replicate 4 0 = map of_bool (framed w)"
  by (simp add: framed_def)

lemma LSF_code: "lsf_ok l \<Longrightarrow> conv_encode_LSF l = conv_encode puncture_pattern_1 (map of_bool (framed (bits (lsf_bytes l)))) 244"
  by (simp add: conv_encode_LSF_def Let_def unpack_bits flip: framed_ud)

definition fn_bytes :: "u16 \<Rightarrow> bytes" where
  "fn_bytes fn = [ucast (drop_bit 8 fn), ucast fn]"

lemma bits_fn: "bits (fn_bytes fn) = map (\<lambda>i. bit fn (15 - i)) [0..<16]"
proof -
  have u: "[0..<16] = map (\<lambda>j. 0 + j) [0..<8] @ map (\<lambda>j. 8 + j) [0..<8 :: nat]" by code_simp
  have "bit fn (15 - j) = bit fn (8 + (7 - j))" "bit fn (15 - (8 + j)) = bit fn (7 - j)" if "j < 8" for j
    using that by (simp_all add: Suc_leI le_imp_diff_is_add)
  then show ?thesis unfolding u
    by (simp add: fn_bytes_def bits_def bit_ucast_iff bit_drop_bit_eq less_Suc_eq_le del: upt_conv_Cons) auto
qed

lemma stream_code:
  "conv_encode_stream_frame inp fn = conv_encode puncture_pattern_2 (map of_bool (framed (bits (fn_bytes fn @ take 16 inp)))) 148"
proof -
  have "map (\<lambda>i. ucast (drop_bit (15 - i) fn AND 1) :: u8) [0..<16] = map of_bool (bits (fn_bytes fn))"
    unfolding bits_fn drop_AND_1 by (simp del: upt_conv_Cons)
  moreover have "bits (xs @ ys) = bits xs @ bits ys" for xs ys by (simp add: bits_def)
  ultimately show ?thesis by (simp add: conv_encode_stream_frame_def Let_def unpack_bits del: upt_conv_Cons flip: framed_ud)
qed

lemma packet_code:
  "conv_encode_packet_frame inp = conv_encode puncture_pattern_3 (map of_bool (framed (take 206 (bits (take 26 inp))))) 210"
  by (simp add: conv_encode_packet_frame_def Let_def unpack_bits take_map flip: framed_ud)


text \<open>What an encoder sent is decoded, behind a byte of zeros, from soft bits that are wrong by less than half each.\<close>

lemma decode_LSF:
  assumes "lsf_ok l" "received 32000 (conv_encode_LSF l) c" "31 \<le> length out"
  shows "\<exists>out' cost. viterbi_decode_punctured out c puncture_pattern_1 = Some (out', cost) \<and> length out' = length out \<and>
    take 31 out' = 0 # lsf_bytes l"
proof -
  have n: "length (lsf_bytes l) = 30" using assms(1) by (simp add: lsf_ok_def lsf_bytes_def)
  obtain out' cost where d: "viterbi_decode_punctured out c puncture_pattern_1 = Some (out', cost)" "length out' = length out"
    "\<forall>j < 248. obit out' j \<longleftrightarrow> 8 \<le> j \<and> j < 248 \<and> bits (lsf_bytes l) ! (j - 8)"
    using decode_framed [OF good_patterns(1), of "bits (lsf_bytes l)" out c] assms n by (auto simp: LSF_code)
  have "take (Suc (length (lsf_bytes l))) out' = 0 # lsf_bytes l"
    using d n assms(3) by (intro decoded_bytes [where m = 240 and ds = "lsf_bytes l"]) (simp_all add: nth_bits)
  then show ?thesis using d n by auto
qed

lemma decode_stream:
  assumes "16 \<le> length inp" "received 32000 (conv_encode_stream_frame inp fn) c" "19 \<le> length out"
  shows "\<exists>out' cost. viterbi_decode_punctured out c puncture_pattern_2 = Some (out', cost) \<and> length out' = length out \<and>
    take 19 out' = 0 # fn_bytes fn @ take 16 inp"
proof -
  define bs where "bs = fn_bytes fn @ take 16 inp"
  have n: "length bs = 18" using assms(1) by (simp add: bs_def fn_bytes_def)
  obtain out' cost where d: "viterbi_decode_punctured out c puncture_pattern_2 = Some (out', cost)" "length out' = length out"
    "\<forall>j < 152. obit out' j \<longleftrightarrow> 8 \<le> j \<and> j < 152 \<and> bits bs ! (j - 8)"
    using decode_framed [OF good_patterns(2), of "bits bs" out c] assms n by (auto simp: stream_code bs_def)
  have "take (Suc (length bs)) out' = 0 # bs"
    using d n assms(3) by (intro decoded_bytes [where m = 144 and ds = bs]) (simp_all add: nth_bits)
  then show ?thesis using d n by (auto simp: bs_def)
qed

lemma obit_last_byte:
  assumes "26 \<le> length inp" "j < 208"
  shows "obit (take 25 inp @ [inp ! 25 AND 0xFC]) j \<longleftrightarrow> j < 206 \<and> bits (take 26 inp) ! j"
proof -
  have m: "bit (0xFC :: int) k \<longleftrightarrow> 2 \<le> k \<and> k < 8" for k
  proof -
    have "(0xFC :: int) = push_bit 2 (mask 6)" by (simp add: mask_eq_exp_minus_1 push_bit_eq_mult)
    then show ?thesis by (simp only: bit_push_bit_iff bit_mask_iff) auto
  qed
  have b: "bits (take 26 inp) ! j \<longleftrightarrow> obit inp j"
    using assms by (subst nth_bits) (simp_all add: obit_def less_mult_imp_div_less)
  show ?thesis
  proof (cases "j < 200")
    case True
    then show ?thesis unfolding b using assms by (simp add: obit_def nth_append less_mult_imp_div_less)
  next
    case False
    then obtain k where k: "j = 8 * 25 + k" "k < 8" using assms(2) that [of "j - 200"] by auto
    then have "j div 8 = 25" "j mod 8 = k" by presburger+
    then show ?thesis unfolding b using k assms by (auto simp: obit_def nth_append bit_and_iff m)
  qed
qed

lemma decode_packet:
  assumes "26 \<le> length inp" "received 32000 (conv_encode_packet_frame inp) c" "27 \<le> length out"
  shows "\<exists>out' cost. viterbi_decode_punctured out c puncture_pattern_3 = Some (out', cost) \<and> length out' = length out \<and>
    take 27 out' = 0 # take 25 inp @ [inp ! 25 AND 0xFC]"
proof -
  define bs where "bs = take 25 inp @ [inp ! 25 AND 0xFC]"
  have n: "length bs = 26" using assms(1) by (simp add: bs_def)
  obtain out' cost where d: "viterbi_decode_punctured out c puncture_pattern_3 = Some (out', cost)" "length out' = length out"
    "\<forall>j < 216. obit out' j \<longleftrightarrow> 8 \<le> j \<and> j < 214 \<and> take 206 (bits (take 26 inp)) ! (j - 8)"
    using decode_framed [OF good_patterns(3), of "take 206 (bits (take 26 inp))" out c] assms n by (auto simp: packet_code)
  have "take (Suc (length bs)) out' = 0 # bs"
  proof (rule decoded_bytes [where m = 206 and ds = "take 26 inp"])
    show "\<forall>j < 8 * Suc (length bs). obit out' j \<longleftrightarrow> 8 \<le> j \<and> j < 8 + 206 \<and> bits (take 26 inp) ! (j - 8)"
      using d(3) n by auto
  qed (use d(2) n assms obit_last_byte in \<open>simp_all add: bs_def\<close>)
  then show ?thesis using d n by (auto simp: bs_def)
qed

end
