(* ===== verification/M17_Frame.thy ===== *)
theory M17_Frame
  imports M17_Golay M17_Fec
begin

unbundle bit_operations_syntax

text \<open>
  The frames of \<open>libm17\<close>: interleaving, randomizing and slicing (\<open>phy/phy.c\<close>), and the symbols of the frames (\<open>m17.c\<close>), which
  put the encoders together. What is sent as a frame is read back by the functions of the receiver, in the
  opposite order, also when every soft bit is noisy.

  Symbols are whole numbers, which is what the symbols of the sender are. The code keeps them as floating-point numbers;
  \<open>slice_symbols\<close> is modelled on whole numbers only, for which its arithmetic is exact.
\<close>

section \<open>Model\<close>

subsection \<open>Interleaving and randomizing\<close>

definition intrl_seq :: "u16 list" where
  "intrl_seq = [
    0, 137, 90, 227, 180, 317, 270, 39, 360, 129, 82, 219, 172, 309, 262, 31,
    352, 121, 74, 211, 164, 301, 254, 23, 344, 113, 66, 203, 156, 293, 246, 15,
    336, 105, 58, 195, 148, 285, 238, 7, 328, 97, 50, 187, 140, 277, 230, 367,
    320, 89, 42, 179, 132, 269, 222, 359, 312, 81, 34, 171, 124, 261, 214, 351,
    304, 73, 26, 163, 116, 253, 206, 343, 296, 65, 18, 155, 108, 245, 198, 335,
    288, 57, 10, 147, 100, 237, 190, 327, 280, 49, 2, 139, 92, 229, 182, 319,
    272, 41, 362, 131, 84, 221, 174, 311, 264, 33, 354, 123, 76, 213, 166, 303,
    256, 25, 346, 115, 68, 205, 158, 295, 248, 17, 338, 107, 60, 197, 150, 287,
    240, 9, 330, 99, 52, 189, 142, 279, 232, 1, 322, 91, 44, 181, 134, 271,
    224, 361, 314, 83, 36, 173, 126, 263, 216, 353, 306, 75, 28, 165, 118, 255,
    208, 345, 298, 67, 20, 157, 110, 247, 200, 337, 290, 59, 12, 149, 102, 239,
    192, 329, 282, 51, 4, 141, 94, 231, 184, 321, 274, 43, 364, 133, 86, 223,
    176, 313, 266, 35, 356, 125, 78, 215, 168, 305, 258, 27, 348, 117, 70, 207,
    160, 297, 250, 19, 340, 109, 62, 199, 152, 289, 242, 11, 332, 101, 54, 191,
    144, 281, 234, 3, 324, 93, 46, 183, 136, 273, 226, 363, 316, 85, 38, 175,
    128, 265, 218, 355, 308, 77, 30, 167, 120, 257, 210, 347, 300, 69, 22, 159,
    112, 249, 202, 339, 292, 61, 14, 151, 104, 241, 194, 331, 284, 53, 6, 143,
    96, 233, 186, 323, 276, 45, 366, 135, 88, 225, 178, 315, 268, 37, 358, 127,
    80, 217, 170, 307, 260, 29, 350, 119, 72, 209, 162, 299, 252, 21, 342, 111,
    64, 201, 154, 291, 244, 13, 334, 103, 56, 193, 146, 283, 236, 5, 326, 95,
    48, 185, 138, 275, 228, 365, 318, 87, 40, 177, 130, 267, 220, 357, 310, 79,
    32, 169, 122, 259, 212, 349, 302, 71, 24, 161, 114, 251, 204, 341, 294, 63,
    16, 153, 106, 243, 196, 333, 286, 55, 8, 145, 98, 235, 188, 325, 278, 47]"

definition reorder_bits :: "bytes \<Rightarrow> bytes" where
  "reorder_bits inp = map (\<lambda>i. inp ! unat (intrl_seq ! i)) [0..<368]"

definition reorder_soft_bits :: "nat list \<Rightarrow> nat list" where
  "reorder_soft_bits inp = map (\<lambda>i. inp ! unat (intrl_seq ! i)) [0..<368]"

definition rand_seq :: bytes where
  "rand_seq = [
    0xD6, 0xB5, 0xE2, 0x30, 0x82, 0xFF, 0x84, 0x62, 0xBA, 0x4E, 0x96, 0x90, 0xD8, 0x98, 0xDD, 0x5D, 0x0C, 0xC8, 0x52, 0x43, 0x91, 0x1D, 0xF8,
    0x6E, 0x68, 0x2F, 0x35, 0xDA, 0x14, 0xEA, 0xCD, 0x76, 0x19, 0x8D, 0xD5, 0x80, 0xD1, 0x33, 0x87, 0x13, 0x57, 0x18, 0x2D, 0x29, 0x78, 0xC3]"

definition rand_bit :: "nat \<Rightarrow> bool" where
  "rand_bit i \<longleftrightarrow> drop_bit (7 - i mod 8) (rand_seq ! (i div 8)) AND 1 \<noteq> 0"

definition randomize_bits :: "bytes \<Rightarrow> bytes" where
  "randomize_bits inp = map (\<lambda>i. if rand_bit i then (if inp ! i \<noteq> 0 then 0 else 1) else inp ! i) [0..<368]"

definition randomize_soft_bits :: "nat list \<Rightarrow> nat list" where
  "randomize_soft_bits inp = map (\<lambda>i. if rand_bit i then soft_bit_NOT (inp ! i) else inp ! i) [0..<368]"

subsection \<open>Symbols\<close>

datatype pream_t = PREAM_LSF | PREAM_BERT
datatype frame_t = FRAME_LSF | FRAME_STR | FRAME_PKT

definition symbol_map :: "int list" where "symbol_map = [1, 3, -1, -3]"
definition symbol_list :: "int list" where "symbol_list = [-3, -1, 1, 3]"
definition eot_symbols :: "int list" where "eot_symbols = [3, 3, 3, 3, 3, 3, -3, 3]"

definition SYNC_LSF :: u16 where "SYNC_LSF = 0x55F7"
definition SYNC_STR :: u16 where "SYNC_STR = 0xFF5D"
definition SYNC_PKT :: u16 where "SYNC_PKT = 0x75FF"

text \<open>The output is the list of the symbols written so far; its length is the counter.\<close>

definition send_preamble :: "int list \<Rightarrow> pream_t \<Rightarrow> int list" where
  "send_preamble out type = out @ concat (replicate 96 (if type = PREAM_BERT then [-3, 3] else [3, -3]))"

definition send_syncword :: "int list \<Rightarrow> u16 \<Rightarrow> int list" where
  "send_syncword out syncword = out @ map (\<lambda>i. symbol_map ! unat (drop_bit (14 - 2 * i) syncword AND 3)) [0..<8]"

text \<open>A byte that is not a bit may lead out of the table, which has no result.\<close>

definition send_data :: "int list \<Rightarrow> bytes \<Rightarrow> int list option" where
  "send_data out inp =
    do { ys \<leftarrow> those (map (\<lambda>i. mem_get symbol_map (unat (inp ! (2 * i)) * 2 + unat (inp ! (2 * i + 1)))) [0..<184]); Some (out @ ys) }"

definition send_eot :: "int list \<Rightarrow> int list" where
  "send_eot out = out @ map (\<lambda>i. eot_symbols ! (i mod 8)) [0..<192]"

text \<open>
  A whole frame: the synchronization word and the bits before interleaving, for the three types of frames. The array
  \<open>lich\<close> is not initialized; its bytes are an argument.
\<close>

definition frame_sync :: "frame_t \<Rightarrow> u16" where
  "frame_sync type = (case type of FRAME_LSF \<Rightarrow> SYNC_LSF | FRAME_STR \<Rightarrow> SYNC_STR | FRAME_PKT \<Rightarrow> SYNC_PKT)"

definition frame_enc_bits :: "bytes \<Rightarrow> frame_t \<Rightarrow> lsf_t \<Rightarrow> nat \<Rightarrow> u16 \<Rightarrow> bytes \<Rightarrow> bytes" where
  "frame_enc_bits data type lsf lich_cnt fn lich =
    (case type of
       FRAME_LSF \<Rightarrow> conv_encode_LSF lsf
     | FRAME_STR \<Rightarrow> unpack_LICH (encode_LICH (extract_LICH lich lich_cnt lsf)) @ conv_encode_stream_frame data fn
     | FRAME_PKT \<Rightarrow> conv_encode_packet_frame data)"

definition send_frame :: "bytes \<Rightarrow> frame_t \<Rightarrow> lsf_t \<Rightarrow> nat \<Rightarrow> u16 \<Rightarrow> bytes \<Rightarrow> int list option" where
  "send_frame data type lsf lich_cnt fn lich =
    (let out = send_syncword [] (frame_sync type);
         rf_bits = randomize_bits (reorder_bits (frame_enc_bits data type lsf lich_cnt fn lich))
     in send_data out rf_bits)"

text \<open>The soft dibit of a sample that is a whole number; the conversion to an integer drops the half.\<close>

definition slice_sample :: "int \<Rightarrow> nat list" where
  "slice_sample x =
    [if x \<ge> symbol_list ! 2 then 0
     else if x \<ge> symbol_list ! 1 then nat ((2 * 0x7FFF - x * 0xFFFF) div 2)
     else 0xFFFF,
     if x \<ge> symbol_list ! 3 then 0xFFFF
     else if x \<ge> symbol_list ! 2 then nat ((x * 0xFFFF - 0xFFFF * symbol_list ! 2) div 2)
     else if x \<ge> symbol_list ! 1 then 0
     else if x \<ge> symbol_list ! 0 then nat ((0xFFFF * symbol_list ! 1 - x * 0xFFFF) div 2)
     else 0xFFFF]"

definition slice_symbols :: "int list \<Rightarrow> nat list" where
  "slice_symbols inp = concat (map slice_sample (take 184 inp))"

section \<open>The interleaver\<close>

text \<open>The table follows a quadratic formula, which is checked entry by entry, and is its own inverse.\<close>

fun quadratic :: "u16 \<Rightarrow> u16 list \<Rightarrow> bool" where
  "quadratic i [] \<longleftrightarrow> True"
| "quadratic i (x # xs) \<longleftrightarrow> x = (45 * i + 92 * (i mod 2)) mod 368 \<and> quadratic (1 + i) xs"

lemma intrl_seq_quadratic: "quadratic 0 intrl_seq"
  by code_simp

lemma length_intrl_seq: "length intrl_seq = 368"
  by (simp add: intrl_seq_def)

lemma quadratic_nth:
  "quadratic k xs \<Longrightarrow> j < length xs \<Longrightarrow> xs ! j = (45 * (k + of_nat j) + 92 * ((k + of_nat j) mod 2)) mod 368"
proof (induction xs arbitrary: k j)
  case (Cons x xs)
  show ?case
  proof (cases j)
    case 0
    then show ?thesis using Cons.prems by simp
  next
    case (Suc i)
    then show ?thesis using Cons.IH [of "1 + k" i] Cons.prems by (simp add: add.commute add.left_commute)
  qed
qed simp

definition place :: "nat \<Rightarrow> nat" where
  "place i = unat (intrl_seq ! i)"

lemma place_eq:
  assumes "i < 368"
  shows "place i = (45 * i + 92 * (i mod 2)) mod 368"
proof -
  have i: "unat (of_nat i :: u16) = i" using assms by (intro unat_of_nat_small) simp
  have m: "unat (of_nat i mod 2 :: u16) = i mod 2" unfolding unat_mod_distrib i by simp
  have "unat (92 * (of_nat i mod 2) :: u16) = 92 * (i mod 2)"
    using mod_less_divisor [of 2 i] unfolding unat_word_ariths(2) m by simp
  moreover have "unat (45 * of_nat i :: u16) = 45 * i" using assms unfolding unat_word_ariths(2) i by simp
  ultimately have "unat (45 * of_nat i + 92 * (of_nat i mod 2) :: u16) = 45 * i + 92 * (i mod 2)"
    using assms mod_less_divisor [of 2 i] unfolding unat_word_ariths(1) by simp
  then show ?thesis using quadratic_nth [OF intrl_seq_quadratic, of i] assms
    by (simp add: place_def length_intrl_seq unat_mod_distrib)
qed

lemma place_less: "i < 368 \<Longrightarrow> place i < 368"
  by (simp add: place_eq)

lemma place_involution:
  assumes "i < 368"
  shows "place (place i) = i"
proof -
  have inner: "(45 * (m mod 368) + z) mod 368 = (45 * m + z) mod 368" for m z :: nat by (metis mod_add_left_eq mod_mult_right_eq)
  have "place (place i) = (45 * place i + 92 * (place i mod 2)) mod 368" by (rule place_eq [OF place_less [OF assms]])
  also have "place i mod 2 = i mod 2"
  proof -
    have "place i mod 2 = (45 * i + 92 * (i mod 2)) mod 2" unfolding place_eq [OF assms] by (rule mod_mod_cancel) simp
    also have "45 * i + 92 * (i mod 2) = i + 2 * (22 * i + 46 * (i mod 2))" by simp
    finally show ?thesis by (simp only: mod_mult_self2)
  qed
  also have "(45 * place i + 92 * (i mod 2)) mod 368 = (45 * (45 * i + 92 * (i mod 2)) + 92 * (i mod 2)) mod 368"
    unfolding place_eq [OF assms] by (rule inner)
  also have "45 * (45 * i + 92 * (i mod 2)) + 92 * (i mod 2) = 2025 * i + 4232 * (i mod 2)" by (simp add: algebra_simps)
  also have "(2025 * i + 4232 * (i mod 2)) mod 368 = i"
  proof (cases "even i")
    case True
    then obtain k where "i = 2 * k" by blast
    then have "2025 * i + 4232 * (i mod 2) = i + 368 * (11 * k)" by simp
    then show ?thesis using assms by (simp only: mod_mult_self2 mod_less)
  next
    case False
    then obtain k where k: "i = 2 * k + 1" by (elim oddE)
    then have "2025 * i + 4232 * (i mod 2) = i + 368 * (11 * k + 17)" by simp
    then show ?thesis using assms by (simp only: mod_mult_self2 mod_less)
  qed
  finally show ?thesis .
qed

section \<open>The receiver\<close>

lemma near_NOT: "near t b v \<Longrightarrow> near t (\<not> b) (soft_bit_NOT v)"
  by (auto simp: near_def soft_bit_NOT_def split: if_splits)

definition all_bits :: "bytes \<Rightarrow> bool" where
  "all_bits bs \<longleftrightarrow> (\<forall>b \<in> set bs. b = 0 \<or> b = 1)"

lemma reorder_nth: "i < 368 \<Longrightarrow> reorder_bits bs ! i = bs ! place i" "i < 368 \<Longrightarrow> reorder_soft_bits vs ! i = vs ! place i"
  by (simp_all add: reorder_bits_def reorder_soft_bits_def place_def)

lemma received_unscrambled:
  assumes "length bs = 368" "all_bits bs" "received t (randomize_bits (reorder_bits bs)) c"
  shows "received t bs (reorder_soft_bits (randomize_soft_bits c))"
proof -
  have "near t (bs ! i = 1) (reorder_soft_bits (randomize_soft_bits c) ! i)" if i: "i < 368" for i
  proof -
    let ?k = "place i"
    have k: "?k < 368" by (rule place_less [OF i])
    have x: "reorder_bits bs ! ?k = bs ! i" by (simp add: reorder_nth k place_involution i)
    have b: "bs ! i = 0 \<or> bs ! i = 1" using assms(1,2) i by (simp add: all_bits_def)
    have "near t (randomize_bits (reorder_bits bs) ! ?k = 1) (c ! ?k)"
      using assms(3) k by (simp add: received_def randomize_bits_def)
    then have n: "near t (if rand_bit ?k then bs ! i \<noteq> 1 else bs ! i = 1) (c ! ?k)"
      using b k x by (auto simp: randomize_bits_def)
    have "reorder_soft_bits (randomize_soft_bits c) ! i = (if rand_bit ?k then soft_bit_NOT (c ! ?k) else c ! ?k)"
      by (simp add: reorder_nth i randomize_soft_bits_def k)
    then show ?thesis using n near_NOT [of t "bs ! i \<noteq> 1" "c ! ?k"] by (simp split: if_splits)
  qed
  then show ?thesis using assms(1) by (simp add: received_def reorder_soft_bits_def del: upt_conv_Cons)
qed

lemma all_bits_of_bool [simp]: "all_bits (map of_bool bs)"
  by (auto simp: all_bits_def)

lemma all_bits_append [simp]: "all_bits (xs @ ys) \<longleftrightarrow> all_bits xs \<and> all_bits ys"
  by (auto simp: all_bits_def)

lemma conv_encode_framed:
  assumes "n = length w + 4" "pat \<noteq> []"
  shows "all_bits (conv_encode pat (map of_bool (framed w)) n)"
    "length (conv_encode pat (map of_bool (framed w)) n) = length (filter (\<lambda>b. b) (sent_flags pat pat (2 * n)))"
proof -
  have "n + 4 \<le> length (framed w)" using assms(1) by (simp add: framed_def)
  from conv_encode_bits [OF this, of pat]
  have e: "conv_encode pat (map of_bool (framed w)) n = map of_bool (punct_bits pat 0 (code (framed w) n))" .
  show "all_bits (conv_encode pat (map of_bool (framed w)) n)" unfolding e by simp
  show "length (conv_encode pat (map of_bool (framed w)) n) = length (filter (\<lambda>b. b) (sent_flags pat pat (2 * n)))"
    unfolding e using length_punct_bits [of 0 pat "code (framed w) n"] assms(2) by simp
qed

lemma patterns_nonempty [simp]: "puncture_pattern_1 \<noteq> []" "puncture_pattern_2 \<noteq> []" "puncture_pattern_3 \<noteq> []"
  by (simp_all add: puncture_pattern_1_def puncture_pattern_2_def puncture_pattern_3_def)

lemma LSF_bits:
  assumes "lsf_ok l"
  shows "length (conv_encode_LSF l) = 368" "all_bits (conv_encode_LSF l)"
proof -
  have n: "244 = length (bits (lsf_bytes l)) + 4" using assms by (simp add: lsf_ok_def lsf_bytes_def)
  show "length (conv_encode_LSF l) = 368" "all_bits (conv_encode_LSF l)"
    using conv_encode_framed [OF n patterns_nonempty(1)] flags_checked(1) by (simp_all add: LSF_code [OF assms] Let_def)
qed

lemma stream_bits:
  assumes "16 \<le> length inp"
  shows "length (conv_encode_stream_frame inp fn) = 272" "all_bits (conv_encode_stream_frame inp fn)"
proof -
  have n: "148 = length (bits (fn_bytes fn @ take 16 inp)) + 4" using assms by (simp add: fn_bytes_def)
  show "length (conv_encode_stream_frame inp fn) = 272" "all_bits (conv_encode_stream_frame inp fn)"
    using conv_encode_framed [OF n patterns_nonempty(2)] flags_checked(2) by (simp_all add: stream_code Let_def)
qed

lemma packet_bits:
  assumes "26 \<le> length inp"
  shows "length (conv_encode_packet_frame inp) = 368" "all_bits (conv_encode_packet_frame inp)"
proof -
  have n: "210 = length (take 206 (bits (take 26 inp))) + 4" using assms by simp
  show "length (conv_encode_packet_frame inp) = 368" "all_bits (conv_encode_packet_frame inp)"
    using conv_encode_framed [OF n patterns_nonempty(3)] flags_checked(3) by (simp_all add: packet_code Let_def)
qed

lemma LICH_bits: "length (unpack_LICH (encode_LICH x)) = 96" "all_bits (unpack_LICH (encode_LICH x))"
  unfolding unpack_encode_LICH by (auto simp: LICH_words_def Let_def all_bits_def of_bool_def)

section \<open>Symbols\<close>

lemma those_map: "\<forall>x \<in> set xs. f x = Some (g x) \<Longrightarrow> those (map f xs) = Some (map g xs)"
  by (induction xs) simp_all

definition dibit_symbol :: "bytes \<Rightarrow> nat \<Rightarrow> int" where
  "dibit_symbol bs i = symbol_map ! (unat (bs ! (2 * i)) * 2 + unat (bs ! (2 * i + 1)))"

lemma all_bits_nth: "all_bits bs \<Longrightarrow> j < length bs \<Longrightarrow> bs ! j = 0 \<or> bs ! j = 1"
  by (simp add: all_bits_def)

lemma send_data_symbols:
  assumes "length bs = 368" "all_bits bs"
  shows "send_data out bs = Some (out @ map (dibit_symbol bs) [0..<184])"
proof -
  have "mem_get symbol_map (unat (bs ! (2 * i)) * 2 + unat (bs ! (2 * i + 1))) = Some (dibit_symbol bs i)" if "i < 184" for i
    using all_bits_nth [OF assms(2), of "2 * i"] all_bits_nth [OF assms(2), of "2 * i + 1"] that assms(1)
    by (auto simp: dibit_symbol_def symbol_map_def)
  then show ?thesis unfolding send_data_def by (subst those_map [where g = "dibit_symbol bs"]) simp_all
qed

lemma slice_samples:
  "slice_sample 1 = [0, 0]" "slice_sample 3 = [0, 0xFFFF]" "slice_sample (-1) = [0xFFFE, 0]" "slice_sample (-3) = [0xFFFF, 0xFFFF]"
  by (simp_all add: slice_sample_def symbol_list_def)

lemma slice_dibit:
  assumes "length bs = 368" "all_bits bs" "i < 184"
  shows "near 1 (bs ! (2 * i) = 1) (slice_sample (dibit_symbol bs i) ! 0)" "near 1 (bs ! (2 * i + 1) = 1) (slice_sample (dibit_symbol bs i) ! 1)"
proof -
  have "bs ! (2 * i) = 0 \<or> bs ! (2 * i) = 1" "bs ! (2 * i + 1) = 0 \<or> bs ! (2 * i + 1) = 1"
    using all_bits_nth [OF assms(2), of "2 * i"] all_bits_nth [OF assms(2), of "2 * i + 1"] assms(1,3) by simp_all
  then show "near 1 (bs ! (2 * i) = 1) (slice_sample (dibit_symbol bs i) ! 0)" "near 1 (bs ! (2 * i + 1) = 1) (slice_sample (dibit_symbol bs i) ! 1)"
    by (auto simp: dibit_symbol_def symbol_map_def slice_samples near_def)
qed

lemma concat_pairs: "\<forall>x. length (f x) = 2 \<Longrightarrow> i < length xs \<Longrightarrow> concat (map f xs) ! (2 * i) = f (xs ! i) ! 0 \<and> concat (map f xs) ! (2 * i + 1) = f (xs ! i) ! 1"
proof (induction xs arbitrary: i)
  case (Cons x xs)
  then show ?case by (cases i) (auto simp: nth_append)
qed simp

lemma length_slice: "length (slice_sample x) = 2"
  by (simp add: slice_sample_def)

lemma sliced_symbols:
  assumes "length bs = 368" "all_bits bs"
  shows "received 1 bs (slice_symbols (map (dibit_symbol bs) [0..<184]))"
proof -
  let ?s = "slice_symbols (map (dibit_symbol bs) [0..<184])"
  have e: "?s = concat (map slice_sample (map (dibit_symbol bs) [0..<184]))" by (simp add: slice_symbols_def del: upt_conv_Cons)
  have "length ?s = 368" unfolding e by (simp add: length_concat comp_def length_slice sum_list_triv del: upt_conv_Cons)
  moreover have "near 1 (bs ! j = 1) (?s ! j)" if "j < 368" for j
  proof -
    have i: "j div 2 < 184" using that by (simp add: less_mult_imp_div_less)
    have p: "?s ! (2 * (j div 2)) = slice_sample (dibit_symbol bs (j div 2)) ! 0" "?s ! (2 * (j div 2) + 1) = slice_sample (dibit_symbol bs (j div 2)) ! 1"
      using concat_pairs [of slice_sample "j div 2" "map (dibit_symbol bs) [0..<184]"] i unfolding e by (simp_all add: length_slice)
    show ?thesis
    proof (cases "even j")
      case True
      then show ?thesis using slice_dibit(1) [OF assms i] p(1) by simp
    next
      case False
      then show ?thesis using slice_dibit(2) [OF assms i] p(2) by simp
    qed
  qed
  ultimately show ?thesis using assms(1) by (simp add: received_def)
qed

lemma near_shift: "near s b v \<Longrightarrow> q_abs_diff u v \<le> t \<Longrightarrow> u \<le> 0xFFFF \<Longrightarrow> near (s + t) b u"
  by (auto simp: near_def q_abs_diff_def split: if_splits)

text \<open>The functions of the receiver in their order: payload of the channel beside a stream frame, and payload of the frame.\<close>

definition read_frame :: "frame_t \<Rightarrow> bytes \<Rightarrow> nat list \<Rightarrow> (bytes \<times> bytes) option" where
  "read_frame type out c =
    (let d = reorder_soft_bits (randomize_soft_bits c) in
     case type of
       FRAME_LSF \<Rightarrow> map_option (\<lambda>(written, cost). ([], take 31 written)) (viterbi_decode_punctured out d puncture_pattern_1)
     | FRAME_STR \<Rightarrow> map_option (\<lambda>(written, cost). (decode_LICH (take 96 d), take 19 written)) (viterbi_decode_punctured out (drop 96 d) puncture_pattern_2)
     | FRAME_PKT \<Rightarrow> map_option (\<lambda>(written, cost). ([], take 27 written)) (viterbi_decode_punctured out d puncture_pattern_3))"

definition frame_content :: "bytes \<Rightarrow> frame_t \<Rightarrow> lsf_t \<Rightarrow> nat \<Rightarrow> u16 \<Rightarrow> bytes \<Rightarrow> bytes \<times> bytes" where
  "frame_content data type lsf lich_cnt fn lich =
    (case type of
       FRAME_LSF \<Rightarrow> ([], 0 # lsf_bytes lsf)
     | FRAME_STR \<Rightarrow> (extract_LICH lich lich_cnt lsf, 0 # fn_bytes fn @ take 16 data)
     | FRAME_PKT \<Rightarrow> ([], 0 # take 25 data @ [data ! 25 AND 0xFC]))"

definition frame_ok :: "bytes \<Rightarrow> frame_t \<Rightarrow> lsf_t \<Rightarrow> nat \<Rightarrow> bool" where
  "frame_ok data type lsf lich_cnt \<longleftrightarrow>
    (case type of FRAME_LSF \<Rightarrow> lsf_ok lsf | FRAME_STR \<Rightarrow> lsf_ok lsf \<and> lich_cnt < 6 \<and> 16 \<le> length data | FRAME_PKT \<Rightarrow> 26 \<le> length data)"

lemma frame_enc_bits:
  "frame_ok data type lsf lich_cnt \<Longrightarrow> length (frame_enc_bits data type lsf lich_cnt fn lich) = 368 \<and> all_bits (frame_enc_bits data type lsf lich_cnt fn lich)"
  by (cases type) (simp_all add: frame_ok_def frame_enc_bits_def LSF_bits stream_bits packet_bits LICH_bits)

lemma received_mono: "received s bs c \<Longrightarrow> s \<le> t \<Longrightarrow> received t bs c"
  by (auto simp: received_def intro: near_mono)

lemma received_append:
  assumes "received t (xs @ ys) c"
  shows "received t xs (take (length xs) c)" "received t ys (drop (length xs) c)"
proof -
  have c: "length c = length xs + length ys" "\<And>i. i < length xs + length ys \<Longrightarrow> near t ((xs @ ys) ! i = 1) (c ! i)"
    using assms by (simp_all add: received_def)
  have "near t (xs ! i = 1) (c ! i)" if "i < length xs" for i using c(2) [of i] that by (simp add: nth_append)
  then show "received t xs (take (length xs) c)" using c(1) by (simp add: received_def)
  show "received t ys (drop (length xs) c)"
    unfolding received_def using c(1) c(2) [of "length xs + i" for i] by simp
qed

lemma received_LICH:
  assumes "received 4000 (unpack_LICH (encode_LICH x)) c" "length x = 6"
  shows "decode_LICH c = x"
  using assms by (intro LICH_decodes [where flipped = "\<lambda>i. False"]) (simp_all add: received_def LICH_bits)

lemma read_frame_content:
  assumes "frame_ok data type lsf lich_cnt" "31 \<le> length out"
    and "received 4000 (randomize_bits (reorder_bits (frame_enc_bits data type lsf lich_cnt fn lich))) c"
  shows "read_frame type out c = Some (frame_content data type lsf lich_cnt fn lich)"
proof -
  let ?d = "reorder_soft_bits (randomize_soft_bits c)"
  have d: "received 4000 (frame_enc_bits data type lsf lich_cnt fn lich) ?d"
    using frame_enc_bits [OF assms(1), of fn lich] assms(3) by (intro received_unscrambled) simp_all
  show ?thesis
  proof (cases type)
    case FRAME_LSF
    then have "received 32000 (conv_encode_LSF lsf) ?d" "lsf_ok lsf"
      using d assms(1) by (simp_all add: frame_enc_bits_def frame_ok_def received_mono)
    then show ?thesis using decode_LSF [of lsf ?d out] assms(2) FRAME_LSF by (auto simp: read_frame_def frame_content_def)
  next
    case FRAME_STR
    then have f: "lsf_ok lsf" "16 \<le> length data" "lich_cnt < 6" using assms(1) by (simp_all add: frame_ok_def)
    let ?x = "extract_LICH lich lich_cnt lsf"
    have x: "length ?x = 6" using f(3) by (auto simp: extract_LICH_def Let_def)
    have a: "received 4000 (unpack_LICH (encode_LICH ?x) @ conv_encode_stream_frame data fn) ?d"
      using d FRAME_STR by (simp add: frame_enc_bits_def)
    have "received 4000 (unpack_LICH (encode_LICH ?x)) (take 96 ?d)" using received_append(1) [OF a] by (simp add: LICH_bits)
    then have "decode_LICH (take 96 ?d) = ?x" using x by (rule received_LICH)
    moreover have "received 32000 (conv_encode_stream_frame data fn) (drop 96 ?d)"
    proof (rule received_mono)
      show "received 4000 (conv_encode_stream_frame data fn) (drop 96 ?d)" using received_append(2) [OF a] by (simp only: LICH_bits)
    qed simp
    ultimately show ?thesis using decode_stream [OF f(2), of fn "drop 96 ?d" out] assms(2) FRAME_STR
      by (auto simp: read_frame_def frame_content_def)
  next
    case FRAME_PKT
    then have "received 32000 (conv_encode_packet_frame data) ?d" "26 \<le> length data"
      using d assms(1) by (simp_all add: frame_enc_bits_def frame_ok_def received_mono)
    then show ?thesis using decode_packet [of data ?d out] assms(2) FRAME_PKT by (auto simp: read_frame_def frame_content_def)
  qed
qed

lemma send_frame_symbols:
  assumes "frame_ok data type lsf lich_cnt"
  shows "\<exists>syms. send_frame data type lsf lich_cnt fn lich = Some (send_syncword [] (frame_sync type) @ syms) \<and> length syms = 184 \<and>
    received 1 (randomize_bits (reorder_bits (frame_enc_bits data type lsf lich_cnt fn lich))) (slice_symbols syms)"
proof -
  let ?e = "frame_enc_bits data type lsf lich_cnt fn lich"
  let ?b = "randomize_bits (reorder_bits ?e)"
  have e: "length ?e = 368" "all_bits ?e" using frame_enc_bits [OF assms] by simp_all
  have r: "reorder_bits ?e ! i = 0 \<or> reorder_bits ?e ! i = 1" if "i < 368" for i
    using all_bits_nth [OF e(2), of "place i"] place_less [OF that] that e(1) by (simp add: reorder_nth)
  have l: "length ?b = 368" by (simp add: randomize_bits_def)
  have "?b ! i = 0 \<or> ?b ! i = 1" if "i < 368" for i using r [OF that] that by (auto simp: randomize_bits_def simp del: upt_conv_Cons)
  then have b: "all_bits ?b" unfolding all_bits_def by (metis in_set_conv_nth l)
  have "send_frame data type lsf lich_cnt fn lich = Some (send_syncword [] (frame_sync type) @ map (dibit_symbol ?b) [0..<184])"
    unfolding send_frame_def Let_def using send_data_symbols [OF l b] by simp
  moreover have "length (map (dibit_symbol ?b) [0..<184]) = 184" by simp
  ultimately show ?thesis using sliced_symbols [OF l b] by blast
qed

lemma slice_sample_bound: "v \<in> set (slice_sample x) \<Longrightarrow> v \<le> 0xFFFF"
proof -
  assume "v \<in> set (slice_sample x)"
  then have "v = slice_sample x ! 0 \<or> v = slice_sample x ! 1" by (simp add: slice_sample_def)
  moreover have "slice_sample x ! 0 \<le> 0xFFFF"
  proof (cases "x < -1 \<or> 1 \<le> x")
    case False
    then have "x = -1 \<or> x = 0" by linarith
    then show ?thesis by (auto simp: slice_sample_def symbol_list_def)
  qed (auto simp: slice_sample_def symbol_list_def)
  moreover have "slice_sample x ! 1 \<le> 0xFFFF"
  proof (cases "x < -3 \<or> -1 \<le> x \<and> x < 1 \<or> 3 \<le> x")
    case False
    then have "x = -3 \<or> x = -2 \<or> x = 1 \<or> x = 2" by linarith
    then show ?thesis by (auto simp: slice_sample_def symbol_list_def)
  qed (auto simp: slice_sample_def symbol_list_def)
  ultimately show "v \<le> 0xFFFF" by auto
qed

lemma slice_bound: "v \<in> set (slice_symbols xs) \<Longrightarrow> v \<le> 0xFFFF"
  using slice_sample_bound by (fastforce simp: slice_symbols_def)

lemma length_slice_symbols: "length xs = 184 \<Longrightarrow> length (slice_symbols xs) = 368"
  by (simp add: slice_symbols_def length_concat comp_def length_slice sum_list_triv)

lemma length_send_syncword: "length (send_syncword [] w) = 8"
  by (simp add: send_syncword_def)

text \<open>
  C40. A frame survives the air. For every type of frame with a payload and a link setup of the size that is read, \<open>send_frame\<close> writes 192
  symbols, the first 8 of them the synchronization word of the type. Slicing the other 184 gives 368 soft bits; whatever noise changes
  each of them by up to 3999 of 65535, the receiver, which undoes the randomizing and the interleaving and then decodes the
  convolutional code and the Golay code of the link channel, finds exactly the content: the link setup frame, the frame
  number with the payload and the piece of the link setup, or the packet bytes with the six bits of the last one.
\<close>

theorem frame_roundtrip:
  assumes "frame_ok data type lsf lich_cnt" "31 \<le> length out"
  shows "\<exists>syms. send_frame data type lsf lich_cnt fn lich = Some syms \<and> length syms = 192 \<and>
    take 8 syms = send_syncword [] (frame_sync type) \<and>
    (\<forall>c. length c = 368 \<and> (\<forall>i < 368. c ! i \<le> 0xFFFF \<and> q_abs_diff (c ! i) (slice_symbols (drop 8 syms) ! i) \<le> 3999) \<longrightarrow>
       read_frame type out c = Some (frame_content data type lsf lich_cnt fn lich))"
proof -
  let ?b = "randomize_bits (reorder_bits (frame_enc_bits data type lsf lich_cnt fn lich))"
  obtain syms where s: "send_frame data type lsf lich_cnt fn lich = Some (send_syncword [] (frame_sync type) @ syms)"
    "length syms = 184" "received 1 ?b (slice_symbols syms)"
    using send_frame_symbols [OF assms(1)] by blast
  have d: "drop 8 (send_syncword [] (frame_sync type) @ syms) = syms" "take 8 (send_syncword [] (frame_sync type) @ syms) = send_syncword [] (frame_sync type)"
    by (simp_all add: length_send_syncword)
  have l: "length ?b = 368" by (simp add: randomize_bits_def)
  have "read_frame type out c = Some (frame_content data type lsf lich_cnt fn lich)"
    if c: "length c = 368" "\<forall>i < 368. c ! i \<le> 0xFFFF \<and> q_abs_diff (c ! i) (slice_symbols syms ! i) \<le> 3999" for c
  proof -
    have "near 4000 (?b ! i = 1) (c ! i)" if i: "i < 368" for i
      using near_shift [of 1 "?b ! i = 1" "slice_symbols syms ! i" "c ! i" 3999] s(3) l c(2) i by (simp add: received_def)
    then have "received 4000 ?b c" using c(1) l by (simp add: received_def)
    then show ?thesis by (rule read_frame_content [OF assms])
  qed
  then show ?thesis using s(1,2) d
    by (intro exI [of _ "send_syncword [] (frame_sync type) @ syms"]) (simp add: length_send_syncword)
qed

definition demo_lsf :: lsf_t where
  "demo_lsf = \<lparr> lsf_dst = replicate 6 0xFF, lsf_src = [0, 0, 0x1F, 0x24, 0x5D, 0x51], lsf_type = [0, 5], lsf_meta = replicate 14 0, lsf_crc = [0x12, 0x34] \<rparr>"

theorem frame_roundtrip_witness:
  "\<exists>syms. send_frame (replicate 26 0xA7) FRAME_PKT demo_lsf 0 0 [] = Some syms \<and>
    read_frame FRAME_PKT (replicate 40 0x55) (slice_symbols (drop 8 syms)) = Some ([], 0 # replicate 25 0xA7 @ [0xA4])"
proof -
  have "frame_ok (replicate 26 0xA7) FRAME_PKT demo_lsf 0" "31 \<le> length (replicate 40 (0x55 :: u8))" by (simp_all add: frame_ok_def)
  from frame_roundtrip [OF this, of 0 "[]"] obtain syms where s: "send_frame (replicate 26 0xA7) FRAME_PKT demo_lsf 0 0 [] = Some syms" "length syms = 192"
    "\<forall>c. length c = 368 \<and> (\<forall>i < 368. c ! i \<le> 0xFFFF \<and> q_abs_diff (c ! i) (slice_symbols (drop 8 syms) ! i) \<le> 3999) \<longrightarrow>
       read_frame FRAME_PKT (replicate 40 0x55) c = Some (frame_content (replicate 26 0xA7) FRAME_PKT demo_lsf 0 0 [])" by blast
  let ?c = "slice_symbols (drop 8 syms)"
  have l: "length ?c = 368" using s(2) by (intro length_slice_symbols) simp
  then have "?c ! i \<le> 0xFFFF \<and> q_abs_diff (?c ! i) (?c ! i) \<le> 3999" if "i < 368" for i
    using slice_bound [of "?c ! i" "drop 8 syms"] that by (simp add: q_abs_diff_def)
  with s(1,3) l show ?thesis by (intro exI [of _ syms]) (simp add: frame_content_def)
qed

end
