(* ===== verification/Spec2Isabelle.thy ===== *)
theory Spec2Isabelle
  imports Prelude_C Imp_Hash Imp_Siphash Imp_Utils Imp_Lrat Imp_Rup Imp_Valid Imp_Top Imp_Sound Imp_Parser
    Imp_Protocol Circular_Buffer Libcsv Libcsv_Spec Libutf Libutf_Spec Libutf16 Libutf_Convert Libutf32 Libutf_Latin1
    Utf8_String Utf8_String_Spec Utf8_String_Edit Utf8_String_Props
    Mega_Lzma Mega_Decode Mega_Sync Mega_Packet Mega_Range Mega_Heap Mega_Enum Mega_Table Mega_Finder Mega_Slab Mega_Neighbour Mega_Main Mega_Live
    M17_Soft M17_Golay M17_Payload M17_Fec M17_Frame
begin

text \<open>
  Verification of C programs of this repository.

  The repository translates C programs to Rust with a language model and checks the results by symbolic
  execution. The tool itself is Python and C++ over LLVM and KLEE; its C code is the corpus of programs
  that it translates, \<open>src/src/python/inputs-complex\<close>. This development models the programs of the corpus
  named below from their sources, function by function and under the names of the C code, and proves
  what makes each of them correct, so that a translation can be measured against a statement and not only
  against tests.

  Conventions (\<open>Prelude_C\<close>). A computation with no defined result (an access outside a block, a failed
  assertion, a signed overflow, a loop that does not end) is \<open>None\<close>; a result is \<open>Some\<close>, and an error that the code
  reports is a value inside. Blocks of memory are lists with checked access (\<open>mem_get\<close>, \<open>mem_set\<close>,
  \<open>mem_slice\<close>). Integers are words where the bits matter, or natural numbers with the wrap-around
  written out (\<open>wadd\<close> and \<open>wsub\<close> for \<open>size_t\<close>). A loop that may not end is a \<open>partial_function\<close>; every other
  recursion is proved to end. What \<open>malloc\<close> returns is an argument of the model, with any content; where the
  code does not test for failure, allocation succeeds.

  \<^item> ImpCheck (\<open>impcheck/src/trusted\<close>), a checker of unsatisfiability proofs. \<open>Imp_Hash\<close>: the clause table
    (\<open>hash.c\<close>), open addressing with deletion by moving entries back, refines a finite map. \<open>Imp_Siphash\<close>: the incremental
    hash (\<open>siphash.c\<close>) does not depend on how its input is cut. \<open>Imp_Utils\<close>: vectors, signatures and hexadecimal text
    (\<open>vec.c\<close>, \<open>trusted_utils.c\<close>). \<open>Imp_Lrat\<close> and \<open>Imp_Valid\<close>: the checker (\<open>lrat_check.c\<close>), its invariant, unit
    propagation over hints, loading and the test of a model; \<open>Imp_Rup\<close> states the check of a derivation as reverse unit
    propagation over sets of literals, which decides exactly what is accepted. \<open>Imp_Top\<close>: the process (\<open>top_check.c\<close>, \<open>confirm.c\<close>,
    \<open>trusted_checker.c\<close>) with its byte protocol. \<open>Imp_Parser\<close>: the formula parser (\<open>trusted_parser.c\<close>). \<open>Imp_Sound\<close>: an accepted
    answer is true of the formula, over any sequence of directives within the conditions of \<open>session_ok\<close> or
    \<open>protocol_ok\<close> (one INIT, no literal 0 inside a clause, literals within the declared variables), with a refutation that is
    accepted to the end. \<open>Imp_Protocol\<close>: parser, checker and
    confirmer together.

  \<^item> \<open>circularbuffer\<close>. \<open>Circular_Buffer\<close>: the ring buffer refines a bounded queue that keeps the newest bytes.

  \<^item> \<open>libcsv\<close>. \<open>Libcsv\<close>: parser, writers and validator; each character refines a step of a scanner with no
    buffer. \<open>Libcsv_Spec\<close>: safety of the parsers that calls within \<open>csv_reach\<close> lead to, independence of how the input is cut, and the round trip of
    written records.

  \<^item> \<open>libutf\<close>. \<open>Libutf\<close>: validation, conversion and length functions. \<open>Libutf_Spec\<close>, \<open>Libutf16\<close>, \<open>Libutf32\<close>,
    \<open>Libutf_Convert\<close>, \<open>Libutf_Latin1\<close>: they agree with the Unicode encoding forms, stated as arithmetic on scalar values, on
    hosts of both byte orders, through the wide ASCII paths and all; on ill-formed UTF-16 the number of bytes written
    is given exactly, and with it when the buffer overflows. \<open>Utf8_String\<close> and the theories named after it: the string builder of
    \<open>include/utf/string.h\<close> refines edits of byte lists.

  \<^item> \<open>megalania\<close>, an LZMA compressor that searches for the smallest output by simulated annealing. The data flow is that
    of the code: a slab has a packet for each position of the file (\<open>Mega_Slab\<close>, with the undo stack, which refines a
    log); a random step changes one packet and repairs those behind it (\<open>Mega_Neighbour\<close>), choosing
    among the cheapest packets that may stand at a position (\<open>Mega_Finder\<close>, over \<open>Mega_Enum\<close>, the enumeration, \<open>Mega_Heap\<close>, and
    \<open>Mega_Table\<close>, the costs); the packets are encoded (\<open>Mega_Lzma\<close>) by calls of an encoder interface, which is the range
    coder (\<open>Mega_Range\<close>) or the sum of costs; \<open>Mega_Main\<close> is the header and \<open>main\<close>. \<open>Mega_Decode\<close> is a reference
    decoder of the format, written for the properties; \<open>Mega_Sync\<close> and \<open>Mega_Packet\<close> show that it follows the encoder over any source
    of bits that reads back its calls (the locale \<open>bit_reader\<close>, interpreted by the list of calls and by the range
    decoder). \<open>Mega_Live\<close>: the output of a run decodes to the file; the runs that do not end on
    a file without two equal bytes. A file of more than 46341 bytes has no result, because \<open>i * i\<close> in \<open>main\<close> overflows.
  \<^item> \<open>libm17\<close>, the M17 digital voice protocol. \<open>M17_Soft\<close>: soft bits (\<open>math/math.c\<close>). \<open>M17_Golay\<close>: the Golay code and the link
    information channel over it; three errors in a codeword are corrected, by a bound on the noise of every soft sum and the
    distance of the code, which is computed. \<open>M17_Payload\<close>: call signs, the checksum and the link setup frame
    (\<open>payload/payload.c\<close>). \<open>M17_Fec\<close>: the convolutional encoders (\<open>encode/encode.c\<close>) and the Viterbi
    decoder (\<open>decode/decode.c\<close>), which finds the input whose code is nearest to what was received.
    \<open>M17_Frame\<close>: the interleaver, the randomizer and the slicer (\<open>phy/phy.c\<close>) and the symbols of a frame (\<open>m17.c\<close>); a frame
    that is sent is read back through noise, by an involution (the interleaver, from a quadratic formula that the table
    satisfies), the decoder for its encoder, and the Golay code for the link channel.

  Interfaces are locales, each interpreted on the model of the code in the theory that provides it: \<open>clause_store\<close>
  (what the checker relies on in its table), \<open>byte_queue\<close>, \<open>bit_reader\<close> and \<open>heap_order\<close>.

  Not modelled. The Python and C++ parts, the Rust output and the generated files (\<open>.i\<close>, \<open>.ll\<close>), and the other programs of the
  corpus: interpreters and compilers over graphs of heap objects, programs whose state is in files or rests on
  OpenSSL, and programs that compute in floating point (\<open>libm17\<close> slices
  samples in floating point and is modelled on whole numbers, where this is exact). Of the programs above: printing to the terminal,
  the mapping and writing of files, the release of memory, and functions that only report memory usage. Processes are modelled up to their byte
  streams; \<open>malloc\<close> failures only where the code handles them.
\<close>

end
